(* ===== verification/Prelude.thy ===== *)
theory Prelude
  imports Main "HOL-Library.Word" "HOL-Library.Char_ord"
begin

text \<open>
  What every component of the development shares: the names of the machine types, the part of the
  C++ standard library's string interface the sources use (searching a character forwards and
  backwards, prefixes and suffixes), the facts that turn shifts, masks and ORs of non-negative
  integers into arithmetic, and the collections of rewrite rules that the component theories fill.

  A C++ \<^verbatim>\<open>std::string\<close>, \<^verbatim>\<open>Slice\<close> or
  \<^verbatim>\<open>MutableSlice\<close> is a \<open>string\<close>, that is a list of bytes: Isabelle's
  \<open>char\<close> has exactly the 256 values of a C++ \<^verbatim>\<open>char\<close>, and
  \<^verbatim>\<open>static_cast<unsigned char>(c)\<close> is \<open>uc c\<close>.
  A \<^verbatim>\<open>size_t\<close> that counts elements held in memory is a \<open>nat\<close>; integers whose
  width matters are words.
\<close>

unbundle bit_operations_syntax

named_theorems status_simps \<open>results, errors and TRY macros\<close>
named_theorems char_simps \<open>the classification and conversion of characters\<close>
named_theorems bit_arith \<open>shifts, masks and disjoint ORs as arithmetic\<close>

subsection \<open>Machine types\<close>

type_synonym uint8 = "8 word"
type_synonym uint32 = "32 word"
type_synonym uint64 = "64 word"

subsection \<open>Characters as numbers\<close>

abbreviation uc :: "char \<Rightarrow> nat" where
  "uc c \<equiv> of_char c"

abbreviation chr :: "nat \<Rightarrow> char" where
  "chr n \<equiv> char_of n"

lemma uc_bound [simp]: "uc c < 256"
  by (cases c) (simp add: of_char_def)

lemma uc_chr [simp]: "n < 256 \<Longrightarrow> uc (chr n) = n"
  by simp

lemma uc_eq_iff: "uc c = uc d \<longleftrightarrow> c = d"
  by simp

lemma uc_eqD: "uc c = n \<Longrightarrow> c = chr n"
  by (metis char_of_char)

lemma char_eq_chr_iff: "n < 256 \<Longrightarrow> c = chr n \<longleftrightarrow> uc c = n"
  by (metis char_of_char uc_chr)

lemma chr_eq_char_iff: "n < 256 \<Longrightarrow> chr n = c \<longleftrightarrow> uc c = n"
  by (metis char_of_char uc_chr)

lemma char_le_iff: "c \<le> d \<longleftrightarrow> uc c \<le> uc d"
  by (simp add: less_eq_char_def)

lemma char_less_iff: "c < d \<longleftrightarrow> uc c < uc d"
  by (simp add: less_char_def)

text \<open>A fact about every byte value can be checked value by value.\<close>

lemma all_char_iff: "(\<forall>c. P c) \<longleftrightarrow> (\<forall>n<256. P (chr n))"
proof
  assume r: "\<forall>n<256. P (chr n)"
  show "\<forall>c. P c"
  proof
    fix c
    have "P (chr (uc c))" using r uc_bound by blast
    then show "P c" by simp
  qed
qed simp

lemma all_less_256: "(\<forall>n<256. P n) \<longleftrightarrow> list_all P [0..<256]"
  for P :: "nat \<Rightarrow> bool"
  by (auto simp: list_all_iff)

subsection \<open>Searching in strings\<close>

text \<open>\<^verbatim>\<open>s.find(c)\<close>: the first position, \<open>None\<close> for
  \<^verbatim>\<open>npos\<close>.\<close>

fun find_char :: "char \<Rightarrow> string \<Rightarrow> nat option" where
  "find_char c [] = None"
| "find_char c (x # xs) = (if x = c then Some 0 else map_option Suc (find_char c xs))"

text \<open>\<^verbatim>\<open>s.rfind(c)\<close>: the last position.\<close>

fun rfind_char :: "char \<Rightarrow> string \<Rightarrow> nat option" where
  "rfind_char c [] = None"
| "rfind_char c (x # xs) =
     (case rfind_char c xs of
        Some i \<Rightarrow> Some (Suc i)
      | None \<Rightarrow> (if x = c then Some 0 else None))"

lemma find_char_None_iff: "find_char c s = None \<longleftrightarrow> c \<notin> set s"
  by (induction s) auto

lemma find_char_Some:
  "find_char c s = Some i \<Longrightarrow> i < length s \<and> s ! i = c \<and> c \<notin> set (take i s)"
  by (induction s arbitrary: i) (auto split: if_splits)

lemma find_char_append:
  "find_char c (xs @ ys) =
     (case find_char c xs of Some i \<Rightarrow> Some i
      | None \<Rightarrow> map_option (\<lambda>i. length xs + i) (find_char c ys))"
  by (induction xs; cases "find_char c ys") (auto split: option.splits)

lemma find_char_first: "c \<notin> set xs \<Longrightarrow> find_char c (xs @ c # ys) = Some (length xs)"
  by (induction xs) auto

lemma find_char_split:
  assumes "find_char c s = Some i"
  shows "s = take i s @ c # drop (Suc i) s"
  using find_char_Some [OF assms] by (metis id_take_nth_drop)

lemma rfind_char_None_iff: "rfind_char c s = None \<longleftrightarrow> c \<notin> set s"
  by (induction s) (auto split: option.splits)

lemma rfind_char_Some:
  "rfind_char c s = Some i \<Longrightarrow> i < length s \<and> s ! i = c \<and> c \<notin> set (drop (Suc i) s)"
  by (induction s arbitrary: i)
     (auto simp: rfind_char_None_iff split: option.splits if_splits)

text \<open>Dropping a run of trailing characters, as loops over \<^verbatim>\<open>back()\<close> and
  \<^verbatim>\<open>remove_suffix(1)\<close> do.\<close>

definition drop_back_while :: "('a \<Rightarrow> bool) \<Rightarrow> 'a list \<Rightarrow> 'a list" where
  "drop_back_while P xs = rev (dropWhile P (rev xs))"

lemma drop_back_while_Nil [simp]: "drop_back_while P [] = []"
  by (simp add: drop_back_while_def)

lemma drop_back_while_snoc [simp]:
  "drop_back_while P (xs @ [x]) = (if P x then drop_back_while P xs else xs @ [x])"
  by (simp add: drop_back_while_def)

lemma drop_back_while_last: "drop_back_while P xs \<noteq> [] \<Longrightarrow> \<not> P (last (drop_back_while P xs))"
  by (induction xs rule: rev_induct) (auto split: if_splits)

lemma drop_back_while_decomp: "\<exists>ys. xs = drop_back_while P xs @ ys \<and> list_all P ys"
proof (induction xs rule: rev_induct)
  case (snoc x xs)
  then obtain ys where "xs = drop_back_while P xs @ ys" "list_all P ys" by blast
  then show ?case by (cases "P x") (auto intro!: exI [where x = "ys @ [x]"])
qed simp

lemma drop_back_while_replicate:
  "(xs = [] \<or> last xs \<noteq> c) \<Longrightarrow> drop_back_while (\<lambda>x. x = c) (xs @ replicate n c) = xs"
proof (induction n)
  case 0
  then show ?case by (cases xs rule: rev_cases) auto
next
  case (Suc n)
  have "xs @ replicate (Suc n) c = (xs @ replicate n c) @ [c]"
    by (simp add: replicate_append_same)
  with Suc show ?case by (simp only: drop_back_while_snoc) simp
qed

subsection \<open>Bits of non-negative integers as arithmetic\<close>

lemma nat_shiftl [bit_arith]: "push_bit k n = n * 2 ^ k" for n :: nat
  by (simp add: push_bit_eq_mult)

lemma nat_shiftr [bit_arith]: "drop_bit k n = n div 2 ^ k" for n :: nat
  by (simp add: drop_bit_eq_div)

lemma nat_mask [bit_arith]: "n AND (2 ^ k - 1) = n mod 2 ^ k" for n :: nat
  by (metis mask_eq_exp_minus_1 take_bit_eq_mask take_bit_eq_mod)

lemma nat_or_disjoint:
  assumes "b < 2 ^ k"
  shows "a * 2 ^ k OR b = (a * 2 ^ k + b :: nat)"
proof -
  have "push_bit k a AND b = 0"
    using assms by (auto intro!: bit_eqI simp: bit_simps)
      (metis bit_take_bit_iff leD take_bit_nat_eq_self)
  then have "push_bit k a + b = push_bit k a OR b"
    by (rule disjunctive_add_eq_or)
  then show ?thesis by (simp add: push_bit_eq_mult)
qed

lemma nat_or_disjoint':
  assumes "2 ^ k dvd a" and "b < 2 ^ k"
  shows "a OR b = (a + b :: nat)"
  using assms nat_or_disjoint [of b k] by (metis dvd_div_mult_self)

text \<open>A mask of adjacent bits selects digits.\<close>

lemma nat_and_field: "n AND ((2 ^ j - 1) * 2 ^ k) = (n div 2 ^ k mod 2 ^ j) * 2 ^ k" for n :: nat
proof -
  have "n AND push_bit k (mask j) = push_bit k (take_bit j (drop_bit k n))"
    by (auto intro!: bit_eqI simp: bit_simps)
  then show ?thesis
    by (simp add: push_bit_eq_mult take_bit_eq_mod drop_bit_eq_div mask_eq_exp_minus_1)
qed

lemma nat_or_exp: "n OR 2 ^ k = (if bit n k then n else n + 2 ^ k :: nat)"
proof (cases "bit n k")
  case True
  then show ?thesis by (auto intro!: bit_eqI simp: bit_simps)
next
  case False
  then have "n AND 2 ^ k = 0" by (auto intro!: bit_eqI simp: bit_simps)
  then have "n + 2 ^ k = n OR 2 ^ k" by (rule disjunctive_add_eq_or)
  with False show ?thesis by simp
qed

lemma nat_or_pos: "0 < x OR y \<longleftrightarrow> 0 < x \<or> 0 < y" for x y :: nat
  by (metis neq0_conv or_eq_0_iff)

lemma or_32_bit: "n OR 32 = (if bit n 5 then n else n + 32 :: nat)"
  using nat_or_exp [of n 5] by simp

lemma bit_5_iff: "bit n 5 \<longleftrightarrow> odd (n div 32)" for n :: nat
  by (simp add: bit_iff_odd)

lemma div_drop_low: "c < k \<Longrightarrow> (m * k + c) div (k * j) = m div j" for m c k j :: nat
  by (simp add: div_mult2_eq)

lemma div_low: "c < k \<Longrightarrow> (m * k + c) div k = m" for m c k :: nat
  by simp

lemma mod_low: "c < k \<Longrightarrow> (m * k + c) mod k = c" for m c k :: nat
  by simp

subsection \<open>Lists\<close>

lemma nth_update_swap:
  "i \<noteq> j \<Longrightarrow> xs[i := a, j := b] = xs[j := b, i := a]"
  by (rule list_update_swap)

lemma last_eq_nth: "xs \<noteq> [] \<Longrightarrow> last xs = xs ! (length xs - 1)"
  by (rule last_conv_nth)

lemma take_while_split: "takeWhile P xs @ dropWhile P xs = xs"
  by simp

lemma upt_join: "i \<le> j \<Longrightarrow> j \<le> k \<Longrightarrow> [i..<j] @ [j..<k] = [i..<k]"
  by (metis le_add_diff_inverse upt_add_eq_append)

text \<open>Tables filled by a loop that stores every index at a distinct place.\<close>

lemma length_fill_table [simp]: "length (foldl (\<lambda>t i. t[f i := i]) t is) = length t"
  by (induction "is" arbitrary: t) auto

lemma fill_table_other: "n \<notin> f ` set is \<Longrightarrow> foldl (\<lambda>t i. t[f i := i]) t is ! n = t ! n"
  by (induction "is" arbitrary: t) auto

lemma fill_table_nth:
  "i \<in> set is \<Longrightarrow> inj_on f (set is) \<Longrightarrow> f i < length t \<Longrightarrow> foldl (\<lambda>t i. t[f i := i]) t is ! f i = i"
proof (induction "is" arbitrary: t)
  case (Cons j js)
  show ?case
  proof (cases "i \<in> set js")
    case True
    with Cons show ?thesis by (auto simp: inj_on_def)
  next
    case False
    with Cons.prems have "i = j" "f i \<notin> f ` set js" by (auto simp: inj_on_def image_iff)
    with Cons.prems(3) show ?thesis by (simp add: fill_table_other)
  qed
qed simp

subsection \<open>Words\<close>

lemma unat_of_nat_64: "n < 2 ^ 64 \<Longrightarrow> unat (of_nat n :: uint64) = n"
  by (simp add: unat_of_nat)

lemma unat_of_nat_32: "n < 2 ^ 32 \<Longrightarrow> unat (of_nat n :: uint32) = n"
  by (simp add: unat_of_nat)

lemma unat_minus_1_64: "unat (- 1 :: uint64) = 2 ^ 64 - 1"
  by (simp add: unsigned_minus_1_eq_mask mask_eq_exp_minus_1)

end
