(* ===== verification/VectorQueue.thy ===== *)
theory VectorQueue
  imports Prelude "HOL-Library.Multiset"
begin

text \<open>
  \<^verbatim>\<open>VectorQueue<T>\<close> of \<^verbatim>\<open>pxcutils/pxc/utils/VectorQueue.h\<close>: a
  queue kept in a vector with a read position; popped elements stay in the vector until
  \<^verbatim>\<open>try_shrink\<close> erases them. The contract of a queue is the locale \<open>fifo\<close>,
  interpreted on this model; \<^verbatim>\<open>ChainScheduler\<close> rests on it for its pending tasks.
  Reading past the end is undefined behaviour in the source and \<open>None\<close> here.
\<close>

subsection \<open>The contract of a queue\<close>

locale fifo =
  fixes good :: "'q \<Rightarrow> bool"
    and elems :: "'q \<Rightarrow> 'a list"
    and new :: "'q"
    and put :: "'q \<Rightarrow> 'a \<Rightarrow> 'q"
    and take_first :: "'q \<Rightarrow> ('a \<times> 'q) option"
    and is_empty :: "'q \<Rightarrow> bool"
  assumes good_new: "good new"
    and elems_new: "elems new = []"
    and good_put: "good q \<Longrightarrow> good (put q x)"
    and elems_put: "good q \<Longrightarrow> elems (put q x) = elems q @ [x]"
    and is_empty_iff: "good q \<Longrightarrow> is_empty q \<longleftrightarrow> elems q = []"
    and take_first_Nil: "good q \<Longrightarrow> elems q = [] \<Longrightarrow> take_first q = None"
    and take_first_Cons: "good q \<Longrightarrow> elems q = x # xs \<Longrightarrow>
      \<exists>q'. take_first q = Some (x, q') \<and> good q' \<and> elems q' = xs"
begin

text \<open>What a client does with a queue: put a list, take some elements off.\<close>

definition put_all :: "'q \<Rightarrow> 'a list \<Rightarrow> 'q" where
  "put_all q xs = foldl put q xs"

fun take_n :: "nat \<Rightarrow> 'q \<Rightarrow> ('a list \<times> 'q) option" where
  "take_n 0 q = Some ([], q)"
| "take_n (Suc n) q =
     (case take_first q of None \<Rightarrow> None
      | Some (x, q') \<Rightarrow> (case take_n n q' of None \<Rightarrow> None | Some (xs, q'') \<Rightarrow> Some (x # xs, q'')))"

lemma put_all_elems: "good q \<Longrightarrow> good (put_all q xs) \<and> elems (put_all q xs) = elems q @ xs"
  unfolding put_all_def
  by (induction xs arbitrary: q) (auto simp: good_put elems_put)

lemma take_n_elems:
  "good q \<Longrightarrow> n \<le> length (elems q) \<Longrightarrow>
   \<exists>q'. take_n n q = Some (take n (elems q), q') \<and> good q' \<and> elems q' = drop n (elems q)"
proof (induction n arbitrary: q)
  case (Suc n)
  from Suc.prems obtain x xs where e: "elems q = x # xs" by (cases "elems q") auto
  from take_first_Cons [OF Suc.prems(1) e] obtain q1
    where q1: "take_first q = Some (x, q1)" "good q1" "elems q1 = xs" by blast
  from Suc.IH [OF q1(2)] Suc.prems e q1(3) show ?case by (auto simp: q1(1))
qed simp

lemma put_all_take_n:
  "good q \<Longrightarrow> elems q = [] \<Longrightarrow>
   \<exists>q'. take_n (length xs) (put_all q xs) = Some (xs, q') \<and> good q' \<and> elems q' = []"
  using take_n_elems [of "put_all q xs" "length xs"] put_all_elems [of q xs] by simp

lemma take_n_too_many:
  "good q \<Longrightarrow> length (elems q) < n \<Longrightarrow> take_n n q = None"
proof (induction n arbitrary: q)
  case (Suc n)
  show ?case
  proof (cases "elems q")
    case Nil
    with Suc.prems show ?thesis by (simp add: take_first_Nil)
  next
    case (Cons x xs)
    from take_first_Cons [OF Suc.prems(1) Cons] obtain q1
      where "take_first q = Some (x, q1)" "good q1" "elems q1 = xs" by blast
    with Suc Cons show ?thesis by simp
  qed
qed simp

end

subsection \<open>The model\<close>

record 'a vqueue =
  vec :: "'a list"
  read_pos :: nat

definition vq_new :: "'a vqueue" where
  "vq_new = \<lparr>vec = [], read_pos = 0\<rparr>"

definition vq_size :: "'a vqueue \<Rightarrow> nat" where
  "vq_size q = length (vec q) - read_pos q"

definition vq_empty :: "'a vqueue \<Rightarrow> bool" where
  "vq_empty q \<longleftrightarrow> vq_size q = 0"

definition vq_as_span :: "'a vqueue \<Rightarrow> 'a list" where
  "vq_as_span q = drop (read_pos q) (vec q)"

definition vq_try_shrink :: "'a vqueue \<Rightarrow> 'a vqueue" where
  "vq_try_shrink q =
     (if read_pos q * 2 > length (vec q) \<and> read_pos q > 4
      then q\<lparr>vec := drop (read_pos q) (vec q), read_pos := 0\<rparr> else q)"

definition vq_push :: "'a vqueue \<Rightarrow> 'a \<Rightarrow> 'a vqueue" where
  "vq_push q x = q\<lparr>vec := vec q @ [x]\<rparr>"

definition vq_pop :: "'a vqueue \<Rightarrow> ('a \<times> 'a vqueue) option" where
  "vq_pop q =
     (let q1 = vq_try_shrink q in
      if read_pos q1 < length (vec q1)
      then Some (vec q1 ! read_pos q1, q1\<lparr>read_pos := read_pos q1 + 1\<rparr>) else None)"

definition vq_pop_rand :: "nat \<Rightarrow> 'a vqueue \<Rightarrow> ('a \<times> 'a vqueue) option" where
  "vq_pop_rand rnd q =
     (if vq_size q = 0 then None
      else let i = rnd mod vq_size q; v = vec q; r = read_pos q
           in vq_pop (q\<lparr>vec := v[i := v ! r, r := v ! i]\<rparr>))"

definition vq_pop_n :: "nat \<Rightarrow> 'a vqueue \<Rightarrow> 'a vqueue" where
  "vq_pop_n n q = vq_try_shrink (q\<lparr>read_pos := read_pos q + n\<rparr>)"

definition vq_front :: "'a vqueue \<Rightarrow> 'a option" where
  "vq_front q = (if read_pos q < length (vec q) then Some (vec q ! read_pos q) else None)"

definition vq_back :: "'a vqueue \<Rightarrow> 'a option" where
  "vq_back q = (if vec q = [] then None else Some (last (vec q)))"

subsection \<open>The invariant and the operations\<close>

definition vq_inv :: "'a vqueue \<Rightarrow> bool" where
  "vq_inv q \<longleftrightarrow> read_pos q \<le> length (vec q)"

lemma vq_shrink_simps [simp]:
  "vq_inv q \<Longrightarrow> vq_inv (vq_try_shrink q)"
  "vq_as_span (vq_try_shrink q) = vq_as_span q"
  by (auto simp: vq_inv_def vq_as_span_def vq_try_shrink_def)

lemma vq_push_simps:
  "vq_inv q \<Longrightarrow> vq_inv (vq_push q x)"
  "vq_inv q \<Longrightarrow> vq_as_span (vq_push q x) = vq_as_span q @ [x]"
  by (auto simp: vq_inv_def vq_as_span_def vq_push_def)

lemma vq_as_span_Cons:
  assumes "vq_as_span q = x # xs"
  shows "read_pos q < length (vec q)" "vec q ! read_pos q = x"
    "vq_as_span (q\<lparr>read_pos := read_pos q + 1\<rparr>) = xs"
proof -
  show l: "read_pos q < length (vec q)"
    using assms by (cases "read_pos q < length (vec q)") (auto simp: vq_as_span_def)
  have "vec q ! read_pos q # drop (Suc (read_pos q)) (vec q) = x # xs"
    using assms Cons_nth_drop_Suc [OF l] by (simp add: vq_as_span_def)
  then show "vec q ! read_pos q = x" "vq_as_span (q\<lparr>read_pos := read_pos q + 1\<rparr>) = xs"
    by (auto simp: vq_as_span_def)
qed

lemma vq_pop_Cons:
  assumes "vq_as_span q = x # xs"
  shows "\<exists>q'. vq_pop q = Some (x, q') \<and> vq_inv q' \<and> vq_as_span q' = xs"
proof -
  have s: "vq_as_span (vq_try_shrink q) = x # xs" using assms by simp
  show ?thesis
    using vq_as_span_Cons [OF s] by (auto simp: vq_pop_def Let_def vq_inv_def)
qed

lemma vq_pop_Nil:
  assumes "vq_as_span q = []"
  shows "vq_pop q = None"
proof -
  have s: "vq_as_span (vq_try_shrink q) = []" using assms by simp
  then show ?thesis by (auto simp: vq_pop_def vq_as_span_def Let_def)
qed

interpretation vq: fifo vq_inv vq_as_span vq_new vq_push vq_pop vq_empty
  by unfold_locales
     (auto simp: vq_new_def vq_inv_def vq_as_span_def vq_push_def vq_empty_def vq_size_def
       intro!: vq_pop_Nil vq_pop_Cons [unfolded vq_inv_def vq_as_span_def])

lemma length_vq_as_span: "length (vq_as_span q) = vq_size q"
  by (simp add: vq_as_span_def vq_size_def)

lemma vq_front_back:
  "vq_front q = (case vq_as_span q of [] \<Rightarrow> None | x # _ \<Rightarrow> Some x)"
  "vq_as_span q \<noteq> [] \<Longrightarrow> vq_back q = Some (last (vq_as_span q))"
proof -
  show "vq_front q = (case vq_as_span q of [] \<Rightarrow> None | x # _ \<Rightarrow> Some x)"
  proof (cases "vq_as_span q")
    case Nil
    then show ?thesis by (simp add: vq_front_def vq_as_span_def)
  next
    case (Cons x xs)
    then show ?thesis using vq_as_span_Cons [OF Cons] by (simp add: vq_front_def)
  qed
qed (auto simp: vq_back_def vq_as_span_def)

lemma vq_pop_n_drop:
  "vq_inv q \<Longrightarrow> n \<le> vq_size q \<Longrightarrow>
   vq_inv (vq_pop_n n q) \<and> vq_as_span (vq_pop_n n q) = drop n (vq_as_span q)"
  by (auto simp: vq_pop_n_def vq_size_def vq_inv_def vq_as_span_def vq_try_shrink_def add.commute)

subsection \<open>Runs of operations against a plain list\<close>

text \<open>The calls and what they return. \<^verbatim>\<open>back\<close> is only called on a queue that is not
  empty: on a drained one it reads an element that has been popped; and \<^verbatim>\<open>pop_n\<close> takes
  no more than there is.\<close>

datatype 'a vq_op = Push 'a | Pop | PopN nat | Front | Back | Size | Empty | Span

datatype 'a vq_answer = Answer 'a | Answer_nat nat | Answer_bool bool | Answer_span "'a list"

fun vq_step :: "'a vqueue \<Rightarrow> 'a vq_op \<Rightarrow> ('a vq_answer list \<times> 'a vqueue) option" where
  "vq_step q (Push x) = Some ([], vq_push q x)"
| "vq_step q Pop = map_option (\<lambda>(x, q'). ([Answer x], q')) (vq_pop q)"
| "vq_step q (PopN n) = (if n \<le> vq_size q then Some ([], vq_pop_n n q) else None)"
| "vq_step q Front = map_option (\<lambda>x. ([Answer x], q)) (vq_front q)"
| "vq_step q Back = (if vq_empty q then None else map_option (\<lambda>x. ([Answer x], q)) (vq_back q))"
| "vq_step q Size = Some ([Answer_nat (vq_size q)], q)"
| "vq_step q Empty = Some ([Answer_bool (vq_empty q)], q)"
| "vq_step q Span = Some ([Answer_span (vq_as_span q)], q)"

fun list_step :: "'a list \<Rightarrow> 'a vq_op \<Rightarrow> ('a vq_answer list \<times> 'a list) option" where
  "list_step l (Push x) = Some ([], l @ [x])"
| "list_step l Pop = (if l = [] then None else Some ([Answer (hd l)], tl l))"
| "list_step l (PopN n) = (if n \<le> length l then Some ([], drop n l) else None)"
| "list_step l Front = (if l = [] then None else Some ([Answer (hd l)], l))"
| "list_step l Back = (if l = [] then None else Some ([Answer (last l)], l))"
| "list_step l Size = Some ([Answer_nat (length l)], l)"
| "list_step l Empty = Some ([Answer_bool (l = [])], l)"
| "list_step l Span = Some ([Answer_span l], l)"

fun op_run :: "('q \<Rightarrow> 'op \<Rightarrow> ('r list \<times> 'q) option) \<Rightarrow> 'q \<Rightarrow> 'op list \<Rightarrow> ('r list \<times> 'q) option" where
  "op_run step q [] = Some ([], q)"
| "op_run step q (op # ops) =
     (case step q op of None \<Rightarrow> None
      | Some (out, q') \<Rightarrow> map_option (\<lambda>(outs, q''). (out @ outs, q'')) (op_run step q' ops))"

definition vq_run :: "'a vqueue \<Rightarrow> 'a vq_op list \<Rightarrow> ('a vq_answer list \<times> 'a vqueue) option" where
  "vq_run q ops = op_run vq_step q ops"

definition list_run :: "'a list \<Rightarrow> 'a vq_op list \<Rightarrow> ('a vq_answer list \<times> 'a list) option" where
  "list_run l ops = op_run list_step l ops"

lemma vq_step_list_step:
  assumes "vq_inv q"
  shows "map_option (map_prod id vq_as_span) (vq_step q op) = list_step (vq_as_span q) op"
    and "vq_step q op = Some (out, q') \<Longrightarrow> vq_inv q'"
proof -
  have empty: "vq_empty q \<longleftrightarrow> vq_as_span q = []"
    by (simp add: vq_empty_def flip: length_vq_as_span)
  show "map_option (map_prod id vq_as_span) (vq_step q op) = list_step (vq_as_span q) op"
  proof (cases op)
    case Pop
    show ?thesis
    proof (cases "vq_as_span q")
      case (Cons x xs)
      from vq_pop_Cons [OF Cons] show ?thesis using Pop Cons by auto
    qed (simp add: Pop vq_pop_Nil)
  next
    case Front
    then show ?thesis by (simp add: vq_front_back(1) split: list.split)
  next
    case Back
    then show ?thesis by (simp add: vq_front_back(2) empty)
  qed (use assms in \<open>simp_all add: vq_push_simps vq_pop_n_drop length_vq_as_span empty\<close>)
  show "vq_inv q'" if "vq_step q op = Some (out, q')"
  proof (cases op)
    case Pop
    with that show ?thesis
      by (cases "vq_as_span q") (use vq_pop_Cons [of q] in \<open>fastforce simp: vq_pop_Nil\<close>)+
  qed (use that assms in \<open>auto simp: vq_push_simps vq_pop_n_drop split: if_splits\<close>)
qed

lemma vq_run_list_run:
  "vq_inv q \<Longrightarrow> map_option (map_prod id vq_as_span) (vq_run q ops) = list_run (vq_as_span q) ops"
proof (induction ops arbitrary: q)
  case (Cons op ops)
  note step = vq_step_list_step [OF Cons.prems]
  show ?case
  proof (cases "vq_step q op")
    case None
    with step(1) [of op] show ?thesis by (simp add: vq_run_def list_run_def)
  next
    case (Some r)
    then obtain out q' where r: "vq_step q op = Some (out, q')" by (cases r) simp
    with step(1) [of op] have "list_step (vq_as_span q) op = Some (out, vq_as_span q')" by simp
    with r Cons.IH [OF step(2) [OF r], symmetric] show ?thesis
      by (cases "op_run vq_step q' ops") (auto simp: vq_run_def list_run_def)
  qed
qed (simp add: vq_run_def list_run_def)

text \<open>C35: every run of \<^verbatim>\<open>push\<close>, \<^verbatim>\<open>pop\<close>, \<^verbatim>\<open>pop_n\<close>, \<^verbatim>\<open>front\<close>,
  \<^verbatim>\<open>back\<close>, \<^verbatim>\<open>size\<close>, \<^verbatim>\<open>empty\<close> and \<^verbatim>\<open>as_span\<close> on a new queue
  returns the same elements, numbers and flags, and leaves the same contents, as the run on a
  plain list: the read position and the shrinking of the vector are never observed.\<close>

theorem vq_run_refines_list:
  "map_option (map_prod id vq_as_span) (vq_run vq_new ops) = list_run [] ops"
  by (simp add: vq_run_list_run vq.good_new vq.elems_new)

text \<open>A popped element is still the last one of the vector.\<close>

lemma vq_back_of_drained:
  "map_option (\<lambda>(_, q). vq_back q) (vq_run vq_new [Push (1 :: nat), Pop]) = Some (Some 1)"
  by (simp add: vq_run_def vq_new_def vq_push_def vq_pop_def vq_try_shrink_def vq_back_def)

text \<open>\<^verbatim>\<open>pop_rand\<close> indexes the vector from its start and not from the
  read position, so once an element has been popped it can return one that is no longer in the
  queue.\<close>

theorem vq_pop_rand_returns_popped:
  "\<exists>(q :: nat vqueue) x q'. map_option snd (vq_run vq_new [Push 1, Push 2, Pop]) = Some q \<and>
     vq_pop_rand 0 q = Some (x, q') \<and> x \<notin> set (vq_as_span q)"
  by (simp add: vq_run_def vq_new_def vq_push_def vq_pop_def vq_pop_rand_def vq_try_shrink_def vq_size_def
      vq_as_span_def)

end
