(* ===== verification/OrderedEvents.thy ===== *)
theory OrderedEvents
  imports Prelude
begin

text \<open>
  \<^verbatim>\<open>OrderedEventsProcessor<DataT>\<close>
  (\<^verbatim>\<open>pxcutils/pxc/utils/OrderedEventsProcessor.h\<close>), which hands events to a
  callback in the order of their sequence numbers, and
  \<^verbatim>\<open>ChangesProcessor<DataT>\<close> (\<^verbatim>\<open>ChangesProcessor.h\<close>), which
  hands changes over in the order they were added, once they are finished.

  A slot \<^verbatim>\<open>pair<DataT, bool>\<close> of the window is an \<open>'a option\<close>:
  \<open>None\<close> when the flag is false, since the data is read only where the flag is set. The
  callback becomes the list of its calls; the model covers callbacks that do not call back into the
  processor. Sequence numbers are \<open>nat\<close>: they start at 1 and grow by one per event, far
  below \<open>2^64\<close>. A failed \<^verbatim>\<open>LOG_CHECK\<close> is \<open>None\<close>.
\<close>

section \<open>OrderedEventsProcessor\<close>

record 'a oep =
  offset :: nat
  begin_seq :: nat
  end_seq :: nat
  data_array :: "'a option list"

definition oep_new :: "nat \<Rightarrow> 'a oep" where
  "oep_new off = \<lparr>offset = off, begin_seq = off, end_seq = off, data_array = []\<rparr>"

definition oep_default :: "'a oep" where
  "oep_default = oep_new 1"

definition oep_clear :: "'a oep \<Rightarrow> 'a list \<times> 'a oep" where
  "oep_clear s = (List.map_filter id (data_array s), oep_default)"

function oep_drain :: "'a oep \<Rightarrow> (nat \<times> 'a) list \<times> 'a oep" where
  "oep_drain s =
     (if begin_seq s < end_seq s
      then case data_array s ! (begin_seq s - offset s) of
             None \<Rightarrow> ([], s)
           | Some d \<Rightarrow>
               (let (out, s') = oep_drain
                  (s\<lparr>data_array := (data_array s)[begin_seq s - offset s := None],
                     begin_seq := begin_seq s + 1\<rparr>)
                in ((begin_seq s, d) # out, s'))
      else ([], s))"
  by pat_completeness auto
termination by (relation "measure (\<lambda>s. end_seq s - begin_seq s)") auto

declare oep_drain.simps [simp del]

definition oep_fix_end :: "'a oep \<Rightarrow> 'a oep" where
  "oep_fix_end s =
     (let s1 = (if begin_seq s > end_seq s then s\<lparr>end_seq := begin_seq s\<rparr> else s)
      in if begin_seq s1 = end_seq s1 then s1\<lparr>offset := begin_seq s1\<rparr> else s1)"

definition oep_compactify :: "'a oep \<Rightarrow> 'a oep" where
  "oep_compactify s =
     (let begin_pos = begin_seq s - offset s
      in if begin_pos > 5 \<and> begin_pos * 2 > length (data_array s)
         then s\<lparr>data_array := drop begin_pos (data_array s), offset := begin_seq s\<rparr> else s)"

definition oep_store :: "'a oep \<Rightarrow> nat \<Rightarrow> 'a \<Rightarrow> 'a oep" where
  "oep_store s seq d =
     (let pos = seq - offset s;
          arr = data_array s @ replicate (pos + 1 - length (data_array s)) None
      in s\<lparr>data_array := arr[pos := Some d],
           end_seq := (if end_seq s < seq + 1 then seq + 1 else end_seq s)\<rparr>)"

definition oep_add :: "'a oep \<Rightarrow> nat \<Rightarrow> 'a \<Rightarrow> ((nat \<times> 'a) list \<times> 'a oep) option" where
  "oep_add s seq d =
     (if seq < begin_seq s then None
      else if seq = begin_seq s
      then (let (out, s1) = oep_drain (s\<lparr>begin_seq := begin_seq s + 1\<rparr>)
            in Some ((seq, d) # out, oep_compactify (oep_fix_end s1)))
      else Some ([], oep_store s seq d))"

definition oep_has_events :: "'a oep \<Rightarrow> bool" where
  "oep_has_events s \<longleftrightarrow> begin_seq s \<noteq> end_seq s"

definition oep_max_unfinished :: "'a oep \<Rightarrow> nat" where
  "oep_max_unfinished s = end_seq s - 1"

definition oep_max_finished :: "'a oep \<Rightarrow> nat" where
  "oep_max_finished s = begin_seq s - 1"

subsection \<open>The abstract processor\<close>

text \<open>
  The specification keeps the next sequence number and a map of the events that wait. Adding the
  next event hands it over with the whole run of waiting events behind it.
\<close>

definition oep_waiting :: "'a oep \<Rightarrow> nat \<Rightarrow> 'a option" where
  "oep_waiting s n =
     (if begin_seq s \<le> n \<and> n < end_seq s then data_array s ! (n - offset s) else None)"

definition oep_core :: "'a oep \<Rightarrow> bool" where
  "oep_core s \<longleftrightarrow>
     offset s \<le> begin_seq s \<and> end_seq s \<le> offset s + length (data_array s) \<and>
     (\<forall>i<length (data_array s). data_array s ! i = oep_waiting s (offset s + i)) \<and>
     (begin_seq s < end_seq s \<longrightarrow> oep_waiting s (end_seq s - 1) \<noteq> None)"

definition oep_inv :: "'a oep \<Rightarrow> bool" where
  "oep_inv s \<longleftrightarrow>
     oep_core s \<and> begin_seq s \<le> end_seq s \<and>
     (begin_seq s = end_seq s \<longrightarrow> offset s = begin_seq s) \<and>
     oep_waiting s (begin_seq s) = None"

lemma oep_waiting_outside:
  "n < begin_seq s \<Longrightarrow> oep_waiting s n = None"
  "end_seq s \<le> n \<Longrightarrow> oep_waiting s n = None"
  by (auto simp: oep_waiting_def)

lemma oep_waiting_empty: "end_seq s \<le> begin_seq s \<Longrightarrow> oep_waiting s n = None"
  by (auto simp: oep_waiting_def)

lemma oep_core_slot:
  "oep_core s \<Longrightarrow> i < length (data_array s) \<Longrightarrow> data_array s ! i = oep_waiting s (offset s + i)"
  by (simp add: oep_core_def)

lemma oep_waiting_slot:
  "begin_seq s \<le> n \<Longrightarrow> n < end_seq s \<Longrightarrow> oep_waiting s n = data_array s ! (n - offset s)"
  by (simp add: oep_waiting_def)

definition oep_drained :: "'a oep \<Rightarrow> (nat \<times> 'a) list \<Rightarrow> 'a oep \<Rightarrow> bool" where
  "oep_drained s out s' \<longleftrightarrow>
     oep_core s' \<and> offset s' = offset s \<and> end_seq s' = end_seq s \<and>
     begin_seq s \<le> begin_seq s' \<and> begin_seq s' \<le> max (begin_seq s) (end_seq s) \<and>
     map fst out = [begin_seq s..<begin_seq s'] \<and>
     (\<forall>(n, x) \<in> set out. oep_waiting s n = Some x) \<and>
     oep_waiting s' = (\<lambda>n. if n < begin_seq s' then None else oep_waiting s n) \<and>
     oep_waiting s' (begin_seq s') = None"

lemma oep_drop_first:
  assumes "oep_core s" "begin_seq s < end_seq s"
  defines "s1 \<equiv> s\<lparr>data_array := (data_array s)[begin_seq s - offset s := None],
                 begin_seq := begin_seq s + 1\<rparr>"
  shows "oep_core s1"
    "oep_waiting s1 = (\<lambda>n. if n \<le> begin_seq s then None else oep_waiting s n)"
proof -
  have o: "offset s \<le> begin_seq s" "end_seq s \<le> offset s + length (data_array s)"
    using assms(1) by (auto simp: oep_core_def)
  have "oep_waiting s1 n = (if n \<le> begin_seq s then None else oep_waiting s n)" for n
  proof (cases "begin_seq s < n \<and> n < end_seq s")
    case True
    then show ?thesis using o by (auto simp: s1_def oep_waiting_def nth_list_update)
  next
    case False
    then show ?thesis by (auto simp: s1_def oep_waiting_def)
  qed
  then show w: "oep_waiting s1 = (\<lambda>n. if n \<le> begin_seq s then None else oep_waiting s n)" ..
  have "data_array s1 ! i = oep_waiting s1 (offset s1 + i)" if "i < length (data_array s1)" for i
    unfolding w using that oep_core_slot [OF assms(1), of i] o
    by (cases "i = begin_seq s - offset s") (auto simp: s1_def nth_list_update oep_waiting_outside)
  moreover have "begin_seq s1 < end_seq s1 \<Longrightarrow> oep_waiting s1 (end_seq s1 - 1) \<noteq> None"
    unfolding w using assms(1,2) by (auto simp: s1_def oep_core_def)
  ultimately show "oep_core s1"
    using o unfolding oep_core_def by (auto simp: s1_def)
qed

lemma oep_drain_spec:
  "oep_core s \<Longrightarrow> oep_drain s = (out, s') \<Longrightarrow> oep_drained s out s'"
proof (induction s arbitrary: out s' rule: oep_drain.induct)
  case (1 s)
  let ?i = "begin_seq s - offset s"
  show ?case
  proof (cases "begin_seq s < end_seq s \<and> data_array s ! ?i \<noteq> None")
    case False
    then have eq: "out = []" "s' = s"
      using "1.prems"(2) by (subst (asm) oep_drain.simps; auto split: if_splits option.splits)+
    have none: "oep_waiting s (begin_seq s) = None"
      using False by (simp add: oep_waiting_def)
    have "oep_waiting s = (\<lambda>n. if n < begin_seq s then None else oep_waiting s n)"
      by (rule ext) (simp add: oep_waiting_outside)
    with none "1.prems"(1) show ?thesis
      unfolding oep_drained_def eq by simp
  next
    case True
    then obtain d where d: "data_array s ! ?i = Some d" by auto
    let ?s1 = "s\<lparr>data_array := (data_array s)[?i := None], begin_seq := begin_seq s + 1\<rparr>"
    obtain o1 where o1: "oep_drain ?s1 = (o1, s')" "out = (begin_seq s, d) # o1"
      using 1 True d by (auto simp: oep_drain.simps [of s] split: prod.splits)
    note f = oep_drop_first [OF "1.prems"(1) conjunct1 [OF True]]
    have r: "oep_drained ?s1 o1 s'"
      by (rule "1.IH" [OF conjunct1 [OF True] d f(1) o1(1)])
    have w: "oep_waiting s (begin_seq s) = Some d" using True d by (simp add: oep_waiting_def)
    have fst: "map fst out = [begin_seq s..<begin_seq s']"
      using r by (simp add: oep_drained_def o1(2) upt_conv_Cons)
    have data: "oep_waiting s n = Some x" if "(n, x) \<in> set out" for n x
      using that r w unfolding oep_drained_def f(2) o1(2) by (fastforce split: if_splits)
    have w': "oep_waiting s' = (\<lambda>n. if n < begin_seq s' then None else oep_waiting s n)"
      using r unfolding oep_drained_def f(2) by (auto simp: fun_eq_iff)
    have "oep_waiting s' (begin_seq s') = None" "oep_core s'" "offset s' = offset s"
      "end_seq s' = end_seq s" "begin_seq s \<le> begin_seq s'" "begin_seq s' \<le> max (begin_seq s) (end_seq s)"
      using r True by (auto simp: oep_drained_def)
    with fst data w' show ?thesis
      unfolding oep_drained_def by blast
  qed
qed

lemma oep_fix_end_spec:
  assumes "oep_core s" "oep_waiting s (begin_seq s) = None"
  shows "oep_inv (oep_fix_end s)" "begin_seq (oep_fix_end s) = begin_seq s"
    "oep_waiting (oep_fix_end s) = oep_waiting s"
proof -
  show b: "begin_seq (oep_fix_end s) = begin_seq s"
    by (simp add: oep_fix_end_def Let_def)
  have "oep_waiting (oep_fix_end s) n = oep_waiting s n" for n
  proof (cases "begin_seq s < end_seq s")
    case True
    then show ?thesis by (simp add: oep_fix_end_def)
  next
    case False
    then have "end_seq (oep_fix_end s) \<le> begin_seq (oep_fix_end s)"
      by (simp add: oep_fix_end_def)
    with False show ?thesis by (simp add: oep_waiting_empty)
  qed
  then show w: "oep_waiting (oep_fix_end s) = oep_waiting s" ..
  have none: "data_array s ! i = None" if "i < length (data_array s)" "end_seq s \<le> begin_seq s" for i
    using oep_core_slot [OF assms(1) that(1)] oep_waiting_empty [OF that(2)] by simp
  have o: "offset s \<le> begin_seq s" "end_seq s \<le> offset s + length (data_array s)"
    using assms(1) by (auto simp: oep_core_def)
  show "oep_inv (oep_fix_end s)"
  proof (cases "begin_seq s < end_seq s")
    case True
    then have "oep_fix_end s = s" by (simp add: oep_fix_end_def)
    with assms True show ?thesis by (simp add: oep_inv_def)
  next
    case False
    then have "oep_fix_end s = s\<lparr>end_seq := begin_seq s, offset := begin_seq s\<rparr>"
      by (auto simp: oep_fix_end_def Let_def)
    with False none show ?thesis
      by (simp add: oep_inv_def oep_core_def oep_waiting_def)
  qed
qed

lemma oep_compactify_spec:
  assumes "oep_inv s"
  shows "oep_inv (oep_compactify s)" "begin_seq (oep_compactify s) = begin_seq s"
    "oep_waiting (oep_compactify s) = oep_waiting s"
proof -
  show w: "begin_seq (oep_compactify s) = begin_seq s"
    by (simp add: oep_compactify_def Let_def)
  have o0: "offset s \<le> begin_seq s" "end_seq s \<le> offset s + length (data_array s)"
    using assms by (auto simp: oep_inv_def oep_core_def)
  have "oep_waiting (oep_compactify s) n = oep_waiting s n" for n
    using o0 by (cases "begin_seq s \<le> n \<and> n < end_seq s")
      (auto simp: oep_compactify_def oep_waiting_def Let_def)
  then show w2: "oep_waiting (oep_compactify s) = oep_waiting s" ..
  have o: "offset s \<le> begin_seq s" "end_seq s \<le> offset s + length (data_array s)"
    "begin_seq s \<le> end_seq s" and c: "oep_core s"
    using assms by (auto simp: oep_inv_def oep_core_def)
  have "data_array (oep_compactify s) ! i = oep_waiting s (offset (oep_compactify s) + i)"
    if "i < length (data_array (oep_compactify s))" for i
    using that o oep_core_slot [OF c, of i] oep_core_slot [OF c, of "begin_seq s - offset s + i"]
    by (auto simp: oep_compactify_def Let_def split: if_splits)
  then have "oep_core (oep_compactify s)"
    unfolding oep_core_def w w2 using c o
    by (auto simp: oep_compactify_def oep_core_def Let_def)
  then show "oep_inv (oep_compactify s)"
    unfolding oep_inv_def w w2 using assms
    by (auto simp: oep_compactify_def oep_inv_def Let_def)
qed

lemma oep_store_spec:
  assumes "oep_inv s" "begin_seq s < seq"
  shows "oep_inv (oep_store s seq d)" "begin_seq (oep_store s seq d) = begin_seq s"
    "oep_waiting (oep_store s seq d) = (oep_waiting s)(seq \<mapsto> d)"
proof -
  let ?t = "oep_store s seq d"
  show w: "begin_seq ?t = begin_seq s"
    by (simp add: oep_store_def Let_def)
  have len: "length (data_array ?t) = max (length (data_array s)) (seq - offset s + 1)"
    and off: "offset ?t = offset s"
    and e: "end_seq ?t = max (end_seq s) (seq + 1)"
    by (auto simp: oep_store_def Let_def)
  have slot: "data_array ?t ! i =
      (if i = seq - offset s then Some d
       else if i < length (data_array s) then data_array s ! i else None)"
    if "i < length (data_array ?t)" for i
    using that len by (auto simp: oep_store_def Let_def nth_list_update nth_append)
  have c: "oep_core s" and o: "offset s \<le> begin_seq s" "begin_seq s \<le> end_seq s"
    "end_seq s \<le> offset s + length (data_array s)"
    using assms by (auto simp: oep_inv_def oep_core_def)
  have "oep_waiting ?t n = ((oep_waiting s)(seq \<mapsto> d)) n" for n
  proof (cases "begin_seq s \<le> n \<and> n < end_seq ?t \<and> n \<noteq> seq")
    case True
    then have "oep_waiting ?t n = data_array ?t ! (n - offset s)"
      by (simp add: oep_waiting_def w off)
    also have "\<dots> = (if n - offset s < length (data_array s) then data_array s ! (n - offset s) else None)"
      using True o len e assms(2) by (subst slot) auto
    also have "\<dots> = oep_waiting s n"
      using oep_core_slot [OF c, of "n - offset s"] True o
      by (auto simp: oep_waiting_outside)
    finally show ?thesis using True by simp
  next
    case False
    moreover have "oep_waiting ?t seq = Some d"
      using assms(2) o by (simp add: oep_waiting_def w off e slot len)
    moreover have "oep_waiting ?t n = None \<and> oep_waiting s n = None"
      if "\<not> (begin_seq s \<le> n \<and> n < end_seq ?t)"
      using that e by (auto simp: oep_waiting_def w)
    ultimately show ?thesis by (cases "n = seq") auto
  qed
  then show w2: "oep_waiting ?t = (oep_waiting s)(seq \<mapsto> d)" ..
  have "data_array ?t ! i = oep_waiting ?t (offset s + i)" if "i < length (data_array ?t)" for i
    unfolding w2 slot [OF that] using oep_core_slot [OF c, of i] o assms(2)
    by (auto simp: oep_waiting_outside)
  moreover have "oep_waiting ?t (end_seq ?t - 1) \<noteq> None"
  proof (cases "end_seq s < seq + 1")
    case True
    then show ?thesis unfolding w2 e by (simp add: max_def)
  next
    case False
    then show ?thesis unfolding w2 e using c assms(2) by (auto simp: max_def oep_core_def)
  qed
  ultimately have c2: "oep_core ?t"
    unfolding oep_core_def w off e len using o assms(2) by auto
  show "oep_inv ?t"
    unfolding oep_inv_def w w2 off e using c2 assms
    by (auto simp: oep_inv_def)
qed

subsection \<open>Adding an event\<close>

lemma oep_inv_new: "oep_inv (oep_new off)" "oep_waiting (oep_new off) = (\<lambda>_. None)"
  by (auto simp: oep_inv_def oep_core_def oep_new_def oep_waiting_def fun_eq_iff)

lemma oep_add_now:
  assumes "oep_inv s" "oep_add s (begin_seq s) d = Some (out, s')"
  shows "oep_inv s'" "map fst out = [begin_seq s..<begin_seq s']" "begin_seq s < begin_seq s'"
    "\<forall>(n, x) \<in> set out. ((oep_waiting s)(begin_seq s \<mapsto> d)) n = Some x"
    "oep_waiting s' = (\<lambda>n. if n < begin_seq s' then None else oep_waiting s n)"
proof -
  let ?s0 = "s\<lparr>begin_seq := Suc (begin_seq s)\<rparr>"
  obtain o1 s1 where d1: "oep_drain ?s0 = (o1, s1)" by (cases "oep_drain ?s0")
  have w0: "oep_waiting ?s0 n = oep_waiting s n" for n
    using assms(1) by (cases "n = begin_seq s") (auto simp: oep_waiting_def oep_inv_def)
  have core: "oep_core ?s0"
    using assms(1) unfolding oep_inv_def oep_core_def w0 by auto
  have r: "oep_drained ?s0 o1 s1" by (rule oep_drain_spec [OF core d1])
  have s': "out = (begin_seq s, d) # o1" "s' = oep_compactify (oep_fix_end s1)"
    using assms(2) d1 by (auto simp: oep_add_def)
  note f = oep_fix_end_spec [of s1] and c = oep_compactify_spec [of "oep_fix_end s1"]
  have s1: "oep_core s1" "oep_waiting s1 (begin_seq s1) = None"
    using r by (auto simp: oep_drained_def)
  have b: "begin_seq s' = begin_seq s1" and w: "oep_waiting s' = oep_waiting s1"
    using f [OF s1] c [OF f(1) [OF s1]] by (auto simp: s')
  show "oep_inv s'" using c(1) [OF f(1) [OF s1]] by (simp add: s')
  have le: "begin_seq s + 1 \<le> begin_seq s1" and m: "map fst o1 = [begin_seq s + 1..<begin_seq s1]"
    and dat: "\<forall>(n, x) \<in> set o1. oep_waiting ?s0 n = Some x"
    and ws: "oep_waiting s1 = (\<lambda>n. if n < begin_seq s1 then None else oep_waiting ?s0 n)"
    using r by (auto simp: oep_drained_def)
  show "map fst out = [begin_seq s..<begin_seq s']" "begin_seq s < begin_seq s'"
    using le m unfolding b by (auto simp: s'(1) upt_conv_Cons)
  have gt: "begin_seq s < n" if "(n, x) \<in> set o1" for n x
    using that m by (metis Suc_eq_plus1 Suc_le_lessD atLeastLessThan_iff fst_conv imageI list.set_map set_upt)
  show "\<forall>(n, x) \<in> set out. ((oep_waiting s)(begin_seq s \<mapsto> d)) n = Some x"
    using dat gt by (fastforce simp: s'(1) w0)
  show "oep_waiting s' = (\<lambda>n. if n < begin_seq s' then None else oep_waiting s n)"
    by (rule ext) (simp add: w b ws w0)
qed

lemma oep_add_later:
  assumes "oep_inv s" "begin_seq s < seq"
  shows "oep_add s seq d = Some ([], oep_store s seq d)"
  using assms(2) by (simp add: oep_add_def)

text \<open>The effect of one accepted event, whatever its number: the callback gets exactly the run
  of events from the old to the new position.\<close>

lemma oep_add_spec:
  assumes "oep_inv s" "oep_add s seq d = Some (out, s')"
  shows "oep_inv s' \<and> begin_seq s \<le> begin_seq s' \<and>
    map fst out = [begin_seq s..<begin_seq s'] \<and>
    (\<forall>(n, x) \<in> set out. ((oep_waiting s)(seq \<mapsto> d)) n = Some x) \<and>
    (\<forall>n. oep_waiting s' n = (if n < begin_seq s' then None else ((oep_waiting s)(seq \<mapsto> d)) n))"
proof (cases "seq = begin_seq s")
  case True
  from oep_add_now [OF assms(1) assms(2) [unfolded True]] True show ?thesis by auto
next
  case False
  with assms(2) have lt: "begin_seq s < seq" by (auto simp: oep_add_def split: if_splits)
  then have e: "out = []" "s' = oep_store s seq d" using assms(2) by (auto simp: oep_add_later [OF assms(1)])
  show ?thesis
    using oep_store_spec [OF assms(1) lt, of d] lt unfolding e by (auto simp: oep_waiting_outside)
qed

subsection \<open>Runs of events\<close>

fun oep_run :: "'a oep \<Rightarrow> (nat \<times> 'a) list \<Rightarrow> ((nat \<times> 'a) list \<times> 'a oep) option" where
  "oep_run s [] = Some ([], s)"
| "oep_run s ((n, d) # evs) =
     (case oep_add s n d of
        None \<Rightarrow> None
      | Some (out, s1) \<Rightarrow> map_option (\<lambda>(out', s'). (out @ out', s')) (oep_run s1 evs))"

definition oep_holds :: "'a oep \<Rightarrow> nat set \<Rightarrow> (nat \<Rightarrow> 'a) \<Rightarrow> bool" where
  "oep_holds s N f \<longleftrightarrow>
     oep_inv s \<and> (\<forall>n. oep_waiting s n = (if n \<in> N \<and> begin_seq s \<le> n then Some (f n) else None))"

lemma oep_run_spec:
  assumes "oep_holds s N f" "distinct (map fst evs)" "\<forall>(n, d) \<in> set evs. d = f n \<and> begin_seq s \<le> n"
    "N \<inter> fst ` set evs = {}" "begin_seq s \<le> lim" "\<forall>n \<in> {begin_seq s..<lim}. n \<in> N \<or> n \<in> fst ` set evs"
    "\<forall>n \<in> N \<union> fst ` set evs. n < lim"
  shows "\<exists>s'. oep_run s evs = Some (map (\<lambda>n. (n, f n)) [begin_seq s..<lim], s') \<and>
    oep_inv s' \<and> begin_seq s' = lim \<and> \<not> oep_has_events s'"
  using assms
proof (induction evs arbitrary: s N)
  case Nil
  have inv: "oep_inv s" and w: "oep_waiting s (begin_seq s) = None"
    using Nil.prems(1) by (auto simp: oep_holds_def oep_inv_def)
  have "begin_seq s \<notin> N" using w Nil.prems(1) by (auto simp: oep_holds_def split: if_splits)
  with Nil.prems(5,6) have lim: "begin_seq s = lim" by (cases "begin_seq s < lim") auto
  have "oep_waiting s (end_seq s - 1) = None"
    using Nil.prems(1,7) lim by (auto simp: oep_holds_def)
  with inv have "begin_seq s = end_seq s" by (auto simp: oep_inv_def oep_core_def)
  with inv lim show ?case by (simp add: oep_has_events_def)
next
  case (Cons ev evs)
  obtain n d where ev: "ev = (n, d)" by force
  have inv: "oep_inv s" and n: "begin_seq s \<le> n" "d = f n" "n \<notin> N" "n \<notin> fst ` set evs" "n < lim"
    using Cons.prems ev by (auto simp: oep_holds_def image_iff)
  then have "oep_add s n d \<noteq> None" by (simp add: oep_add_def split: prod.splits)
  then obtain out s1 where a: "oep_add s n d = Some (out, s1)" by auto
  note sp = oep_add_spec [OF inv a]
  let ?N = "insert n N"
  have h: "oep_holds s1 ?N f"
    using sp Cons.prems(1) n by (auto simp: oep_holds_def)
  have new: "\<And>m. begin_seq s \<le> m \<Longrightarrow> m < begin_seq s1 \<Longrightarrow> m \<in> ?N"
  proof -
    fix m assume m: "begin_seq s \<le> m" "m < begin_seq s1"
    then have "m \<in> fst ` set out" using sp by (metis atLeastLessThan_iff list.set_map set_upt)
    then obtain x where "((oep_waiting s)(n \<mapsto> d)) m = Some x" using sp by fastforce
    then show "m \<in> ?N" using Cons.prems(1) by (auto simp: oep_holds_def split: if_splits)
  qed
  have le: "begin_seq s1 \<le> lim"
  proof (rule ccontr)
    assume "\<not> begin_seq s1 \<le> lim"
    with new [of lim] Cons.prems(5,7) n show False by auto
  qed
  have out: "out = map (\<lambda>n. (n, f n)) [begin_seq s..<begin_seq s1]"
  proof -
    have "x = f m" if "(m, x) \<in> set out" for m x
    proof -
      have "((oep_waiting s)(n \<mapsto> d)) m = Some x" using that sp by blast
      then show ?thesis
        using Cons.prems(1) n by (cases "m = n") (auto simp: oep_holds_def split: if_splits)
    qed
    then have p: "(fst p, f (fst p)) = p" if "p \<in> set out" for p
      using that by (metis prod.collapse)
    have "map (\<lambda>p. (fst p, f (fst p))) out = out"
      by (rule map_idI) (rule p)
    then have "out = map (\<lambda>n. (n, f n)) (map fst out)"
      by (simp add: comp_def)
    then show ?thesis using sp by simp
  qed
  have past: "m \<notin> fst ` set evs" if "m < begin_seq s1" for m
  proof
    assume m: "m \<in> fst ` set evs"
    with Cons.prems(3) have "begin_seq s \<le> m" by auto
    then have "m \<in> insert n N" using new that by blast
    with m Cons.prems(4) n(4) show False by auto
  qed
  have "\<exists>s'. oep_run s1 evs = Some (map (\<lambda>n. (n, f n)) [begin_seq s1..<lim], s') \<and>
      oep_inv s' \<and> begin_seq s' = lim \<and> \<not> oep_has_events s'"
  proof (rule Cons.IH [OF h])
    show "\<forall>(n, d)\<in>set evs. d = f n \<and> begin_seq s1 \<le> n"
    proof (rule ballI, clarify)
      fix m x assume mx: "(m, x) \<in> set evs"
      then have "m \<in> fst ` set evs" by force
      then have "\<not> m < begin_seq s1" using past by blast
      with mx Cons.prems(3) show "x = f m \<and> begin_seq s1 \<le> m" by auto
    qed
  next
    show "distinct (map fst evs)" "insert n N \<inter> fst ` set evs = {}"
      "begin_seq s1 \<le> lim" using Cons.prems n ev le by auto
    show "\<forall>m \<in> {begin_seq s1..<lim}. m \<in> insert n N \<or> m \<in> fst ` set evs"
      using Cons.prems(6) ev sp by auto
    show "\<forall>m \<in> insert n N \<union> fst ` set evs. m < lim"
      using Cons.prems(7) ev by auto
  qed
  then show ?case
    using a ev out sp le by (auto simp: upt_join simp flip: map_append)
qed

text \<open>C31: events that carry the numbers \<open>1..n\<close>, each once and in any order, are all
  handed to the callback, in increasing order of their numbers, and nothing stays behind.\<close>

theorem oep_delivers_in_order:
  fixes evs :: "(nat \<times> 'a) list"
  assumes "distinct (map fst evs)" "fst ` set evs = {1..<Suc n}"
  shows "\<exists>s'. oep_run oep_default evs = Some (map (\<lambda>i. (i, the (map_of evs i))) [1..<Suc n], s') \<and>
    \<not> oep_has_events s'"
proof -
  have h: "oep_holds oep_default {} (\<lambda>i. the (map_of evs i))"
    by (simp add: oep_holds_def oep_default_def oep_inv_new)
  have b: "begin_seq (oep_default :: 'a oep) = 1" by (simp add: oep_default_def oep_new_def)
  have "\<exists>s'. oep_run oep_default evs =
      Some (map (\<lambda>i. (i, the (map_of evs i))) [begin_seq (oep_default :: 'a oep)..<Suc n], s') \<and>
    oep_inv s' \<and> begin_seq s' = Suc n \<and> \<not> oep_has_events s'"
    by (rule oep_run_spec [OF h assms(1)]) (use assms b in \<open>auto dest: map_of_is_SomeI simp: rev_image_eqI\<close>)
  then show ?thesis by (auto simp: b)
qed

theorem oep_delivers_in_order_witness:
  "\<exists>s'. oep_run oep_default [(2, ''b''), (3, ''c''), (1, ''a'')] =
      Some (map (\<lambda>i. (i, the (map_of [(2, ''b''), (3, ''c''), (1, ''a'')] i))) [1..<Suc 3], s') \<and>
    \<not> oep_has_events s'"
  by (rule oep_delivers_in_order) auto

section \<open>ChangesProcessor\<close>

text \<open>\<^verbatim>\<open>ChangesProcessor<T>\<close> of
  \<^verbatim>\<open>pxcutils/pxc/utils/ChangesProcessor.h\<close>: changes get numbers as they are
  added and are processed, once finished, in the order of addition. A token below the offset
  wraps around in the subtraction of the source and is past the end of any vector.\<close>

record 'a changes =
  ch_offset :: nat
  ready_i :: nat
  ch_data :: "('a \<times> bool) list"

definition ch_new :: "'a changes" where
  "ch_new = \<lparr>ch_offset = 1, ready_i = 0, ch_data = []\<rparr>"

definition ch_clear :: "'a changes \<Rightarrow> 'a changes" where
  "ch_clear s = \<lparr>ch_offset = ch_offset s + length (ch_data s), ready_i = 0, ch_data = []\<rparr>"

definition ch_add :: "'a changes \<Rightarrow> 'a \<Rightarrow> nat \<times> 'a changes" where
  "ch_add s d = (ch_offset s + length (ch_data s), s\<lparr>ch_data := ch_data s @ [(d, False)]\<rparr>)"

definition ch_try_compactify :: "'a changes \<Rightarrow> 'a changes" where
  "ch_try_compactify s =
     (if 5 < ready_i s \<and> length (ch_data s) < ready_i s * 2
      then \<lparr>ch_offset = ch_offset s + ready_i s, ready_i = 0, ch_data = drop (ready_i s) (ch_data s)\<rparr>
      else s)"

text \<open>The loop of \<^verbatim>\<open>finish\<close> hands the ready changes to the callback and counts
  them.\<close>

function ch_process :: "'a changes \<Rightarrow> 'a list \<times> 'a changes" where
  "ch_process s =
     (if ready_i s < length (ch_data s) \<and> snd (ch_data s ! ready_i s)
      then (let (out, s') = ch_process (s\<lparr>ready_i := ready_i s + 1\<rparr>)
            in (fst (ch_data s ! ready_i s) # out, s'))
      else ([], s))"
  by pat_completeness auto
termination by (relation "measure (\<lambda>s. length (ch_data s) - ready_i s)") auto

declare ch_process.simps [simp del]

definition ch_finish :: "'a changes \<Rightarrow> nat \<Rightarrow> 'a list \<times> 'a changes" where
  "ch_finish s token =
     (let pos = token - ch_offset s in
      if token < ch_offset s \<or> length (ch_data s) \<le> pos then ([], s)
      else (let (out, s1) = ch_process (s\<lparr>ch_data := (ch_data s)[pos := (fst (ch_data s ! pos), True)]\<rparr>)
            in (out, ch_try_compactify s1)))"

datatype 'a ch_op = ChAdd 'a | ChFinish nat | ChClear

fun ch_step :: "'a changes \<Rightarrow> 'a ch_op \<Rightarrow> 'a list \<times> 'a changes" where
  "ch_step s (ChAdd d) = ([], snd (ch_add s d))"
| "ch_step s (ChFinish t) = ch_finish s t"
| "ch_step s ChClear = ([], ch_clear s)"

fun ch_run :: "'a changes \<Rightarrow> 'a ch_op list \<Rightarrow> 'a list \<times> 'a changes" where
  "ch_run s [] = ([], s)"
| "ch_run s (p # ps) =
     (let (out, s1) = ch_step s p; (out', s2) = ch_run s1 ps in (out @ out', s2))"

subsection \<open>The abstract log\<close>

text \<open>The log keeps every change since the last clear under its number; what has been handed
  over is always its longest finished prefix.\<close>

type_synonym 'a ch_log = "nat \<times> ('a \<times> bool) list"

definition log_done :: "('a \<times> bool) list \<Rightarrow> nat" where
  "log_done xs = length (takeWhile snd xs)"

fun log_step :: "'a ch_log \<Rightarrow> 'a ch_op \<Rightarrow> 'a list \<times> 'a ch_log" where
  "log_step (b, xs) (ChAdd d) = ([], (b, xs @ [(d, False)]))"
| "log_step (b, xs) (ChFinish t) =
     (let ys = (if b \<le> t \<and> t - b < length xs then xs[t - b := (fst (xs ! (t - b)), True)] else xs)
      in (map fst (drop (log_done xs) (take (log_done ys) ys)), (b, ys)))"
| "log_step (b, xs) ChClear = ([], (b + length xs, []))"

fun log_run :: "'a ch_log \<Rightarrow> 'a ch_op list \<Rightarrow> 'a list \<times> 'a ch_log" where
  "log_run s [] = ([], s)"
| "log_run s (p # ps) =
     (let (out, s1) = log_step s p; (out', s2) = log_run s1 ps in (out @ out', s2))"

definition ch_rel :: "'a changes \<Rightarrow> 'a ch_log \<Rightarrow> bool" where
  "ch_rel s l \<longleftrightarrow>
     (\<exists>c. c \<le> length (snd l) \<and> ch_offset s = fst l + c \<and> ch_data s = drop c (snd l) \<and>
          c + ready_i s = log_done (snd l))"

lemma log_done_le: "log_done xs \<le> length xs"
  by (simp add: log_done_def length_takeWhile_le)

lemma log_done_nth: "i < log_done xs \<Longrightarrow> snd (xs ! i)"
  unfolding log_done_def by (metis nth_mem set_takeWhileD takeWhile_nth)

lemma log_done_stop: "log_done xs < length xs \<Longrightarrow> \<not> snd (xs ! log_done xs)"
  unfolding log_done_def by (rule nth_length_takeWhile)

lemma log_done_geI: "n \<le> length xs \<Longrightarrow> (\<And>i. i < n \<Longrightarrow> snd (xs ! i)) \<Longrightarrow> n \<le> log_done xs"
  using log_done_stop [of xs] by (meson not_le order_less_le_trans)

lemma log_done_update: "log_done xs \<le> log_done (xs[i := (d, True)])"
proof (rule log_done_geI)
  fix j assume "j < log_done xs"
  then show "snd (xs[i := (d, True)] ! j)"
    using log_done_le [of xs] log_done_nth by (cases "i = j") auto
qed (simp add: log_done_le)

lemma log_done_snoc_False: "log_done (xs @ [(d, False)]) = log_done xs"
  by (simp add: log_done_def takeWhile_tail)

lemma ch_process_spec:
  "ch_data s = drop c xs \<Longrightarrow> c \<le> length xs \<Longrightarrow> c + ready_i s \<le> log_done xs \<Longrightarrow>
   ch_process s = (map fst (drop (c + ready_i s) (take (log_done xs) xs)),
     s\<lparr>ready_i := log_done xs - c\<rparr>)"
proof (induction "log_done xs - (c + ready_i s)" arbitrary: s)
  case 0
  then have "c + ready_i s = log_done xs" by simp
  then have "\<not> (ready_i s < length (ch_data s) \<and> snd (ch_data s ! ready_i s))"
    using 0 log_done_stop [of xs] by auto
  then show ?case using 0 by (subst ch_process.simps) auto
next
  case (Suc k)
  then have less: "c + ready_i s < log_done xs" by simp
  have g: "ready_i s < length (ch_data s) \<and> snd (ch_data s ! ready_i s)"
    using Suc.prems less log_done_le [of xs] log_done_nth [OF less] by simp
  have "drop (c + ready_i s) (take (log_done xs) xs) =
      xs ! (c + ready_i s) # drop (Suc (c + ready_i s)) (take (log_done xs) xs)"
    using less log_done_le [of xs] by (subst Cons_nth_drop_Suc [symmetric]) auto
  with Suc.hyps(1) [of "s\<lparr>ready_i := ready_i s + 1\<rparr>"] Suc.hyps(2) Suc.prems less g show ?case
    by (subst ch_process.simps) simp
qed

lemma ch_try_compactify_rel: "ch_rel s l \<Longrightarrow> ch_rel (ch_try_compactify s) l"
proof -
  assume "ch_rel s l"
  then obtain c where c: "c \<le> length (snd l)" "ch_offset s = fst l + c" "ch_data s = drop c (snd l)"
    "c + ready_i s = log_done (snd l)" by (auto simp: ch_rel_def)
  show ?thesis
  proof (cases "5 < ready_i s \<and> length (ch_data s) < ready_i s * 2")
    case True
    with c log_done_le [of "snd l"] show ?thesis
      by (auto simp: ch_rel_def ch_try_compactify_def add.commute intro!: exI [of _ "c + ready_i s"])
  qed (use c in \<open>auto simp: ch_rel_def ch_try_compactify_def\<close>)
qed

lemma ch_finish_rel:
  assumes "ch_rel s l"
  shows "fst (ch_finish s t) = fst (log_step l (ChFinish t)) \<and>
    ch_rel (snd (ch_finish s t)) (snd (log_step l (ChFinish t)))"
proof -
  obtain b xs where l: "l = (b, xs)" by force
  obtain c where c: "c \<le> length xs" "ch_offset s = b + c" "ch_data s = drop c xs"
    "c + ready_i s = log_done xs" using assms by (auto simp: ch_rel_def l)
  consider "t < b \<or> b + length xs \<le> t" | "b \<le> t" "t < b + c" | "b + c \<le> t" "t < b + length xs"
    by linarith
  then show ?thesis
  proof cases
    case 1
    then have f: "ch_finish s t = ([], s)" using c by (auto simp: ch_finish_def Let_def)
    have "log_step l (ChFinish t) = ([], l)" using 1 by (auto simp: l)
    then show ?thesis using assms by (simp add: f)
  next
    case 2
    then have lt: "t - b < log_done xs" using c by linarith
    then have "xs[t - b := (fst (xs ! (t - b)), True)] = xs"
      using log_done_nth [OF lt] by (metis list_update_id prod.collapse)
    then have "log_step l (ChFinish t) = ([], l)" by (simp add: l)
    then show ?thesis using 2 c assms by (simp add: ch_finish_def)
  next
    case 3
    define ys where "ys = xs[t - b := (fst (xs ! (t - b)), True)]"
    let ?s1 = "s\<lparr>ch_data := drop c ys\<rparr>"
    have d: "(ch_data s)[t - (b + c) := (fst (ch_data s ! (t - (b + c))), True)] = drop c ys"
      using 3 c by (simp add: ys_def drop_update_swap)
    have le: "log_done xs \<le> log_done ys" unfolding ys_def by (rule log_done_update)
    have p: "ch_process ?s1 = (map fst (drop (c + ready_i ?s1) (take (log_done ys) ys)),
        ?s1\<lparr>ready_i := log_done ys - c\<rparr>)"
      by (rule ch_process_spec) (use c le in \<open>auto simp: ys_def\<close>)
    have f: "ch_finish s t = (map fst (drop (log_done xs) (take (log_done ys) ys)),
        ch_try_compactify (?s1\<lparr>ready_i := log_done ys - c\<rparr>))"
      using 3 c d p by (simp add: ch_finish_def Let_def)
    have "ch_rel (?s1\<lparr>ready_i := log_done ys - c\<rparr>) (b, ys)"
      using c le by (auto simp: ch_rel_def ys_def intro!: exI [of _ c])
    then show ?thesis
      using 3 by (simp add: f l ch_try_compactify_rel Let_def ys_def)
  qed
qed

lemma ch_step_rel:
  "ch_rel s l \<Longrightarrow> fst (ch_step s p) = fst (log_step l p) \<and> ch_rel (snd (ch_step s p)) (snd (log_step l p))"
proof (cases p)
  case (ChAdd d)
  then show "ch_rel s l \<Longrightarrow> ?thesis"
    by (cases l) (auto simp: ch_add_def ch_rel_def log_done_snoc_False)
next
  case (ChFinish t)
  then show "ch_rel s l \<Longrightarrow> ?thesis" using ch_finish_rel by simp
next
  case ChClear
  then show "ch_rel s l \<Longrightarrow> ?thesis"
    by (cases l) (auto simp: ch_clear_def ch_rel_def log_done_def)
qed

lemma ch_run_rel: "ch_rel s l \<Longrightarrow> fst (ch_run s ps) = fst (log_run l ps)"
proof (induction ps arbitrary: s l)
  case (Cons p ps)
  from ch_step_rel [OF Cons.prems, of p] Cons.IH show ?case
    by (auto split: prod.splits) (metis prod.collapse fst_conv snd_conv)
qed simp

text \<open>whatever changes are added, finished (in any order, unknown and repeated tokens
  included) and cleared, the changes handed to the callback are those the log would hand out: the
  longest finished prefix of the changes since the last clear, in the order of addition.\<close>

theorem ch_run_refines_log: "fst (ch_run ch_new ps) = fst (log_run (1, []) ps)"
  by (rule ch_run_rel) (simp add: ch_rel_def ch_new_def log_done_def)

end
