(* ===== verification/KHeap.thy ===== *)
theory KHeap
  imports Prelude "HOL-Library.Multiset"
begin

text \<open>
  \<^verbatim>\<open>KHeap<KeyT, K>\<close> of \<^verbatim>\<open>pxcutils/pxc/utils/Heap.h\<close>: a
  K-ary heap of keyed nodes in a vector, where every node stores its own position. The actor
  scheduler keeps its timers in one and \<^verbatim>\<open>MultiTimeout\<close> its deadlines.

  A node is a value of a type \<open>'n\<close> (its address); \<open>node_pos\<close> is the field
  \<^verbatim>\<open>pos_\<close> of every node, \<open>-1\<close> outside of the heap. Positions are below
  \<open>2^31\<close>, so the casts to \<^verbatim>\<open>int32\<close> are exact. A failed
  \<^verbatim>\<open>CHECK\<close> is \<open>None\<close>. \<^verbatim>\<open>shrink_to_fit\<close> has
  no observable effect and no definition. The contract of a queue with updatable keys is the locale
  \<open>keyed_queue\<close>.
\<close>

subsection \<open>The contract of a queue with updatable keys\<close>

locale keyed_queue =
  fixes good :: "'h \<Rightarrow> bool"
    and keys :: "'h \<Rightarrow> 'n \<Rightarrow> ('k::linorder) option"
    and top :: "'h \<Rightarrow> ('k \<times> 'n) option"
    and insert_key :: "'k \<Rightarrow> 'n \<Rightarrow> 'h \<Rightarrow> 'h option"
    and fix_key :: "'k \<Rightarrow> 'n \<Rightarrow> 'h \<Rightarrow> 'h option"
    and erase_key :: "'n \<Rightarrow> 'h \<Rightarrow> 'h option"
    and pop_top :: "'h \<Rightarrow> ('n \<times> 'h) option"
  assumes finite_keys: "good h \<Longrightarrow> finite (dom (keys h))"
    and top_None: "good h \<Longrightarrow> top h = None \<longleftrightarrow> dom (keys h) = {}"
    and top_Some: "good h \<Longrightarrow> top h = Some (k, n) \<Longrightarrow>
      keys h n = Some k \<and> (\<forall>m l. keys h m = Some l \<longrightarrow> k \<le> l)"
    and insert_key: "good h \<Longrightarrow> keys h n = None \<Longrightarrow>
      \<exists>h'. insert_key k n h = Some h' \<and> good h' \<and> keys h' = (keys h)(n \<mapsto> k)"
    and fix_key: "good h \<Longrightarrow> keys h n \<noteq> None \<Longrightarrow>
      \<exists>h'. fix_key k n h = Some h' \<and> good h' \<and> keys h' = (keys h)(n \<mapsto> k)"
    and erase_key: "good h \<Longrightarrow> keys h n \<noteq> None \<Longrightarrow>
      \<exists>h'. erase_key n h = Some h' \<and> good h' \<and> keys h' = (keys h)(n := None)"
    and pop_top: "good h \<Longrightarrow> top h = Some (k, n) \<Longrightarrow>
      \<exists>h'. pop_top h = Some (n, h') \<and> good h' \<and> keys h' = (keys h)(n := None)"
begin

lemma top_is_key: "good h \<Longrightarrow> keys h n = Some k \<Longrightarrow>
  \<exists>l m. top h = Some (l, m) \<and> l \<le> k"
proof -
  assume h: "good h" "keys h n = Some k"
  then have "top h \<noteq> None" by (auto simp: top_None)
  then obtain l m where t: "top h = Some (l, m)" by auto
  with top_Some [OF h(1) t] h(2) show ?thesis by auto
qed

text \<open>A change of one node that was and is not at the top leaves the top key alone.\<close>

lemma top_unchanged:
  assumes "good h" "good h'" "top h = Some (k, m)" "top h' = Some (k', m')" "m \<noteq> n" "m' \<noteq> n"
    "\<And>j. j \<noteq> n \<Longrightarrow> keys h' j = keys h j"
  shows "k' = k"
  using top_Some [OF assms(1,3)] top_Some [OF assms(2,4)] assms(5-7) by (metis order_antisym)

text \<open>A timer queue is emptied below a bound: pop while the top key is smaller.\<close>

fun pop_below :: "nat \<Rightarrow> 'k \<Rightarrow> 'h \<Rightarrow> ('n list \<times> 'h) option" where
  "pop_below 0 b h = None"
| "pop_below (Suc fuel) b h =
     (case top h of
        None \<Rightarrow> Some ([], h)
      | Some (k, _) \<Rightarrow>
          if k < b
          then (case pop_top h of
                  None \<Rightarrow> None
                | Some (n, h1) \<Rightarrow>
                    (case pop_below fuel b h1 of
                       None \<Rightarrow> None | Some (ns, h2) \<Rightarrow> Some (n # ns, h2)))
          else Some ([], h))"

lemma pop_below:
  "good h \<Longrightarrow> card (dom (keys h)) < fuel \<Longrightarrow>
   \<exists>ns h'. pop_below fuel b h = Some (ns, h') \<and> good h' \<and> distinct ns \<and>
     set ns = {n. \<exists>k. keys h n = Some k \<and> k < b} \<and>
     sorted (map (\<lambda>n. the (keys h n)) ns) \<and>
     keys h' = (\<lambda>n. if n \<in> set ns then None else keys h n)"
proof (induction fuel arbitrary: h)
  case (Suc fuel)
  show ?case
  proof (cases "top h")
    case None
    then have "dom (keys h) = {}" using top_None Suc.prems(1) by blast
    with None Suc.prems show ?thesis by auto
  next
    case (Some t)
    obtain k n where t: "top h = Some (k, n)" using Some by (cases t) auto
    note kn = top_Some [OF Suc.prems(1) t]
    show ?thesis
    proof (cases "k < b")
      case False
      then have e: "{n. \<exists>k. keys h n = Some k \<and> k < b} = {}"
        using kn by (auto dest: order_le_less_trans)
      show ?thesis using t False Suc.prems(1) e by simp
    next
      case True
      obtain h1 where h1: "pop_top h = Some (n, h1)" "good h1" "keys h1 = (keys h)(n := None)"
        using pop_top [OF Suc.prems(1) t] by blast
      have "dom (keys h) = insert n (dom (keys h1))" "n \<notin> dom (keys h1)"
        using kn h1(3) by (auto split: if_splits)
      then have "card (dom (keys h1)) < fuel"
        using Suc.prems finite_keys [OF h1(2)] by simp
      from Suc.IH [OF h1(2) this] obtain ns h2 where r: "pop_below fuel b h1 = Some (ns, h2)"
        "good h2" "distinct ns" "set ns = {m. \<exists>k. keys h1 m = Some k \<and> k < b}"
        "sorted (map (\<lambda>m. the (keys h1 m)) ns)"
        "keys h2 = (\<lambda>m. if m \<in> set ns then None else keys h1 m)" by auto
      have n: "n \<notin> set ns" using r(4) h1(3) by auto
      have "map (\<lambda>m. the (keys h1 m)) ns = map (\<lambda>m. the (keys h m)) ns"
        using n h1(3) by auto
      with r(5) have m: "sorted (map (\<lambda>m. the (keys h m)) ns)" by simp
      have s: "set (n # ns) = {m. \<exists>l. keys h m = Some l \<and> l < b}"
        using r(4) h1(3) kn True by auto
      moreover have "\<forall>m \<in> set ns. k \<le> the (keys h m)"
      proof
        fix m assume "m \<in> set ns"
        then obtain l where "keys h m = Some l" using s by auto
        with kn show "k \<le> the (keys h m)" by auto
      qed
      ultimately show ?thesis
        using t True h1 r(1,2,3,6) n m kn by (intro exI [of _ "n # ns"] exI [of _ h2]) (auto simp: fun_eq_iff)
    qed
  qed
qed simp

end

subsection \<open>The model\<close>

record ('k, 'n) kheap =
  heap_array :: "('k \<times> 'n) list"
  node_pos :: "'n \<Rightarrow> int"

definition kh_new :: "('k, 'n) kheap" where
  "kh_new = \<lparr>heap_array = [], node_pos = (\<lambda>_. -1)\<rparr>"

definition in_heap :: "('k, 'n) kheap \<Rightarrow> 'n \<Rightarrow> bool" where
  "in_heap h n \<longleftrightarrow> node_pos h n \<noteq> -1"

definition is_top :: "('k, 'n) kheap \<Rightarrow> 'n \<Rightarrow> bool" where
  "is_top h n \<longleftrightarrow> node_pos h n = 0"

definition kh_empty :: "('k, 'n) kheap \<Rightarrow> bool" where
  "kh_empty h \<longleftrightarrow> heap_array h = []"

definition kh_size :: "('k, 'n) kheap \<Rightarrow> nat" where
  "kh_size h = length (heap_array h)"

definition kh_top :: "('k, 'n) kheap \<Rightarrow> ('k \<times> 'n) option" where
  "kh_top h = (case heap_array h of [] \<Rightarrow> None | it # _ \<Rightarrow> Some it)"

text \<open>\<^verbatim>\<open>static_cast<size_t>(node->pos_)\<close> with its
  \<^verbatim>\<open>CHECK(pos < array_.size())\<close>.\<close>

definition kh_position :: "('k, 'n) kheap \<Rightarrow> 'n \<Rightarrow> nat option" where
  "kh_position h n =
     (if 0 \<le> node_pos h n \<and> nat (node_pos h n) < length (heap_array h)
      then Some (nat (node_pos h n)) else None)"

definition kh_get_key :: "('k, 'n) kheap \<Rightarrow> 'n \<Rightarrow> 'k option" where
  "kh_get_key h n = map_option (\<lambda>pos. fst (heap_array h ! pos)) (kh_position h n)"

definition kh_place :: "('k, 'n) kheap \<Rightarrow> nat \<Rightarrow> 'k \<times> 'n \<Rightarrow> ('k, 'n) kheap" where
  "kh_place h pos it =
     \<lparr>heap_array = (heap_array h)[pos := it], node_pos = (node_pos h)(snd it := int pos)\<rparr>"

function kh_up :: "nat \<Rightarrow> 'k::linorder \<times> 'n \<Rightarrow> ('k, 'n) kheap \<Rightarrow> nat \<Rightarrow> ('k, 'n) kheap \<times> nat" where
  "kh_up K item h pos =
     (if pos = 0 then (h, pos)
      else let parent_pos = (pos - 1) div K; parent_item = heap_array h ! parent_pos
           in if fst parent_item < fst item then (h, pos)
              else kh_up K item (kh_place h pos parent_item) parent_pos)"
  by pat_completeness auto
termination
proof (relation "measure (\<lambda>(K, item, h, pos). pos)", goal_cases)
  case (2 K item h pos x xa)
  then have "x \<le> pos - 1" "0 < pos" by (simp_all add: div_le_dividend)
  then show ?case by simp
qed simp

definition kh_fix_up :: "nat \<Rightarrow> ('k::linorder, 'n) kheap \<Rightarrow> nat \<Rightarrow> ('k, 'n) kheap" where
  "kh_fix_up K h pos =
     (let item = heap_array h ! pos; (h', pos') = kh_up K item h pos in kh_place h' pos' item)"

text \<open>The smallest child, taken only if it is smaller than the item.\<close>

definition kh_next :: "('k::linorder \<times> 'n) list \<Rightarrow> nat list \<Rightarrow> nat \<times> 'k \<Rightarrow> nat \<times> 'k" where
  "kh_next arr is start =
     foldl (\<lambda>(next_pos, next_key) i.
       if fst (arr ! i) < next_key then (i, fst (arr ! i)) else (next_pos, next_key)) start is"

definition kh_child :: "nat \<Rightarrow> ('k::linorder \<times> 'n) list \<Rightarrow> 'k \<Rightarrow> nat \<Rightarrow> nat" where
  "kh_child K arr item_key pos =
     (let left_pos = pos * K + 1; right_pos = min (left_pos + K) (length arr)
      in fst (kh_next arr [left_pos..<right_pos] (pos, item_key)))"

lemma kh_next_range: "fst (kh_next arr is start) \<in> insert (fst start) (set is)"
  unfolding kh_next_def
proof (induction "is" arbitrary: start)
  case (Cons i js)
  show ?case
    using Cons [of "if fst (arr ! i) < snd start then (i, fst (arr ! i)) else start"]
    by (auto simp: case_prod_beta)
qed simp

lemma kh_child_range:
  "kh_child K arr k pos = pos \<or>
   (pos * K < kh_child K arr k pos \<and> kh_child K arr k pos \<le> pos * K + K \<and> kh_child K arr k pos < length arr)"
  using kh_next_range [of arr "[pos * K + 1..<min (pos * K + 1 + K) (length arr)]" "(pos, k)"]
  by (auto simp: kh_child_def Let_def)

function kh_down :: "nat \<Rightarrow> 'k::linorder \<times> 'n \<Rightarrow> ('k, 'n) kheap \<Rightarrow> nat \<Rightarrow> ('k, 'n) kheap \<times> nat" where
  "kh_down K item h pos =
     (let next_pos = kh_child K (heap_array h) (fst item) pos
      in if next_pos = pos then (h, pos)
         else kh_down K item (kh_place h pos (heap_array h ! next_pos)) next_pos)"
  by pat_completeness auto
termination
proof (relation "measure (\<lambda>(K, item, h, pos). length (heap_array h) - pos)", goal_cases)
  case (2 K item h pos x)
  then have "pos * K < x" "x < length (heap_array h)" "x \<le> pos * K + K"
    using kh_child_range [of K "heap_array h" "fst item" pos] by auto
  moreover from this have "pos \<le> pos * K" by (cases "K = 0") auto
  ultimately have "pos < x" "x < length (heap_array h)" by linarith+
  then show ?case by (simp add: kh_place_def)
qed simp

declare kh_up.simps [simp del] kh_down.simps [simp del]

definition kh_fix_down :: "nat \<Rightarrow> ('k::linorder, 'n) kheap \<Rightarrow> nat \<Rightarrow> ('k, 'n) kheap" where
  "kh_fix_down K h pos =
     (let item = heap_array h ! pos; (h', pos') = kh_down K item h pos in kh_place h' pos' item)"

definition kh_erase_at :: "nat \<Rightarrow> ('k::linorder, 'n) kheap \<Rightarrow> nat \<Rightarrow> ('k, 'n) kheap" where
  "kh_erase_at K h pos =
     (let arr = (heap_array h)[pos := last (heap_array h)];
          h1 = h\<lparr>heap_array := butlast arr\<rparr>
      in if pos < length (heap_array h1) then kh_fix_up K (kh_fix_down K h1 pos) pos else h1)"

definition kh_remove :: "('k, 'n) kheap \<Rightarrow> 'n \<Rightarrow> ('k, 'n) kheap" where
  "kh_remove h n = h\<lparr>node_pos := (node_pos h)(n := -1)\<rparr>"

definition kh_pop :: "nat \<Rightarrow> ('k::linorder, 'n) kheap \<Rightarrow> ('n \<times> ('k, 'n) kheap) option" where
  "kh_pop K h =
     (if kh_empty h then None
      else let result = snd (heap_array h ! 0) in Some (result, kh_erase_at K (kh_remove h result) 0))"

definition kh_insert :: "nat \<Rightarrow> 'k::linorder \<Rightarrow> 'n \<Rightarrow> ('k, 'n) kheap \<Rightarrow> ('k, 'n) kheap option" where
  "kh_insert K key n h =
     (if in_heap h n then None
      else let h1 = h\<lparr>heap_array := heap_array h @ [(key, n)]\<rparr>
           in Some (kh_fix_up K h1 (length (heap_array h1) - 1)))"

definition kh_fix :: "nat \<Rightarrow> 'k::linorder \<Rightarrow> 'n \<Rightarrow> ('k, 'n) kheap \<Rightarrow> ('k, 'n) kheap option" where
  "kh_fix K key n h =
     (case kh_position h n of
        None \<Rightarrow> None
      | Some pos \<Rightarrow>
          let old_key = fst (heap_array h ! pos);
              h1 = h\<lparr>heap_array := (heap_array h)[pos := (key, snd (heap_array h ! pos))]\<rparr>
          in Some (if key < old_key then kh_fix_up K h1 pos else kh_fix_down K h1 pos))"

definition kh_erase :: "nat \<Rightarrow> 'n \<Rightarrow> ('k::linorder, 'n) kheap \<Rightarrow> ('k, 'n) kheap option" where
  "kh_erase K n h =
     (case kh_position h n of
        None \<Rightarrow> None
      | Some pos \<Rightarrow> Some (kh_erase_at K (kh_remove h n) pos))"

definition kh_for_each :: "('k, 'n) kheap \<Rightarrow> ('k \<times> 'n) list" where
  "kh_for_each h = heap_array h"

definition kh_check :: "nat \<Rightarrow> ('k::linorder, 'n) kheap \<Rightarrow> bool" where
  "kh_check K h \<longleftrightarrow>
     (\<forall>i \<in> {..<length (heap_array h)}. \<forall>j \<in> {i * K + 1..<i * K + 1 + K}.
        j < length (heap_array h) \<longrightarrow> fst (heap_array h ! i) \<le> fst (heap_array h ! j))"

subsection \<open>Heap order, with one position out of order\<close>

abbreviation parent :: "nat \<Rightarrow> nat \<Rightarrow> nat" where
  "parent K i \<equiv> (i - 1) div K"

definition ordered_but :: "nat \<Rightarrow> ('k::linorder \<times> 'n) list \<Rightarrow> nat set \<Rightarrow> bool" where
  "ordered_but K A X \<longleftrightarrow>
     (\<forall>i. 0 < i \<and> i < length A \<and> i \<notin> X \<longrightarrow> fst (A ! parent K i) \<le> fst (A ! i))"

definition skips :: "nat \<Rightarrow> ('k::linorder \<times> 'n) list \<Rightarrow> nat \<Rightarrow> bool" where
  "skips K A p \<longleftrightarrow>
     (\<forall>i. 0 < p \<and> 0 < i \<and> i < length A \<and> parent K i = p \<longrightarrow> fst (A ! parent K p) \<le> fst (A ! i))"

definition children :: "nat \<Rightarrow> nat \<Rightarrow> nat set" where
  "children K p = {i. 0 < i \<and> parent K i = p}"

definition swap_at :: "nat \<Rightarrow> nat \<Rightarrow> 'a list \<Rightarrow> 'a list" where
  "swap_at i j A = A[i := A ! j, j := A ! i]"

lemma parent_less: "0 < i \<Longrightarrow> parent K i < i"
  by (metis One_nat_def Suc_pred div_le_dividend le_imp_less_Suc)

lemma parent_iff: "0 < K \<Longrightarrow> 0 < i \<Longrightarrow> parent K i = p \<longleftrightarrow> p * K + 1 \<le> i \<and> i \<le> p * K + K"
proof -
  assume K: "0 < K" "0 < i"
  then have "parent K i = p \<longleftrightarrow> p * K \<le> i - 1 \<and> i - 1 < p * K + K"
    by (metis add.commute div_nat_eqI dividend_less_div_times mult_Suc div_times_less_eq_dividend
        mult.commute)
  also have "\<dots> \<longleftrightarrow> p * K + 1 \<le> i \<and> i \<le> p * K + K" using K by linarith
  finally show ?thesis .
qed

lemma length_swap_at [simp]: "length (swap_at i j A) = length A"
  by (simp add: swap_at_def)

lemma nth_swap_at: "i < length A \<Longrightarrow> j < length A \<Longrightarrow> k < length A \<Longrightarrow>
    swap_at i j A ! k = (if k = j then A ! i else if k = i then A ! j else A ! k)"
  by (auto simp: swap_at_def nth_list_update)

lemma mset_swap_at: "i < length A \<Longrightarrow> j < length A \<Longrightarrow> mset (swap_at i j A) = mset A"
  by (simp add: swap_at_def mset_swap)

lemma swap_up:
  assumes o: "ordered_but K A {p}" "skips K A p" and p: "0 < p" "p < length A"
    and le: "fst (A ! p) \<le> fst (A ! parent K p)"
  shows "ordered_but K (swap_at p (parent K p) A) {parent K p} \<and> skips K (swap_at p (parent K p) A) (parent K p)"
proof -
  let ?q = "parent K p" and ?B = "swap_at p (parent K p) A"
  have q: "?q < p" "?q < length A" using parent_less [OF p(1), of K] p(2) by auto
  have B: "?B ! k = (if k = ?q then A ! p else if k = p then A ! ?q else A ! k)" if "k < length A" for k
    using nth_swap_at [OF p(2) q(2) that] .
  have e: "fst (A ! parent K i) \<le> fst (A ! i)" if "0 < i" "i < length A" "i \<noteq> p" for i
    using o(1) that by (auto simp: ordered_but_def)
  have g: "fst (A ! ?q) \<le> fst (A ! i)" if "0 < i" "i < length A" "parent K i = p" for i
    using o(2) that p by (auto simp: skips_def)
  have "fst (?B ! parent K i) \<le> fst (?B ! i)" if i: "0 < i" "i < length A" "i \<noteq> ?q" for i
    using i B [OF i(2)] B [of "parent K i"] parent_less [OF i(1), of K] e [of i] g [of i] le q
    by (auto split: if_splits)
  moreover have "fst (?B ! parent K ?q) \<le> fst (?B ! i)"
    if i: "0 < ?q" "0 < i" "i < length A" "parent K i = ?q" for i
  proof -
    have 1: "fst (A ! parent K ?q) \<le> fst (A ! ?q)" using e [of ?q] i(1) q by simp
    have 2: "?B ! parent K ?q = A ! parent K ?q"
      using B [of "parent K ?q"] parent_less [OF i(1), of K] q by auto
    show ?thesis
    proof (cases "i = p")
      case False
      have "?B ! i = A ! i" using B [OF i(3)] False i parent_less [OF i(2), of K] by auto
      then show ?thesis using 1 2 e [OF i(2,3) False] i(4) by simp
    qed (use 1 2 B [OF p(2)] q in auto)
  qed
  ultimately show ?thesis by (simp add: ordered_but_def skips_def)
qed

lemma swap_down:
  assumes o: "\<forall>i. 0 < i \<and> i < length A \<and> i \<notin> children K p \<and> i \<noteq> p \<longrightarrow> fst (A ! parent K i) \<le> fst (A ! i)"
      "skips K A p"
    and c: "c \<in> children K p" "c < length A" "p < c"
    and min: "\<forall>i \<in> children K p. i < length A \<longrightarrow> fst (A ! c) \<le> fst (A ! i)"
    and lt: "fst (A ! c) < fst (A ! p)"
  shows "ordered_but K (swap_at p c A) (children K c) \<and> skips K (swap_at p c A) c"
proof -
  let ?B = "swap_at p c A"
  have c2: "0 < c" "parent K c = p" "p < length A" using c by (auto simp: children_def)
  have B: "?B ! k = (if k = c then A ! p else if k = p then A ! c else A ! k)" if "k < length A" for k
    using nth_swap_at [OF c2(3) c(2) that] .
  have e: "fst (A ! parent K i) \<le> fst (A ! i)" if "0 < i" "i < length A" "parent K i \<noteq> p" "i \<noteq> p" for i
    using o(1) that by (auto simp: children_def)
  have g: "fst (A ! parent K p) \<le> fst (A ! i)" if "0 < p" "0 < i" "i < length A" "parent K i = p" for i
    using o(2) that by (auto simp: skips_def)
  have m: "fst (A ! c) \<le> fst (A ! i)" if "0 < i" "i < length A" "parent K i = p" for i
    using min that by (auto simp: children_def)
  have "fst (?B ! parent K i) \<le> fst (?B ! i)" if i: "0 < i" "i < length A" "parent K i \<noteq> c" for i
  proof -
    have pl: "parent K i < length A" using parent_less [OF i(1), of K] i(2) by linarith
    consider "i = c" | "i \<noteq> c" "parent K i = p" | "i = p" "parent K i \<noteq> p" | "i \<noteq> c" "i \<noteq> p" "parent K i \<noteq> p"
      by blast
    then show ?thesis
    proof cases
      case 1
      with B [OF c(2)] B [of p] c2 c(3) lt show ?thesis by auto
    next
      case 2
      then have "i \<noteq> p" using parent_less [OF i(1), of K] by auto
      with 2 B [OF i(2)] B [of p] c2 c(3) m [OF i(1,2)] show ?thesis by auto
    next
      case 3
      with B [OF i(2)] B [OF pl] c2 c(3) i(3) g [of c] c(2) i(1) show ?thesis by auto
    next
      case 4
      with B [OF i(2)] B [OF pl] i(3) e [OF i(1,2)] show ?thesis by auto
    qed
  qed
  moreover have "fst (?B ! p) \<le> fst (?B ! i)" if i: "0 < i" "i < length A" "parent K i = c" for i
  proof -
    have "c < i" using parent_less [OF i(1), of K] i(3) by simp
    then have "i \<noteq> c" "i \<noteq> p" using c(3) by auto
    with B [OF i(2)] B [of p] c2 c(3) e [of i] i show ?thesis by auto
  qed
  ultimately show ?thesis unfolding ordered_but_def skips_def children_def c2(2) length_swap_at by blast
qed

subsection \<open>Node positions\<close>

definition nodes_ok :: "('k \<times> 'n) list \<Rightarrow> ('n \<Rightarrow> int) \<Rightarrow> nat set \<Rightarrow> bool" where
  "nodes_ok A f X \<longleftrightarrow> distinct (List.map snd A) \<and>
     (\<forall>i. i < length A \<and> i \<notin> X \<longrightarrow> f (snd (A ! i)) = int i) \<and>
     (\<forall>n. n \<notin> snd ` set A \<longrightarrow> f n = -1)"

lemma nodes_ok_eq:
  "nodes_ok A f X \<Longrightarrow> i < length A \<Longrightarrow> j < length A \<Longrightarrow> snd (A ! i) = snd (A ! j) \<longleftrightarrow> i = j"
  using nth_eq_iff_index_eq [of "List.map snd A" i j] by (simp add: nodes_ok_def)

lemma nodes_ok_swap:
  assumes "nodes_ok A f {p}" "p < length A" "q < length A" "p \<noteq> q"
  shows "nodes_ok (swap_at p q A) (f(snd (A ! q) := int p)) {q}"
proof -
  have s: "set (swap_at p q A) = set A"
    using mset_swap_at [OF assms(2,3)] by (metis set_mset_mset)
  have "mset (List.map snd (swap_at p q A)) = mset (List.map snd A)"
    by (simp add: mset_swap_at assms)
  then have "distinct (List.map snd (swap_at p q A))"
    using assms(1) unfolding nodes_ok_def by (metis mset_eq_imp_distinct_iff)
  moreover have "(f(snd (A ! q) := int p)) (snd (swap_at p q A ! i)) = int i" if "i < length A" "i \<noteq> q" for i
    using nth_swap_at [OF assms(2,3) that(1)] nodes_ok_eq [OF assms(1) that(1) assms(3)] assms that
    by (auto simp: nodes_ok_def)
  moreover have "snd (A ! q) \<in> snd ` set A" using assms(3) by auto
  ultimately show ?thesis using assms(1) s by (auto simp: nodes_ok_def)
qed

lemma nodes_ok_place:
  "nodes_ok (A[p := it]) f {p} \<Longrightarrow> p < length A \<Longrightarrow> nodes_ok (A[p := it]) (f(snd it := int p)) {}"
  using nodes_ok_eq [of "A[p := it]" f "{p}" _ p]
  by (auto simp: nodes_ok_def set_update_memI image_iff)

lemma place_swap:
  "p < length A \<Longrightarrow> q < length A \<Longrightarrow> p \<noteq> q \<Longrightarrow>
   A[p := A ! q, q := it] = swap_at p q (A[p := it])"
  by (simp add: swap_at_def)

definition kh_inv :: "nat \<Rightarrow> ('k::linorder, 'n) kheap \<Rightarrow> bool" where
  "kh_inv K h \<longleftrightarrow> ordered_but K (heap_array h) {} \<and> nodes_ok (heap_array h) (node_pos h) {}"

text \<open>What a finished sift has done: the items are the same and the heap is in order.\<close>

definition sifted :: "nat \<Rightarrow> ('k::linorder \<times> 'n) list \<Rightarrow> ('k, 'n) kheap \<Rightarrow> bool" where
  "sifted K A h \<longleftrightarrow> kh_inv K h \<and> mset (heap_array h) = mset A"

subsection \<open>Sifting up\<close>

lemma ordered_but_weaken: "ordered_but K A {} \<Longrightarrow> ordered_but K A X"
  by (simp add: ordered_but_def)

lemma skips_ordered:
  assumes "ordered_but K A {}" shows "skips K A p"
  unfolding skips_def
proof (intro allI impI, elim conjE)
  fix i assume i: "0 < p" "0 < i" "i < length A" "parent K i = p"
  then have "fst (A ! p) \<le> fst (A ! i)" using assms by (auto simp: ordered_but_def)
  moreover have "p < length A" using parent_less [OF i(2), of K] i by simp
  then have "fst (A ! parent K p) \<le> fst (A ! p)" using assms i by (auto simp: ordered_but_def)
  ultimately show "fst (A ! parent K p) \<le> fst (A ! i)" by simp
qed

lemma kh_up_spec:
  assumes "A = (heap_array h)[pos := item]" "pos < length A"
    "ordered_but K A {pos}" "skips K A pos" "nodes_ok A (node_pos h) {pos}"
    "kh_up K item h pos = (h', pos')"
  shows "sifted K A (kh_place h' pos' item)"
  using assms
proof (induction K item h pos arbitrary: A rule: kh_up.induct)
  case (1 K item h pos)
  let ?q = "parent K pos" and ?it = "heap_array h ! parent K pos"
  have stop: "sifted K A (kh_place h pos item)" if "ordered_but K A {}"
    using that 1(2,3,6) nodes_ok_place [of "heap_array h" pos item "node_pos h"]
    by (simp add: sifted_def kh_inv_def kh_place_def)
  show ?case
  proof (cases "pos = 0 \<or> fst ?it < fst item")
    case True
    then have "(h', pos') = (h, pos)"
      using 1(7) by (subst (asm) kh_up.simps) (auto simp: Let_def split: if_splits)
    moreover have "fst (A ! ?q) \<le> fst (A ! pos)" if "0 < pos"
      using True that parent_less [OF that, of K] 1(2,3) by simp
    then have "ordered_but K A {}" using 1(4) by (auto simp: ordered_but_def)
    ultimately show ?thesis using stop by simp
  next
    case False
    then have q: "?q < pos" "?q < length A" using parent_less [of pos K] 1(3) by auto
    let ?h = "kh_place h pos ?it" and ?B = "swap_at pos ?q A"
    have B: "?B = (heap_array ?h)[?q := item]"
      using q 1(2,3) by (simp add: kh_place_def place_swap)
    have Aq: "A ! ?q = ?it" "A ! pos = item" using q 1(2,3) by auto
    have u: "kh_up K item ?h ?q = (h', pos')"
      using False 1(7) by (subst (asm) kh_up.simps) (simp add: Let_def)
    have sw: "ordered_but K ?B {?q} \<and> skips K ?B ?q"
      by (rule swap_up) (use 1(3,4,5) False Aq in auto)
    have nd: "nodes_ok ?B (node_pos ?h) {?q}"
      using nodes_ok_swap [OF 1(6,3) q(2)] q Aq by (simp add: kh_place_def)
    have "sifted K ?B (kh_place h' pos' item)"
      by (rule 1(1) [OF _ refl refl _ B _ _ _ nd u]) (use False sw q in auto)
    then show ?thesis using mset_swap_at [OF 1(3) q(2)] by (simp add: sifted_def)
  qed
qed

lemma kh_fix_up_spec:
  assumes "pos < length (heap_array h)" "ordered_but K (heap_array h) {pos}"
    "skips K (heap_array h) pos" "nodes_ok (heap_array h) (node_pos h) {pos}"
  shows "sifted K (heap_array h) (kh_fix_up K h pos)"
  using kh_up_spec [of "heap_array h" h pos "heap_array h ! pos" K] assms
  by (auto simp: kh_fix_up_def Let_def split: prod.splits)

lemma kh_fix_up_id:
  assumes "kh_inv K h" "pos < length (heap_array h)"
  shows "sifted K (heap_array h) (kh_fix_up K h pos)"
  by (rule kh_fix_up_spec)
    (use assms in \<open>auto simp: kh_inv_def ordered_but_weaken skips_ordered nodes_ok_def\<close>)

subsection \<open>Sifting down\<close>

lemma kh_next_spec:
  "kh_next arr is (p, k) = (p', k') \<Longrightarrow>
     (p' = p \<and> k' = k \<and> (\<forall>i \<in> set is. k \<le> fst (arr ! i))) \<or>
     (p' \<in> set is \<and> k' = fst (arr ! p') \<and> k' < k \<and> (\<forall>i \<in> set is. k' \<le> fst (arr ! i)))"
proof (induction "is" arbitrary: p k)
  case (Cons i js)
  show ?case
  proof (cases "fst (arr ! i) < k")
    case True
    then have "kh_next arr js (i, fst (arr ! i)) = (p', k')" using Cons.prems by (simp add: kh_next_def)
    from Cons.IH [OF this] True show ?thesis by auto
  next
    case False
    then have "kh_next arr js (p, k) = (p', k')" using Cons.prems by (simp add: kh_next_def)
    from Cons.IH [OF this] False show ?thesis by auto
  qed
qed (simp add: kh_next_def)

lemma kh_child_spec:
  assumes K: "0 < K" and c: "kh_child K arr k pos = c" and A: "A = arr[pos := (k, n)]"
  shows "(c = pos \<and> (\<forall>i \<in> children K pos. i < length A \<longrightarrow> k \<le> fst (A ! i))) \<or>
    (c \<in> children K pos \<and> c < length A \<and> pos < c \<and> fst (A ! c) < k \<and>
     (\<forall>i \<in> children K pos. i < length A \<longrightarrow> fst (A ! c) \<le> fst (A ! i)))"
proof -
  let ?is = "[pos * K + 1..<min (pos * K + 1 + K) (length arr)]"
  obtain k' where k': "kh_next arr ?is (pos, k) = (c, k')"
    using c by (cases "kh_next arr ?is (pos, k)") (simp add: kh_child_def Let_def)
  have set: "set ?is = {i \<in> children K pos. i < length A}"
  proof (rule set_eqI)
    fix i
    show "i \<in> set ?is \<longleftrightarrow> i \<in> {i \<in> children K pos. i < length A}"
      using parent_iff [OF K, of i pos] A by (cases "i = 0") (auto simp: children_def simp del: One_nat_def)
  qed
  have gt: "pos < i" if "i \<in> children K pos" for i
    using parent_less [of i K] that by (auto simp: children_def)
  have nth: "arr ! i = A ! i" if "i \<in> children K pos" for i
    using gt [OF that] A by simp
  from kh_next_spec [OF k'] show ?thesis
    unfolding set using gt nth by (auto simp: children_def)
qed

lemma kh_down_spec:
  assumes "0 < K" "A = (heap_array h)[pos := item]" "pos < length A"
    "ordered_but K A (children K pos)" "skips K A pos" "nodes_ok A (node_pos h) {pos}"
    "kh_down K item h pos = (h', pos')"
  shows "sifted K A (kh_place h' pos' item)"
  using assms
proof (induction K item h pos arbitrary: A rule: kh_down.induct)
  case (1 K item h pos)
  define c where "c = kh_child K (heap_array h) (fst item) pos"
  have Ap: "A ! pos = item" using 1(3,4) by simp
  note ch = kh_child_spec [OF 1(2) c_def [symmetric], of A "snd item"]
  show ?case
  proof (cases "c = pos")
    case True
    then have "(h', pos') = (h, pos)"
      using 1(8) c_def by (subst (asm) kh_down.simps) (simp add: Let_def)
    moreover have "\<forall>i \<in> children K pos. i < length A \<longrightarrow> fst item \<le> fst (A ! i)"
      using ch True 1(3) by auto
    then have "ordered_but K A {}" using 1(5) Ap by (auto simp: ordered_but_def children_def)
    ultimately show ?thesis
      using 1(3,4,7) nodes_ok_place [of "heap_array h" pos item "node_pos h"]
      by (simp add: sifted_def kh_inv_def kh_place_def)
  next
    case False
    with ch 1(3) have c: "c \<in> children K pos" "c < length A" "pos < c" "fst (A ! c) < fst item"
      "\<forall>i \<in> children K pos. i < length A \<longrightarrow> fst (A ! c) \<le> fst (A ! i)" by auto
    let ?h = "kh_place h pos (heap_array h ! c)" and ?B = "swap_at pos c A"
    have Ac: "A ! c = heap_array h ! c" using c 1(3) by simp
    have B: "?B = (heap_array ?h)[c := item]"
      using c 1(3,4) by (simp add: kh_place_def place_swap)
    have d: "kh_down K item ?h c = (h', pos')"
      using False 1(8) c_def by (subst (asm) kh_down.simps) (simp add: Let_def)
    have sw: "ordered_but K ?B (children K c) \<and> skips K ?B c"
      by (rule swap_down) (use 1(5,6) c Ap in \<open>auto simp: ordered_but_def\<close>)
    have nd: "nodes_ok ?B (node_pos ?h) {c}"
      using nodes_ok_swap [OF 1(7,4) c(2)] c Ac by (simp add: kh_place_def)
    have "sifted K ?B (kh_place h' pos' item)"
      by (rule 1(1) [OF c_def False 1(2) B _ _ _ nd d]) (use sw c in auto)
    then show ?thesis using mset_swap_at [OF 1(4) c(2)] by (simp add: sifted_def)
  qed
qed

lemma kh_fix_down_spec:
  assumes "0 < K" "pos < length (heap_array h)" "ordered_but K (heap_array h) (children K pos)"
    "skips K (heap_array h) pos" "nodes_ok (heap_array h) (node_pos h) {pos}"
  shows "sifted K (heap_array h) (kh_fix_down K h pos)"
  using kh_down_spec [of K "heap_array h" h pos "heap_array h ! pos"] assms
  by (auto simp: kh_fix_down_def Let_def split: prod.splits)

text \<open>After an erasure the moved item may also be smaller than its parent: either the sift down
  leaves it where it is, and the sift up is needed, or it moves down and the heap is in order.\<close>

lemma kh_fix_down_up_spec:
  fixes h :: "('k::linorder, 'n) kheap"
  assumes K: "0 < K" and pos: "pos < length (heap_array h)"
    and o: "ordered_but K (heap_array h) (insert pos (children K pos))"
    and sk: "skips K (heap_array h) pos"
    and nd: "nodes_ok (heap_array h) (node_pos h) {pos}"
  shows "sifted K (heap_array h) (kh_fix_up K (kh_fix_down K h pos) pos)"
proof -
  let ?A = "heap_array h"
  define c where "c = kh_child K ?A (fst (?A ! pos)) pos"
  have ch: "(c = pos \<and> (\<forall>i \<in> children K pos. i < length ?A \<longrightarrow> fst (?A ! pos) \<le> fst (?A ! i))) \<or>
    (c \<in> children K pos \<and> c < length ?A \<and> pos < c \<and> fst (?A ! c) < fst (?A ! pos) \<and>
     (\<forall>i \<in> children K pos. i < length ?A \<longrightarrow> fst (?A ! c) \<le> fst (?A ! i)))"
    by (rule kh_child_spec [OF K c_def [symmetric], of _ "snd (?A ! pos)"]) simp
  show ?thesis
  proof (cases "c = pos")
    case True
    let ?h = "kh_place h pos (?A ! pos)"
    have d: "kh_fix_down K h pos = ?h"
      using True by (simp add: kh_fix_down_def c_def kh_down.simps [of K _ h pos] Let_def)
    have a: "heap_array ?h = ?A" by (simp add: kh_place_def)
    have "ordered_but K ?A {pos}"
      using o ch True by (auto simp: ordered_but_def children_def)
    moreover have "nodes_ok ?A (node_pos ?h) {pos}"
      using nodes_ok_place [of ?A pos "?A ! pos" "node_pos h"] nd pos
      by (simp add: kh_place_def nodes_ok_def)
    ultimately show ?thesis
      using kh_fix_up_spec [of pos ?h K] pos sk by (simp only: d a)
  next
    case False
    with ch have c: "c \<in> children K pos" "c < length ?A" "pos < c" "fst (?A ! c) < fst (?A ! pos)"
      "\<forall>i \<in> children K pos. i < length ?A \<longrightarrow> fst (?A ! c) \<le> fst (?A ! i)" by auto
    let ?h = "kh_place h pos (?A ! c)" and ?B = "swap_at pos c ?A"
    have B: "?B = (heap_array ?h)[c := ?A ! pos]"
      using c pos place_swap [of pos ?A c "?A ! pos"] by (simp add: kh_place_def)
    have sw: "ordered_but K ?B (children K c) \<and> skips K ?B c"
      by (rule swap_down) (use o sk c in \<open>auto simp: ordered_but_def\<close>)
    have n2: "nodes_ok ?B (node_pos ?h) {c}"
      using nodes_ok_swap [OF nd pos c(2)] c by (simp add: kh_place_def)
    obtain h' pos' where d: "kh_down K (?A ! pos) ?h c = (h', pos')" by force
    have "sifted K ?B (kh_place h' pos' (?A ! pos))"
      by (rule kh_down_spec [OF K B _ _ _ n2 d]) (use sw c in auto)
    moreover have "kh_fix_down K h pos = kh_place h' pos' (?A ! pos)"
      using False d by (simp add: kh_fix_down_def c_def kh_down.simps [of K _ h pos] Let_def)
    ultimately have s: "sifted K ?B (kh_fix_down K h pos)" by simp
    then have "length (heap_array (kh_fix_down K h pos)) = length ?A"
      unfolding sifted_def by (metis length_swap_at size_mset)
    with s pos kh_fix_up_id [of K "kh_fix_down K h pos" pos] mset_swap_at [OF pos c(2)]
    show ?thesis by (simp add: sifted_def)
  qed
qed

subsection \<open>The operations\<close>

definition kh_keys :: "('k::linorder, 'n) kheap \<Rightarrow> 'n \<Rightarrow> 'k option" where
  "kh_keys h = map_of (List.map (\<lambda>(k, n). (n, k)) (heap_array h))"

lemma kh_keys_iff:
  "distinct (List.map snd (heap_array h)) \<Longrightarrow> kh_keys h n = Some k \<longleftrightarrow> (k, n) \<in> set (heap_array h)"
proof -
  assume d: "distinct (List.map snd (heap_array h))"
  have "List.map fst (List.map (\<lambda>(k, n). (n, k)) (heap_array h)) = List.map snd (heap_array h)"
    by (simp add: comp_def case_prod_beta)
  with d have "kh_keys h n = Some k \<longleftrightarrow> (n, k) \<in> set (List.map (\<lambda>(k, n). (n, k)) (heap_array h))"
    unfolding kh_keys_def by (metis map_of_eq_Some_iff)
  then show ?thesis by auto
qed

lemma kh_keys_dom: "dom (kh_keys h) = snd ` set (heap_array h)"
  by (force simp: kh_keys_def dom_map_of_conv_image_fst)

lemma kh_keysI:
  assumes "distinct (List.map snd (heap_array h))"
    "\<And>k n. (k, n) \<in> set (heap_array h) \<longleftrightarrow> m n = Some k"
  shows "kh_keys h = m"
proof
  fix n
  show "kh_keys h n = m n"
    using kh_keys_iff [OF assms(1), of n] assms(2) by (metis not_Some_eq)
qed

lemma kh_inv_distinct: "kh_inv K h \<Longrightarrow> distinct (List.map snd (heap_array h))"
  by (simp add: kh_inv_def nodes_ok_def)

lemma kh_inv_pos: "kh_inv K h \<Longrightarrow> i < length (heap_array h) \<Longrightarrow>
    kh_position h (snd (heap_array h ! i)) = Some i"
  by (simp add: kh_inv_def nodes_ok_def kh_position_def)

lemma kh_position_Some:
  assumes "kh_inv K h" "kh_keys h n = Some k"
  obtains pos where "pos < length (heap_array h)" "heap_array h ! pos = (k, n)"
    "kh_position h n = Some pos"
proof -
  have "(k, n) \<in> set (heap_array h)"
    using assms kh_keys_iff [OF kh_inv_distinct [OF assms(1)]] by blast
  then obtain i where "i < length (heap_array h)" "heap_array h ! i = (k, n)"
    by (auto simp: in_set_conv_nth)
  with kh_inv_pos [OF assms(1), of i] that show ?thesis by simp
qed

lemma in_heap_iff: "kh_inv K h \<Longrightarrow> in_heap h n \<longleftrightarrow> kh_keys h n \<noteq> None"
proof -
  assume i: "kh_inv K h"
  have "node_pos h n \<noteq> -1" if "n \<in> snd ` set (heap_array h)"
  proof -
    obtain j where "j < length (heap_array h)" "snd (heap_array h ! j) = n"
      using \<open>n \<in> snd ` set (heap_array h)\<close> by (auto simp: in_set_conv_nth)
    then have "node_pos h n = int j" using i by (auto simp: kh_inv_def nodes_ok_def)
    then show ?thesis by simp
  qed
  with i have "in_heap h n \<longleftrightarrow> n \<in> dom (kh_keys h)"
    unfolding kh_keys_dom by (auto simp: in_heap_def kh_inv_def nodes_ok_def)
  then show ?thesis by auto
qed

text \<open>The root is a smallest item.\<close>

lemma kh_root_least:
  "ordered_but K A {} \<Longrightarrow> i < length A \<Longrightarrow> fst (A ! 0) \<le> fst (A ! i)"
proof (induction i rule: less_induct)
  case (less i)
  show ?case
  proof (cases "i = 0")
    case False
    then have "fst (A ! 0) \<le> fst (A ! parent K i)"
      using less parent_less [of i K] by auto
    also have "\<dots> \<le> fst (A ! i)" using less.prems False by (simp add: ordered_but_def)
    finally show ?thesis .
  qed simp
qed

lemma sifted_keys:
  assumes "sifted K A h"
  shows "kh_inv K h" "(k, n) \<in> set (heap_array h) \<longleftrightarrow> (k, n) \<in> set A"
  using assms unfolding sifted_def by (auto dest: mset_eq_setD)

lemma mset_erase_at:
  assumes "pos < length L"
  shows "mset (butlast (L[pos := last L])) = mset L - {#L ! pos#}"
proof (cases "pos = length L - 1")
  case True
  then have "L[pos := last L] = L" using assms by (metis last_conv_nth list_update_id list.size(3) not_less_zero)
  moreover have "mset L = add_mset (last L) (mset (butlast L))"
    using assms by (metis append_butlast_last_id list.size(3) mset.simps(2) mset_append
        not_less_zero union_mset_add_mset_right add.right_neutral mset.simps(1))
  ultimately show ?thesis using True assms last_conv_nth [of L] by (cases L) auto
next
  case False
  obtain B x where L: "L = B @ [x]" using assms by (metis list.size(3) not_less_zero rev_exhaust)
  with False assms show ?thesis
    by (auto simp: mset_update list_update_append nth_append)
qed

lemma kh_erase_at_spec:
  assumes K: "0 < K" and inv: "kh_inv K h" and pos: "pos < length (heap_array h)"
    and n: "snd (heap_array h ! pos) = n"
  shows "kh_inv K (kh_erase_at K (kh_remove h n) pos)"
    "kh_keys (kh_erase_at K (kh_remove h n) pos) = (kh_keys h)(n := None)"
proof -
  define L where "L = heap_array h"
  define A where "A = butlast (L[pos := last L])"
  let ?h1 = "(kh_remove h n)\<lparr>heap_array := A\<rparr>"
  have dL: "distinct (List.map snd L)" using kh_inv_distinct [OF inv] by (simp add: L_def)
  then have dL2: "distinct L" by (simp add: distinct_map)
  have m: "mset A = mset L - {#L ! pos#}" unfolding A_def L_def by (rule mset_erase_at [OF pos])
  then have sA: "set A = set L - {L ! pos}"
    using dL2 by (metis mset_eq_setD mset_remove1 set_remove1_eq)
  have dA: "distinct (List.map snd A)"
  proof -
    have "mset A = mset (remove1 (L ! pos) L)" using m by simp
    then have "mset (List.map snd A) = mset (List.map snd (remove1 (L ! pos) L))" by simp
    moreover have "distinct (List.map snd (remove1 (L ! pos) L))"
      using dL dL2 by (simp add: distinct_map inj_on_diff)
    ultimately show ?thesis by (metis mset_eq_imp_distinct_iff)
  qed
  have len: "length A = length L - 1" by (simp add: A_def)
  have nth: "A ! i = L ! i" if "i < length A" "i \<noteq> pos" for i
    using that by (simp add: A_def nth_butlast)
  have nL: "L ! pos \<in> set L" "n = snd (L ! pos)" using pos n by (auto simp: L_def)
  have gone: "x \<in> snd ` set A \<longleftrightarrow> x \<in> snd ` set L \<and> x \<noteq> n" for x
    using dL nL unfolding sA by (auto simp: distinct_map inj_on_def)
  have o: "ordered_but K L {}" and f: "\<forall>i < length L. node_pos h (snd (L ! i)) = int i"
    and f2: "\<forall>x. x \<notin> snd ` set L \<longrightarrow> node_pos h x = -1"
    using inv by (auto simp: kh_inv_def nodes_ok_def L_def)
  have nd: "nodes_ok A (node_pos ?h1) (if pos < length A then {pos} else {})"
  proof -
    have "snd (A ! i) \<noteq> n \<and> node_pos h (snd (A ! i)) = int i"
      if i: "i < length A" "i \<noteq> pos" for i
    proof -
      have "snd (A ! i) \<in> snd ` set A" using i by simp
      then show ?thesis using gone f nth [OF i] i len by auto
    qed
    then show ?thesis
      using dA f2 gone by (auto simp: nodes_ok_def kh_remove_def)
  qed
  have "\<exists>h'. kh_erase_at K (kh_remove h n) pos = h' \<and> sifted K A h'"
  proof (cases "pos < length A")
    case False
    have pl: "parent K i < length A" "parent K i \<noteq> pos" if "0 < i" "i < length A" for i
      using parent_less [OF that(1), of K] that False by auto
    have "ordered_but K A {}"
      unfolding ordered_but_def
      using o len nth pl False by (auto simp: ordered_but_def)
    then show ?thesis
      using False nd len by (simp add: kh_erase_at_def kh_remove_def L_def [symmetric] A_def [symmetric]
          sifted_def kh_inv_def Let_def)
  next
    case True
    have "ordered_but K A (insert pos (children K pos))"
      unfolding ordered_but_def
    proof (intro allI impI, elim conjE)
      fix i assume i: "0 < i" "i < length A" "i \<notin> insert pos (children K pos)"
      then have "parent K i \<noteq> pos" "parent K i < length A"
        using parent_less [OF i(1), of K] by (auto simp: children_def)
      then show "fst (A ! parent K i) \<le> fst (A ! i)"
        using o i nth len by (simp add: ordered_but_def)
    qed
    moreover have "skips K A pos"
      unfolding skips_def
    proof (intro allI impI, elim conjE)
      fix i assume i: "0 < pos" "0 < i" "i < length A" "parent K i = pos"
      have "i \<noteq> pos" "parent K pos < pos" using parent_less [OF i(2), of K] parent_less [OF i(1), of K] i by auto
      then show "fst (A ! parent K pos) \<le> fst (A ! i)"
        using skips_ordered [OF o, of pos] i nth len True by (auto simp: skips_def)
    qed
    ultimately have "sifted K A (kh_fix_up K (kh_fix_down K ?h1 pos) pos)"
      using kh_fix_down_up_spec [OF K, of pos ?h1] True nd by simp
    then show ?thesis
      using True len by (simp add: kh_erase_at_def kh_remove_def L_def [symmetric] A_def [symmetric] Let_def)
  qed
  then obtain h' where h': "kh_erase_at K (kh_remove h n) pos = h'" "sifted K A h'" by blast
  show "kh_inv K (kh_erase_at K (kh_remove h n) pos)" using h' by (simp add: sifted_def)
  have "kh_keys h' = (kh_keys h)(n := None)"
  proof (rule kh_keysI)
    show "distinct (List.map snd (heap_array h'))"
      by (rule kh_inv_distinct [OF sifted_keys(1) [OF h'(2)]])
    fix k x
    show "(k, x) \<in> set (heap_array h') \<longleftrightarrow> ((kh_keys h)(n := None)) x = Some k"
    proof -
      have "(k, x) \<in> set A \<longleftrightarrow> (k, x) \<in> set L \<and> x \<noteq> n"
      proof
        assume a: "(k, x) \<in> set A"
        then have "x \<in> snd ` set A" by force
        with a show "(k, x) \<in> set L \<and> x \<noteq> n" using gone sA by blast
      next
        assume kx: "(k, x) \<in> set L \<and> x \<noteq> n"
        then have "(k, x) \<noteq> L ! pos" using nL(2) by (metis snd_conv)
        with kx show "(k, x) \<in> set A" using sA by blast
      qed
      then show ?thesis
        using sifted_keys(2) [OF h'(2), of k x] kh_keys_iff [OF dL [unfolded L_def], of x k] by (auto simp: L_def)
    qed
  qed
  then show "kh_keys (kh_erase_at K (kh_remove h n) pos) = (kh_keys h)(n := None)"
    by (simp add: h'(1))
qed

lemma kh_insert_spec:
  assumes K: "0 < K" and inv: "kh_inv K h" and new: "kh_keys h n = None"
  shows "\<exists>h'. kh_insert K k n h = Some h' \<and> kh_inv K h' \<and> kh_keys h' = (kh_keys h)(n \<mapsto> k)"
proof -
  let ?L = "heap_array h" and ?A = "heap_array h @ [(k, n)]"
  let ?h1 = "h\<lparr>heap_array := ?A\<rparr>"
  have d: "distinct (List.map snd ?L)" by (rule kh_inv_distinct [OF inv])
  have nin: "n \<notin> snd ` set ?L" using new kh_keys_dom [of h] by auto
  have "ordered_but K ?A {length ?L}"
    unfolding ordered_but_def
  proof (intro allI impI, elim conjE)
    fix i assume i: "0 < i" "i < length ?A" "i \<notin> {length ?L}"
    then have "i < length ?L" "parent K i < length ?L" using parent_less [of i K] by auto
    then show "fst (?A ! parent K i) \<le> fst (?A ! i)"
      using inv i by (simp add: kh_inv_def ordered_but_def nth_append)
  qed
  moreover have "skips K ?A (length ?L)"
    unfolding skips_def by (metis length_append_singleton less_Suc_eq less_asym parent_less)
  moreover have "nodes_ok ?A (node_pos h) {length ?L}"
    using inv d nin by (auto simp: kh_inv_def nodes_ok_def nth_append)
  ultimately have s: "sifted K ?A (kh_fix_up K ?h1 (length ?L))"
    using kh_fix_up_spec [of "length ?L" ?h1 K] by simp
  have "kh_keys (kh_fix_up K ?h1 (length ?L)) = (kh_keys h)(n \<mapsto> k)"
  proof (rule kh_keysI)
    show "distinct (List.map snd (heap_array (kh_fix_up K ?h1 (length ?L))))"
      by (rule kh_inv_distinct [OF sifted_keys(1) [OF s]])
    show "(l, m) \<in> set (heap_array (kh_fix_up K ?h1 (length ?L))) \<longleftrightarrow> ((kh_keys h)(n \<mapsto> k)) m = Some l"
      for l m using sifted_keys(2) [OF s, of l m] kh_keys_iff [OF d] nin by (auto simp: rev_image_eqI)
  qed
  moreover have "\<not> in_heap h n" using in_heap_iff [OF inv] new by simp
  ultimately show ?thesis
    using sifted_keys(1) [OF s] by (simp add: kh_insert_def Let_def)
qed

lemma kh_fix_spec:
  assumes K: "0 < K" and inv: "kh_inv K h" and old: "kh_keys h n = Some l"
  shows "\<exists>h'. kh_fix K k n h = Some h' \<and> kh_inv K h' \<and> kh_keys h' = (kh_keys h)(n \<mapsto> k)"
proof -
  let ?L = "heap_array h"
  obtain pos where pos: "pos < length ?L" "?L ! pos = (l, n)" "kh_position h n = Some pos"
    by (rule kh_position_Some [OF inv old])
  define A where "A = ?L[pos := (k, n)]"
  let ?h1 = "h\<lparr>heap_array := A\<rparr>"
  have d: "distinct (List.map snd ?L)" by (rule kh_inv_distinct [OF inv])
  have nth: "A ! i = (if i = pos then (k, n) else ?L ! i)" if "i < length ?L" for i
    using pos that by (simp add: A_def)
  have len: "length A = length ?L" by (simp add: A_def)
  have m: "List.map snd A = List.map snd ?L"
    using pos(1,2) by (auto simp: A_def map_update intro: list_update_same_conv [THEN iffD2])
  have sA: "snd ` set A = snd ` set ?L" using m by (metis list.set_map)
  have o: "fst (?L ! parent K i) \<le> fst (?L ! i)" if "0 < i" "i < length ?L" for i
    using inv that by (simp add: kh_inv_def ordered_but_def)
  have nd: "nodes_ok A (node_pos h) {pos}"
    using inv nth by (auto simp: kh_inv_def nodes_ok_def m sA len)
  have sk: "skips K A pos"
    unfolding skips_def
  proof (intro allI impI, elim conjE)
    fix i assume i: "0 < pos" "0 < i" "i < length A" "parent K i = pos"
    have "i \<noteq> pos" "parent K pos < pos" using parent_less [OF i(2), of K] parent_less [OF i(1), of K] i by auto
    then show "fst (A ! parent K pos) \<le> fst (A ! i)"
      using skips_ordered [of K ?L pos] inv i nth len pos by (auto simp: skips_def kh_inv_def)
  qed
  let ?h' = "if k < l then kh_fix_up K ?h1 pos else kh_fix_down K ?h1 pos"
  have s: "sifted K A ?h'"
  proof (cases "k < l")
    case True
    have "ordered_but K A {pos}"
      unfolding ordered_but_def
    proof (intro allI impI, elim conjE)
      fix i assume i: "0 < i" "i < length A" "i \<notin> {pos}"
      then show "fst (A ! parent K i) \<le> fst (A ! i)"
        using o [of i] nth [of i] nth [of "parent K i"] parent_less [OF i(1), of K] True pos(1,2) len by auto
    qed
    then show ?thesis using True kh_fix_up_spec [of pos ?h1 K] pos(1) sk nd len by simp
  next
    case False
    have "ordered_but K A (children K pos)"
      unfolding ordered_but_def
    proof (intro allI impI, elim conjE)
      fix i assume i: "0 < i" "i < length A" "i \<notin> children K pos"
      then show "fst (A ! parent K i) \<le> fst (A ! i)"
        using o [of i] nth [of i] nth [of "parent K i"] parent_less [OF i(1), of K] False pos(1,2) len
        by (auto simp: children_def)
    qed
    then show ?thesis using False kh_fix_down_spec [OF K, of pos ?h1] pos(1) sk nd len by simp
  qed
  have "kh_keys ?h' = (kh_keys h)(n \<mapsto> k)"
  proof (rule kh_keysI)
    show "distinct (List.map snd (heap_array ?h'))"
      by (rule kh_inv_distinct [OF sifted_keys(1) [OF s]])
    fix x y
    have "(x, y) \<in> set A \<longleftrightarrow> (if y = n then x = k else (x, y) \<in> set ?L)"
    proof -
      have "set A = insert (k, n) (set ?L - {(l, n)})"
        using pos d by (simp add: A_def set_update_distinct distinct_map)
      moreover have "x = l" if "(x, n) \<in> set ?L"
        using that old kh_keys_iff [OF d, of n x] by simp
      ultimately show ?thesis by auto
    qed
    then show "(x, y) \<in> set (heap_array ?h') \<longleftrightarrow> ((kh_keys h)(n \<mapsto> k)) y = Some x"
      using sifted_keys(2) [OF s, of x y] kh_keys_iff [OF d, of y x] by auto
  qed
  moreover have "kh_fix K k n h = Some ?h'" using pos by (simp add: kh_fix_def Let_def A_def)
  ultimately show ?thesis using sifted_keys(1) [OF s] by blast
qed

lemma kh_top_spec:
  assumes "kh_inv K h"
  shows "kh_top h = None \<longleftrightarrow> dom (kh_keys h) = {}"
    "kh_top h = Some (k, n) \<Longrightarrow> kh_keys h n = Some k \<and> (\<forall>m l. kh_keys h m = Some l \<longrightarrow> k \<le> l)"
    "kh_top h = Some (k, n) \<Longrightarrow> heap_array h \<noteq> [] \<and> heap_array h ! 0 = (k, n)"
proof -
  show "kh_top h = None \<longleftrightarrow> dom (kh_keys h) = {}"
    by (simp add: kh_top_def kh_keys_dom split: list.splits)
  show t: "kh_top h = Some (k, n) \<Longrightarrow> heap_array h \<noteq> [] \<and> heap_array h ! 0 = (k, n)"
    by (auto simp: kh_top_def split: list.splits)
  assume "kh_top h = Some (k, n)"
  then have h: "heap_array h \<noteq> []" "heap_array h ! 0 = (k, n)" using t by auto
  note iff = kh_keys_iff [OF kh_inv_distinct [OF assms]]
  have "k \<le> l" if "kh_keys h m = Some l" for m l
    using that kh_root_least [of K "heap_array h"] assms h
    by (auto simp: iff in_set_conv_nth kh_inv_def) (metis fst_conv)
  moreover have "kh_keys h n = Some k" using h by (metis iff length_greater_0_conv nth_mem)
  ultimately show "kh_keys h n = Some k \<and> (\<forall>m l. kh_keys h m = Some l \<longrightarrow> k \<le> l)" by blast
qed

lemma kh_inv_new: "kh_inv K kh_new"
  by (simp add: kh_inv_def kh_new_def ordered_but_def nodes_ok_def)

lemma kh_keys_new: "kh_keys kh_new = Map.empty"
  by (simp add: kh_keys_def kh_new_def)

lemma kh_keyed_queue:
  assumes K: "0 < K"
  shows "keyed_queue (kh_inv K) kh_keys kh_top (kh_insert K) (kh_fix K) (kh_erase K) (kh_pop K)"
proof
  fix h :: "('k::linorder, 'n) kheap" and k n
  assume h: "kh_inv K h"
  show "finite (dom (kh_keys h))" by (simp add: kh_keys_dom)
  show "kh_top h = None \<longleftrightarrow> dom (kh_keys h) = {}" by (rule kh_top_spec(1) [OF h])
  show "kh_top h = Some (k, n) \<Longrightarrow> kh_keys h n = Some k \<and> (\<forall>m l. kh_keys h m = Some l \<longrightarrow> k \<le> l)"
    by (rule kh_top_spec(2) [OF h])
  show "kh_keys h n = None \<Longrightarrow>
      \<exists>h'. kh_insert K k n h = Some h' \<and> kh_inv K h' \<and> kh_keys h' = (kh_keys h)(n \<mapsto> k)"
    by (rule kh_insert_spec [OF K h])
  show "kh_keys h n \<noteq> None \<Longrightarrow>
      \<exists>h'. kh_fix K k n h = Some h' \<and> kh_inv K h' \<and> kh_keys h' = (kh_keys h)(n \<mapsto> k)"
    using kh_fix_spec [OF K h] by auto
  show "kh_keys h n \<noteq> None \<Longrightarrow>
      \<exists>h'. kh_erase K n h = Some h' \<and> kh_inv K h' \<and> kh_keys h' = (kh_keys h)(n := None)"
    using kh_erase_at_spec [OF K h]
    by (auto simp: kh_erase_def elim!: kh_position_Some [OF h])
  show "kh_top h = Some (k, n) \<Longrightarrow>
      \<exists>h'. kh_pop K h = Some (n, h') \<and> kh_inv K h' \<and> kh_keys h' = (kh_keys h)(n := None)"
    using kh_top_spec(3) [OF h] kh_erase_at_spec [OF K h, of 0 n]
    by (auto simp: kh_pop_def kh_empty_def)
qed

text \<open>The instances of the sources are 4-ary.\<close>

interpretation kh: keyed_queue "kh_inv 4" kh_keys kh_top "kh_insert 4" "kh_fix 4" "kh_erase 4" "kh_pop 4"
  by (rule kh_keyed_queue) simp

subsection \<open>Runs of operations\<close>

datatype ('k, 'n) kh_op = KhInsert 'k 'n | KhFix 'k 'n | KhErase 'n | KhPop

fun kh_step :: "nat \<Rightarrow> ('k::linorder, 'n) kheap \<Rightarrow> ('k, 'n) kh_op \<Rightarrow> ('n list \<times> ('k, 'n) kheap) option" where
  "kh_step K h (KhInsert k n) = map_option (Pair []) (kh_insert K k n h)"
| "kh_step K h (KhFix k n) = map_option (Pair []) (kh_fix K k n h)"
| "kh_step K h (KhErase n) = map_option (Pair []) (kh_erase K n h)"
| "kh_step K h KhPop = map_option (\<lambda>(n, h'). ([n], h')) (kh_pop K h)"

fun kh_run :: "nat \<Rightarrow> ('k::linorder, 'n) kheap \<Rightarrow> ('k, 'n) kh_op list \<Rightarrow> ('n list \<times> ('k, 'n) kheap) option" where
  "kh_run K h [] = Some ([], h)"
| "kh_run K h (p # ps) =
     (case kh_step K h p of
        None \<Rightarrow> None
      | Some (out, h1) \<Rightarrow> map_option (\<lambda>(out', h'). (out @ out', h')) (kh_run K h1 ps))"

text \<open>What the calls and their results must be, on a map from nodes to keys.\<close>

fun pq_trace :: "('n \<rightharpoonup> 'k::linorder) \<Rightarrow> ('k, 'n) kh_op list \<Rightarrow> 'n list \<Rightarrow> ('n \<rightharpoonup> 'k) \<Rightarrow> bool" where
  "pq_trace m [] out m' \<longleftrightarrow> out = [] \<and> m' = m"
| "pq_trace m (KhInsert k n # ps) out m' \<longleftrightarrow> m n = None \<and> pq_trace (m(n \<mapsto> k)) ps out m'"
| "pq_trace m (KhFix k n # ps) out m' \<longleftrightarrow> m n \<noteq> None \<and> pq_trace (m(n \<mapsto> k)) ps out m'"
| "pq_trace m (KhErase n # ps) out m' \<longleftrightarrow> m n \<noteq> None \<and> pq_trace (m(n := None)) ps out m'"
| "pq_trace m (KhPop # ps) out m' \<longleftrightarrow>
     (\<exists>n k out'. out = n # out' \<and> m n = Some k \<and> (\<forall>j l. m j = Some l \<longrightarrow> k \<le> l) \<and>
        pq_trace (m(n := None)) ps out' m')"

lemma kh_step_spec:
  assumes inv: "kh_inv 4 h" and st: "kh_step 4 h p = Some (out, h')"
  shows "kh_inv 4 h' \<and> pq_trace (kh_keys h) [p] out (kh_keys h')"
proof (cases p)
  case (KhInsert k n)
  then have "kh_keys h n = None"
    using st in_heap_iff [OF inv] by (auto simp: kh_insert_def split: if_splits)
  from kh.insert_key [OF inv this, of k] this show ?thesis using st KhInsert by auto
next
  case (KhFix k n)
  then obtain pos where "kh_position h n = Some pos" using st by (auto simp: kh_fix_def split: option.splits)
  then have "in_heap h n" by (auto simp: kh_position_def in_heap_def split: if_splits)
  then have "kh_keys h n \<noteq> None" using in_heap_iff [OF inv] by blast
  from kh.fix_key [OF inv this, of k] this show ?thesis using st KhFix by auto
next
  case (KhErase n)
  then obtain pos where "kh_position h n = Some pos" using st by (auto simp: kh_erase_def split: option.splits)
  then have "in_heap h n" by (auto simp: kh_position_def in_heap_def split: if_splits)
  then have "kh_keys h n \<noteq> None" using in_heap_iff [OF inv] by blast
  from kh.erase_key [OF inv this] this show ?thesis using st KhErase by auto
next
  case KhPop
  then have "heap_array h \<noteq> []" using st by (auto simp: kh_pop_def kh_empty_def split: if_splits)
  then have "kh_top h \<noteq> None" by (simp add: kh_top_def split: list.splits)
  then obtain k n where t: "kh_top h = Some (k, n)" by auto
  from kh.pop_top [OF inv t] kh.top_Some [OF inv t] show ?thesis using st KhPop by auto
qed

lemma pq_trace_Cons:
  "pq_trace m [p] out m1 \<Longrightarrow> pq_trace m1 ps out' m' \<Longrightarrow> pq_trace m (p # ps) (out @ out') m'"
  by (cases p) auto

lemma kh_run_spec:
  "kh_inv 4 h \<Longrightarrow> kh_run 4 h ps = Some (out, h') \<Longrightarrow>
   kh_inv 4 h' \<and> pq_trace (kh_keys h) ps out (kh_keys h')"
proof (induction ps arbitrary: h out)
  case (Cons p ps)
  from Cons.prems(2) obtain o1 h1 o2 where s: "kh_step 4 h p = Some (o1, h1)"
    "kh_run 4 h1 ps = Some (o2, h')" "out = o1 @ o2"
    by (auto split: option.splits)
  note st = kh_step_spec [OF Cons.prems(1) s(1)]
  with Cons.IH [OF _ s(2)] have r: "kh_inv 4 h'" "pq_trace (kh_keys h1) ps o2 (kh_keys h')" by auto
  show ?case
    unfolding s(3) using r st by (auto intro: pq_trace_Cons)
qed simp

lemma kh_inv_check: "0 < K \<Longrightarrow> kh_inv K h \<Longrightarrow> kh_check K h"
  unfolding kh_check_def
proof (intro ballI impI)
  fix i j assume a: "0 < K" "kh_inv K h" "j \<in> {i * K + 1..<i * K + 1 + K}" "j < length (heap_array h)"
  then have "parent K j = i" "0 < j" using parent_iff [of K j i] by auto
  with a show "fst (heap_array h ! i) \<le> fst (heap_array h ! j)"
    by (auto simp: kh_inv_def ordered_but_def)
qed

text \<open>C13: any sequence of insertions, key changes, erasures and pops that passes the checks of
  the heap behaves as on a map from nodes to keys: a pop returns a node with a smallest key, the
  keys at the end are those of the map, and the heap order that \<^verbatim>\<open>check\<close> tests
  holds.\<close>

theorem kh_run_is_priority_queue:
  fixes ps :: "('k::linorder, 'n) kh_op list"
  assumes "kh_run 4 kh_new ps = Some (out, h)"
  shows "pq_trace Map.empty ps out (kh_keys h) \<and> kh_check 4 h"
  using kh_run_spec [OF kh_inv_new assms] kh_inv_check [of 4 h] by (simp add: kh_keys_new)

definition kh_demo :: "(nat, char) kh_op list" where
  "kh_demo = [KhInsert 5 CHR ''a'', KhInsert 3 CHR ''b'', KhInsert 4 CHR ''c'', KhInsert 9 CHR ''d'',
     KhInsert 1 CHR ''e'', KhFix 7 CHR ''b'', KhErase CHR ''c'', KhPop, KhPop]"

theorem kh_run_is_priority_queue_witness:
  "\<exists>m. pq_trace Map.empty kh_demo ''ea'' m"
proof -
  have "map_option fst (kh_run 4 kh_new kh_demo) = Some ''ea''" by code_simp
  then obtain h where "kh_run 4 kh_new kh_demo = Some (''ea'', h)" by auto
  from kh_run_is_priority_queue [OF this] show ?thesis by blast
qed

end
