(* ===== verification/MultiTimeout.thy ===== *)
theory MultiTimeout
  imports KHeap
begin

text \<open>
  \<^verbatim>\<open>MultiTimeout\<close> of \<^verbatim>\<open>pxcactor/pxc/actor/MultiTimeout.h\<close>
  and \<^verbatim>\<open>MultiTimeout.cpp\<close>: many keyed deadlines served by the single timer of one
  actor. The deadlines are kept in a \<open>kheap\<close> whose nodes are the items, identified by their
  keys; \<open>mt_items\<close> is the \<^verbatim>\<open>std::set\<close> of items. Of the actor the model
  keeps the timer (\<^verbatim>\<open>Actor::set_timeout_at\<close>, \<^verbatim>\<open>cancel_timeout\<close>,
  \<^verbatim>\<open>has_timeout\<close>) and whether a \<^verbatim>\<open>Timeout\<close> event waits in its
  mailbox. Time is any linear order. A failed \<^verbatim>\<open>CHECK\<close> is \<open>None\<close>; the
  callback is the list of keys it is called with.
\<close>

record 't mtimeout =
  timeout_queue :: "('t, int) kheap"
  mt_items :: "int set"
  actor_timeout :: "'t option"
  timeout_pending :: bool

definition mt_new :: "'t mtimeout" where
  "mt_new = \<lparr>timeout_queue = kh_new, mt_items = {}, actor_timeout = None, timeout_pending = False\<rparr>"

definition mt_has_timeout :: "'t mtimeout \<Rightarrow> int \<Rightarrow> bool" where
  "mt_has_timeout s key \<longleftrightarrow> key \<in> mt_items s"

definition mt_update_timeout :: "'t mtimeout \<Rightarrow> 't mtimeout option" where
  "mt_update_timeout s =
     (if mt_items s = {}
      then (if \<not> kh_empty (timeout_queue s) then None
            else if actor_timeout s = None
            then (if timeout_pending s then Some s else None)
            else Some (s\<lparr>actor_timeout := None\<rparr>))
      else map_option (\<lambda>(k, _). s\<lparr>actor_timeout := Some k\<rparr>) (kh_top (timeout_queue s)))"

definition mt_insert :: "('t::linorder) mtimeout \<Rightarrow> int \<Rightarrow> 't \<Rightarrow> 't mtimeout option" where
  "mt_insert s key t =
     (case kh_insert 4 t key (timeout_queue s) of
        None \<Rightarrow> None
      | Some q \<Rightarrow>
          let s1 = s\<lparr>timeout_queue := q\<rparr>
          in if is_top q key then mt_update_timeout s1 else Some s1)"

definition mt_set_timeout_at :: "('t::linorder) mtimeout \<Rightarrow> int \<Rightarrow> 't \<Rightarrow> 't mtimeout option" where
  "mt_set_timeout_at s key t =
     (let fresh = (key \<notin> mt_items s); s0 = s\<lparr>mt_items := insert key (mt_items s)\<rparr>
      in if in_heap (timeout_queue s0) key
         then (if fresh then None
               else let need_update = is_top (timeout_queue s0) key
                    in case kh_fix 4 t key (timeout_queue s0) of
                         None \<Rightarrow> None
                       | Some q \<Rightarrow>
                           let s1 = s0\<lparr>timeout_queue := q\<rparr>
                           in if need_update \<or> is_top q key then mt_update_timeout s1 else Some s1)
         else (if \<not> fresh then None else mt_insert s0 key t))"

definition mt_add_timeout_at :: "('t::linorder) mtimeout \<Rightarrow> int \<Rightarrow> 't \<Rightarrow> 't mtimeout option" where
  "mt_add_timeout_at s key t =
     (let fresh = (key \<notin> mt_items s); s0 = s\<lparr>mt_items := insert key (mt_items s)\<rparr>
      in if in_heap (timeout_queue s0) key
         then (if fresh then None else Some s0)
         else (if \<not> fresh then None else mt_insert s0 key t))"

definition mt_cancel_timeout :: "('t::linorder) mtimeout \<Rightarrow> int \<Rightarrow> 't mtimeout option" where
  "mt_cancel_timeout s key =
     (if key \<notin> mt_items s then Some s
      else if \<not> in_heap (timeout_queue s) key then None
      else let need_update = is_top (timeout_queue s) key
           in case kh_erase 4 key (timeout_queue s) of
                None \<Rightarrow> None
              | Some q \<Rightarrow>
                  let s1 = s\<lparr>timeout_queue := q, mt_items := mt_items s - {key}\<rparr>
                  in if need_update then mt_update_timeout s1 else Some s1)"

text \<open>The loop of \<^verbatim>\<open>get_expired_keys\<close> pops at most as many keys as there are,
  so the fuel below is enough.\<close>

fun mt_expired_loop :: "nat \<Rightarrow> ('t::linorder) \<Rightarrow> 't mtimeout \<Rightarrow> (int list \<times> 't mtimeout) option" where
  "mt_expired_loop 0 now s = None"
| "mt_expired_loop (Suc fuel) now s =
     (case kh_top (timeout_queue s) of
        None \<Rightarrow> Some ([], s)
      | Some (k, _) \<Rightarrow>
          if k < now
          then (case kh_pop 4 (timeout_queue s) of
                  None \<Rightarrow> None
                | Some (key, q) \<Rightarrow>
                    map_option (\<lambda>(keys, s'). (key # keys, s'))
                      (mt_expired_loop fuel now
                         (s\<lparr>timeout_queue := q, mt_items := mt_items s - {key}\<rparr>)))
          else Some ([], s))"

definition mt_get_expired_keys :: "('t::linorder) \<Rightarrow> 't mtimeout \<Rightarrow> (int list \<times> 't mtimeout) option" where
  "mt_get_expired_keys now s = mt_expired_loop (Suc (kh_size (timeout_queue s))) now s"

text \<open>\<^verbatim>\<open>timeout_expired\<close> handles the waiting event; \<^verbatim>\<open>run_all\<close> is
  called with a time far in the future.\<close>

definition mt_timeout_expired :: "('t::linorder) \<Rightarrow> 't mtimeout \<Rightarrow> (int list \<times> 't mtimeout) option" where
  "mt_timeout_expired now s =
     (case mt_get_expired_keys now (s\<lparr>timeout_pending := False\<rparr>) of
        None \<Rightarrow> None
      | Some (keys, s1) \<Rightarrow>
          if mt_items s1 \<noteq> {} then map_option (Pair keys) (mt_update_timeout s1)
          else Some (keys, s1))"

definition mt_run_all :: "('t::linorder) \<Rightarrow> 't mtimeout \<Rightarrow> (int list \<times> 't mtimeout) option" where
  "mt_run_all far s =
     (case mt_get_expired_keys far s of
        None \<Rightarrow> None
      | Some (keys, s1) \<Rightarrow>
          if keys \<noteq> [] then map_option (Pair keys) (mt_update_timeout s1)
          else Some (keys, s1))"

text \<open>What the scheduler does when the timer of the actor is due.\<close>

definition mt_timer_due :: "'t mtimeout \<Rightarrow> 't mtimeout" where
  "mt_timer_due s =
     (if actor_timeout s = None then s else s\<lparr>actor_timeout := None, timeout_pending := True\<rparr>)"

subsection \<open>The invariant\<close>

abbreviation mt_deadlines :: "('t::linorder) mtimeout \<Rightarrow> int \<Rightarrow> 't option" where
  "mt_deadlines s \<equiv> kh_keys (timeout_queue s)"

definition mt_queue_ok :: "('t::linorder) mtimeout \<Rightarrow> bool" where
  "mt_queue_ok s \<longleftrightarrow> kh_inv 4 (timeout_queue s) \<and> mt_items s = dom (mt_deadlines s)"

definition mt_timer_ok :: "('t::linorder) mtimeout \<Rightarrow> bool" where
  "mt_timer_ok s \<longleftrightarrow>
     (\<forall>k n. kh_top (timeout_queue s) = Some (k, n) \<longrightarrow>
        actor_timeout s = Some k \<or> (actor_timeout s = None \<and> timeout_pending s))"

definition mt_inv :: "('t::linorder) mtimeout \<Rightarrow> bool" where
  "mt_inv s \<longleftrightarrow> mt_queue_ok s \<and> mt_timer_ok s"

lemma is_top_iff: "kh_inv 4 q \<Longrightarrow> is_top q n \<longleftrightarrow> (\<exists>k. kh_top q = Some (k, n))"
proof
  assume i: "kh_inv 4 q" "is_top q n"
  then have "in_heap q n" by (simp add: is_top_def in_heap_def)
  then obtain k where "kh_keys q n = Some k" using in_heap_iff [OF i(1)] by blast
  then obtain p where "p < length (heap_array q)" "heap_array q ! p = (k, n)" "kh_position q n = Some p"
    by (rule kh_position_Some [OF i(1)])
  then show "\<exists>k. kh_top q = Some (k, n)"
    using i(2) by (cases "heap_array q") (auto simp: is_top_def kh_position_def kh_top_def split: if_splits)
next
  assume i: "kh_inv 4 q" "\<exists>k. kh_top q = Some (k, n)"
  then obtain k where "heap_array q \<noteq> []" "heap_array q ! 0 = (k, n)"
    using kh_top_spec(3) [OF i(1)] by blast
  then show "is_top q n"
    using i(1) by (auto simp: is_top_def kh_inv_def nodes_ok_def)
qed

lemma mt_update_spec:
  assumes "mt_queue_ok s" "mt_items s = {} \<longrightarrow> actor_timeout s \<noteq> None \<or> timeout_pending s"
  shows "\<exists>s'. mt_update_timeout s = Some s' \<and> mt_inv s' \<and> timeout_queue s' = timeout_queue s"
proof (cases "mt_items s = {}")
  case True
  then have t: "kh_top (timeout_queue s) = None"
    using assms(1) kh.top_None by (auto simp: mt_queue_ok_def)
  then have "kh_empty (timeout_queue s)" by (simp add: kh_top_def kh_empty_def split: list.splits)
  with True t assms show ?thesis
    by (auto simp: mt_update_timeout_def mt_inv_def mt_queue_ok_def mt_timer_ok_def)
next
  case False
  then obtain k n where t: "kh_top (timeout_queue s) = Some (k, n)"
    using assms(1) kh.top_None [of "timeout_queue s"] by (auto simp: mt_queue_ok_def)
  with False assms(1) show ?thesis
    by (auto simp: mt_update_timeout_def mt_inv_def mt_queue_ok_def mt_timer_ok_def)
qed

lemma mt_inv_queue: "mt_inv s \<Longrightarrow> kh_inv 4 (timeout_queue s) \<and> mt_items s = dom (mt_deadlines s)"
  by (simp add: mt_inv_def mt_queue_ok_def)

lemma mt_in_heap: "mt_inv s \<Longrightarrow> in_heap (timeout_queue s) key \<longleftrightarrow> key \<in> mt_items s"
  using mt_inv_queue [of s] in_heap_iff [of 4 "timeout_queue s" key] by auto

lemma mt_items_empty_timer:
  assumes "mt_inv s" "dom (mt_deadlines s) \<noteq> {}"
  shows "actor_timeout s \<noteq> None \<or> timeout_pending s"
proof -
  have "kh_top (timeout_queue s) \<noteq> None"
    using assms kh.top_None [of "timeout_queue s"] mt_inv_queue by blast
  then show ?thesis using assms(1) by (auto simp: mt_inv_def mt_timer_ok_def)
qed

text \<open>One node of the queue has changed; the timer is updated if the node was or is the top.\<close>

lemma mt_touch:
  assumes inv: "mt_inv s" and q: "kh_inv 4 q"
    and same: "\<And>j. j \<noteq> n \<Longrightarrow> kh_keys q j = mt_deadlines s j"
    and b: "is_top (timeout_queue s) n \<or> is_top q n \<Longrightarrow> b"
    and ne: "b \<Longrightarrow> dom (mt_deadlines s) \<noteq> {} \<or> dom (kh_keys q) \<noteq> {}"
    and s1: "s1 = s\<lparr>timeout_queue := q, mt_items := dom (kh_keys q)\<rparr>"
  shows "\<exists>s'. (if b then mt_update_timeout s1 else Some s1) = Some s' \<and> mt_inv s' \<and> timeout_queue s' = q"
proof (cases b)
  case True
  have "mt_items s1 = {} \<longrightarrow> actor_timeout s1 \<noteq> None \<or> timeout_pending s1"
    using mt_items_empty_timer [OF inv] ne [OF True] by (auto simp: s1)
  then show ?thesis
    using mt_update_spec [of s1] q True by (auto simp: mt_queue_ok_def s1)
next
  case False
  have i0: "kh_inv 4 (timeout_queue s)" and t0: "mt_timer_ok s"
    using inv by (auto simp: mt_inv_def mt_queue_ok_def)
  have "mt_timer_ok s1"
    unfolding mt_timer_ok_def
  proof (intro allI impI)
    fix k m assume t: "kh_top (timeout_queue s1) = Some (k, m)"
    then have t': "kh_top q = Some (k, m)" by (simp add: s1)
    have m: "m \<noteq> n" using b False is_top_iff [OF q] t' by blast
    then have "mt_deadlines s m = Some k" using same kh.top_Some [OF q t'] by metis
    then obtain k0 m0 where t0': "kh_top (timeout_queue s) = Some (k0, m0)"
      using kh.top_is_key [OF i0] by blast
    have m0: "m0 \<noteq> n" using b False is_top_iff [OF i0] t0' by blast
    have "k = k0" by (rule kh.top_unchanged [OF i0 q t0' t' m0 m same])
    with t0 t0' show "actor_timeout s1 = Some k \<or> actor_timeout s1 = None \<and> timeout_pending s1"
      by (auto simp: mt_timer_ok_def s1)
  qed
  with q False show ?thesis by (simp add: mt_inv_def mt_queue_ok_def s1)
qed

lemma mt_insert_spec:
  assumes inv: "mt_inv s" and new: "mt_deadlines s key = None"
  shows "\<exists>s'. mt_insert (s\<lparr>mt_items := insert key (mt_items s)\<rparr>) key t = Some s' \<and> mt_inv s' \<and>
    mt_deadlines s' = (mt_deadlines s)(key \<mapsto> t)"
proof -
  have i0: "kh_inv 4 (timeout_queue s)" "mt_items s = dom (mt_deadlines s)"
    using inv by (auto simp: mt_inv_def mt_queue_ok_def)
  obtain q where q: "kh_insert 4 t key (timeout_queue s) = Some q" "kh_inv 4 q"
    "kh_keys q = (mt_deadlines s)(key \<mapsto> t)" using kh.insert_key [OF i0(1) new] by blast
  have "\<not> is_top (timeout_queue s) key"
    using new kh.top_Some [OF i0(1)] is_top_iff [OF i0(1)] by (metis option.distinct(1))
  then have "\<exists>s'. (if is_top q key then mt_update_timeout (s\<lparr>timeout_queue := q, mt_items := dom (kh_keys q)\<rparr>)
      else Some (s\<lparr>timeout_queue := q, mt_items := dom (kh_keys q)\<rparr>)) = Some s' \<and> mt_inv s' \<and> timeout_queue s' = q"
    by (intro mt_touch [OF inv q(2) _ _ _ refl, of key]) (auto simp: q(3))
  moreover have "s\<lparr>timeout_queue := q, mt_items := dom (kh_keys q)\<rparr> =
      s\<lparr>mt_items := insert key (mt_items s), timeout_queue := q\<rparr>"
    by (simp add: q(3) i0(2))
  ultimately show ?thesis using q by (auto simp: mt_insert_def Let_def)
qed

lemma mt_set_spec:
  assumes inv: "mt_inv s"
  shows "\<exists>s'. mt_set_timeout_at s key t = Some s' \<and> mt_inv s' \<and> mt_deadlines s' = (mt_deadlines s)(key \<mapsto> t)"
proof (cases "mt_deadlines s key")
  case None
  then have "\<not> in_heap (timeout_queue s) key" "key \<notin> mt_items s"
    using mt_in_heap [OF inv] mt_inv_queue [OF inv] by auto
  with mt_insert_spec [OF inv None] show ?thesis by (simp add: mt_set_timeout_at_def)
next
  case (Some t0)
  have i0: "kh_inv 4 (timeout_queue s)" "mt_items s = dom (mt_deadlines s)"
    using inv by (auto simp: mt_inv_def mt_queue_ok_def)
  have h: "in_heap (timeout_queue s) key" "key \<in> mt_items s"
    using in_heap_iff [OF i0(1)] Some i0(2) by auto
  obtain q where q: "kh_fix 4 t key (timeout_queue s) = Some q" "kh_inv 4 q"
    "kh_keys q = (mt_deadlines s)(key \<mapsto> t)" using kh.fix_key [OF i0(1), of key t] Some by auto
  let ?s1 = "s\<lparr>timeout_queue := q, mt_items := dom (kh_keys q)\<rparr>"
  have "\<exists>s'. (if is_top (timeout_queue s) key \<or> is_top q key then mt_update_timeout ?s1 else Some ?s1) = Some s' \<and>
      mt_inv s' \<and> timeout_queue s' = q"
    by (intro mt_touch [OF inv q(2) _ _ _ refl, of key]) (auto simp: q(3))
  moreover have "?s1 = s\<lparr>mt_items := insert key (mt_items s), timeout_queue := q\<rparr>"
    by (simp add: q(3) i0(2))
  ultimately show ?thesis using q h by (auto simp: mt_set_timeout_at_def Let_def)
qed

lemma mt_add_spec:
  assumes inv: "mt_inv s"
  shows "\<exists>s'. mt_add_timeout_at s key t = Some s' \<and> mt_inv s' \<and>
    mt_deadlines s' = (if mt_deadlines s key = None then (mt_deadlines s)(key \<mapsto> t) else mt_deadlines s)"
proof (cases "mt_deadlines s key")
  case None
  then have "\<not> in_heap (timeout_queue s) key" "key \<notin> mt_items s"
    using mt_in_heap [OF inv] mt_inv_queue [OF inv] by auto
  with mt_insert_spec [OF inv None] None show ?thesis by (simp add: mt_add_timeout_at_def)
next
  case (Some t0)
  then have "in_heap (timeout_queue s) key" "key \<in> mt_items s"
    using mt_in_heap [OF inv] mt_inv_queue [OF inv] by auto
  then show ?thesis using Some inv by (simp add: mt_add_timeout_at_def insert_absorb)
qed

lemma mt_cancel_spec:
  assumes inv: "mt_inv s"
  shows "\<exists>s'. mt_cancel_timeout s key = Some s' \<and> mt_inv s' \<and> mt_deadlines s' = (mt_deadlines s)(key := None)"
proof (cases "mt_deadlines s key")
  case None
  then have "key \<notin> mt_items s" using inv by (auto simp: mt_inv_def mt_queue_ok_def)
  with None inv show ?thesis by (auto simp: mt_cancel_timeout_def fun_eq_iff)
next
  case (Some t0)
  have i0: "kh_inv 4 (timeout_queue s)" "mt_items s = dom (mt_deadlines s)"
    using inv by (auto simp: mt_inv_def mt_queue_ok_def)
  have h: "in_heap (timeout_queue s) key" "key \<in> mt_items s"
    using in_heap_iff [OF i0(1)] Some i0(2) by auto
  obtain q where q: "kh_erase 4 key (timeout_queue s) = Some q" "kh_inv 4 q"
    "kh_keys q = (mt_deadlines s)(key := None)" using kh.erase_key [OF i0(1), of key] Some by auto
  let ?s1 = "s\<lparr>timeout_queue := q, mt_items := dom (kh_keys q)\<rparr>"
  have nt: "\<not> is_top q key"
    using q(3) kh.top_Some [OF q(2)] is_top_iff [OF q(2)] by (metis fun_upd_same option.distinct(1))
  have "\<exists>s'. (if is_top (timeout_queue s) key then mt_update_timeout ?s1 else Some ?s1) = Some s' \<and>
      mt_inv s' \<and> timeout_queue s' = q"
    by (intro mt_touch [OF inv q(2) _ _ _ refl, of key]) (use nt Some in \<open>auto simp: q(3)\<close>)
  moreover have "?s1 = s\<lparr>timeout_queue := q, mt_items := mt_items s - {key}\<rparr>"
    by (simp add: q(3) i0(2))
  ultimately show ?thesis using q h by (auto simp: mt_cancel_timeout_def Let_def)
qed

subsection \<open>Expiry\<close>

lemma mt_expired_loop_pop_below:
  "kh.pop_below fuel now (timeout_queue s) = Some (ns, q) \<Longrightarrow>
   mt_expired_loop fuel now s = Some (ns, s\<lparr>timeout_queue := q, mt_items := mt_items s - set ns\<rparr>)"
proof (induction fuel arbitrary: s ns)
  case (Suc fuel)
  show ?case
  proof (cases "kh_top (timeout_queue s)")
    case (Some t)
    obtain k n where t: "kh_top (timeout_queue s) = Some (k, n)" using Some by (cases t) auto
    show ?thesis
    proof (cases "k < now")
      case True
      with t Suc.prems obtain m q1 ms where r: "kh_pop 4 (timeout_queue s) = Some (m, q1)"
        "kh.pop_below fuel now q1 = Some (ms, q)" "ns = m # ms" by (auto split: option.splits)
      from Suc.IH [of "s\<lparr>timeout_queue := q1, mt_items := mt_items s - {m}\<rparr>" ms] r t True show ?thesis
        by (simp add: Diff_insert2 [symmetric] insert_commute)
    qed (use t Suc.prems in simp)
  qed (use Suc.prems in simp)
qed simp

lemma kh_size_keys: "kh_inv K q \<Longrightarrow> card (dom (kh_keys q)) = kh_size q"
  using kh_inv_distinct [of K q] unfolding kh_keys_dom kh_size_def
  by (metis distinct_card length_map list.set_map)

definition mt_due :: "('t::linorder) \<Rightarrow> (int \<rightharpoonup> 't) \<Rightarrow> int set" where
  "mt_due now m = {key. \<exists>t. m key = Some t \<and> t < now}"

definition mt_drop_due :: "('t::linorder) \<Rightarrow> (int \<rightharpoonup> 't) \<Rightarrow> (int \<rightharpoonup> 't)" where
  "mt_drop_due now m = (\<lambda>key. if key \<in> mt_due now m then None else m key)"

lemma mt_get_expired_spec:
  assumes "mt_queue_ok s"
  shows "\<exists>keys s'. mt_get_expired_keys now s = Some (keys, s') \<and> mt_queue_ok s' \<and>
    distinct keys \<and> set keys = mt_due now (mt_deadlines s) \<and>
    sorted (map (\<lambda>key. the (mt_deadlines s key)) keys) \<and>
    mt_deadlines s' = mt_drop_due now (mt_deadlines s) \<and>
    actor_timeout s' = actor_timeout s \<and> timeout_pending s' = timeout_pending s \<and>
    (keys = [] \<longrightarrow> s' = s)"
proof -
  have i0: "kh_inv 4 (timeout_queue s)" "mt_items s = dom (mt_deadlines s)"
    using assms by (auto simp: mt_queue_ok_def)
  obtain ns q where r: "kh.pop_below (Suc (kh_size (timeout_queue s))) now (timeout_queue s) = Some (ns, q)"
    "kh_inv 4 q" "distinct ns" "set ns = mt_due now (mt_deadlines s)"
    "sorted (map (\<lambda>n. the (mt_deadlines s n)) ns)"
    "kh_keys q = (\<lambda>n. if n \<in> set ns then None else mt_deadlines s n)"
    using kh.pop_below [OF i0(1), of "Suc (kh_size (timeout_queue s))" now] kh_size_keys [OF i0(1)]
    unfolding mt_due_def by auto
  let ?s1 = "s\<lparr>timeout_queue := q, mt_items := mt_items s - set ns\<rparr>"
  have "mt_get_expired_keys now s = Some (ns, ?s1)"
    unfolding mt_get_expired_keys_def by (rule mt_expired_loop_pop_below [OF r(1)])
  moreover have "mt_queue_ok ?s1" using r i0 by (auto simp: mt_queue_ok_def split: if_splits)
  moreover have "ns = [] \<Longrightarrow> ?s1 = s"
  proof -
    assume "ns = []"
    then have "q = timeout_queue s" using r(1) by (auto split: option.splits if_splits)
    with \<open>ns = []\<close> show ?thesis by simp
  qed
  moreover have "kh_keys q = mt_drop_due now (mt_deadlines s)"
    using r(4,6) by (simp add: mt_drop_due_def)
  ultimately show ?thesis using r(3,4,5) by (intro exI [of _ ns] exI [of _ ?s1]) auto
qed

lemma mt_timeout_expired_spec:
  assumes "mt_inv s"
  shows "\<exists>keys s'. mt_timeout_expired now s = Some (keys, s') \<and> mt_inv s' \<and>
    distinct keys \<and> set keys = mt_due now (mt_deadlines s) \<and>
    sorted (map (\<lambda>key. the (mt_deadlines s key)) keys) \<and>
    mt_deadlines s' = mt_drop_due now (mt_deadlines s)"
proof -
  have "mt_queue_ok (s\<lparr>timeout_pending := False\<rparr>)"
    using assms by (simp add: mt_inv_def mt_queue_ok_def)
  from mt_get_expired_spec [OF this, of now] obtain keys s1
    where r: "mt_get_expired_keys now (s\<lparr>timeout_pending := False\<rparr>) = Some (keys, s1)"
      "mt_queue_ok s1" "distinct keys" "set keys = mt_due now (mt_deadlines s)"
      "sorted (map (\<lambda>key. the (mt_deadlines s key)) keys)"
      "mt_deadlines s1 = mt_drop_due now (mt_deadlines s)" by auto
  show ?thesis
  proof (cases "mt_items s1 = {}")
    case True
    then have "kh_top (timeout_queue s1) = None"
      using r(2) kh.top_None [of "timeout_queue s1"] by (auto simp: mt_queue_ok_def)
    with True r show ?thesis by (simp add: mt_timeout_expired_def mt_inv_def mt_timer_ok_def)
  next
    case False
    with mt_update_spec [OF r(2)] r show ?thesis by (auto simp: mt_timeout_expired_def)
  qed
qed

lemma mt_run_all_spec:
  assumes "mt_inv s"
  shows "\<exists>keys s'. mt_run_all far s = Some (keys, s') \<and> mt_inv s' \<and>
    distinct keys \<and> set keys = mt_due far (mt_deadlines s) \<and>
    sorted (map (\<lambda>key. the (mt_deadlines s key)) keys) \<and>
    mt_deadlines s' = mt_drop_due far (mt_deadlines s)"
proof -
  have "mt_queue_ok s" using assms by (simp add: mt_inv_def)
  from mt_get_expired_spec [OF this, of far] obtain keys s1
    where r: "mt_get_expired_keys far s = Some (keys, s1)"
      "mt_queue_ok s1" "distinct keys" "set keys = mt_due far (mt_deadlines s)"
      "sorted (map (\<lambda>key. the (mt_deadlines s key)) keys)"
      "mt_deadlines s1 = mt_drop_due far (mt_deadlines s)"
      "actor_timeout s1 = actor_timeout s" "timeout_pending s1 = timeout_pending s"
      "keys = [] \<longrightarrow> s1 = s" by blast
  show ?thesis
  proof (cases "keys = []")
    case True
    with r assms show ?thesis by (simp add: mt_run_all_def)
  next
    case False
    then have "dom (mt_deadlines s) \<noteq> {}" using r(4) by (cases keys) (auto simp: mt_due_def)
    then have "actor_timeout s1 \<noteq> None \<or> timeout_pending s1"
      using mt_items_empty_timer [OF assms] r by simp
    with False mt_update_spec [OF r(2)] r show ?thesis by (auto simp: mt_run_all_def)
  qed
qed

subsection \<open>Runs\<close>

datatype 't mt_event =
  MtSet int 't | MtAdd int 't | MtCancel int | MtTimerDue | MtExpired 't | MtRunAll 't

fun mt_step :: "('t::linorder) mtimeout \<Rightarrow> 't mt_event \<Rightarrow> (int list \<times> 't mtimeout) option" where
  "mt_step s (MtSet key t) = map_option (Pair []) (mt_set_timeout_at s key t)"
| "mt_step s (MtAdd key t) = map_option (Pair []) (mt_add_timeout_at s key t)"
| "mt_step s (MtCancel key) = map_option (Pair []) (mt_cancel_timeout s key)"
| "mt_step s MtTimerDue = Some ([], mt_timer_due s)"
| "mt_step s (MtExpired now) = mt_timeout_expired now s"
| "mt_step s (MtRunAll far) = mt_run_all far s"

fun mt_run :: "('t::linorder) mtimeout \<Rightarrow> 't mt_event list \<Rightarrow> (int list list \<times> 't mtimeout) option" where
  "mt_run s [] = Some ([], s)"
| "mt_run s (e # es) =
     (case mt_step s e of
        None \<Rightarrow> None
      | Some (keys, s1) \<Rightarrow> map_option (\<lambda>(out, s'). (keys # out, s')) (mt_run s1 es))"

text \<open>The abstract deadlines: a map from keys to times.\<close>

fun deadlines_step :: "(int \<rightharpoonup> 't::linorder) \<Rightarrow> 't mt_event \<Rightarrow> (int \<rightharpoonup> 't)" where
  "deadlines_step m (MtSet key t) = m(key \<mapsto> t)"
| "deadlines_step m (MtAdd key t) = (if m key = None then m(key \<mapsto> t) else m)"
| "deadlines_step m (MtCancel key) = m(key := None)"
| "deadlines_step m MtTimerDue = m"
| "deadlines_step m (MtExpired now) = mt_drop_due now m"
| "deadlines_step m (MtRunAll far) = mt_drop_due far m"

fun expired_by :: "(int \<rightharpoonup> 't::linorder) \<Rightarrow> 't mt_event \<Rightarrow> int set" where
  "expired_by m (MtExpired now) = mt_due now m"
| "expired_by m (MtRunAll far) = mt_due far m"
| "expired_by m _ = {}"

fun callbacks_ok :: "(int \<rightharpoonup> 't::linorder) \<Rightarrow> 't mt_event list \<Rightarrow> int list list \<Rightarrow> bool" where
  "callbacks_ok m [] out \<longleftrightarrow> out = []"
| "callbacks_ok m (e # es) out \<longleftrightarrow>
     (case out of [] \<Rightarrow> False
      | keys # out' \<Rightarrow> distinct keys \<and> set keys = expired_by m e \<and>
          sorted (map (\<lambda>key. the (m key)) keys) \<and> callbacks_ok (deadlines_step m e) es out')"

lemma mt_step_spec:
  assumes "mt_inv s"
  shows "\<exists>keys s'. mt_step s e = Some (keys, s') \<and> mt_inv s' \<and> distinct keys \<and>
    set keys = expired_by (mt_deadlines s) e \<and> sorted (map (\<lambda>key. the (mt_deadlines s key)) keys) \<and>
    mt_deadlines s' = deadlines_step (mt_deadlines s) e"
proof (cases e)
  case (MtSet key t)
  with mt_set_spec [OF assms, of key t] show ?thesis by auto
next
  case (MtAdd key t)
  with mt_add_spec [OF assms, of key t] show ?thesis by auto
next
  case (MtCancel key)
  with mt_cancel_spec [OF assms, of key] show ?thesis by auto
next
  case MtTimerDue
  with assms show ?thesis
    by (auto simp: mt_timer_due_def mt_inv_def mt_queue_ok_def mt_timer_ok_def)
next
  case (MtExpired now)
  with mt_timeout_expired_spec [OF assms, of now] show ?thesis by auto
next
  case (MtRunAll far)
  with mt_run_all_spec [OF assms, of far] show ?thesis by auto
qed

lemma mt_run_spec:
  "mt_inv s \<Longrightarrow> \<exists>out s'. mt_run s es = Some (out, s') \<and> mt_inv s' \<and>
     callbacks_ok (mt_deadlines s) es out \<and> mt_deadlines s' = foldl deadlines_step (mt_deadlines s) es"
proof (induction es arbitrary: s)
  case (Cons e es)
  obtain keys s1 where st: "mt_step s e = Some (keys, s1)" "mt_inv s1" "distinct keys"
    "set keys = expired_by (mt_deadlines s) e" "sorted (map (\<lambda>key. the (mt_deadlines s key)) keys)"
    "mt_deadlines s1 = deadlines_step (mt_deadlines s) e" using mt_step_spec [OF Cons.prems] by blast
  from Cons.IH [OF st(2)] st show ?case by auto
qed simp

lemma mt_inv_new: "mt_inv mt_new"
  by (simp add: mt_inv_def mt_queue_ok_def mt_timer_ok_def mt_new_def kh_inv_new kh_keys_new kh_top_def)
    (simp add: kh_new_def)

text \<open>C16: no sequence of set, add, cancel, timer expiry, event handling and
  \<^verbatim>\<open>run_all\<close> fails a check; each handling of the event calls the callback once
  for every key whose deadline has passed, in the order of the deadlines; the deadlines left are
  those of the map; and while a deadline is left the actor's timer is set to the earliest one or a
  timeout event waits.\<close>

theorem mt_run_serves_deadlines:
  "\<exists>out s. mt_run mt_new es = Some (out, s) \<and> callbacks_ok Map.empty es out \<and>
     mt_deadlines s = foldl deadlines_step Map.empty es \<and> mt_items s = dom (mt_deadlines s) \<and>
     mt_timer_ok s"
  using mt_run_spec [OF mt_inv_new, of es]
  by (auto simp: mt_inv_def mt_queue_ok_def mt_new_def kh_keys_new)

end
