(* ===== verification/StringBuilder.thy ===== *)
theory StringBuilder
  imports Prelude
begin

text \<open>
  \<^verbatim>\<open>StringBuilder\<close> of
  \<^verbatim>\<open>pxcutils/pxc/utils/StringBuilder.h\<close> and
  \<^verbatim>\<open>StringBuilder.cpp\<close>: text appended to a buffer that is either fixed or grows, and
  the printing of integers. Of the three pointers the model keeps the text between
  \<^verbatim>\<open>begin_ptr_\<close> and \<^verbatim>\<open>current_ptr_\<close>, and
  \<^verbatim>\<open>sb_room\<close>, the distance from \<^verbatim>\<open>begin_ptr_\<close> to
  \<^verbatim>\<open>end_ptr_\<close>; the memory extends \<open>reserved_size\<close> bytes further.
  Printing of floating-point numbers and of pointers, which the C++ library does, is not modelled.
\<close>

subsection \<open>Integers\<close>

function print_uint_rev :: "nat \<Rightarrow> string" where
  "print_uint_rev x =
     chr (48 + x mod 10) # (if x div 10 > 0 then print_uint_rev (x div 10) else [])"
  by pat_completeness auto
termination by (relation "measure id") auto

declare print_uint_rev.simps [simp del]

definition print_uint :: "nat \<Rightarrow> string" where
  "print_uint x =
     (if x < 100
      then (if x < 10 then [chr (48 + x)] else [chr (48 + x div 10), chr (48 + x mod 10)])
      else rev (print_uint_rev x))"

text \<open>The smallest value of the type, whose negation would overflow, is printed from its
  successor: the last digit is incremented in place.\<close>

definition print_int_small :: "int \<Rightarrow> string" where
  "print_int_small x = (if x < 0 then CHR ''-'' # print_uint (nat (- x)) else print_uint (nat x))"

definition print_int :: "nat \<Rightarrow> int \<Rightarrow> string" where
  "print_int w x =
     (if x = - (2 ^ (w - 1))
      then (let s = print_int_small (x + 1) in butlast s @ [chr (uc (last s) + 1)])
      else print_int_small x)"

text \<open>The decimal notation of a number.\<close>

fun decimal :: "nat \<Rightarrow> string" where
  "decimal n = (if n < 10 then [chr (48 + n)] else decimal (n div 10) @ [chr (48 + n mod 10)])"

declare decimal.simps [simp del]

definition decimal_int :: "int \<Rightarrow> string" where
  "decimal_int x = (if x < 0 then CHR ''-'' # decimal (nat (- x)) else decimal (nat x))"

lemma rev_print_uint_rev: "rev (print_uint_rev x) = decimal x"
proof (induction x rule: decimal.induct)
  case (1 n)
  show ?case
  proof (cases "n < 10")
    case True
    then show ?thesis by (simp add: print_uint_rev.simps [of n] decimal.simps [of n])
  next
    case False
    then have "0 < n div 10" by (simp add: div_greater_zero_iff)
    with 1 False show ?thesis by (subst print_uint_rev.simps, subst decimal.simps) simp
  qed
qed

lemma print_uint_decimal: "print_uint x = decimal x"
proof (cases "x < 100")
  case True
  then show ?thesis
    by (auto simp: print_uint_def decimal.simps [of x] decimal.simps [of "x div 10"])
qed (simp add: print_uint_def rev_print_uint_rev)

lemma decimal_ne [simp]: "decimal n \<noteq> []"
  by (subst decimal.simps) simp

lemma decimal_last: "last (decimal n) = chr (48 + n mod 10)"
  by (subst decimal.simps) simp

lemma decimal_Suc:
  assumes "n mod 10 \<noteq> 9"
  shows "decimal (Suc n) = butlast (decimal n) @ [chr (48 + n mod 10 + 1)]"
proof -
  have m: "Suc n mod 10 = Suc (n mod 10)" using assms by (simp add: mod_Suc)
  then have e: "Suc n div 10 = n div 10" "Suc n mod 10 = Suc (n mod 10)"
    by (simp_all add: div_Suc)
  show ?thesis
  proof (cases "n < 10")
    case True
    then have "n < 9" using assms by (cases "n = 9") auto
    then show ?thesis by (simp add: decimal.simps [of n] decimal.simps [of "Suc n"])
  next
    case False
    then have "decimal n = decimal (n div 10) @ [chr (48 + n mod 10)]"
      "decimal (Suc n) = decimal (Suc n div 10) @ [chr (48 + Suc n mod 10)]"
      by (simp_all only: decimal.simps [of n] decimal.simps [of "Suc n"]) simp_all
    then show ?thesis by (simp only: e butlast_snoc) simp
  qed
qed

lemma length_decimal: "n < 10 ^ Suc k \<Longrightarrow> length (decimal n) \<le> Suc k"
proof (induction k arbitrary: n)
  case 0
  then show ?case by (subst decimal.simps) simp
next
  case (Suc k)
  then have "n div 10 < 10 ^ Suc k" by (simp add: div_less_iff_less_mult mult.commute)
  from Suc.IH [OF this] show ?case by (subst decimal.simps) simp
qed

lemma pow2_mod_10: "0 < w \<Longrightarrow> (2 ^ w :: nat) mod 10 \<in> {2, 4, 6, 8}"
proof (induction w)
  case (Suc w)
  show ?case
  proof (cases "w = 0")
    case False
    have "2 ^ Suc w mod 10 = (2 * (2 ^ w mod 10)) mod (10 :: nat)" by (simp add: mod_mult_right_eq)
    with Suc False show ?thesis by auto
  qed simp
qed simp

lemma print_int_decimal:
  assumes "2 \<le> w"
  shows "print_int w x = decimal_int x"
proof (cases "x = - (2 ^ (w - 1))")
  case False
  then show ?thesis
    by (simp add: print_int_def print_int_small_def decimal_int_def print_uint_decimal)
next
  case True
  define n :: nat where "n = 2 ^ (w - 1) - 1"
  have p: "(2 ^ (w - 1) :: nat) = Suc n" by (simp add: n_def)
  have "(2::nat) ^ 1 \<le> 2 ^ (w - 1)" using assms by (intro power_increasing) auto
  with p have n1: "1 \<le> n" by simp
  have "(2 ^ (w - 1) :: nat) mod 10 \<in> {2, 4, 6, 8}" using assms by (intro pow2_mod_10) simp
  then have n9: "n mod 10 \<noteq> 9" unfolding p by (auto simp: mod_Suc split: if_splits)
  have x: "x = - int (Suc n)" using True p by (metis of_nat_numeral of_nat_power)
  have l: "uc (last (decimal n)) = 48 + n mod 10" by (simp add: decimal_last)
  have "x + 1 = - int n" by (simp add: x)
  then have ps: "print_int_small (x + 1) = CHR ''-'' # decimal n"
    using n1 by (simp add: print_int_small_def print_uint_decimal)
  have "print_int w x = CHR ''-'' # butlast (decimal n) @ [chr (48 + n mod 10 + 1)]"
    unfolding print_int_def if_P [OF True] ps Let_def by (simp add: l)
  also have "\<dots> = CHR ''-'' # decimal (Suc n)" by (simp only: decimal_Suc [OF n9])
  finally show ?thesis by (simp add: decimal_int_def x nat_add_distrib)
qed

subsection \<open>The buffer\<close>

record string_builder =
  sb_text :: string
  sb_room :: nat
  sb_error :: bool
  sb_use_buffer :: bool

abbreviation reserved_size :: nat where "reserved_size \<equiv> 30"
abbreviation size_max :: nat where "size_max \<equiv> 2 ^ 64 - 1"

definition sb_new :: "nat \<Rightarrow> bool \<Rightarrow> string_builder" where
  "sb_new slice_size use_buffer =
     \<lparr>sb_text = [], sb_room = (if slice_size \<le> reserved_size then 100 else slice_size - reserved_size),
      sb_error = False, sb_use_buffer = use_buffer\<rparr>"

definition sb_clear :: "string_builder \<Rightarrow> string_builder" where
  "sb_clear s = s\<lparr>sb_text := [], sb_error := False\<rparr>"

definition sb_on_error :: "string_builder \<Rightarrow> string_builder" where
  "sb_on_error s = s\<lparr>sb_error := True\<rparr>"

text \<open>\<^verbatim>\<open>reserve_inner\<close>: the outer option is a failed
  \<^verbatim>\<open>CHECK\<close>, the flag is its result.\<close>

definition sb_reserve_inner :: "nat \<Rightarrow> string_builder \<Rightarrow> (bool \<times> string_builder) option" where
  "sb_reserve_inner n s =
     (let old_data_size = length (sb_text s); old_buffer_size = sb_room s in
      if \<not> sb_use_buffer s then Some (False, s)
      else if n \<ge> size_max - reserved_size - old_data_size - 1 then Some (False, s)
      else if old_buffer_size \<ge> (size_max - reserved_size) div 2 - 2 then Some (False, s)
      else let need_data_size = old_data_size + n;
               room = max 100 (max ((old_buffer_size + 1) * 2) need_data_size)
           in if room > old_data_size \<and> room - old_data_size \<ge> n
              then Some (True, s\<lparr>sb_room := room\<rparr>) else None)"

definition sb_reserve :: "string_builder \<Rightarrow> (bool \<times> string_builder) option" where
  "sb_reserve s =
     (if sb_room s > length (sb_text s) then Some (True, s) else sb_reserve_inner reserved_size s)"

definition sb_reserve_size :: "nat \<Rightarrow> string_builder \<Rightarrow> (bool \<times> string_builder) option" where
  "sb_reserve_size n s =
     (if sb_room s > length (sb_text s) \<and> sb_room s - length (sb_text s) \<ge> n then Some (True, s)
      else sb_reserve_inner n s)"

definition sb_put :: "string \<Rightarrow> string_builder \<Rightarrow> string_builder" where
  "sb_put t s = s\<lparr>sb_text := sb_text s @ t\<rparr>"

definition sb_append :: "string \<Rightarrow> string_builder \<Rightarrow> string_builder option" where
  "sb_append str s =
     (case sb_reserve_size (length str) s of
        None \<Rightarrow> None
      | Some (True, s1) \<Rightarrow> Some (sb_put str s1)
      | Some (False, s1) \<Rightarrow>
          if sb_room s1 < length (sb_text s1) then Some (sb_on_error s1)
          else let available = sb_room s1 + reserved_size - 1 - length (sb_text s1)
               in if length str > available
                  then Some (sb_put (take available str) (sb_on_error s1))
                  else Some (sb_put str s1))"

definition sb_append_char :: "nat \<Rightarrow> char \<Rightarrow> string_builder \<Rightarrow> string_builder option" where
  "sb_append_char count c s = sb_append (replicate count c) s"

definition sb_push_back :: "char \<Rightarrow> string_builder \<Rightarrow> string_builder option" where
  "sb_push_back c s =
     (if sb_room s \<le> length (sb_text s)
      then (case sb_reserve_inner reserved_size s of
              None \<Rightarrow> None
            | Some (True, s1) \<Rightarrow> Some (sb_put [c] s1)
            | Some (False, s1) \<Rightarrow> Some (sb_on_error s1))
      else Some (sb_put [c] s))"

text \<open>The operators for characters and for integers of the widths 32 and 64.\<close>

definition sb_append_short :: "string \<Rightarrow> string_builder \<Rightarrow> string_builder option" where
  "sb_append_short t s =
     (case sb_reserve s of
        None \<Rightarrow> None
      | Some (True, s1) \<Rightarrow> Some (sb_put t s1)
      | Some (False, s1) \<Rightarrow> Some (sb_on_error s1))"

definition sb_char :: "char \<Rightarrow> string_builder \<Rightarrow> string_builder option" where
  "sb_char c s = sb_append_short [c] s"

definition sb_int :: "nat \<Rightarrow> int \<Rightarrow> string_builder \<Rightarrow> string_builder option" where
  "sb_int w x s = sb_append_short (print_int w x) s"

definition sb_uint :: "nat \<Rightarrow> string_builder \<Rightarrow> string_builder option" where
  "sb_uint x s = sb_append_short (print_uint x) s"

definition sb_bool :: "bool \<Rightarrow> string_builder \<Rightarrow> string_builder option" where
  "sb_bool b s = sb_append (if b then ''true'' else ''false'') s"

definition sb_pop_back :: "string_builder \<Rightarrow> string_builder option" where
  "sb_pop_back s = (if sb_text s = [] then None else Some (s\<lparr>sb_text := butlast (sb_text s)\<rparr>))"

definition sb_size :: "string_builder \<Rightarrow> nat" where
  "sb_size s = length (sb_text s)"

definition sb_as_cslice :: "string_builder \<Rightarrow> string option" where
  "sb_as_cslice s = (if length (sb_text s) \<ge> sb_room s + reserved_size then None else Some (sb_text s))"

text \<open>\<^verbatim>\<open>td::to_string\<close> of an integer prints into a buffer of 1000 bytes.\<close>

definition to_string_int :: "nat \<Rightarrow> int \<Rightarrow> string option" where
  "to_string_int w x =
     (case sb_int w x (sb_new 1000 False) of None \<Rightarrow> None | Some s \<Rightarrow> sb_as_cslice s)"

subsection \<open>The invariant\<close>

text \<open>The text never reaches the end of the memory, so \<^verbatim>\<open>as_cslice\<close> can write
  its terminating zero.\<close>

definition sb_inv :: "string_builder \<Rightarrow> bool" where
  "sb_inv s \<longleftrightarrow> 1 \<le> sb_room s \<and> length (sb_text s) < sb_room s + reserved_size"

lemma sb_inv_new: "sb_inv (sb_new n b)"
  by (auto simp: sb_inv_def sb_new_def)

lemma sb_as_cslice_ok: "sb_inv s \<Longrightarrow> sb_as_cslice s = Some (sb_text s)"
  by (simp add: sb_as_cslice_def sb_inv_def)

lemma if_merge3:
  "(if a then x else if b then x else if c then x else y) = (if a \<or> b \<or> c then x else y)"
  by simp

lemma sb_reserve_inner_spec:
  assumes "sb_inv s"
  shows "\<exists>ok s'. sb_reserve_inner n s = Some (ok, s') \<and> sb_inv s' \<and> sb_text s' = sb_text s \<and>
    sb_error s' = sb_error s \<and> sb_use_buffer s' = sb_use_buffer s \<and>
    (if ok then length (sb_text s) < sb_room s' \<and> length (sb_text s) + n \<le> sb_room s' \<and> sb_use_buffer s
     else s' = s) \<and>
    (sb_use_buffer s \<and> n < 2 ^ 62 \<and> length (sb_text s) < 2 ^ 62 \<and> sb_room s < 2 ^ 62 \<longrightarrow> ok)"
proof -
  let ?room = "max 100 (max ((sb_room s + 1) * 2) (length (sb_text s) + n))"
  have "?room > length (sb_text s) \<and> ?room - length (sb_text s) \<ge> n"
    using assms by (auto simp: sb_inv_def max_def)
  then have room: "length (sb_text s) < ?room" "length (sb_text s) + n \<le> ?room" by auto
  let ?stop = "\<not> sb_use_buffer s \<or> n \<ge> size_max - reserved_size - length (sb_text s) - 1 \<or>
    sb_room s \<ge> (size_max - reserved_size) div 2 - 2"
  have "sb_reserve_inner n s =
      (if ?stop then Some (False, s)
       else if ?room > length (sb_text s) \<and> ?room - length (sb_text s) \<ge> n
       then Some (True, s\<lparr>sb_room := ?room\<rparr>) else None)"
    unfolding sb_reserve_inner_def Let_def by (rule if_merge3)
  then have r: "sb_reserve_inner n s = (if ?stop then Some (False, s) else Some (True, s\<lparr>sb_room := ?room\<rparr>))"
    using room by (simp add: le_diff_conv2 add.commute)
  show ?thesis
  proof (cases ?stop)
    case True
    then have "sb_reserve_inner n s = Some (False, s)" using r by simp
    moreover have "\<not> (sb_use_buffer s \<and> n < 2 ^ 62 \<and> length (sb_text s) < 2 ^ 62 \<and> sb_room s < 2 ^ 62)"
      using True by auto
    ultimately show ?thesis
      using assms by (intro exI [of _ False] exI [of _ s] conjI) (simp_all only: if_False simp_thms)
  next
    case False
    then have "sb_reserve_inner n s = Some (True, s\<lparr>sb_room := ?room\<rparr>)" using r by (simp only: if_False)
    moreover have "sb_inv (s\<lparr>sb_room := ?room\<rparr>)" using room by (simp add: sb_inv_def)
    moreover have "sb_use_buffer s" using False by blast
    ultimately show ?thesis
      using room by (intro exI [of _ True] exI [of _ "s\<lparr>sb_room := ?room\<rparr>"] conjI) simp_all
  qed
qed

text \<open>What an append does: no check fails, the flag is never reset, and without an error the
  whole piece is appended. A growing buffer never sets the flag while everything is small.\<close>

definition sb_appends :: "string \<Rightarrow> string_builder \<Rightarrow> string_builder option \<Rightarrow> bool" where
  "sb_appends t s r \<longleftrightarrow>
     (\<exists>s'. r = Some s' \<and> sb_inv s' \<and> sb_use_buffer s' = sb_use_buffer s \<and>
        (sb_error s \<longrightarrow> sb_error s') \<and> (\<not> sb_error s' \<longrightarrow> sb_text s' = sb_text s @ t) \<and>
        (sb_use_buffer s \<and> length t < 2 ^ 62 \<and> length (sb_text s) < 2 ^ 62 \<and> sb_room s < 2 ^ 62 \<longrightarrow>
           sb_error s' = sb_error s \<and> sb_text s' = sb_text s @ t \<and>
           sb_room s' \<le> max (max 100 (sb_room s)) (2 * (length (sb_text s) + length t + reserved_size + 1))))"

lemma sb_reserve_inner_room:
  "sb_reserve_inner n s = Some (b, s') \<Longrightarrow> sb_room s < length (sb_text s) + m \<Longrightarrow> n \<le> m \<Longrightarrow>
   sb_room s' \<le> max (max 100 (sb_room s)) (2 * (length (sb_text s) + m + 1))"
proof -
  assume r: "sb_reserve_inner n s = Some (b, s')" and m: "sb_room s < length (sb_text s) + m" "n \<le> m"
  have "s' = s \<or> sb_room s' = max 100 (max ((sb_room s + 1) * 2) (length (sb_text s) + n))"
    using r unfolding sb_reserve_inner_def Let_def by (simp only: split: if_splits) auto
  then show ?thesis using m by auto
qed

lemma sb_append_appends:
  assumes inv: "sb_inv s"
  shows "sb_appends t s (sb_append t s)"
proof (cases "sb_room s > length (sb_text s) \<and> sb_room s - length (sb_text s) \<ge> length t")
  case True
  then have "sb_append t s = Some (sb_put t s)"
    by (simp add: sb_append_def sb_reserve_size_def)
  with True inv show ?thesis by (auto simp: sb_appends_def sb_put_def sb_inv_def)
next
  case False
  obtain ok s1 where r: "sb_reserve_inner (length t) s = Some (ok, s1)" "sb_inv s1" "sb_text s1 = sb_text s"
    "sb_error s1 = sb_error s" "sb_use_buffer s1 = sb_use_buffer s"
    "if ok then length (sb_text s) < sb_room s1 \<and> length (sb_text s) + length t \<le> sb_room s1 \<and> sb_use_buffer s
     else s1 = s"
    "sb_use_buffer s \<and> length t < 2 ^ 62 \<and> length (sb_text s) < 2 ^ 62 \<and> sb_room s < 2 ^ 62 \<longrightarrow> ok"
    using sb_reserve_inner_spec [OF inv, of "length t"] by blast
  have room: "sb_room s1 \<le> max (max 100 (sb_room s)) (2 * (length (sb_text s) + length t + reserved_size + 1))"
    using sb_reserve_inner_room [OF r(1), of "length t + reserved_size"] False by auto
  have a: "sb_append t s = (if ok then Some (sb_put t s1)
      else if sb_room s1 < length (sb_text s1) then Some (sb_on_error s1)
      else let available = sb_room s1 + reserved_size - 1 - length (sb_text s1)
           in if length t > available then Some (sb_put (take available t) (sb_on_error s1))
              else Some (sb_put t s1))"
    using False r(1) by (auto simp: sb_append_def sb_reserve_size_def split: bool.splits)
  show ?thesis
  proof (cases ok)
    case True
    with a have "sb_append t s = Some (sb_put t s1)" by simp
    then show ?thesis using r True room by (auto simp: sb_appends_def sb_put_def sb_inv_def)
  next
    case False
    then have "s1 = s" using r by simp
    with a False r(7) inv show ?thesis
      by (auto simp: sb_appends_def sb_put_def sb_inv_def sb_on_error_def Let_def)
  qed
qed

lemma sb_short_appends:
  assumes inv: "sb_inv s" and len: "length t \<le> reserved_size"
  shows "sb_appends t s (sb_append_short t s)"
proof (cases "sb_room s > length (sb_text s)")
  case True
  then have "sb_append_short t s = Some (sb_put t s)"
    by (simp add: sb_append_short_def sb_reserve_def)
  with True inv len show ?thesis by (auto simp: sb_appends_def sb_put_def sb_inv_def)
next
  case False
  obtain ok s1 where r: "sb_reserve_inner reserved_size s = Some (ok, s1)" "sb_inv s1" "sb_text s1 = sb_text s"
    "sb_error s1 = sb_error s" "sb_use_buffer s1 = sb_use_buffer s"
    "if ok then length (sb_text s) < sb_room s1 \<and> length (sb_text s) + reserved_size \<le> sb_room s1 \<and> sb_use_buffer s
     else s1 = s"
    "sb_use_buffer s \<and> (reserved_size :: nat) < 2 ^ 62 \<and> length (sb_text s) < 2 ^ 62 \<and> sb_room s < 2 ^ 62 \<longrightarrow> ok"
    using sb_reserve_inner_spec [OF inv, of reserved_size] by blast
  have "sb_room s1 \<le> max (max 100 (sb_room s)) (2 * (length (sb_text s) + reserved_size + 1))"
    by (rule sb_reserve_inner_room [OF r(1)]) (use False in auto)
  then have room: "sb_room s1 \<le> max (max 100 (sb_room s)) (2 * (length (sb_text s) + length t + reserved_size + 1))"
    by (auto simp: max_def split: if_splits)
  have a: "sb_append_short t s = (if ok then Some (sb_put t s1) else Some (sb_on_error s1))"
    using False r(1) by (auto simp: sb_append_short_def sb_reserve_def split: bool.splits)
  show ?thesis
  proof (cases ok)
    case True
    with a have "sb_append_short t s = Some (sb_put t s1)" by simp
    then show ?thesis using r True room len by (auto simp: sb_appends_def sb_put_def sb_inv_def)
  next
    case False
    with r a have "sb_append_short t s = Some (sb_on_error s)" by simp
    then show ?thesis using r(7) False inv by (auto simp: sb_appends_def sb_inv_def sb_on_error_def)
  qed
qed

lemma sb_push_back_short: "sb_push_back c s = sb_append_short [c] s"
  by (auto simp: sb_push_back_def sb_append_short_def sb_reserve_def)

text \<open>The decimal notation of a 64-bit number fits into the reserve.\<close>

lemma length_decimal_int:
  assumes "\<bar>x\<bar> < 10 ^ 20" shows "length (decimal_int x) \<le> reserved_size"
proof -
  have "nat \<bar>x\<bar> < 10 ^ Suc 19" using assms by (simp add: nat_less_iff)
  from length_decimal [OF this] show ?thesis by (auto simp: decimal_int_def)
qed

datatype sb_op = SbSlice string | SbFill nat char | SbChar char | SbPush char | SbInt int | SbUint nat | SbBool bool

fun sb_op_text :: "sb_op \<Rightarrow> string" where
  "sb_op_text (SbSlice t) = t"
| "sb_op_text (SbFill n c) = replicate n c"
| "sb_op_text (SbChar c) = [c]"
| "sb_op_text (SbPush c) = [c]"
| "sb_op_text (SbInt x) = decimal_int x"
| "sb_op_text (SbUint x) = decimal x"
| "sb_op_text (SbBool b) = (if b then ''true'' else ''false'')"

fun sb_op_ok :: "sb_op \<Rightarrow> bool" where
  "sb_op_ok (SbInt x) = (- (2 ^ 63) \<le> x \<and> x < 2 ^ 63)"
| "sb_op_ok (SbUint x) = (x < 2 ^ 64)"
| "sb_op_ok _ = True"

fun sb_step :: "sb_op \<Rightarrow> string_builder \<Rightarrow> string_builder option" where
  "sb_step (SbSlice t) s = sb_append t s"
| "sb_step (SbFill n c) s = sb_append_char n c s"
| "sb_step (SbChar c) s = sb_char c s"
| "sb_step (SbPush c) s = sb_push_back c s"
| "sb_step (SbInt x) s = sb_int 64 x s"
| "sb_step (SbUint x) s = sb_uint x s"
| "sb_step (SbBool b) s = sb_bool b s"

fun sb_run :: "sb_op list \<Rightarrow> string_builder \<Rightarrow> string_builder option" where
  "sb_run [] s = Some s"
| "sb_run (p # ps) s = (case sb_step p s of None \<Rightarrow> None | Some s1 \<Rightarrow> sb_run ps s1)"

lemma sb_step_appends:
  assumes "sb_inv s" "sb_op_ok p"
  shows "sb_appends (sb_op_text p) s (sb_step p s)"
proof (cases p)
  case (SbInt x)
  then have "length (decimal_int x) \<le> reserved_size" using assms(2) by (intro length_decimal_int) auto
  with SbInt assms(1) show ?thesis by (simp add: sb_int_def print_int_decimal sb_short_appends)
next
  case (SbUint x)
  then have "length (decimal x) \<le> reserved_size"
    using assms(2) length_decimal [of x 19] by simp
  with SbUint assms(1) show ?thesis by (simp add: sb_uint_def print_uint_decimal sb_short_appends)
qed (use assms in \<open>simp_all add: sb_append_appends sb_append_char_def sb_char_def sb_short_appends
      sb_push_back_short sb_bool_def\<close>)

lemma sb_run_spec:
  "sb_inv s \<Longrightarrow> list_all sb_op_ok ps \<Longrightarrow>
   \<exists>s'. sb_run ps s = Some s' \<and> sb_inv s' \<and> (sb_error s \<longrightarrow> sb_error s') \<and>
     (\<not> sb_error s' \<longrightarrow> sb_text s' = sb_text s @ concat (map sb_op_text ps))"
proof (induction ps arbitrary: s)
  case (Cons p ps)
  have "sb_appends (sb_op_text p) s (sb_step p s)" using Cons.prems by (intro sb_step_appends) auto
  then obtain s1 where s1: "sb_step p s = Some s1" "sb_inv s1" "sb_error s \<longrightarrow> sb_error s1"
    "\<not> sb_error s1 \<longrightarrow> sb_text s1 = sb_text s @ sb_op_text p" by (auto simp: sb_appends_def)
  from Cons.IH [OF s1(2)] Cons.prems(2) s1 show ?case by (auto simp flip: append_assoc)
qed simp

lemma sb_run_growing:
  "sb_inv s \<Longrightarrow> list_all sb_op_ok ps \<Longrightarrow> sb_use_buffer s \<Longrightarrow> \<not> sb_error s \<Longrightarrow>
   length (sb_text s) + length (concat (map sb_op_text ps)) \<le> n \<Longrightarrow> n < 2 ^ 60 \<Longrightarrow>
   sb_room s \<le> 2 * n + 2 ^ 60 \<Longrightarrow>
   \<exists>s'. sb_run ps s = Some s' \<and> sb_inv s' \<and> \<not> sb_error s' \<and>
     sb_text s' = sb_text s @ concat (map sb_op_text ps)"
proof (induction ps arbitrary: s)
  case (Cons p ps)
  have a: "sb_appends (sb_op_text p) s (sb_step p s)" using Cons.prems by (intro sb_step_appends) auto
  have l: "length (sb_op_text p) \<le> n" "length (sb_text s) + length (sb_op_text p) \<le> n"
    using Cons.prems(5) by auto
  have "length (sb_op_text p) < 2 ^ 62 \<and> length (sb_text s) < 2 ^ 62 \<and> sb_room s < 2 ^ 62"
    using l Cons.prems(6,7) by simp
  with a Cons.prems(3,4) obtain s1 where s1: "sb_step p s = Some s1" "sb_inv s1" "sb_use_buffer s1"
    "\<not> sb_error s1" "sb_text s1 = sb_text s @ sb_op_text p"
    "sb_room s1 \<le> max (max 100 (sb_room s)) (2 * (length (sb_text s) + length (sb_op_text p) + reserved_size + 1))"
    unfolding sb_appends_def by auto
  have "sb_room s1 \<le> 2 * n + 2 ^ 60" using s1(6) l(2) Cons.prems(7) by auto
  from Cons.IH [OF s1(2) _ s1(3,4) _ Cons.prems(6) this] Cons.prems(2,5) s1 show ?case by auto
qed simp

text \<open>C38: whatever is appended to a builder over a buffer of any size, fixed or growing, no check
  fails, the text can be read (there is room for its terminating zero), and unless the error flag
  is set the text is the concatenation of everything appended, integers in decimal notation.\<close>

theorem sb_run_complete_or_error:
  assumes "list_all sb_op_ok ps"
  shows "\<exists>s. sb_run ps (sb_new n use_buffer) = Some s \<and> sb_as_cslice s = Some (sb_text s) \<and>
    (sb_error s \<or> sb_text s = concat (map sb_op_text ps))"
  using sb_run_spec [OF sb_inv_new assms, of n use_buffer]
  by (auto simp: sb_as_cslice_ok) (auto simp: sb_new_def)

definition sb_demo :: "sb_op list" where
  "sb_demo = [SbSlice ''x = '', SbInt (- (2 ^ 63)), SbChar CHR '','', SbUint 1024, SbFill 3 CHR ''.'', SbBool True]"

theorem sb_run_complete_or_error_witness:
  "\<exists>s. sb_run sb_demo (sb_new 40 False) = Some s \<and> sb_as_cslice s = Some (sb_text s) \<and>
    (sb_error s \<or> sb_text s = concat (map sb_op_text sb_demo))"
  by (rule sb_run_complete_or_error) (simp add: sb_demo_def)

text \<open>a growing builder never reports an error: the text is the concatenation of everything
  appended, as long as its length and the initial buffer are below \<open>2^60\<close> bytes.\<close>

theorem sb_growing_complete:
  assumes "list_all sb_op_ok ps" "length (concat (map sb_op_text ps)) < 2 ^ 60" "n < 2 ^ 60"
  shows "\<exists>s. sb_run ps (sb_new n True) = Some s \<and> \<not> sb_error s \<and>
    sb_as_cslice s = Some (concat (map sb_op_text ps))"
proof -
  have "sb_use_buffer (sb_new n True)" "\<not> sb_error (sb_new n True)" "sb_text (sb_new n True) = []"
    "sb_room (sb_new n True) \<le> 2 ^ 60" using assms(3) by (auto simp: sb_new_def)
  then show ?thesis
    using sb_run_growing [OF sb_inv_new assms(1), of n True "length (concat (map sb_op_text ps))"] assms(2)
    by (auto simp: sb_as_cslice_ok)
qed

theorem sb_growing_complete_witness:
  "\<exists>s. sb_run sb_demo (sb_new 0 True) = Some s \<and> \<not> sb_error s \<and>
    sb_as_cslice s = Some (concat (map sb_op_text sb_demo))"
  by (rule sb_growing_complete) (simp_all add: sb_demo_def decimal_int_def decimal.simps)

end
