(* ===== verification/Status.thy ===== *)
theory Status
  imports StringBuilder
begin

text \<open>
  \<^verbatim>\<open>Status\<close> and \<^verbatim>\<open>Result<T>\<close> of
  \<^verbatim>\<open>pxcutils/pxc/utils/Status.h\<close> and \<^verbatim>\<open>Status.cpp\<close>.
  A \<^verbatim>\<open>Status\<close> is an optional error (\<open>None\<close> is the null pointer of
  \<^verbatim>\<open>Status::OK()\<close>); a \<^verbatim>\<open>Result<T>\<close> is the sum of an error
  and a value. The buffer of an error holds its message with a terminating zero, and
  \<^verbatim>\<open>message()\<close> reads it back as a C string, so it stops at the first zero byte.
  The system's \<^verbatim>\<open>strerror\<close> is a parameter of the functions that print an OS
  error. \<open>try_bind\<close> is the expansion of \<^verbatim>\<open>TRY_RESULT\<close> and
  \<^verbatim>\<open>TRY_STATUS\<close>.
\<close>

subsection \<open>Errors\<close>

datatype error_type = General | Os

record status_error =
  static_flag :: bool
  error_type :: error_type
  error_code :: int
  message_buffer :: string

type_synonym status = "status_error option"
type_synonym 'a result = "status_error + 'a"

abbreviation max_error_code :: int where "max_error_code \<equiv> 2 ^ 22 - 1"
abbreviation min_error_code :: int where "min_error_code \<equiv> - (2 ^ 22) + 1"

text \<open>A C string ends at its first zero byte.\<close>

definition c_string :: "string \<Rightarrow> string" where
  "c_string s = takeWhile (\<lambda>c. c \<noteq> chr 0) s"

definition to_info :: "int \<Rightarrow> int" where
  "to_info code =
     (if code < min_error_code then min_error_code
      else if code > max_error_code then max_error_code else code)"

definition make_error :: "bool \<Rightarrow> error_type \<Rightarrow> int \<Rightarrow> string \<Rightarrow> status_error" where
  "make_error static type code msg =
     \<lparr>static_flag = static, error_type = type, error_code = to_info code, message_buffer = msg @ [chr 0]\<rparr>"

definition Error_code :: "int \<Rightarrow> string \<Rightarrow> status_error" where
  "Error_code err msg = make_error False General err msg"

definition Error_msg :: "string \<Rightarrow> status_error" where
  "Error_msg msg = Error_code 0 msg"

definition PosixError :: "int \<Rightarrow> string \<Rightarrow> status_error" where
  "PosixError saved_errno msg = make_error False Os saved_errno msg"

definition Error_static :: "int \<Rightarrow> status_error" where
  "Error_static code = make_error True General code []"

definition is_error :: "status \<Rightarrow> bool" where
  "is_error s \<longleftrightarrow> s \<noteq> None"

definition status_code :: "status \<Rightarrow> int" where
  "status_code s = (case s of None \<Rightarrow> 0 | Some e \<Rightarrow> error_code e)"

definition error_message :: "status_error \<Rightarrow> string" where
  "error_message e = c_string (message_buffer e)"

definition status_message :: "status \<Rightarrow> string" where
  "status_message s = (case s of None \<Rightarrow> ''OK'' | Some e \<Rightarrow> error_message e)"

definition is_static :: "status \<Rightarrow> bool" where
  "is_static s = (case s of None \<Rightarrow> True | Some e \<Rightarrow> static_flag e)"

definition status_clone :: "status \<Rightarrow> status" where
  "status_clone s =
     (case s of None \<Rightarrow> None
      | Some e \<Rightarrow> if static_flag e then Some e
                 else Some (make_error False (error_type e) (error_code e) (error_message e)))"

definition public_message :: "(int \<Rightarrow> string) \<Rightarrow> status \<Rightarrow> string" where
  "public_message strerror s =
     (case s of None \<Rightarrow> ''OK''
      | Some e \<Rightarrow> (case error_type e of General \<Rightarrow> error_message e | Os \<Rightarrow> strerror (error_code e)))"

definition status_print :: "(int \<Rightarrow> string) \<Rightarrow> status \<Rightarrow> string" where
  "status_print strerror s =
     (case s of None \<Rightarrow> ''OK''
      | Some e \<Rightarrow>
          (case error_type e of General \<Rightarrow> ''[Error'' | Os \<Rightarrow> ''[PosixError : '' @ strerror (error_code e)) @
          '' : '' @ print_int 32 (error_code e) @ '' : '' @ error_message e @ '']'')"

definition move_as_error_prefix :: "string \<Rightarrow> status_error \<Rightarrow> status_error" where
  "move_as_error_prefix prefix e =
     (case error_type e of
        General \<Rightarrow> Error_code (error_code e) (prefix @ error_message e)
      | Os \<Rightarrow> make_error False Os (error_code e) (prefix @ error_message e))"

definition move_as_error_suffix :: "string \<Rightarrow> status_error \<Rightarrow> status_error" where
  "move_as_error_suffix suffix e =
     (case error_type e of
        General \<Rightarrow> Error_code (error_code e) (error_message e @ suffix)
      | Os \<Rightarrow> make_error False Os (error_code e) (error_message e @ suffix))"

text \<open>\<^verbatim>\<open>move_as_error_prefix(const Status &)\<close> puts the message of the status it
  is called on behind the message of its argument.\<close>

definition move_as_error_prefix_status :: "status_error \<Rightarrow> status_error \<Rightarrow> status_error" where
  "move_as_error_prefix_status this_status st = move_as_error_suffix (error_message this_status) st"

subsection \<open>Results\<close>

definition try_bind :: "'a result \<Rightarrow> ('a \<Rightarrow> 'b result) \<Rightarrow> 'b result" where
  "try_bind r f = (case r of Inl e \<Rightarrow> Inl e | Inr x \<Rightarrow> f x)"

definition try_status :: "status \<Rightarrow> 'b result \<Rightarrow> 'b result" where
  "try_status s r = (case s of None \<Rightarrow> r | Some e \<Rightarrow> Inl e)"

definition try_bind_prefix :: "string \<Rightarrow> 'a result \<Rightarrow> ('a \<Rightarrow> 'b result) \<Rightarrow> 'b result" where
  "try_bind_prefix prefix r f = (case r of Inl e \<Rightarrow> Inl (move_as_error_prefix prefix e) | Inr x \<Rightarrow> f x)"

definition try_status_prefix :: "string \<Rightarrow> status \<Rightarrow> 'b result \<Rightarrow> 'b result" where
  "try_status_prefix prefix s r = (case s of None \<Rightarrow> r | Some e \<Rightarrow> Inl (move_as_error_prefix prefix e))"

abbreviation error_result :: "string \<Rightarrow> 'a result" where
  "error_result msg \<equiv> Inl (Error_msg msg)"

definition result_default :: "'a result" where
  "result_default = Inl (Error_static (-1))"

definition result_is_ok :: "'a result \<Rightarrow> bool" where
  "result_is_ok r = (case r of Inl _ \<Rightarrow> False | Inr _ \<Rightarrow> True)"

text \<open>The accessors: \<open>None\<close> is a failed \<^verbatim>\<open>CHECK\<close>; a moved-from result
  holds a static error.\<close>

definition result_ok :: "'a result \<Rightarrow> 'a option" where
  "result_ok r = (case r of Inl _ \<Rightarrow> None | Inr x \<Rightarrow> Some x)"

definition result_error :: "'a result \<Rightarrow> status_error option" where
  "result_error r = (case r of Inl e \<Rightarrow> Some e | Inr _ \<Rightarrow> None)"

definition result_move :: "'a result \<Rightarrow> 'a result \<times> 'a result" where
  "result_move r = (r, Inl (Error_static (-2)))"

definition result_assign :: "'a result \<Rightarrow> 'a result \<times> 'a result" where
  "result_assign other = (other, Inl (Error_static (-3)))"

definition result_move_as_error :: "'a result \<Rightarrow> (status_error \<times> 'a result) option" where
  "result_move_as_error r =
     (case r of Inl e \<Rightarrow> Some (e, Inl (Error_static (-4))) | Inr _ \<Rightarrow> None)"

definition result_move_as_error_prefix :: "string \<Rightarrow> 'a result \<Rightarrow> (status_error \<times> 'a result) option" where
  "result_move_as_error_prefix prefix r =
     (case r of Inl e \<Rightarrow> Some (move_as_error_prefix prefix e, Inl (Error_static (-6))) | Inr _ \<Rightarrow> None)"

definition result_move_as_error_suffix :: "string \<Rightarrow> 'a result \<Rightarrow> (status_error \<times> 'a result) option" where
  "result_move_as_error_suffix suffix r =
     (case r of Inl e \<Rightarrow> Some (move_as_error_suffix suffix e, Inl (Error_static (-9))) | Inr _ \<Rightarrow> None)"

definition result_clone :: "'a result \<Rightarrow> 'a result" where
  "result_clone r =
     (case r of Inr x \<Rightarrow> Inr x | Inl e \<Rightarrow> (case status_clone (Some e) of Some e' \<Rightarrow> Inl e' | None \<Rightarrow> Inl e))"

definition result_move_map :: "('a \<Rightarrow> 'b) \<Rightarrow> 'a result \<Rightarrow> 'b result" where
  "result_move_map f r = try_bind r (\<lambda>x. Inr (f x))"

subsection \<open>Lemmas\<close>

lemma try_bind_simps [simp, status_simps]:
  "try_bind (Inl e) f = Inl e" "try_bind (Inr x) f = f x"
  by (simp_all add: try_bind_def)

lemma try_status_simps [simp, status_simps]:
  "try_status None r = r" "try_status (Some e) r = Inl e"
  by (simp_all add: try_status_def)

lemma try_bind_Inr_iff [status_simps]: "try_bind r f = Inr y \<longleftrightarrow> (\<exists>x. r = Inr x \<and> f x = Inr y)"
  by (cases r) auto

lemma try_bind_assoc: "try_bind (try_bind r f) g = try_bind r (\<lambda>x. try_bind (f x) g)"
  by (cases r) auto

lemma try_bind_isl: "isl (try_bind r f) \<longleftrightarrow> isl r \<or> isl (f (projr r))"
  by (cases r) auto

lemma c_string_snoc: "c_string (s @ [chr 0]) = c_string s"
  by (induction s) (auto simp: c_string_def)

lemma c_string_id: "chr 0 \<notin> set s \<Longrightarrow> c_string s = s"
  by (induction s) (auto simp: c_string_def)

lemma c_string_nul [simp]: "c_string [chr 0] = []"
  by (simp add: c_string_def)

lemma c_string_append:
  "c_string (s @ t) = (if chr 0 \<in> set s then c_string s else s @ c_string t)"
  by (induction s) (auto simp: c_string_def)

lemma set_c_string: "chr 0 \<notin> set (c_string s)"
  unfolding c_string_def by (auto dest: set_takeWhileD)

lemma c_string_idem [simp]: "c_string (c_string s) = c_string s"
  by (rule c_string_id [OF set_c_string])

lemma error_message_make [simp]: "error_message (make_error b t c msg) = c_string msg"
  by (simp add: error_message_def make_error_def c_string_snoc)

lemma error_message_Error_msg [simp]: "error_message (Error_msg msg) = c_string msg"
  by (simp add: Error_msg_def Error_code_def)

lemma to_info_bounds: "min_error_code \<le> to_info c \<and> to_info c \<le> max_error_code"
  by (simp add: to_info_def)

lemma to_info_idem [simp]: "to_info (to_info c) = to_info c"
  by (simp add: to_info_def)

lemma to_info_exact: "min_error_code \<le> c \<Longrightarrow> c \<le> max_error_code \<Longrightarrow> to_info c = c"
  by (simp add: to_info_def)

text \<open>Errors made by the constructors, and what is derived from them.\<close>

inductive made :: "status_error \<Rightarrow> bool" where
  made_new: "made (make_error False t c msg)"
| made_prefix: "made e \<Longrightarrow> made (move_as_error_prefix p e)"
| made_suffix: "made e \<Longrightarrow> made (move_as_error_suffix p e)"

lemma made_code: "made e \<Longrightarrow> to_info (error_code e) = error_code e \<and> \<not> static_flag e"
proof (induction rule: made.induct)
  case (made_new t c msg)
  then show ?case by (simp add: make_error_def)
next
  case (made_prefix e p)
  then show ?case by (cases "error_type e") (auto simp: move_as_error_prefix_def make_error_def Error_code_def)
next
  case (made_suffix e p)
  then show ?case by (cases "error_type e") (auto simp: move_as_error_suffix_def make_error_def Error_code_def)
qed

text \<open>an error derived from another one by any number of prefixes and suffixes, or cloned, keeps
  the kind and the code of the original (codes are clamped once, when an error is made), and a
  prefix without zero bytes comes in front of the old message.\<close>

theorem error_prefix_keeps_code:
  assumes "made e"
  shows "error_type (move_as_error_prefix p e) = error_type e \<and>
    error_code (move_as_error_prefix p e) = error_code e \<and>
    (chr 0 \<notin> set p \<longrightarrow> error_message (move_as_error_prefix p e) = p @ error_message e) \<and>
    error_message (move_as_error_suffix p e) = error_message e @ c_string p \<and>
    (\<exists>e'. status_clone (Some e) = Some e' \<and> error_type e' = error_type e \<and> error_code e' = error_code e \<and>
       error_message e' = error_message e)"
  using made_code [OF assms]
  by (cases "error_type e")
    (simp_all add: move_as_error_prefix_def move_as_error_suffix_def Error_code_def make_error_def
      status_clone_def error_message_def c_string_append c_string_snoc set_c_string c_string_id)

theorem error_prefix_keeps_code_witness:
  "error_code (move_as_error_prefix ''open: '' (PosixError 13 ''denied'')) = 13"
  using error_prefix_keeps_code [of "PosixError 13 ''denied''" "''open: ''"] made_new [of Os 13 "''denied''"]
  by (simp add: PosixError_def) (simp add: make_error_def to_info_def)

end
