(* ===== verification/Base64.thy ===== *)
theory Base64
  imports Status
begin

text \<open>
  \<^verbatim>\<open>pxcutils/pxc/utils/base64.cpp\<close>: base64 and base64url, with the template
  parameter \<^verbatim>\<open>is_url\<close> as the first argument \<open>u\<close>, and base32. The
  lookup tables are built by the loops of the source; the accumulators of base64 are non-negative
  \<^verbatim>\<open>int\<close>s below \<open>2^24\<close> and are \<open>nat\<close>, the
  \<^verbatim>\<open>uint32\<close> accumulator of base32 wraps around and is a word.
  \<^verbatim>\<open>SecureString\<close> results differ from strings only in how memory is freed.
\<close>

subsection \<open>Base64\<close>

definition get_characters :: "bool \<Rightarrow> string" where
  "get_characters u =
     (if u then ''ABCDEFGHIJKLMNOPQRSTUVWXYZabcdefghijklmnopqrstuvwxyz0123456789-_''
      else ''ABCDEFGHIJKLMNOPQRSTUVWXYZabcdefghijklmnopqrstuvwxyz0123456789+/'')"

definition get_character_table :: "bool \<Rightarrow> nat list" where
  "get_character_table u =
     foldl (\<lambda>t i. t[uc (get_characters u ! i) := i]) (replicate 256 64) [0..<64]"

function base64_encode_impl :: "bool \<Rightarrow> string \<Rightarrow> string" where
  "base64_encode_impl u s =
     (if s = [] then []
      else let left = min (length s) 3;
               c0 = push_bit 16 (uc (s ! 0));
               c1 = (if left \<noteq> 1 then c0 OR push_bit 8 (uc (s ! 1)) else c0);
               c2 = (if left = 3 then c1 OR uc (s ! 2) else c1)
           in [get_characters u ! drop_bit 18 c0, get_characters u ! (drop_bit 12 c1 AND 63)] @
              (if left \<noteq> 1 then [get_characters u ! (drop_bit 6 c2 AND 63)] else if \<not> u then ''='' else []) @
              (if left = 3 then [get_characters u ! (c2 AND 63)] else if \<not> u then ''='' else []) @
              base64_encode_impl u (drop left s))"
  by pat_completeness auto
termination by (relation "measure (\<lambda>(u, s). length s)") (auto simp: Suc_le_eq)

declare base64_encode_impl.simps [simp del]

definition base64_drop_padding :: "bool \<Rightarrow> string \<Rightarrow> string result" where
  "base64_drop_padding u base64 =
     (let b = drop_back_while (\<lambda>c. c = CHR ''='') base64;
          padding_length = length base64 - length b
      in if padding_length \<ge> 3 then error_result ''Wrong string padding''
         else if (\<not> u \<or> padding_length > 0) \<and> (length b + padding_length) mod 4 \<noteq> 0
         then error_result ''Wrong padding length''
         else if u \<and> length b mod 4 = 1 then error_result ''Wrong string length''
         else Inr b)"

text \<open>The inner loop of the decoder: the values of up to four characters, packed.\<close>

fun base64_pack :: "nat list \<Rightarrow> nat \<Rightarrow> nat \<Rightarrow> string \<Rightarrow> nat result" where
  "base64_pack table t c [] = Inr c"
| "base64_pack table t c (x # xs) =
     (let value = table ! uc x
      in if value = 64 then error_result ''Wrong character in the string''
         else base64_pack table (t + 1) (c OR push_bit ((3 - t) * 6) value) xs)"

function do_base64_decode_impl :: "nat list \<Rightarrow> string \<Rightarrow> string result" where
  "do_base64_decode_impl table s =
     (if s = [] then Inr []
      else let left = min (length s) 4
           in try_bind (base64_pack table 0 0 (take left s)) (\<lambda>c.
                let b0 = [chr (drop_bit 16 c mod 256)] in
                if left = 2
                then (if c AND (2 ^ 16 - 1) \<noteq> 0 then error_result ''Wrong padding in the string''
                      else try_bind (do_base64_decode_impl table (drop left s)) (\<lambda>r. Inr (b0 @ r)))
                else let b1 = [chr (drop_bit 8 c mod 256)] in
                  if left = 3
                  then (if c AND (2 ^ 8 - 1) \<noteq> 0 then error_result ''Wrong padding in the string''
                        else try_bind (do_base64_decode_impl table (drop left s)) (\<lambda>r. Inr (b0 @ b1 @ r)))
                  else try_bind (do_base64_decode_impl table (drop left s))
                         (\<lambda>r. Inr (b0 @ b1 @ [chr (c mod 256)] @ r))))"
  by pat_completeness auto
termination by (relation "measure (\<lambda>(table, s). length s)") (auto simp: Suc_le_eq)

declare do_base64_decode_impl.simps [simp del]

text \<open>The bytes are written from the start of a zeroed buffer of a size computed in advance;
  \<open>None\<close> would be a write past its end.\<close>

definition base64_decoded_size :: "nat \<Rightarrow> nat" where
  "base64_decoded_size n = n div 4 * 3 + (n mod 4 + 1) div 2"

definition base64_decode_impl :: "bool \<Rightarrow> string \<Rightarrow> string result option" where
  "base64_decode_impl u base64 =
     (case base64_drop_padding u base64 of
        Inl e \<Rightarrow> Some (Inl e)
      | Inr b \<Rightarrow>
          (case do_base64_decode_impl (get_character_table u) b of
             Inl e \<Rightarrow> Some (Inl e)
           | Inr out \<Rightarrow>
               if base64_decoded_size (length b) < length out then None
               else Some (Inr (out @ replicate (base64_decoded_size (length b) - length out) (chr 0)))))"

definition is_base64_impl :: "bool \<Rightarrow> string \<Rightarrow> bool" where
  "is_base64_impl u input =
     (let b = drop_back_while (\<lambda>c. c = CHR ''='') input;
          padding_length = length input - length b;
          table = get_character_table u
      in if padding_length \<ge> 3 then False
         else if (\<not> u \<or> padding_length > 0) \<and> (length b + padding_length) mod 4 \<noteq> 0 then False
         else if u \<and> length b mod 4 = 1 then False
         else if \<not> list_all (\<lambda>c. table ! uc c \<noteq> 64) b then False
         else if length b mod 4 = 2 \<and> table ! uc (last b) AND 15 \<noteq> 0 then False
         else if length b mod 4 = 3 \<and> table ! uc (last b) AND 3 \<noteq> 0 then False
         else True)"

definition is_base64_characters_impl :: "bool \<Rightarrow> string \<Rightarrow> bool" where
  "is_base64_characters_impl u input = list_all (\<lambda>c. get_character_table u ! uc c \<noteq> 64) input"

definition base64_filter :: "string \<Rightarrow> string" where
  "base64_filter input =
     filter (\<lambda>c. get_character_table False ! uc c \<noteq> 64 \<or> c = CHR ''='') input"

subsection \<open>Characters and values\<close>

definition b64_value :: "bool \<Rightarrow> char \<Rightarrow> nat" where
  "b64_value u c = get_character_table u ! uc c"

lemma map_uc_characters: "map uc (get_characters u) =
    [65..<91] @ [97..<123] @ [48..<58] @ (if u then [45, 95] else [43, 47])"
  by (simp add: get_characters_def upt_rec)

lemma length_characters [simp]: "length (get_characters u) = 64"
  using arg_cong [OF map_uc_characters, of length u] by simp

lemma distinct_characters: "distinct (get_characters u)"
proof -
  have "distinct (map uc (get_characters u))" unfolding map_uc_characters by auto
  then show ?thesis by (simp only: distinct_map)
qed

lemma uc_characters: "c \<in> set (get_characters u) \<Longrightarrow>
    uc c \<in> set ([65..<91] @ [97..<123] @ [48..<58] @ (if u then [45, 95] else [43, 47]))"
  unfolding map_uc_characters [symmetric] by simp

lemma b64_value_char: "i < 64 \<Longrightarrow> b64_value u (get_characters u ! i) = i"
proof -
  assume i: "i < 64"
  have "inj_on (\<lambda>i. uc (get_characters u ! i)) {0..<64}"
    using distinct_characters [of u] by (auto simp: inj_on_def nth_eq_iff_index_eq)
  then show ?thesis
    unfolding b64_value_def get_character_table_def
    using fill_table_nth [of i "[0..<64]" "\<lambda>i. uc (get_characters u ! i)" "replicate 256 64"] i by simp
qed

lemma b64_value_other: "c \<notin> set (get_characters u) \<Longrightarrow> b64_value u c = 64"
  unfolding b64_value_def get_character_table_def
  by (subst fill_table_other) (auto simp: in_set_conv_nth)

lemma b64_value_cases:
  obtains "b64_value u c = 64" | i where "i < 64" "c = get_characters u ! i" "b64_value u c = i"
proof (cases "c \<in> set (get_characters u)")
  case True
  then obtain i where "i < 64" "c = get_characters u ! i" by (auto simp: in_set_conv_nth)
  then show thesis using that b64_value_char by blast
qed (use that b64_value_other in blast)

lemma b64_value_less: "b64_value u c \<noteq> 64 \<Longrightarrow> b64_value u c < 64"
  by (rule b64_value_cases [of u c]) auto

lemma b64_char_value: "b64_value u c \<noteq> 64 \<Longrightarrow> get_characters u ! b64_value u c = c"
  by (rule b64_value_cases [of u c]) auto

lemma b64_no_pad: "b64_value u (CHR ''='') = 64"
  by (rule b64_value_other) (auto dest: uc_characters simp del: set_upt simp: atLeastLessThan_iff split: if_splits)

subsection \<open>Groups\<close>

lemma b64_pack3:
  "a < 256 \<Longrightarrow> b < 256 \<Longrightarrow> c < 256 \<Longrightarrow>
   push_bit 16 a OR push_bit 8 b = a * 65536 + b * (256 :: nat) \<and>
   (a * 65536 + b * 256) OR c = a * 65536 + b * 256 + c"
proof -
  assume a: "a < 256" "b < 256" "c < (256 :: nat)"
  have 1: "push_bit 16 a OR push_bit 8 b = a * 65536 + b * 256"
    using a nat_or_disjoint' [of 16 "a * 65536" "b * 256"] by (simp add: nat_shiftl)
  moreover have "(a * 65536 + b * 256) OR c = a * 65536 + b * 256 + c"
    using a by (intro nat_or_disjoint' [of 8]) (auto intro: dvd_add)
  ultimately show ?thesis by simp
qed

lemma b64_pack4:
  assumes "v0 < 64" "v1 < 64" "v2 < 64" "v3 < (64 :: nat)"
  shows "0 OR push_bit ((3 - 0) * 6) v0 = v0 * 2 ^ 18"
    "(v0 * 2 ^ 18) OR push_bit ((3 - (0 + 1)) * 6) v1 = v0 * 2 ^ 18 + v1 * 2 ^ 12"
    "(v0 * 2 ^ 18 + v1 * 2 ^ 12) OR push_bit ((3 - (0 + 1 + 1)) * 6) v2 = v0 * 2 ^ 18 + v1 * 2 ^ 12 + v2 * 64"
    "(v0 * 2 ^ 18 + v1 * 2 ^ 12 + v2 * 64) OR push_bit ((3 - (0 + 1 + 1 + 1)) * 6) v3 =
       v0 * 2 ^ 18 + v1 * 2 ^ 12 + v2 * 64 + v3"
proof -
  show "0 OR push_bit ((3 - 0) * 6) v0 = v0 * 2 ^ 18"
    by (simp add: nat_shiftl)
  show "(v0 * 2 ^ 18) OR push_bit ((3 - (0 + 1)) * 6) v1 = v0 * 2 ^ 18 + v1 * 2 ^ 12"
    using assms nat_or_disjoint' [of 18 "v0 * 2 ^ 18" "v1 * 2 ^ 12"] by (simp add: nat_shiftl)
  have "2 ^ 12 dvd v0 * 2 ^ 18 + v1 * 2 ^ 12" by (intro dvd_add) simp_all
  then show "(v0 * 2 ^ 18 + v1 * 2 ^ 12) OR push_bit ((3 - (0 + 1 + 1)) * 6) v2 =
      v0 * 2 ^ 18 + v1 * 2 ^ 12 + v2 * 64"
    using assms nat_or_disjoint' [of 12 "v0 * 2 ^ 18 + v1 * 2 ^ 12" "v2 * 64"] by (simp add: nat_shiftl)
  have "2 ^ 6 dvd v0 * 2 ^ 18 + v1 * 2 ^ 12 + v2 * 64" by (intro dvd_add) simp_all
  then show "(v0 * 2 ^ 18 + v1 * 2 ^ 12 + v2 * 64) OR push_bit ((3 - (0 + 1 + 1 + 1)) * 6) v3 =
      v0 * 2 ^ 18 + v1 * 2 ^ 12 + v2 * 64 + v3"
    using assms nat_or_disjoint' [of 6 "v0 * 2 ^ 18 + v1 * 2 ^ 12 + v2 * 64" v3] by simp
qed

text \<open>A group of up to three bytes as four values of six bits.\<close>

lemma b64_first: "b < 256 \<Longrightarrow> c < 256 \<Longrightarrow>
    push_bit 16 a div 2 ^ 18 = (a * 65536 + b * 256 + c) div (2 ^ 18 :: nat)"
  using div_drop_low [of "b * 256 + c" 65536 a 4] by (simp add: nat_shiftl div_mult2_eq [of _ 65536 4, symmetric] add.assoc)

abbreviation b64_chars :: "bool \<Rightarrow> nat \<Rightarrow> string" where
  "b64_chars u n \<equiv> [get_characters u ! (n div 2 ^ 18), get_characters u ! (n div 2 ^ 12 mod 64),
     get_characters u ! (n div 64 mod 64), get_characters u ! (n mod 64)]"

text \<open>The encoding without padding.\<close>

fun b64_plain :: "bool \<Rightarrow> string \<Rightarrow> string" where
  "b64_plain u [] = []"
| "b64_plain u [a] = take 2 (b64_chars u (uc a * 65536))"
| "b64_plain u [a, b] = take 3 (b64_chars u (uc a * 65536 + uc b * 256))"
| "b64_plain u (a # b # c # s) = b64_chars u (uc a * 65536 + uc b * 256 + uc c) @ b64_plain u s"

definition b64_padding :: "nat \<Rightarrow> string" where
  "b64_padding n = replicate ((4 - n mod 4) mod 4) (CHR ''='')"

lemma and_63: "n AND 63 = n mod 64" for n :: nat
  using nat_mask [of n 6] by simp

lemma base64_encode_Nil: "base64_encode_impl u [] = []"
  by (simp add: base64_encode_impl.simps)

lemma length_plain_append: "b64_padding (length (b64_chars u n @ s)) = b64_padding (length s)"
  by (simp add: b64_padding_def)

lemma base64_encode_plain:
  "base64_encode_impl u s = b64_plain u s @ (if u then [] else b64_padding (length (b64_plain u s)))"
proof (induction u s rule: b64_plain.induct)
  case (1 u)
  then show ?case by (simp add: base64_encode_Nil b64_padding_def)
next
  case (2 u a)
  show ?case
    by (simp add: base64_encode_impl.simps [of u "[a]"] base64_encode_Nil b64_padding_def nat_shiftl
        nat_shiftr and_63 Let_def) (simp add: numeral_2_eq_2)
next
  case (3 u a b)
  then show ?case
    using b64_pack3 [of "uc a" "uc b" 0] b64_first [of "uc b" 0 "uc a"]
    by (simp add: base64_encode_impl.simps [of u "[a, b]"] base64_encode_Nil b64_padding_def
        nat_shiftr and_63 Let_def)
next
  case (4 u a b c s)
  have p: "push_bit 16 (uc a) div 262144 = (uc a * 65536 + uc b * 256 + uc c) div 262144"
    "(uc a * 65536 + uc b * 256) div 4096 = (uc a * 65536 + uc b * 256 + uc c) div 4096"
    using b64_first [of "uc b" "uc c" "uc a"] div_drop_low [of "uc c" 256 "uc a * 256 + uc b" 16]
      div_drop_low [of 0 256 "uc a * 256 + uc b" 16] by (simp_all add: algebra_simps)
  note p3 = b64_pack3 [of "uc a" "uc b" "uc c", simplified]
  have "base64_encode_impl u (a # b # c # s) =
      b64_chars u (uc a * 65536 + uc b * 256 + uc c) @ base64_encode_impl u s"
    by (subst base64_encode_impl.simps)
      (simp add: p3 nat_shiftr p and_63 Let_def)
  then show ?case using 4 length_plain_append by simp
qed

subsection \<open>Decoding\<close>

abbreviation b64_decode :: "bool \<Rightarrow> string \<Rightarrow> string result" where
  "b64_decode u \<equiv> do_base64_decode_impl (get_character_table u)"

lemma b64_decode_Nil: "b64_decode u [] = Inr []"
  by (simp add: do_base64_decode_impl.simps)

abbreviation b64_ok :: "bool \<Rightarrow> string \<Rightarrow> bool" where
  "b64_ok u s \<equiv> list_all (\<lambda>c. b64_value u c \<noteq> 64) s"

lemma base64_pack_error:
  "\<not> b64_ok u s \<Longrightarrow> base64_pack (get_character_table u) t c s = error_result ''Wrong character in the string''"
  by (induction s arbitrary: t c) (auto simp: b64_value_def Let_def)

lemma b64_table_value: "get_character_table u ! uc x = b64_value u x"
  by (simp add: b64_value_def)

lemma base64_pack_ok:
  "b64_value u a \<noteq> 64 \<Longrightarrow> b64_value u b \<noteq> 64 \<Longrightarrow> base64_pack (get_character_table u) 0 0 [a, b] =
     Inr (b64_value u a * 2 ^ 18 + b64_value u b * 2 ^ 12)"
  "b64_value u a \<noteq> 64 \<Longrightarrow> b64_value u b \<noteq> 64 \<Longrightarrow> b64_value u c \<noteq> 64 \<Longrightarrow>
   base64_pack (get_character_table u) 0 0 [a, b, c] =
     Inr (b64_value u a * 2 ^ 18 + b64_value u b * 2 ^ 12 + b64_value u c * 64)"
  "b64_value u a \<noteq> 64 \<Longrightarrow> b64_value u b \<noteq> 64 \<Longrightarrow> b64_value u c \<noteq> 64 \<Longrightarrow> b64_value u d \<noteq> 64 \<Longrightarrow>
   base64_pack (get_character_table u) 0 0 [a, b, c, d] =
     Inr (b64_value u a * 2 ^ 18 + b64_value u b * 2 ^ 12 + b64_value u c * 64 + b64_value u d)"
  by (simp_all only: base64_pack.simps b64_table_value Let_def if_False
      b64_pack4 [OF b64_value_less b64_value_less b64_value_less b64_value_less]
      b64_pack4 [of _ _ _ 0, OF b64_value_less b64_value_less b64_value_less]
      b64_pack4 [of _ _ 0 0, OF b64_value_less b64_value_less] zero_less_numeral not_False_eq_True)

text \<open>One step of the decoder on each shape of its input.\<close>

lemma mask_mod: "n AND (2 ^ k - 1) \<noteq> 0 \<longleftrightarrow> n mod 2 ^ k \<noteq> (0 :: nat)"
  by (simp only: nat_mask)

lemma b64_decode_error:
  assumes "s \<noteq> []" "\<not> b64_ok u (take (min (length s) 4) s)"
  shows "b64_decode u s = error_result ''Wrong character in the string''"
  unfolding do_base64_decode_impl.simps [of _ s] Let_def base64_pack_error [OF assms(2)] try_bind_simps
  using assms(1) by simp

lemma b64_decode_2:
  assumes "b64_value u a \<noteq> 64" "b64_value u b \<noteq> 64"
    "n = b64_value u a * 2 ^ 18 + b64_value u b * 2 ^ 12"
  shows "b64_decode u [a, b] =
     (if n mod 2 ^ 16 \<noteq> 0 then error_result ''Wrong padding in the string''
      else Inr [chr (n div 2 ^ 16 mod 256)])"
proof -
  have t: "take (min (length [a, b]) 4) [a, b] = [a, b]" by simp
  show ?thesis
    unfolding do_base64_decode_impl.simps [of _ "[a, b]"] t Let_def base64_pack_ok(1) [OF assms(1,2)]
      assms(3) [symmetric] try_bind_simps mask_mod nat_shiftr
    by (simp add: b64_decode_Nil)
qed

lemma b64_decode_3:
  assumes "b64_value u a \<noteq> 64" "b64_value u b \<noteq> 64" "b64_value u c \<noteq> 64"
    "n = b64_value u a * 2 ^ 18 + b64_value u b * 2 ^ 12 + b64_value u c * 64"
  shows "b64_decode u [a, b, c] =
     (if n mod 2 ^ 8 \<noteq> 0 then error_result ''Wrong padding in the string''
      else Inr [chr (n div 2 ^ 16 mod 256), chr (n div 2 ^ 8 mod 256)])"
proof -
  have t: "take (min (length [a, b, c]) 4) [a, b, c] = [a, b, c]" by simp
  show ?thesis
    unfolding do_base64_decode_impl.simps [of _ "[a, b, c]"] t Let_def base64_pack_ok(2) [OF assms(1-3)]
      assms(4) [symmetric] try_bind_simps mask_mod nat_shiftr
    by (simp add: b64_decode_Nil)
qed

lemma b64_decode_4:
  assumes "b64_value u a \<noteq> 64" "b64_value u b \<noteq> 64" "b64_value u c \<noteq> 64" "b64_value u d \<noteq> 64"
    "n = b64_value u a * 2 ^ 18 + b64_value u b * 2 ^ 12 + b64_value u c * 64 + b64_value u d"
  shows "b64_decode u (a # b # c # d # s) =
     try_bind (b64_decode u s) (\<lambda>r. Inr (chr (n div 2 ^ 16 mod 256) # chr (n div 2 ^ 8 mod 256) # chr (n mod 256) # r))"
proof -
  have t: "min (length (a # b # c # d # s)) 4 = 4" "take 4 (a # b # c # d # s) = [a, b, c, d]"
    "drop 4 (a # b # c # d # s) = s" by auto
  show ?thesis
    unfolding do_base64_decode_impl.simps [of _ "a # b # c # d # s"] t Let_def
      base64_pack_ok(3) [OF assms(1-4)] assms(5) [symmetric] try_bind_simps nat_shiftr
    by simp
qed

subsection \<open>Round trips\<close>

lemma b64_bytes:
  assumes "n < 2 ^ 24"
  shows "n div 2 ^ 16 mod 256 * 65536 + n div 2 ^ 8 mod 256 * 256 + n mod 256 = (n :: nat)"
    "n div 2 ^ 18 < 64" "n div 2 ^ 12 mod 64 < 64" "n div 64 mod 64 < 64" "n mod 64 < 64"
    "n div 2 ^ 18 * 2 ^ 18 + n div 2 ^ 12 mod 64 * 2 ^ 12 + n div 64 mod 64 * 64 + n mod 64 = n"
proof -
  have "n div 65536 < 256" using assms by simp
  then have q: "n div 65536 mod 256 = n div 65536" by simp
  have "n div 256 = n div 65536 * 256 + n div 256 mod 256"
    using div_mult_mod_eq [of "n div 256" 256] by (simp add: div_mult2_eq [symmetric])
  then have r: "n div 65536 mod 256 * 65536 + n div 256 mod 256 * 256 + n mod 256 = n"
    unfolding q using div_mult_mod_eq [of n 256] by linarith
  have p: "(2::nat) ^ 16 = 65536" "(2::nat) ^ 8 = 256" by simp_all
  show "n div 2 ^ 16 mod 256 * 65536 + n div 2 ^ 8 mod 256 * 256 + n mod 256 = n"
    unfolding p by (rule r)
  show v: "n div 2 ^ 18 < 64" using assms by simp
  have "n div 4096 = n div 262144 * 64 + n div 4096 mod 64"
    using div_mult_mod_eq [of "n div 4096" 64] by (simp add: div_mult2_eq [symmetric])
  moreover have "n div 64 = n div 4096 * 64 + n div 64 mod 64"
    using div_mult_mod_eq [of "n div 64" 64] by (simp add: div_mult2_eq [symmetric])
  ultimately have "n div 262144 * 262144 + n div 4096 mod 64 * 4096 + n div 64 mod 64 * 64 + n mod 64 = n"
    using div_mult_mod_eq [of n 64] by linarith
  then show "n div 2 ^ 18 * 2 ^ 18 + n div 2 ^ 12 mod 64 * 2 ^ 12 + n div 64 mod 64 * 64 + n mod 64 = n" by simp
qed simp_all

lemma b64_values_sum:
  assumes "v0 < 64" "v1 < 64" "v2 < 64" "v3 < (64 :: nat)"
    "n = v0 * 2 ^ 18 + v1 * 2 ^ 12 + v2 * 64 + v3"
  shows "n < 2 ^ 24" "n div 2 ^ 18 = v0" "n div 2 ^ 12 mod 64 = v1" "n div 64 mod 64 = v2" "n mod 64 = v3"
proof -
  have n: "n = ((v0 * 64 + v1) * 64 + v2) * 64 + v3" using assms(5) by simp
  have 1: "n div 64 = (v0 * 64 + v1) * 64 + v2" "n mod 64 = v3"
    unfolding n by (rule div_low [OF assms(4)], rule mod_low [OF assms(4)])
  have 2: "(n div 64) div 64 = v0 * 64 + v1" "(n div 64) mod 64 = v2"
    unfolding 1 by (rule div_low [OF assms(3)], rule mod_low [OF assms(3)])
  have 3: "(n div 64) div 64 div 64 = v0" "(n div 64) div 64 mod 64 = v1"
    unfolding 2 by (rule div_low [OF assms(2)], rule mod_low [OF assms(2)])
  show "n mod 64 = v3" "n div 64 mod 64 = v2" using 1 2 by simp_all
  show "n div 2 ^ 12 mod 64 = v1" "n div 2 ^ 18 = v0"
    using 3 by (simp_all add: div_mult2_eq [symmetric])
  show "n < 2 ^ 24" using assms by simp
qed

lemma mod_64_neq: "n mod 64 \<noteq> (64 :: nat)"
  using mod_less_divisor [of 64 n] by simp

lemma b64_decode_plain: "b64_decode u (b64_plain u s) = Inr s"
proof (induction u s rule: b64_plain.induct)
  case (1 u)
  then show ?case by (simp add: b64_decode_Nil)
next
  case (2 u a)
  define n where "n = uc a * 65536"
  have n: "n < 2 ^ 24" using uc_bound [of a] by (simp add: n_def)
  note b = b64_bytes [OF n]
  have m: "n div 64 mod 64 = 0" "n mod 64 = 0" "n mod 2 ^ 16 = 0" "n div 2 ^ 16 mod 256 = uc a"
    by (simp_all add: n_def)
  have "b64_decode u [get_characters u ! (n div 2 ^ 18), get_characters u ! (n div 2 ^ 12 mod 64)] =
      (if n mod 2 ^ 16 \<noteq> 0 then error_result ''Wrong padding in the string''
       else Inr [chr (n div 2 ^ 16 mod 256)])"
  proof (rule b64_decode_2)
    have v: "b64_value u (get_characters u ! (n div 2 ^ 18)) = n div 2 ^ 18"
      "b64_value u (get_characters u ! (n div 2 ^ 12 mod 64)) = n div 2 ^ 12 mod 64"
      by (rule b64_value_char [OF b(2)], rule b64_value_char [OF b(3)])
    show "b64_value u (get_characters u ! (n div 2 ^ 18)) \<noteq> 64"
      "b64_value u (get_characters u ! (n div 2 ^ 12 mod 64)) \<noteq> 64"
      unfolding v by (rule less_imp_neq [OF b(2)], rule mod_64_neq)
    show "n = b64_value u (get_characters u ! (n div 2 ^ 18)) * 2 ^ 18 +
        b64_value u (get_characters u ! (n div 2 ^ 12 mod 64)) * 2 ^ 12"
      unfolding v using b(6) unfolding m(1,2) mult_0 add_0_right by (rule sym)
  qed
  then show ?case unfolding m by (simp add: n_def)
next
  case (3 u a b)
  define n where "n = uc a * 65536 + uc b * 256"
  have "n < 16777216" unfolding n_def using uc_bound [of a] uc_bound [of b] by linarith
  then have n: "n < 2 ^ 24" by simp
  note b = b64_bytes [OF n]
  have m: "n mod 64 = 0" "n mod 2 ^ 8 = 0"
    by (simp_all add: n_def mod_add_eq [symmetric])
  have d: "n div 2 ^ 8 = uc a * 256 + uc b" "n div 2 ^ 16 = uc a"
    using div_drop_low [of 0 256 "uc a * 256 + uc b" 1] div_drop_low [of "uc b * 256" 65536 "uc a" 1] uc_bound [of b]
    by (simp_all add: n_def algebra_simps)
  have "b64_decode u [get_characters u ! (n div 2 ^ 18), get_characters u ! (n div 2 ^ 12 mod 64),
      get_characters u ! (n div 64 mod 64)] =
      (if n mod 2 ^ 8 \<noteq> 0 then error_result ''Wrong padding in the string''
       else Inr [chr (n div 2 ^ 16 mod 256), chr (n div 2 ^ 8 mod 256)])"
  proof (rule b64_decode_3)
    have v: "b64_value u (get_characters u ! (n div 2 ^ 18)) = n div 2 ^ 18"
      "b64_value u (get_characters u ! (n div 2 ^ 12 mod 64)) = n div 2 ^ 12 mod 64"
      "b64_value u (get_characters u ! (n div 64 mod 64)) = n div 64 mod 64"
      by (rule b64_value_char [OF b(2)], rule b64_value_char [OF b(3)], rule b64_value_char [OF b(4)])
    show "b64_value u (get_characters u ! (n div 2 ^ 18)) \<noteq> 64"
      "b64_value u (get_characters u ! (n div 2 ^ 12 mod 64)) \<noteq> 64"
      "b64_value u (get_characters u ! (n div 64 mod 64)) \<noteq> 64"
      unfolding v by (rule less_imp_neq [OF b(2)], rule mod_64_neq, rule mod_64_neq)
    show "n = b64_value u (get_characters u ! (n div 2 ^ 18)) * 2 ^ 18 +
        b64_value u (get_characters u ! (n div 2 ^ 12 mod 64)) * 2 ^ 12 +
        b64_value u (get_characters u ! (n div 64 mod 64)) * 64"
      unfolding v using b(6) unfolding m(1) add_0_right by (rule sym)
  qed
  then show ?case unfolding m d by (simp add: n_def)
next
  case (4 u a b c s)
  define n where "n = uc a * 65536 + uc b * 256 + uc c"
  have "n < 16777216" unfolding n_def using uc_bound [of a] uc_bound [of b] uc_bound [of c] by linarith
  then have n: "n < 2 ^ 24" by simp
  note b = b64_bytes [OF n]
  have n1: "n = (uc a * 256 + uc b) * 256 + uc c" "n = uc a * 65536 + (uc b * 256 + uc c)"
    by (simp_all add: n_def)
  have "uc b * 256 + uc c < 65536" using uc_bound [of b] uc_bound [of c] by linarith
  then have d65536: "n div 65536 = uc a" unfolding n1(2) by (rule div_low)
  have d256: "n mod 256 = uc c" "n div 256 = uc a * 256 + uc b"
    unfolding n1(1) by (rule mod_low, rule uc_bound) (rule div_low, rule uc_bound)
  have d: "n mod 256 = uc c" "n div 2 ^ 8 = uc a * 256 + uc b" "n div 2 ^ 16 = uc a"
    using d65536 d256 by simp_all
  have "b64_decode u (get_characters u ! (n div 2 ^ 18) # get_characters u ! (n div 2 ^ 12 mod 64) #
      get_characters u ! (n div 64 mod 64) # get_characters u ! (n mod 64) # b64_plain u s) =
      try_bind (b64_decode u (b64_plain u s))
        (\<lambda>r. Inr (chr (n div 2 ^ 16 mod 256) # chr (n div 2 ^ 8 mod 256) # chr (n mod 256) # r))"
  proof (rule b64_decode_4)
    have v: "b64_value u (get_characters u ! (n div 2 ^ 18)) = n div 2 ^ 18"
      "b64_value u (get_characters u ! (n div 2 ^ 12 mod 64)) = n div 2 ^ 12 mod 64"
      "b64_value u (get_characters u ! (n div 64 mod 64)) = n div 64 mod 64"
      "b64_value u (get_characters u ! (n mod 64)) = n mod 64"
      by (rule b64_value_char [OF b(2)], rule b64_value_char [OF b(3)], rule b64_value_char [OF b(4)],
          rule b64_value_char [OF b(5)])
    show "b64_value u (get_characters u ! (n div 2 ^ 18)) \<noteq> 64"
      "b64_value u (get_characters u ! (n div 2 ^ 12 mod 64)) \<noteq> 64"
      "b64_value u (get_characters u ! (n div 64 mod 64)) \<noteq> 64"
      "b64_value u (get_characters u ! (n mod 64)) \<noteq> 64"
      unfolding v by (rule less_imp_neq [OF b(2)], (rule mod_64_neq)+)
    show "n = b64_value u (get_characters u ! (n div 2 ^ 18)) * 2 ^ 18 +
        b64_value u (get_characters u ! (n div 2 ^ 12 mod 64)) * 2 ^ 12 +
        b64_value u (get_characters u ! (n div 64 mod 64)) * 64 + b64_value u (get_characters u ! (n mod 64))"
      unfolding v using b(6) by (rule sym)
  qed
  then show ?case unfolding 4 d by (simp add: n_def)
qed

lemma b64_shape:
  assumes "b \<noteq> []" "length b mod 4 \<noteq> 1"
  obtains c0 c1 where "b = [c0, c1]" | c0 c1 c2 where "b = [c0, c1, c2]"
    | c0 c1 c2 c3 s where "b = c0 # c1 # c2 # c3 # s"
proof -
  obtain c0 t0 where b0: "b = c0 # t0" using assms(1) by (cases b) auto
  with assms(2) have "t0 \<noteq> []" by auto
  then obtain c1 t1 where b1: "t0 = c1 # t1" by (cases t0) auto
  show thesis
  proof (cases t1)
    case Nil
    then show thesis using that(1) b0 b1 by blast
  next
    case (Cons c2 t2)
    then show thesis using that(2,3) b0 b1 by (cases t2) blast+
  qed
qed

text \<open>Conversely, what is decoded is the encoding of the result: there is no second text for the
  same bytes.\<close>

lemma b64_plain_decode:
  "b64_decode u b = Inr r \<Longrightarrow> length b mod 4 \<noteq> 1 \<Longrightarrow> b = b64_plain u r"
proof (induction "length b" arbitrary: b r rule: less_induct)
  case less
  show ?case
  proof (cases "b = []")
    case True
    then show ?thesis using less.prems by (simp add: b64_decode_Nil)
  next
    case ne: False
    then have ok: "b64_ok u (take (min (length b) 4) b)"
      using b64_decode_error [OF ne] less.prems(1) by (metis sum.distinct(1))
    show ?thesis
      using ne less.prems(2)
    proof (cases rule: b64_shape)
      case (1 c0 c1)
      define n where "n = b64_value u c0 * 2 ^ 18 + b64_value u c1 * 2 ^ 12"
      have v: "b64_value u c0 \<noteq> 64" "b64_value u c1 \<noteq> 64" using ok 1 by auto
      have r: "n mod 2 ^ 16 = 0" "r = [chr (n div 2 ^ 16 mod 256)]"
        using less.prems(1) b64_decode_2 [OF v n_def] by (auto simp: 1 split: if_splits)
      have "n = b64_value u c0 * 2 ^ 18 + b64_value u c1 * 2 ^ 12 + 0 * 64 + 0"
        by (simp only: n_def add_0_right mult_0)
      note n = b64_values_sum [OF v [THEN b64_value_less] zero_less_numeral zero_less_numeral this]
      have "n div 2 ^ 16 < 256" using n(1) by simp
      then have u: "uc (chr (n div 2 ^ 16 mod 256)) * 65536 = n"
        using r(1) div_mult_mod_eq [of n 65536] by simp
      show ?thesis unfolding 1 r(2) b64_plain.simps u n using v by (simp add: b64_char_value)
    next
      case (2 c0 c1 c2)
      define n where "n = b64_value u c0 * 2 ^ 18 + b64_value u c1 * 2 ^ 12 + b64_value u c2 * 64"
      have v: "b64_value u c0 \<noteq> 64" "b64_value u c1 \<noteq> 64" "b64_value u c2 \<noteq> 64" using ok 2 by auto
      have r: "n mod 2 ^ 8 = 0" "r = [chr (n div 2 ^ 16 mod 256), chr (n div 2 ^ 8 mod 256)]"
        using less.prems(1) b64_decode_3 [OF v n_def] by (auto simp: 2 split: if_splits)
      have "n = b64_value u c0 * 2 ^ 18 + b64_value u c1 * 2 ^ 12 + b64_value u c2 * 64 + 0"
        by (simp only: n_def add_0_right)
      note n = b64_values_sum [OF v [THEN b64_value_less] zero_less_numeral this]
      have u: "uc (chr (n div 2 ^ 16 mod 256)) * 65536 + uc (chr (n div 2 ^ 8 mod 256)) * 256 = n"
      proof -
        have "uc (chr (n div 2 ^ 16 mod 256)) = n div 2 ^ 16 mod 256" "uc (chr (n div 2 ^ 8 mod 256)) = n div 2 ^ 8 mod 256"
          by (rule uc_chr, simp)+
        moreover have "n mod 256 = 0" using r(1) by simp
        ultimately show ?thesis using b64_bytes(1) [OF n(1)] by (simp only: add_0_right)
      qed
      show ?thesis unfolding 2 r(2) b64_plain.simps u n using v by (simp add: b64_char_value)
    next
      case (3 c0 c1 c2 c3 s)
      define n where "n = b64_value u c0 * 2 ^ 18 + b64_value u c1 * 2 ^ 12 + b64_value u c2 * 64 + b64_value u c3"
      have v: "b64_value u c0 \<noteq> 64" "b64_value u c1 \<noteq> 64" "b64_value u c2 \<noteq> 64" "b64_value u c3 \<noteq> 64"
        using ok 3 by auto
      obtain q where q: "b64_decode u s = Inr q"
        "r = chr (n div 2 ^ 16 mod 256) # chr (n div 2 ^ 8 mod 256) # chr (n mod 256) # q"
        using less.prems(1) b64_decode_4 [OF v n_def, of s] by (auto simp: 3 try_bind_Inr_iff)
      have s: "s = b64_plain u q"
        by (rule less.hyps [OF _ q(1)]) (use less.prems(2) 3 in auto)
      have n: "n < 2 ^ 24" "n div 2 ^ 18 = b64_value u c0" "n div 2 ^ 12 mod 64 = b64_value u c1"
        "n div 64 mod 64 = b64_value u c2" "n mod 64 = b64_value u c3"
        by (rule b64_values_sum [OF v [THEN b64_value_less] n_def])+
      have u: "uc (chr (n div 2 ^ 16 mod 256)) * 65536 + uc (chr (n div 2 ^ 8 mod 256)) * 256 +
          uc (chr (n mod 256)) = n"
      proof -
        have "uc (chr (n div 2 ^ 16 mod 256)) = n div 2 ^ 16 mod 256" "uc (chr (n div 2 ^ 8 mod 256)) = n div 2 ^ 8 mod 256"
          "uc (chr (n mod 256)) = n mod 256" by (rule uc_chr, simp)+
        then show ?thesis using b64_bytes(1) [OF n(1)] by (simp only:)
      qed
      show ?thesis unfolding 3 q(2) b64_plain.simps u n s [symmetric] using v by (simp add: b64_char_value)
    qed
  qed
qed

lemma length_b64_plain:
  "length (b64_plain u s) mod 4 \<noteq> 1 \<and> base64_decoded_size (length (b64_plain u s)) = length s"
proof (induction u s rule: b64_plain.induct)
  case (4 u a b c s)
  have "base64_decoded_size (length (b64_plain u s) + 4) = base64_decoded_size (length (b64_plain u s)) + 3"
    unfolding base64_decoded_size_def using div_add_self2 [of 4 "length (b64_plain u s)"] by simp
  moreover have "length (b64_plain u (a # b # c # s)) = length (b64_plain u s) + 4" by simp
  ultimately show ?case using 4 by (simp del: b64_plain.simps)
qed (simp_all add: base64_decoded_size_def)

lemma b64_plain_ok: "b64_ok u (b64_plain u s)"
proof (induction u s rule: b64_plain.induct)
  case (2 u a)
  have "uc a div 4 < 64" using uc_bound [of a] by linarith
  then show ?case by (simp add: b64_value_char mod_64_neq)
next
  case (3 u a b)
  have "uc a * 65536 + uc b * 256 < 16777216" using uc_bound [of a] uc_bound [of b] by linarith
  then have "(uc a * 65536 + uc b * 256) div 2 ^ 18 < 64" by simp
  then show ?case by (simp add: b64_value_char mod_64_neq)
next
  case (4 u a b c s)
  have "uc a * 65536 + uc b * 256 + uc c < 16777216"
    using uc_bound [of a] uc_bound [of b] uc_bound [of c] by linarith
  then have "(uc a * 65536 + uc b * 256 + uc c) div 2 ^ 18 < 64" by simp
  with 4 show ?case by (simp add: b64_value_char mod_64_neq)
qed simp

lemma b64_ok_no_pad: "b64_ok u s \<Longrightarrow> s = [] \<or> last s \<noteq> CHR ''=''"
  using b64_no_pad [of u] by (cases s rule: rev_cases) auto

lemma replicate_pad: "list_all (\<lambda>c. c = x) ys \<Longrightarrow> ys = replicate (length ys) x"
  by (induction ys) auto

lemma drop_padding_iff:
  "base64_drop_padding u s = Inr b \<longleftrightarrow>
   (\<exists>k<3. s = b @ replicate k (CHR ''='') \<and> (b = [] \<or> last b \<noteq> CHR ''='') \<and>
      (\<not> u \<or> 0 < k \<longrightarrow> (length b + k) mod 4 = 0) \<and> (u \<longrightarrow> length b mod 4 \<noteq> 1))"
proof
  assume r: "base64_drop_padding u s = Inr b"
  have b: "b = drop_back_while (\<lambda>c. c = CHR ''='') s"
    using r by (simp add: base64_drop_padding_def Let_def split: if_splits)
  obtain ys where ys: "s = b @ ys" "list_all (\<lambda>c. c = CHR ''='') ys"
    using drop_back_while_decomp [of s "\<lambda>c. c = CHR ''=''"] b by blast
  have l: "length s - length b = length ys" using ys by simp
  have c: "b = [] \<or> last b \<noteq> CHR ''=''"
    using drop_back_while_last [of "\<lambda>c. c = CHR ''=''" s] b by auto
  have m: "length ys < 3" "\<not> u \<or> 0 < length ys \<longrightarrow> (length b + length ys) mod 4 = 0" "u \<longrightarrow> length b mod 4 \<noteq> 1"
    using r unfolding base64_drop_padding_def Let_def b [symmetric] l by (auto split: if_splits)
  have sy: "s = b @ replicate (length ys) (CHR ''='')"
    using replicate_pad [OF ys(2)] ys(1) by metis
  show "\<exists>k<3. s = b @ replicate k (CHR ''='') \<and> (b = [] \<or> last b \<noteq> CHR ''='') \<and>
      (\<not> u \<or> 0 < k \<longrightarrow> (length b + k) mod 4 = 0) \<and> (u \<longrightarrow> length b mod 4 \<noteq> 1)"
    by (intro exI [of _ "length ys"] conjI) (rule m(1) sy c m(2) m(3))+
next
  assume "\<exists>k<3. s = b @ replicate k (CHR ''='') \<and> (b = [] \<or> last b \<noteq> CHR ''='') \<and>
      (\<not> u \<or> 0 < k \<longrightarrow> (length b + k) mod 4 = 0) \<and> (u \<longrightarrow> length b mod 4 \<noteq> 1)"
  then obtain k where k: "k < 3" "s = b @ replicate k (CHR ''='')" "b = [] \<or> last b \<noteq> CHR ''=''"
    "\<not> u \<or> 0 < k \<longrightarrow> (length b + k) mod 4 = 0" "u \<longrightarrow> length b mod 4 \<noteq> 1"
    by (elim exE conjE) (rule that)
  have "drop_back_while (\<lambda>c. c = CHR ''='') s = b"
    unfolding k(2) by (rule drop_back_while_replicate [OF k(3)])
  with k show "base64_drop_padding u s = Inr b" by (auto simp: base64_drop_padding_def Let_def)
qed

lemma drop_padding_mod: "base64_drop_padding u s = Inr b \<Longrightarrow> length b mod 4 \<noteq> 1"
proof -
  assume "base64_drop_padding u s = Inr b"
  then obtain k where k: "k < 3" "\<not> u \<or> 0 < k \<longrightarrow> (length b + k) mod 4 = 0" "u \<longrightarrow> length b mod 4 \<noteq> 1"
    by (auto simp: drop_padding_iff)
  show ?thesis
  proof (cases u)
    case False
    with k have 4: "(length b + k) mod 4 = 0" by simp
    show ?thesis
    proof
      assume "length b mod 4 = 1"
      then have "(length b + k) mod 4 = (1 + k) mod 4" by (metis mod_add_left_eq)
      with 4 k(1) show False by simp
    qed
  qed (use k in simp)
qed

lemma base64_decode_iff:
  "base64_decode_impl u s = Some (Inr r) \<longleftrightarrow> base64_drop_padding u s = Inr (b64_plain u r)"
proof
  assume d: "base64_decode_impl u s = Some (Inr r)"
  then obtain b where b: "base64_drop_padding u s = Inr b"
    by (auto simp: base64_decode_impl_def split: sum.splits)
  with d obtain out where out: "b64_decode u b = Inr out"
    "r = out @ replicate (base64_decoded_size (length b) - length out) (chr 0)"
    by (auto simp: base64_decode_impl_def split: sum.splits if_splits)
  have "b = b64_plain u out" by (rule b64_plain_decode [OF out(1) drop_padding_mod [OF b]])
  with out(2) b length_b64_plain [of u out] show "base64_drop_padding u s = Inr (b64_plain u r)" by simp
next
  assume "base64_drop_padding u s = Inr (b64_plain u r)"
  then show "base64_decode_impl u s = Some (Inr r)"
    by (simp add: base64_decode_impl_def b64_decode_plain length_b64_plain)
qed

subsection \<open>Properties\<close>

lemma b64_padding_less: "length s mod 4 \<noteq> 1 \<Longrightarrow> (4 - length s mod 4) mod 4 < 3 \<and>
    (length s + (4 - length s mod 4) mod 4) mod 4 = 0"
proof -
  assume "length s mod 4 \<noteq> 1"
  moreover have "length s mod 4 < 4" by simp
  ultimately consider "length s mod 4 = 0" | "length s mod 4 = 2" | "length s mod 4 = 3" by linarith
  then show ?thesis
  proof cases
    case 2
    then have "(length s + 2) mod 4 = (2 + 2) mod 4" by (metis mod_add_left_eq)
    with 2 show ?thesis by simp
  next
    case 3
    then have "(length s + 1) mod 4 = (3 + 1) mod 4" by (metis mod_add_left_eq)
    with 3 show ?thesis by simp
  qed simp
qed

lemma b64_padding_unique:
  fixes n :: nat
  assumes "k < 3" "(n + k) mod 4 = 0"
  shows "(4 - n mod 4) mod 4 = k"
proof -
  have "(n mod 4 + k) mod 4 = 0" using assms(2) by (simp add: mod_add_left_eq)
  then obtain q where q: "n mod 4 + k = 4 * q" by (auto simp: mod_eq_0_iff_dvd elim: dvdE)
  have "n mod 4 < 4" by simp
  with q assms(1) have "q = 0 \<or> q = 1" by linarith
  with q assms(1) show ?thesis by auto
qed

lemma base64_drop_padding_plain:
  "base64_drop_padding u s = Inr (b64_plain u r) \<longleftrightarrow>
   s = b64_plain u r @ b64_padding (length (b64_plain u r)) \<or> (u \<and> s = b64_plain u r)"
proof
  assume "base64_drop_padding u s = Inr (b64_plain u r)"
  then obtain k where k: "k < 3" "s = b64_plain u r @ replicate k (CHR ''='')"
    "\<not> u \<or> 0 < k \<longrightarrow> (length (b64_plain u r) + k) mod 4 = 0" by (auto simp: drop_padding_iff)
  show "s = b64_plain u r @ b64_padding (length (b64_plain u r)) \<or> (u \<and> s = b64_plain u r)"
  proof (cases "u \<and> k = 0")
    case False
    with k have "(4 - length (b64_plain u r) mod 4) mod 4 = k" by (intro b64_padding_unique) auto
    then show ?thesis using k(2) by (simp add: b64_padding_def)
  qed (use k in simp)
next
  note l = length_b64_plain [of u r, THEN conjunct1]
  note p = b64_padding_less [OF l]
  note ok = b64_ok_no_pad [OF b64_plain_ok [of u r]]
  assume "s = b64_plain u r @ b64_padding (length (b64_plain u r)) \<or> (u \<and> s = b64_plain u r)"
  then show "base64_drop_padding u s = Inr (b64_plain u r)"
  proof
    assume "s = b64_plain u r @ b64_padding (length (b64_plain u r))"
    then show ?thesis unfolding drop_padding_iff b64_padding_def
      by (intro exI [of _ "(4 - length (b64_plain u r) mod 4) mod 4"] conjI impI)
        (use p l ok in \<open>simp_all only: simp_thms\<close>)
  next
    assume "u \<and> s = b64_plain u r"
    then show ?thesis unfolding drop_padding_iff using l ok by (intro exI [of _ 0]) auto
  qed
qed

text \<open>C19: base64 decoding accepts exactly the encodings, and gives back what was encoded:
  wrong lengths, wrong padding, characters outside of the alphabet and non-zero padding bits are
  all refused.\<close>

theorem base64_decode_iff_encode:
  "base64_decode_impl False s = Some (Inr r) \<longleftrightarrow> s = base64_encode_impl False r"
  by (simp add: base64_decode_iff base64_drop_padding_plain base64_encode_plain)

text \<open>base64url decoding accepts exactly the encodings, with the padding left out or
  complete.\<close>

theorem base64url_decode_iff_encode:
  "base64_decode_impl True s = Some (Inr r) \<longleftrightarrow>
   s \<in> {base64_encode_impl True r,
        base64_encode_impl True r @ b64_padding (length (base64_encode_impl True r))}"
  by (auto simp: base64_decode_iff base64_drop_padding_plain base64_encode_plain)

text \<open>The decoder's buffer is large enough.\<close>

lemma base64_decode_in_bounds: "base64_decode_impl u s \<noteq> None"
proof (cases "base64_drop_padding u s")
  case (Inr b)
  show ?thesis
  proof (cases "b64_decode u b")
    case (Inr out)
    have "b = b64_plain u out"
      by (rule b64_plain_decode [OF Inr drop_padding_mod [OF \<open>base64_drop_padding u s = Inr b\<close>]])
    then have "base64_decoded_size (length b) = length out" by (simp add: length_b64_plain)
    then show ?thesis using Inr \<open>base64_drop_padding u s = Inr b\<close> by (simp add: base64_decode_impl_def)
  qed (use Inr in \<open>simp add: base64_decode_impl_def\<close>)
qed (simp add: base64_decode_impl_def)

subsection \<open>Recognising base64\<close>

lemma low_bits_2: "(v0 * 2 ^ 18 + v1 * 2 ^ 12) mod 2 ^ 16 = (v1 mod 16) * (4096 :: nat)"
proof -
  have e: "v0 * 2 ^ 18 + v1 * 2 ^ 12 = (v0 * 4 * 16 + v1) * (4096 :: nat)" "2 ^ 16 = 16 * (4096 :: nat)"
    by (simp_all add: distrib_right)
  have "(v0 * 4 * 16 + v1) mod 16 = v1 mod 16" by (rule mod_mult_self3)
  then show ?thesis unfolding e mult_mod_left [symmetric] by simp
qed

lemma low_bits_3: "(v0 * 2 ^ 18 + v1 * 2 ^ 12 + v2 * 64) mod 2 ^ 8 = (v2 mod 4) * (64 :: nat)"
proof -
  have e: "v0 * 2 ^ 18 + v1 * 2 ^ 12 + v2 * 64 = ((v0 * 1024 + v1 * 16) * 4 + v2) * (64 :: nat)" "2 ^ 8 = 4 * (64 :: nat)"
    by (simp_all add: distrib_right)
  have "((v0 * 1024 + v1 * 16) * 4 + v2) mod 4 = v2 mod 4" by (rule mod_mult_self3)
  then show ?thesis unfolding e mult_mod_left [symmetric] by simp
qed

definition b64_tail_ok :: "bool \<Rightarrow> string \<Rightarrow> bool" where
  "b64_tail_ok u b \<longleftrightarrow>
     (length b mod 4 = 2 \<longrightarrow> b64_value u (last b) mod 16 = 0) \<and>
     (length b mod 4 = 3 \<longrightarrow> b64_value u (last b) mod 4 = 0)"

lemma b64_tail_ok_4: "b64_tail_ok u (c0 # c1 # c2 # c3 # s) = b64_tail_ok u s"
proof -
  have "length (c0 # c1 # c2 # c3 # s) mod 4 = length s mod 4"
    using mod_add_self2 [of "length s" 4] by simp
  moreover have "s \<noteq> [] \<Longrightarrow> last (c0 # c1 # c2 # c3 # s) = last s" by simp
  ultimately show ?thesis by (cases "s = []") (simp_all only: b64_tail_ok_def, simp_all)
qed

lemma b64_decode_succeeds_iff:
  "length b mod 4 \<noteq> 1 \<Longrightarrow> (\<exists>r. b64_decode u b = Inr r) \<longleftrightarrow> b64_ok u b \<and> b64_tail_ok u b"
proof (induction "length b" arbitrary: b rule: less_induct)
  case less
  show ?case
  proof (cases "b = []")
    case True
    then show ?thesis by (simp add: b64_decode_Nil b64_tail_ok_def)
  next
    case ne: False
    show ?thesis
    proof (cases "b64_ok u (take (min (length b) 4) b)")
      case False
      then have "\<not> b64_ok u b" by (auto simp: list_all_iff dest: in_set_takeD)
      with b64_decode_error [OF ne False] show ?thesis by simp
    next
      case ok: True
      from ne less.prems show ?thesis
      proof (cases rule: b64_shape)
        case (1 c0 c1)
        then have v: "b64_value u c0 \<noteq> 64" "b64_value u c1 \<noteq> 64" using ok by auto
        show ?thesis using v unfolding 1 b64_decode_2 [OF v refl] low_bits_2 by (simp add: b64_tail_ok_def)
      next
        case (2 c0 c1 c2)
        then have v: "b64_value u c0 \<noteq> 64" "b64_value u c1 \<noteq> 64" "b64_value u c2 \<noteq> 64" using ok by auto
        show ?thesis using v unfolding 2 b64_decode_3 [OF v refl] low_bits_3 by (simp add: b64_tail_ok_def)
      next
        case (3 c0 c1 c2 c3 s)
        then have v: "b64_value u c0 \<noteq> 64" "b64_value u c1 \<noteq> 64" "b64_value u c2 \<noteq> 64" "b64_value u c3 \<noteq> 64"
          using ok by auto
        have "(\<exists>r. b64_decode u s = Inr r) \<longleftrightarrow> b64_ok u s \<and> b64_tail_ok u s"
          by (rule less.hyps) (use less.prems 3 in auto)
        then show ?thesis
          using v unfolding 3 b64_decode_4 [OF v refl] b64_tail_ok_4 by (auto simp: try_bind_Inr_iff)
      qed
    qed
  qed
qed

lemma and_15_3: "n AND 15 = n mod (16 :: nat)" "n AND 3 = n mod (4 :: nat)"
  using nat_mask [of n 4] nat_mask [of n 2] by simp_all

lemma ex_conj3: "(\<exists>x. (a \<and> b \<and> c \<and> y = x) \<and> P x \<and> Q x) \<longleftrightarrow> a \<and> b \<and> c \<and> P y \<and> Q y"
  by blast

lemma if_chain6: "(if a then False else if b then False else if c then False else if \<not> d then False
    else if e then False else if f then False else True) \<longleftrightarrow> \<not> a \<and> \<not> b \<and> \<not> c \<and> d \<and> \<not> e \<and> \<not> f"
  by simp

lemma is_base64_drop_padding:
  "is_base64_impl u s \<longleftrightarrow>
   (\<exists>b. base64_drop_padding u s = Inr b \<and> b64_ok u b \<and> b64_tail_ok u b)"
proof -
  define b where "b = drop_back_while (\<lambda>c. c = CHR ''='') s"
  let ?p = "length s - length b"
  have i: "is_base64_impl u s \<longleftrightarrow> \<not> ?p \<ge> 3 \<and> \<not> ((\<not> u \<or> ?p > 0) \<and> (length b + ?p) mod 4 \<noteq> 0) \<and>
      \<not> (u \<and> length b mod 4 = 1) \<and> b64_ok u b \<and> b64_tail_ok u b"
    unfolding is_base64_impl_def Let_def b_def [symmetric] b64_table_value b64_tail_ok_def and_15_3
    unfolding if_chain6 by (simp only: de_Morgan_conj not_not imp_conv_disj)
  have d: "base64_drop_padding u s = Inr x \<longleftrightarrow> \<not> ?p \<ge> 3 \<and>
      \<not> ((\<not> u \<or> ?p > 0) \<and> (length b + ?p) mod 4 \<noteq> 0) \<and> \<not> (u \<and> length b mod 4 = 1) \<and> b = x" for x
    unfolding base64_drop_padding_def Let_def b_def [symmetric] by (simp only: split: if_split) simp
  show ?thesis unfolding i d ex_conj3 ..
qed

text \<open>\<^verbatim>\<open>is_base64\<close> and \<^verbatim>\<open>is_base64url\<close>, which never build
  the result, accept exactly the strings that decode, and the decoder, which writes into a buffer
  of a size computed in advance, always fills it exactly.\<close>

theorem is_base64_iff_decodes:
  "(is_base64_impl u s \<longleftrightarrow> (\<exists>r. base64_decode_impl u s = Some (Inr r))) \<and>
   (\<exists>r. base64_decode_impl u s = Some r)"
proof -
  have "(\<exists>r. base64_decode_impl u s = Some (Inr r)) \<longleftrightarrow>
      (\<exists>b. base64_drop_padding u s = Inr b \<and> (\<exists>r. b64_decode u b = Inr r))"
  proof
    assume "\<exists>r. base64_decode_impl u s = Some (Inr r)"
    then show "\<exists>b. base64_drop_padding u s = Inr b \<and> (\<exists>r. b64_decode u b = Inr r)"
      using b64_decode_plain by (auto simp: base64_decode_iff)
  next
    assume "\<exists>b. base64_drop_padding u s = Inr b \<and> (\<exists>r. b64_decode u b = Inr r)"
    then obtain b r where b: "base64_drop_padding u s = Inr b" "b64_decode u b = Inr r" by blast
    from b64_plain_decode [OF b(2) drop_padding_mod [OF b(1)]] b(1)
    show "\<exists>r. base64_decode_impl u s = Some (Inr r)" by (auto simp: base64_decode_iff)
  qed
  also have "\<dots> \<longleftrightarrow> is_base64_impl u s"
    unfolding is_base64_drop_padding using b64_decode_succeeds_iff drop_padding_mod by blast
  finally show ?thesis using base64_decode_in_bounds [of u s] by blast
qed

section \<open>Base32\<close>

definition get_base32_characters :: "bool \<Rightarrow> string" where
  "get_base32_characters upper_case =
     (if upper_case then ''ABCDEFGHIJKLMNOPQRSTUVWXYZ234567'' else ''abcdefghijklmnopqrstuvwxyz234567'')"

definition get_base32_character_table :: "nat list" where
  "get_base32_character_table =
     foldl (\<lambda>t i. t[uc (get_base32_characters False ! i) := i, uc (get_base32_characters True ! i) := i])
       (replicate 256 32) [0..<32]"

text \<open>The inner loop of the encoder emits the five highest of the pending bits.\<close>

function base32_emit :: "string \<Rightarrow> uint32 \<Rightarrow> nat \<Rightarrow> string \<times> nat" where
  "base32_emit characters c len =
     (if len \<ge> 5
      then (let (out, len') = base32_emit characters c (len - 5)
            in (characters ! unat (drop_bit (len - 5) c AND 31) # out, len'))
      else ([], len))"
  by pat_completeness auto
termination by (relation "measure (\<lambda>(_, _, len). len)") auto

declare base32_emit.simps [simp del]

fun base32_encode_loop :: "string \<Rightarrow> uint32 \<Rightarrow> nat \<Rightarrow> string \<Rightarrow> string" where
  "base32_encode_loop characters c len [] =
     (if len \<noteq> 0 then [characters ! unat (push_bit (5 - len) c AND 31)] else [])"
| "base32_encode_loop characters c len (x # xs) =
     (let c1 = push_bit 8 c OR of_nat (uc x); (out, len') = base32_emit characters c1 (len + 8)
      in out @ base32_encode_loop characters c1 len' xs)"

definition base32_encode :: "string \<Rightarrow> bool \<Rightarrow> string" where
  "base32_encode input upper_case = base32_encode_loop (get_base32_characters upper_case) 0 0 input"

fun base32_decode_loop :: "uint32 \<Rightarrow> nat \<Rightarrow> string \<Rightarrow> string result" where
  "base32_decode_loop c len [] =
     (if c AND (push_bit len 1 - 1) \<noteq> 0 then error_result ''Nonzero padding'' else Inr [])"
| "base32_decode_loop c len (x # xs) =
     (let value = get_base32_character_table ! uc x
      in if value = 32 then error_result ''Wrong character in the string''
         else let c1 = push_bit 5 c OR of_nat value; len1 = len + 5
              in if len1 \<ge> 8
                 then try_bind (base32_decode_loop c1 (len1 - 8) xs)
                        (\<lambda>r. Inr (chr (unat (drop_bit (len1 - 8) c1 AND 255)) # r))
                 else base32_decode_loop c1 len1 xs)"

definition base32_decode :: "string \<Rightarrow> string result" where
  "base32_decode base32 = base32_decode_loop 0 0 base32"

subsection \<open>The pending bits of the accumulator\<close>

definition low :: "uint32 \<Rightarrow> nat \<Rightarrow> nat" where
  "low c n = unat c mod 2 ^ n"

lemma low_push: "v < 2 ^ k \<Longrightarrow> n + k \<le> 32 \<Longrightarrow> low (push_bit k c OR of_nat v) (n + k) = low c n * 2 ^ k + v"
proof -
  assume v: "v < 2 ^ k" "n + k \<le> 32"
  have "v < 2 ^ 32" using v by (meson le_add2 le_trans order_less_le_trans one_le_numeral power_increasing)
  then have u: "unat (of_nat v :: uint32) = v" by (simp add: unat_of_nat take_bit_nat_eq_self)
  have "low (push_bit k c OR of_nat v) (n + k) = take_bit (n + k) (take_bit 32 (push_bit k (unat c)) OR v)"
    by (simp add: low_def flip: take_bit_eq_mod) (simp add: unsigned_or_eq u unsigned_push_bit_eq)
  also have "\<dots> = push_bit k (take_bit n (unat c)) OR v"
  proof (rule bit_eqI)
    fix m
    have b: "bit v m \<Longrightarrow> m < k" using v(1) by (metis bit_take_bit_iff take_bit_nat_eq_self)
    show "bit (take_bit (n + k) (take_bit 32 (push_bit k (unat c)) OR v)) m =
        bit (push_bit k (take_bit n (unat c)) OR v) m"
      using b v(2) by (cases "k \<le> m") (auto simp: bit_simps)
  qed
  also have "\<dots> = low c n * 2 ^ k + v"
    using nat_or_disjoint [OF v(1)] by (simp add: low_def push_bit_eq_mult take_bit_eq_mod)
  finally show ?thesis .
qed
lemma low_drop: "unat (drop_bit k c AND (2 ^ j - 1)) = low c (k + j) div 2 ^ k" for c :: uint32
  unfolding low_def 
  using bit_imp_le_length [of c]
  by (fastforce intro!: bit_eqI simp: bit_simps unsigned_and_eq  simp flip: take_bit_eq_mod drop_bit_eq_div mask_eq_exp_minus_1)
lemma low_last: "n \<le> 5 \<Longrightarrow> unat (push_bit (5 - n) c AND 31) = low c n * 2 ^ (5 - n)" for c :: uint32
proof -
  have m: "31 = (mask 5 :: uint32)" by (simp add: mask_eq_exp_minus_1)
  show "n \<le> 5 \<Longrightarrow> ?thesis" unfolding low_def m
  by (auto intro!: bit_eqI simp: bit_simps unsigned_and_eq  simp flip: take_bit_eq_mod push_bit_eq_mult)
qed
lemma low_zero: "n < 32 \<Longrightarrow> c AND (push_bit n 1 - 1) = 0 \<longleftrightarrow> low c n = 0" for c :: uint32
proof -
  have "c AND (push_bit n 1 - 1) = take_bit n c" by (simp add: push_bit_eq_mult take_bit_eq_mask mask_eq_exp_minus_1)
  moreover have "low c n = unat (take_bit n c)" by (simp add: low_def unsigned_take_bit_eq flip: take_bit_eq_mod)
  ultimately show ?thesis by (simp add: unat_eq_0)
qed

lemma low_less: "low c n < 2 ^ n"
  by (simp add: low_def)

lemma low_0 [simp]: "low c 0 = 0"
  by (simp add: low_def)

lemma low_mod: "n \<le> m \<Longrightarrow> low c n = low c m mod 2 ^ n"
  by (simp add: low_def mod_mod_cancel le_imp_power_dvd)

lemma low_split: "low c (n + k) = low c (n + k) div 2 ^ n * 2 ^ n + low c n"
  using div_mult_mod_eq [of "low c (n + k)" "2 ^ n"] low_mod [of n "n + k" c] by simp

subsection \<open>The tables of base32\<close>

lemma fill_two:
  assumes "i \<in> set is" "n = f i \<or> n = g i" "\<And>j. j \<in> set is \<Longrightarrow> n = f j \<or> n = g j \<Longrightarrow> j = i" "n < length t"
  shows "foldl (\<lambda>t i. t[f i := i, g i := i]) t is ! n = i"
proof -
  have "foldl (\<lambda>t i. t[f i := i, g i := i]) t is ! n = (if \<exists>j \<in> set is. n = f j \<or> n = g j then i else t ! n)"
    using assms(3,4)
  proof (induction "is" arbitrary: t)
    case (Cons j js)
    have "t[f j := j, g j := j] ! n = (if n = f j \<or> n = g j then i else t ! n)"
      using Cons.prems(1) [of j] Cons.prems(2) by (cases "n = g j"; cases "n = f j") auto
    with Cons show ?case by auto
  qed simp
  with assms(1,2) show ?thesis by auto
qed

lemma map_uc_base32: "map uc (get_base32_characters u) = (if u then [65..<91] else [97..<123]) @ [50..<56]"
  by (simp add: get_base32_characters_def upt_rec)

lemma base32_char_uc: "i < 32 \<Longrightarrow>
    uc (get_base32_characters u ! i) = (if i < 26 then (if u then 65 + i else 97 + i) else 24 + i)"
proof -
  assume i: "i < 32"
  have "length (get_base32_characters u) = 32" by (simp add: get_base32_characters_def)
  with i have "uc (get_base32_characters u ! i) = map uc (get_base32_characters u) ! i" by simp
  also have "\<dots> = (if i < 26 then (if u then 65 + i else 97 + i) else 24 + i)"
    unfolding map_uc_base32 using i
    by (cases "i < 26"; cases u) (simp_all add: nth_append del: upt_rec_numeral)
  finally show ?thesis .
qed

lemma base32_value: "i < 32 \<Longrightarrow> get_base32_character_table ! uc (get_base32_characters u ! i) = i"
  unfolding get_base32_character_table_def
  by (rule fill_two) (auto simp: base32_char_uc split: if_splits)

subsection \<open>Round trip\<close>

text \<open>The bits that the encoder has read and the decoder has not yet emitted, as bytes.\<close>

fun be_bytes :: "nat \<Rightarrow> nat \<Rightarrow> string" where
  "be_bytes v 0 = []"
| "be_bytes v (Suc k) = chr (v div 256 ^ k) # be_bytes (v mod 256 ^ k) k"

lemma be_bytes_snoc: "x < 256 \<Longrightarrow> v < 256 ^ k \<Longrightarrow> be_bytes (v * 256 + x) (Suc k) = be_bytes v k @ [chr x]"
proof (induction k arbitrary: v)
  case (Suc k)
  have d: "(v * 256 + x) div 256 ^ Suc k = v div 256 ^ k"
    using div_drop_low [OF Suc.prems(1), of v "256 ^ k"] by (simp add: mult.commute)
  have m: "(v * 256 + x) mod 256 ^ Suc k = (v mod 256 ^ k) * 256 + x"
  proof -
    have "v * 256 = (v div 256 ^ k * 256 ^ k + v mod 256 ^ k) * 256" by (simp only: div_mult_mod_eq)
    also have "\<dots> = (v div 256 ^ k) * 256 ^ Suc k + (v mod 256 ^ k) * 256"
      unfolding distrib_right power_Suc by (simp only: mult.assoc mult.commute [of 256])
    finally have "v * 256 + x = (v div 256 ^ k) * 256 ^ Suc k + ((v mod 256 ^ k) * 256 + x)" by simp
    moreover have "(v mod 256 ^ k) * 256 + x < 256 ^ Suc k"
    proof -
      have "v mod 256 ^ k + 1 \<le> 256 ^ k" by (simp add: Suc_leI)
      then have "(v mod 256 ^ k + 1) * 256 \<le> 256 ^ Suc k" by simp
      then show ?thesis using Suc.prems(1) by simp
    qed
    ultimately show ?thesis by (metis mod_low)
  qed
  show ?case
    using Suc.IH [of "v mod 256 ^ k"] Suc.prems(1) by (subst be_bytes.simps) (simp only: d m, simp)
qed simp

definition base32_rest :: "string \<Rightarrow> uint32 \<Rightarrow> nat \<Rightarrow> string \<Rightarrow> string" where
  "base32_rest ch c n xs = (let (out, n') = base32_emit ch c n in out @ base32_encode_loop ch c n' xs)"

lemma base32_rest_emit:
  "5 \<le> n \<Longrightarrow> base32_rest ch c n xs = ch ! (low c n div 2 ^ (n - 5)) # base32_rest ch c (n - 5) xs"
  using low_drop [of "n - 5" c 5]
  by (simp add: base32_rest_def base32_emit.simps [of ch c n] Let_def split: prod.splits)

lemma base32_rest_Cons:
  "n < 5 \<Longrightarrow> base32_rest ch c n (x # xs) = base32_rest ch (push_bit 8 c OR of_nat (uc x)) (n + 8) xs"
  by (simp add: base32_rest_def base32_emit.simps [of ch c n] Let_def)

lemma base32_rest_Nil:
  "n < 5 \<Longrightarrow> base32_rest ch c n [] = (if n = 0 then [] else [ch ! (low c n * 2 ^ (5 - n))])"
  using low_last [of n c] by (simp add: base32_rest_def base32_emit.simps [of ch c n])

lemma base32_decode_char:
  assumes "v < 32" "len < 8"
  shows "base32_decode_loop c len (get_base32_characters u ! v # xs) =
    (let c1 = push_bit 5 c OR of_nat v in
     if len \<ge> 3
     then try_bind (base32_decode_loop c1 (len - 3) xs)
            (\<lambda>r. Inr (chr ((low c len * 32 + v) div 2 ^ (len - 3)) # r))
     else base32_decode_loop c1 (len + 5) xs)"
proof -
  have l: "low (push_bit 5 c OR of_nat v) (len + 5) = low c len * 32 + v"
    using low_push [of v 5 len c] assms by simp
  have "3 \<le> len \<Longrightarrow> unat (drop_bit (len - 3) (push_bit 5 c OR of_nat v) AND 255) = (low c len * 32 + v) div 2 ^ (len - 3)"
  proof -
    assume "3 \<le> len"
    then have e: "len - 3 + 8 = len + 5" by simp
    show ?thesis using low_drop [of "len - 3" "push_bit 5 c OR of_nat v" 8] unfolding e l by simp
  qed
  then show ?thesis using assms by (auto simp: base32_value Let_def)
qed

lemma pow256: "(ld + n) mod 8 = 0 \<Longrightarrow> (256 :: nat) ^ ((ld + n) div 8) = 2 ^ (ld + n)"
proof -
  assume "(ld + n) mod 8 = 0"
  then have "(2 :: nat) ^ (ld + n) = 2 ^ (8 * ((ld + n) div 8))" by auto
  then show ?thesis by (simp add: power_mult)
qed

lemma be_bytes_step:
  assumes "m < 2 ^ i" "(256 :: nat) ^ k = 2 ^ i * 2 ^ j"
  shows "be_bytes (w * 2 ^ i + m) (Suc k) = chr (w div 2 ^ j) # be_bytes ((w mod 2 ^ j) * 2 ^ i + m) k"
proof -
  have "(w * 2 ^ i + m) div (2 ^ i * 2 ^ j) = w div 2 ^ j"
    by (rule div_drop_low [OF assms(1)])
  moreover have "(w * 2 ^ i + m) mod (2 ^ i * 2 ^ j) = (w mod 2 ^ j) * 2 ^ i + m"
    using div_low [OF assms(1), of w] mod_low [OF assms(1), of w] by (simp add: mod_mult2_eq)
  ultimately show ?thesis using assms(2) by simp
qed

lemma base32_decode_rest:
  "ld < 8 \<Longrightarrow> n \<le> 12 \<Longrightarrow> (ld + n) mod 8 = 0 \<Longrightarrow>
   base32_decode_loop cd ld (base32_rest (get_base32_characters u) ce n xs) =
     Inr (be_bytes (low cd ld * 2 ^ n + low ce n) ((ld + n) div 8) @ xs)"
proof (induction "length xs * 13 + n" arbitrary: cd ld ce n xs rule: less_induct)
  case less
  let ?V = "low cd ld * 2 ^ n + low ce n"
  show ?case
  proof (cases "5 \<le> n")
    case True
    define v where "v = low ce n div 2 ^ (n - 5)"
    define w where "w = low cd ld * 32 + v"
    define c1 where "c1 = push_bit 5 cd OR (of_nat v :: uint32)"
    have n5: "n - 5 + 5 = n" "(2::nat) ^ n = 32 * 2 ^ (n - 5)"
      using True power_add [of "2::nat" "n - 5" 5] by simp_all
    have v: "v < 32" unfolding v_def using low_less [of ce n] n5(2) by (simp add: less_mult_imp_div_less)
    have cen: "low ce n = v * 2 ^ (n - 5) + low ce (n - 5)"
      using low_split [of ce "n - 5" 5] unfolding n5(1) v_def .
    have V: "?V = w * 2 ^ (n - 5) + low ce (n - 5)"
      unfolding cen n5(2) w_def by (simp add: distrib_right)
    have l: "low c1 (ld + 5) = w"
      using low_push [of v 5 ld cd] v less.prems(1) by (simp add: c1_def w_def)
    have dec: "base32_decode_loop cd ld (base32_rest (get_base32_characters u) ce n xs) =
        (if ld \<ge> 3
         then try_bind (base32_decode_loop c1 (ld - 3) (base32_rest (get_base32_characters u) ce (n - 5) xs))
                (\<lambda>r. Inr (chr (w div 2 ^ (ld - 3)) # r))
         else base32_decode_loop c1 (ld + 5) (base32_rest (get_base32_characters u) ce (n - 5) xs))"
      using base32_decode_char [OF v less.prems(1)]
      by (simp only: base32_rest_emit [OF True] v_def [symmetric] c1_def w_def Let_def)
    show ?thesis
    proof (cases "3 \<le> ld")
      case False
      have "base32_decode_loop c1 (ld + 5) (base32_rest (get_base32_characters u) ce (n - 5) xs) =
          Inr (be_bytes (low c1 (ld + 5) * 2 ^ (n - 5) + low ce (n - 5)) ((ld + 5 + (n - 5)) div 8) @ xs)"
        by (rule less.hyps) (use True False less.prems in auto)
      moreover have "ld + 5 + (n - 5) = ld + n" using True by simp
      ultimately show ?thesis using False unfolding dec V l by simp
    next
      case ld: True
      have T: "ld - 3 + (n - 5) + 8 = ld + n" using True ld by simp
      then have m8: "(ld - 3 + (n - 5)) mod 8 = 0" "(ld + n) div 8 = Suc ((ld - 3 + (n - 5)) div 8)"
        using less.prems(3) by (metis mod_add_self2) (metis T div_add_self2 zero_neq_numeral Suc_eq_plus1)
      have "base32_decode_loop c1 (ld - 3) (base32_rest (get_base32_characters u) ce (n - 5) xs) =
          Inr (be_bytes (low c1 (ld - 3) * 2 ^ (n - 5) + low ce (n - 5)) ((ld - 3 + (n - 5)) div 8) @ xs)"
        by (rule less.hyps) (use True less.prems m8 in auto)
      moreover have "low c1 (ld - 3) = w mod 2 ^ (ld - 3)"
        using low_mod [of "ld - 3" "ld + 5" c1] l by simp
      moreover have "be_bytes ?V ((ld + n) div 8) =
          chr (w div 2 ^ (ld - 3)) # be_bytes (w mod 2 ^ (ld - 3) * 2 ^ (n - 5) + low ce (n - 5)) ((ld - 3 + (n - 5)) div 8)"
        unfolding V m8(2)
      proof (rule be_bytes_step)
        show "256 ^ ((ld - 3 + (n - 5)) div 8) = (2::nat) ^ (n - 5) * 2 ^ (ld - 3)"
          using pow256 [OF m8(1)] by (simp add: power_add mult.commute)
      qed (rule low_less)
      ultimately show ?thesis using ld unfolding dec by simp
    qed
  next
    case False
    then have n: "n < 5" by simp
    show ?thesis
    proof (cases xs)
      case (Cons x ys)
      let ?c1 = "push_bit 8 ce OR (of_nat (uc x) :: uint32)"
      have l: "low ?c1 (n + 8) = low ce n * 256 + uc x"
        using low_push [of "uc x" 8 n ce] n by simp
      have k: "(ld + (n + 8)) div 8 = Suc ((ld + n) div 8)" by (simp add: add.assoc [symmetric])
      have "base32_decode_loop cd ld (base32_rest (get_base32_characters u) ?c1 (n + 8) ys) =
          Inr (be_bytes (low cd ld * 2 ^ (n + 8) + low ?c1 (n + 8)) ((ld + (n + 8)) div 8) @ ys)"
        by (rule less.hyps) (use n less.prems Cons in \<open>auto simp: add.assoc [symmetric]\<close>)
      moreover have "low cd ld * 2 ^ (n + 8) + low ?c1 (n + 8) = ?V * 256 + uc x"
        by (simp add: l power_add distrib_right)
      moreover have "?V < 256 ^ ((ld + n) div 8)"
      proof -
        have "(low cd ld + 1) * 2 ^ n \<le> 2 ^ ld * (2 :: nat) ^ n"
          using low_less [of cd ld] by (intro mult_le_mono1) simp
        then have "?V < 2 ^ (ld + n)" using low_less [of ce n] by (simp add: power_add)
        then show ?thesis using pow256 [OF less.prems(3)] by simp
      qed
      ultimately show ?thesis
        using base32_rest_Cons [OF n] be_bytes_snoc [of "uc x" ?V] by (simp only: Cons k uc_bound) simp
    next
      case Nil
      show ?thesis
      proof (cases "n = 0")
        case True
        with less.prems have "ld = 0" by auto
        with True Nil show ?thesis by (simp add: base32_rest_Nil)
      next
        case n0: False
        have "(ld + n) mod 8 = 0" "0 < ld + n" "ld + n < 16" using less.prems n n0 by auto
        then have e: "ld + n = 8" by (auto simp: mod_eq_0_iff_dvd elim!: dvdE)
        then have ld: "3 \<le> ld" "ld - 3 = 5 - n" using n by auto
        define v where "v = low ce n * 2 ^ (5 - n)"
        have p5: "(2::nat) ^ n * 2 ^ (5 - n) = 32" using n by (simp flip: power_add)
        have "low ce n * 2 ^ (5 - n) < 2 ^ n * 2 ^ (5 - n)" using low_less [of ce n] by simp
        then have v: "v < 32" using p5 v_def by simp
        have w: "low cd ld * 32 + v = ?V * 2 ^ (5 - n)"
          using p5 by (simp add: v_def distrib_right mult.assoc)
        let ?c1 = "push_bit 5 cd OR (of_nat v :: uint32)"
        have "low ?c1 (5 - n) = (low cd ld * 32 + v) mod 2 ^ (5 - n)"
          using low_push [of v 5 ld cd] v less.prems(1) low_mod [of "5 - n" "ld + 5" ?c1] by simp
        then have "low ?c1 (5 - n) = 0" unfolding w by simp
        then have "?c1 AND (push_bit (5 - n) 1 - 1) = 0" using low_zero [of "5 - n" ?c1] by simp
        then have "base32_decode_loop ?c1 (5 - n) [] = Inr []" by simp
        moreover have "base32_rest (get_base32_characters u) ce n xs = [get_base32_characters u ! v]"
          using n n0 Nil by (simp add: base32_rest_Nil v_def)
        ultimately show ?thesis
          using base32_decode_char [OF v less.prems(1), of cd u "[]"] ld w Nil by (simp add: Let_def e)
      qed
    qed
  qed
qed

lemma base32_decode_encode: "base32_decode (base32_encode s upper_case) = Inr s"
proof -
  have "base32_encode s upper_case = base32_rest (get_base32_characters upper_case) 0 0 s"
    by (simp add: base32_encode_def base32_rest_def base32_emit.simps)
  then show ?thesis
    using base32_decode_rest [of 0 0 0 upper_case 0 s] by (simp add: base32_decode_def)
qed

text \<open>base32 decoding gives back what was encoded, in either case, although its 32-bit
  accumulators wrap around on every longer input.\<close>

theorem base32_roundtrip: "base32_decode (base32_encode s upper_case) = Inr s"
  by (rule base32_decode_encode)

end
