(* ===== verification/Utf8.thy ===== *)
theory Utf8
  imports Status
begin

text \<open>
  \<^verbatim>\<open>pxcutils/pxc/utils/utf8.h\<close> and \<^verbatim>\<open>utf8.cpp\<close>:
  recognition, encoding, decoding and truncation of UTF-8. Codes are \<open>nat\<close>s, the values of
  the source's \<^verbatim>\<open>uint32\<close>. A \<^verbatim>\<open>CSlice\<close> is followed in memory by a
  zero byte, which \<^verbatim>\<open>check_utf8\<close> relies on: the model runs on the string with its
  terminator, and reading past the terminator is \<open>None\<close>. The tables of \<^verbatim>\<open>unicode.cpp\<close> are
  arguments of the operations that use them.
\<close>

subsection \<open>The model\<close>

definition utf8_is_first :: "char \<Rightarrow> bool" where
  "utf8_is_first c \<longleftrightarrow> uc c AND 0xC0 \<noteq> 0x80"

function check_utf8_loop :: "string \<Rightarrow> bool option" where
  "check_utf8_loop s =
     (case s of [] \<Rightarrow> None
      | ca # s1 \<Rightarrow>
          let a = uc ca in
          if a AND 0x80 = 0 then (if s1 = [] then Some True else check_utf8_loop s1)
          else if a AND 0x40 = 0 then Some False
          else (case s1 of [] \<Rightarrow> None
                | cb # s2 \<Rightarrow>
                    let b = uc cb in
                    if b AND 0xc0 \<noteq> 0x80 then Some False
                    else if a AND 0x20 = 0
                    then (if a AND 0x1e > 0 then check_utf8_loop s2 else Some False)
                    else (case s2 of [] \<Rightarrow> None
                          | cc # s3 \<Rightarrow>
                              if uc cc AND 0xc0 \<noteq> 0x80 then Some False
                              else if a AND 0x10 = 0
                              then (let x = push_bit 6 (a AND 0x0f) OR (b AND 0x20)
                                    in if x \<noteq> 0 \<and> x \<noteq> 0x360 then check_utf8_loop s3 else Some False)
                              else (case s3 of [] \<Rightarrow> None
                                    | cd # s4 \<Rightarrow>
                                        if uc cd AND 0xc0 \<noteq> 0x80 then Some False
                                        else if a AND 0x08 = 0
                                        then (let t = push_bit 6 (a AND 0x07) OR (b AND 0x30)
                                              in if 0 < t \<and> t < 0x110 then check_utf8_loop s4 else Some False)
                                        else Some False))))"
  by pat_completeness auto
termination by (relation "measure length") auto

declare check_utf8_loop.simps [simp del]

definition check_utf8 :: "string \<Rightarrow> bool option" where
  "check_utf8 str = check_utf8_loop (str @ [chr 0])"

definition append_utf8_character :: "string \<Rightarrow> nat \<Rightarrow> string" where
  "append_utf8_character str code =
     (if code \<le> 0x7f then str @ [chr code]
      else if code \<le> 0x7ff
      then str @ [chr (0xc0 OR drop_bit 6 code), chr (0x80 OR (code AND 0x3f))]
      else if code \<le> 0xffff
      then str @ [chr (0xe0 OR drop_bit 12 code), chr (0x80 OR (drop_bit 6 code AND 0x3f)),
                  chr (0x80 OR (code AND 0x3f))]
      else str @ [chr (0xf0 OR drop_bit 18 code), chr (0x80 OR (drop_bit 12 code AND 0x3f)),
                  chr (0x80 OR (drop_bit 6 code AND 0x3f)), chr (0x80 OR (code AND 0x3f))])"

text \<open>\<^verbatim>\<open>next_utf8_unsafe\<close>: the code and the rest of the string; \<open>None\<close> is a
  read past the end or a byte that starts no character.\<close>

definition next_utf8_unsafe :: "string \<Rightarrow> (nat \<times> string) option" where
  "next_utf8_unsafe s =
     (case s of [] \<Rightarrow> None
      | ca # s1 \<Rightarrow>
          let a = uc ca; b = (\<lambda>i. uc (s ! i) AND 0x3f) in
          if a AND 0x80 = 0 then Some (a, s1)
          else if a AND 0x20 = 0
          then (if length s < 2 then None
                else Some (push_bit 6 (a AND 0x1f) OR b 1, drop 2 s))
          else if a AND 0x10 = 0
          then (if length s < 3 then None
                else Some ((push_bit 12 (a AND 0x0f) OR push_bit 6 (b 1)) OR b 2, drop 3 s))
          else if a AND 0x08 = 0
          then (if length s < 4 then None
                else Some (((push_bit 18 (a AND 0x07) OR push_bit 12 (b 1)) OR push_bit 6 (b 2)) OR b 3, drop 4 s))
          else None)"

definition utf8_length :: "string \<Rightarrow> nat" where
  "utf8_length str = length (filter utf8_is_first str)"

definition utf8_utf16_length :: "string \<Rightarrow> nat" where
  "utf8_utf16_length str =
     (\<Sum>c \<leftarrow> str. (if utf8_is_first c then 1 else 0) + (if uc c AND 0xf8 = 0xf0 then 1 else 0))"

text \<open>The loop that cuts a string before the character number \<open>n\<close>.\<close>

fun utf8_cut :: "string \<Rightarrow> nat \<Rightarrow> string" where
  "utf8_cut [] n = []"
| "utf8_cut (c # s) n =
     (if utf8_is_first c then (if n = 0 then [] else c # utf8_cut s (n - 1)) else c # utf8_cut s n)"

definition utf8_truncate :: "string \<Rightarrow> nat \<Rightarrow> string" where
  "utf8_truncate str n = (if length str > n then utf8_cut str n else str)"

definition utf8_substr_from :: "string \<Rightarrow> nat \<Rightarrow> string" where
  "utf8_substr_from str offset =
     (if offset = 0 then str else drop (length (utf8_truncate str offset)) str)"

definition utf8_substr :: "string \<Rightarrow> nat \<Rightarrow> nat \<Rightarrow> string" where
  "utf8_substr str offset n = utf8_truncate (utf8_substr_from str offset) n"

text \<open>The counter of \<^verbatim>\<open>utf8_utf16_truncate\<close> is a \<^verbatim>\<open>size_t\<close>: it is
  decremented a second time for a surrogate pair and wraps around below zero.\<close>

fun utf8_utf16_cut :: "string \<Rightarrow> uint64 \<Rightarrow> string" where
  "utf8_utf16_cut [] n = []"
| "utf8_utf16_cut (c # s) n =
     (if utf8_is_first c
      then (if n \<le> 0 then []
            else c # utf8_utf16_cut s (if uc c \<ge> 0xf0 then n - 1 - 1 else n - 1))
      else c # utf8_utf16_cut s n)"

definition utf8_utf16_truncate :: "string \<Rightarrow> uint64 \<Rightarrow> string" where
  "utf8_utf16_truncate str n = utf8_utf16_cut str n"

definition utf8_utf16_substr_from :: "string \<Rightarrow> uint64 \<Rightarrow> string" where
  "utf8_utf16_substr_from str offset =
     (if offset = 0 then str else drop (length (utf8_utf16_truncate str offset)) str)"

definition utf8_utf16_substr :: "string \<Rightarrow> uint64 \<Rightarrow> uint64 \<Rightarrow> string" where
  "utf8_utf16_substr str offset n = utf8_utf16_truncate (utf8_utf16_substr_from str offset) n"

text \<open>\<^verbatim>\<open>utf8_to_lower\<close>, with the table lookup as a parameter.\<close>

fun utf8_map_codes :: "nat \<Rightarrow> (nat \<Rightarrow> nat) \<Rightarrow> string \<Rightarrow> string \<Rightarrow> string option" where
  "utf8_map_codes 0 f s result = None"
| "utf8_map_codes (Suc fuel) f s result =
     (if s = [] then Some result
      else case next_utf8_unsafe s of
             None \<Rightarrow> None
           | Some (code, s') \<Rightarrow> utf8_map_codes fuel f s' (append_utf8_character result (f code)))"

definition utf8_to_lower :: "(nat \<Rightarrow> nat) \<Rightarrow> string \<Rightarrow> string option" where
  "utf8_to_lower unicode_to_lower str = utf8_map_codes (Suc (length str)) unicode_to_lower str []"

text \<open>\<^verbatim>\<open>utf8_get_search_words\<close>, with the tables of \<^verbatim>\<open>unicode.cpp\<close>
  as parameters; the flag \<^verbatim>\<open>in_word\<close>, the word and the words so far are the
  arguments of the loop.\<close>

fun utf8_search_loop :: "nat \<Rightarrow> (nat \<Rightarrow> nat) \<Rightarrow> (nat \<Rightarrow> nat) \<Rightarrow> string \<Rightarrow> bool \<Rightarrow> string \<Rightarrow> string list
    \<Rightarrow> string list option" where
  "utf8_search_loop 0 prepare remove s in_word word words = None"
| "utf8_search_loop (Suc fuel) prepare remove s in_word word words =
     (if s = [] then Some (if in_word then words @ [word] else words)
      else case next_utf8_unsafe s of
             None \<Rightarrow> None
           | Some (code, s') \<Rightarrow>
               let code = prepare code in
               if code = 0 then utf8_search_loop fuel prepare remove s' in_word word words
               else if code = uc CHR '' ''
               then (if in_word then utf8_search_loop fuel prepare remove s' False [] (words @ [word])
                     else utf8_search_loop fuel prepare remove s' in_word word words)
               else utf8_search_loop fuel prepare remove s' True (append_utf8_character word (remove code)) words)"

definition utf8_get_search_words :: "(nat \<Rightarrow> nat) \<Rightarrow> (nat \<Rightarrow> nat) \<Rightarrow> string \<Rightarrow> string list option" where
  "utf8_get_search_words prepare_search_character remove_diacritics str =
     utf8_search_loop (Suc (length str)) prepare_search_character remove_diacritics str False [] []"

subsection \<open>Masks as arithmetic\<close>

lemmas utf8_masks =
  nat_and_field [of _ 1 7, simplified] nat_and_field [of _ 1 6, simplified]
  nat_and_field [of _ 1 5, simplified] nat_and_field [of _ 1 4, simplified]
  nat_and_field [of _ 1 3, simplified] nat_and_field [of _ 2 6, simplified]
  nat_and_field [of _ 4 1, simplified] nat_and_field [of _ 2 4, simplified]
  nat_and_field [of _ 5 3, simplified]
  nat_and_field [of _ 4 0, simplified] nat_and_field [of _ 3 0, simplified]
  nat_and_field [of _ 5 0, simplified] nat_and_field [of _ 6 0, simplified]

lemma continuation_iff: "uc c AND 0xc0 = 0x80 \<longleftrightarrow> 128 \<le> uc c \<and> uc c < 192"
proof -
  have "uc c div 64 < 4" using uc_bound [of c] by linarith
  then have "uc c AND 0xc0 = uc c div 64 * 64" by (simp add: utf8_masks)
  then show ?thesis by auto
qed

lemma lead_bits:
  "uc c AND 0x80 = 0 \<longleftrightarrow> uc c < 128"
  "128 \<le> uc c \<Longrightarrow> uc c AND 0x40 = 0 \<longleftrightarrow> uc c < 192"
  "192 \<le> uc c \<Longrightarrow> uc c AND 0x20 = 0 \<longleftrightarrow> uc c < 224"
  "224 \<le> uc c \<Longrightarrow> uc c AND 0x10 = 0 \<longleftrightarrow> uc c < 240"
  "240 \<le> uc c \<Longrightarrow> uc c AND 0x08 = 0 \<longleftrightarrow> uc c < 248"
proof -
  let ?n = "uc c"
  have n: "?n < 256" by simp
  have "?n div 128 = 0 \<and> ?n < 128 \<or> ?n div 128 = 1 \<and> \<not> ?n < 128" using n by linarith
  then show "?n AND 0x80 = 0 \<longleftrightarrow> ?n < 128" by (auto simp: utf8_masks)
  assume "128 \<le> ?n"
  then have "?n div 64 = 2 \<and> ?n < 192 \<or> ?n div 64 = 3 \<and> \<not> ?n < 192" using n by linarith
  then show "?n AND 0x40 = 0 \<longleftrightarrow> ?n < 192" by (auto simp: utf8_masks)
next
  let ?n = "uc c"
  have n: "?n < 256" by simp
  assume "192 \<le> ?n"
  then have "?n div 32 = 6 \<and> ?n < 224 \<or> ?n div 32 = 7 \<and> \<not> ?n < 224" using n by linarith
  then show "?n AND 0x20 = 0 \<longleftrightarrow> ?n < 224" by (auto simp: utf8_masks)
next
  let ?n = "uc c"
  have n: "?n < 256" by simp
  assume "224 \<le> ?n"
  then have "?n div 16 = 14 \<and> ?n < 240 \<or> ?n div 16 = 15 \<and> \<not> ?n < 240" using n by linarith
  then show "?n AND 0x10 = 0 \<longleftrightarrow> ?n < 240" by (auto simp: utf8_masks)
next
  let ?n = "uc c"
  have n: "?n < 256" by simp
  assume "240 \<le> ?n"
  then have "?n div 8 = 30 \<and> ?n < 248 \<or> ?n div 8 = 31 \<and> \<not> ?n < 248" using n by linarith
  then show "?n AND 0x08 = 0 \<longleftrightarrow> ?n < 248" by (auto simp: utf8_masks)
qed

subsection \<open>Characters\<close>

definition valid_code :: "nat \<Rightarrow> bool" where
  "valid_code c \<longleftrightarrow> c < 0x110000 \<and> \<not> (0xD800 \<le> c \<and> c < 0xE000)"

abbreviation utf8_char :: "nat \<Rightarrow> string" where
  "utf8_char c \<equiv> append_utf8_character [] c"

lemma append_utf8_character_char: "append_utf8_character s c = s @ utf8_char c"
  by (simp add: append_utf8_character_def)

lemma utf8_or:
  "x < 32 \<Longrightarrow> 0xc0 OR x = 192 + (x :: nat)" "x < 64 \<Longrightarrow> 0x80 OR x = 128 + (x :: nat)"
  "x < 16 \<Longrightarrow> 0xe0 OR x = 224 + (x :: nat)" "x < 8 \<Longrightarrow> 0xf0 OR x = 240 + (x :: nat)"
  using nat_or_disjoint' [of 5 192 x] nat_or_disjoint' [of 6 128 x] nat_or_disjoint' [of 4 224 x]
    nat_or_disjoint' [of 3 240 x] by simp_all

lemma utf8_char_arith:
  "c \<le> 0x7f \<Longrightarrow> utf8_char c = [chr c]"
  "0x7f < c \<Longrightarrow> c \<le> 0x7ff \<Longrightarrow> utf8_char c = [chr (192 + c div 64), chr (128 + c mod 64)]"
  "0x7ff < c \<Longrightarrow> c \<le> 0xffff \<Longrightarrow>
     utf8_char c = [chr (224 + c div 4096), chr (128 + c div 64 mod 64), chr (128 + c mod 64)]"
  "0xffff < c \<Longrightarrow> c < 0x110000 \<Longrightarrow>
     utf8_char c = [chr (240 + c div 262144), chr (128 + c div 4096 mod 64), chr (128 + c div 64 mod 64),
       chr (128 + c mod 64)]"
proof -
  have m: "x AND 0x3f = x mod 64" for x :: nat by (simp add: utf8_masks)
  show "c \<le> 0x7f \<Longrightarrow> utf8_char c = [chr c]" by (simp add: append_utf8_character_def)
  show "0x7f < c \<Longrightarrow> c \<le> 0x7ff \<Longrightarrow> utf8_char c = [chr (192 + c div 64), chr (128 + c mod 64)]"
  proof -
    assume c: "0x7f < c" "c \<le> 0x7ff"
    then have "c div 64 < 32" by linarith
    then show ?thesis using c by (simp add: append_utf8_character_def nat_shiftr m utf8_or)
  qed
  show "utf8_char c = [chr (224 + c div 4096), chr (128 + c div 64 mod 64), chr (128 + c mod 64)]"
    if c: "0x7ff < c" "c \<le> 0xffff"
  proof -
    have "c div 4096 < 16" using c by linarith
    then show ?thesis using c by (simp add: append_utf8_character_def nat_shiftr m utf8_or)
  qed
  show "utf8_char c = [chr (240 + c div 262144), chr (128 + c div 4096 mod 64), chr (128 + c div 64 mod 64),
       chr (128 + c mod 64)]" if c: "0xffff < c" "c < 0x110000"
  proof -
    have "c div 262144 < 8" using c by linarith
    then show ?thesis using c by (simp add: append_utf8_character_def nat_shiftr m utf8_or)
  qed
qed

text \<open>The recogniser on each shape of its input.\<close>

abbreviation continuation :: "char \<Rightarrow> bool" where
  "continuation c \<equiv> 128 \<le> uc c \<and> uc c < 192"

lemma check_1: "uc a < 128 \<Longrightarrow> check_utf8_loop (a # s) = (if s = [] then Some True else check_utf8_loop s)"
  by (subst check_utf8_loop.simps) (simp add: lead_bits Let_def)

lemma lead_2_nonzero:
  assumes "192 \<le> uc a" "uc a < 224"
  shows "uc a AND 0x1e > 0 \<longleftrightarrow> 194 \<le> uc a"
proof -
  have "uc a div 2 div 16 = 6" using assms by linarith
  then have "(uc a div 2 mod 16 = 0) = (uc a div 2 = 96)"
    using div_mult_mod_eq [of "uc a div 2" 16] by linarith
  also have "\<dots> = (\<not> 194 \<le> uc a)" using assms(1) by linarith
  finally show ?thesis by (auto simp: utf8_masks)
qed

lemma check_2:
  assumes "192 \<le> uc a" "uc a < 224" "continuation b"
  shows "check_utf8_loop (a # b # s) = (if 194 \<le> uc a then check_utf8_loop s else Some False)"
  using assms continuation_iff [of b] lead_bits [of a] lead_2_nonzero [of a]
  by (subst check_utf8_loop.simps) (simp add: Let_def)

lemma check_3:
  assumes "224 \<le> uc a" "uc a < 240" "continuation b" "continuation c"
    "code = (uc a - 224) * 4096 + (uc b - 128) * 64 + (uc c - 128)"
  shows "check_utf8_loop (a # b # c # s) =
    (if 0x800 \<le> code \<and> valid_code code then check_utf8_loop s else Some False)"
proof -
  have "uc a div 16 = 14" using assms(1,2) by linarith
  then have a: "uc a mod 16 = uc a - 224" using div_mult_mod_eq [of "uc a" 16] by linarith
  have "uc b < 160 \<and> uc b div 32 = 4 \<or> \<not> uc b < 160 \<and> uc b div 32 = 5" using assms(3) by linarith
  then have b: "uc b div 32 mod 2 = (if uc b < 160 then 0 else 1)" by auto
  have "push_bit 6 (uc a AND 0x0f) OR (uc b AND 0x20) = (uc a - 224) * 64 + (if uc b < 160 then 0 else 32)"
    using nat_or_disjoint [of 32 6 "uc a - 224"]
    by (simp add: utf8_masks a b nat_shiftl split: if_splits)
  note x = this
  have i: "(uc a - 224) * 64 + (if uc b < 160 then 0 else 32) \<noteq> 0 \<and>
      (uc a - 224) * 64 + (if uc b < 160 then 0 else 32) \<noteq> 0x360 \<longleftrightarrow> 0x800 \<le> code \<and> valid_code code"
    using assms by (auto simp: valid_code_def)
  have "check_utf8_loop (a # b # c # s) =
      (let x = push_bit 6 (uc a AND 0x0f) OR (uc b AND 0x20)
       in if x \<noteq> 0 \<and> x \<noteq> 0x360 then check_utf8_loop s else Some False)"
    using assms(1-4) continuation_iff [of b] continuation_iff [of c] lead_bits [of a]
    by (subst check_utf8_loop.simps) (simp add: Let_def)
  then show ?thesis unfolding x Let_def i .
qed

lemma check_4:
  assumes "240 \<le> uc a" "uc a < 248" "continuation b" "continuation c" "continuation d"
    "code = (uc a - 240) * 262144 + (uc b - 128) * 4096 + (uc c - 128) * 64 + (uc d - 128)"
  shows "check_utf8_loop (a # b # c # d # s) =
    (if 0x10000 \<le> code \<and> valid_code code then check_utf8_loop s else Some False)"
proof -
  have "uc a div 8 = 30" using assms(1,2) by linarith
  then have a: "uc a mod 8 = uc a - 240" using div_mult_mod_eq [of "uc a" 8] by linarith
  have "uc b div 16 div 4 = 2" using assms(3) by linarith
  then have b: "uc b div 16 mod 4 = uc b div 16 - 8" using div_mult_mod_eq [of "uc b div 16" 4] by linarith
  let ?t = "(uc a - 240) * 64 + (uc b div 16 - 8) * 16"
  have "(uc b div 16 - 8) * 16 < 64" using assms(3) by linarith
  then have t: "push_bit 6 (uc a AND 0x07) OR (uc b AND 0x30) = ?t"
    using nat_or_disjoint [of "(uc b div 16 - 8) * 16" 6 "uc a - 240"]
    by (simp add: utf8_masks a b nat_shiftl)
  define w where "w = (uc a - 240) * 4 + (uc b div 16 - 8)"
  define r where "r = uc b mod 16 * 4096 + (uc c - 128) * 64 + (uc d - 128)"
  have "uc b - 128 = (uc b div 16 - 8) * 16 + uc b mod 16"
    using assms(3) div_mult_mod_eq [of "uc b" 16] by linarith
  then have c: "code = w * 65536 + r" using assms(6) by (simp add: w_def r_def)
  have r: "r < 65536" unfolding r_def using assms(4,5) pos_mod_bound [of 16 "int (uc b)"]
    mod_less_divisor [of 16 "uc b"] by linarith
  have i: "0 < ?t \<and> ?t < 0x110 \<longleftrightarrow> 0x10000 \<le> code \<and> valid_code code"
  proof -
    have "?t = w * 16" by (simp add: w_def)
    moreover have "0x10000 \<le> code \<and> valid_code code \<longleftrightarrow> 0 < w \<and> w < 17"
      unfolding valid_code_def c using r by auto
    ultimately show ?thesis by auto
  qed
  have "check_utf8_loop (a # b # c # d # s) =
      (let t = push_bit 6 (uc a AND 0x07) OR (uc b AND 0x30)
       in if 0 < t \<and> t < 0x110 then check_utf8_loop s else Some False)"
    using assms(1-5) continuation_iff [of b] continuation_iff [of c] continuation_iff [of d] lead_bits [of a]
    by (subst check_utf8_loop.simps) (simp add: Let_def)
  then show ?thesis unfolding t Let_def i .
qed

lemma check_other:
  "128 \<le> uc a \<Longrightarrow> uc a < 192 \<Longrightarrow> check_utf8_loop (a # s) \<noteq> Some True"
  "192 \<le> uc a \<Longrightarrow> \<not> continuation b \<Longrightarrow> check_utf8_loop (a # b # s) \<noteq> Some True"
  "192 \<le> uc a \<Longrightarrow> check_utf8_loop [a] \<noteq> Some True"
  "224 \<le> uc a \<Longrightarrow> check_utf8_loop [a, b] \<noteq> Some True"
  "224 \<le> uc a \<Longrightarrow> \<not> continuation c \<Longrightarrow> check_utf8_loop (a # b # c # s) \<noteq> Some True"
  "240 \<le> uc a \<Longrightarrow> check_utf8_loop [a, b, c] \<noteq> Some True"
  "240 \<le> uc a \<Longrightarrow> \<not> continuation d \<Longrightarrow> check_utf8_loop (a # b # c # d # s) \<noteq> Some True"
  "248 \<le> uc a \<Longrightarrow> check_utf8_loop (a # b # c # d # s) \<noteq> Some True"
  by ((subst check_utf8_loop.simps,
        simp add: Let_def lead_bits continuation_iff del: disj_not1)+)

lemma chr_uc_minus: "n \<le> uc c \<Longrightarrow> chr (n + (uc c - n)) = c"
  by simp

lemma div_mod_digits:
  "b < k \<Longrightarrow> (a * k + b) div k = a" "b < k \<Longrightarrow> (a * k + b) mod k = b" for a b k :: nat
  by simp_all

lemma check_utf8_loop_char:
  assumes "valid_code code" "t \<noteq> []"
  shows "check_utf8_loop (utf8_char code @ t) = check_utf8_loop t"
proof -
  have lim: "code < 0x110000" using assms(1) by (simp add: valid_code_def)
  consider "code \<le> 0x7f" | "0x7f < code" "code \<le> 0x7ff" | "0x7ff < code" "code \<le> 0xffff" | "0xffff < code"
    by linarith
  then show ?thesis
  proof cases
    case 1
    then show ?thesis using assms(2) by (simp add: utf8_char_arith check_1)
  next
    case 2
    then have q: "2 \<le> code div 64" "code div 64 < 32" by linarith+
    then show ?thesis
      using check_2 [of "chr (192 + code div 64)" "chr (128 + code mod 64)" t]
      by (simp add: utf8_char_arith(2) [OF 2])
  next
    case 3
    then have q: "code div 4096 < 16" by linarith
    have d2: "code div 64 div 64 = code div 4096" by (simp add: div_mult2_eq [symmetric])
    have d: "code = code div 4096 * 4096 + code div 64 mod 64 * 64 + code mod 64"
      using div_mult_mod_eq [of code 64] div_mult_mod_eq [of "code div 64" 64] d2
      by linarith
    show ?thesis
      using check_3 [of "chr (224 + code div 4096)" "chr (128 + code div 64 mod 64)" "chr (128 + code mod 64)" code t]
        q d 3 assms(1) by (simp add: utf8_char_arith(3) [OF 3])
  next
    case 4
    then have q: "code div 262144 < 8" using lim by linarith
    have d2: "code div 64 div 64 = code div 4096" "code div 4096 div 64 = code div 262144"
      by (simp_all add: div_mult2_eq [symmetric])
    have d: "code = code div 262144 * 262144 + code div 4096 mod 64 * 4096 + code div 64 mod 64 * 64 + code mod 64"
      using div_mult_mod_eq [of code 64] div_mult_mod_eq [of "code div 64" 64] div_mult_mod_eq [of "code div 4096" 64] d2
      by linarith
    have u: "uc (chr (240 + code div 262144)) = 240 + code div 262144" using q by simp
    have v: "uc (chr (128 + x mod 64)) = 128 + x mod 64" for x
    proof -
      have "x mod 64 < 64" by simp
      then show ?thesis by (intro uc_chr) linarith
    qed
    have v2: "128 + x mod 64 < 192" for x :: nat
      using mod_less_divisor [of 64 x] by linarith
    have "check_utf8_loop (chr (240 + code div 262144) # chr (128 + code div 4096 mod 64) #
        chr (128 + code div 64 mod 64) # chr (128 + code mod 64) # t) =
        (if 0x10000 \<le> code \<and> valid_code code then check_utf8_loop t else Some False)"
    proof (rule check_4)
      show "code = (uc (chr (240 + code div 262144)) - 240) * 262144 + (uc (chr (128 + code div 4096 mod 64)) - 128) * 4096 +
          (uc (chr (128 + code div 64 mod 64)) - 128) * 64 + (uc (chr (128 + code mod 64)) - 128)"
        unfolding u v diff_add_inverse by (rule d)
    qed (use q v2 in \<open>simp_all only: u v le_add1 simp_thms nat_add_left_cancel_less\<close>, linarith?)
    then show ?thesis using 4 assms(1) by (simp add: utf8_char_arith(4) [OF 4 lim])
  qed
qed

lemma check_utf8_loop_inv:
  assumes "check_utf8_loop s = Some True"
  obtains a where "s = [a]" "uc a < 128"
    | code t where "valid_code code" "s = utf8_char code @ t" "t \<noteq> []" "check_utf8_loop t = Some True"
proof -
  have ne: "check_utf8_loop t = Some True \<Longrightarrow> t \<noteq> []" for t by (auto simp: check_utf8_loop.simps)
  obtain a s1 where s: "s = a # s1" using ne [OF assms] by (cases s) auto
  consider "uc a < 128" | "128 \<le> uc a" "uc a < 192" | "192 \<le> uc a" "uc a < 224" | "224 \<le> uc a" "uc a < 240"
    | "240 \<le> uc a" "uc a < 248" | "248 \<le> uc a" by linarith
  then show thesis
  proof cases
    case 1
    show thesis
    proof (cases "s1 = []")
      case False
      have "valid_code (uc a)" "utf8_char (uc a) = [a]"
        using 1 by (auto simp: valid_code_def utf8_char_arith)
      with 1 False assms s that(2) [of "uc a" s1] show thesis by (simp add: check_1)
    qed (use 1 s that(1) in simp)
  next
    case 2
    then show thesis using check_other(1) [of a s1] assms s by simp
  next
    case 3
    obtain b s2 where s1: "s1 = b # s2" using assms s 3 check_other(3) [of a] by (cases s1) auto
    have b: "continuation b" using assms check_other(2) [OF 3(1), of b s2] by (auto simp: s s1)
    have "check_utf8_loop (a # b # s2) = (if 194 \<le> uc a then check_utf8_loop s2 else Some False)"
      by (rule check_2 [OF 3 b])
    then have c: "194 \<le> uc a" "check_utf8_loop s2 = Some True"
      using assms by (auto simp: s s1 split: if_splits)
    define code where "code = (uc a - 192) * 64 + (uc b - 128)"
    have r: "0x7f < code" "code \<le> 0x7ff" "uc b - 128 < 64" using c(1) 3 b by (auto simp: code_def)
    have "code div 64 = uc a - 192" "code mod 64 = uc b - 128"
      unfolding code_def by (rule div_mod_digits(1) [OF r(3)], rule div_mod_digits(2) [OF r(3)])
    then have "utf8_char code = [a, b]"
      using 3 b utf8_char_arith(2) [OF r(1,2)] by simp
    moreover have "valid_code code" using r by (simp add: valid_code_def)
    ultimately show thesis using that(2) [of code s2] c(2) ne s s1 by simp
  next
    case 4
    then have 192: "192 \<le> uc a" by simp
    obtain b s2 where s1: "s1 = b # s2" using assms s check_other(3) [OF 192] by (cases s1) auto
    have b: "continuation b" using assms check_other(2) [OF 192, of b s2] by (auto simp: s s1)
    obtain c s3 where s2: "s2 = c # s3" using assms s s1 check_other(4) [OF 4(1)] by (cases s2) auto
    have c: "continuation c" using assms check_other(5) [OF 4(1), of c b s3] by (auto simp: s s1 s2)
    define code where "code = (uc a - 224) * 4096 + (uc b - 128) * 64 + (uc c - 128)"
    have k: "0x800 \<le> code" "valid_code code" "check_utf8_loop s3 = Some True"
      using assms check_3 [OF 4 b c code_def, of s3] by (auto simp: s s1 s2 split: if_splits)
    have c2: "code = ((uc a - 224) * 64 + (uc b - 128)) * 64 + (uc c - 128)" by (simp add: code_def)
    have l: "uc b - 128 < 64" "uc c - 128 < 64" using b c by auto
    have d: "code div 64 = (uc a - 224) * 64 + (uc b - 128)" "code mod 64 = uc c - 128"
      unfolding c2 by (rule div_mod_digits(1) [OF l(2)], rule div_mod_digits(2) [OF l(2)])
    have d2: "code div 64 div 64 = uc a - 224" "code div 64 mod 64 = uc b - 128"
      unfolding d by (rule div_mod_digits(1) [OF l(1)], rule div_mod_digits(2) [OF l(1)])
    have "uc a - 224 < 16" using 4 by linarith
    then have "code \<le> 0xffff" unfolding code_def using l by linarith
    moreover have "code div 4096 = code div 64 div 64" by (simp add: div_mult2_eq [symmetric])
    ultimately have "utf8_char code = [a, b, c]"
      using k(1) 4 b c utf8_char_arith(3) [of code] by (simp add: d2 d(2))
    then show thesis using that(2) [of code s3] k ne s s1 s2 by simp
  next
    case 5
    then have 192: "192 \<le> uc a" "224 \<le> uc a" by simp_all
    obtain b s2 where s1: "s1 = b # s2" using assms s check_other(3) [OF 192(1)] by (cases s1) auto
    have b: "continuation b" using assms check_other(2) [OF 192(1), of b s2] by (auto simp: s s1)
    obtain c s3 where s2: "s2 = c # s3" using assms s s1 check_other(4) [OF 192(2)] by (cases s2) auto
    have c: "continuation c" using assms check_other(5) [OF 192(2), of c b s3] by (auto simp: s s1 s2)
    obtain d s4 where s3: "s3 = d # s4" using assms s s1 s2 check_other(6) [OF 5(1)] by (cases s3) auto
    have d: "continuation d" using assms check_other(7) [OF 5(1), of d b c s4] by (auto simp: s s1 s2 s3)
    define code where "code = (uc a - 240) * 262144 + (uc b - 128) * 4096 + (uc c - 128) * 64 + (uc d - 128)"
    have k: "0x10000 \<le> code" "valid_code code" "check_utf8_loop s4 = Some True"
      using assms check_4 [OF 5 b c d code_def, of s4] by (auto simp: s s1 s2 s3 split: if_splits)
    have c2: "code = (((uc a - 240) * 64 + (uc b - 128)) * 64 + (uc c - 128)) * 64 + (uc d - 128)"
      by (simp add: code_def)
    have l: "uc b - 128 < 64" "uc c - 128 < 64" "uc d - 128 < 64" using b c d by auto
    have d1: "code div 64 = ((uc a - 240) * 64 + (uc b - 128)) * 64 + (uc c - 128)" "code mod 64 = uc d - 128"
      unfolding c2 by (rule div_mod_digits(1) [OF l(3)], rule div_mod_digits(2) [OF l(3)])
    have d2: "code div 64 div 64 = (uc a - 240) * 64 + (uc b - 128)" "code div 64 mod 64 = uc c - 128"
      unfolding d1 by (rule div_mod_digits(1) [OF l(2)], rule div_mod_digits(2) [OF l(2)])
    have d3: "code div 64 div 64 div 64 = uc a - 240" "code div 64 div 64 mod 64 = uc b - 128"
      unfolding d2 by (rule div_mod_digits(1) [OF l(1)], rule div_mod_digits(2) [OF l(1)])
    have e: "code div 4096 = code div 64 div 64" "code div 262144 = code div 64 div 64 div 64"
      by (simp_all add: div_mult2_eq [symmetric])
    have "utf8_char code = [a, b, c, d]"
      using k 5 b c d utf8_char_arith(4) [of code] by (simp add: e d3 d2(2) d1(2) valid_code_def)
    then show thesis using that(2) [of code s4] k ne s s1 s2 s3 by simp
  next
    case 6
    then have l: "192 \<le> uc a" "224 \<le> uc a" "240 \<le> uc a" by simp_all
    show thesis
      using assms s check_other(3) [OF l(1)] check_other(4) [OF l(2)] check_other(6) [OF l(3)] check_other(8) [OF 6]
      by (cases s1 rule: list.exhaust; cases "tl s1" rule: list.exhaust; cases "tl (tl s1)" rule: list.exhaust) auto
  qed
qed

subsection \<open>Properties\<close>

definition utf8_text :: "nat list \<Rightarrow> string" where
  "utf8_text cs = concat (map utf8_char cs)"

lemma check_utf8_loop_total:
  "s \<noteq> [] \<Longrightarrow> last s = chr 0 \<Longrightarrow> check_utf8_loop s \<noteq> None"
proof (induction "length s" arbitrary: s rule: less_induct)
  case less
  have z: "uc x AND 0x80 \<noteq> 0 \<or> uc x AND 0xc0 = 0x80 \<Longrightarrow> x \<noteq> chr 0" for x by auto
  have IH: "check_utf8_loop t \<noteq> None" if "s = h @ t" "h \<noteq> []" "t \<noteq> []" for h t
    using less that by auto
  obtain a s1 where s: "s = a # s1" using less.prems(1) by (cases s) auto
  show ?case
  proof (cases "uc a AND 0x80 = 0")
    case True
    show ?thesis
    proof (cases "s1 = []")
      case False
      then show ?thesis using True IH [of "[a]" s1] s by (subst check_utf8_loop.simps) (simp add: Let_def del: not_None_eq)
    qed (use True s in \<open>subst check_utf8_loop.simps, simp add: Let_def del: not_None_eq\<close>)
  next
    case a: False
    then have "s1 \<noteq> []" using less.prems(2) s z by auto
    then obtain b s2 where s1: "s1 = b # s2" by (cases s1) auto
    show ?thesis
    proof (cases "uc b AND 0xc0 = 0x80")
      case False
      then show ?thesis using a s s1 by (subst check_utf8_loop.simps) (simp add: Let_def del: not_None_eq)
    next
      case b: True
      then have "s2 \<noteq> []" using less.prems(2) s s1 z by auto
      then obtain c s3 where s2: "s2 = c # s3" by (cases s2) auto
      have 2: "check_utf8_loop s2 \<noteq> None" using IH [of "[a, b]" s2] s s1 s2 by simp
      show ?thesis
      proof (cases "uc c AND 0xc0 = 0x80")
        case False
        then show ?thesis using a b 2 s s1 s2 by (subst check_utf8_loop.simps) (simp add: Let_def del: not_None_eq)
      next
        case c: True
        then have "s3 \<noteq> []" using less.prems(2) s s1 s2 z by auto
        then obtain d s4 where s3: "s3 = d # s4" by (cases s3) auto
        have 3: "check_utf8_loop s3 \<noteq> None" using IH [of "[a, b, c]" s3] s s1 s2 s3 by simp
        have 4: "uc d AND 0xc0 = 0x80 \<Longrightarrow> s4 \<noteq> []" using less.prems(2) s s1 s2 s3 z by auto
        have 5: "uc d AND 0xc0 = 0x80 \<Longrightarrow> check_utf8_loop s4 \<noteq> None"
          using IH [of "[a, b, c, d]" s4] 4 s s1 s2 s3 by simp
        show ?thesis using a b c 2 3 5 s s1 s2 s3 by (subst check_utf8_loop.simps) (simp add: Let_def del: not_None_eq)
      qed
    qed
  qed
qed

lemma utf8_char_ne: "utf8_char c \<noteq> []"
  by (simp add: append_utf8_character_def)

lemma check_utf8_loop_text:
  "list_all valid_code cs \<Longrightarrow> check_utf8_loop (utf8_text cs @ [chr 0]) = Some True"
proof (induction cs)
  case Nil
  then show ?case by (simp add: utf8_text_def check_1)
next
  case (Cons c cs)
  then show ?case
    using check_utf8_loop_char [of c "utf8_text cs @ [chr 0]"] by (simp add: utf8_text_def)
qed

lemma check_utf8_loop_text_inv:
  "check_utf8_loop s = Some True \<Longrightarrow> \<exists>cs a. list_all valid_code cs \<and> s = utf8_text cs @ [a]"
proof (induction "length s" arbitrary: s rule: less_induct)
  case less
  from less.prems show ?case
  proof (cases rule: check_utf8_loop_inv)
    case (1 a)
    then show ?thesis by (intro exI [of _ "[]"] exI [of _ a]) (simp add: utf8_text_def)
  next
    case (2 code t)
    have "length t < length s" using 2(2) utf8_char_ne [of code] by simp
    from less.hyps [OF this 2(4)] obtain cs a where "list_all valid_code cs" "t = utf8_text cs @ [a]" by blast
    then show ?thesis using 2 by (intro exI [of _ "code # cs"] exI [of _ a]) (simp add: utf8_text_def)
  qed
qed

lemma check_utf8_text_iff: "check_utf8 s = Some True \<longleftrightarrow> (\<exists>cs. list_all valid_code cs \<and> s = utf8_text cs)"
proof
  assume "check_utf8 s = Some True"
  from check_utf8_loop_text_inv [OF this [unfolded check_utf8_def]]
  show "\<exists>cs. list_all valid_code cs \<and> s = utf8_text cs" by auto
next
  assume "\<exists>cs. list_all valid_code cs \<and> s = utf8_text cs"
  then show "check_utf8 s = Some True" using check_utf8_loop_text by (auto simp: check_utf8_def)
qed

text \<open>C27: \<^verbatim>\<open>check_utf8\<close> never reads past the terminator, and it accepts exactly the
  concatenations of the encodings of Unicode codes that are not surrogates: no overlong form, no
  surrogate and no code above U+10FFFF passes.\<close>

theorem check_utf8_iff:
  "check_utf8 s \<noteq> None \<and>
   (check_utf8 s = Some True \<longleftrightarrow> (\<exists>cs. list_all valid_code cs \<and> s = utf8_text cs))"
proof
  show "check_utf8 s \<noteq> None" unfolding check_utf8_def by (rule check_utf8_loop_total) simp_all
qed (rule check_utf8_text_iff)

subsection \<open>Characters of a valid text\<close>

lemma first_iff: "utf8_is_first c \<longleftrightarrow> \<not> continuation c"
  by (simp add: utf8_is_first_def continuation_iff)

lemma utf8_char_shape:
  assumes "valid_code c"
  shows "\<exists>f r. utf8_char c = f # r \<and> utf8_is_first f \<and> list_all (\<lambda>x. \<not> utf8_is_first x) r \<and>
    (240 \<le> uc f \<longleftrightarrow> 0xffff < c) \<and> uc f < 248"
proof -
  have u: "c < 0x110000" using assms by (simp add: valid_code_def)
  have m: "x mod 64 < 64" for x :: nat by simp
  consider "c \<le> 0x7f" | "0x7f < c" "c \<le> 0x7ff" | "0x7ff < c" "c \<le> 0xffff" | "0xffff < c" by linarith
  then show ?thesis
  proof cases
    case 1
    then show ?thesis by (simp add: utf8_char_arith first_iff)
  next
    case 2
    then have "c div 64 < 32" by linarith
    then show ?thesis using 2 m by (simp add: utf8_char_arith first_iff)
  next
    case 3
    then have "c div 4096 < 16" by linarith
    then show ?thesis using 3 m by (simp add: utf8_char_arith first_iff)
  next
    case 4
    then have "c div 262144 < 8" using u by linarith
    then show ?thesis using 4 u m by (simp add: utf8_char_arith first_iff)
  qed
qed

lemma utf8_cut_rest:
  "list_all (\<lambda>x. \<not> utf8_is_first x) r \<Longrightarrow> utf8_cut (r @ s) n = r @ utf8_cut s n"
  "list_all (\<lambda>x. \<not> utf8_is_first x) r \<Longrightarrow> utf8_utf16_cut (r @ s) w = r @ utf8_utf16_cut s w"
  by (induction r) auto

lemma utf8_cut_char:
  "valid_code c \<Longrightarrow> utf8_cut (utf8_char c @ s) n = (if n = 0 then [] else utf8_char c @ utf8_cut s (n - 1))"
  using utf8_char_shape [of c] by (auto simp: utf8_cut_rest)

lemma utf8_text_simps [simp]:
  "utf8_text [] = []" "utf8_text (c # cs) = utf8_char c @ utf8_text cs"
  "utf8_text (cs @ ds) = utf8_text cs @ utf8_text ds"
  by (simp_all add: utf8_text_def)

lemma utf8_length_text: "list_all valid_code cs \<Longrightarrow> utf8_length (utf8_text cs) = length cs"
proof (induction cs)
  case (Cons c cs)
  obtain f r where s: "utf8_char c = f # r" "utf8_is_first f" "list_all (\<lambda>x. \<not> utf8_is_first x) r"
    using utf8_char_shape [of c] Cons.prems by auto
  then have "filter utf8_is_first r = []" by (auto simp: filter_empty_conv list_all_iff)
  then show ?case using Cons s by (simp add: utf8_length_def)
qed (simp add: utf8_length_def)

lemma utf8_text_length: "length cs \<le> length (utf8_text cs)"
proof (induction cs)
  case (Cons c cs)
  then show ?case using utf8_char_ne [of c] by (cases "utf8_char c") auto
qed simp

lemma utf8_truncate_text:
  assumes "list_all valid_code cs"
  shows "utf8_truncate (utf8_text cs) n = utf8_text (take n cs)"
proof -
  have "utf8_cut (utf8_text cs) n = utf8_text (take n cs)" using assms
  proof (induction cs arbitrary: n)
    case (Cons c cs)
    then show ?case by (cases n) (simp_all add: utf8_cut_char)
  qed simp
  moreover have "take n cs = cs" if "length (utf8_text cs) \<le> n" using that utf8_text_length [of cs] by simp
  ultimately show ?thesis by (simp add: utf8_truncate_def)
qed

text \<open>On a valid text the operations on characters are those on the list of codes: the length is
  the number of codes, and a substring has the codes from the offset on, at most as many as asked for.\<close>

theorem utf8_substr_codes:
  assumes "list_all valid_code cs"
  shows "utf8_length (utf8_text cs) = length cs \<and>
    utf8_substr (utf8_text cs) offset n = utf8_text (take n (drop offset cs))"
proof
  show "utf8_length (utf8_text cs) = length cs" by (rule utf8_length_text [OF assms])
  have "utf8_text cs = utf8_text (take offset cs) @ utf8_text (drop offset cs)"
    using utf8_text_simps(3) [of "take offset cs" "drop offset cs"] by (simp only: append_take_drop_id)
  then have "utf8_substr_from (utf8_text cs) offset = utf8_text (drop offset cs)"
    using utf8_truncate_text [OF assms, of offset] by (cases "offset = 0") (simp_all add: utf8_substr_from_def)
  moreover have "list_all valid_code (drop offset cs)" using assms by (meson in_set_dropD list_all_iff)
  ultimately show "utf8_substr (utf8_text cs) offset n = utf8_text (take n (drop offset cs))"
    by (simp add: utf8_substr_def utf8_truncate_text)
qed

theorem utf8_substr_codes_witness:
  "list_all valid_code [0x41, 0x3b1, 0x1F600] \<and>
   utf8_substr (utf8_text [0x41, 0x3b1, 0x1F600]) 1 1 = utf8_text [0x3b1]"
  using utf8_substr_codes [of "[0x41, 0x3b1, 0x1F600]" 1 1] by (simp add: valid_code_def)

subsection \<open>Decoding\<close>

lemma nat_or_groups:
  fixes x y z w :: nat
  shows "y < 64 \<Longrightarrow> x * 64 OR y = x * 64 + y"
    and "y < 64 \<Longrightarrow> z < 64 \<Longrightarrow> (x * 4096 OR y * 64) OR z = x * 4096 + y * 64 + z"
    and "y < 64 \<Longrightarrow> z < 64 \<Longrightarrow> w < 64 \<Longrightarrow>
      ((x * 262144 OR y * 4096) OR z * 64) OR w = x * 262144 + y * 4096 + z * 64 + w"
  using nat_or_disjoint [of y 6 x] nat_or_disjoint [of "y * 64" 12 x] nat_or_disjoint [of z 6 "x * 64 + y"]
    nat_or_disjoint [of "y * 4096" 18 x] nat_or_disjoint [of "z * 64" 12 "x * 64 + y"]
    nat_or_disjoint [of w 6 "(x * 64 + y) * 64 + z"]
  by (simp_all add: algebra_simps)

lemma next_char_arith:
  "uc a < 128 \<Longrightarrow> next_utf8_unsafe (a # s) = Some (uc a, s)"
  "192 \<le> uc a \<Longrightarrow> uc a < 224 \<Longrightarrow> continuation b \<Longrightarrow>
     next_utf8_unsafe (a # b # s) = Some ((uc a - 192) * 64 + (uc b - 128), s)"
  "224 \<le> uc a \<Longrightarrow> uc a < 240 \<Longrightarrow> continuation b \<Longrightarrow> continuation c \<Longrightarrow>
     next_utf8_unsafe (a # b # c # s) = Some ((uc a - 224) * 4096 + (uc b - 128) * 64 + (uc c - 128), s)"
  "240 \<le> uc a \<Longrightarrow> uc a < 248 \<Longrightarrow> continuation b \<Longrightarrow> continuation c \<Longrightarrow> continuation d \<Longrightarrow>
     next_utf8_unsafe (a # b # c # d # s) =
       Some ((uc a - 240) * 262144 + (uc b - 128) * 4096 + (uc c - 128) * 64 + (uc d - 128), s)"
proof -
  have m6: "uc x AND 0x3f = uc x - 128" if "continuation x" for x
  proof -
    have "uc x div 64 = 2" using that by linarith
    then show ?thesis using div_mult_mod_eq [of "uc x" 64] by (simp add: utf8_masks)
  qed
  have l: "uc x - 128 < 64" if "continuation x" for x using that by linarith
  show "uc a < 128 \<Longrightarrow> next_utf8_unsafe (a # s) = Some (uc a, s)"
    by (simp add: next_utf8_unsafe_def lead_bits)
  show "next_utf8_unsafe (a # b # s) = Some ((uc a - 192) * 64 + (uc b - 128), s)"
    if h: "192 \<le> uc a" "uc a < 224" "continuation b"
  proof -
    have "uc a div 32 = 6" using h by linarith
    then have "uc a AND 0x1f = uc a - 192" using div_mult_mod_eq [of "uc a" 32] by (simp add: utf8_masks)
    then show ?thesis using h l [of b]
      by (simp add: next_utf8_unsafe_def lead_bits Let_def m6 nat_shiftl nat_or_groups)
  qed
  show "next_utf8_unsafe (a # b # c # s) = Some ((uc a - 224) * 4096 + (uc b - 128) * 64 + (uc c - 128), s)"
    if h: "224 \<le> uc a" "uc a < 240" "continuation b" "continuation c"
  proof -
    have "uc a div 16 = 14" using h by linarith
    then have e: "uc a AND 0x0f = uc a - 224" using div_mult_mod_eq [of "uc a" 16] by (simp add: utf8_masks)
    show ?thesis using h l [of b] l [of c]
      by (simp add: next_utf8_unsafe_def lead_bits Let_def m6 e nat_shiftl nat_or_groups )
  qed
  show "next_utf8_unsafe (a # b # c # d # s) =
       Some ((uc a - 240) * 262144 + (uc b - 128) * 4096 + (uc c - 128) * 64 + (uc d - 128), s)"
    if h: "240 \<le> uc a" "uc a < 248" "continuation b" "continuation c" "continuation d"
  proof -
    have "uc a div 8 = 30" using h by linarith
    then have e: "uc a AND 0x07 = uc a - 240" using div_mult_mod_eq [of "uc a" 8] by (simp add: utf8_masks)
    show ?thesis using h l [of b] l [of c] l [of d]
      by (simp add: next_utf8_unsafe_def lead_bits Let_def m6 e nat_shiftl nat_or_groups)
  qed
qed

lemma next_utf8_char:
  assumes "valid_code c"
  shows "next_utf8_unsafe (utf8_char c @ s) = Some (c, s)"
proof -
  have u: "c < 0x110000" using assms by (simp add: valid_code_def)
  have m: "x mod 64 < 64" for x :: nat by simp
  have d: "c div 4096 = c div 64 div 64" "c div 262144 = c div 64 div 64 div 64"
    by (simp_all add: div_mult2_eq [symmetric])
  have e: "c div 64 * 64 + c mod 64 = c"
    "c div 64 div 64 * 4096 + c div 64 mod 64 * 64 = c div 64 * 64"
    "c div 64 div 64 div 64 * 262144 + c div 64 div 64 mod 64 * 4096 = c div 64 div 64 * 4096"
    using div_mult_mod_eq [of c 64] div_mult_mod_eq [of "c div 64" 64] div_mult_mod_eq [of "c div 64 div 64" 64]
    by linarith+
  consider "c \<le> 0x7f" | "0x7f < c" "c \<le> 0x7ff" | "0x7ff < c" "c \<le> 0xffff" | "0xffff < c" by linarith
  then show ?thesis
  proof cases
    case 1
    then show ?thesis by (simp add: utf8_char_arith next_char_arith)
  next
    case 2
    then have "c div 64 < 32" by linarith
    then show ?thesis using 2 m e by (simp add: utf8_char_arith next_char_arith)
  next
    case 3
    then have "c div 4096 < 16" by linarith
    then show ?thesis using 3 m e by (simp add: utf8_char_arith next_char_arith d)
  next
    case 4
    define q where "q = c div 64 div 64 div 64"
    have "c div 262144 < 8" using 4 u by linarith
    then have q: "q < 8" by (simp only: q_def d(2))
    have b: "uc (chr (240 + q)) = 240 + q" "\<And>x. uc (chr (128 + x mod 64)) = 128 + x mod 64"
      using q m by simp_all
    have "next_utf8_unsafe (utf8_char c @ s) =
        Some (q * 262144 + (c div 64 div 64 mod 64) * 4096 + (c div 64 mod 64) * 64 + c mod 64, s)"
      unfolding utf8_char_arith(4) [OF 4 u] d q_def [symmetric]
      using next_char_arith(4) [of "chr (240 + q)" "chr (128 + c div 64 div 64 mod 64)"
        "chr (128 + c div 64 mod 64)" "chr (128 + c mod 64)" s] q m unfolding b by simp
    then show ?thesis using e unfolding q_def by simp
  qed
qed

lemma utf8_map_codes_text:
  "list_all valid_code cs \<Longrightarrow> length cs < fuel \<Longrightarrow>
     utf8_map_codes fuel f (utf8_text cs) result = Some (result @ utf8_text (List.map f cs))"
proof (induction cs arbitrary: fuel result)
  case Nil
  then show ?case by (cases fuel) simp_all
next
  case (Cons c cs)
  obtain g where g: "fuel = Suc g" "length cs < g" using Cons.prems by (cases fuel) auto
  show ?case
    using Cons g utf8_char_ne [of c] next_utf8_char [of c "utf8_text cs"] by (simp add: append_utf8_character_char [of result])
qed

text \<open>Changing the case of a valid text, character by character, reads no byte past its end and
  maps the list of codes.\<close>

theorem utf8_to_lower_codes:
  assumes "list_all valid_code cs"
  shows "utf8_to_lower unicode_to_lower (utf8_text cs) = Some (utf8_text (List.map unicode_to_lower cs))"
  using utf8_map_codes_text [OF assms, of "Suc (length (utf8_text cs))"] utf8_text_length [of cs]
  by (simp add: utf8_to_lower_def)

theorem utf8_to_lower_codes_witness:
  "utf8_to_lower (\<lambda>c. if c = 0x391 then 0x3b1 else c) (utf8_text [0x391, 0x42]) = Some (utf8_text [0x3b1, 0x42])"
  using utf8_to_lower_codes [of "[0x391, 0x42]" "\<lambda>c. if c = 0x391 then 0x3b1 else c"]
  by (simp add: valid_code_def)

subsection \<open>UTF-16 units\<close>

definition utf16_units :: "nat list \<Rightarrow> nat" where
  "utf16_units cs = (\<Sum>c \<leftarrow> cs. if 0xffff < c then 2 else 1)"

lemma utf16_units_simps [simp]:
  "utf16_units [] = 0" "utf16_units (c # cs) = (if 0xffff < c then 2 else 1) + utf16_units cs"
  "utf16_units (cs @ ds) = utf16_units cs + utf16_units ds"
  by (simp_all add: utf16_units_def)

lemma lead_4: "uc c AND 0xf8 = 0xf0 \<longleftrightarrow> 240 \<le> uc c \<and> uc c < 248"
proof -
  have "uc c div 8 < 32" using uc_bound [of c] by linarith
  moreover have "uc c AND 0xf8 = uc c div 8 mod 32 * 8"
    using nat_and_field [of "uc c" 5 3] by simp
  ultimately have "uc c AND 0xf8 = uc c div 8 * 8" by simp
  then show ?thesis by auto
qed

lemma utf8_utf16_length_text: "list_all valid_code cs \<Longrightarrow> utf8_utf16_length (utf8_text cs) = utf16_units cs"
proof (induction cs)
  case (Cons c cs)
  obtain f r where s: "utf8_char c = f # r" "utf8_is_first f" "list_all (\<lambda>x. \<not> utf8_is_first x) r"
    "240 \<le> uc f \<longleftrightarrow> 0xffff < c" "uc f < 248"
    using utf8_char_shape [of c] Cons.prems by auto
  have "utf8_utf16_length r = 0" if "list_all (\<lambda>x. \<not> utf8_is_first x) r" for r
    using that by (induction r) (auto simp: utf8_utf16_length_def lead_4 first_iff)
  with s(3) have "utf8_utf16_length r = 0" by blast
  then show ?case using Cons s(1,2,4,5) by (simp add: utf8_utf16_length_def lead_4)
qed (simp add: utf8_utf16_length_def)

lemma utf8_utf16_cut_char:
  assumes "valid_code c"
  shows "utf8_utf16_cut (utf8_char c @ s) n =
    (if n = 0 then [] else utf8_char c @ utf8_utf16_cut s (n - (if 0xffff < c then 2 else 1)))"
proof -
  obtain f r where "utf8_char c = f # r" "utf8_is_first f" "list_all (\<lambda>x. \<not> utf8_is_first x) r"
    "240 \<le> uc f \<longleftrightarrow> 0xffff < c"
    using utf8_char_shape [OF assms] by auto
  then show ?thesis by (auto simp: utf8_cut_rest word_le_0_iff)
qed

lemma utf8_utf16_cut_all:
  "list_all valid_code cs \<Longrightarrow> utf16_units cs \<le> unat n \<Longrightarrow> utf8_utf16_cut (utf8_text cs) n = utf8_text cs"
proof (induction cs arbitrary: n)
  case (Cons c cs)
  let ?w = "if 0xffff < c then 2 else 1 :: nat"
  have n: "of_nat ?w \<le> n" using Cons.prems(2) by (auto simp: word_le_nat_alt)
  then have "unat (n - of_nat ?w) = unat n - ?w" by (subst unat_sub) auto
  then have "utf8_utf16_cut (utf8_text cs) (n - of_nat ?w) = utf8_text cs"
    using Cons by (intro Cons.IH) auto
  moreover have "n \<noteq> 0" using Cons.prems(2) by (auto split: if_splits)
  ultimately show ?case using Cons.prems(1) by (auto simp: utf8_utf16_cut_char)
qed simp

lemma utf8_utf16_cut_at:
  "list_all valid_code (cs @ ds) \<Longrightarrow> utf16_units cs < 2 ^ 64 \<Longrightarrow> n < 2 ^ 64 - utf16_units cs \<Longrightarrow>
     utf8_utf16_cut (utf8_text (cs @ ds)) (of_nat (utf16_units cs + n)) =
     utf8_text cs @ utf8_utf16_cut (utf8_text ds) (of_nat n)"
proof (induction cs)
  case (Cons c cs)
  define w :: nat where "w = (if 0xffff < c then 2 else 1)"
  define m where "m = utf16_units cs + n"
  have k: "utf16_units (c # cs) + n = w + m" "0 < w" by (simp_all add: w_def m_def)
  have "w + m < 2 ^ 64" using Cons.prems(2,3) k(1) by linarith
  then have "unat (of_nat (w + m) :: uint64) = w + m" by (rule unat_of_nat_64)
  then have "of_nat (w + m) \<noteq> (0 :: uint64)" using k(2) by (metis add_is_0 less_numeral_extra(3) unat_0)
  moreover have "of_nat (w + m) - (if 0xffff < c then 2 else 1) = (of_nat m :: uint64)" by (simp add: w_def)
  moreover have "utf8_utf16_cut (utf8_text (cs @ ds)) (of_nat m) =
     utf8_text cs @ utf8_utf16_cut (utf8_text ds) (of_nat n)"
    unfolding m_def using Cons.prems by (intro Cons.IH) (auto split: if_splits)
  ultimately show ?case
    using Cons.prems(1) utf8_utf16_cut_char [of c "utf8_text (cs @ ds)" "of_nat (w + m)"] unfolding k by simp
qed simp

text \<open>Lengths in UTF-16 units count a code above U+FFFF twice, and truncating a valid text to the
  units of some of its characters keeps just these characters. But a limit in the middle of a surrogate
  pair truncates nothing: the counter wraps around and the whole text is returned, however long it is.\<close>

theorem utf8_utf16_truncate_units:
  assumes "list_all valid_code (cs @ ds)" and "utf16_units (cs @ ds) < 2 ^ 64"
  shows "utf8_utf16_length (utf8_text cs) = utf16_units cs \<and>
    utf8_utf16_truncate (utf8_text (cs @ ds)) (of_nat (utf16_units cs)) = utf8_text cs \<and>
    (ds \<noteq> [] \<longrightarrow> 0xffff < hd ds \<longrightarrow>
       utf8_utf16_truncate (utf8_text (cs @ ds)) (of_nat (utf16_units cs + 1)) = utf8_text (cs @ ds))"
proof (intro conjI impI)
  have v: "list_all valid_code cs" "list_all valid_code ds" using assms(1) by simp_all
  then show "utf8_utf16_length (utf8_text cs) = utf16_units cs" by (simp add: utf8_utf16_length_text)
  have "utf8_utf16_cut (utf8_text ds) 0 = []"
    using v(2) by (cases ds) (simp_all add: utf8_utf16_cut_char)
  then show "utf8_utf16_truncate (utf8_text (cs @ ds)) (of_nat (utf16_units cs)) = utf8_text cs"
    using utf8_utf16_cut_at [OF assms(1), of 0] assms(2) by (simp add: utf8_utf16_truncate_def)
  assume "ds \<noteq> []" "0xffff < hd ds"
  then obtain d es where d: "ds = d # es" "0xffff < d" by (cases ds) auto
  have "utf8_utf16_cut (utf8_text es) (- 1) = utf8_text es"
    using v d assms(2) by (intro utf8_utf16_cut_all) (auto simp: unat_minus_1_64)
  then have "utf8_utf16_cut (utf8_text ds) 1 = utf8_text ds"
    using v(2) d by (simp add: utf8_utf16_cut_char)
  then show "utf8_utf16_truncate (utf8_text (cs @ ds)) (of_nat (utf16_units cs + 1)) = utf8_text (cs @ ds)"
    using utf8_utf16_cut_at [OF assms(1), of 1] assms(2) d by (simp add: utf8_utf16_truncate_def)
qed

theorem utf8_utf16_truncate_units_witness:
  "utf8_utf16_truncate (utf8_text ([0x1F600] @ [0x1F600, 0x42, 0x43])) 3 = utf8_text [0x1F600, 0x1F600, 0x42, 0x43] \<and>
   utf8_utf16_truncate (utf8_text ([0x1F600] @ [0x1F600, 0x42, 0x43])) 2 = utf8_text [0x1F600]"
  using utf8_utf16_truncate_units [of "[0x1F600]" "[0x1F600, 0x42, 0x43]"] by (simp add: valid_code_def)

end
