(* ===== verification/Misc.thy ===== *)
theory Misc
  imports Utf8
begin

text \<open>
  The text and number utilities of \<^verbatim>\<open>pxcutils/pxc/utils/misc.h\<close> and
  \<^verbatim>\<open>misc.cpp\<close>: splitting and joining, classification and case of
  characters, padding and trimming, parsing of integers of a given width, and the checked narrowing
  cast. A template parameter that is an integral type is its signedness and its width \<open>w\<close> in bits;
  the arithmetic of the type is written out modulo \<open>2 ^ w\<close>. Floating-point parsing is left out.
\<close>

subsection \<open>Splitting and joining\<close>

definition split_at :: "string \<Rightarrow> char \<Rightarrow> string \<times> string" where
  "split_at s delimiter =
     (case find_char delimiter s of
        None \<Rightarrow> (s, [])
      | Some i \<Rightarrow> (take i s, drop (i + 1) s))"

text \<open>The loop of \<^verbatim>\<open>full_split\<close> takes one part per round; \<open>n\<close> is the size of
  the result so far.\<close>

function full_split_loop :: "char \<Rightarrow> nat \<Rightarrow> nat \<Rightarrow> string \<Rightarrow> string list" where
  "full_split_loop delimiter max_parts n s =
     (if n + 1 < max_parts
      then (case find_char delimiter s of
              None \<Rightarrow> [s]
            | Some i \<Rightarrow> take i s # full_split_loop delimiter max_parts (n + 1) (drop (i + 1) s))
      else [s])"
  by pat_completeness auto
termination
  by (relation "measure (\<lambda>(d, m, n, s). length s)") (auto dest: find_char_Some)

declare full_split_loop.simps [simp del]

definition full_split :: "string \<Rightarrow> char \<Rightarrow> nat \<Rightarrow> string list" where
  "full_split s delimiter max_parts =
     (if s = [] then [] else full_split_loop delimiter max_parts 0 s)"

fun implode_from :: "char \<Rightarrow> nat \<Rightarrow> string list \<Rightarrow> string" where
  "implode_from delimiter i [] = []"
| "implode_from delimiter i (x # xs) =
     (if i \<noteq> 0 then [delimiter] else []) @ x @ implode_from delimiter (i + 1) xs"

definition implode :: "string list \<Rightarrow> char \<Rightarrow> string" where
  "implode v delimiter = implode_from delimiter 0 v"

definition begins_with :: "string \<Rightarrow> string \<Rightarrow> bool" where
  "begins_with str prefix \<longleftrightarrow> length prefix \<le> length str \<and> prefix = take (length prefix) str"

definition ends_with :: "string \<Rightarrow> string \<Rightarrow> bool" where
  "ends_with str suffix \<longleftrightarrow>
     length suffix \<le> length str \<and> suffix = drop (length str - length suffix) str"

subsection \<open>Characters\<close>

definition to_lower_char :: "char \<Rightarrow> char" where
  "to_lower_char c = (if uc CHR ''A'' \<le> uc c \<and> uc c \<le> uc CHR ''Z'' then chr (uc c - uc CHR ''A'' + uc CHR ''a'') else c)"

definition to_lower :: "string \<Rightarrow> string" where
  "to_lower s = List.map to_lower_char s"

definition to_upper_char :: "char \<Rightarrow> char" where
  "to_upper_char c = (if uc CHR ''a'' \<le> uc c \<and> uc c \<le> uc CHR ''z'' then chr (uc c - uc CHR ''a'' + uc CHR ''A'') else c)"

definition to_upper :: "string \<Rightarrow> string" where
  "to_upper s = List.map to_upper_char s"

definition is_space :: "char \<Rightarrow> bool" where
  "is_space c \<longleftrightarrow> c = CHR '' '' \<or> uc c = 9 \<or> uc c = 13 \<or> uc c = 10 \<or> uc c = 0 \<or> uc c = 11"

text \<open>\<^verbatim>\<open>c |= 0x20\<close>; a \<^verbatim>\<open>char\<close> above 127 is negative, so it fails
  the comparison with a letter either way.\<close>

definition is_alpha :: "char \<Rightarrow> bool" where
  "is_alpha c \<longleftrightarrow> (let d = uc c OR 0x20 in uc CHR ''a'' \<le> d \<and> d \<le> uc CHR ''z'')"

definition is_digit :: "char \<Rightarrow> bool" where
  "is_digit c \<longleftrightarrow> uc CHR ''0'' \<le> uc c \<and> uc c \<le> uc CHR ''9''"

definition is_alnum :: "char \<Rightarrow> bool" where
  "is_alnum c \<longleftrightarrow> is_alpha c \<or> is_digit c"

definition is_hex_digit :: "char \<Rightarrow> bool" where
  "is_hex_digit c \<longleftrightarrow> is_digit c \<or> (let d = uc c OR 0x20 in uc CHR ''a'' \<le> d \<and> d \<le> uc CHR ''f'')"

definition hex_to_int :: "char \<Rightarrow> nat" where
  "hex_to_int c =
     (if is_digit c then uc c - uc CHR ''0''
      else let d = uc c OR 0x20
           in if uc CHR ''a'' \<le> d \<and> d \<le> uc CHR ''f'' then d - uc CHR ''a'' + 10 else 16)"

subsection \<open>Padding and trimming\<close>

definition trim :: "string \<Rightarrow> string" where
  "trim str = drop_back_while is_space (dropWhile is_space str)"

definition lpad :: "string \<Rightarrow> nat \<Rightarrow> char \<Rightarrow> string" where
  "lpad str n c = (if length str \<ge> n then str else replicate (n - length str) c @ str)"

definition lpad0 :: "string \<Rightarrow> nat \<Rightarrow> string" where
  "lpad0 str n = lpad str n CHR ''0''"

definition rpad :: "string \<Rightarrow> nat \<Rightarrow> char \<Rightarrow> string" where
  "rpad str n c = (if length str \<ge> n then str else str @ replicate (n - length str) c)"

fun oneline_loop :: "bool \<Rightarrow> string \<Rightarrow> string" where
  "oneline_loop after_new_line [] = []"
| "oneline_loop after_new_line (c # s) =
     (if uc c \<noteq> 10 \<and> uc c \<noteq> 13
      then (if after_new_line \<and> c = CHR '' '' then oneline_loop after_new_line s
            else c # oneline_loop False s)
      else if \<not> after_new_line then CHR '' '' # oneline_loop True s
      else oneline_loop after_new_line s)"

definition oneline :: "string \<Rightarrow> string" where
  "oneline str = drop_back_while (\<lambda>c. c = CHR '' '') (oneline_loop True str)"

subsection \<open>Integers\<close>

text \<open>The digits at the front of a string, accumulated modulo \<open>2 ^ w\<close>.\<close>

fun to_integer_loop :: "nat \<Rightarrow> nat \<Rightarrow> string \<Rightarrow> nat" where
  "to_integer_loop w integer_value [] = integer_value"
| "to_integer_loop w integer_value (c # s) =
     (if is_digit c then to_integer_loop w ((integer_value * 10 + (uc c - uc CHR ''0'')) mod 2 ^ w) s
      else integer_value)"

definition to_integer_signed :: "nat \<Rightarrow> string \<Rightarrow> int" where
  "to_integer_signed w str =
     (let is_negative = (str \<noteq> [] \<and> hd str = CHR ''-'');
          integer_value = to_integer_loop w 0 (if is_negative then tl str else str);
          maximum = 2 ^ (w - 1) - 1
      in if integer_value > maximum
         then (let integer_value = ((2 ^ w - 1 - integer_value) + 1) mod 2 ^ w;
                   is_negative = (\<not> is_negative)
               in if integer_value > maximum then - (2 ^ (w - 1))
                  else if is_negative then - int integer_value else int integer_value)
         else if is_negative then - int integer_value else int integer_value)"

definition to_integer_unsigned :: "nat \<Rightarrow> string \<Rightarrow> nat" where
  "to_integer_unsigned w str = to_integer_loop w 0 str"

definition get_to_integer_safe_error :: "string \<Rightarrow> status_error" where
  "get_to_integer_safe_error str =
     (let error_message = ''Can't parse as an integer string \"'' @ str @ ''\"''
      in if check_utf8 error_message \<noteq> Some True then Error_msg ''Strings must be encoded in UTF-8''
         else Error_msg error_message)"

definition to_integer_safe_signed :: "nat \<Rightarrow> string \<Rightarrow> int result" where
  "to_integer_safe_signed w str =
     (let res = to_integer_signed w str
      in if print_int w res \<noteq> str then Inl (get_to_integer_safe_error str) else Inr res)"

definition to_integer_safe_unsigned :: "nat \<Rightarrow> string \<Rightarrow> nat result" where
  "to_integer_safe_unsigned w str =
     (let res = to_integer_unsigned w str
      in if print_uint res \<noteq> str then Inl (get_to_integer_safe_error str) else Inr res)"

fun hex_to_integer_loop :: "nat \<Rightarrow> nat \<Rightarrow> string \<Rightarrow> nat" where
  "hex_to_integer_loop w integer_value [] = integer_value"
| "hex_to_integer_loop w integer_value (c # s) =
     (if is_hex_digit c then hex_to_integer_loop w ((integer_value * 16 + hex_to_int c) mod 2 ^ w) s
      else integer_value)"

definition hex_to_integer :: "nat \<Rightarrow> string \<Rightarrow> nat" where
  "hex_to_integer w str = hex_to_integer_loop w 0 str"

fun hex_to_integer_safe_loop :: "nat \<Rightarrow> nat \<Rightarrow> string \<Rightarrow> nat result" where
  "hex_to_integer_safe_loop w integer_value [] = Inr integer_value"
| "hex_to_integer_safe_loop w integer_value (c # s) =
     (let digit = hex_to_int c
      in if digit = 16 then error_result ''String contains non-hex digit''
         else if integer_value > (2 ^ w - 1) div 16 then error_result ''String hex number overflows''
         else hex_to_integer_safe_loop w ((integer_value * 16 + digit) mod 2 ^ w) s)"

definition hex_to_integer_safe :: "nat \<Rightarrow> string \<Rightarrow> nat result" where
  "hex_to_integer_safe w str =
     (if str = [] then error_result ''String is empty'' else hex_to_integer_safe_loop w 0 str)"

definition clamp :: "'a::linorder \<Rightarrow> 'a \<Rightarrow> 'a \<Rightarrow> 'a" where
  "clamp v min_value max_value =
     (if v < min_value then min_value else if v > max_value then max_value else v)"

subsection \<open>Narrowing casts\<close>

record int_type =
  type_signed :: bool
  type_width :: nat

text \<open>The conversion \<^verbatim>\<open>R(a)\<close> to an integral type.\<close>

definition convert_int :: "int_type \<Rightarrow> int \<Rightarrow> int" where
  "convert_int R a =
     (if type_signed R then (a + 2 ^ (type_width R - 1)) mod 2 ^ type_width R - 2 ^ (type_width R - 1)
      else a mod 2 ^ type_width R)"

definition narrow_cast_safe :: "int_type \<Rightarrow> int_type \<Rightarrow> int \<Rightarrow> int result" where
  "narrow_cast_safe R A a =
     (let r = convert_int R a
      in if convert_int A r \<noteq> a then error_result ''Narrow cast failed''
         else if \<not> (type_signed R = type_signed A \<or> (r < 0) = (a < 0)) then error_result ''Narrow cast failed''
         else Inr r)"

text \<open>\<^verbatim>\<open>narrow_cast\<close>: \<open>None\<close> is a failed \<^verbatim>\<open>LOG_CHECK\<close>.\<close>

definition narrow_cast :: "int_type \<Rightarrow> int_type \<Rightarrow> int \<Rightarrow> int option" where
  "narrow_cast R A a =
     (let r = convert_int R a
      in if convert_int A r \<noteq> a then None
         else if \<not> (type_signed R = type_signed A \<or> (r < 0) = (a < 0)) then None
         else Some r)"

subsection \<open>Splitting and joining are inverse\<close>

lemma implode_from_pos: "0 < i \<Longrightarrow> implode_from d i xs = concat (List.map (\<lambda>x. d # x) xs)"
  by (induction xs arbitrary: i) auto

lemma implode_Cons: "implode (x # xs) d = x @ (if xs = [] then [] else d # implode xs d)"
  by (cases xs) (simp_all add: implode_def implode_from_pos)

lemma full_split_loop_ne: "full_split_loop d m n s \<noteq> []"
  by (subst full_split_loop.simps) (auto split: option.splits)

lemma implode_full_split_loop: "implode (full_split_loop d m n s) d = s"
proof (induction d m n s rule: full_split_loop.induct)
  case (1 d m n s)
  show ?case
  proof (cases "n + 1 < m \<and> find_char d s \<noteq> None")
    case True
    then obtain i where i: "find_char d s = Some i" by auto
    have "implode (full_split_loop d m (n + 1) (drop (i + 1) s)) d = drop (i + 1) s"
      using 1 i True by blast
    then show ?thesis
      using True i find_char_split [OF i] full_split_loop_ne
      by (subst full_split_loop.simps) (simp add: implode_Cons)
  next
    case False
    then have "full_split_loop d m n s = [s]" by (subst full_split_loop.simps) (auto split: option.splits)
    then show ?thesis by (simp add: implode_Cons implode_def)
  qed
qed

lemma full_split_loop_parts:
  "length (full_split_loop d m n s) + n \<le> max m (n + 1)"
proof (induction d m n s rule: full_split_loop.induct)
  case (1 d m n s)
  show ?case
  proof (cases "n + 1 < m \<and> find_char d s \<noteq> None")
    case True
    then obtain i where i: "find_char d s = Some i" by auto
    have "length (full_split_loop d m (n + 1) (drop (i + 1) s)) + (n + 1) \<le> max m (n + 1 + 1)"
      using 1 i True by blast
    then show ?thesis using True i by (subst full_split_loop.simps) simp
  next
    case False
    then have "full_split_loop d m n s = [s]" by (subst full_split_loop.simps) (auto split: option.splits)
    then show ?thesis by simp
  qed
qed

lemma full_split_loop_clean:
  "x \<in> set (butlast (full_split_loop d m n s)) \<Longrightarrow> d \<notin> set x"
proof (induction d m n s arbitrary: x rule: full_split_loop.induct)
  case (1 d m n s)
  show ?case
  proof (cases "n + 1 < m \<and> find_char d s \<noteq> None")
    case True
    then obtain i where i: "find_char d s = Some i" by auto
    have e: "full_split_loop d m n s = take i s # full_split_loop d m (n + 1) (drop (i + 1) s)"
      using True i by (subst full_split_loop.simps) simp
    show ?thesis
    proof (cases "x = take i s")
      case True
      then show ?thesis using find_char_Some [OF i] by simp
    next
      case False
      then show ?thesis
        using 1 i True full_split_loop_ne unfolding e by (auto split: if_splits)
    qed
  next
    case False
    then have "full_split_loop d m n s = [s]" by (subst full_split_loop.simps) (auto split: option.splits)
    then show ?thesis using 1 by simp
  qed
qed

text \<open>Joining the parts of a split with the delimiter gives the string back, whatever the limit on
  the number of parts; no part but the last contains the delimiter, and the limit is respected.\<close>

theorem implode_full_split:
  "implode (full_split s d m) d = s \<and>
   (\<forall>x \<in> set (butlast (full_split s d m)). d \<notin> set x) \<and>
   length (full_split s d m) \<le> max m 1"
proof (cases "s = []")
  case True
  then show ?thesis by (simp add: full_split_def implode_def)
next
  case False
  then show ?thesis
    using implode_full_split_loop [of d m 0 s] full_split_loop_parts [of d m 0 s]
    by (auto simp: full_split_def dest: full_split_loop_clean)
qed

theorem implode_full_split_witness: "CHR '','' \<notin> set ''a''"
proof -
  have "''a'' \<in> set (butlast (full_split ''a,b'' CHR '','' 3))"
    by (simp add: full_split_def full_split_loop.simps)
  then show ?thesis using implode_full_split by blast
qed

subsection \<open>Parsing integers\<close>

lemma digit_simps [char_simps]:
  "n < 10 \<Longrightarrow> is_digit (chr (48 + n))" "n < 10 \<Longrightarrow> uc (chr (48 + n)) = 48 + n"
  by (simp_all add: is_digit_def)

lemma to_integer_loop_append:
  "list_all is_digit s \<Longrightarrow> to_integer_loop w acc (s @ t) = to_integer_loop w (to_integer_loop w acc s) t"
  by (induction s arbitrary: acc) simp_all

lemma decimal_digits: "list_all is_digit (decimal n)"
proof (induction n rule: decimal.induct)
  case (1 n)
  then show ?case by (subst decimal.simps) (simp add: char_simps)
qed

lemma to_integer_loop_decimal: "to_integer_loop w 0 (decimal n) = n mod 2 ^ w"
proof (induction n rule: decimal.induct)
  case (1 n)
  show ?case
  proof (cases "n < 10")
    case True
    then show ?thesis by (subst decimal.simps) (simp add: char_simps)
  next
    case False
    have d: "to_integer_loop w 0 (decimal (n div 10)) = n div 10 mod 2 ^ w" by (rule 1 [OF False])
    have "(n div 10 mod 2 ^ w * 10 + n mod 10) mod 2 ^ w = (n div 10 * 10 + n mod 10) mod 2 ^ w"
      by (metis mod_add_left_eq mod_mult_left_eq)
    then show ?thesis
      using False decimal_digits [of "n div 10"] d
      by (subst decimal.simps) (simp add: to_integer_loop_append char_simps)
  qed
qed

lemma to_integer_loop_bound: "acc < 2 ^ w \<Longrightarrow> to_integer_loop w acc s < 2 ^ w"
  by (induction s arbitrary: acc) simp_all

lemma decimal_hd: "hd (decimal n) \<noteq> CHR ''-''"
proof -
  have "is_digit (hd (decimal n))" using decimal_digits [of n] by (cases "decimal n") auto
  then show ?thesis by (auto simp: is_digit_def)
qed

lemma pow2_split: "1 \<le> w \<Longrightarrow> (2::nat) ^ w = 2 * 2 ^ (w - 1)"
  by (cases w) simp_all

lemma to_integer_signed_range:
  assumes "1 \<le> w"
  shows "- (2 ^ (w - 1)) \<le> to_integer_signed w s" "to_integer_signed w s < 2 ^ (w - 1)"
proof -
  have m: "int v < 2 ^ (w - 1)" if "\<not> v > 2 ^ (w - 1) - 1" for v :: nat
  proof -
    have "v < 2 ^ (w - 1)" using that by (simp add: not_less) (metis One_nat_def Suc_pred less_Suc_eq_le zero_less_power zero_less_numeral)
    then show ?thesis by (metis of_nat_less_iff of_nat_numeral of_nat_power)
  qed
  have p: "(0::int) < 2 ^ (w - 1)" by simp
  define R where "R x \<longleftrightarrow> - (2 ^ (w - 1)) \<le> x \<and> x < (2 ^ (w - 1) :: int)" for x
  have r: "R (- int v)" "R (int v)" if "\<not> v > 2 ^ (w - 1) - 1" for v :: nat
    unfolding R_def using m [OF that] p by linarith+
  have r0: "R (- (2 ^ (w - 1)))" unfolding R_def using p by linarith
  have "R (to_integer_signed w s)"
    unfolding to_integer_signed_def Let_def by (intro if_split [of R, THEN iffD2] conjI impI r r0)
  then show "- (2 ^ (w - 1)) \<le> to_integer_signed w s" "to_integer_signed w s < 2 ^ (w - 1)"
    by (simp_all add: R_def)
qed

lemma to_integer_signed_decimal:
  assumes w: "1 \<le> w" and r: "- (2 ^ (w - 1)) \<le> r" "r < 2 ^ (w - 1)"
  shows "to_integer_signed w (decimal_int r) = r"
proof -
  define p :: nat where "p = 2 ^ (w - 1)"
  have p: "(2::nat) ^ w = 2 * p" "(2::int) ^ (w - 1) = int p" "0 < p"
    using pow2_split [OF w] by (simp_all add: p_def)
  show ?thesis
  proof (cases "r < 0")
    case True
    have v: "to_integer_loop w 0 (decimal (nat (- r))) = nat (- r)"
      unfolding to_integer_loop_decimal p(1) using True r p(2,3) by (intro mod_less) linarith
    have d: "decimal_int r = CHR ''-'' # decimal (nat (- r))" using True by (simp add: decimal_int_def)
    show ?thesis
    proof (cases "nat (- r) = p")
      case True
      have "(2 * p - 1 - p + 1) mod (2 * p) = p" using p(3) by simp
      moreover have "int p = - r" using True p(3) by linarith
      ultimately show ?thesis
        using v True p(3) unfolding to_integer_signed_def Let_def d p(1,2) p_def [symmetric] by simp
    next
      case False
      then have "\<not> nat (- r) > p - 1" using r p True by linarith
      then show ?thesis
        using v True p by (simp add: to_integer_signed_def d Let_def p_def [symmetric])
    qed
  next
    case False
    have v: "to_integer_loop w 0 (decimal (nat r)) = nat r"
      unfolding to_integer_loop_decimal p(1) using False r p(2,3) by (intro mod_less) linarith
    have d: "decimal_int r = decimal (nat r)" using False by (simp add: decimal_int_def)
    have "\<not> nat r > p - 1" using r p False by linarith
    then show ?thesis
      using v False p decimal_hd [of "nat r"] by (simp add: to_integer_signed_def d Let_def p_def [symmetric])
  qed
qed

lemma to_integer_safe_Inr_iff:
  assumes "2 \<le> w"
  shows "(to_integer_safe_signed w s = Inr r \<longleftrightarrow> s = decimal_int r \<and> - (2 ^ (w - 1)) \<le> r \<and> r < 2 ^ (w - 1)) \<and>
    (to_integer_safe_unsigned w s = Inr n \<longleftrightarrow> s = decimal n \<and> n < 2 ^ w)"
proof (intro conjI iffI)
  note rng = to_integer_signed_range [of w s] and pr = print_int_decimal [OF assms]
  assume "to_integer_safe_signed w s = Inr r"
  then have r: "r = to_integer_signed w s" "s = decimal_int r"
    by (auto simp: to_integer_safe_signed_def Let_def pr split: if_splits)
  then show "s = decimal_int r" "- (2 ^ (w - 1)) \<le> r" "r < 2 ^ (w - 1)" using rng assms by simp_all
next
  assume "s = decimal_int r \<and> - (2 ^ (w - 1)) \<le> r \<and> r < 2 ^ (w - 1)"
  then show "to_integer_safe_signed w s = Inr r"
    using assms to_integer_signed_decimal [of w r] print_int_decimal [OF assms, of r]
    by (simp add: to_integer_safe_signed_def)
next
  assume "to_integer_safe_unsigned w s = Inr n"
  then have n: "n = to_integer_loop w 0 s" "s = decimal n"
    by (auto simp: to_integer_safe_unsigned_def to_integer_unsigned_def Let_def print_uint_decimal split: if_splits)
  then show "s = decimal n" "n < 2 ^ w" using to_integer_loop_bound [of 0 w s] by simp_all
next
  assume "s = decimal n \<and> n < 2 ^ w"
  then show "to_integer_safe_unsigned w s = Inr n"
    by (simp add: to_integer_safe_unsigned_def to_integer_unsigned_def print_uint_decimal to_integer_loop_decimal)
qed

text \<open>C32: The safe parser of integers of any width accepts exactly the decimal notations of the values of
  the type, with no sign but a minus, no leading zero and no overflow, and returns the value.\<close>

theorem to_integer_safe_iff:
  assumes "2 \<le> w"
  shows "(to_integer_safe_signed w s = Inr r \<longleftrightarrow> s = decimal_int r \<and> - (2 ^ (w - 1)) \<le> r \<and> r < 2 ^ (w - 1)) \<and>
    (to_integer_safe_unsigned w s = Inr n \<longleftrightarrow> s = decimal n \<and> n < 2 ^ w)"
  using assms by (rule to_integer_safe_Inr_iff)

theorem to_integer_safe_iff_witness:
  "to_integer_safe_signed 8 (decimal_int (- 128)) = Inr (- 128) \<and> to_integer_safe_signed 8 (decimal_int 128) \<noteq> Inr 128"
  using to_integer_safe_iff [of 8 "decimal_int (- 128)" "- 128"] to_integer_safe_iff [of 8 "decimal_int 128" 128]
  by simp

subsection \<open>Hexadecimal numbers\<close>

definition hex_value :: "nat \<Rightarrow> string \<Rightarrow> nat" where
  "hex_value acc s = foldl (\<lambda>a c. a * 16 + hex_to_int c) acc s"

lemma hex_to_int_iff: "hex_to_int c \<noteq> 16 \<longleftrightarrow> is_hex_digit c" "hex_to_int c \<le> 16"
  by (auto simp: hex_to_int_def is_hex_digit_def is_digit_def Let_def)

lemma hex_value_ge: "acc \<le> hex_value acc s"
proof (induction s arbitrary: acc)
  case (Cons c s)
  from Cons [of "acc * 16 + hex_to_int c"] show ?case by (simp add: hex_value_def)
qed (simp add: hex_value_def)

lemma hex_to_integer_safe_loop_iff:
  assumes "4 \<le> w"
  shows "acc < 2 ^ w \<Longrightarrow> hex_to_integer_safe_loop w acc s = Inr n \<longleftrightarrow>
    list_all is_hex_digit s \<and> n = hex_value acc s \<and> n < 2 ^ w"
proof (induction s arbitrary: acc)
  case Nil
  then show ?case by (auto simp: hex_value_def)
next
  case (Cons c s)
  define q :: nat where "q = 2 ^ (w - 4)"
  have q: "(2::nat) ^ w = 16 * q" "0 < q"
    using assms power_add [of "2::nat" 4 "w - 4"] by (simp_all add: q_def)
  have div: "(16 * q - 1) div 16 = q - 1" using q(2) by linarith
  have v: "hex_value acc (c # s) = hex_value (acc * 16 + hex_to_int c) s" by (simp add: hex_value_def)
  show ?case
  proof (cases "hex_to_int c = 16")
    case True
    then show ?thesis using hex_to_int_iff(1) [of c] by simp
  next
    case c: False
    then have d: "hex_to_int c < 16" "is_hex_digit c" using hex_to_int_iff [of c] by simp_all
    show ?thesis
    proof (cases "acc > q - 1")
      case True
      then have "16 * q \<le> acc * 16 + hex_to_int c" using q(2) by linarith
      then have "\<not> hex_value (acc * 16 + hex_to_int c) s < 16 * q"
        using hex_value_ge [of "acc * 16 + hex_to_int c" s] by linarith
      then show ?thesis using True c q div v by auto
    next
      case False
      then have "acc * 16 + hex_to_int c < 16 * q" using d q(2) by linarith
      then show ?thesis using Cons.IH [of "acc * 16 + hex_to_int c"] False c d q div v by simp
    qed
  qed
qed

text \<open>The safe parser of hexadecimal numbers accepts exactly the non-empty strings of hexadecimal
  digits whose value fits the type: every error it reports is one, and the accumulator never wraps.\<close>

theorem hex_to_integer_safe_iff:
  assumes "4 \<le> w"
  shows "hex_to_integer_safe w s = Inr n \<longleftrightarrow>
    s \<noteq> [] \<and> list_all is_hex_digit s \<and> n = hex_value 0 s \<and> n < 2 ^ w"
  using hex_to_integer_safe_loop_iff [OF assms, of 0 s n] by (auto simp: hex_to_integer_safe_def)

theorem hex_to_integer_safe_iff_witness:
  "hex_to_integer_safe 8 ''fF'' = Inr 255 \<and> hex_to_integer_safe 8 ''100'' \<noteq> Inr 256"
  using hex_to_integer_safe_iff [of 8 "''fF''" 255] hex_to_integer_safe_iff [of 8 "''100''" 256]
  by (simp add: is_hex_digit_def is_digit_def hex_value_def hex_to_int_def)

subsection \<open>Narrowing casts are exact\<close>

definition type_min :: "int_type \<Rightarrow> int" where
  "type_min T = (if type_signed T then - (2 ^ (type_width T - 1)) else 0)"

definition type_max :: "int_type \<Rightarrow> int" where
  "type_max T = (if type_signed T then 2 ^ (type_width T - 1) - 1 else 2 ^ type_width T - 1)"

definition in_type :: "int_type \<Rightarrow> int \<Rightarrow> bool" where
  "in_type T a \<longleftrightarrow> type_min T \<le> a \<and> a \<le> type_max T"

lemma int_pow2_split: "1 \<le> w \<Longrightarrow> (2::int) ^ w = 2 * 2 ^ (w - 1)"
  by (cases w) simp_all

lemma convert_int_in: "1 \<le> type_width T \<Longrightarrow> in_type T (convert_int T a)"
proof -
  assume w: "1 \<le> type_width T"
  define h :: int where "h = 2 ^ (type_width T - 1)"
  have h: "(2::int) ^ type_width T = 2 * h" "0 < h" using int_pow2_split [OF w] by (simp_all add: h_def)
  have "0 \<le> b mod (2 * h)" "b mod (2 * h) \<le> 2 * h - 1" for b using h(2) by (simp_all add: int_one_le_iff_zero_less zle_diff1_eq)
  then show ?thesis
    unfolding in_type_def convert_int_def type_min_def type_max_def h(1) h_def [symmetric]
    by (simp split: if_splits)
qed

lemma convert_int_id: "1 \<le> type_width T \<Longrightarrow> in_type T a \<Longrightarrow> convert_int T a = a"
proof -
  assume w: "1 \<le> type_width T" and a: "in_type T a"
  define h :: int where "h = 2 ^ (type_width T - 1)"
  have h: "(2::int) ^ type_width T = 2 * h" "0 < h" using int_pow2_split [OF w] by (simp_all add: h_def)
  show ?thesis
  proof (cases "type_signed T")
    case True
    then have "0 \<le> a + h" "a + h < 2 * h" using a unfolding in_type_def type_min_def type_max_def h_def by simp_all
    then have "(a + h) mod (2 * h) = a + h" by (rule mod_pos_pos_trivial)
    then show ?thesis using True by (simp only: convert_int_def h(1) h_def [symmetric] if_True)
  next
    case False
    then have "0 \<le> a" "a < 2 * h" using a h(1) unfolding in_type_def type_min_def type_max_def by simp_all
    then have "a mod (2 * h) = a" by (rule mod_pos_pos_trivial)
    then show ?thesis using False by (simp only: convert_int_def h(1) if_False)
  qed
qed

text \<open>Two types bound the numbers of one sign by powers of two, so one of the bounds implies the
  other.\<close>

lemma types_nested:
  assumes "in_type R r" "\<not> in_type A r" "in_type A a"
    and "type_signed R = type_signed A \<or> (r < 0) = (a < 0)"
    and "1 \<le> type_width R" "1 \<le> type_width A"
  shows "in_type R a"
proof -
  define h k :: int where "h = 2 ^ (type_width R - 1)" and "k = 2 ^ (type_width A - 1)"
  have e: "(2::int) ^ type_width R = 2 * h" "(2::int) ^ type_width A = 2 * k" "0 < h" "0 < k"
    using int_pow2_split [OF assms(5)] int_pow2_split [OF assms(6)] by (simp_all add: h_def k_def)
  from assms(1-4) show ?thesis
    unfolding in_type_def type_min_def type_max_def e(1,2) h_def [symmetric] k_def [symmetric]
    using e(3,4) by (auto split: if_splits)
qed

text \<open>Whatever the two integral types, the narrowing cast of a value of its type gives the value when
  the target type has it and fails otherwise; the two comparisons of the code leave no gap.\<close>

theorem narrow_cast_exact:
  assumes "1 \<le> type_width R" and "1 \<le> type_width A" and "in_type A a"
  shows "narrow_cast_safe R A a = (if in_type R a then Inr a else error_result ''Narrow cast failed'') \<and>
    narrow_cast R A a = (if in_type R a then Some a else None)"
proof (cases "in_type R a")
  case True
  then have "convert_int R a = a" "convert_int A a = a" using assms by (simp_all add: convert_int_id)
  then show ?thesis using True by (simp add: narrow_cast_safe_def narrow_cast_def)
next
  case False
  have r: "in_type R (convert_int R a)" by (rule convert_int_in [OF assms(1)])
  have "convert_int A (convert_int R a) \<noteq> a \<or>
    \<not> (type_signed R = type_signed A \<or> (convert_int R a < 0) = (a < 0))"
  proof (cases "in_type A (convert_int R a)")
    case True
    then have "convert_int A (convert_int R a) = convert_int R a" using assms(2) by (simp add: convert_int_id)
    then show ?thesis using False r by auto
  next
    case f: False
    show ?thesis using types_nested [OF r f assms(3) _ assms(1,2)] False by blast
  qed
  then show ?thesis using False by (auto simp: narrow_cast_safe_def narrow_cast_def Let_def)
qed

theorem narrow_cast_exact_witness:
  "narrow_cast \<lparr>type_signed = False, type_width = 8\<rparr> \<lparr>type_signed = True, type_width = 8\<rparr> (- 1) = None"
  using narrow_cast_exact [of "\<lparr>type_signed = False, type_width = 8\<rparr>" "\<lparr>type_signed = True, type_width = 8\<rparr>" "- 1"]
  by (simp add: in_type_def type_min_def type_max_def)

end
