(* ===== verification/Codecs.thy ===== *)
theory Codecs
  imports Misc Base64
begin

text \<open>
  The byte codecs of \<^verbatim>\<open>pxcutils/pxc/utils/misc.cpp\<close>: hexadecimal, URL, zero
  and zero-one run-length encoding, and the contract all the encodings of the library share: the decoder
  gives back what was encoded. The loops of the source run over indices; the model runs over the rest of
  the string. A growing \<^verbatim>\<open>StringBuilder\<close> collects exactly what is appended
  (\<open>sb_growing_complete\<close>), so its text is the result of the recursion.
\<close>

subsection \<open>The contract\<close>

locale codec =
  fixes enc :: "string \<Rightarrow> 'a" and dec :: "'a \<Rightarrow> 'e + string"
  assumes dec_enc: "dec (enc s) = Inr s"
begin

lemma enc_inj: "enc s = enc t \<longleftrightarrow> s = t"
  by (metis dec_enc sum.inject(2))

lemma dec_onto: "\<exists>x. dec x = Inr s"
  using dec_enc by blast

end

text \<open>A codec whose decoder accepts nothing but encodings.\<close>

locale exact_codec = codec +
  assumes dec_exact: "dec x = Inr s \<Longrightarrow> x = enc s"
begin

lemma dec_iff: "dec x = Inr s \<longleftrightarrow> x = enc s"
  using dec_enc dec_exact by blast

lemma dec_inj: "dec x = Inr s \<Longrightarrow> dec y = Inr s \<Longrightarrow> x = y"
  using dec_exact by metis

end

subsection \<open>Hexadecimal\<close>

fun hex_decode_loop :: "string \<Rightarrow> string result" where
  "hex_decode_loop (a # b # s) =
     (let high = hex_to_int a; low = hex_to_int b
      in if high = 16 \<or> low = 16 then error_result ''Wrong hex string''
         else try_bind (hex_decode_loop s) (\<lambda>r. Inr (chr (high * 16 + low) # r)))"
| "hex_decode_loop s = Inr []"

definition hex_decode :: "string \<Rightarrow> string result" where
  "hex_decode hex =
     (if length hex mod 2 \<noteq> 0 then error_result ''Wrong hex string length'' else hex_decode_loop hex)"

fun hex_encode :: "string \<Rightarrow> string" where
  "hex_encode [] = []"
| "hex_encode (c # s) =
     ''0123456789abcdef'' ! drop_bit 4 (uc c) # ''0123456789abcdef'' ! (uc c AND 15) # hex_encode s"

text \<open>\<^verbatim>\<open>buffer_to_hex\<close> prints the low half of a byte first.\<close>

fun buffer_to_hex :: "string \<Rightarrow> string" where
  "buffer_to_hex [] = []"
| "buffer_to_hex (c # s) =
     ''0123456789ABCDEF'' ! (uc c AND 15) # ''0123456789ABCDEF'' ! drop_bit 4 (uc c) # buffer_to_hex s"

subsection \<open>URL encoding\<close>

definition is_url_char :: "char \<Rightarrow> bool" where
  "is_url_char c \<longleftrightarrow> is_alnum c \<or> c = CHR ''-'' \<or> c = CHR ''.'' \<or> c = CHR ''_'' \<or> c = CHR ''~''"

fun url_encode_loop :: "string \<Rightarrow> string" where
  "url_encode_loop [] = []"
| "url_encode_loop (c # s) =
     (if is_url_char c then c # url_encode_loop s
      else CHR ''%'' # ''0123456789ABCDEF'' ! (uc c div 16) # ''0123456789ABCDEF'' ! (uc c mod 16) #
        url_encode_loop s)"

text \<open>\<open>None\<close> is the failed \<^verbatim>\<open>CHECK\<close> on the precomputed length.\<close>

definition url_encode :: "string \<Rightarrow> string option" where
  "url_encode data =
     (let n = foldl (\<lambda>n c. n - 2 * (if is_url_char c then 1 else 0)) (3 * length data) data
      in if n = length data then Some data
         else let result = url_encode_loop data
              in if length result = n then Some result else None)"

function url_decode_loop :: "bool \<Rightarrow> string \<Rightarrow> string" where
  "url_decode_loop as_space [] = []"
| "url_decode_loop as_space (c # s) =
     (if c = CHR ''%'' \<and> 2 \<le> length s \<and> hex_to_int (s ! 0) < 16 \<and> hex_to_int (s ! 1) < 16
      then chr (hex_to_int (s ! 0) * 16 + hex_to_int (s ! 1)) # url_decode_loop as_space (drop 2 s)
      else (if as_space \<and> c = CHR ''+'' then CHR '' '' else c) # url_decode_loop as_space s)"
  by pat_completeness auto
termination by (relation "measure (\<lambda>(p, s). length s)") auto

definition url_decode :: "string \<Rightarrow> bool \<Rightarrow> string" where
  "url_decode s decode_plus_sign_as_space = url_decode_loop decode_plus_sign_as_space s"

text \<open>\<^verbatim>\<open>url_decode_inplace\<close> passes the same memory as source and target: the
  loop reads the buffer it writes.\<close>

function url_decode_inplace_loop :: "bool \<Rightarrow> string \<Rightarrow> nat \<Rightarrow> nat \<Rightarrow> nat \<times> string" where
  "url_decode_inplace_loop as_space buf from_i to_i =
     (if from_i < length buf
      then if buf ! from_i = CHR ''%'' \<and> from_i + 2 < length buf \<and>
                hex_to_int (buf ! (from_i + 1)) < 16 \<and> hex_to_int (buf ! (from_i + 2)) < 16
           then url_decode_inplace_loop as_space
                  (buf[to_i := chr (hex_to_int (buf ! (from_i + 1)) * 16 + hex_to_int (buf ! (from_i + 2)))])
                  (from_i + 3) (to_i + 1)
           else url_decode_inplace_loop as_space
                  (buf[to_i := (if as_space \<and> buf ! from_i = CHR ''+'' then CHR '' '' else buf ! from_i)])
                  (from_i + 1) (to_i + 1)
      else (to_i, buf))"
  by pat_completeness auto
termination by (relation "measure (\<lambda>(p, buf, f, t). length buf - f)") auto

declare url_decode_inplace_loop.simps [simp del]

definition url_decode_inplace :: "string \<Rightarrow> bool \<Rightarrow> string" where
  "url_decode_inplace str decode_plus_sign_as_space =
     (let (result_size, buf) = url_decode_inplace_loop decode_plus_sign_as_space str 0 0
      in take result_size buf)"

subsection \<open>Run-length encoding of zero bytes\<close>

fun run_length :: "nat \<Rightarrow> char \<Rightarrow> string \<Rightarrow> nat" where
  "run_length cnt c [] = cnt"
| "run_length cnt c (x # s) = (if cnt < 250 \<and> x = c then run_length (cnt + 1) c s else cnt)"

function zero_encode_loop :: "(char \<Rightarrow> bool) \<Rightarrow> string \<Rightarrow> string" where
  "zero_encode_loop counted [] = []"
| "zero_encode_loop counted (c # s) =
     c # (if counted c
          then (let cnt = run_length 1 c s in chr cnt # zero_encode_loop counted (drop (cnt - 1) s))
          else zero_encode_loop counted s)"
  by pat_completeness auto
termination by (relation "measure (\<lambda>(p, s). length s)") auto

function zero_decode_loop :: "(char \<Rightarrow> bool) \<Rightarrow> string \<Rightarrow> string" where
  "zero_decode_loop counted [] = []"
| "zero_decode_loop counted (c # s) =
     (if counted c \<and> s \<noteq> [] then replicate (uc (hd s)) c @ zero_decode_loop counted (tl s)
      else c # zero_decode_loop counted s)"
  by pat_completeness auto
termination by (relation "measure (\<lambda>(p, s). length s)") auto

definition zero_encode :: "string \<Rightarrow> string" where
  "zero_encode data = zero_encode_loop (\<lambda>c. uc c = 0) data"

definition zero_decode :: "string \<Rightarrow> string" where
  "zero_decode data = zero_decode_loop (\<lambda>c. uc c = 0) data"

definition zero_one_encode :: "string \<Rightarrow> string" where
  "zero_one_encode data = zero_encode_loop (\<lambda>c. uc c = 0 \<or> uc c = 0xff) data"

definition zero_one_decode :: "string \<Rightarrow> string" where
  "zero_one_decode data = zero_decode_loop (\<lambda>c. uc c = 0 \<or> uc c = 0xff) data"

subsection \<open>Hexadecimal round trip\<close>

lemma hex_digit_cases:
  assumes "h < 16"
  shows "hex_to_int (''0123456789abcdef'' ! h) = h" "hex_to_int (''0123456789ABCDEF'' ! h) = h"
proof -
  have "\<forall>h \<in> set [0..<16]. hex_to_int (''0123456789abcdef'' ! h) = h \<and> hex_to_int (''0123456789ABCDEF'' ! h) = h"
    by (simp add: upt_rec hex_to_int_def is_digit_def)
  with assms show "hex_to_int (''0123456789abcdef'' ! h) = h" "hex_to_int (''0123456789ABCDEF'' ! h) = h"
    by (simp_all add: atLeastLessThan_iff)
qed

lemma hex_char_cases:
  assumes "hex_to_int c < 16"
  shows "\<exists>n \<in> set ([48..<58] @ [65..<71] @ [97..<103]). c = chr n"
proof -
  have "uc c \<in> set ([48..<58] @ [65..<71] @ [97..<103])"
  proof (cases "is_digit c")
    case True
    then show ?thesis by (simp add: is_digit_def del: upt_rec_numeral)
  next
    case False
    then have "97 \<le> uc c OR 32 \<and> uc c OR 32 \<le> 102"
      using assms by (auto simp: hex_to_int_def Let_def split: if_splits)
    then show ?thesis using or_32_bit [of "uc c"] by (simp split: if_splits del: upt_rec_numeral)
  qed
  then show ?thesis by (intro bexI [of _ "uc c"]) simp_all
qed

lemma hex_to_int_lower:
  assumes "hex_to_int c < 16"
  shows "''0123456789abcdef'' ! hex_to_int c = to_lower_char c"
proof -
  have "\<forall>n \<in> set ([48..<58] @ [65..<71] @ [97..<103]).
      ''0123456789abcdef'' ! hex_to_int (chr n) = to_lower_char (chr n)"
    by (simp add: upt_rec hex_to_int_def is_digit_def to_lower_char_def char_eq_chr_iff)
  then show ?thesis using hex_char_cases [OF assms] by blast
qed

lemma hex_halves:
  "drop_bit 4 (uc c) < 16" "uc c AND 15 < 16" "drop_bit 4 (uc c) * 16 + (uc c AND 15) = uc c"
proof -
  have m: "uc c AND 15 = uc c mod 16" using nat_mask [of "uc c" 4] by simp
  show "drop_bit 4 (uc c) < 16" unfolding nat_shiftr using uc_bound [of c] by (simp add: less_mult_imp_div_less)
  show "uc c AND 15 < 16" "drop_bit 4 (uc c) * 16 + (uc c AND 15) = uc c" by (simp_all add: m nat_shiftr)
qed

lemma hex_decode_loop_encode: "hex_decode_loop (hex_encode s) = Inr s"
proof (induction s)
  case (Cons c s)
  have "drop_bit 4 (uc c) \<noteq> 16" "uc c AND 15 \<noteq> 16" using hex_halves(1,2) [of c] by simp_all
  then show ?case using Cons by (simp add: hex_digit_cases hex_halves try_bind_def Let_def)
qed simp

lemma length_hex_encode: "length (hex_encode s) = 2 * length s"
  by (induction s) simp_all

lemma hex_decode_loop_inv:
  "hex_decode_loop x = Inr s \<Longrightarrow> even (length x) \<Longrightarrow> to_lower x = hex_encode s"
proof (induction x arbitrary: s rule: hex_decode_loop.induct)
  case (1 a b x)
  let ?h = "hex_to_int a" and ?l = "hex_to_int b"
  have hl: "?h < 16" "?l < 16" using 1(2) hex_to_int_iff(2) [of a] hex_to_int_iff(2) [of b]
    by (auto simp: Let_def split: if_splits)
  then obtain r where r: "hex_decode_loop x = Inr r" "s = chr (?h * 16 + ?l) # r"
    using 1(2) by (auto simp: Let_def try_bind_def split: sum.splits if_splits)
  have "to_lower x = hex_encode r" using 1 r(1) hl by (auto simp: Let_def)
  moreover have u: "uc (chr (?h * 16 + ?l)) = ?h * 16 + ?l" using hl by simp
  moreover have "drop_bit 4 (?h * 16 + ?l) = ?h" using hl by (simp add: nat_shiftr)
  moreover have "(?h * 16 + ?l) AND 15 = ?l" using hl nat_mask [of "?h * 16 + ?l" 4] by simp
  ultimately show ?case
    using r(2) hl hex_to_int_lower [of a] hex_to_int_lower [of b] by (simp only: hex_encode.simps) (simp add: to_lower_def)
qed (auto simp: to_lower_def)

text \<open>Hexadecimal decoding accepts exactly the texts that are, up to the case of the digits, the
  encoding of a byte string, and returns that string.\<close>

theorem hex_decode_iff:
  "hex_decode x = Inr s \<longleftrightarrow> to_lower x = hex_encode s"
proof
  assume "hex_decode x = Inr s"
  then show "to_lower x = hex_encode s"
    using hex_decode_loop_inv [of x s] by (auto simp: hex_decode_def even_iff_mod_2_eq_zero split: if_splits)
next
  assume l: "to_lower x = hex_encode s"
  have e: "even (length x)" using arg_cong [OF l, of length] by (simp add: length_hex_encode to_lower_def)
  have low: "hex_to_int (to_lower_char c) = hex_to_int c" for c
  proof (cases "65 \<le> uc c \<and> uc c \<le> 90")
    case True
    have "uc c div 32 = 2" using True by linarith
    moreover have "(32 + uc c) div 32 = 3" using True by linarith
    ultimately have "\<not> bit (uc c) 5" "bit (32 + uc c) 5" by (simp_all only: bit_5_iff) simp_all
    then show ?thesis using True by (simp add: to_lower_char_def hex_to_int_def is_digit_def or_32_bit add.commute [of _ 32] Let_def)
  qed (auto simp: to_lower_char_def)
  have "hex_decode_loop (to_lower x) = hex_decode_loop x"
    by (induction x rule: hex_decode_loop.induct) (simp_all add: to_lower_def low Let_def)
  then show "hex_decode x = Inr s"
    using l e by (simp add: hex_decode_def hex_decode_loop_encode even_iff_mod_2_eq_zero)
qed

lemma buffer_to_hex_pairs:
  "length (buffer_to_hex s) = 2 * length s \<and>
   (i < length s \<longrightarrow> hex_to_int (buffer_to_hex s ! (2 * i)) = uc (s ! i) mod 16 \<and>
     hex_to_int (buffer_to_hex s ! (2 * i + 1)) = uc (s ! i) div 16)"
proof (induction s arbitrary: i)
  case (Cons c s)
  have d: "uc c AND 15 = uc c mod 16" "drop_bit 4 (uc c) = uc c div 16"
    using nat_mask [of "uc c" 4] by (simp_all add: nat_shiftr)
  show ?case
  proof (cases i)
    case 0
    then show ?thesis using Cons.IH [of 0] hex_halves(1,2) [of c] hex_digit_cases by (simp add: d)
  next
    case (Suc j)
    then show ?thesis using Cons.IH [of j] by simp
  qed
qed simp

subsection \<open>URL round trip\<close>

lemma url_char_plain: "is_url_char c \<Longrightarrow> c \<noteq> CHR ''%'' \<and> c \<noteq> CHR ''+''"
  by (auto simp: is_url_char_def is_alnum_def is_alpha_def is_digit_def Let_def)

lemma url_decode_encode_loop: "url_decode_loop as_space (url_encode_loop s) = s"
proof (induction s)
  case (Cons c s)
  have h: "uc c div 16 < 16" "uc c mod 16 < 16" "uc c div 16 * 16 + uc c mod 16 = uc c"
    using uc_bound [of c] by (simp_all add: less_mult_imp_div_less)
  show ?case
  proof (cases "is_url_char c")
    case True
    then show ?thesis using Cons url_char_plain [of c] by simp
  next
    case False
    then show ?thesis using Cons h hex_digit_cases(2) [OF h(1)] hex_digit_cases(2) [OF h(2)] by simp
  qed
qed simp

lemma url_length_fold:
  "2 * length s \<le> n \<Longrightarrow> foldl (\<lambda>n c. n - 2 * (if is_url_char c then 1 else 0)) n s
     = n - 2 * length (filter is_url_char s)"
proof (induction s arbitrary: n)
  case (Cons c s)
  from Cons.prems Cons.IH [of n] Cons.IH [of "n - 2"] show ?case by auto
qed simp

lemma length_url_encode_loop:
  "length (url_encode_loop s) + 2 * length (filter is_url_char s) = 3 * length s"
  by (induction s) simp_all

lemma url_encode_plain: "list_all is_url_char s \<Longrightarrow> url_encode_loop s = s"
  by (induction s) simp_all

lemma url_encode_loop_eq: "url_encode s = Some (url_encode_loop s)"
proof -
  let ?f = "length (filter is_url_char s)"
  have f: "foldl (\<lambda>n c. n - 2 * (if is_url_char c then 1 else 0)) (3 * length s) s = 3 * length s - 2 * ?f"
    by (rule url_length_fold) simp
  have l: "length (url_encode_loop s) = 3 * length s - 2 * ?f" using length_url_encode_loop [of s] by simp
  have "list_all is_url_char s" if "3 * length s - 2 * ?f = length s"
  proof -
    have "length s \<le> ?f" using that by simp
    then have "filter is_url_char s = s" by (metis filter_id_conv le_antisym length_filter_le length_filter_less linorder_not_less)
    then show ?thesis by (metis filter_id_conv list_all_iff)
  qed
  then show ?thesis unfolding url_encode_def f Let_def using l url_encode_plain [of s] by auto
qed

text \<open>In place, the write position never overtakes the read position.\<close>

lemma url_decode_inplace_loop_spec:
  "to_i \<le> from_i \<Longrightarrow> (case url_decode_inplace_loop as_space buf from_i to_i of (n, buf') \<Rightarrow>
     take n buf' = take to_i buf @ url_decode_loop as_space (drop from_i buf))"
proof (induction as_space buf from_i to_i rule: url_decode_inplace_loop.induct)
  case (1 as_space buf from_i to_i)
  show ?case
  proof (cases "from_i < length buf")
    case False
    then show ?thesis using 1(3) by (subst url_decode_inplace_loop.simps) auto
  next
    case True
    then have d: "drop from_i buf = buf ! from_i # drop (from_i + 1) buf" by (simp add: Cons_nth_drop_Suc)
    have tk: "take (to_i + 1) (buf[to_i := x]) = take to_i buf @ [x]" for x
      using 1(3) True by (simp add: take_Suc_conv_app_nth)
    let ?b = "buf ! from_i = CHR ''%'' \<and> from_i + 2 < length buf \<and>
                hex_to_int (buf ! (from_i + 1)) < 16 \<and> hex_to_int (buf ! (from_i + 2)) < 16"
    show ?thesis
    proof (cases ?b)
      case b: True
      have "drop (from_i + 1) buf ! 0 = buf ! (from_i + 1)" "drop (from_i + 1) buf ! 1 = buf ! (from_i + 2)"
        "2 \<le> length (drop (from_i + 1) buf)"
        using b by auto
      then have u: "url_decode_loop as_space (drop from_i buf) =
          chr (hex_to_int (buf ! (from_i + 1)) * 16 + hex_to_int (buf ! (from_i + 2))) #
          url_decode_loop as_space (drop (from_i + 3) buf)"
        unfolding d using b by (simp add: numeral_3_eq_3 add.commute)
      show ?thesis
        using 1(1) [OF True b] 1(3) tk u b True
        by (subst url_decode_inplace_loop.simps) (auto split: prod.splits)
    next
      case b: False
      have u: "url_decode_loop as_space (drop from_i buf) =
          (if as_space \<and> buf ! from_i = CHR ''+'' then CHR '' '' else buf ! from_i) #
          url_decode_loop as_space (drop (from_i + 1) buf)"
        unfolding d using b by auto
      show ?thesis
        using 1(2) [OF True b] 1(3) tk u b True
        by (subst url_decode_inplace_loop.simps) (auto split: prod.splits)
    qed
  qed
qed

text \<open>C33: URL encoding never fails its length check, decoding gives back what was encoded whether or not
  a plus sign stands for a space, and decoding in place, which overwrites the text it reads, has the
  same result as decoding into a second buffer.\<close>

theorem url_roundtrip_inplace:
  "(\<exists>x. url_encode s = Some x \<and> url_decode x as_space = s) \<and>
   url_decode_inplace x as_space = url_decode x as_space"
proof
  show "\<exists>x. url_encode s = Some x \<and> url_decode x as_space = s"
    by (simp add: url_encode_loop_eq url_decode_def url_decode_encode_loop)
  show "url_decode_inplace x as_space = url_decode x as_space"
    using url_decode_inplace_loop_spec [where to_i = 0 and from_i = 0 and as_space = as_space and buf = x]
    by (simp add: url_decode_inplace_def url_decode_def split: prod.splits)
qed

subsection \<open>Run-length round trip\<close>

lemma run_length_spec:
  assumes "cnt \<le> 250"
  shows "cnt \<le> run_length cnt c s \<and> run_length cnt c s \<le> 250 \<and>
    s = replicate (run_length cnt c s - cnt) c @ drop (run_length cnt c s - cnt) s"
  using assms
proof (induction cnt c s rule: run_length.induct)
  case (2 cnt c x s)
  show ?case
  proof (cases "cnt < 250 \<and> x = c")
    case True
    define n where "n = run_length (cnt + 1) c s"
    have IH: "cnt + 1 \<le> n" "n \<le> 250" "s = replicate (n - (cnt + 1)) c @ drop (n - (cnt + 1)) s"
      using 2 True unfolding n_def by auto
    have e: "n - cnt = Suc (n - (cnt + 1))" using IH(1) by simp
    have "run_length cnt c (x # s) = n" using True by (simp add: n_def)
    moreover have "x # s = replicate (n - cnt) c @ drop (n - cnt) (x # s)"
      unfolding e using IH(3) True by simp
    ultimately show ?thesis using IH by simp
  qed (use 2 in auto)
qed simp

lemma zero_decode_encode_loop: "zero_decode_loop P (zero_encode_loop P s) = s"
proof (induction P s rule: zero_encode_loop.induct)
  case (2 P c s)
  show ?case
  proof (cases "P c")
    case True
    define n where "n = run_length 1 c s"
    have n: "1 \<le> n" "n \<le> 250" "s = replicate (n - 1) c @ drop (n - 1) s"
      using run_length_spec [of 1 c s] by (auto simp: n_def)
    have "zero_decode_loop P (zero_encode_loop P (drop (n - 1) s)) = drop (n - 1) s"
      using 2 True by (simp add: n_def)
    moreover have "replicate n c = c # replicate (n - 1) c" using n(1) by (cases n) simp_all
    moreover have "run_length (Suc 0) c s = n" "uc (chr n) = n" using n(2) by (simp_all add: n_def)
    ultimately show ?thesis using True n(3) by (simp add: Let_def)
  next
    case False
    then show ?thesis using 2 by simp
  qed
qed simp

interpretation hexc: exact_codec "hex_encode" "\<lambda>x. if to_lower x = x then hex_decode x else error_result ''Wrong case''"
proof
  fix s :: string and x
  have "to_lower (hex_encode s) = hex_encode s"
  proof (induction s)
    case (Cons c s)
    have "\<forall>h \<in> set [0..<16]. to_lower_char (''0123456789abcdef'' ! h) = ''0123456789abcdef'' ! h"
      by (simp add: upt_rec to_lower_char_def)
    then show ?case using Cons hex_halves(1,2) [of c] by (simp add: to_lower_def)
  qed (simp add: to_lower_def)
  then show "(if to_lower (hex_encode s) = hex_encode s then hex_decode (hex_encode s)
      else error_result ''Wrong case'') = Inr s"
    by (simp add: hex_decode_iff)
  assume "(if to_lower x = x then hex_decode x else error_result ''Wrong case'') = Inr s"
  then show "x = hex_encode s" by (auto simp: hex_decode_iff split: if_splits)
qed

interpretation zeroc: codec "zero_encode" "\<lambda>x. Inr (zero_decode x)"
  by unfold_locales (simp add: zero_encode_def zero_decode_def zero_decode_encode_loop)

interpretation zero_one: codec "zero_one_encode" "\<lambda>x. Inr (zero_one_decode x)"
  by unfold_locales (simp add: zero_one_encode_def zero_one_decode_def zero_decode_encode_loop)

interpretation base32c: codec "\<lambda>s. base32_encode s upper_case" base32_decode for upper_case
  by unfold_locales (rule base32_decode_encode)

interpretation urlc: codec "\<lambda>s. the (url_encode s)" "\<lambda>x. Inr (url_decode x False)"
  by unfold_locales (simp add: url_encode_loop_eq url_decode_def url_decode_encode_loop)

text \<open>The run-length codecs give back what was encoded, so distinct byte strings have distinct
  encodings, whatever runs of zero (or 255) bytes they hold.\<close>

theorem zero_codecs_roundtrip:
  "zero_decode (zero_encode s) = s \<and> zero_one_decode (zero_one_encode s) = s \<and>
   (zero_encode s = zero_encode t \<longleftrightarrow> s = t) \<and> (zero_one_encode s = zero_one_encode t \<longleftrightarrow> s = t)"
  using zeroc.dec_enc zero_one.dec_enc by (simp add: zeroc.enc_inj zero_one.enc_inj)

end
