(* ===== verification/Parser.thy ===== *)
theory Parser
  imports Status
begin

text \<open>
  \<^verbatim>\<open>ParserImpl\<close> of \<^verbatim>\<open>pxcutils/pxc/utils/Parser.h\<close>: a cursor
  in a text and a sticky status. The model keeps the text from \<^verbatim>\<open>ptr_\<close> to
  \<^verbatim>\<open>end_\<close>; moving the cursor drops a prefix of it.
\<close>

record parser =
  p_rest :: string
  p_status :: status

definition parser_new :: "string \<Rightarrow> parser" where
  "parser_new data = \<lparr>p_rest = data, p_status = None\<rparr>"

definition parser_clear :: "parser \<Rightarrow> parser" where
  "parser_clear p = p\<lparr>p_rest := [], p_status := None\<rparr>"

text \<open>Move construction and assignment leave a cleared parser behind.\<close>

definition parser_move :: "parser \<Rightarrow> parser \<times> parser" where
  "parser_move other = (other, parser_clear other)"

definition parser_empty :: "parser \<Rightarrow> bool" where
  "parser_empty p \<longleftrightarrow> p_rest p = []"

definition read_till_nofail :: "char \<Rightarrow> parser \<Rightarrow> string \<times> parser" where
  "read_till_nofail c p =
     (if is_error (p_status p) then ([], p)
      else (let till = (case find_char c (p_rest p) of None \<Rightarrow> length (p_rest p) | Some i \<Rightarrow> i)
            in (take till (p_rest p), p\<lparr>p_rest := drop till (p_rest p)\<rparr>)))"

definition best_till :: "string \<Rightarrow> string \<Rightarrow> nat" where
  "best_till str s =
     foldl (\<lambda>best c. case find_char c s of None \<Rightarrow> best | Some i \<Rightarrow> if i < best then i else best) (length s) str"

definition read_till_nofail_any :: "string \<Rightarrow> parser \<Rightarrow> string \<times> parser" where
  "read_till_nofail_any str p =
     (if is_error (p_status p) then ([], p)
      else (let till = best_till str (p_rest p)
            in (take till (p_rest p), p\<lparr>p_rest := drop till (p_rest p)\<rparr>)))"

definition read_while :: "(char \<Rightarrow> bool) \<Rightarrow> parser \<Rightarrow> string \<times> parser" where
  "read_while f p = (takeWhile f (p_rest p), p\<lparr>p_rest := dropWhile f (p_rest p)\<rparr>)"

definition read_all :: "parser \<Rightarrow> string \<times> parser" where
  "read_all p = (p_rest p, p\<lparr>p_rest := []\<rparr>)"

definition read_till :: "char \<Rightarrow> parser \<Rightarrow> string \<times> parser" where
  "read_till c p =
     (if is_error (p_status p) then ([], p)
      else let (res, p1) = read_till_nofail c p
           in if p_rest p1 = [] \<or> hd (p_rest p1) \<noteq> c
              then ([], p1\<lparr>p_status := Some (Error_msg (''Read till '' @ [chr 39] @ [c] @ [chr 39] @ '' failed''))\<rparr>)
              else (res, p1))"

definition peek_char :: "parser \<Rightarrow> char" where
  "peek_char p = (if p_rest p = [] then chr 0 else hd (p_rest p))"

definition skip_nofail :: "char \<Rightarrow> parser \<Rightarrow> parser" where
  "skip_nofail c p = (if p_rest p \<noteq> [] \<and> hd (p_rest p) = c then p\<lparr>p_rest := tl (p_rest p)\<rparr> else p)"

definition skip_char :: "char \<Rightarrow> parser \<Rightarrow> parser" where
  "skip_char c p =
     (if is_error (p_status p) then p
      else if p_rest p = [] \<or> hd (p_rest p) \<noteq> c
      then p\<lparr>p_status := Some (Error_msg (''Skip '' @ [chr 39] @ [c] @ [chr 39] @ '' failed''))\<rparr>
      else p\<lparr>p_rest := tl (p_rest p)\<rparr>)"

definition try_skip :: "char \<Rightarrow> parser \<Rightarrow> bool \<times> parser" where
  "try_skip c p =
     (if p_rest p \<noteq> [] \<and> hd (p_rest p) = c then (True, p\<lparr>p_rest := tl (p_rest p)\<rparr>) else (False, p))"

text \<open>\<open>None\<close> is the failed \<^verbatim>\<open>CHECK\<close>.\<close>

definition advance :: "nat \<Rightarrow> parser \<Rightarrow> parser option" where
  "advance diff p = (if diff \<le> length (p_rest p) then Some (p\<lparr>p_rest := drop diff (p_rest p)\<rparr>) else None)"

definition try_skip_prefix :: "string \<Rightarrow> parser \<Rightarrow> (bool \<times> parser) option" where
  "try_skip_prefix prefix p =
     (if length prefix > length (p_rest p) \<or> prefix \<noteq> take (length prefix) (p_rest p) then Some (False, p)
      else map_option (\<lambda>p'. (True, p')) (advance (length prefix) p))"

definition skip_till_not :: "string \<Rightarrow> parser \<Rightarrow> parser" where
  "skip_till_not str p = p\<lparr>p_rest := dropWhile (\<lambda>c. c \<in> set str) (p_rest p)\<rparr>"

definition whitespaces :: string where
  "whitespaces = [CHR '' '', chr 9, chr 13, chr 10]"

definition skip_whitespaces :: "parser \<Rightarrow> parser" where
  "skip_whitespaces p = skip_till_not whitespaces p"

definition read_word :: "parser \<Rightarrow> string \<times> parser" where
  "read_word p = read_till_nofail_any whitespaces (skip_whitespaces p)"

subsection \<open>Facts\<close>

text \<open>Every reader splits the rest of the text: what it returns, and what is left.\<close>

lemma find_char_take: "(case find_char c s of None \<Rightarrow> length s | Some i \<Rightarrow> i) = length (takeWhile (\<lambda>x. x \<noteq> c) s)"
  by (induction s) (auto split: option.splits)

lemma length_takeWhile_conj:
  "length (takeWhile (\<lambda>x. P x \<and> Q x) s) = min (length (takeWhile P s)) (length (takeWhile Q s))"
  by (induction s) auto

lemma best_till_fold:
  "n \<le> length s \<Longrightarrow>
   foldl (\<lambda>best c. case find_char c s of None \<Rightarrow> best | Some i \<Rightarrow> if i < best then i else best) n str =
   min n (length (takeWhile (\<lambda>x. x \<notin> set str) s))"
proof (induction str arbitrary: n)
  case (Cons c str)
  let ?n = "case find_char c s of None \<Rightarrow> n | Some i \<Rightarrow> if i < n then i else n"
  have n: "?n = min n (length (takeWhile (\<lambda>x. x \<noteq> c) s))"
    using Cons.prems find_char_take [of s c] by (cases "find_char c s") (auto simp: min_def)
  then have "?n \<le> length s" using Cons.prems by simp
  from Cons.IH [OF this] show ?case
    using length_takeWhile_conj [of "\<lambda>x. x \<noteq> c" "\<lambda>x. x \<notin> set str" s] n by (simp add: min.assoc)
qed (simp add: takeWhile_eq_all_conv [THEN iffD2])

lemma best_till_takeWhile: "best_till str s = length (takeWhile (\<lambda>x. x \<notin> set str) s)"
  unfolding best_till_def by (subst best_till_fold) (simp_all add: length_takeWhile_le min_absorb2)

lemma take_length_takeWhile: "take (length (takeWhile P s)) s = takeWhile P s"
  by (metis append_eq_conv_conj takeWhile_dropWhile_id)

lemma drop_length_takeWhile: "drop (length (takeWhile P s)) s = dropWhile P s"
  by (metis append_eq_conv_conj takeWhile_dropWhile_id)

lemma read_till_nofail_any_eq:
  "\<not> is_error (p_status p) \<Longrightarrow> read_till_nofail_any str p =
     (takeWhile (\<lambda>x. x \<notin> set str) (p_rest p), p\<lparr>p_rest := dropWhile (\<lambda>x. x \<notin> set str) (p_rest p)\<rparr>)"
  by (simp add: read_till_nofail_any_def best_till_takeWhile take_length_takeWhile drop_length_takeWhile)

lemma read_till_nofail_eq:
  "\<not> is_error (p_status p) \<Longrightarrow> read_till_nofail c p =
     (takeWhile (\<lambda>x. x \<noteq> c) (p_rest p), p\<lparr>p_rest := dropWhile (\<lambda>x. x \<noteq> c) (p_rest p)\<rparr>)"
  by (simp add: read_till_nofail_def find_char_take take_length_takeWhile drop_length_takeWhile)

lemma read_while_split: "fst (read_while f p) @ p_rest (snd (read_while f p)) = p_rest p"
  by (simp add: read_while_def)

lemma read_till_nofail_split: "fst (read_till_nofail c p) @ p_rest (snd (read_till_nofail c p)) = p_rest p"
  by (simp add: read_till_nofail_def Let_def)

lemma read_till_nofail_any_split:
  "fst (read_till_nofail_any c p) @ p_rest (snd (read_till_nofail_any c p)) = p_rest p"
  by (simp add: read_till_nofail_any_def Let_def)

end
