(* ===== verification/Json.thy ===== *)
theory Json
  imports Misc Parser
begin

text \<open>
  \<^verbatim>\<open>pxcutils/pxc/utils/JsonBuilder.h\<close> and
  \<^verbatim>\<open>JsonBuilder.cpp\<close>: JSON values, their printing through nested scopes, compact
  or pretty, the decoder with its depth limit, the skipper and the access to the fields of objects.

  The decoder reads a \<^verbatim>\<open>Parser\<close> whose status it never sets, so its functions run on
  the rest of the text and return what they leave of it. It unescapes a string in place, in the memory of
  the text; the functions here return the unescaped string, and the theory \<open>JsonMemory\<close> has the loop
  over the memory and shows that the two agree and that no text still to be read is overwritten.
  Numbers are kept as text, as in the source; floating-point conversion is not modelled.
\<close>

subsection \<open>Values\<close>

datatype json_type = Null | Number | Boolean | String | Array | Object

datatype json =
    JsonNull
  | JsonNumber string
  | JsonBoolean bool
  | JsonStr string
  | JsonArray "json list"
  | JsonObject "(string \<times> json) list"

definition json_type_of :: "json \<Rightarrow> json_type" where
  "json_type_of v =
     (case v of JsonNull \<Rightarrow> Null | JsonNumber _ \<Rightarrow> Number | JsonBoolean _ \<Rightarrow> Boolean | JsonStr _ \<Rightarrow> String
      | JsonArray _ \<Rightarrow> Array | JsonObject _ \<Rightarrow> Object)"

definition get_type_name :: "json_type \<Rightarrow> string" where
  "get_type_name t =
     (case t of Null \<Rightarrow> ''Null'' | Number \<Rightarrow> ''Number'' | Boolean \<Rightarrow> ''Boolean'' | String \<Rightarrow> ''String''
      | Array \<Rightarrow> ''Array'' | Object \<Rightarrow> ''Object'')"

subsection \<open>Printing strings\<close>

definition backslash :: char where "backslash = CHR 0x5C"
definition quote :: char where "quote = CHR 0x22"

definition json_one_char :: "nat \<Rightarrow> string" where
  "json_one_char c =
     [backslash, CHR ''u'', ''0123456789abcdef'' ! drop_bit 12 c, ''0123456789abcdef'' ! (drop_bit 8 c AND 15),
      ''0123456789abcdef'' ! (drop_bit 4 c AND 15), ''0123456789abcdef'' ! (c AND 15)]"

text \<open>\<open>None\<close> is \<^verbatim>\<open>UNREACHABLE()\<close>.\<close>

definition json_char :: "nat \<Rightarrow> string option" where
  "json_char c =
     (if c < 0x10000
      then (if 0xD7FF < c \<and> c < 0xE000 then None else Some (json_one_char c))
      else if c \<le> 0x10ffff
      then Some (json_one_char (0xD7C0 + drop_bit 10 c) @ json_one_char (0xDC00 + (c AND 0x3FF)))
      else None)"

text \<open>The short escapes of the \<^verbatim>\<open>switch\<close>.\<close>

definition json_escape :: "nat \<Rightarrow> char option" where
  "json_escape ch =
     (if ch = 34 then Some quote else if ch = 92 then Some backslash else if ch = 8 then Some CHR ''b''
      else if ch = 12 then Some CHR ''f'' else if ch = 10 then Some CHR ''n'' else if ch = 13 then Some CHR ''r''
      else if ch = 9 then Some CHR ''t'' else None)"

fun json_raw_string_loop :: "string \<Rightarrow> string" where
  "json_raw_string_loop [] = []"
| "json_raw_string_loop (c # s) =
     (case json_escape (uc c) of
        Some e \<Rightarrow> [backslash, e]
      | None \<Rightarrow> if uc c \<le> 31 then json_one_char (uc c) else [c]) @ json_raw_string_loop s"

definition json_raw_string :: "string \<Rightarrow> string" where
  "json_raw_string s = quote # json_raw_string_loop s @ [quote]"

text \<open>\<^verbatim>\<open>JsonString\<close> checks the text to be UTF-8 as it prints it;
  \<open>None\<close> is a failed \<^verbatim>\<open>CHECK\<close>.\<close>

definition prepend :: "string option \<Rightarrow> string option \<Rightarrow> string option" where
  "prepend a b = Option.bind a (\<lambda>x. map_option (\<lambda>y. x @ y) b)"

function json_string_loop :: "string \<Rightarrow> string option" where
  "json_string_loop [] = Some []"
| "json_string_loop (c # s) =
     (case json_escape (uc c) of
        Some e \<Rightarrow> prepend (Some [backslash, e]) (json_string_loop s)
      | None \<Rightarrow>
          if uc c \<le> 31 then prepend (Some (json_one_char (uc c))) (json_string_loop s)
          else if 128 \<le> uc c
          then (let a = uc c in
                if a AND 0x40 = 0 then None
                else case s of [] \<Rightarrow> None
                | cb # s1 \<Rightarrow>
                    let b = uc cb in
                    if b AND 0xc0 \<noteq> 0x80 then None
                    else if a AND 0x20 = 0
                    then (if a AND 0x1e > 0
                          then prepend (json_char (push_bit 6 (a AND 0x1f) OR (b AND 0x3f))) (json_string_loop s1)
                          else None)
                    else (case s1 of [] \<Rightarrow> None
                          | cc # s2 \<Rightarrow>
                              let c3 = uc cc in
                              if c3 AND 0xc0 \<noteq> 0x80 then None
                              else if a AND 0x10 = 0
                              then (if (a AND 0x0f) OR (b AND 0x20) > 0
                                    then prepend (json_char ((push_bit 12 (a AND 0x0f) OR push_bit 6 (b AND 0x3f)) OR
                                           (c3 AND 0x3f))) (json_string_loop s2)
                                    else None)
                              else (case s2 of [] \<Rightarrow> None
                                    | cd # s3 \<Rightarrow>
                                        let d = uc cd in
                                        if d AND 0xc0 \<noteq> 0x80 then None
                                        else if a AND 0x08 = 0
                                        then (if (a AND 0x07) OR (b AND 0x30) > 0
                                              then prepend (json_char (((push_bit 18 (a AND 0x07) OR
                                                     push_bit 12 (b AND 0x3f)) OR push_bit 6 (c3 AND 0x3f)) OR
                                                     (d AND 0x3f))) (json_string_loop s3)
                                              else None)
                                        else None)))
          else prepend (Some [c]) (json_string_loop s))"
  by pat_completeness auto
termination by (relation "measure length") auto

declare json_string_loop.simps(2) [simp del]

definition json_string_print :: "string \<Rightarrow> string option" where
  "json_string_print s = map_option (\<lambda>t. quote # t @ [quote]) (json_string_loop s)"

subsection \<open>The builder and its scopes\<close>

text \<open>The text of the builder's \<^verbatim>\<open>StringBuilder\<close>, which grows, and the
  indentation, negative for compact output. The scope objects nest as the calls of \<open>json_store\<close> do, so
  the pointer to the active scope is not part of the state.\<close>

record json_builder =
  jb_text :: string
  jb_offset :: int

definition jb_put :: "string \<Rightarrow> json_builder \<Rightarrow> json_builder" where
  "jb_put s jb = jb\<lparr>jb_text := jb_text jb @ s\<rparr>"

definition is_pretty :: "json_builder \<Rightarrow> bool" where
  "is_pretty jb \<longleftrightarrow> jb_offset jb \<ge> 0"

definition print_offset :: "json_builder \<Rightarrow> json_builder" where
  "print_offset jb =
     (if jb_offset jb \<ge> 0 then jb_put (chr 10 # concat (replicate (nat (jb_offset jb)) ''   '')) jb else jb)"

definition dec_offset :: "json_builder \<Rightarrow> json_builder option" where
  "dec_offset jb =
     (if jb_offset jb \<ge> 0
      then (if jb_offset jb > 0 then Some (jb\<lparr>jb_offset := jb_offset jb - 1\<rparr>) else None)
      else Some jb)"

definition inc_offset :: "json_builder \<Rightarrow> json_builder" where
  "inc_offset jb = (if jb_offset jb \<ge> 0 then jb\<lparr>jb_offset := jb_offset jb + 1\<rparr> else jb)"

definition array_scope :: "json_builder \<Rightarrow> json_builder" where
  "array_scope jb = jb_put ''['' (inc_offset jb)"

definition array_leave :: "json_builder \<Rightarrow> json_builder option" where
  "array_leave jb = map_option (\<lambda>jb. jb_put '']'' (print_offset jb)) (dec_offset jb)"

definition array_enter_value :: "bool \<Rightarrow> json_builder \<Rightarrow> json_builder" where
  "array_enter_value is_first jb = print_offset (if is_first then jb_put '','' jb else jb)"

definition object_scope :: "json_builder \<Rightarrow> json_builder" where
  "object_scope jb = jb_put ''{'' (inc_offset jb)"

definition object_leave :: "json_builder \<Rightarrow> json_builder option" where
  "object_leave jb = map_option (\<lambda>jb. jb_put ''}'' (print_offset jb)) (dec_offset jb)"

definition jb_put_string :: "string \<Rightarrow> json_builder \<Rightarrow> json_builder option" where
  "jb_put_string s jb = map_option (\<lambda>t. jb_put t jb) (json_string_print s)"

definition object_enter_field :: "bool \<Rightarrow> string \<Rightarrow> json_builder \<Rightarrow> json_builder option" where
  "object_enter_field is_first field jb =
     map_option (\<lambda>jb. jb_put (if is_pretty jb then '' : '' else '':'') jb)
       (jb_put_string field (print_offset (if is_first then jb_put '','' jb else jb)))"

fun json_store :: "json \<Rightarrow> json_builder \<Rightarrow> json_builder option"
  and json_store_values :: "json list \<Rightarrow> bool \<Rightarrow> json_builder \<Rightarrow> json_builder option"
  and json_store_fields :: "(string \<times> json) list \<Rightarrow> bool \<Rightarrow> json_builder \<Rightarrow> json_builder option" where
  "json_store JsonNull jb = Some (jb_put ''null'' jb)"
| "json_store (JsonBoolean b) jb = Some (jb_put (if b then ''true'' else ''false'') jb)"
| "json_store (JsonNumber n) jb = Some (jb_put n jb)"
| "json_store (JsonStr s) jb = jb_put_string s jb"
| "json_store (JsonArray arr) jb = Option.bind (json_store_values arr False (array_scope jb)) array_leave"
| "json_store (JsonObject fvs) jb = Option.bind (json_store_fields fvs False (object_scope jb)) object_leave"
| "json_store_values [] is_first jb = Some jb"
| "json_store_values (v # vs) is_first jb =
     Option.bind (json_store v (array_enter_value is_first jb)) (json_store_values vs True)"
| "json_store_fields [] is_first jb = Some jb"
| "json_store_fields ((field, v) # fs) is_first jb =
     Option.bind (object_enter_field is_first field jb)
       (\<lambda>jb. Option.bind (json_store v jb) (json_store_fields fs True))"

definition json_encode :: "json \<Rightarrow> bool \<Rightarrow> string option" where
  "json_encode val pretty =
     map_option (\<lambda>jb. jb_text jb @ (if pretty then [chr 10] else []))
       (json_store val \<lparr>jb_text = [], jb_offset = (if pretty then 0 else - 1)\<rparr>)"

subsection \<open>Decoding strings\<close>

definition hex4 :: "string \<Rightarrow> nat option" where
  "hex4 s =
     (if hex_to_int (s ! 0) = 16 \<or> hex_to_int (s ! 1) = 16 \<or> hex_to_int (s ! 2) = 16 \<or> hex_to_int (s ! 3) = 16
      then None
      else Some (((hex_to_int (s ! 0) * 16 + hex_to_int (s ! 1)) * 16 + hex_to_int (s ! 2)) * 16 + hex_to_int (s ! 3)))"

definition is_surrogate :: "nat \<Rightarrow> bool" where
  "is_surrogate num \<longleftrightarrow> 0xD7FF < num \<and> num < 0xE000"

text \<open>The text behind \<^verbatim>\<open>\u\<close>: the code and the rest. A surrogate that a second
  escape follows is combined with it when that is a surrogate, too; otherwise the second escape is read
  again as its own.\<close>

definition json_unicode :: "string \<Rightarrow> (nat \<times> string) result" where
  "json_unicode s =
     (if length s < 4 then error_result (backslash # ''u has less than 4 symbols'')
      else case hex4 s of
             None \<Rightarrow> error_result (''Invalid '' @ backslash # ''u -- not hex digit'')
           | Some num \<Rightarrow>
               let s2 = drop 4 s in
               if is_surrogate num \<and> 6 \<le> length s2 \<and> s2 ! 0 = backslash \<and> s2 ! 1 = CHR ''u''
               then (case hex4 (drop 2 s2) of
                       None \<Rightarrow> error_result (''Invalid '' @ backslash # ''u -- not hex digit'')
                     | Some new_num \<Rightarrow>
                         if is_surrogate new_num
                         then Inr ((push_bit 10 (num AND 0x3FF) OR (new_num AND 0x3FF)) + 0x10000, drop 6 s2)
                         else Inr (num, s2))
               else Inr (num, s2))"

text \<open>The text behind a backslash: the bytes it stands for and the rest.\<close>

definition json_unescape :: "string \<Rightarrow> (string \<times> string) result" where
  "json_unescape s =
     (case s of [] \<Rightarrow> error_result ''Closing '\"' not found''
      | c # s1 \<Rightarrow>
          if c = CHR ''b'' then Inr ([chr 8], s1)
          else if c = CHR ''f'' then Inr ([chr 12], s1)
          else if c = CHR ''n'' then Inr ([chr 10], s1)
          else if c = CHR ''r'' then Inr ([chr 13], s1)
          else if c = CHR ''t'' then Inr ([chr 9], s1)
          else if c = CHR ''u''
          then (case json_unicode s1 of Inl e \<Rightarrow> Inl e | Inr (num, s2) \<Rightarrow> Inr (append_utf8_character [] num, s2))
          else Inr ([c], s1))"

lemma json_unicode_shorter: "json_unicode s = Inr (n, t) \<Longrightarrow> length t < length s"
  by (auto simp: json_unicode_def Let_def split: option.splits if_splits)

lemma json_unescape_shorter: "json_unescape s = Inr (x, t) \<Longrightarrow> length t < length s"
  by (auto simp: json_unescape_def dest!: json_unicode_shorter split: list.splits if_splits sum.splits prod.splits)

function json_string_body :: "string \<Rightarrow> (string \<times> string) result" where
  "json_string_body [] = error_result ''Closing '\"' not found''"
| "json_string_body (c # s) =
     (if c = quote then Inr ([], s)
      else if c = backslash
      then (case json_unescape s of
              Inl e \<Rightarrow> Inl e
            | Inr (x, s1) \<Rightarrow>
                (case json_string_body s1 of Inl e \<Rightarrow> Inl e | Inr (y, s2) \<Rightarrow> Inr (x @ y, s2)))
      else (case json_string_body s of Inl e \<Rightarrow> Inl e | Inr (y, s2) \<Rightarrow> Inr (c # y, s2)))"
  by pat_completeness auto
termination by (relation "measure length") (auto dest: json_unescape_shorter)

definition json_string_decode :: "string \<Rightarrow> (string \<times> string) result" where
  "json_string_decode s =
     (if s \<noteq> [] \<and> hd s = quote then json_string_body (tl s) else error_result ''Opening '\"' expected'')"

subsection \<open>Skipping strings\<close>

definition json_skip_unicode :: "string \<Rightarrow> string result" where
  "json_skip_unicode s =
     (if length s < 4 then error_result (backslash # ''u has less than 4 symbols'')
      else case hex4 s of
             None \<Rightarrow> error_result (''Invalid '' @ backslash # ''u -- not hex digit'')
           | Some num \<Rightarrow>
               let s2 = drop 4 s in
               if is_surrogate num \<and> 6 \<le> length s2 \<and> s2 ! 0 = backslash \<and> s2 ! 1 = CHR ''u''
               then (case hex4 (drop 2 s2) of
                       None \<Rightarrow> error_result (''Invalid '' @ backslash # ''u -- not hex digit'')
                     | Some new_num \<Rightarrow> if is_surrogate new_num then Inr (drop 6 s2) else Inr s2)
               else Inr s2)"

definition json_skip_escape :: "string \<Rightarrow> string result" where
  "json_skip_escape s =
     (case s of [] \<Rightarrow> error_result ''Closing '\"' not found''
      | c # s1 \<Rightarrow> if c = CHR ''u'' then json_skip_unicode s1 else Inr s1)"

lemma json_skip_unicode_shorter: "json_skip_unicode s = Inr t \<Longrightarrow> length t < length s"
  by (auto simp: json_skip_unicode_def Let_def split: option.splits if_splits)

lemma json_skip_escape_shorter: "json_skip_escape s = Inr t \<Longrightarrow> length t < length s"
  by (auto simp: json_skip_escape_def dest!: json_skip_unicode_shorter split: list.splits if_splits)

function json_string_skip_body :: "string \<Rightarrow> string result" where
  "json_string_skip_body [] = error_result ''Closing '\"' not found''"
| "json_string_skip_body (c # s) =
     (if c = quote then Inr s
      else if c = backslash
      then (case json_skip_escape s of Inl e \<Rightarrow> Inl e | Inr s1 \<Rightarrow> json_string_skip_body s1)
      else json_string_skip_body s)"
  by pat_completeness auto
termination by (relation "measure length") (auto dest: json_skip_escape_shorter)

definition json_string_skip :: "string \<Rightarrow> string result" where
  "json_string_skip s =
     (if s \<noteq> [] \<and> hd s = quote then json_string_skip_body (tl s) else error_result ''Opening '\"' expected'')"

subsection \<open>Decoding values\<close>

abbreviation skip_ws :: "string \<Rightarrow> string" where
  "skip_ws s \<equiv> dropWhile (\<lambda>c. c \<in> set whitespaces) s"

definition is_number_char :: "char \<Rightarrow> bool" where
  "is_number_char c \<longleftrightarrow>
     c = CHR ''-'' \<or> is_digit c \<or> c = CHR ''e'' \<or> c = CHR ''E'' \<or> c = CHR ''+'' \<or> c = CHR ''.''"

definition starts_number :: "char \<Rightarrow> bool" where
  "starts_number c \<longleftrightarrow> c = CHR ''-'' \<or> c = CHR ''+'' \<or> c = CHR ''.'' \<or> is_digit c"

text \<open>The cases of \<^verbatim>\<open>peek_char()\<close> that are no value; \<open>unexpected_end\<close> is the
  message for the end of the text and for a zero byte.\<close>

definition unexpected_symbol :: "string \<Rightarrow> string \<Rightarrow> 'a result" where
  "unexpected_symbol unexpected_end s =
     (if s = [] \<or> uc (hd s) = 0 then error_result unexpected_end
      else if uc (hd s) < 127 then error_result (''Unexpected symbol '' @ [chr 39] @ [hd s] @ [chr 39])
      else error_result ''Unexpected symbol'')"

definition try_literal :: "string \<Rightarrow> 'a \<Rightarrow> string \<Rightarrow> string \<Rightarrow> ('a \<times> string) result" where
  "try_literal literal v msg s =
     (if literal = take (length literal) s then Inr (v, drop (length literal) s) else error_result msg)"

function do_json_decode :: "int \<Rightarrow> string \<Rightarrow> (json \<times> string) result"
  and json_decode_values :: "int \<Rightarrow> json list \<Rightarrow> string \<Rightarrow> (json \<times> string) result"
  and json_decode_fields :: "int \<Rightarrow> (string \<times> json) list \<Rightarrow> string \<Rightarrow> (json \<times> string) result" where
  "do_json_decode max_depth s0 =
     (if max_depth < 0 then error_result ''Too big object depth''
      else
        let s = skip_ws s0; c = (if s = [] then chr 0 else hd s) in
        if c = CHR ''f'' then try_literal ''false'' (JsonBoolean False) ''Token starts with 'f' -- false expected'' s
        else if c = CHR ''t'' then try_literal ''true'' (JsonBoolean True) ''Token starts with 't' -- true expected'' s
        else if c = CHR ''n'' then try_literal ''null'' JsonNull ''Token starts with 'n' -- null expected'' s
        else if c = quote
        then (case json_string_decode s of Inl e \<Rightarrow> Inl e | Inr (t, s1) \<Rightarrow> Inr (JsonStr t, s1))
        else if c = CHR ''[''
        then (let s1 = skip_ws (tl s) in
              if s1 \<noteq> [] \<and> hd s1 = CHR '']'' then Inr (JsonArray [], tl s1)
              else json_decode_values max_depth [] s1)
        else if c = CHR ''{''
        then (let s1 = skip_ws (tl s) in
              if s1 \<noteq> [] \<and> hd s1 = CHR ''}'' then Inr (JsonObject [], tl s1)
              else json_decode_fields max_depth [] s1)
        else if starts_number c
        then Inr (JsonNumber (takeWhile is_number_char s), dropWhile is_number_char s)
        else unexpected_symbol ''Unexpected string end'' s)"
| "json_decode_values max_depth res s =
     (if s = [] then error_result ''Unexpected string end''
      else case do_json_decode (max_depth - 1) s of
             Inl e \<Rightarrow> Inl e
           | Inr (v, s1) \<Rightarrow>
               let s2 = skip_ws s1 in
               if s2 = [] then error_result ''Unexpected string end''
               else if hd s2 = CHR '']'' then Inr (JsonArray (res @ [v]), tl s2)
               else if hd s2 = CHR '','' then json_decode_values max_depth (res @ [v]) (skip_ws (tl s2))
               else error_result ''Unexpected symbol while parsing JSON Array'')"
| "json_decode_fields max_depth res s =
     (if s = [] then error_result ''Unexpected string end''
      else case json_string_decode s of
             Inl e \<Rightarrow> Inl e
           | Inr (field, s1) \<Rightarrow>
               let s2 = skip_ws s1 in
               if s2 = [] \<or> hd s2 \<noteq> CHR '':'' then error_result ([chr 39] @ '':'' @ [chr 39] @ '' expected'')
               else case do_json_decode (max_depth - 1) (tl s2) of
                      Inl e \<Rightarrow> Inl e
                    | Inr (v, s3) \<Rightarrow>
                        let s4 = skip_ws s3 in
                        if s4 = [] then error_result ''Unexpected string end''
                        else if hd s4 = CHR ''}'' then Inr (JsonObject (res @ [(field, v)]), tl s4)
                        else if hd s4 = CHR '','' then json_decode_fields max_depth (res @ [(field, v)]) (skip_ws (tl s4))
                        else error_result ''Unexpected symbol while parsing JSON Object'')"
  by pat_completeness auto

text \<open>The decoder consumes at least one character, so the recursion ends.\<close>

lemma json_string_body_shorter: "json_string_body s = Inr (x, t) \<Longrightarrow> length t < length s"
proof (induction s arbitrary: x t rule: json_string_body.induct)
  case (2 c s)
  then show ?case
    by (fastforce dest: json_unescape_shorter split: if_splits sum.splits prod.splits)
qed simp

lemma json_string_decode_shorter: "json_string_decode s = Inr (x, t) \<Longrightarrow> length t < length s"
  by (cases s) (auto simp: json_string_decode_def dest: json_string_body_shorter split: if_splits)

lemma json_string_skip_body_shorter: "json_string_skip_body s = Inr t \<Longrightarrow> length t < length s"
proof (induction s arbitrary: t rule: json_string_skip_body.induct)
  case (2 c s)
  then show ?case
    by (fastforce dest: json_skip_escape_shorter split: if_splits sum.splits)
qed simp

lemma json_string_skip_shorter: "json_string_skip s = Inr t \<Longrightarrow> length t < length s"
  by (cases s) (auto simp: json_string_skip_def dest: json_string_skip_body_shorter split: if_splits)

lemma skip_ws_length: "length (skip_ws s) \<le> length s"
  by (rule length_dropWhile_le)

lemma tl_shorter: "s \<noteq> [] \<Longrightarrow> length (tl s) < length s"
  by (cases s) simp_all

lemma tl_skip_shorter: "skip_ws s \<noteq> [] \<Longrightarrow> length (tl (skip_ws s)) < length s"
  using tl_shorter [of "skip_ws s"] skip_ws_length [of s] by linarith

lemma skip_tl_skip_shorter: "skip_ws s \<noteq> [] \<Longrightarrow> length (skip_ws (tl (skip_ws s))) < length s"
  using tl_skip_shorter [of s] skip_ws_length [of "tl (skip_ws s)"] by linarith

lemma try_literal_shorter: "try_literal lit v m s = Inr (x, t) \<Longrightarrow> lit \<noteq> [] \<Longrightarrow> length t < length s"
  by (auto simp: try_literal_def split: if_splits) (metis append_take_drop_id diff_less length_drop length_greater_0_conv take_eq_Nil)

declare dropWhile_eq_Nil_conv [simp del]

lemma json_decode_shorter_dom:
  "do_json_decode_json_decode_values_json_decode_fields_dom (Inl (d, s)) \<Longrightarrow>
     do_json_decode d s = Inr (v, t) \<Longrightarrow> length t < length s"
  "do_json_decode_json_decode_values_json_decode_fields_dom (Inr (Inl (d, res, s))) \<Longrightarrow>
     json_decode_values d res s = Inr (v, t) \<Longrightarrow> length t < length s"
  "do_json_decode_json_decode_values_json_decode_fields_dom (Inr (Inr (d, fs, s))) \<Longrightarrow>
     json_decode_fields d fs s = Inr (v, t) \<Longrightarrow> length t < length s"
proof (induction d s and d res s and d fs s arbitrary: v t and v t and v t
    rule: do_json_decode_json_decode_values_json_decode_fields.pinduct)
  case (1 d s)
  define c where "c = (if skip_ws s = [] then chr 0 else hd (skip_ws s))"
  have ne: "skip_ws s \<noteq> []" if "uc c \<noteq> 0" using that by (auto simp: c_def)
  have e: "do_json_decode d s = Inr (v, t)" by fact
  note eq = e [unfolded do_json_decode.psimps [OF 1(1)] Let_def c_def [symmetric]]
  show ?case
  proof (cases "c \<in> {CHR ''f'', CHR ''t'', CHR ''n''}")
    case True
    then have "length t < length (skip_ws s)"
      using eq by (auto dest!: try_literal_shorter split: if_splits)
    then show ?thesis using skip_ws_length [of s] by linarith
  next
    case l: False
    show ?thesis
    proof (cases "c = quote")
      case True
      then have "length t < length (skip_ws s)"
        using eq l by (auto dest!: json_string_decode_shorter split: if_splits sum.splits prod.splits)
      then show ?thesis using skip_ws_length [of s] by linarith
    next
      case q: False
      have sh: "length (skip_ws (tl (skip_ws s))) < length s" "length (tl (skip_ws (tl (skip_ws s)))) < length s"
        if "uc c \<noteq> 0"
        using skip_tl_skip_shorter [OF ne [OF that]] by simp_all
      show ?thesis
      proof (cases "c = CHR ''['' \<or> c = CHR ''{''")
        case True
        then have z: "uc c \<noteq> 0" by auto
        have IH: "length t < length (skip_ws (tl (skip_ws s)))" if "json_decode_values d [] (skip_ws (tl (skip_ws s))) = Inr (v, t)"
            "c = CHR ''['' " "\<not> (skip_ws (tl (skip_ws s)) \<noteq> [] \<and> hd (skip_ws (tl (skip_ws s))) = CHR '']'')"
          using 1(2) [of "skip_ws s" c "skip_ws (tl (skip_ws s))" v t] that eq l q
          by (auto simp: c_def split: if_splits)
        have IH2: "length t < length (skip_ws (tl (skip_ws s)))" if "json_decode_fields d [] (skip_ws (tl (skip_ws s))) = Inr (v, t)"
            "c = CHR ''{'' " "\<not> (skip_ws (tl (skip_ws s)) \<noteq> [] \<and> hd (skip_ws (tl (skip_ws s))) = CHR ''}'')"
          using 1(3) [of "skip_ws s" c "skip_ws (tl (skip_ws s))" v t] that eq l q
          by (auto simp: c_def split: if_splits)
        show ?thesis
          using True eq sh [OF z] IH IH2 by (auto simp: quote_def split: if_splits)
      next
        case False
        then have st: "starts_number c" "t = dropWhile is_number_char (skip_ws s)"
          using eq l q by (auto simp: unexpected_symbol_def split: if_splits)
        then have "uc c \<noteq> 0" by (auto simp: starts_number_def is_digit_def)
        then have n: "skip_ws s \<noteq> []" by (rule ne)
        then have "c = hd (skip_ws s)" by (simp add: c_def)
        then have m: "is_number_char (hd (skip_ws s))"
          using st(1) by (auto simp: starts_number_def is_number_char_def)
        have "dropWhile is_number_char (skip_ws s) = dropWhile is_number_char (tl (skip_ws s))"
          using n m by (cases "skip_ws s") simp_all
        then have "length t < length (skip_ws s)"
          unfolding st(2) using tl_shorter [OF n] length_dropWhile_le [of is_number_char "tl (skip_ws s)"] by simp
        then show ?thesis using skip_ws_length [of s] by linarith
      qed
    qed
  qed
next
  case (2 d res s)
  note eq = 2(4) [unfolded json_decode_values.psimps [OF 2(1)] Let_def]
  then have s: "s \<noteq> []" by (auto split: if_splits)
  obtain u s1 where u: "do_json_decode (d - 1) s = Inr (u, s1)"
    using eq s by (auto split: sum.splits)
  have l1: "length s1 < length s" by (rule 2(2) [OF s u])
  have eq1: "(if skip_ws s1 = [] then error_result ''Unexpected string end''
     else if hd (skip_ws s1) = CHR '']'' then Inr (JsonArray (res @ [u]), tl (skip_ws s1))
     else if hd (skip_ws s1) = CHR '','' then json_decode_values d (res @ [u]) (skip_ws (tl (skip_ws s1)))
     else error_result ''Unexpected symbol while parsing JSON Array'') = Inr (v, t)"
    using eq s u by simp
  then have ne: "skip_ws s1 \<noteq> []" by (auto split: if_splits)
  show ?case
  proof (cases "hd (skip_ws s1) = CHR '']''")
    case True
    then show ?thesis using eq1 ne l1 tl_skip_shorter [OF ne] by auto
  next
    case False
    then have c: "hd (skip_ws s1) = CHR '',''" "json_decode_values d (res @ [u]) (skip_ws (tl (skip_ws s1))) = Inr (v, t)"
      using eq1 ne by (auto split: if_splits)
    have "length t < length (skip_ws (tl (skip_ws s1)))"
      using 2(3) [OF s u refl refl ne False c] .
    then show ?thesis using l1 skip_tl_skip_shorter [OF ne] by linarith
  qed
next
  case (3 d fs s)
  note eq = 3(4) [unfolded json_decode_fields.psimps [OF 3(1)] Let_def]
  then have s: "s \<noteq> []" by (auto split: if_splits)
  obtain f s1 where f: "json_string_decode s = Inr (f, s1)"
    using eq s by (auto split: sum.splits)
  have l1: "length s1 < length s" by (rule json_string_decode_shorter [OF f])
  have c0: "skip_ws s1 \<noteq> []" "hd (skip_ws s1) = CHR '':''" using eq s f by (auto split: if_splits)
  then have c1: "\<not> (skip_ws s1 = [] \<or> hd (skip_ws s1) \<noteq> CHR '':'')" by simp
  obtain u s3 where u: "do_json_decode (d - 1) (tl (skip_ws s1)) = Inr (u, s3)"
    using eq s f c0 by (auto split: sum.splits)
  have l3: "length s3 < length (tl (skip_ws s1))" by (rule 3(2) [OF s f refl refl c1 u])
  have eq1: "(if skip_ws s3 = [] then error_result ''Unexpected string end''
     else if hd (skip_ws s3) = CHR ''}'' then Inr (JsonObject (fs @ [(f, u)]), tl (skip_ws s3))
     else if hd (skip_ws s3) = CHR '','' then json_decode_fields d (fs @ [(f, u)]) (skip_ws (tl (skip_ws s3)))
     else error_result ''Unexpected symbol while parsing JSON Object'') = Inr (v, t)"
    using eq s f c0 u by simp
  then have ne: "skip_ws s3 \<noteq> []" by (auto split: if_splits)
  have l: "length s3 < length s" using l1 l3 tl_skip_shorter [OF c0(1)] by linarith
  show ?case
  proof (cases "hd (skip_ws s3) = CHR ''}''")
    case True
    then show ?thesis using eq1 ne l tl_skip_shorter [OF ne] by auto
  next
    case False
    then have c: "hd (skip_ws s3) = CHR '',''" "json_decode_fields d (fs @ [(f, u)]) (skip_ws (tl (skip_ws s3))) = Inr (v, t)"
      using eq1 ne by (auto split: if_splits)
    have "length t < length (skip_ws (tl (skip_ws s3)))"
      using 3(3) [OF s f refl refl c1 u refl refl ne False c] .
    then show ?thesis using l skip_tl_skip_shorter [OF ne] by linarith
  qed
qed

lemma json_decode_dom: "All do_json_decode_json_decode_values_json_decode_fields_dom"
proof (relation "measure (\<lambda>x. case x of Inl (d, s) \<Rightarrow> 2 * length s
    | Inr (Inl (d, res, s)) \<Rightarrow> 2 * length s + 1 | Inr (Inr (d, fs, s)) \<Rightarrow> 2 * length s + 1)", goal_cases)
  case (2 d s0 s c s1)
  then have "skip_ws s0 \<noteq> []" by (auto simp: char_eq_chr_iff)
  from skip_tl_skip_shorter [OF this] 2 show ?case by simp
next
  case (3 d s0 s c s1)
  then have "skip_ws s0 \<noteq> []" by (auto simp: char_eq_chr_iff)
  from skip_tl_skip_shorter [OF this] 3 show ?case by simp
next
  case (5 d res s x v s1 s2)
  then have "length s1 < length s" using json_decode_shorter_dom(1) [of "d - 1" s v s1] by simp
  then show ?case using 5 skip_tl_skip_shorter [of s1] by simp
next
  case (6 d fs s x f s1 s2)
  then show ?case using json_string_decode_shorter [of s f s1] tl_skip_shorter [of s1] by simp
next
  case (7 d fs s x f s1 s2 y v s3 s4)
  have "length s1 < length s" using 7 json_string_decode_shorter [of s f s1] by simp
  moreover have "length (tl s2) < length s1" using 7 tl_skip_shorter [of s1] by simp
  moreover have "length s3 < length (tl s2)" using 7 json_decode_shorter_dom(1) [of "d - 1" "tl s2" v s3] by simp
  ultimately show ?case using 7 skip_tl_skip_shorter [of s3] by simp
qed simp_all

termination do_json_decode
  by (rule json_decode_dom)

lemmas json_decode_shorter = json_decode_shorter_dom [OF json_decode_dom [rule_format]]

declare do_json_decode.simps [simp del] json_decode_values.simps [simp del] json_decode_fields.simps [simp del]

definition json_decode :: "string \<Rightarrow> json result" where
  "json_decode json =
     (case do_json_decode 100 json of
        Inl e \<Rightarrow> Inl e
      | Inr (v, s) \<Rightarrow> if skip_ws s \<noteq> [] then error_result ''Expected string end'' else Inr v)"

subsection \<open>Skipping values\<close>

definition skip_literal :: "string \<Rightarrow> string \<Rightarrow> string \<Rightarrow> string result" where
  "skip_literal literal msg s =
     (if literal = take (length literal) s then Inr (drop (length literal) s) else error_result msg)"

function do_json_skip :: "int \<Rightarrow> string \<Rightarrow> string result"
  and json_skip_values :: "int \<Rightarrow> string \<Rightarrow> string result"
  and json_skip_fields :: "int \<Rightarrow> string \<Rightarrow> string result" where
  "do_json_skip max_depth s0 =
     (if max_depth < 0 then error_result ''Too big object depth''
      else
        let s = skip_ws s0; c = (if s = [] then chr 0 else hd s) in
        if c = CHR ''f'' then skip_literal ''false'' ''Starts with 'f' -- false expected'' s
        else if c = CHR ''t'' then skip_literal ''true'' ''Starts with 't' -- true expected'' s
        else if c = CHR ''n'' then skip_literal ''null'' ''Starts with 'n' -- null expected'' s
        else if c = quote then json_string_skip s
        else if c = CHR ''[''
        then (let s1 = skip_ws (tl s) in
              if s1 \<noteq> [] \<and> hd s1 = CHR '']'' then Inr (tl s1) else json_skip_values max_depth s1)
        else if c = CHR ''{''
        then (let s1 = skip_ws (tl s) in
              if s1 \<noteq> [] \<and> hd s1 = CHR ''}'' then Inr (tl s1) else json_skip_fields max_depth s1)
        else if starts_number c then Inr (dropWhile is_number_char s)
        else unexpected_symbol ''Unexpected end'' s)"
| "json_skip_values max_depth s =
     (if s = [] then error_result ''Unexpected end''
      else case do_json_skip (max_depth - 1) s of
             Inl e \<Rightarrow> Inl e
           | Inr s1 \<Rightarrow>
               let s2 = skip_ws s1 in
               if s2 \<noteq> [] \<and> hd s2 = CHR '']'' then Inr (tl s2)
               else if s2 \<noteq> [] \<and> hd s2 = CHR '','' then json_skip_values max_depth (skip_ws (tl s2))
               else error_result ''Unexpected symbol'')"
| "json_skip_fields max_depth s =
     (if s = [] then error_result ''Unexpected end''
      else case json_string_skip s of
             Inl e \<Rightarrow> Inl e
           | Inr s1 \<Rightarrow>
               let s2 = skip_ws s1 in
               if s2 = [] \<or> hd s2 \<noteq> CHR '':'' then error_result ([chr 39] @ '':'' @ [chr 39] @ '' expected'')
               else case do_json_skip (max_depth - 1) (tl s2) of
                      Inl e \<Rightarrow> Inl e
                    | Inr s3 \<Rightarrow>
                        let s4 = skip_ws s3 in
                        if s4 \<noteq> [] \<and> hd s4 = CHR ''}'' then Inr (tl s4)
                        else if s4 \<noteq> [] \<and> hd s4 = CHR '','' then json_skip_fields max_depth (skip_ws (tl s4))
                        else error_result ''Unexpected symbol'')"
  by pat_completeness auto

text \<open>The skipper does what the decoder does on every text, except for the values and the messages of
  its errors. This is shown on its domain first, and gives its termination.\<close>

definition same_rest :: "string result \<Rightarrow> ('a \<times> string) result \<Rightarrow> bool" where
  "same_rest a b \<longleftrightarrow>
     (case b of Inl _ \<Rightarrow> (\<exists>e. a = Inl e) | Inr (v, t) \<Rightarrow> a = Inr t)"

lemma same_rest_simps [simp]:
  "same_rest (Inl e) (Inl e')" "same_rest (Inr t) (Inr (v, t'))  \<longleftrightarrow> t = t'"
  "\<not> same_rest (Inl e) (Inr x)" "\<not> same_rest (Inr t) (Inl e)"
  by (auto simp: same_rest_def split: prod.splits)

lemma same_restE:
  assumes "same_rest a b"
  obtains e e' where "a = Inl e" "b = Inl e'" | v t where "a = Inr t" "b = Inr (v, t)"
  using assms by (auto simp: same_rest_def split: sum.splits prod.splits)

lemma same_rest_unicode: "same_rest (json_skip_unicode s) (json_unicode s)"
  by (auto simp: json_skip_unicode_def json_unicode_def Let_def split: option.splits)

lemma same_rest_unescape: "same_rest (json_skip_escape s) (json_unescape s)"
proof (cases s)
  case Nil
  then show ?thesis by (simp add: json_skip_escape_def json_unescape_def)
next
  case (Cons c s1)
  from same_rest_unicode [of s1] show ?thesis
    by (cases rule: same_restE) (auto simp: Cons json_skip_escape_def json_unescape_def)
qed

lemma same_rest_body: "same_rest (json_string_skip_body s) (json_string_body s)"
proof (induction s rule: json_string_body.induct)
  case (2 c s)
  show ?case
  proof (cases "c = quote")
    case False
    show ?thesis
    proof (cases "c = backslash")
      case True
      from same_rest_unescape [of s] show ?thesis
      proof (cases rule: same_restE)
        case (2 x s1)
        from "2.IH"(1) [OF False True 2(2) refl] show ?thesis
          by (cases rule: same_restE) (simp_all add: 2 True False)
      qed (simp_all add: True False)
    next
      case b: False
      from "2.IH"(2) [OF False b] show ?thesis
        by (cases rule: same_restE) (simp_all add: b False)
    qed
  qed simp
qed simp

lemma same_rest_string: "same_rest (json_string_skip s) (json_string_decode s)"
  by (simp add: json_string_skip_def json_string_decode_def same_rest_body)

lemma same_rest_literal: "same_rest (skip_literal lit m s) (try_literal lit v m' s)"
  by (simp add: skip_literal_def try_literal_def)

lemma same_rest_symbol: "same_rest (unexpected_symbol m s) (unexpected_symbol m' s)"
  by (simp add: unexpected_symbol_def)

text \<open>One step of either function on the parts they share.\<close>

lemma same_rest_Inr: "same_rest (Inr t) (Inr (v, t))"
  by simp

lemma same_rest_if:
  "(b \<Longrightarrow> same_rest x y) \<Longrightarrow> (\<not> b \<Longrightarrow> same_rest x' y') \<Longrightarrow>
   same_rest (if b then x else x') (if b then y else y')"
  by simp

lemma json_skip_same_dom:
  "do_json_skip_json_skip_values_json_skip_fields_dom (Inl (d, s)) \<Longrightarrow>
     same_rest (do_json_skip d s) (do_json_decode d s)"
  "do_json_skip_json_skip_values_json_skip_fields_dom (Inr (Inl (d, s))) \<Longrightarrow>
     same_rest (json_skip_values d s) (json_decode_values d res s)"
  "do_json_skip_json_skip_values_json_skip_fields_dom (Inr (Inr (d, s))) \<Longrightarrow>
     same_rest (json_skip_fields d s) (json_decode_fields d fs s)"
proof (induction d s and d s and d s arbitrary: and res and fs
    rule: do_json_skip_json_skip_values_json_skip_fields.pinduct)
  case (1 d s)
  define c where "c = (if skip_ws s = [] then chr 0 else hd (skip_ws s))"
  let ?t = "skip_ws (tl (skip_ws s))"
  have IH1: "\<not> d < 0 \<Longrightarrow> c \<noteq> CHR ''f'' \<Longrightarrow> c \<noteq> CHR ''t'' \<Longrightarrow> c \<noteq> CHR ''n'' \<Longrightarrow> c \<noteq> quote \<Longrightarrow> c = CHR ''['' \<Longrightarrow>
      \<not> (?t \<noteq> [] \<and> hd ?t = CHR '']'') \<Longrightarrow> same_rest (json_skip_values d ?t) (json_decode_values d [] ?t)"
    by (rule 1(2) [OF _ refl c_def _ _ _ _ _ refl])
  have IH2: "\<not> d < 0 \<Longrightarrow> c \<noteq> CHR ''f'' \<Longrightarrow> c \<noteq> CHR ''t'' \<Longrightarrow> c \<noteq> CHR ''n'' \<Longrightarrow> c \<noteq> quote \<Longrightarrow> c \<noteq> CHR ''['' \<Longrightarrow>
      c = CHR ''{'' \<Longrightarrow> \<not> (?t \<noteq> [] \<and> hd ?t = CHR ''}'') \<Longrightarrow>
      same_rest (json_skip_fields d ?t) (json_decode_fields d [] ?t)"
    by (rule 1(3) [OF _ refl c_def _ _ _ _ _ _ refl])
  have S: "same_rest (json_string_skip (skip_ws s))
      (case json_string_decode (skip_ws s) of Inl e \<Rightarrow> Inl e | Inr (t, s1) \<Rightarrow> Inr (JsonStr t, s1))"
    using same_rest_string [of "skip_ws s"] by (cases rule: same_restE) simp_all
  show ?case
    unfolding do_json_skip.psimps [OF 1(1)] do_json_decode.simps [of d s] Let_def c_def [symmetric]
    by (intro same_rest_if same_rest_literal same_rest_symbol S same_rest_simps(1) same_rest_Inr; rule IH1 IH2; assumption)
next
  case (2 d s)
  show ?case
  proof (cases "s = []")
    case True
    then show ?thesis
      unfolding json_skip_values.psimps [OF 2(1)] json_decode_values.simps [of d res s] by simp
  next
    case s: False
    have "same_rest (do_json_skip (d - 1) s) (do_json_decode (d - 1) s)" by (rule 2(2) [OF s])
    then show ?thesis
    proof (cases rule: same_restE)
      case (1 e e')
      then show ?thesis
        unfolding json_skip_values.psimps [OF 2(1)] json_decode_values.simps [of d res s] using s by simp
    next
      case u: (2 v t)
      have "\<not> (skip_ws t \<noteq> [] \<and> hd (skip_ws t) = CHR '']'') \<Longrightarrow> skip_ws t \<noteq> [] \<and> hd (skip_ws t) = CHR '','' \<Longrightarrow>
          same_rest (json_skip_values d (skip_ws (tl (skip_ws t)))) (json_decode_values d (res @ [v]) (skip_ws (tl (skip_ws t))))"
        by (rule 2(3) [OF s u(1) refl])
      then show ?thesis
        unfolding json_skip_values.psimps [OF 2(1)] json_decode_values.simps [of d res s]
        using s u by (simp add: Let_def)
    qed
  qed
next
  case (3 d s)
  show ?case
  proof (cases "s = []")
    case True
    then show ?thesis
      unfolding json_skip_fields.psimps [OF 3(1)] json_decode_fields.simps [of d fs s] by simp
  next
    case s: False
    show ?thesis
      using same_rest_string [of s]
    proof (cases rule: same_restE)
      case (1 e e')
      then show ?thesis
        unfolding json_skip_fields.psimps [OF 3(1)] json_decode_fields.simps [of d fs s] using s by simp
    next
      case f: (2 f s1)
      show ?thesis
      proof (cases "skip_ws s1 = [] \<or> hd (skip_ws s1) \<noteq> CHR '':''")
        case True
        then show ?thesis
          unfolding json_skip_fields.psimps [OF 3(1)] json_decode_fields.simps [of d fs s] f
          using s by (auto simp: Let_def)
      next
        case c: False
        have "same_rest (do_json_skip (d - 1) (tl (skip_ws s1))) (do_json_decode (d - 1) (tl (skip_ws s1)))"
          by (rule 3(2) [OF s f(1) refl c])
        then show ?thesis
        proof (cases rule: same_restE)
          case (1 e e')
          then show ?thesis
            unfolding json_skip_fields.psimps [OF 3(1)] json_decode_fields.simps [of d fs s] f
            using s c by (simp add: Let_def)
        next
          case u: (2 v t)
          have "\<not> (skip_ws t \<noteq> [] \<and> hd (skip_ws t) = CHR ''}'') \<Longrightarrow> skip_ws t \<noteq> [] \<and> hd (skip_ws t) = CHR '','' \<Longrightarrow>
              same_rest (json_skip_fields d (skip_ws (tl (skip_ws t))))
                (json_decode_fields d (fs @ [(f, v)]) (skip_ws (tl (skip_ws t))))"
            by (rule 3(3) [OF s f(1) refl c u(1) refl])
          then show ?thesis
            unfolding json_skip_fields.psimps [OF 3(1)] json_decode_fields.simps [of d fs s] f
            using s c u by (simp add: Let_def)
        qed
      qed
    qed
  qed
qed

lemma json_skip_dom: "All do_json_skip_json_skip_values_json_skip_fields_dom"
proof (relation "measure (\<lambda>x. case x of Inl (d, s) \<Rightarrow> 2 * length s
    | Inr (Inl (d, s)) \<Rightarrow> 2 * length s + 1 | Inr (Inr (d, s)) \<Rightarrow> 2 * length s + 1)", goal_cases)
  case (2 d s0 s c s1)
  then have "skip_ws s0 \<noteq> []" by (auto simp: char_eq_chr_iff)
  from skip_tl_skip_shorter [OF this] 2 show ?case by simp
next
  case (3 d s0 s c s1)
  then have "skip_ws s0 \<noteq> []" by (auto simp: char_eq_chr_iff)
  from skip_tl_skip_shorter [OF this] 3 show ?case by simp
next
  case (5 d s s1 s2)
  have "length s1 < length s"
  proof -
    have "same_rest (do_json_skip (d - 1) s) (do_json_decode (d - 1) s)" using 5 json_skip_same_dom(1) by blast
    then show ?thesis using 5 json_decode_shorter(1) by (cases rule: same_restE) auto
  qed
  then show ?case using 5 skip_tl_skip_shorter [of s1] by simp
next
  case (6 d s s1 s2)
  then show ?case using json_string_skip_shorter [of s s1] tl_skip_shorter [of s1] by simp
next
  case (7 d s s1 s2 s3 s4)
  have "length s1 < length s" using 7 json_string_skip_shorter [of s s1] by simp
  moreover have "length (tl s2) < length s1" using 7 tl_skip_shorter [of s1] by simp
  moreover have "length s3 < length (tl s2)"
  proof -
    have "same_rest (do_json_skip (d - 1) (tl s2)) (do_json_decode (d - 1) (tl s2))" using 7 json_skip_same_dom(1) by blast
    then show ?thesis using 7 json_decode_shorter(1) by (cases rule: same_restE) (auto simp del: length_tl)
  qed
  ultimately show ?case using 7 skip_tl_skip_shorter [of s3] by simp
qed simp_all

termination do_json_skip
  by (rule json_skip_dom)

declare do_json_skip.simps [simp del] json_skip_values.simps [simp del] json_skip_fields.simps [simp del]

text \<open>C14: Skipping a value and decoding it agree on every text and depth: the skipper succeeds exactly
  when the decoder does, and both leave the cursor at the same place, strictly further than before, so both
  terminate.\<close>

theorem json_skip_iff_decode:
  "(do_json_skip d s = Inr t \<longleftrightarrow> (\<exists>v. do_json_decode d s = Inr (v, t))) \<and>
   (do_json_skip d s = Inr t \<longrightarrow> length t < length s)"
proof -
  have "same_rest (do_json_skip d s) (do_json_decode d s)"
    by (rule json_skip_same_dom(1) [OF json_skip_dom [rule_format]])
  then show ?thesis
    by (cases rule: same_restE) (auto dest: json_decode_shorter(1))
qed

theorem json_skip_iff_decode_witness:
  "(\<exists>v. do_json_decode 0 ''null,'' = Inr (v, '','')) \<and> length '','' < length ''null,''"
proof -
  have "do_json_skip 0 ''null,'' = Inr '',''"
    by (simp add: do_json_skip.simps skip_literal_def whitespaces_def char_eq_chr_iff)
  then show ?thesis using json_skip_iff_decode [of 0 "''null,''" "'',''"] by blast
qed

subsection \<open>Unescaping in place is safe\<close>

lemma length_utf8_char: "length (append_utf8_character [] c) \<le> 4" "c \<le> 0xffff \<Longrightarrow> length (append_utf8_character [] c) \<le> 3"
  by (auto simp: append_utf8_character_def)

lemma hex_digits_bound:
  fixes a b c d :: nat
  shows "a < 16 \<Longrightarrow> b < 16 \<Longrightarrow> c < 16 \<Longrightarrow> d < 16 \<Longrightarrow> ((a * 16 + b) * 16 + c) * 16 + d < 0x10000"
  by simp

lemma hex4_bound: "hex4 s = Some n \<Longrightarrow> n \<le> 0xffff"
proof -
  assume h: "hex4 s = Some n"
  have b: "hex_to_int c < 16" if "hex_to_int c \<noteq> 16" for c using that hex_to_int_iff(2) [of c] by simp
  from h have "hex_to_int (s ! 0) < 16" "hex_to_int (s ! 1) < 16" "hex_to_int (s ! 2) < 16" "hex_to_int (s ! 3) < 16"
    "n = ((hex_to_int (s ! 0) * 16 + hex_to_int (s ! 1)) * 16 + hex_to_int (s ! 2)) * 16 + hex_to_int (s ! 3)"
    unfolding hex4_def by (auto intro!: b split: if_splits)
  then have "n < 0x10000" by (simp only: hex_digits_bound)
  then show ?thesis by simp
qed

lemma json_unicode_length:
  assumes "json_unicode s = Inr (n, t)"
  shows "length (append_utf8_character [] n) + length t \<le> length s"
proof -
  obtain num where h: "4 \<le> length s" "hex4 s = Some num"
    using assms by (auto simp: json_unicode_def split: if_splits option.splits)
  have plain: ?thesis if "n = num" "t = drop 4 s"
    using length_utf8_char(2) [OF hex4_bound [OF h(2)]] h(1) that by simp
  show ?thesis
  proof (cases "n = num \<and> t = drop 4 s")
    case True
    then show ?thesis using plain by simp
  next
    case False
    then have "6 \<le> length (drop 4 s)" "t = drop 6 (drop 4 s)"
      using assms h by (auto simp: json_unicode_def Let_def split: if_splits option.splits)
    then show ?thesis using length_utf8_char(1) [of n] by simp
  qed
qed

lemma json_unescape_length:
  assumes "json_unescape s = Inr (x, t)"
  shows "length x + length t \<le> length s"
proof (cases s)
  case Nil
  then show ?thesis using assms by (simp add: json_unescape_def)
next
  case (Cons c s1)
  have "length x + length t \<le> length s1" if "json_unicode s1 = Inr (n, t)" "x = append_utf8_character [] n" for n
    using json_unicode_length [OF that(1)] that(2) by simp
  then show ?thesis
    using assms unfolding Cons json_unescape_def list.case
    by (auto simp: less_SucI le_SucI split: if_splits sum.splits prod.splits)
qed

subsection \<open>Printed strings are read back\<close>

lemma hex_digit_lower: "h < 16 \<Longrightarrow> hex_to_int (''0123456789abcdef'' ! h) = h"
proof -
  assume h: "h < 16"
  have "\<forall>h \<in> set [0..<16]. hex_to_int (''0123456789abcdef'' ! h) = h"
    by (simp add: upt_rec hex_to_int_def is_digit_def)
  with h show ?thesis by (simp del: upt_rec_numeral)
qed

lemma nat_and_low: "n AND 15 = n mod 16" "n AND 0x3FF = n mod 1024" for n :: nat
  using nat_mask [of n 4] nat_mask [of n 10] by simp_all

lemma hex4_one_char:
  assumes "c < 0x10000"
  shows "hex4 (drop 2 (json_one_char c) @ t) = Some c"
proof -
  have e: "drop_bit 12 c = c div 16 div 16 div 16" "drop_bit 8 c = c div 16 div 16" "drop_bit 4 c = c div 16"
    by (simp_all add: nat_shiftr div_mult2_eq [symmetric])
  have l: "c div 16 div 16 div 16 < 16" using assms by (simp add: div_mult2_eq [symmetric] less_mult_imp_div_less)
  have m: "n mod 16 < 16" "n mod 16 \<noteq> 16" for n :: nat using mod_less_divisor [of 16 n] by simp_all
  have r: "n div 16 * 16 + n mod 16 = n" for n :: nat by simp
  show ?thesis
    unfolding hex4_def json_one_char_def e nat_and_low using l m
    by (simp add: hex_digit_lower r numeral_2_eq_2 numeral_3_eq_3)
qed

lemma json_unicode_one_char:
  assumes "c < 0x10000" "\<not> is_surrogate c"
  shows "json_unicode (drop 2 (json_one_char c) @ t) = Inr (c, t)"
  using hex4_one_char [OF assms(1), of t] assms(2)
  by (simp add: json_unicode_def Let_def) (simp add: json_one_char_def)

lemma json_unicode_pair:
  assumes "is_surrogate c" "c < 0x10000" "is_surrogate d" "d < 0x10000"
  shows "json_unicode (drop 2 (json_one_char c) @ json_one_char d @ t) =
    Inr ((push_bit 10 (c mod 1024) OR (d mod 1024)) + 0x10000, t)"
proof -
  have one: "json_one_char d = backslash # CHR ''u'' # drop 2 (json_one_char d)" for d
    by (simp add: json_one_char_def)
  have l: "length (drop 2 (json_one_char c)) = 4" for c by (simp add: json_one_char_def)
  let ?s = "drop 2 (json_one_char c) @ json_one_char d @ t"
  have d4: "drop 4 ?s = json_one_char d @ t" using l [of c] by (simp del: drop_drop)
  have "6 \<le> length (json_one_char d @ t)" "(json_one_char d @ t) ! 0 = backslash" "(json_one_char d @ t) ! 1 = CHR ''u''"
    "drop 6 (json_one_char d @ t) = t"
    by (simp_all add: json_one_char_def)
  moreover have "hex4 (drop 2 (json_one_char d @ t)) = Some d"
    using hex4_one_char [OF assms(4), of t] by (simp add: json_one_char_def)
  ultimately show ?thesis
    unfolding json_unicode_def Let_def hex4_one_char [OF assms(2)] d4 nat_and_low
    using assms(1,3) l [of c] by simp
qed

text \<open>What is printed for a code.\<close>

definition json_code_text :: "nat \<Rightarrow> string" where
  "json_code_text c =
     (case json_escape c of
        Some e \<Rightarrow> [backslash, e]
      | None \<Rightarrow> if c \<le> 31 then json_one_char c else if 128 \<le> c then the (json_char c) else [chr c])"

lemma json_char_valid: "valid_code c \<Longrightarrow> json_char c \<noteq> None"
  by (auto simp: json_char_def valid_code_def)

text \<open>The printer on the bytes of a character of two, three and four bytes.\<close>

lemma json_escape_high: "93 \<le> n \<Longrightarrow> json_escape n = None"
  by (simp add: json_escape_def)

lemma json_string_loop_2:
  assumes "194 \<le> uc a" "uc a < 224" "continuation b" "next_utf8_unsafe (a # b # s) = Some (c, s)"
    "json_char c = Some x"
  shows "json_string_loop (a # b # s) = prepend (Some x) (json_string_loop s)"
proof -
  have l: "192 \<le> uc a" "128 \<le> uc a" using assms(1) by simp_all
  have "push_bit 6 (uc a AND 0x1f) OR (uc b AND 0x3f) = c"
    using assms l by (simp add: next_utf8_unsafe_def lead_bits Let_def)
  moreover have "uc a AND 0x1e > 0" using lead_2_nonzero [of a] assms l by simp
  ultimately show ?thesis
    using assms l continuation_iff [of b] json_escape_high [of "uc a"]
    by (simp add: json_string_loop.simps(2) lead_bits Let_def)
qed

lemma json_string_loop_3:
  assumes "224 \<le> uc a" "uc a < 240" "continuation b" "continuation c3"
    "next_utf8_unsafe (a # b # c3 # s) = Some (c, s)" "json_char c = Some x" "224 < uc a \<or> 160 \<le> uc b"
  shows "json_string_loop (a # b # c3 # s) = prepend (Some x) (json_string_loop s)"
proof -
  have l: "192 \<le> uc a" "128 \<le> uc a" using assms(1) by simp_all
  have "(push_bit 12 (uc a AND 0x0f) OR push_bit 6 (uc b AND 0x3f)) OR (uc c3 AND 0x3f) = c"
    using assms l by (simp add: next_utf8_unsafe_def lead_bits Let_def)
  moreover have "(uc a AND 0x0f) OR (uc b AND 0x20) > 0"
  proof (cases "224 < uc a")
    case True
    have "uc a div 16 = 14" using assms(1,2) by linarith
    then have "uc a AND 0x0f = uc a - 224" using div_mult_mod_eq [of "uc a" 16] by (simp add: utf8_masks)
    then show ?thesis using True by (simp add: nat_or_pos)
  next
    case False
    then have "160 \<le> uc b" using assms(7) by simp
    then have "uc b div 32 = 5" using assms(3) by linarith
    then have "uc b AND 0x20 = 32" by (simp add: utf8_masks)
    then show ?thesis by (simp add: nat_or_pos)
  qed
  ultimately show ?thesis
    using assms l continuation_iff [of b] continuation_iff [of c3] json_escape_high [of "uc a"]
    by (simp add: json_string_loop.simps(2) lead_bits Let_def)
qed

lemma json_string_loop_4:
  assumes "240 \<le> uc a" "uc a < 248" "continuation b" "continuation c3" "continuation d"
    "next_utf8_unsafe (a # b # c3 # d # s) = Some (c, s)" "json_char c = Some x" "240 < uc a \<or> 144 \<le> uc b"
  shows "json_string_loop (a # b # c3 # d # s) = prepend (Some x) (json_string_loop s)"
proof -
  have l: "192 \<le> uc a" "128 \<le> uc a" "224 \<le> uc a" using assms(1) by simp_all
  have "((push_bit 18 (uc a AND 0x07) OR push_bit 12 (uc b AND 0x3f)) OR push_bit 6 (uc c3 AND 0x3f)) OR (uc d AND 0x3f) = c"
    using assms l by (simp add: next_utf8_unsafe_def lead_bits Let_def)
  moreover have "(uc a AND 0x07) OR (uc b AND 0x30) > 0"
  proof (cases "240 < uc a")
    case True
    have "uc a div 8 = 30" using assms(1,2) by linarith
    then have "uc a AND 0x07 = uc a - 240" using div_mult_mod_eq [of "uc a" 8] by (simp add: utf8_masks)
    then show ?thesis using True by (simp add: nat_or_pos)
  next
    case False
    then have "144 \<le> uc b" using assms(8) by simp
    then have "uc b div 16 = 9 \<or> uc b div 16 = 10 \<or> uc b div 16 = 11" using assms(3) by linarith
    then have "uc b AND 0x30 \<noteq> 0" by (auto simp: utf8_masks)
    then show ?thesis by (simp add: nat_or_pos)
  qed
  ultimately show ?thesis
    using assms l continuation_iff [of b] continuation_iff [of c3] continuation_iff [of d] json_escape_high [of "uc a"]
    by (simp add: json_string_loop.simps(2) lead_bits Let_def)
qed

lemma json_string_loop_code:
  assumes "valid_code c"
  shows "json_string_loop (append_utf8_character [] c @ s) = prepend (Some (json_code_text c)) (json_string_loop s)"
proof -
  have u: "c < 0x110000" using assms by (simp add: valid_code_def)
  have m: "x mod 64 < 64" for x :: nat by simp
  obtain x where x: "json_char c = Some x" using json_char_valid [OF assms] by auto
  have nx: "next_utf8_unsafe (append_utf8_character [] c @ s) = Some (c, s)" by (rule next_utf8_char [OF assms])
  have ct: "json_code_text c = x" if "128 \<le> c"
    using that x json_escape_high [of c] by (simp add: json_code_text_def)
  consider "c \<le> 0x7f" | "0x7f < c" "c \<le> 0x7ff" | "0x7ff < c" "c \<le> 0xffff" | "0xffff < c" by linarith
  then show ?thesis
  proof cases
    case 1
    then show ?thesis
      by (cases "json_escape c") (auto simp: utf8_char_arith json_string_loop.simps(2) json_code_text_def)
  next
    case 2
    have q: "c div 64 < 32" "2 \<le> c div 64" using 2 by linarith+
    show ?thesis
      using json_string_loop_2 [OF _ _ _ _ x, of "chr (192 + c div 64)" "chr (128 + c mod 64)" s] nx q m ct 2
      unfolding utf8_char_arith(2) [OF 2] by simp
  next
    case 3
    have q: "c div 4096 < 16" "0 < c div 4096 \<or> 32 \<le> c div 64 \<and> c div 64 < 64" using 3 by linarith+
    then have "0 < c div 4096 \<or> 32 \<le> c div 64 mod 64" by auto
    then show ?thesis
      using json_string_loop_3 [OF _ _ _ _ _ x, of "chr (224 + c div 4096)" "chr (128 + c div 64 mod 64)" "chr (128 + c mod 64)" s]
        nx q(1) m ct 3
      unfolding utf8_char_arith(3) [OF 3] by simp
  next
    case 4
    have q: "c div 262144 < 8" "0 < c div 262144 \<or> 16 \<le> c div 4096 \<and> c div 4096 < 64" using 4 u by linarith+
    then have "0 < c div 262144 \<or> 16 \<le> c div 4096 mod 64" by auto
    then show ?thesis
      using json_string_loop_4 [OF _ _ _ _ _ _ x, of "chr (240 + c div 262144)" "chr (128 + c div 4096 mod 64)"
        "chr (128 + c div 64 mod 64)" "chr (128 + c mod 64)" s] nx q(1) m ct 4
      unfolding utf8_char_arith(4) [OF 4 u] by simp
  qed
qed

lemma json_string_loop_text:
  "list_all valid_code cs \<Longrightarrow> json_string_loop (utf8_text cs) = Some (concat (List.map json_code_text cs))"
proof (induction cs)
  case (Cons c cs)
  then show ?case by (simp add: json_string_loop_code prepend_def)
qed simp

text \<open>The reader on what is printed for a code.\<close>

definition prefixed :: "string \<Rightarrow> (string \<times> string) result \<Rightarrow> (string \<times> string) result" where
  "prefixed x r = (case r of Inl e \<Rightarrow> Inl e | Inr (y, s2) \<Rightarrow> Inr (x @ y, s2))"

lemma prefixed_simps [simp]: "prefixed x (Inl e) = Inl e" "prefixed x (Inr (y, t)) = Inr (x @ y, t)"
  by (simp_all add: prefixed_def)

lemma json_body_plain:
  "c \<noteq> quote \<Longrightarrow> c \<noteq> backslash \<Longrightarrow> json_string_body (c # t) = prefixed [c] (json_string_body t)"
  by (simp add: prefixed_def json_string_body.simps(2) split: sum.splits)

declare json_string_body.simps(2) [simp del]

lemma json_body_unicode:
  assumes "json_unicode (drop 2 (json_one_char n) @ t) = Inr (c, t')"
  shows "json_string_body (json_one_char n @ t) = prefixed (append_utf8_character [] c) (json_string_body t')"
proof -
  define r where "r = drop 2 (json_one_char n) @ t"
  have e: "json_one_char n @ t = backslash # CHR ''u'' # r" by (simp add: r_def json_one_char_def)
  have "json_unescape (CHR ''u'' # r) = Inr (append_utf8_character [] c, t')"
    using assms by (simp add: json_unescape_def r_def)
  then show ?thesis unfolding e by (simp add: json_string_body.simps(2) backslash_def quote_def prefixed_def)
qed

lemma json_body_escape:
  assumes "json_escape c = Some e"
  shows "json_string_body (backslash # e # t) = prefixed [chr c] (json_string_body t)"
proof -
  have "c = 34 \<and> e = quote \<or> c = 92 \<and> e = backslash \<or> c = 8 \<and> e = CHR ''b'' \<or> c = 12 \<and> e = CHR ''f'' \<or>
      c = 10 \<and> e = CHR ''n'' \<or> c = 13 \<and> e = CHR ''r'' \<or> c = 9 \<and> e = CHR ''t''"
    using assms unfolding json_escape_def by (simp split: if_splits)
  then have "json_unescape (e # t) = Inr ([chr c], t)"
    by (elim disjE conjE) (simp_all add: json_unescape_def quote_def backslash_def char_eq_chr_iff chr_eq_char_iff)
  then show ?thesis by (simp add: json_string_body.simps(2) backslash_def quote_def prefixed_def)
qed

lemma json_body_code:
  assumes "valid_code c"
  shows "json_string_body (json_code_text c @ t) = prefixed (append_utf8_character [] c) (json_string_body t)"
proof (cases "json_escape c")
  case (Some e)
  then have "c < 128" by (auto simp: json_escape_def split: if_splits)
  then show ?thesis using json_body_escape [OF Some] Some utf8_char_arith(1) [of c] by (simp add: json_code_text_def)
next
  case None
  have u: "c < 0x110000" "\<not> is_surrogate c" using assms by (simp_all add: valid_code_def is_surrogate_def)
  show ?thesis
  proof (cases "31 < c \<and> c < 128")
    case True
    have "c \<noteq> 34" "c \<noteq> 92" using None by (auto simp: json_escape_def)
    then have "chr c \<noteq> quote" "chr c \<noteq> backslash"
      using True by (simp_all add: quote_def backslash_def chr_eq_char_iff)
    then show ?thesis using None True by (simp add: json_code_text_def utf8_char_arith json_body_plain)
  next
    case f: False
    show ?thesis
    proof (cases "c < 0x10000")
      case True
      have "json_code_text c = json_one_char c"
        using f True None u(2) by (auto simp: json_code_text_def json_char_def is_surrogate_def)
      then show ?thesis using json_body_unicode [OF json_unicode_one_char [OF True u(2), of t]] by simp
    next
      case False
      define h l where "h = 0xD7C0 + c div 1024" and "l = 0xDC00 + c mod 1024"
      have q: "64 \<le> c div 1024" "c div 1024 < 1088" using False u(1) by linarith+
      have r: "c mod 1024 < 1024" by simp
      have hl: "is_surrogate h" "is_surrogate l" "h < 0x10000" "l < 0x10000"
        unfolding is_surrogate_def h_def l_def using q r by linarith+
      have t: "json_code_text c = json_one_char h @ json_one_char l"
        using False u(1) None by (simp add: json_code_text_def json_char_def nat_shiftr nat_and_low h_def l_def)
      have "h = 54 * 1024 + (c div 1024 - 64)" unfolding h_def using q by simp
      moreover have "c div 1024 - 64 < 1024" using q by simp
      ultimately have hm: "h mod 1024 = c div 1024 - 64" by (simp only: mod_low)
      have "l = 55 * 1024 + c mod 1024" unfolding l_def by simp
      then have lm: "l mod 1024 = c mod 1024" by (simp only: mod_low [OF r])
      have "(push_bit 10 (h mod 1024) OR (l mod 1024)) + 0x10000 = (c div 1024 - 64) * 1024 + c mod 1024 + 0x10000"
        unfolding hm lm using nat_or_disjoint [of "c mod 1024" 10 "c div 1024 - 64"] by (simp add: nat_shiftl)
      also have "\<dots> = c" using q(1) div_mult_mod_eq [of c 1024] by (simp add: diff_mult_distrib)
      finally have "json_unicode (drop 2 (json_one_char h) @ json_one_char l @ t) = Inr (c, t)"
        using json_unicode_pair [OF hl(1,3,2,4), of t] by simp
      from json_body_unicode [OF this] show ?thesis by (simp add: t)
    qed
  qed
qed

lemma json_body_text:
  "list_all valid_code cs \<Longrightarrow>
   json_string_body (concat (List.map json_code_text cs) @ quote # t) = Inr (utf8_text cs, t)"
proof (induction cs)
  case (Cons c cs)
  then show ?case by (simp add: json_body_code)
qed (simp add: json_string_body.simps(2))

lemma json_string_roundtrip:
  assumes "list_all valid_code cs"
  shows "\<exists>x. json_string_print (utf8_text cs) = Some x \<and> x \<noteq> [] \<and> hd x = quote \<and>
    (\<forall>t. json_string_decode (x @ t) = Inr (utf8_text cs, t))"
  using json_string_loop_text [OF assms] json_body_text [OF assms]
  by (simp add: json_string_print_def json_string_decode_def)

subsection \<open>Printed values are read back\<close>

definition text_ok :: "string \<Rightarrow> bool" where
  "text_ok s \<longleftrightarrow> check_utf8 s = Some True"

text \<open>A value whose strings are UTF-8, whose numbers are spelled with the characters of numbers and whose
  depth is at most \<open>d\<close>.\<close>

fun json_ok :: "int \<Rightarrow> json \<Rightarrow> bool"
  and json_ok_values :: "int \<Rightarrow> json list \<Rightarrow> bool"
  and json_ok_fields :: "int \<Rightarrow> (string \<times> json) list \<Rightarrow> bool" where
  "json_ok d JsonNull \<longleftrightarrow> 0 \<le> d"
| "json_ok d (JsonBoolean b) \<longleftrightarrow> 0 \<le> d"
| "json_ok d (JsonNumber n) \<longleftrightarrow> 0 \<le> d \<and> n \<noteq> [] \<and> starts_number (hd n) \<and> list_all is_number_char n"
| "json_ok d (JsonStr s) \<longleftrightarrow> 0 \<le> d \<and> text_ok s"
| "json_ok d (JsonArray vs) \<longleftrightarrow> 0 \<le> d \<and> json_ok_values (d - 1) vs"
| "json_ok d (JsonObject fs) \<longleftrightarrow> 0 \<le> d \<and> json_ok_fields (d - 1) fs"
| "json_ok_values d [] \<longleftrightarrow> True"
| "json_ok_values d (v # vs) \<longleftrightarrow> json_ok d v \<and> json_ok_values d vs"
| "json_ok_fields d [] \<longleftrightarrow> True"
| "json_ok_fields d ((f, v) # fs) \<longleftrightarrow> text_ok f \<and> json_ok d v \<and> json_ok_fields d fs"

abbreviation ws :: "string \<Rightarrow> bool" where
  "ws w \<equiv> list_all (\<lambda>c. c \<in> set whitespaces) w"

definition no_number :: "string \<Rightarrow> bool" where
  "no_number s \<longleftrightarrow> (s = [] \<or> \<not> is_number_char (hd s))"

lemma ws_not_number: "c \<in> set whitespaces \<Longrightarrow> \<not> is_number_char c"
  by (auto simp: whitespaces_def is_number_char_def is_digit_def chr_eq_char_iff)

lemma no_number_ws: "ws w \<Longrightarrow> no_number s \<Longrightarrow> no_number (w @ s)"
  by (cases w) (auto simp: no_number_def ws_not_number)

lemma skip_ws_append: "ws w \<Longrightarrow> skip_ws (w @ s) = skip_ws s"
  by (induction w) simp_all

lemma skip_ws_stop: "s \<noteq> [] \<Longrightarrow> hd s \<notin> set whitespaces \<Longrightarrow> skip_ws (s @ t) = s @ t"
  by (cases s) simp_all

lemma not_ws: "32 < uc c \<Longrightarrow> c \<notin> set whitespaces"
  by (auto simp: whitespaces_def chr_eq_char_iff)

definition nl :: "int \<Rightarrow> string" where
  "nl off = (if off \<ge> 0 then chr 10 # concat (replicate (nat off) ''   '') else [])"

lemma ws_nl: "ws (nl off)"
  by (auto simp: nl_def list_all_iff whitespaces_def)

lemma jb_put_put [simp]: "jb_put a (jb_put b jb) = jb_put (b @ a) jb"
  by (simp add: jb_put_def)

lemma jb_put_offset [simp]: "jb_offset (jb_put a jb) = jb_offset jb"
  by (simp add: jb_put_def)

lemma jb_put_inc: "jb_put a (inc_offset jb) = inc_offset (jb_put a jb)"
  by (simp add: jb_put_def inc_offset_def)

lemma print_offset_nl: "print_offset jb = jb_put (nl (jb_offset jb)) jb"
  by (simp add: print_offset_def nl_def jb_put_def)

lemma dec_inc_offset: "dec_offset (inc_offset jb) = Some jb"
  by (simp add: dec_offset_def inc_offset_def)

lemma leave_inc:
  "array_leave (inc_offset jb) = Some (jb_put (nl (jb_offset jb) @ '']'') jb)"
  "object_leave (inc_offset jb) = Some (jb_put (nl (jb_offset jb) @ ''}'') jb)"
  by (simp_all add: array_leave_def object_leave_def dec_inc_offset print_offset_nl)

text \<open>The loops of the decoder behind an element.\<close>

definition values_next :: "int \<Rightarrow> json list \<Rightarrow> string \<Rightarrow> (json \<times> string) result" where
  "values_next d res s1 =
     (let s2 = skip_ws s1 in
      if s2 = [] then error_result ''Unexpected string end''
      else if hd s2 = CHR '']'' then Inr (JsonArray res, tl s2)
      else if hd s2 = CHR '','' then json_decode_values d res (skip_ws (tl s2))
      else error_result ''Unexpected symbol while parsing JSON Array'')"

definition fields_next :: "int \<Rightarrow> (string \<times> json) list \<Rightarrow> string \<Rightarrow> (json \<times> string) result" where
  "fields_next d res s3 =
     (let s4 = skip_ws s3 in
      if s4 = [] then error_result ''Unexpected string end''
      else if hd s4 = CHR ''}'' then Inr (JsonObject res, tl s4)
      else if hd s4 = CHR '','' then json_decode_fields d res (skip_ws (tl s4))
      else error_result ''Unexpected symbol while parsing JSON Object'')"

lemma json_decode_values_next:
  "do_json_decode (d - 1) s = Inr (v, t) \<Longrightarrow> s \<noteq> [] \<Longrightarrow> json_decode_values d res s = values_next d (res @ [v]) t"
  by (simp add: json_decode_values.simps [of d res s] values_next_def)

lemma json_decode_fields_next:
  assumes "json_string_decode s = Inr (f, w @ CHR '':'' # s')" "ws w" "do_json_decode (d - 1) s' = Inr (v, t)" "s \<noteq> []"
  shows "json_decode_fields d res s = fields_next d (res @ [(f, v)]) t"
proof -
  have "skip_ws (w @ CHR '':'' # s') = CHR '':'' # s'" using assms(2) not_ws [of "CHR '':''"] by (simp add: skip_ws_append)
  then show ?thesis using assms by (simp add: json_decode_fields.simps [of d res s] fields_next_def)
qed

text \<open>A text that decodes to \<open>v\<close> wherever it stands.\<close>

definition decodes :: "int \<Rightarrow> string \<Rightarrow> json \<Rightarrow> bool" where
  "decodes d t v \<longleftrightarrow> t \<noteq> [] \<and> hd t \<notin> set whitespaces \<and>
     (\<forall>w rest. ws w \<longrightarrow> no_number rest \<longrightarrow> do_json_decode d (w @ t @ rest) = Inr (v, rest))"

lemma decodes_literal:
  assumes "0 \<le> d"
  shows "decodes d ''null'' JsonNull" "decodes d ''true'' (JsonBoolean True)" "decodes d ''false'' (JsonBoolean False)"
  using assms not_ws
  by (simp_all add: decodes_def do_json_decode.simps skip_ws_append try_literal_def)

lemma decodes_string:
  assumes "0 \<le> d" "x \<noteq> []" "hd x = quote" "\<And>t. json_string_decode (x @ t) = Inr (s, t)"
  shows "decodes d x (JsonStr s)"
proof -
  have "quote \<notin> set whitespaces" by (rule not_ws) (simp add: quote_def)
  then show ?thesis
    using assms by (simp add: decodes_def do_json_decode.simps skip_ws_append skip_ws_stop) (simp add: quote_def)
qed

lemma decodes_number:
  assumes "0 \<le> d" "n \<noteq> []" "starts_number (hd n)" "list_all is_number_char n"
  shows "decodes d n (JsonNumber n)"
proof -
  have k: "hd n \<notin> set whitespaces" "hd n \<noteq> CHR ''f''" "hd n \<noteq> CHR ''t''" "hd n \<noteq> CHR ''n''" "hd n \<noteq> quote"
    "hd n \<noteq> CHR ''[''" "hd n \<noteq> CHR ''{''"
    using assms(3) by (auto simp: starts_number_def is_digit_def quote_def intro!: not_ws)
  have t: "takeWhile is_number_char (n @ r) = n" "dropWhile is_number_char (n @ r) = r" if "no_number r" for r
    using assms(4) that by (cases r; induction n; simp add: no_number_def)+
  show ?thesis
    using assms k t by (simp add: decodes_def do_json_decode.simps skip_ws_append skip_ws_stop)
qed

text \<open>What a list of elements, printed after \<open>is_first\<close>, decodes to, whatever closes it.\<close>

definition decodes_rest :: "char \<Rightarrow> (string \<Rightarrow> 'a result) \<Rightarrow> (string \<Rightarrow> 'a) \<Rightarrow> string \<Rightarrow> bool" where
  "decodes_rest close dec v t \<longleftrightarrow>
     (\<forall>w rest. ws w \<longrightarrow> dec (t @ w @ close # rest) = Inr (v rest))"

abbreviation close_array :: char where "close_array \<equiv> CHR '']''"
abbreviation close_object :: char where "close_object \<equiv> CHR ''}''"

definition values_text :: "int \<Rightarrow> json list \<Rightarrow> bool \<Rightarrow> string \<Rightarrow> bool" where
  "values_text d vs is_first t \<longleftrightarrow>
     (if is_first
      then (t = [] \<or> hd t = CHR '','') \<and>
           (\<forall>res w rest. ws w \<longrightarrow> values_next d res (t @ w @ close_array # rest) = Inr (JsonArray (res @ vs), rest))
      else if vs = [] then t = []
      else \<exists>n u. t = n @ u \<and> ws n \<and> u \<noteq> [] \<and> hd u \<notin> set whitespaces \<and> hd u \<noteq> close_array \<and>
           (\<forall>res w rest. ws w \<longrightarrow> json_decode_values d res (u @ w @ close_array # rest) = Inr (JsonArray (res @ vs), rest)))"

definition fields_text :: "int \<Rightarrow> (string \<times> json) list \<Rightarrow> bool \<Rightarrow> string \<Rightarrow> bool" where
  "fields_text d fs is_first t \<longleftrightarrow>
     (if is_first
      then (t = [] \<or> hd t = CHR '','') \<and>
           (\<forall>res w rest. ws w \<longrightarrow> fields_next d res (t @ w @ close_object # rest) = Inr (JsonObject (res @ fs), rest))
      else if fs = [] then t = []
      else \<exists>n u. t = n @ u \<and> ws n \<and> u \<noteq> [] \<and> hd u \<notin> set whitespaces \<and> hd u \<noteq> close_object \<and>
           (\<forall>res w rest. ws w \<longrightarrow> json_decode_fields d res (u @ w @ close_object # rest) = Inr (JsonObject (res @ fs), rest)))"

lemma decodes_append:
  assumes "decodes d t v" "no_number rest"
  shows "do_json_decode d (t @ rest) = Inr (v, rest)"
proof -
  have "ws [] \<longrightarrow> no_number rest \<longrightarrow> do_json_decode d ([] @ t @ rest) = Inr (v, rest)"
    using assms(1) unfolding decodes_def by blast
  then show ?thesis using assms(2) by simp
qed

lemma decodes_hd: "decodes d t v \<Longrightarrow> hd t \<noteq> close_array"
proof
  assume h: "decodes d t v" "hd t = close_array"
  then have "do_json_decode d t = Inr (v, [])" "t \<noteq> []"
    using decodes_append [OF h(1), of "[]"] by (simp_all add: no_number_def decodes_def)
  moreover have "skip_ws t = t" using h by (cases t) (auto simp: decodes_def)
  ultimately show False
    using h(2) by (auto simp: do_json_decode.simps [of d t] quote_def starts_number_def is_digit_def unexpected_symbol_def split: if_splits)
qed

lemma no_number_rest:
  assumes "t = [] \<or> hd t = CHR '',''" "ws w" "c \<in> {close_array, close_object}"
  shows "no_number (t @ w @ c # rest)"
proof (cases "t = []")
  case True
  have "no_number (c # rest)" using assms(3) by (auto simp: no_number_def is_number_char_def is_digit_def)
  then show ?thesis using True assms(2) by (simp add: no_number_ws)
next
  case False
  then show ?thesis using assms(1) by (cases t) (auto simp: no_number_def is_number_char_def is_digit_def)
qed

lemma values_next_nil: "ws w \<Longrightarrow> values_next d res (w @ close_array # rest) = Inr (JsonArray res, rest)"
  using not_ws [of close_array] by (simp add: values_next_def skip_ws_append)

lemma fields_next_nil: "ws w \<Longrightarrow> fields_next d res (w @ close_object # rest) = Inr (JsonObject res, rest)"
  using not_ws [of close_object] by (simp add: fields_next_def skip_ws_append)

lemma values_text_Cons:
  assumes v: "decodes (d - 1) tv v" and ts: "values_text d vs True ts" and n: "ws n"
  shows "values_text d (v # vs) is_first ((if is_first then '','' else []) @ n @ tv @ ts)"
proof -
  have b: "tv \<noteq> []" "hd tv \<notin> set whitespaces" using v by (simp_all add: decodes_def)
  have main: "json_decode_values d res (tv @ ts @ w @ close_array # rest) = Inr (JsonArray (res @ v # vs), rest)"
    if w: "ws w" for res w rest
  proof -
    have "no_number (ts @ w @ close_array # rest)"
      using ts w by (intro no_number_rest) (simp_all add: values_text_def)
    then have "do_json_decode (d - 1) (tv @ ts @ w @ close_array # rest) = Inr (v, ts @ w @ close_array # rest)"
      by (rule decodes_append [OF v])
    then show ?thesis
      using json_decode_values_next [of d "tv @ ts @ w @ close_array # rest" v _ res] b(1) ts w
      by (simp add: values_text_def)
  qed
  show ?thesis
  proof (cases is_first)
    case False
    have "\<exists>n' u. n @ tv @ ts = n' @ u \<and> ws n' \<and> u \<noteq> [] \<and> hd u \<notin> set whitespaces \<and> hd u \<noteq> close_array \<and>
           (\<forall>res w rest. ws w \<longrightarrow> json_decode_values d res (u @ w @ close_array # rest) = Inr (JsonArray (res @ v # vs), rest))"
      by (rule exI [of _ n], rule exI [of _ "tv @ ts"]) (use b n main decodes_hd [OF v] in simp)
    then show ?thesis using False by (simp add: values_text_def)
  next
    case True
    have "values_next d res ('','' @ n @ tv @ r) = json_decode_values d res (tv @ r)" for res r
      using not_ws [of "CHR '',''"] n skip_ws_stop [OF b, of r] by (simp add: values_next_def skip_ws_append)
    then show ?thesis using True main by (simp add: values_text_def)
  qed
qed

lemma fields_text_Cons:
  assumes v: "decodes (d - 1) tv v" and ts: "fields_text d fs True ts" and n: "ws n" and m: "ws m" "ws m'"
    and x: "x \<noteq> []" "hd x = quote" "\<And>t. json_string_decode (x @ t) = Inr (f, t)"
  shows "fields_text d ((f, v) # fs) is_first ((if is_first then '','' else []) @ n @ x @ m @ '':'' @ m' @ tv @ ts)"
proof -
  have b: "hd x \<notin> set whitespaces" "hd x \<noteq> close_object" using x(2) by (simp_all add: quote_def not_ws)
  have main: "json_decode_fields d res (x @ m @ '':'' @ m' @ tv @ ts @ w @ close_object # rest) =
      Inr (JsonObject (res @ (f, v) # fs), rest)"
    if w: "ws w" for res w rest
  proof -
    have "no_number (ts @ w @ close_object # rest)"
      using ts w by (intro no_number_rest) (simp_all add: fields_text_def)
    then have "do_json_decode (d - 1) (m' @ tv @ ts @ w @ close_object # rest) = Inr (v, ts @ w @ close_object # rest)"
      using v m(2) unfolding decodes_def by blast
    then show ?thesis
      using json_decode_fields_next [of "x @ m @ '':'' @ m' @ tv @ ts @ w @ close_object # rest" f m
          "m' @ tv @ ts @ w @ close_object # rest" d v _ res] x m(1) ts w
      by (simp add: fields_text_def)
  qed
  show ?thesis
  proof (cases is_first)
    case False
    have "\<exists>n' u. n @ x @ m @ '':'' @ m' @ tv @ ts = n' @ u \<and> ws n' \<and> u \<noteq> [] \<and> hd u \<notin> set whitespaces \<and> hd u \<noteq> close_object \<and>
           (\<forall>res w rest. ws w \<longrightarrow> json_decode_fields d res (u @ w @ close_object # rest) = Inr (JsonObject (res @ (f, v) # fs), rest))"
      by (rule exI [of _ n], rule exI [of _ "x @ m @ '':'' @ m' @ tv @ ts"]) (use b x(1) n main in simp)
    then show ?thesis using False by (simp add: fields_text_def)
  next
    case True
    have "fields_next d res ('','' @ n @ x @ r) = json_decode_fields d res (x @ r)" for res r
      using not_ws [of "CHR '',''"] n skip_ws_stop [OF x(1) b(1), of r] by (simp add: fields_next_def skip_ws_append)
    then show ?thesis using True main by (simp add: fields_text_def)
  qed
qed

lemma decodes_array:
  assumes "0 \<le> d" "values_text d vs False t" "ws w"
  shows "decodes d (''['' @ t @ w @ '']'') (JsonArray vs)"
proof -
  have o: "CHR ''['' \<notin> set whitespaces" "close_array \<notin> set whitespaces" by (simp_all add: not_ws)
  have "do_json_decode d (w' @ (''['' @ t @ w @ '']'') @ rest) = Inr (JsonArray vs, rest)" if w': "ws w'" for w' rest
  proof (cases "vs = []")
    case True
    then show ?thesis
      using assms w' o by (simp add: values_text_def do_json_decode.simps skip_ws_append quote_def)
  next
    case False
    then obtain n u where u: "t = n @ u" "ws n" "u \<noteq> []" "hd u \<notin> set whitespaces" "hd u \<noteq> close_array"
      "\<And>res w rest. ws w \<Longrightarrow> json_decode_values d res (u @ w @ close_array # rest) = Inr (JsonArray (res @ vs), rest)"
      using assms(2) by (auto simp: values_text_def)
    show ?thesis
      using assms w' o u skip_ws_stop [OF u(3,4)]
      by (simp add: do_json_decode.simps skip_ws_append quote_def)
  qed
  then show ?thesis using o by (simp add: decodes_def)
qed

lemma decodes_object:
  assumes "0 \<le> d" "fields_text d fs False t" "ws w"
  shows "decodes d (''{'' @ t @ w @ ''}'') (JsonObject fs)"
proof -
  have o: "CHR ''{'' \<notin> set whitespaces" "close_object \<notin> set whitespaces" by (simp_all add: not_ws)
  have "do_json_decode d (w' @ (''{'' @ t @ w @ ''}'') @ rest) = Inr (JsonObject fs, rest)" if w': "ws w'" for w' rest
  proof (cases "fs = []")
    case True
    then show ?thesis
      using assms w' o by (simp add: fields_text_def do_json_decode.simps skip_ws_append quote_def)
  next
    case False
    then obtain n u where u: "t = n @ u" "ws n" "u \<noteq> []" "hd u \<notin> set whitespaces" "hd u \<noteq> close_object"
      "\<And>res w rest. ws w \<Longrightarrow> json_decode_fields d res (u @ w @ close_object # rest) = Inr (JsonObject (res @ fs), rest)"
      using assms(2) by (auto simp: fields_text_def)
    show ?thesis
      using assms w' o u skip_ws_stop [OF u(3,4)]
      by (simp add: do_json_decode.simps skip_ws_append quote_def)
  qed
  then show ?thesis using o by (simp add: decodes_def)
qed

lemma json_store_decodes:
  "json_ok d v \<Longrightarrow> \<exists>t. json_store v jb = Some (jb_put t jb) \<and> decodes d t v"
  "json_ok_values (d - 1) vs \<Longrightarrow> \<exists>t. json_store_values vs is_first jb = Some (jb_put t jb) \<and> values_text d vs is_first t"
  "json_ok_fields (d - 1) fs \<Longrightarrow> \<exists>t. json_store_fields fs is_first jb = Some (jb_put t jb) \<and> fields_text d fs is_first t"
proof (induction v jb and vs is_first jb and fs is_first jb arbitrary: d and d and d
    rule: json_store_json_store_values_json_store_fields.induct)
  case (1 jb)
  then show ?case using decodes_literal(1) by auto
next
  case (2 b jb)
  then show ?case using decodes_literal(2,3) by (cases b) auto
next
  case (3 n jb)
  then show ?case using decodes_number by auto
next
  case (4 s jb)
  then obtain cs where cs: "list_all valid_code cs" "s = utf8_text cs" by (auto simp: text_ok_def check_utf8_text_iff)
  obtain x where "json_string_print s = Some x" "x \<noteq> []" "hd x = quote" "\<And>t. json_string_decode (x @ t) = Inr (s, t)"
    using json_string_roundtrip [OF cs(1)] cs(2) by blast
  then show ?case using decodes_string [of d x s] 4 by (auto simp: jb_put_string_def)
next
  case (5 arr jb)
  then obtain t where t: "json_store_values arr False (array_scope jb) = Some (jb_put t (array_scope jb))" "values_text d arr False t"
    by auto
  have "json_store (JsonArray arr) jb = Some (jb_put (''['' @ t @ nl (jb_offset jb) @ '']'') jb)"
    using t(1) by (simp add: array_scope_def jb_put_inc leave_inc)
  moreover have "decodes d (''['' @ t @ nl (jb_offset jb) @ '']'') (JsonArray arr)"
    using 5 t(2) by (intro decodes_array ws_nl) auto
  ultimately show ?case by blast
next
  case (6 fvs jb)
  then obtain t where t: "json_store_fields fvs False (object_scope jb) = Some (jb_put t (object_scope jb))" "fields_text d fvs False t"
    by auto
  have "json_store (JsonObject fvs) jb = Some (jb_put (''{'' @ t @ nl (jb_offset jb) @ ''}'') jb)"
    using t(1) by (simp add: object_scope_def jb_put_inc leave_inc)
  moreover have "decodes d (''{'' @ t @ nl (jb_offset jb) @ ''}'') (JsonObject fvs)"
    using 6 t(2) by (intro decodes_object ws_nl) auto
  ultimately show ?case by blast
next
  case (7 is_first jb)
  then show ?case by (auto simp: values_text_def values_next_nil jb_put_def intro!: exI [of _ "[]"])
next
  case (8 v vs is_first jb)
  let ?jb = "array_enter_value is_first jb"
  have e: "?jb = jb_put ((if is_first then '','' else []) @ nl (jb_offset jb)) jb"
    by (simp add: array_enter_value_def print_offset_nl)
  obtain tv where tv: "json_store v ?jb = Some (jb_put tv ?jb)" "decodes (d - 1) tv v"
    using 8(1) [of "d - 1"] 8(3) by auto
  obtain ts where ts: "json_store_values vs True (jb_put tv ?jb) = Some (jb_put ts (jb_put tv ?jb))" "values_text d vs True ts"
    using 8(2) [OF tv(1), of d] 8(3) by auto
  have "json_store_values (v # vs) is_first jb =
      Some (jb_put ((if is_first then '','' else []) @ nl (jb_offset jb) @ tv @ ts) jb)"
    using tv(1) ts(1) by (simp add: e)
  then show ?case using values_text_Cons [OF tv(2) ts(2) ws_nl] by blast
next
  case (9 is_first jb)
  then show ?case by (auto simp: fields_text_def fields_next_nil jb_put_def intro!: exI [of _ "[]"])
next
  case (10 f v fs is_first jb)
  then obtain cs where cs: "list_all valid_code cs" "f = utf8_text cs" by (auto simp: text_ok_def check_utf8_text_iff)
  obtain x where x: "json_string_print f = Some x" "x \<noteq> []" "hd x = quote" "\<And>t. json_string_decode (x @ t) = Inr (f, t)"
    using json_string_roundtrip [OF cs(1)] cs(2) by blast
  define m :: string where "m = (if is_pretty jb then '' '' else [])"
  have m: "ws m" by (simp add: m_def whitespaces_def)
  define jb1 where "jb1 = jb_put ((if is_first then '','' else []) @ nl (jb_offset jb) @ x @ m @ '':'' @ m) jb"
  have e: "object_enter_field is_first f jb = Some jb1"
    unfolding object_enter_field_def jb_put_string_def x(1) jb1_def m_def
    by (simp add: print_offset_nl is_pretty_def)
  obtain tv where tv: "json_store v jb1 = Some (jb_put tv jb1)" "decodes (d - 1) tv v"
    using 10(1) [OF e, of "d - 1"] 10(3) by auto
  obtain ts where ts: "json_store_fields fs True (jb_put tv jb1) = Some (jb_put ts (jb_put tv jb1))" "fields_text d fs True ts"
    using 10(2) [OF e tv(1), of d] 10(3) by auto
  have "json_store_fields ((f, v) # fs) is_first jb =
      Some (jb_put ((if is_first then '','' else []) @ nl (jb_offset jb) @ x @ m @ '':'' @ m @ tv @ ts) jb)"
    using tv(1) ts(1) e by (simp add: jb1_def)
  then show ?case using fields_text_Cons [OF tv(2) ts(2) ws_nl m m x(2-4)] by blast
qed

text \<open>C1: Decoding a printed value gives the value back, in compact and in pretty form, for every value
  whose strings are UTF-8, whose numbers are spelled as numbers and that is at most 100 levels deep.\<close>

theorem json_encode_decode:
  assumes "json_ok 100 v"
  shows "\<exists>t. json_encode v pretty = Some t \<and> json_decode t = Inr v"
proof -
  let ?jb = "\<lparr>jb_text = [], jb_offset = if pretty then 0 else - 1\<rparr>"
  let ?n = "if pretty then [chr 10] else []"
  obtain t where t: "json_store v ?jb = Some (jb_put t ?jb)" "decodes 100 t v"
    using json_store_decodes(1) [OF assms] by blast
  have n: "ws ?n" by (simp add: whitespaces_def)
  have "no_number ?n" using no_number_ws [OF n, of "[]"] by (simp add: no_number_def)
  then have "do_json_decode 100 (t @ ?n) = Inr (v, ?n)" by (rule decodes_append [OF t(2)])
  moreover have "skip_ws ?n = []" using n skip_ws_append [OF n, of "[]"] by simp
  ultimately have "json_decode (t @ ?n) = Inr v" unfolding json_decode_def by simp
  then show ?thesis using t(1) by (simp add: json_encode_def jb_put_def)
qed

theorem json_encode_decode_witness:
  "\<exists>t. json_encode (JsonArray [JsonBoolean True, JsonObject [(''a'', JsonNumber ''-12'')], JsonArray []]) True = Some t \<and>
    json_decode t = Inr (JsonArray [JsonBoolean True, JsonObject [(''a'', JsonNumber ''-12'')], JsonArray []])"
proof (rule json_encode_decode)
  have "check_utf8 ''a'' = Some True" by code_simp
  then show "json_ok 100 (JsonArray [JsonBoolean True, JsonObject [(''a'', JsonNumber ''-12'')], JsonArray []])"
    by (simp add: text_ok_def starts_number_def is_number_char_def is_digit_def)
qed

subsection \<open>The limit of the depth\<close>

text \<open>How deep arrays and objects that are not empty nest.\<close>

fun json_depth :: "json \<Rightarrow> nat"
  and values_depth :: "json list \<Rightarrow> nat"
  and fields_depth :: "(string \<times> json) list \<Rightarrow> nat" where
  "json_depth (JsonArray vs) = values_depth vs"
| "json_depth (JsonObject fs) = fields_depth fs"
| "json_depth v = 0"
| "values_depth [] = 0"
| "values_depth (v # vs) = max (Suc (json_depth v)) (values_depth vs)"
| "fields_depth [] = 0"
| "fields_depth ((f, v) # fs) = max (Suc (json_depth v)) (fields_depth fs)"

text \<open>What a smaller limit makes of a result.\<close>

abbreviation too_deep :: "(json \<times> string) result" where
  "too_deep \<equiv> error_result ''Too big object depth''"

definition limited :: "int \<Rightarrow> nat \<Rightarrow> json \<times> string \<Rightarrow> (json \<times> string) result" where
  "limited d n r = (if int n \<le> d then Inr r else too_deep)"

lemma limited_simps:
  "limited d n r = Inr r' \<longleftrightarrow> int n \<le> d \<and> r' = r"
  by (auto simp: limited_def)

lemma decode_limited:
  "do_json_decode D s0 = Inr r \<Longrightarrow> d \<le> D \<Longrightarrow> do_json_decode d s0 = limited d (json_depth (fst r)) r"
  "json_decode_values D res s = Inr r \<Longrightarrow> \<exists>vs. fst r = JsonArray (res @ vs) \<and>
     (\<forall>d \<le> D. json_decode_values d res s = limited d (values_depth vs) r)"
  "json_decode_fields D fres s = Inr r \<Longrightarrow> \<exists>fs. fst r = JsonObject (fres @ fs) \<and>
     (\<forall>d \<le> D. json_decode_fields d fres s = limited d (fields_depth fs) r)"
proof (induction D s0 and D res s and D fres s arbitrary: r d and r and r
    rule: do_json_decode_json_decode_values_json_decode_fields.induct)
  case (1 D s0)
  define s where "s = skip_ws s0"
  define c where "c = (if s = [] then chr 0 else hd s)"
  define s1 where "s1 = skip_ws (tl s)"
  show ?case
  proof (cases "d < 0")
    case True
    then show ?thesis by (simp add: do_json_decode.simps [of d] limited_def)
  next
    case d: False
    with 1(4) have D: "\<not> D < 0" by simp
    note eq = do_json_decode.simps [of _ s0, folded s_def, unfolded Let_def, folded c_def s1_def]
    consider (arr) "c = CHR ''[''" "\<not> (s1 \<noteq> [] \<and> hd s1 = CHR '']'')"
      | (obj) "c = CHR ''{''" "\<not> (s1 \<noteq> [] \<and> hd s1 = CHR ''}'')"
      | (flat) "(c = CHR ''['' \<longrightarrow> (s1 \<noteq> [] \<and> hd s1 = CHR '']'')) \<and> (c = CHR ''{'' \<longrightarrow> (s1 \<noteq> [] \<and> hd s1 = CHR ''}''))"
      by blast
    then show ?thesis
    proof cases
      case arr
      have "json_decode_values D [] s1 = Inr r" using 1(3) arr D by (simp add: eq [of D] quote_def)
      with 1(1) [OF D s_def c_def _ _ _ _ _ s1_def, of r] arr obtain vs where
        "fst r = JsonArray vs" "\<forall>d\<le>D. json_decode_values d [] s1 = limited d (values_depth vs) r"
        by (auto simp: quote_def)
      with arr d 1(4) show ?thesis by (auto simp: eq [of d] quote_def)
    next
      case obj
      have "json_decode_fields D [] s1 = Inr r" using 1(3) obj D by (simp add: eq [of D] quote_def)
      with 1(2) [OF D s_def c_def _ _ _ _ _ _ s1_def, of r] obj obtain fs where
        "fst r = JsonObject fs" "\<forall>d\<le>D. json_decode_fields d [] s1 = limited d (fields_depth fs) r"
        by (auto simp: quote_def)
      with obj d 1(4) show ?thesis by (auto simp: eq [of d] quote_def)
    next
      case flat
      have "do_json_decode d s0 = do_json_decode D s0"
        using flat d D by (simp add: eq)
      moreover have "json_depth (fst r) = 0"
        using flat 1(3) D
        by (auto simp: eq try_literal_def unexpected_symbol_def quote_def split: if_splits sum.splits prod.splits)
      ultimately show ?thesis using d 1(3) by (simp add: limited_def)
    qed
  qed
next
  case (2 D res s)
  from 2(3) obtain v s1 where v: "s \<noteq> []" "do_json_decode (D - 1) s = Inr (v, s1)"
    by (auto simp: json_decode_values.simps [of D] split: if_splits sum.splits)
  define s2 where "s2 = skip_ws s1"
  have el: "do_json_decode (d - 1) s = limited (d - 1) (json_depth v) (v, s1)" if "d \<le> D" for d
    using 2(1) [OF v(1,2), of "d - 1"] that by simp
  note eq = json_decode_values.simps [of _ res s]
  have s2: "s2 \<noteq> []" using 2(3) v by (auto simp: eq Let_def s2_def)
  show ?case
  proof (cases "hd s2 = CHR '']''")
    case True
    then have "r = (JsonArray (res @ [v]), tl s2)" using 2(3) v s2 by (simp add: eq Let_def s2_def)
    then show ?thesis
      using el True s2 v(1)
      by (intro exI [of _ "[v]"]) (auto simp: eq Let_def s2_def limited_def)
  next
    case False
    have c: "hd s2 = CHR '',''" and rest: "json_decode_values D (res @ [v]) (skip_ws (tl s2)) = Inr r"
      using 2(3) v s2 False by (simp_all add: eq Let_def s2_def split: if_splits)
    from 2(2) [OF v(1,2) refl s2_def s2 False c rest] obtain vs where vs: "fst r = JsonArray ((res @ [v]) @ vs)"
      "\<forall>d\<le>D. json_decode_values d (res @ [v]) (skip_ws (tl s2)) = limited d (values_depth vs) r" by blast
    then show ?thesis
      using el c s2 v(1)
      by (intro exI [of _ "v # vs"]) (auto simp: eq Let_def s2_def limited_def)
  qed
next
  case (3 D fres s)
  from 3(3) obtain f s1 v s3 where v: "s \<noteq> []" "json_string_decode s = Inr (f, s1)"
    "\<not> (skip_ws s1 = [] \<or> hd (skip_ws s1) \<noteq> CHR '':'')" "do_json_decode (D - 1) (tl (skip_ws s1)) = Inr (v, s3)"
    by (auto simp: json_decode_fields.simps [of D] Let_def split: if_splits sum.splits)
  define s2 where "s2 = skip_ws s1"
  define s4 where "s4 = skip_ws s3"
  note v' = v [folded s2_def]
  have el: "do_json_decode (d - 1) (tl s2) = limited (d - 1) (json_depth v) (v, s3)" if "d \<le> D" for d
    using 3(1) [OF v'(1,2) refl s2_def v'(3,4), of "d - 1"] that by simp
  note eq = json_decode_fields.simps [of _ fres s]
  have s4: "s4 \<noteq> []" using 3(3) v by (auto simp: eq Let_def s4_def)
  show ?case
  proof (cases "hd s4 = CHR ''}''")
    case True
    then have "r = (JsonObject (fres @ [(f, v)]), tl s4)" using 3(3) v s4 by (simp add: eq Let_def s4_def)
    then show ?thesis
      using el True s4 v'
      by (intro exI [of _ "[(f, v)]"]) (auto simp: eq Let_def s2_def s4_def limited_def)
  next
    case False
    have c: "hd s4 = CHR '',''" and rest: "json_decode_fields D (fres @ [(f, v)]) (skip_ws (tl s4)) = Inr r"
      using 3(3) v s4 False by (simp_all add: eq Let_def s4_def split: if_splits)
    from 3(2) [OF v'(1,2) refl s2_def v'(3,4) refl s4_def s4 False c rest] obtain fs where
      fs: "fst r = JsonObject ((fres @ [(f, v)]) @ fs)"
      "\<forall>d\<le>D. json_decode_fields d (fres @ [(f, v)]) (skip_ws (tl s4)) = limited d (fields_depth fs) r" by blast
    then show ?thesis
      using el c s4 v'
      by (intro exI [of _ "(f, v) # fs"]) (auto simp: eq Let_def s2_def s4_def limited_def)
  qed
qed

text \<open>C40: The decoder rejects a text nested deeper than its limit instead of recursing on. A text
  that it decodes under some limit, it decodes in the same way under a smaller one exactly when
  the value is nested no deeper than that, in arrays and objects in any mix; otherwise the result
  is the error for too big a depth. So a decoded value never exceeds the limit.\<close>

theorem json_decode_depth_limit:
  assumes "do_json_decode D s = Inr (v, t)"
  shows "int (json_depth v) \<le> D \<and> (\<forall>d \<le> D. do_json_decode d s =
    (if int (json_depth v) \<le> d then Inr (v, t) else error_result ''Too big object depth''))"
  using decode_limited(1) [OF assms order_refl] decode_limited(1) [OF assms] assms
  by (auto simp: limited_def split: if_splits)

theorem json_decode_depth_limit_witness:
  "do_json_decode 1 ''{\"a\":[1,[]],\"b\":[{}]}'' = error_result ''Too big object depth''"
proof -
  have "do_json_decode 2 ''{\"a\":[1,[]],\"b\":[{}]}'' =
    Inr (JsonObject [(''a'', JsonArray [JsonNumber ''1'', JsonArray []]), (''b'', JsonArray [JsonObject []])], [])"
    by code_simp
  then show ?thesis using json_decode_depth_limit by fastforce
qed

text \<open>Texts that are not even closed are given up where the limit is passed.\<close>

fun open_text :: "string option list \<Rightarrow> string" where
  "open_text [] = []"
| "open_text (None # os) = CHR ''['' # open_text os"
| "open_text (Some f # os) = CHR ''{'' # quote # f @ quote # CHR '':'' # open_text os"

lemma json_string_decode_plain:
  "quote \<notin> set f \<Longrightarrow> backslash \<notin> set f \<Longrightarrow> json_string_decode (quote # f @ quote # t) = Inr (f, t)"
proof -
  have "quote \<notin> set f \<Longrightarrow> backslash \<notin> set f \<Longrightarrow> json_string_body (f @ quote # t) = Inr (f, t)"
    by (induction f) (auto simp: json_string_body.simps(2))
  then show "quote \<notin> set f \<Longrightarrow> backslash \<notin> set f \<Longrightarrow> json_string_decode (quote # f @ quote # t) = Inr (f, t)"
    by (simp add: json_string_decode_def)
qed

lemma open_array:
  assumes "0 \<le> d" "skip_ws x \<noteq> []" "hd (skip_ws x) \<noteq> CHR '']''" "do_json_decode (d - 1) (skip_ws x) = Inl e"
  shows "do_json_decode d (CHR ''['' # x) = Inl e"
  using assms by (simp add: do_json_decode.simps [of d] json_decode_values.simps [of d] not_ws quote_def Let_def)

lemma open_object:
  assumes "0 \<le> d" "quote \<notin> set f" "backslash \<notin> set f" "do_json_decode (d - 1) x = Inl e"
  shows "do_json_decode d (CHR ''{'' # quote # f @ quote # CHR '':'' # x) = Inl e"
proof -
  have "CHR ''{'' \<notin> set whitespaces" "quote \<notin> set whitespaces" "CHR '':'' \<notin> set whitespaces"
    by (simp_all add: not_ws quote_def)
  with assms json_string_decode_plain [OF assms(2,3), of "CHR '':'' # x"] show ?thesis
    by (simp add: do_json_decode.simps [of d] json_decode_fields.simps [of d] quote_def Let_def)
qed

lemma json_decode_too_deep:
  assumes "skip_ws s \<noteq> []" "hd (skip_ws s) \<noteq> CHR '']''"
  shows "length os = Suc n \<Longrightarrow> \<forall>f. Some f \<in> set os \<longrightarrow> quote \<notin> set f \<and> backslash \<notin> set f \<Longrightarrow>
    do_json_decode (int n) (open_text os @ s) = error_result ''Too big object depth''"
proof (induction os arbitrary: n)
  case (Cons x os)
  have deep: "do_json_decode (int n - 1) (open_text os @ s) = error_result ''Too big object depth'' \<and>
     do_json_decode (int n - 1) (skip_ws (open_text os @ s)) = error_result ''Too big object depth'' \<and>
     skip_ws (open_text os @ s) \<noteq> [] \<and> hd (skip_ws (open_text os @ s)) \<noteq> CHR '']''"
  proof (cases n)
    case 0
    then show ?thesis using Cons.prems(1) assms by (simp add: do_json_decode.simps [of "- 1"])
  next
    case (Suc m)
    then obtain y os' where os: "os = y # os'" using Cons.prems(1) by (cases os) simp_all
    have "skip_ws (open_text os @ s) = open_text os @ s" "open_text os @ s \<noteq> []" "hd (open_text os @ s) \<noteq> CHR '']''"
      by (cases y; simp add: os not_ws)+
    moreover have "do_json_decode (int m) (open_text os @ s) = error_result ''Too big object depth''"
      by (rule Cons.IH) (use Cons.prems Suc in auto)
    ultimately show ?thesis by (simp add: Suc)
  qed
  show ?case
  proof (cases x)
    case None
    then show ?thesis using open_array [of "int n" "open_text os @ s"] deep by simp
  next
    case (Some f)
    then show ?thesis using open_object [of "int n" f "open_text os @ s"] deep Cons.prems(2) by simp
  qed
qed simp

subsection \<open>Objects\<close>

text \<open>The operations of \<^verbatim>\<open>JsonObject\<close>. Extracting a field moves its value out and
  leaves a null value behind; of several fields with one name only the first is seen.\<close>

fun get_field :: "string \<Rightarrow> (string \<times> json) list \<Rightarrow> json option" where
  "get_field name [] = None"
| "get_field name ((f, v) # fs) = (if f = name then Some v else get_field name fs)"

definition has_field :: "string \<Rightarrow> (string \<times> json) list \<Rightarrow> bool" where
  "has_field name fs \<longleftrightarrow> get_field name fs \<noteq> None"

fun extract_field :: "string \<Rightarrow> (string \<times> json) list \<Rightarrow> json \<times> (string \<times> json) list" where
  "extract_field name [] = (JsonNull, [])"
| "extract_field name ((f, v) # fs) =
     (if f = name then (v, (f, JsonNull) # fs)
      else let (r, fs') = extract_field name fs in (r, (f, v) # fs'))"

definition wrong_type :: "string \<Rightarrow> string \<Rightarrow> status_error" where
  "wrong_type name expected = Error_code 400 (''Field '' @ [quote] @ name @ [quote] @ '' must be '' @ expected)"

definition no_field :: "string \<Rightarrow> status_error" where
  "no_field name = Error_code 400 (''Can'' @ [chr 39] @ ''t find field '' @ [quote] @ name @ [quote])"

fun extract_optional_field :: "string \<Rightarrow> json_type \<Rightarrow> (string \<times> json) list \<Rightarrow> json result \<times> (string \<times> json) list" where
  "extract_optional_field name t [] = (Inr JsonNull, [])"
| "extract_optional_field name t ((f, v) # fs) =
     (if f = name
      then (if t \<noteq> Null \<and> json_type_of v \<noteq> t then (Inl (wrong_type name (''of type '' @ get_type_name t)), (f, v) # fs)
            else (Inr v, (f, JsonNull) # fs))
      else let (r, fs') = extract_optional_field name t fs in (r, (f, v) # fs'))"

fun extract_required_field :: "string \<Rightarrow> json_type \<Rightarrow> (string \<times> json) list \<Rightarrow> json result \<times> (string \<times> json) list" where
  "extract_required_field name t [] = (Inl (no_field name), [])"
| "extract_required_field name t ((f, v) # fs) =
     (if f = name
      then (if t \<noteq> Null \<and> json_type_of v \<noteq> t then (Inl (wrong_type name (''of type '' @ get_type_name t)), (f, v) # fs)
            else (Inr v, (f, JsonNull) # fs))
      else let (r, fs') = extract_required_field name t fs in (r, (f, v) # fs'))"

definition bool_field :: "string \<Rightarrow> json \<Rightarrow> bool result" where
  "bool_field name v = (case v of JsonBoolean b \<Rightarrow> Inr b | _ \<Rightarrow> Inl (wrong_type name ''of type Boolean''))"

definition get_optional_bool_field :: "string \<Rightarrow> bool \<Rightarrow> (string \<times> json) list \<Rightarrow> bool result" where
  "get_optional_bool_field name default_value fs = (case get_field name fs of Some v \<Rightarrow> bool_field name v | None \<Rightarrow> Inr default_value)"

definition get_required_bool_field :: "string \<Rightarrow> (string \<times> json) list \<Rightarrow> bool result" where
  "get_required_bool_field name fs = (case get_field name fs of Some v \<Rightarrow> bool_field name v | None \<Rightarrow> Inl (no_field name))"

definition get_integer_field :: "nat \<Rightarrow> string \<Rightarrow> string \<Rightarrow> int result" where
  "get_integer_field w name val =
     (case to_integer_safe_signed w val of Inr r \<Rightarrow> Inr r | Inl _ \<Rightarrow> Inl (wrong_type name ''a valid Number''))"

definition integer_field :: "nat \<Rightarrow> string \<Rightarrow> json \<Rightarrow> int result" where
  "integer_field w name v =
     (case v of JsonStr s \<Rightarrow> get_integer_field w name s
      | JsonNumber n \<Rightarrow> get_integer_field w name n
      | _ \<Rightarrow> Inl (wrong_type name ''a Number''))"

definition get_optional_int_field :: "string \<Rightarrow> int \<Rightarrow> (string \<times> json) list \<Rightarrow> int result" where
  "get_optional_int_field name default_value fs = (case get_field name fs of Some v \<Rightarrow> integer_field 32 name v | None \<Rightarrow> Inr default_value)"

definition get_required_int_field :: "string \<Rightarrow> (string \<times> json) list \<Rightarrow> int result" where
  "get_required_int_field name fs = (case get_field name fs of Some v \<Rightarrow> integer_field 32 name v | None \<Rightarrow> Inl (no_field name))"

definition get_optional_long_field :: "string \<Rightarrow> int \<Rightarrow> (string \<times> json) list \<Rightarrow> int result" where
  "get_optional_long_field name default_value fs = (case get_field name fs of Some v \<Rightarrow> integer_field 64 name v | None \<Rightarrow> Inr default_value)"

definition get_required_long_field :: "string \<Rightarrow> (string \<times> json) list \<Rightarrow> int result" where
  "get_required_long_field name fs = (case get_field name fs of Some v \<Rightarrow> integer_field 64 name v | None \<Rightarrow> Inl (no_field name))"

definition string_field :: "string \<Rightarrow> json \<Rightarrow> string result" where
  "string_field name v =
     (case v of JsonStr s \<Rightarrow> Inr s | JsonNumber n \<Rightarrow> Inr n | _ \<Rightarrow> Inl (wrong_type name ''of type String''))"

definition get_optional_string_field :: "string \<Rightarrow> string \<Rightarrow> (string \<times> json) list \<Rightarrow> string result" where
  "get_optional_string_field name default_value fs = (case get_field name fs of Some v \<Rightarrow> string_field name v | None \<Rightarrow> Inr default_value)"

definition get_required_string_field :: "string \<Rightarrow> (string \<times> json) list \<Rightarrow> string result" where
  "get_required_string_field name fs = (case get_field name fs of Some v \<Rightarrow> string_field name v | None \<Rightarrow> Inl (no_field name))"

text \<open>Every error of the accessors carries the code 400.\<close>

lemma error_code_400 [simp]: "error_code (wrong_type name x) = 400" "error_code (no_field name) = 400"
  by (simp_all add: wrong_type_def no_field_def Error_code_def make_error_def to_info_def)

lemma integer_field_iff:
  assumes "2 \<le> w"
  shows "integer_field w name v = Inr r \<longleftrightarrow>
    (v = JsonStr (decimal_int r) \<or> v = JsonNumber (decimal_int r)) \<and> - (2 ^ (w - 1)) \<le> r \<and> r < 2 ^ (w - 1)"
proof -
  have i: "get_integer_field w name s = Inr r \<longleftrightarrow> s = decimal_int r \<and> - (2 ^ (w - 1)) \<le> r \<and> r < 2 ^ (w - 1)" for s
    unfolding to_integer_safe_Inr_iff [OF assms, THEN conjunct1, symmetric] get_integer_field_def
    by (simp split: sum.split)
  show ?thesis by (cases v) (simp_all add: integer_field_def i)
qed

lemma integer_field_error: "integer_field w name v = Inl e \<Longrightarrow> error_code e = 400"
  by (cases v) (auto simp: integer_field_def get_integer_field_def split: sum.splits)

text \<open>A required 32-bit field has a value exactly when the first field of that name is a string or a
  number that spells it canonically and it fits; everything else is an error with code 400. An optional
  field behaves the same way when the field is there, malformed or not, and has the default only when it is
  missing.\<close>

theorem get_int_field_exact:
  "(get_required_int_field name fs = Inr r \<longleftrightarrow>
     get_field name fs \<in> {Some (JsonStr (decimal_int r)), Some (JsonNumber (decimal_int r))} \<and>
     - (2 ^ 31) \<le> r \<and> r < 2 ^ 31) \<and>
   (get_required_int_field name fs = Inl e \<longrightarrow> error_code e = 400) \<and>
   get_optional_int_field name d fs = (if has_field name fs then get_required_int_field name fs else Inr d)"
proof (intro conjI impI)
  show "get_required_int_field name fs = Inr r \<longleftrightarrow>
     get_field name fs \<in> {Some (JsonStr (decimal_int r)), Some (JsonNumber (decimal_int r))} \<and>
     - (2 ^ 31) \<le> r \<and> r < 2 ^ 31"
  proof (cases "get_field name fs")
    case (Some v)
    have w: "(32::nat) - 1 = 31" "2 \<le> (32::nat)" by simp_all
    show ?thesis
      unfolding get_required_int_field_def Some option.case integer_field_iff [OF w(2)] w(1) by blast
  qed (simp add: get_required_int_field_def)
  show "get_required_int_field name fs = Inl e \<Longrightarrow> error_code e = 400"
    by (auto simp: get_required_int_field_def dest: integer_field_error split: option.splits)
  show "get_optional_int_field name d fs = (if has_field name fs then get_required_int_field name fs else Inr d)"
    by (auto simp: get_optional_int_field_def get_required_int_field_def has_field_def split: option.splits)
qed

theorem get_int_field_exact_witness: "error_code (wrong_type ''a'' ''a Number'') = 400"
proof -
  have "get_required_int_field ''a'' [(''a'', JsonNull)] = Inl (wrong_type ''a'' ''a Number'')"
    by (simp add: get_required_int_field_def integer_field_def)
  then show ?thesis using get_int_field_exact by blast
qed

text \<open>An escaped surrogate that stands alone is encoded like any other code, which is no UTF-8.\<close>

lemma json_unpaired_surrogate:
  "json_string_decode (quote # json_one_char 0xD800 @ [quote]) = Inr (append_utf8_character [] 0xD800, []) \<and>
   check_utf8 (append_utf8_character [] 0xD800) = Some False"
proof
  have l: "length (json_one_char n) = 6" for n by (simp add: json_one_char_def)
  have "json_unicode (drop 2 (json_one_char 0xD800) @ [quote]) = Inr (0xD800, [quote])"
    using hex4_one_char [of "0xD800" "[quote]"] by (simp add: json_unicode_def l Let_def)
  from json_body_unicode [OF this]
  show "json_string_decode (quote # json_one_char 0xD800 @ [quote]) = Inr (append_utf8_character [] 0xD800, [])"
    by (simp add: json_string_decode_def json_string_body.simps(2))
  have "append_utf8_character [] 0xD800 = [chr 237, chr 160, chr 128]"
    using utf8_char_arith(3) [of "0xD800"] by simp
  then show "check_utf8 (append_utf8_character [] 0xD800) = Some False"
    using check_3 [of "chr 237" "chr 160" "chr 128" "0xD800" "[chr 0]"] by (simp add: check_utf8_def valid_code_def)
qed

end
