(* ===== verification/JsonMemory.thy ===== *)
theory JsonMemory
  imports Json
begin

text \<open>
  \<^verbatim>\<open>json_string_decode\<close> of \<^verbatim>\<open>pxcutils/pxc/utils/JsonBuilder.cpp\<close> as it works on
  the memory of the parser: a read position \<^verbatim>\<open>cur_src\<close> and a write position
  \<^verbatim>\<open>cur_dest\<close> move over one buffer, and every read sees what was written before. The theory
  \<open>Json\<close> uses a function of the text alone; the theorem shows that the two agree. \<open>None\<close>
  is a read or a write outside the buffer.
\<close>

subsection \<open>The loop over the buffer\<close>

text \<open>\<^verbatim>\<open>*cur_dest++ = c\<close>, for some characters in turn.\<close>

fun write_chars :: "string \<Rightarrow> nat \<Rightarrow> string \<Rightarrow> string option" where
  "write_chars buf dest [] = Some buf"
| "write_chars buf dest (c # cs) =
     (if dest < length buf then write_chars (buf[dest := c]) (dest + 1) cs else None)"

text \<open>The digits behind \<^verbatim>\<open>\u\<close>: the code, and the read position behind it.\<close>

definition json_unicode_at :: "string \<Rightarrow> nat \<Rightarrow> (nat \<times> nat) result" where
  "json_unicode_at buf src =
     (if length buf < src + 4 then error_result (backslash # ''u has less than 4 symbols'')
      else case hex4 (drop src buf) of
             None \<Rightarrow> error_result (''Invalid '' @ backslash # ''u -- not hex digit'')
           | Some num \<Rightarrow>
               let src = src + 4 in
               if is_surrogate num \<and> src + 6 \<le> length buf \<and> buf ! src = backslash \<and> buf ! (src + 1) = CHR ''u''
               then (case hex4 (drop (src + 2) buf) of
                       None \<Rightarrow> error_result (''Invalid '' @ backslash # ''u -- not hex digit'')
                     | Some new_num \<Rightarrow>
                         if is_surrogate new_num
                         then Inr ((push_bit 10 (num AND 0x3FF) OR (new_num AND 0x3FF)) + 0x10000, src + 6)
                         else Inr (num, src))
               else Inr (num, src))"

text \<open>Behind a backslash: the characters to write, and the read position behind the escape.\<close>

definition json_unescape_at :: "string \<Rightarrow> nat \<Rightarrow> (string \<times> nat) result" where
  "json_unescape_at buf src =
     (if src = length buf then error_result ''Closing '\"' not found''
      else let c = buf ! src in
        if c = CHR ''b'' then Inr ([chr 8], src + 1)
        else if c = CHR ''f'' then Inr ([chr 12], src + 1)
        else if c = CHR ''n'' then Inr ([chr 10], src + 1)
        else if c = CHR ''r'' then Inr ([chr 13], src + 1)
        else if c = CHR ''t'' then Inr ([chr 9], src + 1)
        else if c = CHR ''u''
        then (case json_unicode_at buf (src + 1) of
                Inl e \<Rightarrow> Inl e | Inr (num, src) \<Rightarrow> Inr (append_utf8_character [] num, src))
        else Inr ([c], src + 1))"

lemma json_unicode_at_bounds: "json_unicode_at buf src = Inr (num, src') \<Longrightarrow> src < src' \<and> src' \<le> length buf"
  by (auto simp: json_unicode_at_def Let_def split: option.splits if_splits)

lemma json_unescape_at_bounds:
  "json_unescape_at buf src = Inr (x, src') \<Longrightarrow> src \<le> length buf \<Longrightarrow> src < src' \<and> src' \<le> length buf"
  by (auto simp: json_unescape_at_def Let_def dest!: json_unicode_at_bounds split: if_splits sum.splits prod.splits)

lemma write_chars_length: "write_chars buf dest cs = Some buf' \<Longrightarrow> length buf' = length buf"
  by (induction buf dest cs arbitrary: buf' rule: write_chars.induct) (auto split: if_splits)

text \<open>The result is the error or the end of the decoded string, with the read position and the buffer.\<close>

function json_decode_loop :: "string \<Rightarrow> nat \<Rightarrow> nat \<Rightarrow> (nat result \<times> nat \<times> string) option" where
  "json_decode_loop buf src dest =
     (if length buf < src then None
      else if src = length buf then Some (error_result ''Closing '\"' not found'', src, buf)
      else if buf ! src = quote then Some (Inr dest, src + 1, buf)
      else if buf ! src = backslash
      then (case json_unescape_at buf (src + 1) of
              Inl e \<Rightarrow> Some (Inl e, src + 1, buf)
            | Inr (x, src') \<Rightarrow>
                (case write_chars buf dest x of None \<Rightarrow> None
                 | Some buf' \<Rightarrow> json_decode_loop buf' src' (dest + length x)))
      else (case write_chars buf dest [buf ! src] of None \<Rightarrow> None
            | Some buf' \<Rightarrow> json_decode_loop buf' (src + 1) (dest + 1)))"
  by pat_completeness auto
termination
  by (relation "measure (\<lambda>(buf, src, dest). length buf - src)")
    (auto dest!: write_chars_length json_unescape_at_bounds simp del: write_chars.simps)

declare json_decode_loop.simps [simp del]

text \<open>With the parser at \<open>pos\<close>: the decoded string is what stands between \<open>pos + 1\<close> and
  the position that is returned; the parser then stands at the read position.\<close>

definition json_string_decode_at :: "string \<Rightarrow> nat \<Rightarrow> (nat result \<times> nat \<times> string) option" where
  "json_string_decode_at buf pos =
     (if pos < length buf \<and> buf ! pos = quote then json_decode_loop buf (pos + 1) (pos + 1)
      else Some (error_result ''Opening '\"' expected'', pos, buf))"

subsection \<open>The buffer and the text\<close>

lemma write_chars_eq:
  "dest + length cs \<le> length buf \<Longrightarrow>
   write_chars buf dest cs = Some (take dest buf @ cs @ drop (dest + length cs) buf)"
proof (induction buf dest cs rule: write_chars.induct)
  case (2 buf dest c cs)
  have "take (dest + 1) (buf[dest := c]) = take dest buf @ [c]"
    using 2(2) by (simp add: take_Suc_conv_app_nth)
  with 2 show ?case by simp
qed simp

lemma json_unicode_at_eq:
  assumes "src \<le> length buf"
  shows "json_unicode_at buf src =
    (case json_unicode (drop src buf) of Inl e \<Rightarrow> Inl e | Inr (num, t) \<Rightarrow> Inr (num, length buf - length t))"
  using assms
  by (auto simp: json_unicode_at_def json_unicode_def Let_def add.commute add.left_commute less_diff_conv
    split: option.split)

lemma json_unescape_at_eq:
  assumes "src \<le> length buf"
  shows "json_unescape_at buf src =
    (case json_unescape (drop src buf) of Inl e \<Rightarrow> Inl e | Inr (x, t) \<Rightarrow> Inr (x, length buf - length t))"
proof (cases "src = length buf")
  case False
  with assms have l: "src < length buf" by simp
  have "drop src buf = buf ! src # drop (src + 1) buf"
    using l by (simp add: Cons_nth_drop_Suc)
  with l show ?thesis
    using json_unicode_at_eq [of "src + 1" buf]
    by (simp add: json_unescape_at_def json_unescape_def Let_def split: sum.splits prod.splits)
qed (simp add: json_unescape_at_def json_unescape_def)

lemma json_unescape_suffix: "json_unescape s = Inr (x, t) \<Longrightarrow> t = drop (length s - length t) s"
proof (cases s)
  case (Cons c s1)
  have u: "json_unicode s1 = Inr (n, t) \<Longrightarrow> t = drop (length s1 - length t) s1" for n
    by (auto simp: json_unicode_def Let_def split: option.splits if_splits)
  show "json_unescape s = Inr (x, t) \<Longrightarrow> ?thesis"
    using u json_unicode_shorter [of s1 _ t]
    by (auto simp: Cons json_unescape_def Suc_diff_le dest!: split: if_splits sum.splits prod.splits)
qed (simp add: json_unescape_def)

lemma drop_keeps:
  fixes buf :: string
  assumes "drop k buf' = drop k buf" "k \<le> j"
  shows "drop j buf' = drop j buf"
proof -
  have "drop j xs = drop (j - k) (drop k xs)" for xs :: string using assms(2) by simp
  from this [of buf'] this [of buf] show ?thesis by (simp only: assms(1))
qed

text \<open>One turn of the loop writes behind what was decoded and before what is still to be read.\<close>

lemma write_chars_between:
  assumes "dest + length x \<le> src" "src \<le> length buf"
  obtains buf' where "write_chars buf dest x = Some buf'" "length buf' = length buf" "drop src buf' = drop src buf"
    "take (dest + length x) buf' = take dest buf @ x"
proof
  let ?buf = "take dest buf @ x @ drop (dest + length x) buf"
  have l: "dest + length x \<le> length buf" using assms by simp
  show "write_chars buf dest x = Some ?buf" by (rule write_chars_eq [OF l])
  show "length ?buf = length buf" using l by simp
  show "take (dest + length x) ?buf = take dest buf @ x" using l by simp
  have "drop (dest + length x) ?buf = drop (dest + length x) buf" using l by simp
  then show "drop src ?buf = drop src buf" by (rule drop_keeps [OF _ assms(1)])
qed

definition decodes_as :: "string \<Rightarrow> nat \<Rightarrow> (string \<times> string) result \<Rightarrow> nat result \<times> nat \<times> string \<Rightarrow> bool" where
  "decodes_as buf dest pure r \<longleftrightarrow> (case r of (res, src', buf') \<Rightarrow>
     length buf' = length buf \<and> src' \<le> length buf \<and> take dest buf' = take dest buf \<and> drop src' buf' = drop src' buf \<and>
     (case pure of
        Inl e \<Rightarrow> res = Inl e
      | Inr (x, t) \<Rightarrow> res = Inr (dest + length x) \<and> dest + length x < src' \<and>
          take (dest + length x) buf' = take dest buf @ x \<and> drop src' buf = t))"

lemma decodes_as_prefix:
  assumes "decodes_as buf1 (dest + length x) pure r" "dest + length x \<le> src"
    and buf1: "length buf1 = length buf" "drop src buf1 = drop src buf" "take (dest + length x) buf1 = take dest buf @ x"
    and "src \<le> fst (snd r)"
  shows "decodes_as buf dest (case pure of Inl e \<Rightarrow> Inl e | Inr (y, t) \<Rightarrow> Inr (x @ y, t)) r"
proof -
  obtain res src' buf' where r: "r = (res, src', buf')" by (cases r) auto
  have d: "drop src' buf1 = drop src' buf" by (rule drop_keeps [OF buf1(2)]) (use assms(6) r in simp)
  have "take dest buf' = take dest (take (dest + length x) buf')" by simp
  also have "\<dots> = take dest (take dest buf @ x)" using assms(1) buf1(3) by (simp add: decodes_as_def r)
  also have "\<dots> = take dest buf"
  proof (cases "dest \<le> length buf")
    case False
    then have "length (take (dest + length x) buf1) = length buf" by (simp add: buf1(1))
    with False buf1(3) have "x = []" by simp
    then show ?thesis by simp
  qed simp
  finally have "take dest buf' = take dest buf" .
  with assms(1) d buf1 show ?thesis
    by (auto simp: decodes_as_def r add.assoc split: sum.splits)
qed

lemma json_decode_loop_correct:
  assumes "dest \<le> src" "src \<le> length buf"
  shows "\<exists>r. json_decode_loop buf src dest = Some r \<and> src \<le> fst (snd r) \<and>
    decodes_as buf dest (json_string_body (drop src buf)) r"
  using assms
proof (induction buf src dest rule: json_decode_loop.induct)
  case (1 buf src dest)
  show ?case
  proof (cases "src = length buf")
    case True
    then show ?thesis by (simp add: json_decode_loop.simps [of buf] decodes_as_def)
  next
    case False
    with 1(4) have l: "src < length buf" by simp
    have hd: "drop src buf = buf ! src # drop (src + 1) buf"
      using l by (simp add: Cons_nth_drop_Suc)
    note loop = json_decode_loop.simps [of buf src dest]
    consider (quote) "buf ! src = quote" | (escape) "buf ! src \<noteq> quote" "buf ! src = backslash"
      | (plain) "buf ! src \<noteq> quote" "buf ! src \<noteq> backslash" by blast
    then show ?thesis
    proof cases
      case quote
      with l 1(3) show ?thesis by (simp add: loop hd decodes_as_def json_string_body.simps(2))
    next
      case escape
      have at: "src + 1 \<le> length buf" using l by simp
      show ?thesis
      proof (cases "json_unescape (drop (src + 1) buf)")
        case (Inl e)
        with json_unescape_at_eq [OF at] escape l show ?thesis
          by (simp add: loop hd decodes_as_def json_string_body.simps(2))
      next
        case (Inr p)
        obtain x t where p: "json_unescape (drop (src + 1) buf) = Inr (x, t)" using Inr by (cases p) auto
        let ?src = "length buf - length t"
        have un: "json_unescape_at buf (src + 1) = Inr (x, ?src)" using json_unescape_at_eq [OF at] p by simp
        have "t = drop (src + 1 + (length buf - (src + 1) - length t)) buf"
          using json_unescape_suffix [OF p] by (simp add: ac_simps)
        moreover have "src + 1 + (length buf - (src + 1) - length t) = ?src"
          using json_unescape_shorter [OF p] at by simp
        ultimately have t: "t = drop ?src buf" by (simp only:)
        have len: "length x + length t \<le> length (drop (src + 1) buf) + 1"
          using json_unescape_length [OF p] by simp
        have le: "dest + length x \<le> ?src" "?src \<le> length buf" "src \<le> ?src"
          using len 1(3) json_unescape_at_bounds [OF un at] by auto
        obtain buf1 where b: "write_chars buf dest x = Some buf1" "length buf1 = length buf" "drop ?src buf1 = drop ?src buf"
          "take (dest + length x) buf1 = take dest buf @ x"
          using write_chars_between [OF le(1,2)] by blast
        from 1(1) [OF _ False escape un refl b(1)] l le b(2) obtain r where
          r: "json_decode_loop buf1 ?src (dest + length x) = Some r" "?src \<le> fst (snd r)"
          "decodes_as buf1 (dest + length x) (json_string_body (drop ?src buf1)) r" by auto
        from decodes_as_prefix [OF r(3) le(1) b(2-4) r(2)] r(1,2) le(3) escape l un b(1) p t b(3)
        show ?thesis
          by (auto simp: loop hd json_string_body.simps(2) simp del: write_chars.simps split: sum.splits prod.splits)
      qed
    next
      case plain
      obtain buf1 where b: "write_chars buf dest [buf ! src] = Some buf1" "length buf1 = length buf"
        "drop (src + 1) buf1 = drop (src + 1) buf" "take (dest + length [buf ! src]) buf1 = take dest buf @ [buf ! src]"
        using write_chars_between [of dest "[buf ! src]" "src + 1" buf] 1(3) l by auto
      from 1(2) [OF _ False plain b(1)] l 1(3) b(2) obtain r where
        r: "json_decode_loop buf1 (src + 1) (dest + length [buf ! src]) = Some r" "src + 1 \<le> fst (snd r)"
        "decodes_as buf1 (dest + length [buf ! src]) (json_string_body (drop (src + 1) buf1)) r" by auto
      have "dest + length [buf ! src] \<le> src + 1" using 1(3) by simp
      from decodes_as_prefix [OF r(3) this b(2-4) r(2)] r(1,2) plain l b(1,3)
      show ?thesis by (auto simp: loop hd json_string_body.simps(2) simp del: write_chars.simps split: sum.splits prod.splits)
    qed
  qed
qed

text \<open>C39: Unescaping a JSON string in place is safe, for every buffer and position. No read or write
  leaves the buffer; the outcome is that of decoding an untouched copy of the text, with the decoded
  string between the opening quote and the write position, which has not reached the read position; what
  stands before the string and what is still to be read keep their bytes, also where the text is
  malformed and decoding fails.\<close>

theorem json_string_decode_in_place:
  assumes "pos \<le> length buf"
  shows "\<exists>res src buf'. json_string_decode_at buf pos = Some (res, src, buf') \<and> pos \<le> src \<and> src \<le> length buf \<and>
    length buf' = length buf \<and> take pos buf' = take pos buf \<and> drop src buf' = drop src buf \<and>
    (case json_string_decode (drop pos buf) of
       Inl e \<Rightarrow> res = Inl e
     | Inr (x, t) \<Rightarrow> res = Inr (pos + 1 + length x) \<and> pos + 1 + length x < src \<and>
         take (length x) (drop (pos + 1) buf') = x \<and> t = drop src buf)"
proof (cases "pos < length buf \<and> buf ! pos = quote")
  case False
  then have "json_string_decode (drop pos buf) = error_result ''Opening '\"' expected''"
    by (auto simp: json_string_decode_def hd_drop_conv_nth)
  moreover have "json_string_decode_at buf pos = Some (error_result ''Opening '\"' expected'', pos, buf)"
    unfolding json_string_decode_at_def by (rule if_not_P [OF False])
  ultimately show ?thesis using assms by simp
next
  case True
  then have l: "pos + 1 \<le> length buf" by simp
  have hd: "drop pos buf = quote # drop (pos + 1) buf"
    using True Cons_nth_drop_Suc [of pos buf] by simp
  from json_decode_loop_correct [OF order_refl l] obtain res src buf' where
    r: "json_string_decode_at buf pos = Some (res, src, buf')" "pos + 1 \<le> src"
    "decodes_as buf (pos + 1) (json_string_body (drop (pos + 1) buf)) (res, src, buf')"
    using True by (auto simp: json_string_decode_at_def)
  have "take pos buf' = take pos buf"
  proof -
    have "take pos (take (pos + 1) buf') = take pos (take (pos + 1) buf)" using r(3) by (simp add: decodes_as_def)
    then show ?thesis by simp
  qed
  moreover have "take (length x) (drop (pos + 1) buf') = x" if "take (pos + 1 + length x) buf' = take (pos + 1) buf @ x" for x
  proof -
    have "take (length x) (drop (pos + 1) buf') = drop (pos + 1) (take (pos + 1 + length x) buf')"
      by (simp add: drop_take)
    with that l show ?thesis by simp
  qed
  ultimately show ?thesis
    using r by (auto simp: decodes_as_def json_string_decode_def hd split: sum.splits)
qed

text \<open>An escaped newline: the string shrinks, the text behind it stays where it is.\<close>

theorem json_string_decode_in_place_witness:
  "\<exists>buf'. json_string_decode_at (CHR ''['' # quote # backslash # ''nb'' @ quote # '',1]'') 1 = Some (Inr 4, 6, buf') \<and>
    take 2 (drop 2 buf') = [chr 10, CHR ''b''] \<and> drop 6 buf' = '',1]''"
proof -
  define buf where "buf = CHR ''['' # quote # backslash # ''nb'' @ quote # '',1]''"
  have pos: "1 \<le> length buf" and len: "length buf = 9" by (simp_all add: buf_def)
  have dec: "json_string_decode (drop 1 buf) = Inr ([chr 10, CHR ''b''], '',1]'')"
    unfolding buf_def by code_simp
  note inst = json_string_decode_in_place [OF pos, unfolded dec sum.case prod.case]
  obtain res src buf' where r: "json_string_decode_at buf 1 = Some (res, src, buf') \<and> 1 \<le> src \<and> src \<le> length buf \<and>
      length buf' = length buf \<and> take 1 buf' = take 1 buf \<and> drop src buf' = drop src buf \<and>
      res = Inr (1 + 1 + length [chr 10, CHR ''b'']) \<and> 1 + 1 + length [chr 10, CHR ''b''] < src \<and>
      take (length [chr 10, CHR ''b'']) (drop (1 + 1) buf') = [chr 10, CHR ''b''] \<and> '',1]'' = drop src buf"
    using inst by (elim exE) (rule that)
  from r have rest: "'',1]'' = drop src buf" "drop src buf' = drop src buf" by blast+
  have "3 = 9 - src" using arg_cong [OF rest(1), of length] by (simp add: len)
  then have src: "src = 6" by arith
  have "json_string_decode_at buf 1 = Some (Inr 4, 6, buf')" using r by (simp add: src)
  moreover have "take 2 (drop 2 buf') = [chr 10, CHR ''b'']" using r by (simp add: numeral_2_eq_2)
  moreover have "drop 6 buf' = '',1]''" using rest by (simp add: src)
  ultimately show ?thesis unfolding buf_def by blast
qed

end
