(* ===== verification/HttpUrl.thy ===== *)
theory HttpUrl
  imports Codecs Parser
begin

text \<open>
  \<^verbatim>\<open>pxcutils/pxc/utils/HttpUrl.h\<close> and \<^verbatim>\<open>HttpUrl.cpp\<close>:
  parsing of HTTP URLs into their parts, the reverse, and the parsing of query strings. The system's
  \<^verbatim>\<open>inet_pton(AF_INET6)\<close> is the parameter \<open>inet_pton\<close>, true for the texts it
  accepts. Where the source reads a character by index after a percent sign, the model has the memory
  behind the part as an argument; a read beyond the memory, a failed \<^verbatim>\<open>CHECK\<close> (those of
  \<^verbatim>\<open>parse_url\<close> and the one of the parser's \<^verbatim>\<open>advance\<close>)
  and a failed \<^verbatim>\<open>LOG_CHECK\<close> are \<open>None\<close>. The printing for the log is left out.
\<close>

datatype protocol = Http | Https

record http_url =
  url_protocol :: protocol
  url_userinfo :: string
  url_host :: string
  url_is_ipv6 :: bool
  url_specified_port :: int
  url_port :: int
  url_query :: string

definition get_url :: "http_url \<Rightarrow> string option" where
  "get_url u =
     (let result = (case url_protocol u of Http \<Rightarrow> ''http://'' | Https \<Rightarrow> ''https://'') @
        (if url_userinfo u \<noteq> [] then url_userinfo u @ ''@'' else []) @ url_host u @
        (if url_specified_port u > 0 then '':'' @ print_int 32 (url_specified_port u) else [])
      in if url_query u \<noteq> [] \<and> hd (url_query u) = CHR ''/'' then Some (result @ url_query u) else None)"

subsection \<open>The parts of the authority\<close>

text \<open>The pointer \<^verbatim>\<open>colon\<close>, as an index, moves from the last character to the front.\<close>

fun colon_loop :: "string \<Rightarrow> nat \<Rightarrow> nat" where
  "colon_loop s 0 = 0"
| "colon_loop s (Suc i) =
     (if s ! Suc i \<noteq> CHR '':'' \<and> s ! Suc i \<noteq> CHR '']'' \<and> s ! Suc i \<noteq> CHR ''@'' then colon_loop s i else Suc i)"

fun strip_zeros :: "string \<Rightarrow> string" where
  "strip_zeros (c # d # s) = (if c = CHR ''0'' then strip_zeros (d # s) else c # d # s)"
| "strip_zeros s = s"

definition parse_port :: "string \<Rightarrow> int" where
  "parse_port port_slice =
     (case to_integer_safe_signed 32 (strip_zeros port_slice) of
        Inl _ \<Rightarrow> - 1
      | Inr r \<Rightarrow> if r = 0 then - 1 else r)"

definition split_port :: "string \<Rightarrow> string \<times> int" where
  "split_port s =
     (let colon = colon_loop s (length s - 1) in
      if colon > 0 \<and> s ! colon = CHR '':'' then (take colon s, parse_port (drop (colon + 1) s)) else (s, 0))"

definition split_userinfo :: "string \<Rightarrow> string \<times> string" where
  "split_userinfo s =
     (case rfind_char CHR ''@'' s of None \<Rightarrow> ([], s) | Some i \<Rightarrow> (take i s, drop (i + 1) s))"

text \<open>\<^verbatim>\<open>IPAddress::init_ipv6_port\<close> on a host in brackets: they are removed when
  something stands between them. Of the address, the model keeps the flag and the family; \<open>None\<close>
  is the error.\<close>

datatype ip_family = AF_UNSPEC | AF_INET | AF_INET6

record url_address =
  ua_valid :: bool
  ua_family :: ip_family

definition init_ipv6 :: "(string \<Rightarrow> bool) \<Rightarrow> string \<Rightarrow> url_address option" where
  "init_ipv6 inet_pton ipv6 =
     (let ipv6 = (if length ipv6 > 2 \<and> hd ipv6 = CHR ''['' \<and> last ipv6 = CHR '']''
                  then butlast (tl ipv6) else ipv6)
      in if inet_pton (c_string ipv6) then Some \<lparr>ua_valid = True, ua_family = AF_INET6\<rparr> else None)"

definition url_address_is_ipv6 :: "url_address \<Rightarrow> bool" where
  "url_address_is_ipv6 ip \<longleftrightarrow> ua_valid ip \<and> ua_family ip = AF_INET6"

subsection \<open>Characters of the parts\<close>

definition is_url_part_char :: "bool \<Rightarrow> char \<Rightarrow> bool" where
  "is_url_part_char allow_colon c \<longleftrightarrow>
     is_alnum c \<or> c \<in> set ''.-_!$,~*();&+='' \<or> uc c = 39 \<or> allow_colon \<and> c = CHR '':''"

text \<open>\<^verbatim>\<open>part[i]\<close>, which checks nothing; \<open>behind\<close> is the memory behind the part.\<close>

definition char_at :: "string \<Rightarrow> nat \<Rightarrow> char option" where
  "char_at mem i = (if i < length mem then Some (mem ! i) else None)"

function check_url_part :: "string \<Rightarrow> string \<Rightarrow> bool \<Rightarrow> string \<Rightarrow> status option" where
  "check_url_part behind name allow_colon [] = Some None"
| "check_url_part behind name allow_colon (c # s) =
     (if is_url_part_char allow_colon c then check_url_part behind name allow_colon s
      else if c = CHR ''%''
      then Option.bind (char_at (s @ behind) 0) (\<lambda>c1.
        if is_hex_digit c1
        then Option.bind (char_at (s @ behind) 1) (\<lambda>c2.
          if is_hex_digit c2 then check_url_part behind name allow_colon (drop 2 s)
          else Some (Some (Error_msg (''Wrong percent-encoded symbol in URL '' @ name))))
        else Some (Some (Error_msg (''Wrong percent-encoded symbol in URL '' @ name))))
      else if uc c \<ge> 128 then check_url_part behind name allow_colon s
      else Some (Some (Error_msg (''Disallowed character in URL '' @ name))))"
  by pat_completeness auto
termination by (relation "measure (\<lambda>(n, m, a, s). length s)") auto

definition is_ipv6_host_char :: "char \<Rightarrow> bool" where
  "is_ipv6_host_char c \<longleftrightarrow>
     c = CHR '':'' \<or> is_digit c \<or> uc CHR ''a'' \<le> uc c \<and> uc c \<le> uc CHR ''f'' \<or> c = CHR ''.''"

definition encode_query :: "string \<Rightarrow> string" where
  "encode_query query0 =
     (let query1 = drop_back_while is_space query0;
          query = (if query1 = [] then ''/'' else query1)
      in (if hd query \<noteq> CHR ''/'' then ''/'' else []) @
         concat (List.map (\<lambda>c. if uc c \<le> 0x20
           then [CHR ''%'', ''0123456789ABCDEF'' ! (uc c div 16), ''0123456789ABCDEF'' ! (uc c mod 16)] else [c]) query))"

definition default_port :: "protocol \<Rightarrow> int option" where
  "default_port p = (if p = Http then Some 80 else if p = Https then Some 443 else None)"

subsection \<open>Parsing\<close>

text \<open>\<^verbatim>\<open>TRY_STATUS\<close> in a function that may fail a check.\<close>

definition try_status_opt :: "status \<Rightarrow> 'a result option \<Rightarrow> 'a result option" where
  "try_status_opt st r = (case st of None \<Rightarrow> r | Some e \<Rightarrow> Some (Inl e))"

text \<open>The protocol and the parser behind it.\<close>

definition parse_protocol :: "string \<Rightarrow> protocol \<Rightarrow> (protocol \<times> parser) result option" where
  "parse_protocol url default_protocol =
     (let (s, p) = read_till_nofail_any '':/?#@[]'' (parser_new url); protocol_str = to_lower s in
      Option.bind (try_skip_prefix ''://'' p) (\<lambda>(skipped, p).
        if skipped
        then (if protocol_str = ''http'' then Some (Inr (Http, p))
              else if protocol_str = ''https'' then Some (Inr (Https, p))
              else Some (error_result ''Unsupported URL protocol''))
        else Some (Inr (default_protocol, parser_new url))))"

text \<open>What stands between the protocol and the query; the user information is followed in memory
  by the at sign and the rest of the URL, the lower-cased host by its terminator.\<close>

definition parse_authority :: "(string \<Rightarrow> bool) \<Rightarrow> protocol \<Rightarrow> string \<Rightarrow> string \<Rightarrow> http_url result option" where
  "parse_authority inet_pton protocol userinfo_host_port query =
     (let (userinfo_host, port) = split_port userinfo_host_port in
      if port < 0 \<or> port > 65535 then Some (error_result ''Wrong port number specified in the URL'')
      else
        let (userinfo, host) = split_userinfo userinfo_host;
            behind = (if CHR ''@'' \<in> set userinfo_host then drop (length userinfo) (userinfo_host_port @ query)
                      else [chr 0]);
            is_ipv6 = (host \<noteq> [] \<and> hd host = CHR ''['' \<and> last host = CHR '']'')
        in if is_ipv6 \<and> init_ipv6 inet_pton host = None
           then Some (error_result ''Wrong IPv6 address specified in the URL'')
           else if is_ipv6 \<and> \<not> url_address_is_ipv6 (the (init_ipv6 inet_pton host)) then None
           else if host = [] then Some (error_result ''URL host is empty'')
           else if host = ''.'' then Some (error_result ''Host is invalid'')
           else Option.bind (if port = 0 then default_port protocol else Some port) (\<lambda>actual_port.
             let host_str = to_lower host;
                 u = \<lparr>url_protocol = protocol, url_userinfo = userinfo, url_host = host_str, url_is_ipv6 = is_ipv6,
                      url_specified_port = port, url_port = actual_port, url_query = encode_query query\<rparr>
             in if is_ipv6
                then (if list_all is_ipv6_host_char (butlast (tl host_str)) then Some (Inr u)
                      else Some (error_result ''Wrong IPv6 URL host''))
                else Option.bind (check_url_part [chr 0] ''host'' False host_str) (\<lambda>st.
                       try_status_opt st (Option.bind (check_url_part behind ''userinfo'' True userinfo) (\<lambda>st.
                         try_status_opt st (Some (Inr u)))))))"

definition parse_url :: "(string \<Rightarrow> bool) \<Rightarrow> string \<Rightarrow> protocol \<Rightarrow> http_url result option" where
  "parse_url inet_pton url default_protocol =
     Option.bind (parse_protocol url default_protocol) (\<lambda>r.
       case r of
         Inl e \<Rightarrow> Some (Inl e)
       | Inr (protocol, p) \<Rightarrow>
           let (userinfo_host_port, p) = read_till_nofail_any ''/?#'' p;
               (query, _) = read_all p
           in parse_authority inet_pton protocol userinfo_host_port query)"

subsection \<open>Queries and file names\<close>

record http_url_query =
  query_path :: "string list"
  query_args :: "(string \<times> string) list"

function parse_args :: "string \<Rightarrow> (string \<times> string) list" where
  "parse_args s =
     (if s = [] then []
      else let (a, p) = read_till_nofail CHR ''&'' (parser_new s);
               (key0, val) = split_at a CHR ''='';
               key = url_decode key0 True;
               rest = parse_args (p_rest (skip_nofail CHR ''&'' p))
           in if key \<noteq> [] then (key, url_decode val True) # rest else rest)"
  by pat_completeness auto
termination
proof (relation "measure length", goal_cases)
  case (2 s x a p)
  then have "a = takeWhile (\<lambda>x. x \<noteq> CHR ''&'') s" "p_rest p = dropWhile (\<lambda>x. x \<noteq> CHR ''&'') s"
    by (auto simp: read_till_nofail_eq parser_new_def is_error_def)
  then show ?case using 2(1)
    by (cases s) (auto simp: skip_nofail_def less_Suc_eq_le length_dropWhile_le intro: le_trans [OF diff_le_self])
qed simp

declare parse_args.simps [simp del]

definition parse_url_query :: "string \<Rightarrow> http_url_query" where
  "parse_url_query query0 =
     (let query = (if query0 \<noteq> [] \<and> hd query0 = CHR ''/'' then tl query0 else query0);
          path = takeWhile (\<lambda>c. c \<noteq> CHR ''?'' \<and> c \<noteq> CHR ''#'') query;
          rest = dropWhile (\<lambda>c. c \<noteq> CHR ''?'' \<and> c \<noteq> CHR ''#'') query
      in \<lparr>query_path = drop_back_while (\<lambda>x. x = []) (full_split (url_decode path False) CHR ''/'' (2 ^ 64 - 1)),
          query_args = (if rest \<noteq> [] \<and> hd rest = CHR ''?''
                        then parse_args (takeWhile (\<lambda>c. c \<noteq> CHR ''#'') (tl rest)) else [])\<rparr>)"

definition has_arg :: "string \<Rightarrow> http_url_query \<Rightarrow> bool" where
  "has_arg key q \<longleftrightarrow> List.find (\<lambda>s. fst s = key) (query_args q) \<noteq> None"

definition get_arg :: "string \<Rightarrow> http_url_query \<Rightarrow> string" where
  "get_arg key q = (case List.find (\<lambda>s. fst s = key) (query_args q) of None \<Rightarrow> [] | Some s \<Rightarrow> snd s)"

definition get_url_host :: "(string \<Rightarrow> bool) \<Rightarrow> string \<Rightarrow> string option" where
  "get_url_host inet_pton url =
     map_option (\<lambda>r. case r of Inl _ \<Rightarrow> [] | Inr u \<Rightarrow> url_host u) (parse_url inet_pton url Http)"

definition get_url_query_file_name :: "string \<Rightarrow> string" where
  "get_url_query_file_name query =
     (let query_slice = takeWhile (\<lambda>c. c \<notin> set ''?#'') query in
      case rfind_char CHR ''/'' query_slice of
        Some slash_pos \<Rightarrow> drop (slash_pos + 1) query_slice
      | None \<Rightarrow> query_slice)"

definition get_url_file_name :: "(string \<Rightarrow> bool) \<Rightarrow> string \<Rightarrow> string option" where
  "get_url_file_name inet_pton url =
     map_option (\<lambda>r. case r of Inl _ \<Rightarrow> [] | Inr u \<Rightarrow> get_url_query_file_name (url_query u))
       (parse_url inet_pton url Http)"

subsection \<open>Facts about the parts\<close>

lemma to_lower_simps [simp]: "to_lower [] = []" "to_lower (c # s) = to_lower_char c # to_lower s"
  "to_lower (s @ t) = to_lower s @ to_lower t" "length (to_lower s) = length s" "to_lower s = [] \<longleftrightarrow> s = []"
  by (simp_all add: to_lower_def)

lemma to_lower_char_idem [simp]: "to_lower_char (to_lower_char c) = to_lower_char c"
  by (auto simp: to_lower_char_def)

lemma to_lower_idem [simp]: "to_lower (to_lower s) = to_lower s"
  by (simp add: to_lower_def)

text \<open>A character that is no letter is only lower-cased from itself.\<close>

lemma to_lower_char_eq: "\<not> (97 \<le> uc d \<and> uc d \<le> 122) \<Longrightarrow> to_lower_char c = d \<longleftrightarrow> c = d \<and> \<not> (65 \<le> uc d \<and> uc d \<le> 90)"
  by (auto simp: to_lower_char_def chr_eq_char_iff split: if_splits)

lemma to_lower_mem: "\<not> (65 \<le> uc d \<and> uc d \<le> 122) \<Longrightarrow> d \<in> set (to_lower s) \<longleftrightarrow> d \<in> set s"
proof (induction s)
  case (Cons c s)
  then show ?case using to_lower_char_eq [of d c] by auto
qed simp

lemma c_string_to_lower: "c_string (to_lower s) = to_lower (c_string s)"
proof (induction s)
  case (Cons c s)
  have "to_lower_char c = chr 0 \<longleftrightarrow> c = chr 0" using to_lower_char_eq [of "chr 0" c] by simp
  then show ?case using Cons by (simp add: c_string_def)
qed (simp add: c_string_def)

lemma to_lower_butlast_tl: "butlast (tl (to_lower s)) = to_lower (butlast (tl s))"
  by (simp add: to_lower_def map_butlast map_tl)

lemma to_lower_hd_last: "s \<noteq> [] \<Longrightarrow> hd (to_lower s) = to_lower_char (hd s)" "s \<noteq> [] \<Longrightarrow> last (to_lower s) = to_lower_char (last s)"
  by (simp_all add: to_lower_def hd_map last_map)

abbreviation in_brackets :: "string \<Rightarrow> bool" where
  "in_brackets h \<equiv> h \<noteq> [] \<and> hd h = CHR ''['' \<and> last h = CHR '']''"

lemma in_brackets_lower: "in_brackets (to_lower h) \<longleftrightarrow> in_brackets h"
  using to_lower_char_eq [of "CHR ''[''" "hd h"] to_lower_char_eq [of "CHR '']''" "last h"]
  by (cases "h = []") (simp_all add: to_lower_hd_last)

lemma default_port_Some: "\<exists>port. default_port p = Some port"
  by (cases p) (simp_all add: default_port_def)

lemma init_ipv6_is_ipv6: "init_ipv6 inet_pton h \<noteq> None \<Longrightarrow> url_address_is_ipv6 (the (init_ipv6 inet_pton h))"
  by (auto simp: init_ipv6_def url_address_is_ipv6_def Let_def)

lemma init_ipv6_lower:
  assumes "\<forall>t. inet_pton t \<longrightarrow> inet_pton (to_lower t)" and "in_brackets h" and "init_ipv6 inet_pton h \<noteq> None"
  shows "init_ipv6 inet_pton (to_lower h) \<noteq> None"
  using assms in_brackets_lower [of h]
  by (simp add: init_ipv6_def Let_def to_lower_butlast_tl c_string_to_lower split: if_splits)

lemma colon_loop_eq:
  "j \<le> i \<Longrightarrow> (\<forall>k. j < k \<longrightarrow> k \<le> i \<longrightarrow> s ! k \<notin> {CHR '':'', CHR '']'', CHR ''@''}) \<Longrightarrow>
   j = 0 \<or> s ! j \<in> {CHR '':'', CHR '']'', CHR ''@''} \<Longrightarrow> colon_loop s i = j"
proof (induction i)
  case (Suc i)
  show ?case
  proof (cases "j = Suc i")
    case False
    then have "s ! Suc i \<notin> {CHR '':'', CHR '']'', CHR ''@''}" "j \<le> i" using Suc.prems by auto
    then show ?thesis using Suc by simp
  qed (use Suc in auto)
qed simp

lemma colon_loop_last:
  assumes "x \<in> {CHR '':'', CHR '']'', CHR ''@''}" and "set t \<inter> {CHR '':'', CHR '']'', CHR ''@''} = {}"
  shows "colon_loop (s @ x # t) (length (s @ x # t) - 1) = length s"
proof (rule colon_loop_eq)
  show "\<forall>k. length s < k \<longrightarrow> k \<le> length (s @ x # t) - 1 \<longrightarrow> (s @ x # t) ! k \<notin> {CHR '':'', CHR '']'', CHR ''@''}"
  proof (intro allI impI)
    fix k assume k: "length s < k" "k \<le> length (s @ x # t) - 1"
    then have "(s @ x # t) ! k = t ! (k - Suc (length s))" "k - Suc (length s) < length t"
      by (simp_all add: nth_append nth_Cons')
    then have "(s @ x # t) ! k \<in> set t" by simp
    then show "(s @ x # t) ! k \<notin> {CHR '':'', CHR '']'', CHR ''@''}" using assms(2) by auto
  qed
qed (use assms(1) in simp_all)

lemma colon_loop_none:
  assumes "set t \<inter> {CHR '':'', CHR '']'', CHR ''@''} = {}"
  shows "colon_loop t (length t - 1) = 0"
proof (rule colon_loop_eq)
  show "\<forall>k. 0 < k \<longrightarrow> k \<le> length t - 1 \<longrightarrow> t ! k \<notin> {CHR '':'', CHR '']'', CHR ''@''}"
  proof (intro allI impI)
    fix k assume k: "0 < k" "k \<le> length t - 1"
    then have "k < length t" by linarith
    then have "t ! k \<in> set t" by simp
    then show "t ! k \<notin> {CHR '':'', CHR '']'', CHR ''@''}" using assms by auto
  qed
qed simp_all

lemma strip_zeros_decimal:
  assumes "0 < n"
  shows "strip_zeros (decimal n) = decimal n"
proof -
  have "hd (decimal n) \<noteq> CHR ''0''" using assms
  proof (induction n rule: decimal.induct)
    case (1 n)
    show ?case
    proof (cases "n < 10")
      case True
      then show ?thesis using 1 by (subst decimal.simps) (simp add: chr_eq_char_iff)
    next
      case False
      then have "hd (decimal (n div 10)) \<noteq> CHR ''0''" using 1 by (simp add: div_greater_zero_iff)
      then show ?thesis using False by (subst decimal.simps) simp
    qed
  qed
  then show ?thesis by (cases "decimal n" rule: strip_zeros.cases) auto
qed

lemma parse_port_decimal: "0 < p \<Longrightarrow> p \<le> 65535 \<Longrightarrow> parse_port (decimal_int p) = p"
proof -
  assume p: "0 < p" "p \<le> 65535"
  then have d: "decimal_int p = decimal (nat p)" by (simp add: decimal_int_def)
  have w: "2 \<le> (32::nat)" by simp
  have "to_integer_safe_signed 32 (decimal_int p) = Inr p"
    unfolding to_integer_safe_Inr_iff [OF w, THEN conjunct1] using p by simp
  then show ?thesis using p strip_zeros_decimal [of "nat p"] by (simp add: parse_port_def d)
qed

lemma split_port_set: "split_port s = (t, p) \<Longrightarrow> set t \<subseteq> set s"
  by (auto simp: split_port_def Let_def dest: in_set_takeD split: if_splits)

lemma split_userinfo_append: "CHR ''@'' \<notin> set h \<Longrightarrow> split_userinfo (ui @ CHR ''@'' # h) = (ui, h)"
  "CHR ''@'' \<notin> set h \<Longrightarrow> split_userinfo h = ([], h)"
proof -
  assume h: "CHR ''@'' \<notin> set h"
  then have n: "rfind_char CHR ''@'' h = None" by (simp add: rfind_char_None_iff)
  then have "rfind_char CHR ''@'' (ui @ CHR ''@'' # h) = Some (length ui)" by (induction ui) simp_all
  then show "split_userinfo (ui @ CHR ''@'' # h) = (ui, h)" by (simp add: split_userinfo_def)
  show "split_userinfo h = ([], h)" using n by (simp add: split_userinfo_def)
qed

lemma split_userinfo_facts:
  assumes "split_userinfo s = (ui, h)"
  shows "set ui \<subseteq> set s" "set h \<subseteq> set s" "CHR ''@'' \<notin> set h" "ui \<noteq> [] \<Longrightarrow> CHR ''@'' \<in> set s"
proof -
  have m: "s ! i = c \<Longrightarrow> i < length s \<Longrightarrow> c \<in> set s" for i c using nth_mem by blast
  show "set ui \<subseteq> set s" "set h \<subseteq> set s" "CHR ''@'' \<notin> set h" "ui \<noteq> [] \<Longrightarrow> CHR ''@'' \<in> set s"
    using assms
    by (auto simp: split_userinfo_def rfind_char_None_iff m dest: in_set_takeD in_set_dropD dest!: rfind_char_Some
      split: option.splits)
qed

lemma check_url_part_total:
  "b \<noteq> [] \<Longrightarrow> \<not> is_hex_digit (hd b) \<Longrightarrow> check_url_part b name ac s \<noteq> None"
proof (induction b name ac s rule: check_url_part.induct)
  case (2 b name ac c s)
  then show ?case
    by (cases s) (auto simp: char_at_def hd_conv_nth simp del: not_None_eq)
qed simp

text \<open>Nothing behind the first character matters.\<close>

lemma check_url_part_behind:
  "\<not> is_hex_digit x \<Longrightarrow> check_url_part (x # b) name ac s = check_url_part [x] name ac s"
proof (induction "x # b" name ac s rule: check_url_part.induct)
  case (2 name ac c s)
  then show ?case by (cases s) (auto simp: char_at_def nth_append)
qed simp

lemma check_url_part_chars:
  "check_url_part b name ac s = Some None \<Longrightarrow> \<not> is_hex_digit (hd b) \<Longrightarrow> c \<in> set s \<Longrightarrow>
   is_url_part_char ac c \<or> c = CHR ''%'' \<or> is_hex_digit c \<or> 128 \<le> uc c"
proof (induction b name ac s rule: check_url_part.induct)
  case (2 b name ac d s)
  show ?case
  proof (cases "is_url_part_char ac d")
    case p: False
    show ?thesis
    proof (cases "d = CHR ''%''")
      case True
      consider (two) x y t where "s = x # y # t" "is_hex_digit x" "is_hex_digit y" "check_url_part b name ac t = Some None"
        | (one) x where "s = [x]" "is_hex_digit x"
        using 2(4,5) p True
        by (cases s; cases "tl s"; cases b) (auto simp: char_at_def bind_eq_Some_conv split: if_splits)
      then show ?thesis
      proof cases
        case two
        then show ?thesis using "2.IH"(2) [OF p True, of x y] 2(5,6) True by (auto simp: numeral_2_eq_2 char_at_def)
      next
        case one
        then show ?thesis using 2(6) True by auto
      qed
    next
      case False
      then show ?thesis using 2 p by (auto split: if_splits)
    qed
  qed (use 2 in auto)
qed simp

subsection \<open>Parsed URLs are normal\<close>

lemma encode_query_chars: "c \<in> set (encode_query q) \<Longrightarrow> 32 < uc c"
proof -
  have hex: "32 < uc (''0123456789ABCDEF'' ! n)" if "n < 16" for n
  proof -
    have "\<forall>n \<in> set [0..<16]. 32 < uc (''0123456789ABCDEF'' ! n)" by (simp add: upt_rec)
    then show ?thesis using that by (simp del: upt_rec_numeral)
  qed
  have d: "uc c div 16 < 16" "uc c mod 16 < 16" for c using uc_bound [of c] by (simp_all add: less_mult_imp_div_less)
  show "c \<in> set (encode_query q) \<Longrightarrow> 32 < uc c"
    by (auto simp: encode_query_def Let_def hex d split: if_splits)
qed

lemma encode_query_hd: "encode_query q \<noteq> [] \<and> hd (encode_query q) = CHR ''/''"
proof -
  let ?f = "\<lambda>c. if uc c \<le> 0x20
           then [CHR ''%'', ''0123456789ABCDEF'' ! (uc c div 16), ''0123456789ABCDEF'' ! (uc c mod 16)] else [c]"
  have "hd (concat (List.map ?f s)) = CHR ''/'' \<and> concat (List.map ?f s) \<noteq> []" if "s \<noteq> []" "hd s = CHR ''/''" for s
    using that by (cases s) auto
  then show ?thesis by (auto simp: encode_query_def Let_def)
qed

lemma encode_query_id:
  assumes "q \<noteq> []" "hd q = CHR ''/''" "\<forall>c \<in> set q. 32 < uc c"
  shows "encode_query q = q"
proof -
  have "\<not> is_space (last q)"
  proof -
    have "32 < uc (last q)" using assms(1,3) last_in_set by blast
    then show ?thesis by (auto simp: is_space_def)
  qed
  then have "drop_back_while is_space q = q"
    using assms(1) by (cases q rule: rev_cases) auto
  moreover have "concat (List.map (\<lambda>c. if uc c \<le> 0x20
           then [CHR ''%'', ''0123456789ABCDEF'' ! (uc c div 16), ''0123456789ABCDEF'' ! (uc c mod 16)] else [c]) q) = q"
    using assms(3) by (induction q) auto
  ultimately show ?thesis using assms by (simp add: encode_query_def Let_def)
qed

text \<open>What parsing establishes.\<close>

definition url_normal :: "(string \<Rightarrow> bool) \<Rightarrow> http_url \<Rightarrow> bool" where
  "url_normal inet_pton u \<longleftrightarrow>
     set (url_userinfo u) \<inter> set ''/?#'' = {} \<and> set (url_host u) \<inter> set ''/?#@'' = {} \<and>
     url_host u \<noteq> [] \<and> url_host u \<noteq> ''.'' \<and> to_lower (url_host u) = url_host u \<and>
     0 \<le> url_specified_port u \<and> url_specified_port u \<le> 65535 \<and>
     Some (url_port u) = (if url_specified_port u = 0 then default_port (url_protocol u) else Some (url_specified_port u)) \<and>
     url_query u \<noteq> [] \<and> hd (url_query u) = CHR ''/'' \<and> (\<forall>c \<in> set (url_query u). 32 < uc c) \<and>
     url_is_ipv6 u = in_brackets (url_host u) \<and>
     (if url_is_ipv6 u
      then init_ipv6 inet_pton (url_host u) \<noteq> None \<and> list_all is_ipv6_host_char (butlast (tl (url_host u)))
      else check_url_part [chr 0] ''host'' False (url_host u) = Some None \<and>
           (url_userinfo u \<noteq> [] \<longrightarrow> check_url_part ''@'' ''userinfo'' True (url_userinfo u) = Some None))"

text \<open>The at sign stands behind the user information.\<close>

lemma split_behind:
  assumes "split_port auth = (uh, port)" "split_userinfo uh = (ui, h)" "CHR ''@'' \<in> set uh"
  shows "\<exists>b. drop (length ui) (auth @ query) = CHR ''@'' # b"
proof -
  obtain t where auth: "auth = uh @ t"
    using assms(1) by (auto simp: split_port_def Let_def split: if_splits intro: append_take_drop_id [symmetric])
  from assms(2,3) obtain i where i: "rfind_char CHR ''@'' uh = Some i" "ui = take i uh"
    by (auto simp: split_userinfo_def rfind_char_None_iff split: option.splits)
  from rfind_char_Some [OF i(1)] have "i < length uh" "uh ! i = CHR ''@''" by simp_all
  then have "drop i uh = CHR ''@'' # drop (Suc i) uh" by (metis Cons_nth_drop_Suc)
  with i(2) \<open>i < length uh\<close> show ?thesis by (simp add: auth)
qed

lemma parse_authority_normal:
  assumes p: "parse_authority inet_pton protocol auth query = Some (Inr u)"
    and a: "set auth \<inter> set ''/?#'' = {}"
    and low: "\<forall>t. inet_pton t \<longrightarrow> inet_pton (to_lower t)"
  shows "url_normal inet_pton u"
proof -
  obtain uh port where sp: "split_port auth = (uh, port)" by force
  obtain ui h where su: "split_userinfo uh = (ui, h)" by force
  note f = split_userinfo_facts [OF su] split_port_set [OF sp]
  define nc where "nc = (if CHR ''@'' \<in> set uh then drop (length ui) (auth @ query) else [chr 0])"
  note eq = p [unfolded parse_authority_def sp su Let_def prod.case nc_def [symmetric]]
  have port: "0 \<le> port" "port \<le> 65535" using eq by (auto split: if_splits)
  have h: "h \<noteq> []" "h \<noteq> ''.''" "in_brackets h \<longrightarrow> init_ipv6 inet_pton h \<noteq> None" using eq port by (auto split: if_splits)
  obtain ap where ap: "(if port = 0 then default_port protocol else Some port) = Some ap"
    using default_port_Some [of protocol] by (cases "port = 0") auto
  have u: "u = \<lparr>url_protocol = protocol, url_userinfo = ui, url_host = to_lower h, url_is_ipv6 = in_brackets h,
      url_specified_port = port, url_port = ap, url_query = encode_query query\<rparr>"
    and c: "if in_brackets h then list_all is_ipv6_host_char (butlast (tl (to_lower h)))
      else check_url_part [chr 0] ''host'' False (to_lower h) = Some None \<and> check_url_part nc ''userinfo'' True ui = Some None"
    using eq [unfolded ap bind.bind_lunit] port h
    by (auto simp: try_status_opt_def Option.bind_eq_Some_conv split: if_splits option.splits)
  have sets: "set ui \<inter> set ''/?#'' = {}" "set (to_lower h) \<inter> set ''/?#@'' = {}"
    using f a by (auto simp: to_lower_mem)
  have dot: "to_lower h \<noteq> ''.''"
  proof
    assume "to_lower h = ''.''"
    then obtain x where "h = [x]" "to_lower_char x = CHR ''.''" by (cases h; cases "tl h") auto
    then show False using h(2) to_lower_char_eq [of "CHR ''.''" x] by simp
  qed
  have ui: "ui \<noteq> [] \<Longrightarrow> \<not> in_brackets h \<Longrightarrow> check_url_part ''@'' ''userinfo'' True ui = Some None"
  proof -
    assume "ui \<noteq> []" "\<not> in_brackets h"
    then obtain b where "nc = CHR ''@'' # b" using split_behind [OF sp su, of query] f(4) by (auto simp: nc_def)
    then show ?thesis
      using c \<open>\<not> in_brackets h\<close> check_url_part_behind [of "CHR ''@''" b]
      by (simp add: is_hex_digit_def is_digit_def Let_def split: if_splits)
  qed
  define B where "B = in_brackets h"
  have B: "in_brackets (to_lower h) = B" unfolding B_def by (rule in_brackets_lower)
  have i: "B \<Longrightarrow> init_ipv6 inet_pton (to_lower h) \<noteq> None" using h(3) init_ipv6_lower [OF low, of h] by (simp add: B_def)
  have "url_is_ipv6 u = B" by (simp add: u B_def)
  moreover have "if B then list_all is_ipv6_host_char (butlast (tl (to_lower h)))
      else check_url_part [chr 0] ''host'' False (to_lower h) = Some None" using c unfolding B_def by (simp split: if_splits)
  ultimately show ?thesis
    using port ap h(1) sets dot encode_query_hd [of query] encode_query_chars [of _ query] B i ui
    unfolding url_normal_def B_def [symmetric]
    by ((intro conjI; cases B), simp_all add: u) auto
qed

text \<open>The readers of the parser.\<close>

lemma read_till_any_ok:
  "p_status p = None \<Longrightarrow> read_till_nofail_any str p =
     (takeWhile (\<lambda>x. x \<notin> set str) (p_rest p), p\<lparr>p_rest := dropWhile (\<lambda>x. x \<notin> set str) (p_rest p)\<rparr>)"
  by (rule read_till_nofail_any_eq) (simp add: is_error_def)

lemma try_skip_prefix_ok: "p_status p = None \<Longrightarrow>
  \<exists>b p'. try_skip_prefix prefix p = Some (b, p') \<and> p_status p' = None"
  by (auto simp: try_skip_prefix_def advance_def)

lemma parse_protocol_ok:
  "(\<exists>e. parse_protocol url dp = Some (Inl e)) \<or>
   (\<exists>protocol p. parse_protocol url dp = Some (Inr (protocol, p)) \<and> p_status p = None)"
proof -
  let ?p = "(parser_new url)\<lparr>p_rest := dropWhile (\<lambda>x. x \<notin> set '':/?#@[]'') url\<rparr>"
  obtain b p' where "try_skip_prefix ''://'' ?p = Some (b, p')" "p_status p' = None"
    using try_skip_prefix_ok [of ?p "''://''"] by (auto simp: parser_new_def)
  then show ?thesis
    by (simp add: parse_protocol_def read_till_any_ok parser_new_def Let_def del: set_simps)
qed

lemma parse_url_rest:
  assumes "parse_protocol url dp = Some (Inr (protocol, p))" "p_status p = None"
  shows "parse_url inet_pton url dp = parse_authority inet_pton protocol
    (takeWhile (\<lambda>x. x \<notin> set ''/?#'') (p_rest p)) (dropWhile (\<lambda>x. x \<notin> set ''/?#'') (p_rest p))"
  using assms by (simp add: parse_url_def read_till_any_ok read_all_def Let_def del: set_simps)

lemma parse_url_normal:
  assumes p: "parse_url inet_pton url dp = Some (Inr u)" and low: "\<forall>t. inet_pton t \<longrightarrow> inet_pton (to_lower t)"
  shows "url_normal inet_pton u"
proof -
  obtain protocol q where r: "parse_protocol url dp = Some (Inr (protocol, q))" "p_status q = None"
    using parse_protocol_ok [of url dp] p by (auto simp: parse_url_def)
  from p [unfolded parse_url_rest [OF r]]
  show ?thesis by (rule parse_authority_normal [OF _ _ low]) (auto dest: set_takeWhileD)
qed

subsection \<open>Normal URLs are parsed back\<close>

lemma host_no_separators:
  assumes "check_url_part n name False h = Some None" "\<not> is_hex_digit (hd n)"
  shows "set h \<inter> {CHR '':'', CHR '']'', CHR ''@'', CHR ''['' } = {}"
proof -
  have "\<not> (is_url_part_char False c \<or> c = CHR ''%'' \<or> is_hex_digit c \<or> 128 \<le> uc c)"
    if "c \<in> {CHR '':'', CHR '']'', CHR ''@'', CHR ''[''}" for c
    using that by (auto simp: is_url_part_char_def is_alnum_def is_alpha_def is_digit_def is_hex_digit_def Let_def)
  then show ?thesis using check_url_part_chars [OF assms] by blast
qed

text \<open>The authority that \<^verbatim>\<open>get_url\<close> prints.\<close>

definition url_authority :: "http_url \<Rightarrow> string" where
  "url_authority u =
     (if url_userinfo u \<noteq> [] then url_userinfo u @ ''@'' else []) @ url_host u @
     (if url_specified_port u > 0 then '':'' @ decimal_int (url_specified_port u) else [])"

lemma decimal_set: "c \<in> set (decimal n) \<Longrightarrow> is_digit c"
  using decimal_digits [of n] by (auto simp: list_all_iff)

lemma split_port_authority:
  assumes "url_normal inet_pton u"
  shows "split_port (url_authority u) =
    ((if url_userinfo u \<noteq> [] then url_userinfo u @ ''@'' else []) @ url_host u, url_specified_port u)"
proof -
  let ?seps = "{CHR '':'', CHR '']'', CHR ''@''}"
  define b where "b = (if url_userinfo u \<noteq> [] then url_userinfo u @ ''@'' else []) @ url_host u"
  have h: "url_host u \<noteq> []" and p: "0 \<le> url_specified_port u" "url_specified_port u \<le> 65535"
    using assms by (simp_all add: url_normal_def)
  have bne: "b \<noteq> []" using h by (simp add: b_def)
  show ?thesis
  proof (cases "url_specified_port u > 0")
    case True
    define d where "d = decimal_int (url_specified_port u)"
    have "set d \<inter> ?seps = {}"
      using True by (auto simp: d_def decimal_int_def is_digit_def dest: decimal_set)
    then have "colon_loop (b @ CHR '':'' # d) (length (b @ CHR '':'' # d) - 1) = length b"
      by (intro colon_loop_last) simp_all
    moreover have "url_authority u = b @ CHR '':'' # d" using True by (simp add: url_authority_def b_def d_def)
    ultimately show ?thesis
      using bne parse_port_decimal [OF True p(2)] by (simp add: split_port_def b_def [symmetric] d_def)
  next
    case False
    then have a: "url_authority u = b" "url_specified_port u = 0" using p by (simp_all add: url_authority_def b_def)
    have "\<not> (colon_loop b (length b - 1) > 0 \<and> b ! colon_loop b (length b - 1) = CHR '':'')"
    proof (cases "url_is_ipv6 u")
      case True
      then have "last (url_host u) = CHR '']''" using assms by (simp add: url_normal_def)
      then have "b = butlast b @ [CHR '']'']" using h bne by (metis append_butlast_last_id b_def last_appendR)
      then obtain s where s: "b = s @ CHR '']'' # []" by blast
      show ?thesis using colon_loop_last [of "CHR '']''" "[]" s] unfolding s by simp
    next
      case False
      then have c: "set (url_host u) \<inter> ?seps = {}"
        using assms host_no_separators [of "[chr 0]"] by (fastforce simp: url_normal_def is_hex_digit_def is_digit_def Let_def)
      show ?thesis
      proof (cases "url_userinfo u = []")
        case True
        then show ?thesis using colon_loop_none [OF c] by (simp add: b_def)
      next
        case False
        then have "b = url_userinfo u @ CHR ''@'' # url_host u" by (simp add: b_def)
        then show ?thesis using colon_loop_last [OF _ c, of "CHR ''@''" "url_userinfo u"] by simp
      qed
    qed
    then show ?thesis unfolding a by (simp only: split_port_def Let_def if_False b_def [symmetric])
  qed
qed

lemma url_authority_chars: "url_normal inet_pton u \<Longrightarrow> set (url_authority u) \<inter> set ''/?#'' = {}"
  by (auto simp: url_normal_def url_authority_def decimal_int_def is_digit_def dest!: decimal_set split: if_splits)

lemma parse_authority_back:
  assumes n: "url_normal inet_pton u"
  shows "parse_authority inet_pton (url_protocol u) (url_authority u) (url_query u) = Some (Inr u)"
proof -
  let ?uh = "(if url_userinfo u \<noteq> [] then url_userinfo u @ ''@'' else []) @ url_host u"
  define b where "b = (if CHR ''@'' \<in> set ?uh then drop (length (url_userinfo u)) (url_authority u @ url_query u) else [chr 0])"
  have at: "CHR ''@'' \<notin> set (url_host u)" using n by (auto simp: url_normal_def)
  have su: "split_userinfo ?uh = (url_userinfo u, url_host u)"
    using split_userinfo_append [OF at] by simp
  have q: "encode_query (url_query u) = url_query u"
    using n by (intro encode_query_id) (simp_all add: url_normal_def)
  have u: "\<lparr>url_protocol = url_protocol u, url_userinfo = url_userinfo u, url_host = url_host u, url_is_ipv6 = in_brackets (url_host u),
      url_specified_port = url_specified_port u, url_port = url_port u, url_query = url_query u\<rparr> = u"
    using n by (simp add: url_normal_def)
  have port: "(if url_specified_port u = 0 then default_port (url_protocol u) else Some (url_specified_port u)) = Some (url_port u)"
    using n by (simp add: url_normal_def)
  have c: "check_url_part b ''userinfo'' True (url_userinfo u) = Some None" if "\<not> in_brackets (url_host u)"
  proof (cases "url_userinfo u = []")
    case False
    then have "CHR ''@'' \<in> set ?uh" by simp
    from split_behind [OF split_port_authority [OF n] su this, of "url_query u"] this
    obtain t where "b = CHR ''@'' # t" by (auto simp: b_def)
    then show ?thesis
      using n that False check_url_part_behind [of "CHR ''@''" t]
      by (simp add: url_normal_def is_hex_digit_def is_digit_def Let_def)
  qed simp
  have f: "url_host u \<noteq> []" "url_host u \<noteq> ''.''" "to_lower (url_host u) = url_host u"
    "\<not> (url_specified_port u < 0 \<or> url_specified_port u > 65535)"
    "in_brackets (url_host u) \<Longrightarrow> init_ipv6 inet_pton (url_host u) \<noteq> None \<and> list_all is_ipv6_host_char (butlast (tl (url_host u)))"
    "\<not> in_brackets (url_host u) \<Longrightarrow> check_url_part [chr 0] ''host'' False (url_host u) = Some None"
    using n unfolding url_normal_def by auto
  show ?thesis
    unfolding parse_authority_def split_port_authority [OF n] Let_def prod.case su q f(3) b_def [symmetric] port bind.bind_lunit u
    using f c by (cases "in_brackets (url_host u)") (simp_all add: try_status_opt_def init_ipv6_is_ipv6)
qed

lemma parse_protocol_back:
  "\<exists>p'. parse_protocol ((case p of Http \<Rightarrow> ''http://'' | Https \<Rightarrow> ''https://'') @ s) dp = Some (Inr (p, p')) \<and>
     p_rest p' = s \<and> p_status p' = None"
  by (cases p)
    (simp_all add: parse_protocol_def read_till_any_ok parser_new_def to_lower_char_def try_skip_prefix_def advance_def
      char_eq_chr_iff chr_eq_char_iff)

text \<open>C17: Parsing is a normal form: the parts of a parsed URL print to a text that parses to the same
  parts, under any default protocol. The system's parser of IPv6 addresses is assumed not to distinguish
  upper from lower case, as its documentation says.\<close>

theorem parse_url_normalises:
  assumes "\<forall>t. inet_pton t \<longrightarrow> inet_pton (to_lower t)"
    and "parse_url inet_pton url default_protocol = Some (Inr u)"
  shows "\<exists>t. get_url u = Some t \<and> parse_url inet_pton t any_protocol = Some (Inr u)"
proof -
  have n: "url_normal inet_pton u" by (rule parse_url_normal [OF assms(2,1)])
  have q: "url_query u \<noteq> []" "hd (url_query u) = CHR ''/''" using n by (simp_all add: url_normal_def)
  let ?p = "case url_protocol u of Http \<Rightarrow> ''http://'' | Https \<Rightarrow> ''https://''"
  let ?t = "?p @ url_authority u @ url_query u"
  have g: "get_url u = Some ?t"
    using q by (simp add: get_url_def Let_def url_authority_def print_int_decimal)
  have s: "takeWhile (\<lambda>x. x \<notin> set ''/?#'') (url_authority u @ url_query u) = url_authority u"
    "dropWhile (\<lambda>x. x \<notin> set ''/?#'') (url_authority u @ url_query u) = url_query u"
  proof -
    have "\<forall>x \<in> set (url_authority u). x \<notin> set ''/?#''" using url_authority_chars [OF n] by blast
    then show "takeWhile (\<lambda>x. x \<notin> set ''/?#'') (url_authority u @ url_query u) = url_authority u"
      "dropWhile (\<lambda>x. x \<notin> set ''/?#'') (url_authority u @ url_query u) = url_query u"
      using q by (cases "url_query u"; simp add: takeWhile_append dropWhile_append)+
  qed
  obtain p' where p': "parse_protocol ?t any_protocol = Some (Inr (url_protocol u, p'))"
    "p_rest p' = url_authority u @ url_query u" "p_status p' = None"
    using parse_protocol_back [of "url_protocol u" "url_authority u @ url_query u" any_protocol] by blast
  have "parse_url inet_pton ?t any_protocol = parse_authority inet_pton (url_protocol u) (url_authority u) (url_query u)"
    unfolding parse_url_rest [OF p'(1,3)] p'(2) s ..
  then show ?thesis using g parse_authority_back [OF n] by simp
qed

theorem parse_url_normalises_witness:
  "\<exists>t. get_url \<lparr>url_protocol = Http, url_userinfo = [], url_host = ''a'', url_is_ipv6 = False, url_specified_port = 0,
      url_port = 80, url_query = ''/''\<rparr> = Some t \<and>
    parse_url (\<lambda>_. True) t Https = Some (Inr \<lparr>url_protocol = Http, url_userinfo = [], url_host = ''a'',
      url_is_ipv6 = False, url_specified_port = 0, url_port = 80, url_query = ''/''\<rparr>)"
proof (rule parse_url_normalises)
  show "\<forall>t. True \<longrightarrow> True" by simp
  show "parse_url (\<lambda>_. True) ''A'' Http = Some (Inr \<lparr>url_protocol = Http, url_userinfo = [], url_host = ''a'',
      url_is_ipv6 = False, url_specified_port = 0, url_port = 80, url_query = ''/''\<rparr>)"
    by code_simp
qed

text \<open>C34: Parsing any text as a URL fails no check, whatever the system's parser of addresses
  answers: neither those of \<^verbatim>\<open>parse_url\<close> on the family of the address and on the protocol nor the
  one of the parser when it skips the protocol. Its reads by index, which check nothing, stay in
  memory: a part that ends with a percent sign makes it read the character behind the part, which is the
  at sign in the URL or the terminator of the host, and it reads no further.\<close>

theorem parse_url_safe: "parse_url inet_pton url default_protocol \<noteq> None"
proof -
  have hex: "\<not> is_hex_digit (chr 0)" "\<not> is_hex_digit CHR ''@''"
    by (simp_all add: is_hex_digit_def is_digit_def Let_def)
  have auth: "parse_authority inet_pton protocol auth query \<noteq> None" for protocol auth query
  proof -
    obtain uh port where sp: "split_port auth = (uh, port)" by force
    obtain ui h where su: "split_userinfo uh = (ui, h)" by force
    define b where "b = (if CHR ''@'' \<in> set uh then drop (length ui) (auth @ query) else [chr 0])"
    have b: "b \<noteq> []" "\<not> is_hex_digit (hd b)"
      using split_behind [OF sp su, of query] hex by (auto simp: b_def)
    obtain st1 where 1: "check_url_part [chr 0] ''host'' False (to_lower h) = Some st1"
      using check_url_part_total [of "[chr 0]" "''host''" False "to_lower h"] hex(1) by auto
    obtain st2 where 2: "check_url_part b ''userinfo'' True ui = Some st2"
      using check_url_part_total [OF b] by blast
    obtain ap where ap: "(if port = 0 then default_port protocol else Some port) = Some ap"
      using default_port_Some [of protocol] by (cases "port = 0") auto
    show ?thesis
      unfolding parse_authority_def sp su Let_def prod.case 1 2 b_def [symmetric] ap bind.bind_lunit
      using init_ipv6_is_ipv6 [of inet_pton h]
      by (auto simp: try_status_opt_def split: option.split)
  qed
  from parse_protocol_ok [of url default_protocol] show ?thesis
  proof
    assume "\<exists>protocol p. parse_protocol url default_protocol = Some (Inr (protocol, p)) \<and> p_status p = None"
    then show ?thesis using parse_url_rest auth by metis
  qed (auto simp: parse_url_def)
qed

end
