(* ===== verification/FlatHashTable.thy ===== *)
theory FlatHashTable
  imports Prelude "HOL-Library.Multiset" "HOL-Library.Monad_Syntax"
begin

text \<open>
  The open-addressing hash table behind \<^verbatim>\<open>FlatHashMap\<close> and
  \<^verbatim>\<open>FlatHashSet\<close> (\<^verbatim>\<open>pxc/utils/FlatHashTable.h\<close>,
  \<^verbatim>\<open>FlatHashTable.cpp\<close>, \<^verbatim>\<open>HashTableUtils.h\<close>): linear probing in a power of
  two buckets, erasure by shifting the following run backwards, growth at three fifths and shrinking
  below one tenth.

  A node is an option: \<open>None\<close> is a node for which \<^verbatim>\<open>empty()\<close> holds (its key is
  \<^verbatim>\<open>KeyT()\<close>), \<open>Some (key, value)\<close> any other; a set has the unit type for its
  values. \<^verbatim>\<open>EqT\<close> is equality. The hash function, the empty key \<open>k0\<close>
  (\<^verbatim>\<open>KeyT()\<close>), \<^verbatim>\<open>sizeof(NodeT)\<close> and the random bucket of
  \<^verbatim>\<open>begin\<close> are arguments. Counters are natural numbers; \<open>u32\<close> marks every
  product and sum the code computes in a \<^verbatim>\<open>uint32\<close>. The result \<open>None\<close> of an
  operation is a failed \<^verbatim>\<open>CHECK\<close> or \<^verbatim>\<open>DCHECK\<close>, an access outside the
  array or a loop that does not end.
\<close>

subsection \<open>Hash functions\<close>

definition randomize_hash :: "uint32 \<Rightarrow> uint32" where
  "randomize_hash h =
     (let h = h XOR drop_bit 16 h;
          h = h * 0x85ebca6b;
          h = h XOR drop_bit 13 h;
          h = h * 0xc2b2ae35
      in h XOR drop_bit 16 h)"

definition hash_char :: "8 word \<Rightarrow> uint32" where
  "hash_char value = randomize_hash (scast value)"

definition hash_uint32 :: "uint32 \<Rightarrow> uint32" where
  "hash_uint32 value = randomize_hash value"

definition hash_int64 :: "64 word \<Rightarrow> uint32" where
  "hash_int64 value = randomize_hash (ucast (value + signed_drop_bit 32 value))"

definition hash_uint64 :: "uint64 \<Rightarrow> uint32" where
  "hash_uint64 value = randomize_hash (ucast (value + drop_bit 32 value))"

definition combine_hashes :: "uint32 \<Rightarrow> uint32 \<Rightarrow> uint32" where
  "combine_hashes first_hash second_hash = first_hash * 2023654985 + second_hash"

subsection \<open>Sizes\<close>

text \<open>Arithmetic of \<^verbatim>\<open>uint32\<close> on natural numbers.\<close>

definition u32 :: "nat \<Rightarrow> nat" where
  "u32 n = n mod 2 ^ 32"

fun bit_len :: "nat \<Rightarrow> nat" where
  "bit_len n = (if n = 0 then 0 else Suc (bit_len (n div 2)))"

declare bit_len.simps [simp del]

definition count_leading_zeroes32 :: "nat \<Rightarrow> nat" where
  "count_leading_zeroes32 x = (if x = 0 then 32 else 32 - bit_len x)"

definition normalize_flat_hash_table_size :: "nat \<Rightarrow> nat" where
  "normalize_flat_hash_table_size n = max (u32 (2 ^ (32 - count_leading_zeroes32 n))) 8"

definition max_buckets :: "nat \<Rightarrow> nat" where
  "max_buckets sz = min (2 ^ 29) (0x7FFFFFFF div sz)"

subsection \<open>The state\<close>

type_synonym ('k, 'v) map_node = "('k \<times> 'v) option"

record ('k, 'v) flat_table =
  nodes :: "('k, 'v) map_node list option"
  used_node_count :: nat
  bucket_count_mask :: nat
  bucket_count :: nat
  begin_bucket :: nat

definition INVALID_BUCKET :: nat where
  "INVALID_BUCKET = 0xFFFFFFFF"

definition empty_table :: "('k, 'v) flat_table" where
  "empty_table = \<lparr>nodes = None, used_node_count = 0, bucket_count_mask = 0, bucket_count = 0,
                  begin_bucket = 0\<rparr>"

definition table_drop :: "('k, 'v) flat_table \<Rightarrow> ('k, 'v) flat_table" where
  "table_drop t = t\<lparr>nodes := None, used_node_count := 0, bucket_count_mask := 0, bucket_count := 0,
                    begin_bucket := 0\<rparr>"

definition table_clear :: "('k, 'v) flat_table \<Rightarrow> ('k, 'v) flat_table" where
  "table_clear t = (if nodes t \<noteq> None then table_drop t else t)"

text \<open>The moves return the target and what is left of the source.\<close>

definition table_move :: "('k, 'v) flat_table \<Rightarrow> ('k, 'v) flat_table \<times> ('k, 'v) flat_table" where
  "table_move other =
     (\<lparr>nodes = nodes other, used_node_count = used_node_count other,
       bucket_count_mask = bucket_count_mask other, bucket_count = bucket_count other,
       begin_bucket = begin_bucket other\<rparr>, table_drop other)"

definition table_move_assign ::
  "('k, 'v) flat_table \<Rightarrow> ('k, 'v) flat_table \<Rightarrow> ('k, 'v) flat_table \<times> ('k, 'v) flat_table" where
  "table_move_assign t other =
     (let t = table_clear t in
      (t\<lparr>nodes := nodes other, used_node_count := used_node_count other,
         bucket_count_mask := bucket_count_mask other, bucket_count := bucket_count other,
         begin_bucket := begin_bucket other\<rparr>, table_drop other))"

definition table_swap ::
  "('k, 'v) flat_table \<Rightarrow> ('k, 'v) flat_table \<Rightarrow> ('k, 'v) flat_table \<times> ('k, 'v) flat_table" where
  "table_swap t other = (other, t)"

definition table_size :: "('k, 'v) flat_table \<Rightarrow> nat" where
  "table_size t = used_node_count t"

definition table_empty :: "('k, 'v) flat_table \<Rightarrow> bool" where
  "table_empty t \<longleftrightarrow> used_node_count t = 0"

definition invalidate_iterators :: "('k, 'v) flat_table \<Rightarrow> ('k, 'v) flat_table" where
  "invalidate_iterators t = t\<lparr>begin_bucket := INVALID_BUCKET\<rparr>"

subsection \<open>Probing\<close>

definition calc_bucket :: "('k \<Rightarrow> uint32) \<Rightarrow> nat \<Rightarrow> 'k \<Rightarrow> nat" where
  "calc_bucket hash bmask key = unat (hash key) AND bmask"

definition next_bucket :: "nat \<Rightarrow> nat \<Rightarrow> nat" where
  "next_bucket bmask bucket = u32 (bucket + 1) AND bmask"

text \<open>The loops over the buckets of a run: from \<open>b\<close> on, up to the first node that satisfies
  \<open>stop\<close>.\<close>

partial_function (option) probe :: "('n \<Rightarrow> bool) \<Rightarrow> 'n list \<Rightarrow> nat \<Rightarrow> nat \<Rightarrow> nat option" where
  "probe stop ns bmask b =
     (if b < length ns
      then (if stop (ns ! b) then Some b else probe stop ns bmask (next_bucket bmask b))
      else None)"

declare probe.simps [code]

text \<open>The nodes at which the search for a key ends: an empty one or the one of the key.\<close>

definition stops_at :: "'k \<Rightarrow> ('k, 'v) map_node \<Rightarrow> bool" where
  "stops_at key node = (case node of None \<Rightarrow> True | Some (k, v) \<Rightarrow> k = key)"

text \<open>The outer option is failure, the inner one \<^verbatim>\<open>nullptr\<close>.\<close>

definition find_impl ::
  "('k \<Rightarrow> uint32) \<Rightarrow> 'k \<Rightarrow> ('k, 'v) flat_table \<Rightarrow> 'k \<Rightarrow> nat option option" where
  "find_impl hash k0 t key =
     (case nodes t of
        None \<Rightarrow> Some None
      | Some ns \<Rightarrow>
          if key = k0 then Some None
          else map_option (\<lambda>b. if ns ! b = None then None else Some b)
                 (probe (stops_at key) ns (bucket_count_mask t)
                    (calc_bucket hash (bucket_count_mask t) key)))"

definition table_count ::
  "('k \<Rightarrow> uint32) \<Rightarrow> 'k \<Rightarrow> ('k, 'v) flat_table \<Rightarrow> 'k \<Rightarrow> nat option" where
  "table_count hash k0 t key =
     map_option (\<lambda>node. if node \<noteq> None then 1 else 0) (find_impl hash k0 t key)"

text \<open>\<^verbatim>\<open>find(key)\<close> read through: the value of the node found.\<close>

definition table_find ::
  "('k \<Rightarrow> uint32) \<Rightarrow> 'k \<Rightarrow> ('k, 'v) flat_table \<Rightarrow> 'k \<Rightarrow> 'v option option" where
  "table_find hash k0 t key =
     map_option (map_option (\<lambda>b. snd (the (the (nodes t) ! b)))) (find_impl hash k0 t key)"

subsection \<open>Resizing\<close>

definition allocate_nodes ::
  "nat \<Rightarrow> nat \<Rightarrow> ('k, 'v) flat_table \<Rightarrow> ('k, 'v) flat_table option" where
  "allocate_nodes sz n t =
     (if n \<ge> 8 \<and> n AND (n - 1) = 0 \<and> n \<le> max_buckets sz
      then Some (t\<lparr>nodes := Some (replicate n None), bucket_count_mask := n - 1, bucket_count := n,
                   begin_bucket := INVALID_BUCKET\<rparr>)
      else None)"

fun move_nodes ::
  "('k \<Rightarrow> uint32) \<Rightarrow> nat \<Rightarrow> ('k, 'v) map_node list \<Rightarrow> ('k, 'v) map_node list
     \<Rightarrow> ('k, 'v) map_node list option" where
  "move_nodes hash bmask [] ns = Some ns"
| "move_nodes hash bmask (None # old) ns = move_nodes hash bmask old ns"
| "move_nodes hash bmask (Some (key, val) # old) ns =
     do {
       b \<leftarrow> probe (\<lambda>node. node = None) ns bmask (calc_bucket hash bmask key);
       move_nodes hash bmask old (ns[b := Some (key, val)])
     }"

definition table_resize ::
  "nat \<Rightarrow> ('k \<Rightarrow> uint32) \<Rightarrow> nat \<Rightarrow> ('k, 'v) flat_table \<Rightarrow> ('k, 'v) flat_table option" where
  "table_resize sz hash new_size t =
     (case nodes t of
        None \<Rightarrow> map_option (\<lambda>t. t\<lparr>used_node_count := 0\<rparr>) (allocate_nodes sz new_size t)
      | Some old_nodes \<Rightarrow>
          do {
            t' \<leftarrow> allocate_nodes sz new_size t;
            ns \<leftarrow> move_nodes hash (bucket_count_mask t') (take (bucket_count t) old_nodes)
                   (the (nodes t'));
            Some (t'\<lparr>nodes := Some ns\<rparr>)
          })"

definition table_reserve ::
  "nat \<Rightarrow> ('k \<Rightarrow> uint32) \<Rightarrow> nat \<Rightarrow> ('k, 'v) flat_table \<Rightarrow> ('k, 'v) flat_table option" where
  "table_reserve sz hash n t =
     (if n = 0 then Some t
      else if n \<le> 2 ^ 29 then
        (let want_size = normalize_flat_hash_table_size (u32 (u32 (n * 5) div 3 + 1)) in
         if want_size > bucket_count t then table_resize sz hash want_size t else Some t)
      else None)"

definition try_shrink ::
  "nat \<Rightarrow> ('k \<Rightarrow> uint32) \<Rightarrow> ('k, 'v) flat_table \<Rightarrow> ('k, 'v) flat_table option" where
  "try_shrink sz hash t =
     (if nodes t = None then None
      else
        do {
          t' \<leftarrow> (if u32 (used_node_count t * 10) < bucket_count_mask t \<and> bucket_count_mask t > 7
                then table_resize sz hash
                       (normalize_flat_hash_table_size
                          (u32 (u32 ((used_node_count t + 1) * 5) div 3 + 1))) t
                else Some t);
          Some (invalidate_iterators t')
        })"


subsection \<open>Insertion\<close>

text \<open>The new table, the bucket of the node and whether it is new; an argument \<open>val\<close> of
  \<^verbatim>\<open>emplace\<close> is the value the new node is made with.\<close>

partial_function (option) table_emplace ::
  "nat \<Rightarrow> ('k \<Rightarrow> uint32) \<Rightarrow> 'k \<Rightarrow> ('k, 'v) flat_table \<Rightarrow> 'k \<Rightarrow> 'v
     \<Rightarrow> (('k, 'v) flat_table \<times> nat \<times> bool) option" where
  "table_emplace sz hash k0 t key val =
     (if key = k0 then None
      else
        do {
          t \<leftarrow> (if bucket_count_mask t = 0
               then (if used_node_count t = 0 then table_resize sz hash 8 t else None)
               else Some t);
          ns \<leftarrow> nodes t;
          b \<leftarrow> probe (stops_at key) ns (bucket_count_mask t)
                 (calc_bucket hash (bucket_count_mask t) key);
          (if ns ! b = None then
             (if u32 (used_node_count t * 5) \<ge> u32 (bucket_count_mask t * 3) then
                do {
                  t \<leftarrow> table_resize sz hash (u32 (2 * bucket_count t)) t;
                  (if u32 (used_node_count t * 5) < u32 (bucket_count_mask t * 3)
                   then table_emplace sz hash k0 t key val
                   else None)
                }
              else
                Some ((invalidate_iterators t)
                        \<lparr>nodes := Some (ns[b := Some (key, val)]),
                         used_node_count := used_node_count t + 1\<rparr>, b, True))
           else Some (t, b, False))
        })"

declare table_emplace.simps [code]

text \<open>\<^verbatim>\<open>insert(begin, end)\<close>, and the constructor from a list of keys.\<close>

fun table_insert_range ::
  "nat \<Rightarrow> ('k \<Rightarrow> uint32) \<Rightarrow> 'k \<Rightarrow> ('k, 'v) flat_table \<Rightarrow> ('k \<times> 'v) list
     \<Rightarrow> ('k, 'v) flat_table option" where
  "table_insert_range sz hash k0 t [] = Some t"
| "table_insert_range sz hash k0 t ((key, val) # rest) =
     do {
       (t', b, fresh) \<leftarrow> table_emplace sz hash k0 t key val;
       table_insert_range sz hash k0 t' rest
     }"

text \<open>\<^verbatim>\<open>table[key] = val\<close>: \<^verbatim>\<open>operator[]\<close> makes a node with the default value
  and returns the reference the assignment writes through.\<close>

definition table_set ::
  "nat \<Rightarrow> ('k \<Rightarrow> uint32) \<Rightarrow> 'k \<Rightarrow> 'v \<Rightarrow> ('k, 'v) flat_table \<Rightarrow> 'k \<Rightarrow> 'v
     \<Rightarrow> ('k, 'v) flat_table option" where
  "table_set sz hash k0 v0 t key val =
     do {
       (t', b, fresh) \<leftarrow> table_emplace sz hash k0 t key v0;
       ns \<leftarrow> nodes t';
       Some (t'\<lparr>nodes := Some (ns[b := Some (key, val)])\<rparr>)
     }"

text \<open>The loop of the constructor from a list of nodes, with its local count.\<close>

fun copy_nodes ::
  "('k \<Rightarrow> uint32) \<Rightarrow> 'k \<Rightarrow> nat \<Rightarrow> ('k \<times> 'v) list \<Rightarrow> ('k, 'v) map_node list \<Rightarrow> nat
     \<Rightarrow> (('k, 'v) map_node list \<times> nat) option" where
  "copy_nodes hash k0 bmask [] ns used_nodes = Some (ns, used_nodes)"
| "copy_nodes hash k0 bmask ((key, val) # rest) ns used_nodes =
     (if key = k0 then None
      else
        do {
          b \<leftarrow> probe (stops_at key) ns bmask (calc_bucket hash bmask key);
          (if ns ! b = None
           then copy_nodes hash k0 bmask rest (ns[b := Some (key, val)]) (used_nodes + 1)
           else copy_nodes hash k0 bmask rest ns used_nodes)
        })"

definition table_of_nodes ::
  "nat \<Rightarrow> ('k \<Rightarrow> uint32) \<Rightarrow> 'k \<Rightarrow> ('k \<times> 'v) list \<Rightarrow> ('k, 'v) flat_table option" where
  "table_of_nodes sz hash k0 new_nodes =
     (if length new_nodes = 0 then Some empty_table
      else
        do {
          t \<leftarrow> table_reserve sz hash (length new_nodes) empty_table;
          ns \<leftarrow> nodes t;
          (ns', used_nodes) \<leftarrow> copy_nodes hash k0 (bucket_count_mask t) new_nodes ns 0;
          Some (t\<lparr>nodes := Some ns', used_node_count := used_nodes\<rparr>)
        })"

subsection \<open>Erasure\<close>

text \<open>The first loop of \<^verbatim>\<open>erase_node\<close>, up to the end of the array: the nodes, and the
  hole when the end was reached.\<close>

function shift_to_end ::
  "('k \<Rightarrow> uint32) \<Rightarrow> nat \<Rightarrow> nat \<Rightarrow> ('k, 'v) map_node list \<Rightarrow> nat \<Rightarrow> nat
     \<Rightarrow> (('k, 'v) map_node list \<times> nat option) option" where
  "shift_to_end hash bmask n ns it test =
     (if test = n then Some (ns, Some it)
      else if test < length ns then
        (case ns ! test of
           None \<Rightarrow> Some (ns, None)
         | Some (key, val) \<Rightarrow>
             let want = calc_bucket hash bmask key in
             if want \<le> it \<or> want > test
             then shift_to_end hash bmask n (ns[it := ns ! test, test := None]) test (test + 1)
             else shift_to_end hash bmask n ns it (test + 1))
      else None)"
  by pat_completeness auto
termination
  by (relation "measure (\<lambda>(hash, bmask, n, ns, it, test). length ns - test)") auto

text \<open>The second loop, from the start of the array on: \<open>empty_i\<close> and \<open>test_i\<close> count
  on behind the end.\<close>

function shift_wrapped ::
  "('k \<Rightarrow> uint32) \<Rightarrow> nat \<Rightarrow> nat \<Rightarrow> ('k, 'v) map_node list \<Rightarrow> nat \<Rightarrow> nat \<Rightarrow> nat
     \<Rightarrow> ('k, 'v) map_node list option" where
  "shift_wrapped hash bmask n ns empty_i empty_bucket test_i =
     (let test_bucket = test_i - n in
      if test_bucket < length ns then
        (case ns ! test_bucket of
           None \<Rightarrow> Some ns
         | Some (key, val) \<Rightarrow>
             let want_i = calc_bucket hash bmask key;
                 want_i = (if want_i < empty_i then u32 (want_i + n) else want_i) in
             if want_i \<le> empty_i \<or> want_i > test_i
             then shift_wrapped hash bmask n (ns[empty_bucket := ns ! test_bucket, test_bucket := None])
                    test_i test_bucket (test_i + 1)
             else shift_wrapped hash bmask n ns empty_i empty_bucket (test_i + 1))
      else None)"
  by pat_completeness auto
termination
  by (relation "measure (\<lambda>(hash, bmask, n, ns, empty_i, empty_bucket, test_i). n + length ns - test_i)")
     auto

declare shift_to_end.simps [simp del] shift_wrapped.simps [simp del]

definition erase_nodes ::
  "('k \<Rightarrow> uint32) \<Rightarrow> nat \<Rightarrow> nat \<Rightarrow> ('k, 'v) map_node list \<Rightarrow> nat \<Rightarrow> ('k, 'v) map_node list option" where
  "erase_nodes hash bmask n ns i =
     do {
       (ns', hole) \<leftarrow> shift_to_end hash bmask n (ns[i := None]) i (i + 1);
       (case hole of
          None \<Rightarrow> Some ns'
        | Some it \<Rightarrow> shift_wrapped hash bmask n ns' it it n)
     }"

definition erase_node ::
  "('k \<Rightarrow> uint32) \<Rightarrow> ('k, 'v) flat_table \<Rightarrow> nat \<Rightarrow> ('k, 'v) flat_table option" where
  "erase_node hash t i =
     do {
       ns \<leftarrow> nodes t;
       (if i < bucket_count t \<and> i < length ns \<and> ns ! i \<noteq> None then
          map_option (\<lambda>ns'. t\<lparr>nodes := Some ns', used_node_count := used_node_count t - 1\<rparr>)
            (erase_nodes hash (bucket_count_mask t) (bucket_count t) ns i)
        else None)
     }"

text \<open>\<^verbatim>\<open>erase\<close> of an iterator or a node pointer, and of a key.\<close>

definition table_erase_at ::
  "nat \<Rightarrow> ('k \<Rightarrow> uint32) \<Rightarrow> ('k, 'v) flat_table \<Rightarrow> nat \<Rightarrow> ('k, 'v) flat_table option" where
  "table_erase_at sz hash t i = do { t' \<leftarrow> erase_node hash t i; try_shrink sz hash t' }"

definition table_erase ::
  "nat \<Rightarrow> ('k \<Rightarrow> uint32) \<Rightarrow> 'k \<Rightarrow> ('k, 'v) flat_table \<Rightarrow> 'k
     \<Rightarrow> (('k, 'v) flat_table \<times> nat) option" where
  "table_erase sz hash k0 t key =
     do {
       node \<leftarrow> find_impl hash k0 t key;
       (case node of
          None \<Rightarrow> Some (t, 0)
        | Some i \<Rightarrow> map_option (\<lambda>t'. (t', 1)) (table_erase_at sz hash t i))
     }"

subsection \<open>Iteration\<close>

text \<open>\<open>r\<close> is what \<^verbatim>\<open>Random::fast_uint32\<close> returns.\<close>

definition begin_impl ::
  "uint32 \<Rightarrow> ('k, 'v) flat_table \<Rightarrow> (('k, 'v) flat_table \<times> nat option) option" where
  "begin_impl r t =
     (if table_empty t then Some (t, None)
      else if begin_bucket t = INVALID_BUCKET then
        do {
          ns \<leftarrow> nodes t;
          b \<leftarrow> probe (\<lambda>node. node \<noteq> None) ns (bucket_count_mask t) (unat r AND bucket_count_mask t);
          Some (t\<lparr>begin_bucket := b\<rparr>, Some b)
        }
      else Some (t, Some (begin_bucket t)))"

text \<open>\<^verbatim>\<open>Iterator::operator++\<close> on an iterator that started at \<open>start\<close>; the inner
  \<open>None\<close> is the end.\<close>

partial_function (option) iter_next ::
  "('k, 'v) map_node list \<Rightarrow> nat \<Rightarrow> nat \<Rightarrow> nat option option" where
  "iter_next ns start it =
     (let it' = (if it + 1 = length ns then 0 else it + 1) in
      if it' = start then Some None
      else if it' < length ns then
        (if ns ! it' = None then iter_next ns start it' else Some (Some it'))
      else None)"

declare iter_next.simps [code]

text \<open>The entries a range-based \<^verbatim>\<open>for\<close> loop sees from the iterator \<open>it\<close> on.\<close>

partial_function (option) iterate ::
  "('k, 'v) map_node list \<Rightarrow> nat \<Rightarrow> nat \<Rightarrow> ('k \<times> 'v) list option" where
  "iterate ns start it =
     (if it < length ns then
        do {
          e \<leftarrow> ns ! it;
          next_it \<leftarrow> iter_next ns start it;
          (case next_it of
             None \<Rightarrow> Some [e]
           | Some it' \<Rightarrow> do { es \<leftarrow> iterate ns start it'; Some (e # es) })
        }
      else None)"

declare iterate.simps [code]

definition table_entries ::
  "uint32 \<Rightarrow> ('k, 'v) flat_table \<Rightarrow> (('k, 'v) flat_table \<times> ('k \<times> 'v) list) option" where
  "table_entries r t =
     do {
       (t', it) \<leftarrow> begin_impl r t;
       (case it of
          None \<Rightarrow> Some (t', [])
        | Some b \<Rightarrow> do { ns \<leftarrow> nodes t'; es \<leftarrow> iterate ns b b; Some (t', es) })
     }"

subsection \<open>Removal by a predicate\<close>

text \<open>The two scans for an empty node before the loops of \<^verbatim>\<open>remove_if\<close>.\<close>

function scan_to_empty :: "'a option list \<Rightarrow> nat \<Rightarrow> nat \<Rightarrow> nat option" where
  "scan_to_empty ns n it =
     (if it = n then Some n
      else if it < length ns then (if ns ! it = None then Some it else scan_to_empty ns n (it + 1))
      else None)"
  by pat_completeness auto
termination
  by (relation "measure (\<lambda>(ns, n, it). length ns - it)") auto

declare scan_to_empty.simps [simp del]

fun scan_back :: "'a option list \<Rightarrow> nat \<Rightarrow> nat option" where
  "scan_back ns 0 = None"
| "scan_back ns (Suc it) =
     (if it < length ns then (if ns ! it = None then Some it else scan_back ns it) else None)"

text \<open>A loop that erases in place, from \<open>it\<close> to \<open>end\<close>.\<close>

partial_function (option) remove_range ::
  "('k \<Rightarrow> uint32) \<Rightarrow> ('k \<Rightarrow> 'v \<Rightarrow> bool) \<Rightarrow> nat \<Rightarrow> nat \<Rightarrow> ('k, 'v) flat_table
     \<Rightarrow> ('k, 'v) flat_table option" where
  "remove_range hash f it end_it t =
     (if it = end_it then Some t
      else
        do {
          ns \<leftarrow> nodes t;
          (if it < length ns then
             (if ns ! it \<noteq> None \<and> f (fst (the (ns ! it))) (snd (the (ns ! it)))
              then do { t' \<leftarrow> erase_node hash t it; remove_range hash f it end_it t' }
              else remove_range hash f (it + 1) end_it t)
           else None)
        })"

declare remove_range.simps [code]

definition remove_if ::
  "nat \<Rightarrow> ('k \<Rightarrow> uint32) \<Rightarrow> uint32 \<Rightarrow> ('k \<Rightarrow> 'v \<Rightarrow> bool) \<Rightarrow> ('k, 'v) flat_table
     \<Rightarrow> ('k, 'v) flat_table option" where
  "remove_if sz hash r f t =
     (if table_empty t then Some t
      else
        do {
          (t, start) \<leftarrow> begin_impl r t;
          ns \<leftarrow> nodes t;
          it \<leftarrow> start;
          it \<leftarrow> scan_to_empty ns (bucket_count t) it;
          first_empty \<leftarrow> (if it = bucket_count t then scan_back ns it else Some it);
          t \<leftarrow> remove_range hash f first_empty (bucket_count t) t;
          t \<leftarrow> remove_range hash f 0 first_empty t;
          try_shrink sz hash t
        })"


subsection \<open>Sizes are powers of two\<close>

lemma u32_id [simp]: "n < 4294967296 \<Longrightarrow> u32 n = n"
  by (simp add: u32_def)

lemma bit_len_0 [simp]: "bit_len 0 = 0"
  by (simp add: bit_len.simps)

lemma bit_len_pos: "0 < n \<Longrightarrow> bit_len n = Suc (bit_len (n div 2))"
  by (simp add: bit_len.simps)

lemma less_exp_bit_len: "n < 2 ^ bit_len n"
proof (induction n rule: bit_len.induct)
  case (1 n)
  then show ?case by (cases "n = 0") (auto simp: bit_len_pos)
qed

lemma exp_bit_len_le: "0 < n \<Longrightarrow> 2 ^ bit_len n \<le> 2 * n"
proof (induction n rule: bit_len.induct)
  case (1 n)
  then show ?case by (cases "n = 1") (auto simp: bit_len_pos)
qed

lemma bit_len_le: "n < 2 ^ k \<Longrightarrow> bit_len n \<le> k"
proof (cases "n = 0")
  case False
  assume "n < 2 ^ k"
  then have "2 ^ bit_len n < (2::nat) ^ Suc k" using exp_bit_len_le [of n] False by simp
  then have "bit_len n < Suc k" by (rule power_less_imp_less_exp [rotated]) simp
  then show ?thesis by simp
qed simp

lemma bit_len_exp [simp]: "bit_len (2 ^ k) = Suc k"
  by (induction k) (simp_all add: bit_len_pos)

definition is_pow2 :: "nat \<Rightarrow> bool" where
  "is_pow2 n \<longleftrightarrow> 0 < n \<and> n = 2 ^ (bit_len n - 1)"

lemma is_pow2_exp [simp]: "is_pow2 (2 ^ k)"
  by (simp add: is_pow2_def)

lemma is_pow2_obtain:
  assumes "is_pow2 n"
  obtains k where "n = 2 ^ k"
  using assms by (auto simp: is_pow2_def)

lemma is_pow2_double: "is_pow2 n \<Longrightarrow> is_pow2 (2 * n)"
  by (metis is_pow2_exp is_pow2_obtain power_Suc)

lemma and_pow2_minus: "is_pow2 n \<Longrightarrow> b AND (n - 1) = b mod n" for b n :: nat
  by (metis is_pow2_obtain mask_nat_def take_bit_eq_mask take_bit_nat_def)

lemmas and_pow2 = and_pow2_minus and_pow2_minus [unfolded One_nat_def]

lemma is_pow2_dcheck: "is_pow2 n \<Longrightarrow> n AND (n - 1) = 0"
  by (simp add: and_pow2)

lemma normalize_flat_hash_table_size_spec:
  assumes "n < 2 ^ 31"
  shows "is_pow2 (normalize_flat_hash_table_size n)" "n < normalize_flat_hash_table_size n"
    "8 \<le> normalize_flat_hash_table_size n" "normalize_flat_hash_table_size n \<le> max 8 (2 * n)"
proof -
  have 8: "is_pow2 8" using is_pow2_exp [of 3] by simp
  have "bit_len n \<le> 31" using bit_len_le [OF assms] .
  moreover have "(2::nat) ^ bit_len n \<le> 2 ^ 31"
    using \<open>bit_len n \<le> 31\<close> by (intro power_increasing) auto
  ultimately have e: "normalize_flat_hash_table_size n = (if n = 0 then 8 else max (2 ^ bit_len n) 8)"
    by (simp add: normalize_flat_hash_table_size_def count_leading_zeroes32_def)
  show "is_pow2 (normalize_flat_hash_table_size n)"
    unfolding e using 8 is_pow2_exp [of "bit_len n"] by (auto simp: max_def)
  show "n < normalize_flat_hash_table_size n"
    unfolding e using less_exp_bit_len [of n] by auto
  show "8 \<le> normalize_flat_hash_table_size n" unfolding e by simp
  show "normalize_flat_hash_table_size n \<le> max 8 (2 * n)"
    unfolding e using exp_bit_len_le [of n] by auto
qed

lemma calc_bucket_less: "is_pow2 n \<Longrightarrow> calc_bucket hash (n - 1) key < n"
  by (simp add: calc_bucket_def and_pow2, simp add: is_pow2_def)

lemma next_bucket_eq:
  assumes "is_pow2 n" "b < n" "n \<le> 2 ^ 29"
  shows "next_bucket (n - 1) b = (if b + 1 = n then 0 else b + 1)"
  using assms by (simp add: next_bucket_def and_pow2)

subsection \<open>Distances around the table\<close>

text \<open>How many steps of \<^verbatim>\<open>next_bucket\<close> lead from \<open>a\<close> to \<open>b\<close>.\<close>

definition dist :: "nat \<Rightarrow> nat \<Rightarrow> nat \<Rightarrow> nat" where
  "dist n a b = (if a \<le> b then b - a else b + n - a)"

lemma dist_self [simp]: "dist n a a = 0"
  by (simp add: dist_def)

lemma dist_less: "a < n \<Longrightarrow> b < n \<Longrightarrow> dist n a b < n"
  by (auto simp: dist_def)

lemma dist_inj: "a < n \<Longrightarrow> b < n \<Longrightarrow> c < n \<Longrightarrow> dist n a b = dist n a c \<longleftrightarrow> b = c"
  by (auto simp: dist_def split: if_splits)

lemma dist_0_iff: "a < n \<Longrightarrow> b < n \<Longrightarrow> dist n a b = 0 \<longleftrightarrow> a = b"
  by (auto simp: dist_def)

definition step :: "nat \<Rightarrow> nat \<Rightarrow> nat" where
  "step n b = (if b + 1 = n then 0 else b + 1)"

lemma step_less: "b < n \<Longrightarrow> step n b < n"
  by (auto simp: step_def)

lemma dist_step:
  "a < n \<Longrightarrow> b < n \<Longrightarrow> a \<noteq> b \<Longrightarrow> dist n a b = Suc (dist n (step n a) b)"
  by (auto simp: dist_def step_def)

lemma dist_from_step:
  "a < n \<Longrightarrow> b < n \<Longrightarrow> c < n \<Longrightarrow> a \<noteq> b \<Longrightarrow> dist n (step n a) c < dist n (step n a) b \<Longrightarrow>
   c \<noteq> a \<and> dist n a c < dist n a b"
  by (auto simp: dist_def step_def split: if_splits)

text \<open>The first position from \<open>b\<close> on with a property.\<close>

lemma first_from:
  assumes "e < n" "P e" "b < n"
  obtains f where "f < n" "P f" "\<And>p. p < n \<Longrightarrow> dist n b p < dist n b f \<Longrightarrow> \<not> P p"
proof -
  obtain f where f: "f < n \<and> P f" "\<And>p. p < n \<and> P p \<Longrightarrow> dist n b f \<le> dist n b p"
    using arg_min_natI [of "\<lambda>p. p < n \<and> P p" e "dist n b"]
      arg_min_nat_le [of "\<lambda>p. p < n \<and> P p" _ "dist n b"] assms by blast
  show thesis
  proof (rule that)
    show "\<not> P p" if "p < n" "dist n b p < dist n b f" for p using f(2) [of p] that by force
  qed (use f in auto)
qed

lemma probe_finds:
  assumes n: "is_pow2 n" "n \<le> 2 ^ 29" "length ns = n"
    and e: "e < n" "stop (ns ! e)"
    and b: "b < n" "\<And>p. p < n \<Longrightarrow> dist n b p < dist n b e \<Longrightarrow> \<not> stop (ns ! p)"
  shows "probe stop ns (n - 1) b = Some e"
  using b
proof (induction "dist n b e" arbitrary: b)
  case 0
  then have "b = e" using dist_0_iff e by metis
  then show ?case using e n by (simp add: probe.simps)
next
  case (Suc d)
  then have "b \<noteq> e" by auto
  then have d: "dist n b e = Suc (dist n (step n b) e)" using dist_step Suc.prems(1) e by blast
  have "\<not> stop (ns ! b)" using Suc.prems Suc.hyps(2) by simp
  moreover have "probe stop ns (n - 1) (step n b) = Some e"
  proof (rule Suc.hyps(1))
    show "d = dist n (step n b) e" using d Suc.hyps(2) by simp
    show "step n b < n" using step_less Suc.prems(1) .
    show "\<not> stop (ns ! p)" if "p < n" "dist n (step n b) p < dist n (step n b) e" for p
      using dist_from_step [OF Suc.prems(1) e(1) that(1) \<open>b \<noteq> e\<close> that(2)] Suc.prems(2) that by blast
  qed
  ultimately show ?case
    using Suc.prems(1) n next_bucket_eq [OF n(1) Suc.prems(1) n(2)]
    by (subst probe.simps) (simp add: step_def)
qed

lemma probe_stops:
  assumes "is_pow2 n" "n \<le> 2 ^ 29" "length ns = n" "e < n" "stop (ns ! e)" "b < n"
  obtains f where "probe stop ns (n - 1) b = Some f" "f < n" "stop (ns ! f)"
    "\<And>p. p < n \<Longrightarrow> dist n b p < dist n b f \<Longrightarrow> \<not> stop (ns ! p)"
proof -
  obtain f where f: "f < n" "stop (ns ! f)" "\<And>p. p < n \<Longrightarrow> dist n b p < dist n b f \<Longrightarrow> \<not> stop (ns ! p)"
    using first_from [of e n "\<lambda>p. stop (ns ! p)" b] assms by blast
  then show thesis using that probe_finds [OF assms(1-3), of f stop b] assms(6) by blast
qed


subsection \<open>The nodes as a map\<close>

definition entries :: "'a option list \<Rightarrow> 'a list" where
  "entries ns = List.map_filter (\<lambda>x. x) ns"

definition node_map :: "('k, 'v) map_node list \<Rightarrow> 'k \<rightharpoonup> 'v" where
  "node_map ns = map_of (entries ns)"

definition placed :: "('k \<Rightarrow> uint32) \<Rightarrow> ('k, 'v) map_node list \<Rightarrow> bool" where
  "placed hash ns \<longleftrightarrow>
     (\<forall>i < length ns. \<forall>key val. ns ! i = Some (key, val) \<longrightarrow>
        (\<forall>p < length ns.
           dist (length ns) (calc_bucket hash (length ns - 1) key) p
             < dist (length ns) (calc_bucket hash (length ns - 1) key) i \<longrightarrow> ns ! p \<noteq> None))"

definition nodes_ok :: "('k \<Rightarrow> uint32) \<Rightarrow> ('k, 'v) map_node list \<Rightarrow> bool" where
  "nodes_ok hash ns \<longleftrightarrow>
     is_pow2 (length ns) \<and> length ns \<le> 2 ^ 29 \<and> distinct (map fst (entries ns)) \<and> placed hash ns"

lemma entries_simps [simp]:
  "entries [] = []"
  "entries (None # ns) = entries ns"
  "entries (Some e # ns) = e # entries ns"
  by (simp_all add: entries_def List.map_filter_simps)

lemma entries_append [simp]: "entries (xs @ ys) = entries xs @ entries ys"
  by (simp add: entries_def List.map_filter_def)

lemma entries_replicate_None [simp]: "entries (replicate n None) = []"
  by (induction n) auto

lemma set_entries: "e \<in> set (entries ns) \<longleftrightarrow> Some e \<in> set ns"
  by (auto simp: entries_def List.map_filter_def image_iff)

lemma set_entries_nth: "e \<in> set (entries ns) \<longleftrightarrow> (\<exists>i<length ns. ns ! i = Some e)"
  unfolding set_entries by (auto simp: in_set_conv_nth)

lemma entries_upd:
  "i < length ns \<Longrightarrow> entries (ns[i := x]) = entries (take i ns) @ entries [x] @ entries (drop (Suc i) ns)"
  by (simp add: upd_conv_take_nth_drop flip: entries_append)

lemma entries_split:
  "i < length ns \<Longrightarrow> entries ns = entries (take i ns) @ entries [ns ! i] @ entries (drop (Suc i) ns)"
  by (metis entries_upd list_update_id)

lemma mset_entries_set:
  "i < length ns \<Longrightarrow> ns ! i = None \<Longrightarrow> mset (entries (ns[i := Some e])) = add_mset e (mset (entries ns))"
  by (simp add: entries_upd entries_split [of i ns])

lemma mset_entries_clear:
  "i < length ns \<Longrightarrow> ns ! i = Some e \<Longrightarrow> mset (entries ns) = add_mset e (mset (entries (ns[i := None])))"
  by (simp add: entries_upd entries_split [of i ns])

lemma mset_entries_move:
  assumes "h < length ns" "t < length ns" "h \<noteq> t" "ns ! h = None"
  shows "mset (entries (ns[h := ns ! t, t := None])) = mset (entries ns)"
proof (cases "ns ! t")
  case None
  then show ?thesis using assms by (metis list_update_id)
next
  case (Some e)
  then have "mset (entries (ns[h := ns ! t])) = add_mset e (mset (entries ns))"
    using mset_entries_set [of h ns e] assms by simp
  moreover have "mset (entries (ns[h := ns ! t])) = add_mset e (mset (entries (ns[h := ns ! t, t := None])))"
    using mset_entries_clear [of t "ns[h := ns ! t]" e] assms Some by simp
  ultimately show ?thesis by simp
qed

lemma distinct_fst_mset:
  "mset xs = mset ys \<Longrightarrow> distinct (map fst xs) = distinct (map fst ys)"
  by (metis mset_eq_imp_distinct_iff mset_map)

lemma map_of_mset:
  assumes "mset xs = mset ys" "distinct (map fst xs)"
  shows "map_of xs = map_of ys"
  using assms by (metis distinct_fst_mset map_of_inject_set set_mset_mset)

lemma distinct_entries_nth:
  assumes "distinct (map fst (entries ns))" "i < length ns" "j < length ns"
    "ns ! i = Some (k, v)" "ns ! j = Some (k, w)"
  shows "i = j"
proof (rule ccontr)
  have upd: "distinct (map fst ((k, v) # entries (ns[i := None])))"
    using distinct_fst_mset [of "entries ns" "(k, v) # entries (ns[i := None])"]
      mset_entries_clear [OF assms(2,4)] assms(1) by simp
  assume "i \<noteq> j"
  then have "(k, w) \<in> set (entries (ns[i := None]))"
    using assms by (auto simp: set_entries_nth)
  then show False using upd by force
qed

lemma node_map_nth:
  assumes "distinct (map fst (entries ns))"
  shows "node_map ns k = Some v \<longleftrightarrow> (\<exists>i<length ns. ns ! i = Some (k, v))"
  using assms by (simp add: node_map_def set_entries_nth)

lemma node_map_None: "node_map ns k = None \<longleftrightarrow> k \<notin> fst ` set (entries ns)"
  by (simp add: node_map_def map_of_eq_None_iff)

lemma node_map_set:
  assumes "i < length ns" "ns ! i = None" "distinct (map fst (entries ns))" "node_map ns k = None"
  shows "node_map (ns[i := Some (k, v)]) = (node_map ns)(k \<mapsto> v)"
    "distinct (map fst (entries (ns[i := Some (k, v)])))"
proof -
  have m: "mset (entries (ns[i := Some (k, v)])) = mset ((k, v) # entries ns)"
    using mset_entries_set [OF assms(1,2)] by simp
  show d: "distinct (map fst (entries (ns[i := Some (k, v)])))"
    using distinct_fst_mset [OF m] assms(3,4) by (auto simp: node_map_None)
  show "node_map (ns[i := Some (k, v)]) = (node_map ns)(k \<mapsto> v)"
    using map_of_mset [OF m d] by (simp add: node_map_def)
qed

lemma length_entries_set:
  "i < length ns \<Longrightarrow> ns ! i = None \<Longrightarrow> length (entries (ns[i := Some e])) = Suc (length (entries ns))"
  by (metis mset_entries_set size_add_mset size_mset)

lemma length_entries_less_empty:
  "length (entries ns) < length ns \<Longrightarrow> \<exists>e<length ns. ns ! e = None"
proof (induction ns)
  case (Cons x ns)
  show ?case
  proof (cases x)
    case (Some e)
    then obtain e where "e < length ns" "ns ! e = None" using Cons by auto
    then show ?thesis by (intro exI [of _ "Suc e"]) auto
  qed auto
qed simp

lemma entries_full: "list_all (\<lambda>x. x \<noteq> None) ns \<Longrightarrow> length (entries ns) = length ns"
  by (induction ns) auto

subsection \<open>Searching in the nodes\<close>

abbreviation home :: "('k \<Rightarrow> uint32) \<Rightarrow> 'a list \<Rightarrow> 'k \<Rightarrow> nat" where
  "home hash ns key \<equiv> calc_bucket hash (length ns - 1) key"

lemma home_less: "nodes_ok hash ns \<Longrightarrow> home hash ns key < length ns"
  using calc_bucket_less [of "length ns" hash key] by (simp add: nodes_ok_def)

lemma placedD:
  assumes "placed hash ns" "i < length ns" "ns ! i = Some (key, val)" "p < length ns"
    "dist (length ns) (home hash ns key) p < dist (length ns) (home hash ns key) i"
  shows "ns ! p \<noteq> None"
  using assms unfolding placed_def by blast

lemma nodes_okD:
  assumes "nodes_ok hash ns"
  shows "is_pow2 (length ns)" "length ns \<le> 2 ^ 29" "distinct (map fst (entries ns))" "placed hash ns"
  using assms by (auto simp: nodes_ok_def)

lemma probe_present:
  assumes ok: "nodes_ok hash ns" and i: "i < length ns" "ns ! i = Some (key, val)"
  shows "probe (stops_at key) ns (length ns - 1) (home hash ns key) = Some i"
proof (rule probe_finds [OF nodes_okD(1,2) [OF ok] refl i(1) _ home_less [OF ok]])
  show "stops_at key (ns ! i)" using i by (simp add: stops_at_def)
  fix p
  assume p: "p < length ns" "dist (length ns) (home hash ns key) p < dist (length ns) (home hash ns key) i"
  then have "ns ! p \<noteq> None" using placedD [OF nodes_okD(4) [OF ok] i] by blast
  moreover have "ns ! p \<noteq> Some (key, w)" for w
    using distinct_entries_nth [OF nodes_okD(3) [OF ok] p(1) i(1) _ i(2)] p by blast
  ultimately show "\<not> stops_at key (ns ! p)" by (auto simp: stops_at_def split: option.splits)
qed

lemma probe_absent:
  assumes ok: "nodes_ok hash ns" and e: "e < length ns" "ns ! e = None" and k: "node_map ns key = None"
  obtains f where "probe (stops_at key) ns (length ns - 1) (home hash ns key) = Some f"
    "f < length ns" "ns ! f = None"
    "\<And>p. p < length ns \<Longrightarrow> dist (length ns) (home hash ns key) p < dist (length ns) (home hash ns key) f
       \<Longrightarrow> ns ! p \<noteq> None"
proof (rule probe_stops [OF nodes_okD(1,2) [OF ok] refl e(1), of "stops_at key"])
  show "stops_at key (ns ! e)" using e by (simp add: stops_at_def)
  show "home hash ns key < length ns" using home_less [OF ok] .
  fix f
  assume f: "probe (stops_at key) ns (length ns - 1) (home hash ns key) = Some f" "f < length ns"
    "stops_at key (ns ! f)"
    "\<And>p. p < length ns \<Longrightarrow> dist (length ns) (home hash ns key) p < dist (length ns) (home hash ns key) f
       \<Longrightarrow> \<not> stops_at key (ns ! p)"
  have "(key, w) \<notin> set (entries ns)" for w using k by (force simp: node_map_None)
  then have "ns ! f \<noteq> Some (key, w)" for w using f(2) by (force simp: set_entries_nth)
  then have "ns ! f = None" using f(3) by (auto simp: stops_at_def split: option.splits)
  moreover have "ns ! p \<noteq> None" if "\<not> stops_at key (ns ! p)" for p
    using that by (cases "ns ! p") (auto simp: stops_at_def)
  ultimately show thesis using that f by blast
qed

lemma placed_set:
  assumes "placed hash ns" "f < length ns"
    "\<And>p. p < length ns \<Longrightarrow> dist (length ns) (home hash ns key) p < dist (length ns) (home hash ns key) f
       \<Longrightarrow> ns ! p \<noteq> None"
  shows "placed hash (ns[f := Some (key, val)])"
  using assms unfolding placed_def by (auto simp: nth_list_update)

lemma nodes_ok_set:
  assumes "nodes_ok hash ns" "f < length ns" "ns ! f = None" "node_map ns key = None"
    "\<And>p. p < length ns \<Longrightarrow> dist (length ns) (home hash ns key) p < dist (length ns) (home hash ns key) f
       \<Longrightarrow> ns ! p \<noteq> None"
  shows "nodes_ok hash (ns[f := Some (key, val)])"
  using assms placed_set [of hash ns f key val] node_map_set(2) [of f ns key val]
  by (simp add: nodes_ok_def)


subsection \<open>Shifting a run backwards\<close>

text \<open>The state of the two loops of \<^verbatim>\<open>erase_node\<close>: a hole \<open>h\<close>, the node
  \<open>t\<close> looked at next, and an empty node \<open>e\<close> behind the run. The nodes between the hole and
  \<open>t\<close> are used and their runs do not cross the hole; every other run is unbroken once the hole is
  filled.\<close>

definition shift_inv ::
  "('k \<Rightarrow> uint32) \<Rightarrow> nat \<Rightarrow> ('k, 'v) map_node list \<Rightarrow> nat \<Rightarrow> nat \<Rightarrow> bool" where
  "shift_inv hash e ns h t \<longleftrightarrow>
     (let n = length ns in
      is_pow2 n \<and> n \<le> 2 ^ 29 \<and> h < n \<and> t < n \<and> e < n \<and> h \<noteq> t \<and> e \<noteq> h \<and> ns ! h = None \<and> ns ! e = None \<and>
      (\<forall>p<n. 0 < dist n h p \<longrightarrow> dist n h p < dist n h t \<longrightarrow> ns ! p \<noteq> None) \<and>
      (\<forall>i<n. \<forall>key val. ns ! i = Some (key, val) \<longrightarrow>
         (\<forall>p<n. dist n (home hash ns key) p < dist n (home hash ns key) i \<longrightarrow> p \<noteq> h \<longrightarrow> ns ! p \<noteq> None)) \<and>
      (\<forall>i<n. \<forall>key val. ns ! i = Some (key, val) \<longrightarrow> 0 < dist n h i \<longrightarrow> dist n h i < dist n h t \<longrightarrow>
         dist n (home hash ns key) i \<le> dist n (home hash ns key) h))"

lemma shift_invD:
  assumes "shift_inv hash e ns h t"
  shows "is_pow2 (length ns)" "length ns \<le> 2 ^ 29" "h < length ns" "t < length ns" "e < length ns"
    "h \<noteq> t" "e \<noteq> h" "ns ! h = None" "ns ! e = None"
    "\<And>p. p < length ns \<Longrightarrow> 0 < dist (length ns) h p \<Longrightarrow> dist (length ns) h p < dist (length ns) h t \<Longrightarrow>
       ns ! p \<noteq> None"
    "\<And>i key val p. i < length ns \<Longrightarrow> ns ! i = Some (key, val) \<Longrightarrow> p < length ns \<Longrightarrow>
       dist (length ns) (home hash ns key) p < dist (length ns) (home hash ns key) i \<Longrightarrow> p \<noteq> h \<Longrightarrow>
       ns ! p \<noteq> None"
    "\<And>i key val. i < length ns \<Longrightarrow> ns ! i = Some (key, val) \<Longrightarrow> 0 < dist (length ns) h i \<Longrightarrow>
       dist (length ns) h i < dist (length ns) h t \<Longrightarrow>
       dist (length ns) (home hash ns key) i \<le> dist (length ns) (home hash ns key) h"
  using assms unfolding shift_inv_def Let_def by blast+

lemma shift_invI:
  assumes "is_pow2 (length ns)" "length ns \<le> 2 ^ 29" "h < length ns" "t < length ns" "e < length ns"
    "h \<noteq> t" "e \<noteq> h" "ns ! h = None" "ns ! e = None"
    "\<And>p. p < length ns \<Longrightarrow> 0 < dist (length ns) h p \<Longrightarrow> dist (length ns) h p < dist (length ns) h t \<Longrightarrow>
       ns ! p \<noteq> None"
    "\<And>i key val p. i < length ns \<Longrightarrow> ns ! i = Some (key, val) \<Longrightarrow> p < length ns \<Longrightarrow>
       dist (length ns) (home hash ns key) p < dist (length ns) (home hash ns key) i \<Longrightarrow> p \<noteq> h \<Longrightarrow>
       ns ! p \<noteq> None"
    "\<And>i key val. i < length ns \<Longrightarrow> ns ! i = Some (key, val) \<Longrightarrow> 0 < dist (length ns) h i \<Longrightarrow>
       dist (length ns) h i < dist (length ns) h t \<Longrightarrow>
       dist (length ns) (home hash ns key) i \<le> dist (length ns) (home hash ns key) h"
  shows "shift_inv hash e ns h t"
  unfolding shift_inv_def Let_def by (intro conjI allI impI; rule assms; assumption)

lemma shift_inv_home: "shift_inv hash e ns h t \<Longrightarrow> home hash ns key < length ns"
  by (rule calc_bucket_less) (rule shift_invD(1))

lemma dist_add:
  "w < n \<Longrightarrow> h < n \<Longrightarrow> i < n \<Longrightarrow> dist n w h \<le> dist n w i \<Longrightarrow> dist n w i = dist n w h + dist n h i"
  by (auto simp: dist_def split: if_splits)

lemma dist_pass:
  "w < n \<Longrightarrow> h < n \<Longrightarrow> t < n \<Longrightarrow> i < n \<Longrightarrow> dist n w h < dist n w i \<Longrightarrow> dist n h t < dist n h i \<Longrightarrow>
   dist n w t < dist n w i"
  by (auto simp: dist_def split: if_splits)

lemma dist_over:
  "w < n \<Longrightarrow> h < n \<Longrightarrow> t < n \<Longrightarrow> dist n h t \<le> dist n w t \<Longrightarrow> dist n w h \<le> dist n w t"
  by (auto simp: dist_def split: if_splits)

lemma dist_not_over:
  "w < n \<Longrightarrow> h < n \<Longrightarrow> t < n \<Longrightarrow> dist n w t < dist n h t \<Longrightarrow> dist n w t \<le> dist n w h"
  by (auto simp: dist_def split: if_splits)

lemma dist_step_right:
  "h < n \<Longrightarrow> t < n \<Longrightarrow> step n t \<noteq> h \<Longrightarrow> dist n h (step n t) = Suc (dist n h t)"
  by (auto simp: dist_def step_def split: if_splits)

lemma dist_before:
  "h < n \<Longrightarrow> t < n \<Longrightarrow> p < n \<Longrightarrow> step n t = h \<Longrightarrow> dist n h p \<le> dist n h t"
  by (auto simp: dist_def step_def split: if_splits)

lemma dist_shift:
  "h < n \<Longrightarrow> t < n \<Longrightarrow> e < n \<Longrightarrow> p < n \<Longrightarrow> dist n h t \<le> dist n h e \<Longrightarrow> dist n h e \<le> dist n h p \<Longrightarrow>
   dist n t e \<le> dist n t p"
  by (auto simp: dist_def split: if_splits)

text \<open>An empty node ends the loop with every run unbroken.\<close>

lemma shift_inv_done:
  assumes inv: "shift_inv hash e ns h t" and t: "ns ! t = None"
  shows "placed hash ns"
  unfolding placed_def
proof (intro allI impI)
  fix i key val p
  let ?n = "length ns" and ?w = "home hash ns key"
  note D = shift_invD [OF inv]
  assume i: "i < ?n" "ns ! i = Some (key, val)" and p: "p < ?n" "dist ?n ?w p < dist ?n ?w i"
  show "ns ! p \<noteq> None"
  proof (cases "p = h")
    case False
    then show ?thesis using D(11) i p by blast
  next
    case True
    have ne: "i \<noteq> h" "i \<noteq> t" using i t D(8) by auto
    have "\<not> dist ?n h i < dist ?n h t"
      using D(12) [OF i] dist_0_iff [OF D(3) i(1)] ne p True by (metis linorder_not_le not_gr_zero)
    moreover have "dist ?n h i \<noteq> dist ?n h t" using dist_inj [OF D(3) i(1) D(4)] ne by simp
    ultimately have "dist ?n h t < dist ?n h i" by simp
    then have "dist ?n ?w t < dist ?n ?w i"
      using dist_pass [OF shift_inv_home [OF inv] D(3,4) i(1)] p True by blast
    then have "ns ! t \<noteq> None" using D(11) [OF i D(4)] D(6) by blast
    then show ?thesis using t by simp
  qed
qed

lemma shift_inv_keep:
  assumes inv: "shift_inv hash e ns h t" and t: "ns ! t = Some (key, val)"
    and w: "dist (length ns) (home hash ns key) t < dist (length ns) h t"
  shows "shift_inv hash e ns h (step (length ns) t)"
proof -
  let ?n = "length ns"
  note D = shift_invD [OF inv]
  have ne: "step ?n t \<noteq> h"
  proof
    assume s: "step ?n t = h"
    have "dist ?n h e \<le> dist ?n h t" using dist_before [OF D(3,4,5) s] .
    moreover have "dist ?n h e \<noteq> dist ?n h t" using dist_inj [OF D(3,5,4)] D(9) t by auto
    moreover have "0 < dist ?n h e" using dist_0_iff [OF D(3,5)] D(7) by simp
    ultimately show False using D(10) [OF D(5)] D(9) by simp
  qed
  have lt: "dist ?n h p < dist ?n h (step ?n t) \<longleftrightarrow> dist ?n h p < dist ?n h t \<or> p = t" if "p < ?n" for p
    using dist_step_right [OF D(3,4) ne] dist_inj [OF D(3) that D(4)] by auto
  have C: "dist ?n (home hash ns key') i \<le> dist ?n (home hash ns key') h"
    if "i < ?n" "ns ! i = Some (key', val')" "0 < dist ?n h i" "dist ?n h i < dist ?n h (step ?n t)"
    for i key' val'
  proof (cases "i = t")
    case True
    then show ?thesis using dist_not_over [OF shift_inv_home [OF inv] D(3,4) w] t that(2) by simp
  qed (use that lt D(12) in blast)
  show ?thesis
  proof (rule shift_invI)
    show "ns ! p \<noteq> None" if "p < ?n" "0 < dist ?n h p" "dist ?n h p < dist ?n h (step ?n t)" for p
      using that lt D(10) t by (cases "p = t") auto
  qed (use D(1-3,5,7-9,11) step_less [OF D(4)] ne C in auto)
qed

lemma shift_inv_move:
  assumes inv: "shift_inv hash e ns h t" and t: "ns ! t = Some (key, val)"
    and w: "dist (length ns) h t \<le> dist (length ns) (home hash ns key) t"
  shows "shift_inv hash e (ns[h := ns ! t, t := None]) t (step (length ns) t)"
proof -
  let ?n = "length ns" and ?ns' = "ns[h := ns ! t, t := None]"
  note D = shift_invD [OF inv]
  have one: "dist ?n t (step ?n t) = 1" "step ?n t \<noteq> t"
    using D(3,4,6) by (auto simp: dist_def step_def split: if_splits)
  have e: "e \<noteq> t" "?ns' ! e = None" using D t by (auto simp: nth_list_update)
  have B: "?ns' ! p \<noteq> None"
    if i: "i < ?n" "?ns' ! i = Some (key', val')" and p: "p < ?n"
      "dist ?n (home hash ns key') p < dist ?n (home hash ns key') i" "p \<noteq> t" for i key' val' p
  proof (cases "p = h")
    case True
    then show ?thesis using D(3,4,6) t by simp
  next
    case False
    have "i \<noteq> t" using i by auto
    have "ns ! p \<noteq> None"
    proof (cases "i = h")
      case True
      then have "key' = key" using i t D(3,4,6) by simp
      moreover have "dist ?n (home hash ns key) h \<le> dist ?n (home hash ns key) t"
        using dist_over [OF shift_inv_home [OF inv] D(3,4) w] .
      ultimately show ?thesis using D(11) [OF D(4) t p(1)] False p True by simp
    next
      case False
      then show ?thesis using D(11) [of i key' val' p] i p \<open>i \<noteq> t\<close> \<open>p \<noteq> h\<close> by simp
    qed
    then show ?thesis using False p by simp
  qed
  show ?thesis
    unfolding shift_inv_def Let_def
    using D(1-6) step_less [OF D(4)] one e B by simp
qed


text \<open>What the loops leave alone: the entries, and every node from \<open>e\<close> on up to the hole.\<close>

definition shifted :: "nat \<Rightarrow> nat \<Rightarrow> ('k, 'v) map_node list \<Rightarrow> ('k, 'v) map_node list \<Rightarrow> bool" where
  "shifted h e ns ns' \<longleftrightarrow>
     length ns' = length ns \<and> mset (entries ns') = mset (entries ns) \<and>
     (\<forall>p<length ns. dist (length ns) h e \<le> dist (length ns) h p \<longrightarrow> ns' ! p = ns ! p)"

lemma shifted_refl [simp]: "shifted h e ns ns"
  by (simp add: shifted_def)

lemma shift_inv_between:
  assumes inv: "shift_inv hash e ns h t"
  shows "dist (length ns) h t \<le> dist (length ns) h e"
proof (rule ccontr)
  note D = shift_invD [OF inv]
  assume "\<not> ?thesis"
  moreover have "0 < dist (length ns) h e" using dist_0_iff [OF D(3,5)] D(7) by simp
  ultimately show False using D(10) [OF D(5)] D(9) by simp
qed

lemma shift_inv_dist:
  assumes "shift_inv hash e ns h t" "p < length ns" "dist (length ns) h e \<le> dist (length ns) h p"
  shows "dist (length ns) t e \<le> dist (length ns) t p"
  using dist_shift [OF shift_invD(3-5) [OF assms(1)] assms(2) shift_inv_between [OF assms(1)] assms(3)] .

lemma shifted_move:
  assumes inv: "shift_inv hash e ns h t" and t: "ns ! t = Some x"
    and sh: "shifted t e (ns[h := ns ! t, t := None]) ns'"
  shows "shifted h e ns ns'"
  unfolding shifted_def
proof (intro conjI allI impI)
  note D = shift_invD [OF inv]
  show "length ns' = length ns" using sh by (simp add: shifted_def)
  show "mset (entries ns') = mset (entries ns)"
    using sh mset_entries_move [OF D(3,4,6,8)] by (simp add: shifted_def)
  fix p
  assume p: "p < length ns" "dist (length ns) h e \<le> dist (length ns) h p"
  have "0 < dist (length ns) h e" using dist_0_iff [OF D(3,5)] D(7) by simp
  then have "p \<noteq> h" using p by auto
  have "dist (length ns) h t \<noteq> dist (length ns) h e" using dist_inj [OF D(3,4,5)] t D(9) by auto
  then have "p \<noteq> t" using p shift_inv_between [OF inv] by auto
  then show "ns' ! p = ns ! p"
    using sh p \<open>p \<noteq> h\<close> shift_inv_dist [OF inv p] by (simp add: shifted_def)
qed

lemma shift_to_end_spec:
  assumes "shift_inv hash e ns h (if t = length ns then 0 else t)" "h < t" "t \<le> length ns"
  shows "\<exists>ns' r. shift_to_end hash (length ns - 1) (length ns) ns h t = Some (ns', r) \<and> shifted h e ns ns' \<and>
           (case r of
              None \<Rightarrow> placed hash ns'
            | Some h' \<Rightarrow> shift_inv hash e ns' h' 0 \<and>
                (\<forall>p<length ns. dist (length ns) h e \<le> dist (length ns) h p \<longrightarrow>
                   dist (length ns) h' e \<le> dist (length ns) h' p))"
  using assms
proof (induction "length ns - t" arbitrary: ns h t)
  case 0
  then show ?case by (auto simp: shift_to_end.simps intro!: exI [of _ ns] exI [of _ "Some h"])
next
  case (Suc d)
  let ?n = "length ns"
  have t: "t < ?n" "t \<noteq> ?n" using Suc.hyps(2) by auto
  have inv: "shift_inv hash e ns h t" using Suc.prems t by simp
  have st: "step ?n t = (if t + 1 = ?n then 0 else t + 1)" by (simp add: step_def)
  show ?case
  proof (cases "ns ! t")
    case None
    then have "shift_to_end hash (?n - 1) ?n ns h t = Some (ns, None)"
      using t by (subst shift_to_end.simps) simp
    then show ?thesis using shift_inv_done [OF inv None] by simp
  next
    case (Some x)
    then obtain key val where x: "ns ! t = Some (key, val)" by (cases x) auto
    have w: "home hash ns key \<le> h \<or> home hash ns key > t \<longleftrightarrow> dist ?n h t \<le> dist ?n (home hash ns key) t"
      using shift_inv_home [OF inv, of key] t Suc.prems(2) by (auto simp: dist_def)
    show ?thesis
    proof (cases "dist ?n h t \<le> dist ?n (home hash ns key) t")
      case True
      let ?ns1 = "ns[h := ns ! t, t := None]"
      have d: "d = ?n - (t + 1)" "t < t + 1" "t + 1 \<le> ?n" using Suc.hyps(2) t by auto
      have inv1: "shift_inv hash e ?ns1 t (if t + 1 = ?n then 0 else t + 1)"
        using shift_inv_move [OF inv x True] st by simp
      then obtain ns' r where r: "shift_to_end hash (?n - 1) ?n ?ns1 t (t + 1) = Some (ns', r)"
        "shifted t e ?ns1 ns'"
        "case r of None \<Rightarrow> placed hash ns'
         | Some h' \<Rightarrow> shift_inv hash e ns' h' 0 \<and>
             (\<forall>p<?n. dist ?n t e \<le> dist ?n t p \<longrightarrow> dist ?n h' e \<le> dist ?n h' p)"
        using Suc.hyps(1) [of ?ns1 "t + 1" t, unfolded length_list_update, OF d(1) inv1 d(2,3)] by blast
      have "shift_to_end hash (?n - 1) ?n ns h t = Some (ns', r)"
        using t x r(1) w True by (subst shift_to_end.simps) (simp add: Let_def)
      moreover have "shifted h e ns ns'" using shifted_move [OF inv x r(2)] .
      moreover have "case r of None \<Rightarrow> placed hash ns'
         | Some h' \<Rightarrow> shift_inv hash e ns' h' 0 \<and>
             (\<forall>p<?n. dist ?n h e \<le> dist ?n h p \<longrightarrow> dist ?n h' e \<le> dist ?n h' p)"
        using r(3) shift_inv_dist [OF inv] by (auto split: option.splits)
      ultimately show ?thesis by blast
    next
      case False
      have "shift_inv hash e ns h (if t + 1 = ?n then 0 else t + 1)"
        using shift_inv_keep [OF inv x] False st by simp
      moreover have "shift_to_end hash (?n - 1) ?n ns h t = shift_to_end hash (?n - 1) ?n ns h (t + 1)"
        using t x w False by (subst shift_to_end.simps) (simp add: Let_def)
      ultimately show ?thesis
        using Suc.hyps(1) [of ns "t + 1" h] Suc.hyps(2) Suc.prems(2) t by simp
    qed
  qed
qed

lemma shift_wrapped_spec:
  assumes "shift_inv hash e ns h t" "t \<le> e" "h' = h \<and> t < h \<or> h' = h + length ns \<and> h < t"
  shows "\<exists>ns'. shift_wrapped hash (length ns - 1) (length ns) ns h' h (length ns + t) = Some ns' \<and>
           shifted h e ns ns' \<and> placed hash ns'"
  using assms
proof (induction "e - t" arbitrary: ns h t h' rule: less_induct)
  case less
  let ?n = "length ns"
  note inv = less.prems(1)
  note D = shift_invD [OF inv]
  note U = shift_wrapped.simps [of hash "?n - 1" ?n]
  show ?case
  proof (cases "ns ! t")
    case None
    then show ?thesis using shift_inv_done [OF inv] D(4) by (subst U) simp
  next
    case (Some x)
    then obtain key val where x: "ns ! t = Some (key, val)" by (cases x) auto
    let ?w = "home hash ns key"
    define w' where "w' = (if ?w < h' then u32 (?w + ?n) else ?w)"
    have wn: "?w < ?n" using shift_inv_home [OF inv] .
    have "u32 (?w + ?n) = ?w + ?n" using wn D(2) by simp
    then have w: "w' \<le> h' \<or> w' > ?n + t \<longleftrightarrow> dist ?n h t \<le> dist ?n ?w t"
      using wn less.prems(3) D(3,4) by (auto simp: w'_def dist_def)
    have eq: "shift_wrapped hash (?n - 1) ?n ns h' h (?n + t) =
        (if w' \<le> h' \<or> w' > ?n + t
         then shift_wrapped hash (?n - 1) ?n (ns[h := ns ! t, t := None]) (?n + t) t (?n + (t + 1))
         else shift_wrapped hash (?n - 1) ?n ns h' h (?n + (t + 1)))"
      using D(4) x by (subst U) (simp add: Let_def w'_def)
    have "t \<noteq> e" using D(9) x by auto
    then have te: "t + 1 \<le> e" "e - (t + 1) < e - t" using less.prems(2) by auto
    then have st: "step ?n t = t + 1" using D(5) by (simp add: step_def)
    show ?thesis
    proof (cases "dist ?n h t \<le> dist ?n ?w t")
      case True
      let ?ns1 = "ns[h := ns ! t, t := None]"
      have inv1: "shift_inv hash e ?ns1 t (t + 1)"
        using shift_inv_move [OF inv x True] st by simp
      then obtain ns' where r: "shift_wrapped hash (?n - 1) ?n ?ns1 (t + ?n) t (?n + (t + 1)) = Some ns'"
        "shifted t e ?ns1 ns'" "placed hash ns'"
        using less.hyps [OF te(2) inv1 te(1), of "t + ?n"] by auto
      have "shift_wrapped hash (?n - 1) ?n ns h' h (?n + t) = Some ns'"
        using r(1) w True unfolding eq by (simp add: add.commute)
      then show ?thesis using r(3) shifted_move [OF inv x r(2)] by blast
    next
      case False
      have inv1: "shift_inv hash e ns h (t + 1)"
        using shift_inv_keep [OF inv x] False st by simp
      then have "t + 1 \<noteq> h" using shift_invD(6) by blast
      then have "h' = h \<and> t + 1 < h \<or> h' = h + ?n \<and> h < t + 1" using less.prems(3) by auto
      moreover have "shift_wrapped hash (?n - 1) ?n ns h' h (?n + t) =
          shift_wrapped hash (?n - 1) ?n ns h' h (?n + (t + 1))"
        using w False unfolding eq by simp
      ultimately show ?thesis using less.hyps [OF te(2) inv1 te(1)] by simp
    qed
  qed
qed


lemma erase_nodes_spec:
  assumes ok: "nodes_ok hash ns" and i: "i < length ns" "ns ! i = Some x" and e: "e < length ns" "ns ! e = None"
  obtains ns' where "erase_nodes hash (length ns - 1) (length ns) ns i = Some ns'" "nodes_ok hash ns'"
    "length ns' = length ns" "mset (entries ns) = add_mset x (mset (entries ns'))"
    "\<And>p. p < length ns \<Longrightarrow> dist (length ns) i e \<le> dist (length ns) i p \<Longrightarrow> ns' ! p = ns ! p"
proof -
  let ?n = "length ns" and ?ns0 = "ns[i := None]"
  note res = that
  note N = nodes_okD [OF ok]
  have ne: "e \<noteq> i" using i e by auto
  have one: "dist ?n i (step ?n i) = 1" "step ?n i \<noteq> i"
    using i(1) e(1) ne by (auto simp: dist_def step_def split: if_splits)
  have inv: "shift_inv hash e ?ns0 i (step ?n i)"
  proof (rule shift_invI)
    fix j key val p
    assume "j < length ?ns0" "?ns0 ! j = Some (key, val)" "p < length ?ns0" "p \<noteq> i"
      "dist (length ?ns0) (home hash ?ns0 key) p < dist (length ?ns0) (home hash ?ns0 key) j"
    then show "?ns0 ! p \<noteq> None"
      using placedD [OF N(4), of j key val p] i(1) by (cases "j = i") auto
  qed (use N(1,2) i e ne one step_less in auto)
  have mset0: "mset (entries ns) = add_mset x (mset (entries ?ns0))" using mset_entries_clear [OF i] .
  have dist0: "0 < dist ?n i e" using dist_0_iff [OF i(1) e(1)] ne by simp
  have fin: thesis
    if r: "erase_nodes hash (?n - 1) ?n ns i = Some ns'" and pl: "placed hash ns'"
      and len: "length ns' = ?n" and ms: "mset (entries ns') = mset (entries ?ns0)"
      and fr: "\<And>p. p < ?n \<Longrightarrow> dist ?n i e \<le> dist ?n i p \<Longrightarrow> ns' ! p = ?ns0 ! p" for ns'
  proof (rule res [OF r])
    have "distinct (map fst (entries ?ns0))"
      using distinct_fst_mset [of "entries ns" "x # entries ?ns0"] mset0 N(3) by simp
    then show "nodes_ok hash ns'"
      using N(1,2) len pl distinct_fst_mset [OF ms] by (simp add: nodes_ok_def)
    show "mset (entries ns) = add_mset x (mset (entries ns'))" using mset0 ms by simp
    show "ns' ! p = ns ! p" if "p < ?n" "dist ?n i e \<le> dist ?n i p" for p
      using fr [OF that] that dist0 by (cases "p = i") auto
  qed (use len in simp)
  have "\<exists>ns' r. shift_to_end hash (?n - 1) ?n ?ns0 i (i + 1) = Some (ns', r) \<and> shifted i e ?ns0 ns' \<and>
           (case r of
              None \<Rightarrow> placed hash ns'
            | Some h' \<Rightarrow> shift_inv hash e ns' h' 0 \<and>
                (\<forall>p<?n. dist ?n i e \<le> dist ?n i p \<longrightarrow> dist ?n h' e \<le> dist ?n h' p))"
    using shift_to_end_spec [of hash e ?ns0 i "i + 1", unfolded length_list_update, folded step_def, OF inv]
      i(1) by simp
  then obtain ns1 r where r: "shift_to_end hash (?n - 1) ?n ?ns0 i (i + 1) = Some (ns1, r)"
    and sh: "shifted i e ?ns0 ns1"
    and c: "case r of None \<Rightarrow> placed hash ns1
       | Some h' \<Rightarrow> shift_inv hash e ns1 h' 0 \<and>
           (\<forall>p<?n. dist ?n i e \<le> dist ?n i p \<longrightarrow> dist ?n h' e \<le> dist ?n h' p)"
    by blast
  have len1: "length ns1 = ?n" using sh by (simp add: shifted_def)
  show thesis
  proof (cases r)
    case None
    then show thesis
      using fin [of ns1] r sh c by (simp add: erase_nodes_def shifted_def)
  next
    case (Some h)
    then have inv1: "shift_inv hash e ns1 h 0" using c by simp
    then have "0 < h" using shift_invD(6) by blast
    then obtain ns' where w: "shift_wrapped hash (?n - 1) ?n ns1 h h ?n = Some ns'"
      "shifted h e ns1 ns'" "placed hash ns'"
      using shift_wrapped_spec [OF inv1, of h] len1 by auto
    show thesis
    proof (rule fin)
      show "erase_nodes hash (?n - 1) ?n ns i = Some ns'" using r w(1) Some by (simp add: erase_nodes_def)
      show "ns' ! p = ?ns0 ! p" if "p < ?n" "dist ?n i e \<le> dist ?n i p" for p
        using that c Some w(2) sh len1 by (simp add: shifted_def)
    qed (use w sh len1 in \<open>simp_all add: shifted_def\<close>)
  qed
qed

subsection \<open>Filling the nodes\<close>

lemma nodes_ok_room: "nodes_ok hash ns \<Longrightarrow> length (entries ns) < length ns \<Longrightarrow> \<exists>e<length ns. ns ! e = None"
  by (rule length_entries_less_empty)

lemma nodes_ok_replicate: "is_pow2 n \<Longrightarrow> n \<le> 2 ^ 29 \<Longrightarrow> nodes_ok hash (replicate n None)"
  by (simp add: nodes_ok_def placed_def)

lemma probe_empty:
  assumes ok: "nodes_ok hash ns" and e: "e < length ns" "ns ! e = None"
  obtains f where "probe (\<lambda>node. node = None) ns (length ns - 1) (home hash ns key) = Some f"
    "f < length ns" "ns ! f = None"
    "\<And>p. p < length ns \<Longrightarrow> dist (length ns) (home hash ns key) p < dist (length ns) (home hash ns key) f
       \<Longrightarrow> ns ! p \<noteq> None"
  using probe_stops [OF nodes_okD(1,2) [OF ok] refl e(1), of "\<lambda>node. node = None", OF e(2) home_less [OF ok]]
  by blast

lemma move_nodes_spec:
  assumes "nodes_ok hash ns" "distinct (map fst (entries old))"
    "fst ` set (entries old) \<inter> fst ` set (entries ns) = {}"
    "length (entries old) + length (entries ns) \<le> length ns"
  shows "\<exists>ns'. move_nodes hash (length ns - 1) old ns = Some ns' \<and> nodes_ok hash ns' \<and>
           length ns' = length ns \<and> mset (entries ns') = mset (entries old) + mset (entries ns)"
  using assms
proof (induction hash "length ns - 1" old ns rule: move_nodes.induct)
  case (3 hash key val old ns)
  obtain e where e: "e < length ns" "ns ! e = None"
    using nodes_ok_room [OF "3.prems"(1)] "3.prems"(4) by auto
  obtain f where f: "probe (\<lambda>node. node = None) ns (length ns - 1) (home hash ns key) = Some f"
    "f < length ns" "ns ! f = None"
    "\<And>p. p < length ns \<Longrightarrow> dist (length ns) (home hash ns key) p < dist (length ns) (home hash ns key) f
       \<Longrightarrow> ns ! p \<noteq> None"
    using probe_empty [OF "3.prems"(1) e] by blast
  let ?ns1 = "ns[f := Some (key, val)]"
  have nk: "node_map ns key = None" using "3.prems"(3) by (auto simp: node_map_None)
  have m1: "mset (entries ?ns1) = add_mset (key, val) (mset (entries ns))"
    using mset_entries_set [OF f(2,3)] .
  then have s1: "set (entries ?ns1) = insert (key, val) (set (entries ns))"
    by (metis set_mset_add_mset_insert set_mset_mset)
  have "\<exists>ns'. move_nodes hash (length ?ns1 - 1) old ?ns1 = Some ns' \<and> nodes_ok hash ns' \<and>
           length ns' = length ?ns1 \<and> mset (entries ns') = mset (entries old) + mset (entries ?ns1)"
  proof (rule "3.hyps" [OF f(1)])
    show "nodes_ok hash ?ns1" using nodes_ok_set [OF "3.prems"(1) f(2,3) nk f(4)] by blast
    show "fst ` set (entries old) \<inter> fst ` set (entries ?ns1) = {}"
      using "3.prems"(2,3) by (auto simp: s1)
    show "length (entries old) + length (entries ?ns1) \<le> length ?ns1"
      using length_entries_set [OF f(2,3)] "3.prems"(4) by simp
  qed (use "3.prems"(2) in simp_all)
  then show ?case using f(1) m1 by simp
qed auto


subsection \<open>The invariant of a table\<close>

definition used_ok :: "nat \<Rightarrow> nat \<Rightarrow> bool" where
  "used_ok used n \<longleftrightarrow> 5 * used < 3 * n + 2"

definition table_core_ok :: "nat \<Rightarrow> ('k \<Rightarrow> uint32) \<Rightarrow> 'k \<Rightarrow> ('k, 'v) flat_table \<Rightarrow> bool" where
  "table_core_ok sz hash k0 t \<longleftrightarrow>
     (case nodes t of
        None \<Rightarrow> used_node_count t = 0 \<and> bucket_count_mask t = 0 \<and> bucket_count t = 0
      | Some ns \<Rightarrow>
          nodes_ok hash ns \<and> 8 \<le> length ns \<and> length ns \<le> max_buckets sz \<and>
          bucket_count t = length ns \<and> bucket_count_mask t = length ns - 1 \<and>
          used_node_count t = length (entries ns) \<and> used_ok (length (entries ns)) (length ns) \<and>
          k0 \<notin> fst ` set (entries ns))"

definition table_ok :: "nat \<Rightarrow> ('k \<Rightarrow> uint32) \<Rightarrow> 'k \<Rightarrow> ('k, 'v) flat_table \<Rightarrow> bool" where
  "table_ok sz hash k0 t \<longleftrightarrow>
     table_core_ok sz hash k0 t \<and>
     (case nodes t of
        None \<Rightarrow> True
      | Some ns \<Rightarrow> begin_bucket t = INVALID_BUCKET \<or>
                   begin_bucket t < length ns \<and> ns ! begin_bucket t \<noteq> None)"

definition table_map :: "('k, 'v) flat_table \<Rightarrow> 'k \<rightharpoonup> 'v" where
  "table_map t = (case nodes t of None \<Rightarrow> Map.empty | Some ns \<Rightarrow> node_map ns)"

lemma table_map_Some: "nodes t = Some ns \<Longrightarrow> table_map t = node_map ns"
  by (simp add: table_map_def)

lemma table_map_None: "nodes t = None \<Longrightarrow> table_map t = Map.empty"
  by (simp add: table_map_def)

lemma core_SomeD:
  assumes "table_core_ok sz hash k0 t" "nodes t = Some ns"
  shows "nodes_ok hash ns" "8 \<le> length ns" "length ns \<le> max_buckets sz" "bucket_count t = length ns"
    "bucket_count_mask t = length ns - 1" "used_node_count t = length (entries ns)"
    "used_ok (length (entries ns)) (length ns)" "k0 \<notin> fst ` set (entries ns)"
  using assms by (simp_all add: table_core_ok_def)

lemma core_NoneD:
  assumes "table_core_ok sz hash k0 t" "nodes t = None"
  shows "used_node_count t = 0" "bucket_count_mask t = 0" "bucket_count t = 0"
  using assms by (simp_all add: table_core_ok_def)

lemma core_of_ok: "table_ok sz hash k0 t \<Longrightarrow> table_core_ok sz hash k0 t"
  by (simp add: table_ok_def)

lemma table_ok_empty [simp]: "table_ok sz hash k0 empty_table"
  by (simp add: table_ok_def table_core_ok_def empty_table_def)

lemma used_ok_less: "used_ok used n \<Longrightarrow> 8 \<le> n \<Longrightarrow> used < n"
  by (simp add: used_ok_def)

lemma core_room:
  assumes "table_core_ok sz hash k0 t" "nodes t = Some ns"
  obtains e where "e < length ns" "ns ! e = None"
  using nodes_ok_room [OF core_SomeD(1) [OF assms]] used_ok_less core_SomeD(2,7) [OF assms] by blast

lemma core_finite: "table_core_ok sz hash k0 t \<Longrightarrow> nodes t = Some ns \<Longrightarrow> length ns \<le> 2 ^ 29"
  by (rule nodes_okD(2) [OF core_SomeD(1)])

lemma table_find_impl:
  assumes ok: "table_core_ok sz hash k0 t"
  shows "case table_map t key of
           None \<Rightarrow> find_impl hash k0 t key = Some None
         | Some val \<Rightarrow> \<exists>ns i. nodes t = Some ns \<and> find_impl hash k0 t key = Some (Some i) \<and>
             i < length ns \<and> ns ! i = Some (key, val)"
proof (cases "nodes t")
  case None
  then show ?thesis by (simp add: table_map_None find_impl_def)
next
  case (Some ns)
  note C = core_SomeD [OF ok Some]
  note N = nodes_okD [OF C(1)]
  show ?thesis
  proof (cases "node_map ns key")
    case (Some val)
    then obtain i where i: "i < length ns" "ns ! i = Some (key, val)"
      using node_map_nth [OF N(3)] by blast
    have "key \<noteq> k0" using Some C(8) by (metis node_map_None option.distinct(1))
    then have "find_impl hash k0 t key = Some (Some i)"
      using probe_present [OF C(1) i] \<open>nodes t = Some ns\<close> C(5) i by (simp add: find_impl_def)
    then show ?thesis using i Some \<open>nodes t = Some ns\<close> by (simp add: table_map_Some)
  next
    case None
    obtain e where e: "e < length ns" "ns ! e = None" using core_room [OF ok \<open>nodes t = Some ns\<close>] .
    obtain f where "probe (stops_at key) ns (length ns - 1) (home hash ns key) = Some f" "ns ! f = None"
      by (rule probe_absent [OF C(1) e None])
    then have "find_impl hash k0 t key = Some None"
      using \<open>nodes t = Some ns\<close> C(5) by (simp add: find_impl_def)
    then show ?thesis using None \<open>nodes t = Some ns\<close> by (simp add: table_map_Some)
  qed
qed

lemma table_find_map: "table_core_ok sz hash k0 t \<Longrightarrow> table_find hash k0 t key = Some (table_map t key)"
  using table_find_impl [of sz hash k0 t key] by (auto simp: table_find_def split: option.splits)

lemma table_resize_spec:
  assumes ok: "table_core_ok sz hash k0 t"
    and n: "is_pow2 n" "8 \<le> n" "n \<le> max_buckets sz" "used_ok (used_node_count t) n"
  obtains t' where "table_resize sz hash n t = Some t'" "table_ok sz hash k0 t'"
    "table_map t' = table_map t" "used_node_count t' = used_node_count t" "bucket_count t' = n"
    "nodes t' \<noteq> None" "begin_bucket t' = INVALID_BUCKET"
proof -
  have n29: "n \<le> 2 ^ 29" using n(3) by (simp add: max_buckets_def)
  let ?t1 = "t\<lparr>nodes := Some (replicate n None), bucket_count_mask := n - 1, bucket_count := n,
               begin_bucket := INVALID_BUCKET\<rparr>"
  have a: "allocate_nodes sz n t = Some ?t1"
    using n is_pow2_dcheck [OF n(1)] by (simp add: allocate_nodes_def)
  have ok0: "nodes_ok hash (replicate n (None :: ('a, 'b) map_node))"
    using nodes_ok_replicate [OF n(1) n29] .
  show thesis
  proof (cases "nodes t")
    case None
    note C = core_NoneD [OF ok None]
    show thesis
    proof (rule that)
      show "table_resize sz hash n t = Some (?t1\<lparr>used_node_count := 0\<rparr>)"
        using None a by (simp add: table_resize_def)
      show "table_ok sz hash k0 (?t1\<lparr>used_node_count := 0\<rparr>)"
        using ok0 n by (simp add: table_ok_def table_core_ok_def used_ok_def)
      show "table_map (?t1\<lparr>used_node_count := 0\<rparr>) = table_map t"
        using None by (simp add: table_map_def node_map_def)
    qed (use C in simp_all)
  next
    case (Some ns)
    note C = core_SomeD [OF ok Some]
    have "length (entries ns) < n" using used_ok_less n(2,4) C(6) by simp
    then obtain ns' where ns': "move_nodes hash (n - 1) ns (replicate n None) = Some ns'" "nodes_ok hash ns'"
      "length ns' = n" "mset (entries ns') = mset (entries ns)"
      using move_nodes_spec [OF ok0, of ns] nodes_okD(3) [OF C(1)] by auto
    have len: "length (entries ns') = length (entries ns)" using ns'(4) by (metis size_mset)
    let ?t2 = "?t1\<lparr>nodes := Some ns'\<rparr>"
    show thesis
    proof (rule that)
      show "table_resize sz hash n t = Some ?t2"
        using Some a ns'(1) C(4) by (simp add: table_resize_def)
      show "table_ok sz hash k0 ?t2"
        using ns'(2,3) n C(6,8) len mset_eq_setD [OF ns'(4)] by (simp add: table_ok_def table_core_ok_def)
      show "table_map ?t2 = table_map t"
        using map_of_mset [OF ns'(4) nodes_okD(3) [OF ns'(2)]] Some by (simp add: table_map_def node_map_def)
    qed simp_all
  qed
qed


subsection \<open>Insertion refines the update of a map\<close>

lemma core_u32:
  assumes "table_core_ok sz hash k0 t" "nodes t = Some ns"
  shows "u32 (used_node_count t * 5) = used_node_count t * 5"
    "u32 (bucket_count_mask t * 3) = bucket_count_mask t * 3"
    "u32 (2 * bucket_count t) = 2 * bucket_count t" "bucket_count_mask t \<noteq> 0"
proof -
  have "used_node_count t < length ns" "length ns \<le> 536870912"
    using core_finite [OF assms] used_ok_less core_SomeD [OF assms] by simp_all
  then show "u32 (used_node_count t * 5) = used_node_count t * 5"
    "u32 (bucket_count_mask t * 3) = bucket_count_mask t * 3"
    "u32 (2 * bucket_count t) = 2 * bucket_count t" "bucket_count_mask t \<noteq> 0"
    using core_SomeD(2,4,5) [OF assms] by simp_all
qed

lemma emplace_present:
  assumes ok: "table_core_ok sz hash k0 t" and ns: "nodes t = Some ns" and key: "table_map t key = Some v"
  obtains i where "table_emplace sz hash k0 t key val = Some (t, i, False)" "i < length ns" "ns ! i = Some (key, v)"
proof -
  note C = core_SomeD [OF ok ns]
  obtain i where i: "i < length ns" "ns ! i = Some (key, v)"
    using node_map_nth [OF nodes_okD(3) [OF C(1)]] key ns by (auto simp: table_map_Some)
  have "key \<noteq> k0" using key C(8) ns by (metis node_map_None option.distinct(1) table_map_Some)
  then have "table_emplace sz hash k0 t key val = Some (t, i, False)"
    using probe_present [OF C(1) i] C(5) ns i core_u32(4) [OF ok ns]
    by (subst table_emplace.simps) simp
  then show thesis using that i by blast
qed

lemma emplace_fresh:
  assumes ok: "table_core_ok sz hash k0 t" and ns: "nodes t = Some ns" and key: "table_map t key = None"
    and k0: "key \<noteq> k0" and room: "used_node_count t * 5 < bucket_count_mask t * 3"
  obtains t' b ns' where "table_emplace sz hash k0 t key val = Some (t', b, True)" "table_ok sz hash k0 t'"
    "nodes t' = Some ns'" "b < length ns'" "ns' ! b = Some (key, val)"
    "table_map t' = (table_map t)(key \<mapsto> val)" "used_node_count t' = Suc (used_node_count t)"
proof -
  note C = core_SomeD [OF ok ns]
  have nk: "node_map ns key = None" using key ns by (simp add: table_map_Some)
  obtain e where e: "e < length ns" "ns ! e = None" using core_room [OF ok ns] .
  obtain f where f: "probe (stops_at key) ns (length ns - 1) (home hash ns key) = Some f"
    "f < length ns" "ns ! f = None"
    "\<And>p. p < length ns \<Longrightarrow> dist (length ns) (home hash ns key) p < dist (length ns) (home hash ns key) f
       \<Longrightarrow> ns ! p \<noteq> None"
    using probe_absent [OF C(1) e nk] by blast
  let ?ns' = "ns[f := Some (key, val)]"
  let ?t' = "(invalidate_iterators t)\<lparr>nodes := Some ?ns', used_node_count := used_node_count t + 1\<rparr>"
  have len: "length (entries ?ns') = Suc (length (entries ns))" by (rule length_entries_set [OF f(2,3)])
  have "fst ` set (entries ?ns') = insert key (fst ` set (entries ns))"
    using mset_eq_setD [of "entries ?ns'" "(key, val) # entries ns"] mset_entries_set [OF f(2,3)] by simp
  moreover have "used_ok (Suc (length (entries ns))) (length ns)"
    using room C(2,5,6) by (simp add: used_ok_def)
  ultimately have ok': "table_ok sz hash k0 ?t'"
    using nodes_ok_set [OF C(1) f(2,3) nk f(4)] C k0 len
    by (simp add: table_ok_def table_core_ok_def invalidate_iterators_def)
  have "table_emplace sz hash k0 t key val = Some (?t', f, True)"
    using f k0 C(5) ns room core_u32 [OF ok ns] by (subst table_emplace.simps) simp
  then show thesis
    using that [OF _ ok'] f(2) node_map_set(1) [OF f(2,3) nodes_okD(3) [OF C(1)] nk] ns
    by (simp add: table_map_def)
qed

lemma emplace_resizes:
  assumes ok: "table_core_ok sz hash k0 t" and ns: "nodes t = Some ns" and key: "table_map t key = None"
    and k0: "key \<noteq> k0" and full: "bucket_count_mask t * 3 \<le> used_node_count t * 5"
    and r: "table_resize sz hash (2 * bucket_count t) t = Some t'"
    and room: "used_node_count t' * 5 < bucket_count_mask t' * 3"
    and ok': "table_core_ok sz hash k0 t'" "nodes t' = Some ns'"
  shows "table_emplace sz hash k0 t key val = table_emplace sz hash k0 t' key val"
proof -
  note C = core_SomeD [OF ok ns]
  have nk: "node_map ns key = None" using key ns by (simp add: table_map_Some)
  obtain e where e: "e < length ns" "ns ! e = None" using core_room [OF ok ns] .
  obtain f where f: "probe (stops_at key) ns (length ns - 1) (home hash ns key) = Some f" "ns ! f = None"
    by (rule probe_absent [OF C(1) e nk])
  have "u32 (used_node_count t' * 5) < u32 (bucket_count_mask t' * 3)"
    using room core_u32(1,2) [OF ok'] by simp
  then show ?thesis
    using f k0 C(5) ns full r core_u32 [OF ok ns] by (subst table_emplace.simps) simp
qed

lemma emplace_first:
  assumes ok: "table_core_ok sz hash k0 t" and none: "nodes t = None" and k0: "key \<noteq> k0"
    and r: "table_resize sz hash 8 t = Some t'" and ok': "table_core_ok sz hash k0 t'" "nodes t' = Some ns'"
  shows "table_emplace sz hash k0 t key val = table_emplace sz hash k0 t' key val"
  using core_NoneD [OF ok none] k0 r core_u32(4) [OF ok']
  by (simp add: table_emplace.simps [of sz hash k0 t] table_emplace.simps [of sz hash k0 t'])

text \<open>How many entries a table holds for certain: the growth past it could exceed the largest
  array.\<close>

definition has_capacity :: "nat \<Rightarrow> nat \<Rightarrow> bool" where
  "has_capacity sz used \<longleftrightarrow> 8 \<le> max_buckets sz \<and> 10 * used + 6 \<le> 3 * max_buckets sz"

definition emplaced ::
  "nat \<Rightarrow> ('k \<Rightarrow> uint32) \<Rightarrow> 'k \<Rightarrow> ('k, 'v) flat_table \<Rightarrow> 'k \<Rightarrow> 'v
     \<Rightarrow> ('k, 'v) flat_table \<times> nat \<times> bool \<Rightarrow> bool" where
  "emplaced sz hash k0 t key val res \<longleftrightarrow>
     (let (t', b, fresh) = res in
      table_ok sz hash k0 t' \<and>
      fresh = (table_map t key = None) \<and>
      table_map t' = (if fresh then (table_map t)(key \<mapsto> val) else table_map t) \<and>
      used_node_count t' = used_node_count t + (if fresh then 1 else 0) \<and>
      (case nodes t' of
         None \<Rightarrow> False
       | Some ns \<Rightarrow> b < length ns \<and> ns ! b = Some (key, the (table_map t' key))))"

lemma emplaced_fresh:
  assumes "table_core_ok sz hash k0 t" "nodes t = Some ns" "table_map t key = None" "key \<noteq> k0"
    "used_node_count t * 5 < bucket_count_mask t * 3"
  shows "\<exists>res. table_emplace sz hash k0 t key val = Some res \<and> emplaced sz hash k0 t key val res"
proof -
  obtain t' b ns' where "table_emplace sz hash k0 t key val = Some (t', b, True)" "table_ok sz hash k0 t'"
    "nodes t' = Some ns'" "b < length ns'" "ns' ! b = Some (key, val)"
    "table_map t' = (table_map t)(key \<mapsto> val)" "used_node_count t' = Suc (used_node_count t)"
    by (rule emplace_fresh [OF assms])
  then show ?thesis using assms(3) by (simp add: emplaced_def)
qed

lemma emplaced_cong:
  "table_map t' = table_map t \<Longrightarrow> used_node_count t' = used_node_count t \<Longrightarrow>
   emplaced sz hash k0 t' = emplaced sz hash k0 t"
  by (simp add: emplaced_def fun_eq_iff)

lemma pow2_mask_room: "used_ok used n \<Longrightarrow> 8 \<le> n \<Longrightarrow> used * 5 < (2 * n - 1) * 3"
  by (simp add: used_ok_def)

lemma table_emplace_spec:
  assumes ok: "table_ok sz hash k0 t" and k0: "key \<noteq> k0" and cap: "has_capacity sz (used_node_count t)"
  shows "\<exists>res. table_emplace sz hash k0 t key val = Some res \<and> emplaced sz hash k0 t key val res"
proof (cases "table_map t key")
  case (Some v)
  then obtain ns where ns: "nodes t = Some ns" by (cases "nodes t") (auto simp: table_map_None)
  obtain i where "table_emplace sz hash k0 t key val = Some (t, i, False)" "i < length ns" "ns ! i = Some (key, v)"
    by (rule emplace_present [OF core_of_ok [OF ok] ns Some])
  then show ?thesis using ok Some ns by (simp add: emplaced_def)
next
  case None
  show ?thesis
  proof (cases "nodes t")
    case N: None
    note C = core_NoneD [OF core_of_ok [OF ok] N]
    obtain t' where t': "table_resize sz hash 8 t = Some t'" "table_ok sz hash k0 t'"
      "table_map t' = table_map t" "used_node_count t' = used_node_count t" "bucket_count t' = 8"
      "nodes t' \<noteq> None"
      by (rule table_resize_spec [OF core_of_ok [OF ok], of 8])
        (use C cap is_pow2_exp [of 3] in \<open>simp_all add: has_capacity_def used_ok_def\<close>)
    then obtain ns' where ns': "nodes t' = Some ns'" by blast
    note C' = core_SomeD [OF core_of_ok [OF t'(2)] ns']
    show ?thesis
      using emplaced_fresh [OF core_of_ok [OF t'(2)] ns', of key val] C C'(4,5) t'(3-5) None k0
        emplace_first [OF core_of_ok [OF ok] N k0 t'(1) core_of_ok [OF t'(2)] ns', of val]
        emplaced_cong [OF t'(3,4)] by simp
  next
    case (Some ns)
    note C = core_SomeD [OF core_of_ok [OF ok] Some]
    show ?thesis
    proof (cases "used_node_count t * 5 < bucket_count_mask t * 3")
      case True
      then show ?thesis using emplaced_fresh [OF core_of_ok [OF ok] Some None k0] by simp
    next
      case False
      have "3 * length ns \<le> 5 * used_node_count t + 3" using False C(5) by (simp add: diff_mult_distrib)
      then have len: "2 * length ns \<le> max_buckets sz" using cap by (simp add: has_capacity_def)
      obtain t' where t': "table_resize sz hash (2 * bucket_count t) t = Some t'" "table_ok sz hash k0 t'"
        "table_map t' = table_map t" "used_node_count t' = used_node_count t"
        "bucket_count t' = 2 * bucket_count t" "nodes t' \<noteq> None"
      proof (rule table_resize_spec [OF core_of_ok [OF ok], of "2 * bucket_count t"])
        show "is_pow2 (2 * bucket_count t)" using is_pow2_double nodes_okD(1) [OF C(1)] C(4) by simp
      qed (use len C in \<open>simp_all add: used_ok_def\<close>)
      then obtain ns' where ns': "nodes t' = Some ns'" by blast
      note C' = core_SomeD [OF core_of_ok [OF t'(2)] ns']
      have room: "used_node_count t' * 5 < bucket_count_mask t' * 3"
        using pow2_mask_room [OF C(7,2)] C'(4,5) C(4,6) t'(4,5) by simp
      have "table_emplace sz hash k0 t key val = table_emplace sz hash k0 t' key val"
        using emplace_resizes [OF core_of_ok [OF ok] Some None k0 _ t'(1) room core_of_ok [OF t'(2)] ns'] False
        by simp
      then show ?thesis
        using emplaced_fresh [OF core_of_ok [OF t'(2)] ns' _ k0 room] t'(3) None emplaced_cong [OF t'(3,4)]
        by simp
    qed
  qed
qed


subsection \<open>Erasure refines the removal from a map\<close>

lemma node_map_removed:
  assumes m: "mset (entries ns) = add_mset (k, v) (mset (entries ns'))" and d: "distinct (map fst (entries ns))"
  shows "node_map ns' = (node_map ns)(k := None)"
proof -
  have e: "mset (entries ns) = mset ((k, v) # entries ns')" using m by simp
  then have "node_map ns = (node_map ns')(k \<mapsto> v)"
    using map_of_mset [OF e d] by (simp add: node_map_def)
  moreover have "node_map ns' k = None"
    using distinct_fst_mset [OF e] d by (simp add: node_map_None)
  ultimately show ?thesis by auto
qed

lemma erase_node_spec:
  assumes ok: "table_core_ok sz hash k0 t" and ns: "nodes t = Some ns"
    and i: "i < length ns" "ns ! i = Some (key, val)" and e: "e < length ns" "ns ! e = None"
  obtains t' ns' where "erase_node hash t i = Some t'" "table_core_ok sz hash k0 t'" "nodes t' = Some ns'"
    "length ns' = length ns" "mset (entries ns) = add_mset (key, val) (mset (entries ns'))"
    "table_map t' = (table_map t)(key := None)" "Suc (used_node_count t') = used_node_count t"
    "\<And>p. p < length ns \<Longrightarrow> dist (length ns) i e \<le> dist (length ns) i p \<Longrightarrow> ns' ! p = ns ! p"
proof -
  note C = core_SomeD [OF ok ns]
  obtain ns' where r: "erase_nodes hash (length ns - 1) (length ns) ns i = Some ns'" "nodes_ok hash ns'"
    "length ns' = length ns" "mset (entries ns) = add_mset (key, val) (mset (entries ns'))"
    "\<And>p. p < length ns \<Longrightarrow> dist (length ns) i e \<le> dist (length ns) i p \<Longrightarrow> ns' ! p = ns ! p"
    using erase_nodes_spec [OF C(1) i e] by blast
  let ?t' = "t\<lparr>nodes := Some ns', used_node_count := used_node_count t - 1\<rparr>"
  have len: "length (entries ns) = Suc (length (entries ns'))" using r(4) by (metis size_add_mset size_mset)
  have "set (entries ns') \<subseteq> set (entries ns)"
    using r(4) by (metis set_mset_add_mset_insert set_mset_mset subset_insertI)
  then have "table_core_ok sz hash k0 ?t'"
    using C r(2,3) len by (auto simp: table_core_ok_def used_ok_def)
  moreover have "erase_node hash t i = Some ?t'"
    using ns i r(1) C(4,5) by (simp add: erase_node_def)
  moreover have "table_map ?t' = (table_map t)(key := None)"
    using node_map_removed [OF r(4) nodes_okD(3) [OF C(1)]] ns by (simp add: table_map_def)
  ultimately show thesis using that [of ?t' ns'] r(3-5) C(6) len by simp
qed

lemma try_shrink_spec:
  assumes ok: "table_core_ok sz hash k0 t" and ns: "nodes t = Some ns"
  obtains t' where "try_shrink sz hash t = Some t'" "table_ok sz hash k0 t'" "table_map t' = table_map t"
    "used_node_count t' = used_node_count t"
proof -
  note C = core_SomeD [OF ok ns]
  let ?u = "used_node_count t" and ?n = "length ns"
  have inval: "table_ok sz hash k0 (invalidate_iterators t')" "table_map (invalidate_iterators t') = table_map t'"
    if "table_core_ok sz hash k0 t'" for t' :: "('a, 'b) flat_table"
    using that
    by (auto simp: table_ok_def table_core_ok_def invalidate_iterators_def table_map_def split: option.splits)
  have u: "?u < ?n" "?n \<le> 536870912" "5 * ?u < 3 * ?n + 2"
    using used_ok_less C(2,6,7) core_finite [OF ok ns] by (simp_all add: used_ok_def)
  define q where "q = (?u + 1) * 5 div 3"
  have q: "3 * q \<le> 5 * ?u + 5" "5 * ?u + 3 \<le> 3 * q" unfolding q_def by simp_all
  have w31: "q + 1 < 2 ^ 31" using q u by simp
  have w32: "u32 (u32 ((?u + 1) * 5) div 3 + 1) = q + 1"
  proof -
    have "u32 ((?u + 1) * 5) = (?u + 1) * 5" using u by simp
    moreover have "u32 (q + 1) = q + 1" using w31 by simp
    ultimately show ?thesis by (simp only: q_def)
  qed
  show thesis
  proof (cases "u32 (?u * 10) < bucket_count_mask t \<and> bucket_count_mask t > 7")
    case False
    then have "try_shrink sz hash t = Some (invalidate_iterators t)"
      unfolding try_shrink_def using ns by auto
    then show thesis using that inval [OF ok] by (simp add: invalidate_iterators_def)
  next
    case True
    let ?w = "normalize_flat_hash_table_size (q + 1)"
    note N = normalize_flat_hash_table_size_spec [OF w31]
    have "?u * 10 < bucket_count_mask t" using True u by simp
    then have "10 * ?u + 2 \<le> ?n" "9 \<le> ?n" using True C(5) by auto
    then have "max 8 (2 * (q + 1)) \<le> ?n" using q by simp
    then have "?w \<le> ?n" using N(4) by linarith
    obtain t' where t': "table_resize sz hash ?w t = Some t'" "table_ok sz hash k0 t'"
      "table_map t' = table_map t" "used_node_count t' = used_node_count t"
      by (rule table_resize_spec [OF ok N(1,3)]) (use \<open>?w \<le> ?n\<close> C(3) N(2) q in \<open>simp_all add: used_ok_def\<close>)
    have "try_shrink sz hash t = Some (invalidate_iterators t')"
      unfolding try_shrink_def w32 using ns True t'(1) by simp
    then show thesis
      using that inval [OF core_of_ok [OF t'(2)]] t'(3,4) by (simp add: invalidate_iterators_def)
  qed
qed

definition erased ::
  "nat \<Rightarrow> ('k \<Rightarrow> uint32) \<Rightarrow> 'k \<Rightarrow> ('k, 'v) flat_table \<Rightarrow> 'k \<Rightarrow> ('k, 'v) flat_table \<times> nat \<Rightarrow> bool" where
  "erased sz hash k0 t key res \<longleftrightarrow>
     (let (t', n) = res in
      table_ok sz hash k0 t' \<and> table_map t' = (table_map t)(key := None) \<and>
      n = (if table_map t key = None then 0 else 1) \<and>
      used_node_count t' + n = used_node_count t)"

lemma table_erase_spec:
  assumes ok: "table_ok sz hash k0 t"
  shows "\<exists>res. table_erase sz hash k0 t key = Some res \<and> erased sz hash k0 t key res"
proof (cases "table_map t key")
  case None
  then show ?thesis
    using table_find_impl [OF core_of_ok [OF ok], of key] ok
    by (simp add: table_erase_def erased_def fun_upd_idem)
next
  case (Some val)
  obtain ns i where i: "nodes t = Some ns" "find_impl hash k0 t key = Some (Some i)" "i < length ns"
    "ns ! i = Some (key, val)"
    using table_find_impl [OF core_of_ok [OF ok], of key] Some by auto
  obtain e where e: "e < length ns" "ns ! e = None" using core_room [OF core_of_ok [OF ok] i(1)] .
  obtain t1 ns1 where t1: "erase_node hash t i = Some t1" "table_core_ok sz hash k0 t1" "nodes t1 = Some ns1"
    "table_map t1 = (table_map t)(key := None)" "Suc (used_node_count t1) = used_node_count t"
    using erase_node_spec [OF core_of_ok [OF ok] i(1,3,4) e] by metis
  obtain t' where "try_shrink sz hash t1 = Some t'" "table_ok sz hash k0 t'" "table_map t' = table_map t1"
    "used_node_count t' = used_node_count t1"
    by (rule try_shrink_spec [OF t1(2,3)])
  then have "table_erase sz hash k0 t key = Some (t', 1)" "erased sz hash k0 t key (t', 1)"
    using t1 i(2) Some by (simp_all add: table_erase_def table_erase_at_def erased_def)
  then show ?thesis by blast
qed


subsection \<open>Reservation and construction from a list\<close>

definition reserve_size :: "nat \<Rightarrow> nat" where
  "reserve_size n = normalize_flat_hash_table_size (n * 5 div 3 + 1)"

lemma reserve_size_spec:
  assumes "n \<le> 2 ^ 29"
  shows "is_pow2 (reserve_size n)" "8 \<le> reserve_size n" "used_ok n (reserve_size n)"
    "n * 5 < (reserve_size n - 1) * 3"
    "u32 (u32 (n * 5) div 3 + 1) = n * 5 div 3 + 1"
proof -
  define q where "q = n * 5 div 3"
  have q: "3 * q \<le> 5 * n" "5 * n \<le> 3 * q + 2" unfolding q_def by simp_all
  have w31: "q + 1 < 2 ^ 31" using q assms by simp
  note N = normalize_flat_hash_table_size_spec [OF w31]
  show "is_pow2 (reserve_size n)" "8 \<le> reserve_size n"
    unfolding reserve_size_def q_def [symmetric] using N by blast+
  show "used_ok n (reserve_size n)" "n * 5 < (reserve_size n - 1) * 3"
    unfolding reserve_size_def q_def [symmetric] used_ok_def using N(2) q by simp_all
  have "u32 (n * 5) = n * 5" using assms by simp
  moreover have "u32 (q + 1) = q + 1" using w31 by simp
  ultimately show "u32 (u32 (n * 5) div 3 + 1) = n * 5 div 3 + 1" by (simp only: q_def)
qed

lemma table_reserve_eq:
  assumes "n \<le> 2 ^ 29"
  shows "table_reserve sz hash n t =
    (if n = 0 \<or> reserve_size n \<le> bucket_count t then Some t else table_resize sz hash (reserve_size n) t)"
  unfolding table_reserve_def Let_def reserve_size_spec(5) [OF assms] reserve_size_def [symmetric]
  using assms by auto

lemma table_map_empty [simp]: "table_map empty_table = Map.empty"
  by (simp add: table_map_def empty_table_def)

lemma used_node_count_empty [simp]: "used_node_count empty_table = 0"
  by (simp add: empty_table_def)

lemma used_ok_mono: "used_ok u n \<Longrightarrow> u' \<le> u \<Longrightarrow> n \<le> n' \<Longrightarrow> used_ok u' n'"
  by (simp add: used_ok_def)

lemma core_used_ok: "table_core_ok sz hash k0 t \<Longrightarrow> used_ok (used_node_count t) (bucket_count t)"
  by (cases "nodes t") (auto simp: table_core_ok_def used_ok_def)

lemma table_reserve_spec:
  assumes ok: "table_ok sz hash k0 t" and n: "n \<le> 2 ^ 29" "reserve_size n \<le> max_buckets sz"
  obtains t' where "table_reserve sz hash n t = Some t'" "table_ok sz hash k0 t'" "table_map t' = table_map t"
    "used_node_count t' = used_node_count t" "n = 0 \<or> reserve_size n \<le> bucket_count t'"
proof (cases "n = 0 \<or> reserve_size n \<le> bucket_count t")
  case True
  then have "table_reserve sz hash n t = Some t"
    by (simp add: table_reserve_eq [OF n(1)])
  then show thesis using that ok True by blast
next
  case False
  have "used_ok (used_node_count t) (reserve_size n)"
    using used_ok_mono [OF core_used_ok [OF core_of_ok [OF ok]]] False by simp
  then obtain t' where t': "table_resize sz hash (reserve_size n) t = Some t'" "table_ok sz hash k0 t'"
    "table_map t' = table_map t" "used_node_count t' = used_node_count t" "bucket_count t' = reserve_size n"
    using table_resize_spec [OF core_of_ok [OF ok] reserve_size_spec(1,2) [OF n(1)] n(2)] by metis
  then have "table_reserve sz hash n t = Some t'"
    using False by (simp add: table_reserve_eq [OF n(1)])
  then show thesis using that t' by simp
qed

lemma copy_nodes_spec:
  assumes "nodes_ok hash ns" "length rest + length (entries ns) < length ns" "k0 \<notin> fst ` set rest"
    "k0 \<notin> fst ` set (entries ns)"
  shows "\<exists>ns'. copy_nodes hash k0 (length ns - 1) rest ns (length (entries ns)) = Some (ns', length (entries ns')) \<and>
           nodes_ok hash ns' \<and> length ns' = length ns \<and> node_map ns' = map_of rest ++ node_map ns \<and>
           length (entries ns') \<le> length rest + length (entries ns) \<and> k0 \<notin> fst ` set (entries ns')"
  using assms
proof (induction rest arbitrary: ns)
  case (Cons x rest)
  obtain key val where x: "x = (key, val)" by (cases x)
  note ok = Cons.prems(1)
  obtain e where e: "e < length ns" "ns ! e = None" using nodes_ok_room [OF ok] Cons.prems(2) by auto
  show ?case
  proof (cases "node_map ns key")
    case None
    obtain f where f: "probe (stops_at key) ns (length ns - 1) (home hash ns key) = Some f"
      "f < length ns" "ns ! f = None"
      "\<And>p. p < length ns \<Longrightarrow> dist (length ns) (home hash ns key) p < dist (length ns) (home hash ns key) f
         \<Longrightarrow> ns ! p \<noteq> None"
      using probe_absent [OF ok e None] by blast
    let ?ns1 = "ns[f := Some (key, val)]"
    have len: "length (entries ?ns1) = Suc (length (entries ns))" by (rule length_entries_set [OF f(2,3)])
    have fst1: "fst ` set (entries ?ns1) = insert key (fst ` set (entries ns))"
      using mset_eq_setD [of "entries ?ns1" "(key, val) # entries ns"] mset_entries_set [OF f(2,3)] by simp
    have nm: "node_map ?ns1 = (node_map ns)(key \<mapsto> val)"
      by (rule node_map_set(1) [OF f(2,3) nodes_okD(3) [OF ok] None])
    have "map_of rest ++ node_map ?ns1 = map_of (x # rest) ++ node_map ns"
      using None unfolding nm x by (auto simp: map_add_def fun_eq_iff split: option.splits)
    then show ?thesis
      using Cons.IH [of ?ns1] nodes_ok_set [OF ok f(2,3) None f(4)] Cons.prems(2-4) f(1,3) len fst1 x
      by (auto simp: fun_upd_def)
  next
    case (Some v)
    then obtain i where i: "i < length ns" "ns ! i = Some (key, v)"
      using node_map_nth [OF nodes_okD(3) [OF ok]] by blast
    have "map_of rest ++ node_map ns = map_of (x # rest) ++ node_map ns"
      using Some unfolding x by (auto simp: map_add_def fun_eq_iff split: option.splits)
    then show ?thesis
      using Cons.IH [of ns] probe_present [OF ok i] i(2) Cons.prems x
      by (auto simp: fun_upd_def)
  qed
qed auto

lemma table_of_nodes_spec:
  fixes new_nodes :: "('k \<times> 'v) list"
  assumes n: "length new_nodes \<le> 2 ^ 29" "reserve_size (length new_nodes) \<le> max_buckets sz"
    and k0: "k0 \<notin> fst ` set new_nodes"
  obtains t where "table_of_nodes sz hash k0 new_nodes = Some t" "table_ok sz hash k0 t"
    "table_map t = map_of new_nodes"
proof (cases "new_nodes = []")
  case True
  then show thesis
    using that [of empty_table] by (simp add: table_of_nodes_def)
next
  case False
  let ?n = "reserve_size (length new_nodes)"
  note R = reserve_size_spec [OF n(1)]
  obtain t1 :: "('k, 'v) flat_table" where t1:
    "table_reserve sz hash (length new_nodes) empty_table = Some t1" "table_ok sz hash k0 t1"
    "table_map t1 = table_map empty_table" "used_node_count t1 = used_node_count (empty_table :: ('k, 'v) flat_table)"
    "length new_nodes = 0 \<or> ?n \<le> bucket_count t1"
    by (rule table_reserve_spec [OF table_ok_empty n, of hash k0])
  have nb: "?n \<le> bucket_count t1" using t1(5) False by simp
  then obtain ns where ns: "nodes t1 = Some ns"
    using core_NoneD(3) [OF core_of_ok [OF t1(2)]] R(2) by (cases "nodes t1") auto
  note C = core_SomeD [OF core_of_ok [OF t1(2)] ns]
  have e0: "entries ns = []" using C(6) t1(4) by (simp add: empty_table_def)
  have uo: "used_ok (length new_nodes) (length ns)" using used_ok_mono [OF R(3)] nb C(4) by simp
  then have "length new_nodes < length ns" using used_ok_less C(2) by blast
  then obtain ns' where ns': "copy_nodes hash k0 (length ns - 1) new_nodes ns 0 = Some (ns', length (entries ns'))"
    "nodes_ok hash ns'" "length ns' = length ns" "node_map ns' = map_of new_nodes ++ node_map ns"
    "length (entries ns') \<le> length new_nodes" "k0 \<notin> fst ` set (entries ns')"
    using copy_nodes_spec [OF C(1), of new_nodes k0] k0 e0 by auto
  let ?t = "t1\<lparr>nodes := Some ns', used_node_count := length (entries ns')\<rparr>"
  have b: "begin_bucket t1 = INVALID_BUCKET"
  proof -
    have "ns ! j = None" if "j < length ns" for j
      using set_entries_nth [of "the (ns ! j)" ns] e0 that by (cases "ns ! j") auto
    then show ?thesis using t1(2) ns by (auto simp: table_ok_def)
  qed
  show thesis
  proof (rule that)
    show "table_of_nodes sz hash k0 new_nodes = Some ?t"
      using False t1(1) ns ns'(1) C(5) by (simp add: table_of_nodes_def)
    show "table_ok sz hash k0 ?t"
      using C ns'(2,3,5,6) b used_ok_mono [OF uo] by (simp add: table_ok_def table_core_ok_def)
    show "table_map ?t = map_of new_nodes"
      using ns'(4) e0 by (simp add: table_map_def node_map_def)
  qed
qed


subsection \<open>Iteration sees every entry once\<close>

text \<open>The nodes from \<open>it\<close> on, around the table, up to the start of the iteration.\<close>

definition ahead :: "'a list \<Rightarrow> nat \<Rightarrow> nat \<Rightarrow> 'a list" where
  "ahead ns start it = (if start \<le> it then drop it ns @ take start ns else drop it (take start ns))"

lemma ahead_step:
  assumes "it < length ns" "start < length ns"
  shows "ahead ns start it =
    ns ! it # (if step (length ns) it = start then [] else ahead ns start (step (length ns) it))"
proof (cases "start \<le> it")
  case True
  have "drop it ns = ns ! it # drop (Suc it) ns" using assms(1) by (simp add: Cons_nth_drop_Suc)
  then show ?thesis
    using True assms by (cases "it + 1 = length ns") (auto simp: ahead_def step_def)
next
  case False
  then have "drop it (take start ns) = ns ! it # drop (Suc it) (take start ns)"
    using assms by (subst Cons_nth_drop_Suc [symmetric]) auto
  then show ?thesis using False assms by (auto simp: ahead_def step_def)
qed

lemma iter_next_spec:
  assumes "it < length ns" "start < length ns"
  shows "\<exists>r. iter_next ns start it = Some r \<and>
    (case r of
       None \<Rightarrow> entries (tl (ahead ns start it)) = []
     | Some j \<Rightarrow> j < length ns \<and> ns ! j \<noteq> None \<and> entries (tl (ahead ns start it)) = entries (ahead ns start j) \<and>
         length (ahead ns start j) < length (ahead ns start it))"
  using assms
proof (induction "length (ahead ns start it)" arbitrary: it rule: less_induct)
  case less
  let ?it' = "step (length ns) it"
  have eq: "iter_next ns start it =
      (if ?it' = start then Some None
       else if ns ! ?it' = None then iter_next ns start ?it' else Some (Some ?it'))"
    using step_less [OF less.prems(1)] by (subst iter_next.simps) (auto simp: step_def Let_def)
  note A = ahead_step [OF less.prems]
  show ?case
  proof (cases "?it' = start")
    case True
    then show ?thesis using eq A by simp
  next
    case False
    note A' = ahead_step [OF step_less [OF less.prems(1)] less.prems(2)]
    have len: "length (ahead ns start ?it') < length (ahead ns start it)" using A False by simp
    have tl: "tl (ahead ns start it) = ahead ns start ?it'" using A False by simp
    show ?thesis
    proof (cases "ns ! ?it'")
      case None
      then have e: "iter_next ns start it = iter_next ns start ?it'" using eq False by simp
      have "entries (ahead ns start ?it') = entries (tl (ahead ns start ?it'))" using A' None by simp
      then show ?thesis
        using less.hyps [OF len step_less [OF less.prems(1)] less.prems(2)] len
        unfolding e tl by (auto split: option.splits intro: less_trans)
    next
      case (Some x)
      then show ?thesis using eq False step_less [OF less.prems(1)] len tl by simp
    qed
  qed
qed

lemma iterate_spec:
  assumes "it < length ns" "start < length ns" "ns ! it \<noteq> None"
  shows "iterate ns start it = Some (entries (ahead ns start it))"
  using assms
proof (induction "length (ahead ns start it)" arbitrary: it rule: less_induct)
  case less
  obtain e where e: "ns ! it = Some e" using less.prems(3) by blast
  obtain r where r: "iter_next ns start it = Some r"
    "case r of
       None \<Rightarrow> entries (tl (ahead ns start it)) = []
     | Some j \<Rightarrow> j < length ns \<and> ns ! j \<noteq> None \<and> entries (tl (ahead ns start it)) = entries (ahead ns start j) \<and>
         length (ahead ns start j) < length (ahead ns start it)"
    using iter_next_spec [OF less.prems(1,2)] by blast
  have A: "entries (ahead ns start it) = e # entries (tl (ahead ns start it))"
    using ahead_step [OF less.prems(1,2)] e by (metis entries_simps(3) list.sel(3))
  show ?case
  proof (cases r)
    case None
    then show ?thesis using r e A less.prems(1) by (subst iterate.simps) simp
  next
    case (Some j)
    then have "iterate ns start j = Some (entries (ahead ns start j))"
      using r(2) less.hyps [of j] less.prems(2) by simp
    then show ?thesis using r e A less.prems(1) Some by (subst iterate.simps) simp
  qed
qed

lemma begin_impl_spec:
  assumes ok: "table_ok sz hash k0 t" and ns: "nodes t = Some ns" and u: "used_node_count t \<noteq> 0"
  obtains t' b where "begin_impl r t = Some (t', Some b)" "b < length ns" "ns ! b \<noteq> None"
    "t' = t\<lparr>begin_bucket := b\<rparr>"
proof (cases "begin_bucket t = INVALID_BUCKET")
  case False
  then have "begin_bucket t < length ns" "ns ! begin_bucket t \<noteq> None"
    using ok ns by (simp_all add: table_ok_def)
  then show thesis using that [of t "begin_bucket t"] False u by (simp add: begin_impl_def table_empty_def)
next
  case True
  note C = core_SomeD [OF core_of_ok [OF ok] ns]
  note N = nodes_okD [OF C(1)]
  obtain x where "x \<in> set (entries ns)" using u C(6) by (cases "entries ns") auto
  then obtain i where i: "i < length ns" "ns ! i \<noteq> None" by (auto simp: set_entries_nth)
  have r: "unat r AND (length ns - 1) < length ns"
    using N(1) by (simp add: and_pow2) (simp add: is_pow2_def)
  then obtain b where "probe (\<lambda>node. node \<noteq> None) ns (length ns - 1) (unat r AND (length ns - 1)) = Some b"
    "b < length ns" "ns ! b \<noteq> None"
    using probe_stops [OF N(1,2) refl i(1), of "\<lambda>node. node \<noteq> None", OF i(2) r] by metis
  then show thesis
    using that [of "t\<lparr>begin_bucket := b\<rparr>" b] True u ns C(5) by (simp add: begin_impl_def table_empty_def)
qed

lemma table_ok_begin:
  "table_ok sz hash k0 t \<Longrightarrow> nodes t = Some ns \<Longrightarrow> b < length ns \<Longrightarrow> ns ! b \<noteq> None \<Longrightarrow>
   table_ok sz hash k0 (t\<lparr>begin_bucket := b\<rparr>)"
  by (simp add: table_ok_def table_core_ok_def)

lemma table_entries_spec:
  assumes ok: "table_ok sz hash k0 t"
  obtains t' es where "table_entries r t = Some (t', es)" "table_ok sz hash k0 t'" "table_map t' = table_map t"
    "used_node_count t' = used_node_count t"
    "distinct (map fst es)" "map_of es = table_map t" "length es = used_node_count t"
proof (cases "used_node_count t = 0")
  case True
  then have "table_map t = Map.empty"
    using core_SomeD(6) [OF core_of_ok [OF ok]] by (cases "nodes t") (auto simp: table_map_def node_map_def)
  then show thesis
    using that [of t "[]"] True ok by (simp add: table_entries_def begin_impl_def table_empty_def)
next
  case False
  then obtain ns where ns: "nodes t = Some ns"
    using core_NoneD(1) [OF core_of_ok [OF ok]] by (cases "nodes t") auto
  note C = core_SomeD [OF core_of_ok [OF ok] ns]
  obtain t' b where b: "begin_impl r t = Some (t', Some b)" "b < length ns" "ns ! b \<noteq> None"
    "t' = t\<lparr>begin_bucket := b\<rparr>"
    by (rule begin_impl_spec [OF ok ns False])
  let ?es = "entries (ahead ns b b)"
  have m: "mset ?es = mset (entries ns)"
    by (subst (2) append_take_drop_id [of b ns, symmetric])
       (simp only: ahead_def entries_append mset_append order_refl if_True add.commute)
  show thesis
  proof (rule that)
    show "table_entries r t = Some (t', ?es)"
      using b ns iterate_spec [OF b(2,2,3)] by (simp add: table_entries_def)
    show "distinct (map fst ?es)" using distinct_fst_mset [OF m] nodes_okD(3) [OF C(1)] by simp
    then show "map_of ?es = table_map t"
      using map_of_mset [OF m] ns by (simp add: table_map_def node_map_def)
    show "length ?es = used_node_count t" using m C(6) by (metis size_mset)
  qed (use b table_ok_begin [OF ok ns b(2,3)] in \<open>simp_all add: table_map_def\<close>)
qed


subsection \<open>Removal by a predicate filters the map\<close>

lemma scan_to_empty_spec:
  assumes "it \<le> length ns"
  obtains r where "scan_to_empty ns (length ns) it = Some r" "r \<le> length ns" "r < length ns \<Longrightarrow> ns ! r = None"
proof -
  have "\<exists>r. scan_to_empty ns (length ns) it = Some r \<and> r \<le> length ns \<and> (r < length ns \<longrightarrow> ns ! r = None)"
    using assms
  proof (induction ns "length ns" it rule: scan_to_empty.induct)
    case (1 ns it)
    then show ?case by (subst (1) scan_to_empty.simps) auto
  qed
  then show thesis using that by blast
qed

lemma scan_back_spec:
  "e < n \<Longrightarrow> n \<le> length ns \<Longrightarrow> ns ! e = None \<Longrightarrow>
   \<exists>r. scan_back ns n = Some r \<and> r < n \<and> ns ! r = None"
proof (induction n)
  case (Suc n)
  then show ?case by (cases "ns ! n = None") (auto simp: less_Suc_eq)
qed simp

text \<open>The entries that stay.\<close>

definition kept :: "('k \<Rightarrow> 'v \<Rightarrow> bool) \<Rightarrow> ('k, 'v) map_node list \<Rightarrow> ('k \<times> 'v) multiset" where
  "kept f ns = filter_mset (\<lambda>(k, v). \<not> f k v) (mset (entries ns))"

definition clean :: "('k \<Rightarrow> 'v \<Rightarrow> bool) \<Rightarrow> ('k, 'v) map_node \<Rightarrow> bool" where
  "clean f node = (case node of None \<Rightarrow> True | Some (k, v) \<Rightarrow> \<not> f k v)"

lemma remove_range_spec:
  assumes "table_core_ok sz hash k0 t" "nodes t = Some ns" "e < length ns" "ns ! e = None"
    and "it \<le> end_it" "end_it \<le> length ns" "\<And>p. p \<in> K \<Longrightarrow> p < length ns \<and> clean f (ns ! p)"
    and "\<And>j p. it \<le> j \<Longrightarrow> j < end_it \<Longrightarrow> j \<noteq> e \<Longrightarrow> p \<in> K \<or> (it \<le> p \<and> p < j) \<Longrightarrow>
           dist (length ns) j e \<le> dist (length ns) j p"
  shows "\<exists>t' ns'. remove_range hash f it end_it t = Some t' \<and> table_core_ok sz hash k0 t' \<and>
    nodes t' = Some ns' \<and> length ns' = length ns \<and> ns' ! e = None \<and> kept f ns' = kept f ns \<and>
    (\<forall>p. p \<in> K \<or> (it \<le> p \<and> p < end_it) \<longrightarrow> clean f (ns' ! p))"
  using assms
proof (induction "used_node_count t + (end_it - it)" arbitrary: t ns it K rule: less_induct)
  case less
  note ok = less.prems(1) and ns = less.prems(2)
  note U = remove_range.simps [of hash f it end_it t]
  show ?case
  proof (cases "it = end_it")
    case True
    then show ?thesis using less.prems by (subst U) auto
  next
    case False
    then have it: "it < end_it" "it < length ns" using less.prems(5,6) by auto
    show ?thesis
    proof (cases "clean f (ns ! it)")
      case True
      then have skip: "\<not> (ns ! it \<noteq> None \<and> f (fst (the (ns ! it))) (snd (the (ns ! it))))"
        by (cases "ns ! it") (auto simp: clean_def)
      have eq: "remove_range hash f it end_it t = remove_range hash f (it + 1) end_it t"
        using False it(2) ns skip by (subst U) auto
      have "\<exists>t' ns'. remove_range hash f (it + 1) end_it t = Some t' \<and> table_core_ok sz hash k0 t' \<and>
        nodes t' = Some ns' \<and> length ns' = length ns \<and> ns' ! e = None \<and> kept f ns' = kept f ns \<and>
        (\<forall>p. p \<in> insert it K \<or> (it + 1 \<le> p \<and> p < end_it) \<longrightarrow> clean f (ns' ! p))"
      proof (rule less.hyps [OF _ ok ns less.prems(3,4) _ less.prems(6)])
        show "used_node_count t + (end_it - (it + 1)) < used_node_count t + (end_it - it)" "it + 1 \<le> end_it"
          using it(1) by auto
        show "p < length ns \<and> clean f (ns ! p)" if "p \<in> insert it K" for p
          using that less.prems(7) True it(2) by auto
        show "dist (length ns) j e \<le> dist (length ns) j p"
          if "it + 1 \<le> j" "j < end_it" "j \<noteq> e" "p \<in> insert it K \<or> (it + 1 \<le> p \<and> p < j)" for j p
          using less.prems(8) [of j p] that by auto
      qed
      then obtain t' ns' where R: "remove_range hash f (it + 1) end_it t = Some t'"
        "table_core_ok sz hash k0 t'" "nodes t' = Some ns'" "length ns' = length ns" "ns' ! e = None"
        "kept f ns' = kept f ns"
        "\<And>p. p \<in> insert it K \<or> (it + 1 \<le> p \<and> p < end_it) \<Longrightarrow> clean f (ns' ! p)"
        by blast
      have "clean f (ns' ! p)" if "p \<in> K \<or> (it \<le> p \<and> p < end_it)" for p
        by (rule R(7)) (use that in auto)
      then show ?thesis using R(1-6) unfolding eq by blast
    next
      case dirty: False
      then obtain key val where x: "ns ! it = Some (key, val)" "f key val"
        by (cases "ns ! it") (auto simp: clean_def)
      have "it \<noteq> e" using x less.prems(4) by auto
      obtain t1 ns1 where t1: "erase_node hash t it = Some t1" "table_core_ok sz hash k0 t1" "nodes t1 = Some ns1"
        "length ns1 = length ns" "mset (entries ns) = add_mset (key, val) (mset (entries ns1))"
        "Suc (used_node_count t1) = used_node_count t"
        "\<And>p. p < length ns \<Longrightarrow> dist (length ns) it e \<le> dist (length ns) it p \<Longrightarrow> ns1 ! p = ns ! p"
        by (rule erase_node_spec [OF ok ns it(2) x(1) less.prems(3,4)]) blast
      have fr: "ns1 ! p = ns ! p" if "p \<in> K" for p
        using t1(7) less.prems(7,8) it(1) \<open>it \<noteq> e\<close> that by blast
      have eq: "remove_range hash f it end_it t = remove_range hash f it end_it t1"
        using False it(2) ns x t1(1) by (subst U) auto
      have k: "kept f ns1 = kept f ns" using t1(5) x(2) by (simp add: kept_def)
      have "ns1 ! e = None" using t1(7) [OF less.prems(3)] less.prems(4) by simp
      then show ?thesis
        using less.hyps [OF _ t1(2,3), of it K] less.prems(3,5-8) t1(4,6) fr k unfolding eq by simp
    qed
  qed
qed

lemma map_of_filter_mset:
  assumes "mset xs = filter_mset (\<lambda>(k, v). \<not> f k v) (mset ys)" "distinct (map fst ys)"
  shows "map_of xs = (\<lambda>k. case map_of ys k of None \<Rightarrow> None | Some v \<Rightarrow> if f k v then None else Some v)"
proof -
  let ?zs = "filter (\<lambda>(k, v). \<not> f k v) ys"
  have m: "mset ?zs = mset xs" using assms(1) by simp
  have d: "distinct (map fst ?zs)" using assms(2) by (induction ys) auto
  have e: "map_of xs = map_of ?zs" using map_of_mset [OF m d] by simp
  have "map_of ?zs k = (case map_of ys k of None \<Rightarrow> None | Some v \<Rightarrow> if f k v then None else Some v)" for k
    using assms(2)
  proof (induction ys)
    case (Cons y ys)
    obtain a b where y: "y = (a, b)" by (cases y)
    have "map_of ys a = None" using Cons.prems y by (simp add: map_of_eq_None_iff)
    then show ?case using Cons y by auto
  qed simp
  then show ?thesis unfolding e by blast
qed

lemma remove_if_spec:
  assumes ok: "table_ok sz hash k0 t"
  obtains t' where "remove_if sz hash r f t = Some t'" "table_ok sz hash k0 t'"
    "table_map t' = (\<lambda>k. case table_map t k of None \<Rightarrow> None | Some v \<Rightarrow> if f k v then None else Some v)"
proof (cases "used_node_count t = 0")
  case True
  then have "table_map t = Map.empty"
    using core_SomeD(6) [OF core_of_ok [OF ok]] by (cases "nodes t") (auto simp: table_map_def node_map_def)
  then show thesis using that [of t] True ok by (simp add: remove_if_def table_empty_def)
next
  case False
  then obtain ns where ns: "nodes t = Some ns"
    using core_NoneD(1) [OF core_of_ok [OF ok]] by (cases "nodes t") auto
  note C = core_SomeD [OF core_of_ok [OF ok] ns]
  obtain t1 b where b: "begin_impl r t = Some (t1, Some b)" "b < length ns" "ns ! b \<noteq> None"
    "t1 = t\<lparr>begin_bucket := b\<rparr>"
    by (rule begin_impl_spec [OF ok ns False])
  have ok1: "table_core_ok sz hash k0 t1" "nodes t1 = Some ns" "bucket_count t1 = length ns"
    using table_ok_begin [OF ok ns b(2,3)] b(4) ns C(4) by (simp_all add: table_ok_def)
  obtain s where s: "scan_to_empty ns (length ns) b = Some s" "s \<le> length ns" "s < length ns \<Longrightarrow> ns ! s = None"
    using scan_to_empty_spec [of b ns] b(2) by auto
  obtain e0 where "e0 < length ns" "ns ! e0 = None" using core_room [OF ok1(1,2)] .
  then obtain e where e: "(if s = length ns then scan_back ns s else Some s) = Some e" "e < length ns" "ns ! e = None"
    using scan_back_spec [of e0 s ns] s(2,3) by (cases "s = length ns") auto
  have "\<exists>t2 ns2. remove_range hash f e (length ns) t1 = Some t2 \<and> table_core_ok sz hash k0 t2 \<and>
    nodes t2 = Some ns2 \<and> length ns2 = length ns \<and> ns2 ! e = None \<and> kept f ns2 = kept f ns \<and>
    (\<forall>p. p \<in> {} \<or> (e \<le> p \<and> p < length ns) \<longrightarrow> clean f (ns2 ! p))"
    by (rule remove_range_spec [OF ok1(1,2)]) (use e(2,3) in \<open>auto simp: dist_def\<close>)
  then obtain t2 ns2 where t2: "remove_range hash f e (length ns) t1 = Some t2" "table_core_ok sz hash k0 t2"
    "nodes t2 = Some ns2" "length ns2 = length ns" "ns2 ! e = None" "kept f ns2 = kept f ns"
    "\<forall>p. e \<le> p \<and> p < length ns \<longrightarrow> clean f (ns2 ! p)"
    by blast
  have "\<exists>t3 ns3. remove_range hash f 0 e t2 = Some t3 \<and> table_core_ok sz hash k0 t3 \<and>
    nodes t3 = Some ns3 \<and> length ns3 = length ns2 \<and> ns3 ! e = None \<and> kept f ns3 = kept f ns2 \<and>
    (\<forall>p. p \<in> {e..<length ns2} \<or> (0 \<le> p \<and> p < e) \<longrightarrow> clean f (ns3 ! p))"
    by (rule remove_range_spec [OF t2(2,3)]) (use t2(4,5,7) e(2) in \<open>auto simp: dist_def\<close>)
  then obtain t3 ns3 where t3: "remove_range hash f 0 e t2 = Some t3" "table_core_ok sz hash k0 t3"
    "nodes t3 = Some ns3" "length ns3 = length ns" "kept f ns3 = kept f ns"
    "\<And>p. p < length ns \<Longrightarrow> clean f (ns3 ! p)"
    using t2(4,6) by (metis atLeastLessThan_iff linorder_not_le zero_le)
  obtain t' where t': "try_shrink sz hash t3 = Some t'" "table_ok sz hash k0 t'" "table_map t' = table_map t3"
    by (rule try_shrink_spec [OF t3(2,3)])
  have "kept f ns3 = mset (entries ns3)"
    unfolding kept_def filter_mset_eq_conv
    using t3(4,6) by (fastforce simp: set_entries_nth clean_def split: option.splits)
  then have m: "mset (entries ns3) = filter_mset (\<lambda>(k, v). \<not> f k v) (mset (entries ns))"
    using t3(5) by (simp add: kept_def)
  show thesis
  proof (rule that)
    show "remove_if sz hash r f t = Some t'"
      using False b(1) ok1 s(1) e(1) t2(1) t3(1) t'(1) by (simp add: remove_if_def table_empty_def)
    show "table_map t' = (\<lambda>k. case table_map t k of None \<Rightarrow> None | Some v \<Rightarrow> if f k v then None else Some v)"
      using map_of_filter_mset [OF m nodes_okD(3) [OF C(1)]] t'(3) t3(3) ns
      by (simp add: table_map_def node_map_def)
  qed (rule t'(2))
qed


subsection \<open>Assignment through a reference\<close>

lemma overwrite_entries:
  assumes "b < length ns" "ns ! b = Some (key, v)"
  shows "map fst (entries (ns[b := Some (key, w)])) = map fst (entries ns)"
  using assms by (simp add: entries_upd entries_split [of b ns])

lemma nodes_ok_overwrite:
  assumes ok: "nodes_ok hash ns" and b: "b < length ns" "ns ! b = Some (key, v)"
  shows "nodes_ok hash (ns[b := Some (key, w)])" "node_map (ns[b := Some (key, w)]) = (node_map ns)(key \<mapsto> w)"
proof -
  note N = nodes_okD [OF ok]
  let ?ns' = "ns[b := Some (key, w)]"
  have d: "distinct (map fst (entries ?ns'))" using overwrite_entries [OF b] N(3) by simp
  have "placed hash ?ns'"
    unfolding placed_def
  proof (intro allI impI)
    fix i k x p
    assume "i < length ?ns'" "?ns' ! i = Some (k, x)" "p < length ?ns'"
      "dist (length ?ns') (home hash ?ns' k) p < dist (length ?ns') (home hash ?ns' k) i"
    then show "?ns' ! p \<noteq> None"
      using placedD [OF N(4), of i k _ p] b by (cases "i = b"; cases "p = b") auto
  qed
  then show "nodes_ok hash ?ns'" using N d by (simp add: nodes_ok_def)
  have "mset (entries ns) = add_mset (key, v) (mset (entries (ns[b := None])))" by (rule mset_entries_clear [OF b])
  then have 1: "node_map (ns[b := None]) = (node_map ns)(key := None)" by (rule node_map_removed [OF _ N(3)])
  have m: "mset (entries ?ns') = mset ((key, w) # entries (ns[b := None]))"
    using mset_entries_set [of b "ns[b := None]" "(key, w)"] b(1) by simp
  have "node_map ?ns' = (node_map (ns[b := None]))(key \<mapsto> w)"
    using map_of_mset [OF m d] by (simp add: node_map_def)
  then show "node_map ?ns' = (node_map ns)(key \<mapsto> w)" by (simp add: 1)
qed

lemma table_set_spec:
  assumes ok: "table_ok sz hash k0 t" and k0: "key \<noteq> k0" and cap: "has_capacity sz (used_node_count t)"
  obtains t' where "table_set sz hash k0 v0 t key val = Some t'" "table_ok sz hash k0 t'"
    "table_map t' = (table_map t)(key \<mapsto> val)" "used_node_count t' \<le> Suc (used_node_count t)"
proof -
  obtain t1 b fresh where e: "table_emplace sz hash k0 t key v0 = Some (t1, b, fresh)"
    "emplaced sz hash k0 t key v0 (t1, b, fresh)"
    using table_emplace_spec [OF ok k0 cap, of v0] by auto
  then obtain ns v where ns: "nodes t1 = Some ns" "b < length ns" "ns ! b = Some (key, v)"
    by (auto simp: emplaced_def split: option.splits)
  have ok1: "table_ok sz hash k0 t1" and m1: "(table_map t1)(key \<mapsto> val) = (table_map t)(key \<mapsto> val)"
    and u1: "used_node_count t1 \<le> Suc (used_node_count t)"
    using e(2) by (auto simp: emplaced_def split: if_splits)
  note C = core_SomeD [OF core_of_ok [OF ok1] ns(1)]
  let ?ns' = "ns[b := Some (key, val)]"
  have len: "length (entries ?ns') = length (entries ns)"
    using overwrite_entries [OF ns(2,3)] by (metis length_map)
  have "fst ` set (entries ?ns') = fst ` set (entries ns)"
    using overwrite_entries [OF ns(2,3)] by (metis list.set_map)
  moreover have "begin_bucket t1 = INVALID_BUCKET \<or>
      begin_bucket t1 < length ns \<and> ?ns' ! begin_bucket t1 \<noteq> None"
    using ok1 ns by (cases "begin_bucket t1 = b") (auto simp: table_ok_def)
  ultimately have "table_ok sz hash k0 (t1\<lparr>nodes := Some ?ns'\<rparr>)"
    using C len nodes_ok_overwrite(1) [OF C(1) ns(2,3)]
    by (simp add: table_ok_def table_core_ok_def del: not_None_eq)
  moreover have "table_map (t1\<lparr>nodes := Some ?ns'\<rparr>) = (table_map t)(key \<mapsto> val)"
    using nodes_ok_overwrite(2) [OF C(1) ns(2,3)] ns(1) m1 by (simp add: table_map_def)
  moreover have "table_set sz hash k0 v0 t key val = Some (t1\<lparr>nodes := Some ?ns'\<rparr>)"
    using e(1) ns(1) by (simp add: table_set_def)
  ultimately show thesis using that u1 by simp
qed

subsection \<open>The interface of a map\<close>

text \<open>What a client of \<^verbatim>\<open>FlatHashMap\<close> relies on: a state with an abstraction to a partial
  function, and operations that follow it as long as the entries fit. A run performs a list of
  operations and records what each returns.\<close>

datatype ('k, 'v) map_op = Set_op 'k 'v | Erase_op 'k | Find_op 'k

datatype 'v map_answer = Was_set | Erased nat | Found "'v option"

fun run_ops ::
  "('s \<Rightarrow> 'k \<Rightarrow> 'v \<Rightarrow> 's option) \<Rightarrow> ('s \<Rightarrow> 'k \<Rightarrow> ('s \<times> nat) option) \<Rightarrow> ('s \<Rightarrow> 'k \<Rightarrow> 'v option option)
     \<Rightarrow> 's \<Rightarrow> ('k, 'v) map_op list \<Rightarrow> 'v map_answer list option" where
  "run_ops st er fi s [] = Some []"
| "run_ops st er fi s (Set_op k v # rest) =
     do { s' \<leftarrow> st s k v; out \<leftarrow> run_ops st er fi s' rest; Some (Was_set # out) }"
| "run_ops st er fi s (Erase_op k # rest) =
     do { (s', n) \<leftarrow> er s k; out \<leftarrow> run_ops st er fi s' rest; Some (Erased n # out) }"
| "run_ops st er fi s (Find_op k # rest) =
     do { v \<leftarrow> fi s k; out \<leftarrow> run_ops st er fi s rest; Some (Found v # out) }"

fun run_map :: "('k \<rightharpoonup> 'v) \<Rightarrow> ('k, 'v) map_op list \<Rightarrow> 'v map_answer list" where
  "run_map m [] = []"
| "run_map m (Set_op k v # rest) = Was_set # run_map (m(k \<mapsto> v)) rest"
| "run_map m (Erase_op k # rest) =
     Erased (if m k = None then 0 else 1) # run_map (m(k := None)) rest"
| "run_map m (Find_op k # rest) = Found (m k) # run_map m rest"

fun set_keys :: "('k, 'v) map_op list \<Rightarrow> 'k set" where
  "set_keys [] = {}"
| "set_keys (Set_op k v # rest) = insert k (set_keys rest)"
| "set_keys (x # rest) = set_keys rest"

locale map_store =
  fixes inv :: "'s \<Rightarrow> bool"
    and look :: "'s \<Rightarrow> 'k \<Rightarrow> 'v option"
    and used :: "'s \<Rightarrow> nat"
    and cap :: nat
    and bad :: 'k
    and st :: "'s \<Rightarrow> 'k \<Rightarrow> 'v \<Rightarrow> 's option"
    and er :: "'s \<Rightarrow> 'k \<Rightarrow> ('s \<times> nat) option"
    and fi :: "'s \<Rightarrow> 'k \<Rightarrow> 'v option option"
  assumes set_law: "inv s \<Longrightarrow> k \<noteq> bad \<Longrightarrow> used s < cap \<Longrightarrow>
      \<exists>s'. st s k v = Some s' \<and> inv s' \<and> look s' = (look s)(k \<mapsto> v) \<and> used s' \<le> Suc (used s)"
    and erase_law: "inv s \<Longrightarrow>
      \<exists>s'. er s k = Some (s', if look s k = None then 0 else 1) \<and> inv s' \<and> look s' = (look s)(k := None) \<and>
           used s' \<le> used s"
    and find_law: "inv s \<Longrightarrow> fi s k = Some (look s k)"
begin

lemma run_refines:
  "inv s \<Longrightarrow> bad \<notin> set_keys ops \<Longrightarrow> used s + length ops \<le> cap \<Longrightarrow>
   run_ops st er fi s ops = Some (run_map (look s) ops)"
proof (induction ops arbitrary: s)
  case (Cons x rest)
  show ?case
  proof (cases x)
    case (Set_op k v)
    then obtain s' where "st s k v = Some s'" "inv s'" "look s' = (look s)(k \<mapsto> v)" "used s' \<le> Suc (used s)"
      using set_law [of s k v] Cons.prems by auto
    then show ?thesis using Cons Set_op by simp
  next
    case (Erase_op k)
    obtain s' where "er s k = Some (s', if look s k = None then 0 else 1)" "inv s'"
      "look s' = (look s)(k := None)" "used s' \<le> used s"
      using erase_law [of s k] Cons.prems by blast
    then show ?thesis using Cons Erase_op by simp
  next
    case (Find_op k)
    then show ?thesis using Cons find_law [of s k] by simp
  qed
qed simp

end

definition capacity :: "nat \<Rightarrow> nat" where
  "capacity sz = (if 8 \<le> max_buckets sz then (3 * max_buckets sz + 4) div 10 else 0)"

lemma has_capacityI: "used < capacity sz \<Longrightarrow> has_capacity sz used"
  by (auto simp: capacity_def has_capacity_def split: if_splits)

interpretation flat: map_store "table_ok sz hash k0" table_map used_node_count "capacity sz" k0
  "table_set sz hash k0 v0" "table_erase sz hash k0" "table_find hash k0"
  for sz hash k0 v0
proof
  fix t :: "('a, 'b) flat_table" and k v
  assume ok: "table_ok sz hash k0 t"
  show "\<exists>s'. table_set sz hash k0 v0 t k v = Some s' \<and> table_ok sz hash k0 s' \<and>
      table_map s' = (table_map t)(k \<mapsto> v) \<and> used_node_count s' \<le> Suc (used_node_count t)"
    if "k \<noteq> k0" "used_node_count t < capacity sz"
    using table_set_spec [OF ok that(1) has_capacityI [OF that(2)]] by metis
  show "\<exists>s'. table_erase sz hash k0 t k = Some (s', if table_map t k = None then 0 else 1) \<and>
      table_ok sz hash k0 s' \<and> table_map s' = (table_map t)(k := None) \<and> used_node_count s' \<le> used_node_count t"
    using table_erase_spec [OF ok, of k] by (auto simp: erased_def split: if_splits)
  show "table_find hash k0 t k = Some (table_map t k)" using table_find_map [OF core_of_ok [OF ok]] .
qed


subsection \<open>Properties\<close>

text \<open>C8: Any sequence of at most \<open>capacity\<close> assignments, erasures and searches on an empty
  table, whatever the hash function, runs to its end without a failed check and returns what the same
  sequence returns on a partial map.\<close>

theorem flat_table_refines_map:
  assumes "k0 \<notin> set_keys ops" "length ops \<le> capacity sz"
  shows "run_ops (table_set sz hash k0 v0) (table_erase sz hash k0) (table_find hash k0) empty_table ops =
    Some (run_map Map.empty ops)"
  using flat.run_refines [of sz hash k0 empty_table ops v0] assms by simp

theorem flat_table_refines_map_witness:
  "run_ops (table_set 16 (\<lambda>k. 7) (0 :: nat) (0 :: nat)) (table_erase 16 (\<lambda>k. 7) 0) (table_find (\<lambda>k. 7) 0)
     empty_table
     [Set_op 1 10, Set_op 9 20, Set_op 1 30, Find_op 1, Erase_op 1, Find_op 1, Find_op 9, Erase_op 5, Find_op 0] =
   Some [Was_set, Was_set, Was_set, Found (Some 30), Erased 1, Found None, Found (Some 20), Erased 0, Found None]"
  using flat_table_refines_map [of "0 :: nat"
      "[Set_op 1 10, Set_op 9 20, Set_op 1 30, Find_op 1, Erase_op 1, Find_op 1, Find_op 9, Erase_op 5, Find_op 0]"
      16 "\<lambda>k. 7" "0 :: nat"]
  by (simp add: capacity_def max_buckets_def)

text \<open>C20: A table made from a list of nodes keeps the first value of every key; \<open>remove_if\<close> then
  removes exactly the entries that satisfy the predicate, wherever the random bucket lies from which it
  starts; and iterating over what is left, again from any bucket, yields every entry exactly once.\<close>

theorem table_of_nodes_remove_if_entries:
  assumes "length es \<le> 2 ^ 29" "reserve_size (length es) \<le> max_buckets sz" "k0 \<notin> fst ` set es"
  shows "\<exists>t t' t'' out.
    table_of_nodes sz hash k0 es = Some t \<and> remove_if sz hash r f t = Some t' \<and>
    table_entries r' t' = Some (t'', out) \<and> distinct (map fst out) \<and> length out = table_size t' \<and>
    map_of out = (\<lambda>k. case map_of es k of None \<Rightarrow> None | Some v \<Rightarrow> if f k v then None else Some v)"
proof -
  obtain t where t: "table_of_nodes sz hash k0 es = Some t" "table_ok sz hash k0 t" "table_map t = map_of es"
    by (rule table_of_nodes_spec [OF assms])
  obtain t' where t': "remove_if sz hash r f t = Some t'" "table_ok sz hash k0 t'"
    "table_map t' = (\<lambda>k. case table_map t k of None \<Rightarrow> None | Some v \<Rightarrow> if f k v then None else Some v)"
    by (rule remove_if_spec [OF t(2)])
  obtain t'' out where "table_entries r' t' = Some (t'', out)" "distinct (map fst out)"
    "map_of out = table_map t'" "length out = used_node_count t'"
    by (rule table_entries_spec [OF t'(2)])
  then show ?thesis using t t' by (simp add: table_size_def)
qed

theorem table_of_nodes_remove_if_entries_witness:
  "\<exists>t t' t'' out.
    table_of_nodes 16 (\<lambda>k. 3) (0 :: nat) [(1, 5 :: nat), (2, 6), (1, 7), (4, 8)] = Some t \<and>
    remove_if 16 (\<lambda>k. 3) 4 (\<lambda>k v. v = 6) t = Some t' \<and>
    table_entries 9 t' = Some (t'', out) \<and> distinct (map fst out) \<and> length out = table_size t' \<and>
    map_of out = [4 \<mapsto> 8, 1 \<mapsto> 5]"
proof -
  have e: "(\<lambda>k. case map_of [(1 :: nat, 5 :: nat), (2, 6), (1, 7), (4, 8)] k of
              None \<Rightarrow> None | Some v \<Rightarrow> if v = 6 then None else Some v) = [4 \<mapsto> 8, 1 \<mapsto> 5]"
    by auto
  have "reserve_size (length [(1 :: nat, 5 :: nat), (2, 6), (1, 7), (4, 8)]) \<le> max_buckets 16"
    by (simp add: reserve_size_def normalize_flat_hash_table_size_def count_leading_zeroes32_def
        bit_len_pos max_buckets_def)
  then show ?thesis
    unfolding e [symmetric] by (intro table_of_nodes_remove_if_entries) simp_all
qed

end
