(* ===== verification/TlSerialization.thy ===== *)
theory TlSerialization
  imports Prelude Status StringBuilder Utf8 Misc "HOL-Library.Monad_Syntax"
begin

text \<open>
  Binary serialization (\<^verbatim>\<open>pxc/utils/tl_storers.h\<close>, \<^verbatim>\<open>tl_parsers.h\<close>,
  \<^verbatim>\<open>tl_parsers.cpp\<close>, \<^verbatim>\<open>tl_helpers.h\<close>).

  The overloads of \<^verbatim>\<open>store\<close> and \<^verbatim>\<open>parse\<close> are chosen by the C++ type;
  here a value carries its constructor and \<open>parse_tl\<close> takes the type. A \<^verbatim>\<open>store\<close>
  is generic in the storer, so it is the list of the calls it makes; \<^verbatim>\<open>TlStorerUnsafe\<close>
  and \<^verbatim>\<open>TlStorerCalcLength\<close> both run that list. The parser keeps the pointer
  \<^verbatim>\<open>data\<close> as the array it points into, the input or the 32 zero bytes of
  \<^verbatim>\<open>empty_data\<close>, and an offset. \<open>None\<close> is a failed check or a read outside the
  array. Integers in memory are little-endian. A \<^verbatim>\<open>double\<close> is its 64 bits. The copy of a
  misaligned input has no counterpart.
\<close>

subsection \<open>Values and types\<close>

datatype tl_value =
    VBool bool
  | VInt32 uint32
  | VInt64 uint64
  | VDouble uint64
  | VString string
  | VVector "tl_value list"
  | VPair tl_value tl_value
  | VVariant nat tl_value
  | VEmptyVariant
  | VFlags "bool list"

datatype tl_type =
    TBool | TInt32 | TInt64 | TDouble | TString
  | TVector tl_type
  | TPair tl_type tl_type
  | TVariant "tl_type list"
  | TFlags nat

text \<open>The image of an integer in memory.\<close>

fun le_bytes :: "nat \<Rightarrow> nat \<Rightarrow> string" where
  "le_bytes 0 x = []"
| "le_bytes (Suc n) x = chr (x mod 256) # le_bytes n (x div 256)"

fun le_value :: "string \<Rightarrow> nat" where
  "le_value [] = 0"
| "le_value (c # s) = uc c + 256 * le_value s"

subsection \<open>Storers\<close>

datatype tl_call = Store_binary string | Store_slice string | Store_string string

text \<open>\<^verbatim>\<open>TlStorerUnsafe\<close>: the bytes written so far.\<close>

definition string_header :: "nat \<Rightarrow> string option" where
  "string_header len =
     (if len < 254 then Some [chr len]
      else if len < 2 ^ 24 then
        Some [chr 254, chr (len AND 255), chr (drop_bit 8 len AND 255), chr (drop_bit 16 len)]
      else if len < 2 ^ 32 then
        Some [chr 255, chr (len AND 255), chr (drop_bit 8 len AND 255), chr (drop_bit 16 len AND 255),
              chr (drop_bit 24 len AND 255), chr 0, chr 0, chr 0]
      else None)"

definition string_padding :: "nat \<Rightarrow> string" where
  "string_padding len =
     (let len = (if len < 254 then len + 1 else len);
          r = len AND 3
      in if r = 1 then [chr 0, chr 0, chr 0] else if r = 2 then [chr 0, chr 0] else if r = 3 then [chr 0]
         else [])"

definition unsafe_store_string :: "string \<Rightarrow> string \<Rightarrow> string option" where
  "unsafe_store_string buf str =
     map_option (\<lambda>header. buf @ header @ str @ string_padding (length str)) (string_header (length str))"

fun unsafe_call :: "string \<Rightarrow> tl_call \<Rightarrow> string option" where
  "unsafe_call buf (Store_binary img) = Some (buf @ img)"
| "unsafe_call buf (Store_slice s) = Some (buf @ s)"
| "unsafe_call buf (Store_string str) = unsafe_store_string buf str"

fun unsafe_calls :: "string \<Rightarrow> tl_call list \<Rightarrow> string option" where
  "unsafe_calls buf [] = Some buf"
| "unsafe_calls buf (c # cs) = do { buf' \<leftarrow> unsafe_call buf c; unsafe_calls buf' cs }"

text \<open>\<^verbatim>\<open>TlStorerCalcLength\<close>.\<close>

definition calc_store_string :: "nat \<Rightarrow> string \<Rightarrow> nat" where
  "calc_store_string len str =
     (let add = length str;
          add = (if add < 254 then add + 1 else if add < 2 ^ 24 then add + 4 else add + 8)
      in len + (add + 3) div 4 * 4)"

fun calc_call :: "nat \<Rightarrow> tl_call \<Rightarrow> nat" where
  "calc_call len (Store_binary img) = len + length img"
| "calc_call len (Store_slice s) = len + length s"
| "calc_call len (Store_string str) = calc_store_string len str"

definition calc_calls :: "tl_call list \<Rightarrow> nat" where
  "calc_calls cs = foldl calc_call 0 cs"

subsection \<open>Storing\<close>

definition store_int :: "uint32 \<Rightarrow> tl_call" where
  "store_int x = Store_binary (le_bytes 4 (unat x))"

definition store_long :: "uint64 \<Rightarrow> tl_call" where
  "store_long x = Store_binary (le_bytes 8 (unat x))"

text \<open>\<^verbatim>\<open>STORE_FLAG\<close> for each flag between the begin and the end macro.\<close>

fun store_flag :: "uint32 \<times> nat \<Rightarrow> bool \<Rightarrow> uint32 \<times> nat" where
  "store_flag (flags_store, bit_offset_store) flag =
     (flags_store OR push_bit bit_offset_store (of_bool flag), bit_offset_store + 1)"

definition store_flags :: "bool list \<Rightarrow> tl_call list option" where
  "store_flags flags =
     (let (flags_store, bit_offset_store) = foldl store_flag (0, 0) flags
      in if bit_offset_store < 31 then Some [store_int flags_store] else None)"

text \<open>\<^verbatim>\<open>narrow_cast<int32>\<close> of the size of a container.\<close>

definition store_size :: "nat \<Rightarrow> tl_call list option" where
  "store_size n =
     map_option (\<lambda>r. [store_int (word_of_int r)])
       (narrow_cast \<lparr>type_signed = True, type_width = 32\<rparr> \<lparr>type_signed = False, type_width = 64\<rparr> (int n))"

fun append_calls :: "tl_call list option list \<Rightarrow> tl_call list option" where
  "append_calls [] = Some []"
| "append_calls (x # xs) = do { a \<leftarrow> x; b \<leftarrow> append_calls xs; Some (a @ b) }"

primrec store_tl :: "tl_value \<Rightarrow> tl_call list option" where
  "store_tl (VBool x) = Some [store_int (of_bool x)]"
| "store_tl (VInt32 x) = Some [store_int x]"
| "store_tl (VInt64 x) = Some [store_long x]"
| "store_tl (VDouble x) = Some [store_long x]"
| "store_tl (VString s) = Some [Store_string s]"
| "store_tl (VVector vec) =
     do { a \<leftarrow> store_size (length vec); b \<leftarrow> append_calls (List.map store_tl vec); Some (a @ b) }"
| "store_tl (VPair x y) = do { a \<leftarrow> store_tl x; b \<leftarrow> store_tl y; Some (a @ b) }"
| "store_tl (VVariant i x) = do { b \<leftarrow> store_tl x; Some (store_int (of_nat i) # b) }"
| "store_tl VEmptyVariant = Some [store_int (- 1)]"
| "store_tl (VFlags flags) = store_flags flags"

text \<open>\<^verbatim>\<open>tl_calc_length\<close>, \<^verbatim>\<open>tl_store_unsafe\<close>, and
  \<^verbatim>\<open>serialize\<close>, which checks that the storer stops at the end of the buffer.\<close>

definition tl_calc_length :: "tl_value \<Rightarrow> nat option" where
  "tl_calc_length v = map_option calc_calls (store_tl v)"

definition tl_store_unsafe :: "tl_value \<Rightarrow> string option" where
  "tl_store_unsafe v = do { cs \<leftarrow> store_tl v; unsafe_calls [] cs }"

definition serialize :: "tl_value \<Rightarrow> string option" where
  "serialize v =
     do {
       len \<leftarrow> tl_calc_length v;
       data \<leftarrow> tl_store_unsafe v;
       (if length data = len then Some data else None)
     }"

subsection \<open>The parser\<close>

record tl_parser =
  tl_input :: string
  tl_in_input :: bool
  tl_pos :: nat
  tl_data_len :: nat
  tl_left_len :: nat
  tl_error_pos :: "nat option"
  tl_error :: string

definition empty_data :: string where
  "empty_data = replicate 32 (chr 0)"

definition tl_memory :: "tl_parser \<Rightarrow> string" where
  "tl_memory p = (if tl_in_input p then tl_input p else empty_data)"

definition tl_new :: "string \<Rightarrow> tl_parser" where
  "tl_new s =
     \<lparr>tl_input = s, tl_in_input = True, tl_pos = 0, tl_data_len = length s, tl_left_len = length s,
      tl_error_pos = None, tl_error = []\<rparr>"

definition tl_set_error :: "string \<Rightarrow> tl_parser \<Rightarrow> tl_parser option" where
  "tl_set_error msg p =
     (if tl_error p = [] then
        (if msg \<noteq> [] then
           Some (p\<lparr>tl_error := msg, tl_error_pos := Some (tl_data_len p - tl_left_len p),
                   tl_in_input := False, tl_pos := 0, tl_left_len := 0, tl_data_len := 0\<rparr>)
         else None)
      else if tl_error_pos p \<noteq> None \<and> tl_data_len p = 0 \<and> tl_left_len p = 0 then
        Some (p\<lparr>tl_in_input := False, tl_pos := 0\<rparr>)
      else None)"

definition tl_get_status :: "tl_parser \<Rightarrow> status option" where
  "tl_get_status p =
     (if tl_error p = [] then Some None
      else case tl_error_pos p of
             None \<Rightarrow> None
           | Some pos \<Rightarrow> Some (Some (Error_msg (tl_error p @ '' at '' @ print_uint pos))))"

definition tl_check_len :: "nat \<Rightarrow> tl_parser \<Rightarrow> tl_parser option" where
  "tl_check_len len p =
     (if tl_left_len p < len then tl_set_error ''Not enough data to read'' p
      else Some (p\<lparr>tl_left_len := tl_left_len p - len\<rparr>))"

definition tl_byte :: "nat \<Rightarrow> tl_parser \<Rightarrow> nat option" where
  "tl_byte i p =
     (if tl_pos p + i < length (tl_memory p) then Some (uc (tl_memory p ! (tl_pos p + i))) else None)"

text \<open>\<open>n\<close> bytes at an offset from \<^verbatim>\<open>data\<close>.\<close>

definition tl_bytes :: "nat \<Rightarrow> nat \<Rightarrow> tl_parser \<Rightarrow> string option" where
  "tl_bytes i n p =
     (if tl_pos p + i + n \<le> length (tl_memory p) then Some (take n (drop (tl_pos p + i) (tl_memory p)))
      else None)"

definition tl_advance :: "nat \<Rightarrow> tl_parser \<Rightarrow> tl_parser" where
  "tl_advance n p = p\<lparr>tl_pos := tl_pos p + n\<rparr>"

definition can_prefetch_int :: "tl_parser \<Rightarrow> bool" where
  "can_prefetch_int p \<longleftrightarrow> tl_left_len p \<ge> 4"

definition prefetch_int_unsafe :: "tl_parser \<Rightarrow> uint32 option" where
  "prefetch_int_unsafe p = map_option (\<lambda>s. of_nat (le_value s)) (tl_bytes 0 4 p)"

definition fetch_binary_unsafe :: "nat \<Rightarrow> tl_parser \<Rightarrow> (string \<times> tl_parser) option" where
  "fetch_binary_unsafe n p = do { s \<leftarrow> tl_bytes 0 n p; Some (s, tl_advance n p) }"

definition fetch_binary :: "nat \<Rightarrow> tl_parser \<Rightarrow> (string \<times> tl_parser) option" where
  "fetch_binary n p = do { p \<leftarrow> tl_check_len n p; fetch_binary_unsafe n p }"

definition fetch_int :: "tl_parser \<Rightarrow> (uint32 \<times> tl_parser) option" where
  "fetch_int p = map_option (\<lambda>(s, p). (of_nat (le_value s), p)) (fetch_binary 4 p)"

definition fetch_long :: "tl_parser \<Rightarrow> (uint64 \<times> tl_parser) option" where
  "fetch_long p = map_option (\<lambda>(s, p). (of_nat (le_value s), p)) (fetch_binary 8 p)"

definition fetch_double :: "tl_parser \<Rightarrow> (uint64 \<times> tl_parser) option" where
  "fetch_double p = map_option (\<lambda>(s, p). (of_nat (le_value s), p)) (fetch_binary 8 p)"

text \<open>The end of \<^verbatim>\<open>fetch_string\<close>: the text lies at offset \<open>i\<close> before the
  header of \<open>h\<close> bytes is skipped.\<close>

definition fetch_string_body :: "nat \<Rightarrow> nat \<Rightarrow> nat \<Rightarrow> nat \<Rightarrow> tl_parser \<Rightarrow> (string \<times> tl_parser) option" where
  "fetch_string_body i h result_len result_aligned_len p =
     do {
       p' \<leftarrow> tl_check_len result_aligned_len (tl_advance h p);
       (if tl_error p' \<noteq> [] then Some ([], p')
        else do { s \<leftarrow> tl_bytes i result_len p; Some (s, tl_advance result_aligned_len p') })
     }"

definition fetch_string :: "tl_parser \<Rightarrow> (string \<times> tl_parser) option" where
  "fetch_string p =
     do {
       p \<leftarrow> tl_check_len 4 p;
       result_len \<leftarrow> tl_byte 0 p;
       (if result_len < 254 then fetch_string_body 1 4 result_len (result_len div 4 * 4) p
        else if result_len = 254 then
          do {
            s \<leftarrow> tl_bytes 1 3 p;
            (let result_len = le_value s in fetch_string_body 4 4 result_len ((result_len + 3) div 4 * 4) p)
          }
        else
          do {
            p \<leftarrow> tl_check_len 4 p;
            s \<leftarrow> tl_bytes 1 7 p;
            (let result_len = le_value s in
             if result_len > 2 ^ 64 - 1 - 3
             then do { p \<leftarrow> tl_set_error ''Too big string found'' p; Some ([], p) }
             else fetch_string_body 8 8 result_len ((result_len + 3) div 4 * 4) p)
          })
     }"

definition fetch_string_raw :: "nat \<Rightarrow> tl_parser \<Rightarrow> (string \<times> tl_parser) option" where
  "fetch_string_raw n p =
     do {
       p \<leftarrow> tl_check_len n p;
       (if tl_error p \<noteq> [] then Some ([], p) else fetch_binary_unsafe n p)
     }"

definition fetch_end :: "tl_parser \<Rightarrow> tl_parser option" where
  "fetch_end p = (if tl_left_len p \<noteq> 0 then tl_set_error ''Too much data to fetch'' p else Some p)"

subsection \<open>Parsing\<close>

fun default_value :: "tl_type \<Rightarrow> tl_value" where
  "default_value TBool = VBool False"
| "default_value TInt32 = VInt32 0"
| "default_value TInt64 = VInt64 0"
| "default_value TDouble = VDouble 0"
| "default_value TString = VString []"
| "default_value (TVector t) = VVector []"
| "default_value (TPair s t) = VPair (default_value s) (default_value t)"
| "default_value (TVariant ts) = VEmptyVariant"
| "default_value (TFlags n) = VFlags (replicate n False)"

text \<open>\<^verbatim>\<open>PARSE_FLAG\<close> and \<^verbatim>\<open>END_PARSE_FLAGS\<close> for \<open>n\<close> flags.\<close>

definition parse_flags :: "nat \<Rightarrow> tl_parser \<Rightarrow> (tl_value \<times> tl_parser) option" where
  "parse_flags n p =
     do {
       (flags_parse, p) \<leftarrow> fetch_int p;
       (let flags = List.map (\<lambda>i. drop_bit i flags_parse AND 1 \<noteq> 0) [0..<n] in
        if n < 31 then
          (if flags_parse AND NOT (push_bit n 1 - 1) \<noteq> 0 then
             do {
               p \<leftarrow> tl_set_error (''Invalid flags '' @ print_uint (unat flags_parse) @ '' left, current bit is '' @
                      print_uint n) p;
               Some (VFlags flags, p)
             }
           else Some (VFlags flags, p))
        else None)
     }"

text \<open>The loop over the elements of a new vector.\<close>

primrec parse_elements ::
  "(tl_parser \<Rightarrow> (tl_value \<times> tl_parser) option) \<Rightarrow> nat \<Rightarrow> tl_parser \<Rightarrow> (tl_value list \<times> tl_parser) option" where
  "parse_elements f 0 p = Some ([], p)"
| "parse_elements f (Suc n) p =
     do { (v, p) \<leftarrow> f p; (vs, p) \<leftarrow> parse_elements f n p; Some (v # vs, p) }"

primrec parse_tl :: "tl_type \<Rightarrow> tl_parser \<Rightarrow> (tl_value \<times> tl_parser) option" where
  "parse_tl TBool = (\<lambda>p. map_option (\<lambda>(x, p). (VBool (x \<noteq> 0), p)) (fetch_int p))"
| "parse_tl TInt32 = (\<lambda>p. map_option (\<lambda>(x, p). (VInt32 x, p)) (fetch_int p))"
| "parse_tl TInt64 = (\<lambda>p. map_option (\<lambda>(x, p). (VInt64 x, p)) (fetch_long p))"
| "parse_tl TDouble = (\<lambda>p. map_option (\<lambda>(x, p). (VDouble x, p)) (fetch_double p))"
| "parse_tl TString = (\<lambda>p. map_option (\<lambda>(x, p). (VString x, p)) (fetch_string p))"
| "parse_tl (TVector t) = (\<lambda>p.
     do {
       (len, p) \<leftarrow> fetch_int p;
       (if tl_left_len p < unat len
        then do { p \<leftarrow> tl_set_error ''Wrong vector length'' p; Some (VVector [], p) }
        else do { (vs, p) \<leftarrow> parse_elements (parse_tl t) (unat len) p; Some (VVector vs, p) })
     })"
| "parse_tl (TPair s t) = (\<lambda>p.
     do { (x, p) \<leftarrow> parse_tl s p; (y, p) \<leftarrow> parse_tl t p; Some (VPair x y, p) })"
| "parse_tl (TVariant ts) = (\<lambda>p.
     do {
       (type_offset, p) \<leftarrow> fetch_int p;
       (if sint type_offset < 0 \<or> sint type_offset \<ge> int (length ts)
        then do { p \<leftarrow> tl_set_error ''Invalid type'' p; Some (VEmptyVariant, p) }
        else do {
          (x, p) \<leftarrow> (List.map parse_tl ts ! nat (sint type_offset)) p;
          Some (VVariant (nat (sint type_offset)) x, p)
        })
     })"
| "parse_tl (TFlags n) = parse_flags n"

definition unserialize :: "tl_type \<Rightarrow> string \<Rightarrow> (status \<times> tl_value) option" where
  "unserialize t data =
     do {
       (v, p) \<leftarrow> parse_tl t (tl_new data);
       p \<leftarrow> fetch_end p;
       st \<leftarrow> tl_get_status p;
       Some (st, v)
     }"

subsection \<open>Strings of \<^verbatim>\<open>TlBufferParser\<close>\<close>

function last_utf8_character_position_loop :: "string \<Rightarrow> nat \<Rightarrow> nat" where
  "last_utf8_character_position_loop str position =
     (if position \<noteq> 0 \<and> uc (str ! position) AND 0xc0 = 0x80
      then last_utf8_character_position_loop str (position - 1) else position)"
  by pat_completeness auto
termination
  by (relation "measure snd") auto

declare last_utf8_character_position_loop.simps [simp del]

definition last_utf8_character_position :: "string \<Rightarrow> nat option" where
  "last_utf8_character_position str =
     (if str = [] then None else Some (last_utf8_character_position_loop str (length str - 1)))"

definition buffer_fetch_string :: "tl_parser \<Rightarrow> (string \<times> tl_parser) option" where
  "buffer_fetch_string p =
     do {
       (result, p) \<leftarrow> fetch_string p;
       (let result = List.map (\<lambda>c. if c = chr 0 then CHR '' '' else c) result in
        do {
          valid \<leftarrow> check_utf8 result;
          (if valid then Some (result, p)
           else
             do {
               n \<leftarrow> last_utf8_character_position result;
               (let result = take n result in
                do { valid \<leftarrow> check_utf8 result; (if valid then Some (result, p) else Some ([], p)) })
             })
        })
     }"


subsection \<open>Integers in memory\<close>

lemma length_le_bytes [simp]: "length (le_bytes n x) = n"
  by (induction n arbitrary: x) auto

lemma le_value_le_bytes: "le_value (le_bytes n x) = x mod 256 ^ n"
proof (induction n arbitrary: x)
  case (Suc n)
  have "x mod 256 + 256 * (x div 256 mod 256 ^ n) = x mod (256 * 256 ^ n)"
    by (simp add: mod_mult2_eq)
  then show ?case using Suc by simp
qed simp

lemma le_int_roundtrip [simp]: "of_nat (le_value (le_bytes 4 (unat x))) = (x :: uint32)"
proof -
  have "unat x < 2 ^ LENGTH(32)" by (rule unsigned_less)
  then show ?thesis by (simp add: le_value_le_bytes)
qed

lemma le_long_roundtrip [simp]: "of_nat (le_value (le_bytes 8 (unat x))) = (x :: uint64)"
proof -
  have "unat x < 2 ^ LENGTH(64)" by (rule unsigned_less)
  then show ?thesis by (simp add: le_value_le_bytes)
qed

lemma and_255: "n AND 255 = n mod 256" for n :: nat
  using nat_mask [of n 8] by simp

lemma shift_bytes:
  "drop_bit 8 n = n div 256" "drop_bit 16 n = n div 256 div 256" "drop_bit 24 n = n div 256 div 256 div 256"
  for n :: nat
  unfolding nat_shiftr div_mult2_eq [symmetric] by simp_all

lemma header_mid:
  assumes "len < 2 ^ 24"
  shows "[chr (len AND 255), chr (drop_bit 8 len AND 255), chr (drop_bit 16 len)] = le_bytes 3 len"
proof -
  have "len < 16777216" using assms by simp
  then have "len div 256 div 256 < 256" by linarith
  then have m: "len div 256 div 256 mod 256 = len div 256 div 256" by (rule mod_less)
  show ?thesis unfolding and_255 shift_bytes numeral_3_eq_3 le_bytes.simps m ..
qed

lemma header_long:
  assumes "len < 2 ^ 32"
  shows "[chr (len AND 255), chr (drop_bit 8 len AND 255), chr (drop_bit 16 len AND 255),
          chr (drop_bit 24 len AND 255), chr 0, chr 0, chr 0] = le_bytes 7 len"
proof -
  have "len < 4294967296" using assms by simp
  then have z: "len div 256 div 256 div 256 div 256 = 0" by linarith
  have seven: "(7 :: nat) = Suc (Suc (Suc (Suc (Suc (Suc (Suc 0))))))" by simp
  show ?thesis unfolding and_255 shift_bytes seven le_bytes.simps z by simp
qed

subsection \<open>The storers agree on the length\<close>

lemma and_3: "n AND 3 = n mod 4" for n :: nat
  using nat_mask [of n 2] by simp

lemma pad_eq:
  assumes "r < (4 :: nat)"
  shows "(if r = 1 then [c, c, c] else if r = 2 then [c, c] else if r = 3 then [c] else []) =
    replicate ((4 - r) mod 4) c"
proof -
  consider "r = 0" | "r = 1" | "r = 2" | "r = 3" using assms by linarith
  moreover have "replicate 3 c = [c, c, c]" "replicate 2 c = [c, c]"
    unfolding numeral_3_eq_3 numeral_2_eq_2 by simp_all
  ultimately show ?thesis by cases simp_all
qed

lemma string_padding_eq:
  "string_padding len = replicate ((4 - (if len < 254 then len + 1 else len) mod 4) mod 4) (chr 0)"
  unfolding string_padding_def Let_def and_3 by (rule pad_eq) simp

lemma string_headerE:
  assumes "string_header len = Some h"
  obtains "len < 254" "h = [chr len]"
    | "254 \<le> len" "len < 2 ^ 24" "h = chr 254 # le_bytes 3 len"
    | "254 \<le> len" "2 ^ 24 \<le> len" "len < 2 ^ 32" "h = chr 255 # le_bytes 7 len"
proof -
  consider "len < 254" | "254 \<le> len" "len < 2 ^ 24" | "254 \<le> len" "2 ^ 24 \<le> len" "len < 2 ^ 32" | "2 ^ 32 \<le> len"
    by linarith
  then show thesis
  proof cases
    case 1
    then show thesis using assms that(1) by (simp add: string_header_def)
  next
    case 2
    then show thesis using assms that(2) header_mid [OF 2(2)] unfolding string_header_def by auto
  next
    case 3
    then show thesis using assms that(3) header_long [OF 3(3)] unfolding string_header_def by auto
  next
    case 4
    then have "\<not> len < 254" "\<not> len < 2 ^ 24" "\<not> len < 2 ^ 32" by simp_all
    then show thesis using assms unfolding string_header_def by simp
  qed
qed

lemma length_string_header:
  assumes "string_header len = Some h"
  shows "length h = (if len < 254 then 1 else if len < 2 ^ 24 then 4 else 8)"
  using assms by (rule string_headerE) simp_all

lemma padded_length: "(n :: nat) + (4 - n mod 4) mod 4 = (n + 3) div 4 * 4"
proof -
  define q r where "q = n div 4" and "r = n mod 4"
  have n: "n = 4 * q + r" "r < 4" by (simp_all add: q_def r_def)
  then consider "r = 0" | "r = 1" | "r = 2" | "r = 3" by linarith
  then have "4 * q + r + (4 - r) mod 4 = (4 * q + r + 3) div 4 * 4" by cases simp_all
  then have "n + (4 - r) mod 4 = (n + 3) div 4 * 4" by (simp only: n(1) [symmetric])
  then show ?thesis by (simp only: r_def)
qed

lemma padded_add: "((n :: nat) + 4 + 3) div 4 * 4 = (n + 3) div 4 * 4 + 4" "(n + 8 + 3) div 4 * 4 = (n + 3) div 4 * 4 + 8"
proof -
  have 4: "(m + 4) div 4 = m div 4 + 1" for m :: nat by (rule div_add_self2) simp
  have "n + 4 + 3 = n + 3 + 4" "n + 8 + 3 = n + 3 + 4 + 4" by simp_all
  then show "(n + 4 + 3) div 4 * 4 = (n + 3) div 4 * 4 + 4" "(n + 8 + 3) div 4 * 4 = (n + 3) div 4 * 4 + 8"
    by (simp_all only: 4 add_mult_distrib)
qed

lemma unsafe_call_length:
  assumes "unsafe_call buf c = Some buf'"
  shows "length buf' = calc_call (length buf) c"
proof (cases c)
  case (Store_string str)
  let ?len = "length str"
  obtain h where h: "string_header ?len = Some h" "buf' = buf @ h @ str @ string_padding ?len"
    using assms Store_string by (auto simp: unsafe_store_string_def)
  note L = length_string_header [OF h(1)]
  show ?thesis
  proof (cases "?len < 254")
    case True
    then show ?thesis
      using h(2) L Store_string padded_length [of "?len + 1"]
      by (simp add: calc_store_string_def string_padding_eq)
  next
    case False
    then show ?thesis
      using False h(2) L Store_string padded_length [of ?len] padded_add [of ?len]
      by (auto simp: calc_store_string_def string_padding_eq Let_def)
  qed
qed (use assms in auto)

lemma unsafe_calls_length:
  "unsafe_calls buf cs = Some buf' \<Longrightarrow> length buf' = foldl calc_call (length buf) cs"
proof (induction cs arbitrary: buf)
  case (Cons c cs)
  then show ?case using unsafe_call_length by (auto split: bind_splits)
qed simp

lemma unsafe_call_append: "unsafe_call buf c = map_option (\<lambda>s. buf @ s) (unsafe_call [] c)"
  by (cases c) (auto simp: unsafe_store_string_def option.map_comp o_def)

lemma unsafe_calls_prefix: "unsafe_calls buf cs = map_option (\<lambda>s. buf @ s) (unsafe_calls [] cs)"
proof (induction cs arbitrary: buf)
  case (Cons c cs)
  show ?case
  proof (cases "unsafe_call [] c")
    case None
    then show ?thesis using unsafe_call_append [of buf c] by simp
  next
    case (Some s)
    then show ?thesis
      using unsafe_call_append [of buf c] Cons.IH [of "buf @ s"] Cons.IH [of s]
      by (simp add: option.map_comp o_def)
  qed
qed simp

lemma unsafe_calls_append:
  "unsafe_calls [] a = Some s \<Longrightarrow> unsafe_calls [] b = Some t \<Longrightarrow> unsafe_calls [] (a @ b) = Some (s @ t)"
proof -
  have "unsafe_calls buf (a @ b) = Option.bind (unsafe_calls buf a) (\<lambda>s. unsafe_calls s b)" for buf
    by (induction a arbitrary: buf) (auto split: bind_splits)
  then show "unsafe_calls [] a = Some s \<Longrightarrow> unsafe_calls [] b = Some t \<Longrightarrow> ?thesis"
    using unsafe_calls_prefix [of s b] by simp
qed

lemma serialize_eq: "serialize v = tl_store_unsafe v"
proof (cases "store_tl v")
  case (Some cs)
  then show ?thesis
    using unsafe_calls_length [of "[]" cs]
    by (auto simp: serialize_def tl_calc_length_def tl_store_unsafe_def calc_calls_def split: bind_splits)
qed (simp add: serialize_def tl_calc_length_def tl_store_unsafe_def)


subsection \<open>Types of values\<close>

primrec has_type :: "tl_type \<Rightarrow> tl_value \<Rightarrow> bool" where
  "has_type TBool = (\<lambda>v. case v of VBool _ \<Rightarrow> True | _ \<Rightarrow> False)"
| "has_type TInt32 = (\<lambda>v. case v of VInt32 _ \<Rightarrow> True | _ \<Rightarrow> False)"
| "has_type TInt64 = (\<lambda>v. case v of VInt64 _ \<Rightarrow> True | _ \<Rightarrow> False)"
| "has_type TDouble = (\<lambda>v. case v of VDouble _ \<Rightarrow> True | _ \<Rightarrow> False)"
| "has_type TString = (\<lambda>v. case v of VString _ \<Rightarrow> True | _ \<Rightarrow> False)"
| "has_type (TVector t) = (\<lambda>v. case v of VVector vs \<Rightarrow> list_all (has_type t) vs | _ \<Rightarrow> False)"
| "has_type (TPair s t) = (\<lambda>v. case v of VPair x y \<Rightarrow> has_type s x \<and> has_type t y | _ \<Rightarrow> False)"
| "has_type (TVariant ts) =
     (\<lambda>v. case v of VVariant i x \<Rightarrow> i < length ts \<and> (List.map has_type ts ! i) x | _ \<Rightarrow> False)"
| "has_type (TFlags n) = (\<lambda>v. case v of VFlags flags \<Rightarrow> length flags = n | _ \<Rightarrow> False)"

text \<open>The limits of the format: sizes of containers, alternatives and strings.\<close>

primrec storable :: "tl_value \<Rightarrow> bool" where
  "storable (VBool x) = True"
| "storable (VInt32 x) = True"
| "storable (VInt64 x) = True"
| "storable (VDouble x) = True"
| "storable (VString s) = (length s < 2 ^ 32)"
| "storable (VVector vs) = (length vs < 2 ^ 31 \<and> list_all storable vs)"
| "storable (VPair x y) = (storable x \<and> storable y)"
| "storable (VVariant i x) = (i < 2 ^ 31 \<and> storable x)"
| "storable VEmptyVariant = False"
| "storable (VFlags flags) = (length flags < 31)"

text \<open>A type is usable when every flag block is short enough for its check.\<close>

primrec type_ok :: "tl_type \<Rightarrow> bool" where
  "type_ok TBool = True"
| "type_ok TInt32 = True"
| "type_ok TInt64 = True"
| "type_ok TDouble = True"
| "type_ok TString = True"
| "type_ok (TVector t) = type_ok t"
| "type_ok (TPair s t) = (type_ok s \<and> type_ok t)"
| "type_ok (TVariant ts) = (length ts < 2 ^ 31 \<and> list_all type_ok ts)"
| "type_ok (TFlags n) = (n < 31)"

lemma has_typeD:
  "has_type TBool v \<Longrightarrow> \<exists>x. v = VBool x"
  "has_type TInt32 v \<Longrightarrow> \<exists>x. v = VInt32 x"
  "has_type TInt64 v \<Longrightarrow> \<exists>y. v = VInt64 y"
  "has_type TDouble v \<Longrightarrow> \<exists>y. v = VDouble y"
  "has_type TString v \<Longrightarrow> \<exists>s. v = VString s"
  "has_type (TVector t) v \<Longrightarrow> \<exists>vs. v = VVector vs \<and> list_all (has_type t) vs"
  "has_type (TPair t u) v \<Longrightarrow> \<exists>a b. v = VPair a b \<and> has_type t a \<and> has_type u b"
  "has_type (TVariant ts) v \<Longrightarrow> \<exists>i a. v = VVariant i a \<and> i < length ts \<and> has_type (ts ! i) a"
  "has_type (TFlags n) v \<Longrightarrow> \<exists>flags. v = VFlags flags \<and> length flags = n"
  by (auto split: tl_value.splits)

subsection \<open>A parser without an error reads the input\<close>

text \<open>\<open>reading k p rest\<close>: \<open>rest\<close> lies in front of the parser, which has already counted
  off \<open>k\<close> bytes of it.\<close>

definition reading :: "nat \<Rightarrow> tl_parser \<Rightarrow> string \<Rightarrow> bool" where
  "reading k p rest \<longleftrightarrow>
     tl_error p = [] \<and> tl_in_input p \<and> tl_pos p \<le> length (tl_input p) \<and>
     drop (tl_pos p) (tl_input p) = rest \<and> tl_left_len p + k = length rest \<and>
     tl_data_len p = length (tl_input p)"

lemma reading_new: "reading 0 (tl_new s) s"
  by (simp add: reading_def tl_new_def)

lemma reading_error: "reading k p rest \<Longrightarrow> tl_error p = []"
  by (simp add: reading_def)

lemma reading_left: "reading k p rest \<Longrightarrow> tl_left_len p = length rest - k"
  by (auto simp: reading_def)

lemma reading_check_len:
  assumes "reading k p rest" "n + k \<le> length rest"
  obtains p' where "tl_check_len n p = Some p'" "reading (n + k) p' rest"
  using assms by (simp add: reading_def tl_check_len_def)

lemma reading_length: "reading k p rest \<Longrightarrow> length rest = length (tl_input p) - tl_pos p"
  by (auto simp: reading_def)

lemma reading_advance:
  assumes "reading k p rest" "n \<le> k" "k \<le> length rest"
  shows "reading (k - n) (tl_advance n p) (drop n rest)"
proof -
  have l: "length rest = length (tl_input p) - tl_pos p" using reading_length [OF assms(1)] .
  have "drop (tl_pos p + n) (tl_input p) = drop n rest"
    using assms(1) by (auto simp: reading_def add.commute)
  then show ?thesis using assms l by (auto simp: reading_def tl_advance_def)
qed

lemma reading_bytes:
  assumes "reading k p rest" "i + n \<le> length rest"
  shows "tl_bytes i n p = Some (take n (drop i rest))"
  using assms reading_length [OF assms(1)]
  by (auto simp: tl_bytes_def tl_memory_def reading_def add.commute add.left_commute)

lemma reading_byte:
  assumes "reading k p rest" "i < length rest"
  shows "tl_byte i p = Some (uc (rest ! i))"
  using assms reading_length [OF assms(1)] by (auto simp: tl_byte_def tl_memory_def reading_def)

lemma fetch_binary_reading:
  assumes "reading 0 p (img @ r)" "length img = n"
  obtains p' where "fetch_binary n p = Some (img, p')" "reading 0 p' r"
proof -
  obtain p1 where p1: "tl_check_len n p = Some p1" "reading n p1 (img @ r)"
    using reading_check_len [OF assms(1), of n] assms(2) by auto
  have "tl_bytes 0 n p1 = Some img" using reading_bytes [OF p1(2), of 0 n] assms(2) by simp
  then show thesis
    using that [of "tl_advance n p1"] p1(1) reading_advance [OF p1(2), of n] assms(2)
    by (simp add: fetch_binary_def fetch_binary_unsafe_def)
qed

lemma fetch_int_reading:
  assumes "reading 0 p (le_bytes 4 (unat x) @ r)"
  obtains p' where "fetch_int p = Some (x, p')" "reading 0 p' r"
  using fetch_binary_reading [OF assms, of 4] by (force simp: fetch_int_def)

lemma fetch_long_reading:
  assumes "reading 0 p (le_bytes 8 (unat x) @ r)"
  obtains p' where "fetch_long p = Some (x, p')" "reading 0 p' r"
  using fetch_binary_reading [OF assms, of 8] by (force simp: fetch_long_def)

lemma fetch_double_reading:
  assumes "reading 0 p (le_bytes 8 (unat x) @ r)"
  obtains p' where "fetch_double p = Some (x, p')" "reading 0 p' r"
  using fetch_binary_reading [OF assms, of 8] by (force simp: fetch_double_def)

lemma fetch_string_body_reading:
  assumes p: "reading h p rest" and len: "h + al \<le> length rest" "i + rl \<le> h + al"
  obtains p' where "fetch_string_body i h rl al p = Some (take rl (drop i rest), p')"
    "reading 0 p' (drop (h + al) rest)"
proof -
  have r: "reading 0 (tl_advance h p) (drop h rest)"
    using reading_advance [OF p order_refl] len(1) by simp
  have al: "al \<le> length (drop h rest)" using len(1) by simp
  obtain p1 where p1: "tl_check_len al (tl_advance h p) = Some p1" "reading al p1 (drop h rest)"
    using reading_check_len [OF r, of al] al by auto
  have "tl_bytes i rl p = Some (take rl (drop i rest))" using reading_bytes [OF p] len by simp
  then show thesis
    using that [of "tl_advance al p1"] p1 reading_error [OF p1(2)] reading_advance [OF p1(2) order_refl] len(1)
    by (simp add: fetch_string_body_def add.commute)
qed

lemma fetch_string_reading:
  assumes h: "string_header (length s) = Some header"
    and p: "reading 0 p (header @ s @ string_padding (length s) @ r)"
  obtains p' where "fetch_string p = Some (s, p')" "reading 0 p' r"
proof -
  let ?len = "length s" and ?pad = "string_padding (length s)"
  let ?rest = "header @ s @ ?pad @ r"
  note res = that
  have pad: "length ?pad = (4 - (if ?len < 254 then ?len + 1 else ?len) mod 4) mod 4"
    by (simp add: string_padding_eq)
  have fin: thesis
    if q: "reading h q ?rest" and e: "fetch_string p = fetch_string_body (length header) h ?len al q"
      and al: "h + al = length header + ?len + length ?pad" for q h al
  proof -
    obtain p' where "fetch_string_body (length header) h ?len al q = Some (s, p')" "reading 0 p' r"
      using fetch_string_body_reading [OF q, of al "length header" ?len] al by auto
    then show thesis using res e by simp
  qed
  have four: "4 \<le> length header + ?len + length ?pad"
    using length_string_header [OF h] padded_length [of "?len + 1"] pad by (auto split: if_splits)
  obtain p1 where p1: "tl_check_len 4 p = Some p1" "reading 4 p1 ?rest"
    using reading_check_len [OF p, of 4] four by auto
  from h show thesis
  proof (rule string_headerE)
    assume c: "?len < 254" "header = [chr ?len]"
    have "tl_byte 0 p1 = Some ?len" using reading_byte [OF p1(2), of 0] c by simp
    then have e: "fetch_string p = fetch_string_body (length header) 4 ?len (?len div 4 * 4) p1"
      using p1(1) c by (simp add: fetch_string_def Let_def)
    have "(?len + 4) div 4 = ?len div 4 + 1" by (rule div_add_self2) simp
    then have "(?len + 4) div 4 * 4 = ?len div 4 * 4 + 4" by (simp only: add_mult_distrib mult_1)
    then show thesis
      using fin [OF p1(2) e] padded_length [of "?len + 1"] pad c by (simp add: add.commute)
  next
    assume c: "254 \<le> ?len" "?len < 2 ^ 24" "header = chr 254 # le_bytes 3 ?len"
    have "tl_byte 0 p1 = Some 254" using reading_byte [OF p1(2), of 0] c by simp
    moreover have "tl_bytes 1 3 p1 = Some (le_bytes 3 ?len)" using reading_bytes [OF p1(2), of 1 3] c by simp
    moreover have "le_value (le_bytes 3 ?len) = ?len" using c(2) by (simp add: le_value_le_bytes)
    ultimately have e: "fetch_string p = fetch_string_body (length header) 4 ?len ((?len + 3) div 4 * 4) p1"
      using p1(1) c by (simp add: fetch_string_def Let_def)
    show thesis
      using fin [OF p1(2) e] padded_length [of ?len] pad c by simp
  next
    assume c: "254 \<le> ?len" "2 ^ 24 \<le> ?len" "?len < 2 ^ 32" "header = chr 255 # le_bytes 7 ?len"
    obtain p2 where p2: "tl_check_len 4 p1 = Some p2" "reading 8 p2 ?rest"
      using reading_check_len [OF p1(2), of 4] c by auto
    have "tl_byte 0 p1 = Some 255" using reading_byte [OF p1(2), of 0] c by simp
    moreover have "tl_bytes 1 7 p2 = Some (le_bytes 7 ?len)" using reading_bytes [OF p2(2), of 1 7] c by simp
    moreover have "le_value (le_bytes 7 ?len) = ?len" using c(3) by (simp add: le_value_le_bytes)
    moreover have "\<not> ?len > 2 ^ 64 - 1 - 3" using c(3) by simp
    ultimately have e: "fetch_string p = fetch_string_body (length header) 8 ?len ((?len + 3) div 4 * 4) p2"
      using p1(1) p2(1) c by (simp add: fetch_string_def Let_def)
    show thesis
      using fin [OF p2(2) e] padded_length [of ?len] pad c by simp
  qed
qed


subsection \<open>Flags\<close>

lemma foldl_store_flag:
  "length flags \<le> 32 \<Longrightarrow>
   snd (foldl store_flag (0, 0) flags) = length flags \<and>
   (\<forall>i<32. bit (fst (foldl store_flag (0, 0) flags)) i = (i < length flags \<and> flags ! i))"
proof (induction flags rule: rev_induct)
  case (snoc x flags)
  then obtain w where w: "foldl store_flag (0, 0) flags = (w, length flags)"
    and b: "\<And>i. i < 32 \<Longrightarrow> bit w i = (i < length flags \<and> flags ! i)"
    by (cases "foldl store_flag (0, 0) flags") auto
  have "bit (w OR push_bit (length flags) (of_bool x)) i = (i < length (flags @ [x]) \<and> (flags @ [x]) ! i)"
    if "i < 32" for i
    using b [OF that] that snoc.prems by (auto simp: bit_simps nth_append)
  then show ?case using w by simp
qed simp

lemma flags_word:
  assumes "length flags < 31" "foldl store_flag (0, 0) flags = (w, n)"
  shows "n = length flags" "List.map (\<lambda>i. drop_bit i w AND 1 \<noteq> 0) [0..<n] = flags"
    "w AND NOT (push_bit n 1 - 1) = 0"
proof -
  have f: "n = length flags" "\<And>i. i < 32 \<Longrightarrow> bit w i = (i < length flags \<and> flags ! i)"
    using foldl_store_flag [of flags] assms by auto
  show "n = length flags" by (rule f(1))
  have "drop_bit i w AND 1 \<noteq> 0 \<longleftrightarrow> bit w i" for i
    by (simp add: bit_iff_and_drop_bit_eq_1 and_one_eq)
  then show "List.map (\<lambda>i. drop_bit i w AND 1 \<noteq> 0) [0..<n] = flags"
    using f assms(1) by (intro nth_equalityI) auto
  have "push_bit n 1 - 1 = (mask n :: uint32)" by (simp add: mask_eq_exp_minus_1 push_bit_eq_mult)
  then show "w AND NOT (push_bit n 1 - 1) = 0"
    using f by (auto intro!: bit_word_eqI simp: bit_simps)
qed

subsection \<open>What is stored is read back\<close>

definition stores :: "tl_value \<Rightarrow> string \<Rightarrow> bool" where
  "stores v s \<longleftrightarrow> tl_store_unsafe v = Some s"

definition reads :: "tl_type \<Rightarrow> tl_value \<Rightarrow> string \<Rightarrow> bool" where
  "reads t v s \<longleftrightarrow>
     4 \<le> length s \<and>
     (\<forall>p r. reading 0 p (s @ r) \<longrightarrow> (\<exists>p'. parse_tl t p = Some (v, p') \<and> reading 0 p' r))"

lemma readsE:
  assumes "reads t v s" "reading 0 p (s @ r)"
  obtains p' where "parse_tl t p = Some (v, p')" "reading 0 p' r"
  using assms unfolding reads_def by blast

lemma unsafe_call_int [simp]: "unsafe_call buf (store_int x) = Some (buf @ le_bytes 4 (unat x))"
  by (simp add: store_int_def)

lemma unsafe_call_long [simp]: "unsafe_call buf (store_long x) = Some (buf @ le_bytes 8 (unat x))"
  by (simp add: store_long_def)

lemma unsafe_store_int [simp]: "unsafe_calls [] (store_int x # cs) = map_option (\<lambda>s. le_bytes 4 (unat x) @ s) (unsafe_calls [] cs)"
  using unsafe_calls_prefix [of "le_bytes 4 (unat x)" cs] by (simp add: store_int_def)

lemma unsafe_store_long [simp]: "unsafe_calls [] (store_long x # cs) = map_option (\<lambda>s. le_bytes 8 (unat x) @ s) (unsafe_calls [] cs)"
  using unsafe_calls_prefix [of "le_bytes 8 (unat x)" cs] by (simp add: store_long_def)

lemma store_size_eq: "n < 2 ^ 31 \<Longrightarrow> store_size n = Some [store_int (of_nat n)]"
  by (simp add: store_size_def narrow_cast_def convert_int_def)

lemma header_exists: "len < 2 ^ 32 \<Longrightarrow> \<exists>h. string_header len = Some h"
  unfolding string_header_def by (simp only: if_True split: if_split) blast

lemma string_reads:
  assumes "length s < 2 ^ 32"
  shows "\<exists>t. stores (VString s) t \<and> reads TString (VString s) t"
proof -
  obtain h where h: "string_header (length s) = Some h" using header_exists assms by blast
  let ?t = "h @ s @ string_padding (length s)"
  have "4 \<le> length ?t"
    using length_string_header [OF h] padded_length [of "length s + 1"] by (auto simp: string_padding_eq split: if_splits)
  moreover have "\<exists>p'. parse_tl TString p = Some (VString s, p') \<and> reading 0 p' r" if "reading 0 p (?t @ r)" for p r
  proof -
    have q: "reading 0 p (h @ s @ string_padding (length s) @ r)" using that by simp
    obtain p' where "fetch_string p = Some (s, p')" "reading 0 p' r"
      by (rule fetch_string_reading [OF h q])
    then show ?thesis by simp
  qed
  ultimately show ?thesis
    using h by (auto simp: stores_def reads_def tl_store_unsafe_def unsafe_store_string_def)
qed

lemma elements_read:
  assumes "list_all (\<lambda>v. \<exists>s. stores v s \<and> reads t v s) vs"
  shows "\<exists>cs s. append_calls (List.map store_tl vs) = Some cs \<and> unsafe_calls [] cs = Some s \<and> length vs \<le> length s \<and>
    (\<forall>p r. reading 0 p (s @ r) \<longrightarrow>
       (\<exists>p'. parse_elements (parse_tl t) (length vs) p = Some (vs, p') \<and> reading 0 p' r))"
  using assms
proof (induction vs)
  case (Cons v vs)
  obtain cs s where rest: "append_calls (List.map store_tl vs) = Some cs" "unsafe_calls [] cs = Some s"
    "length vs \<le> length s"
    "\<And>p r. reading 0 p (s @ r) \<Longrightarrow>
       \<exists>p'. parse_elements (parse_tl t) (length vs) p = Some (vs, p') \<and> reading 0 p' r"
    using Cons.IH Cons.prems by auto
  obtain s0 where v: "stores v s0" "reads t v s0" using Cons.prems by auto
  then obtain cs0 where cs0: "store_tl v = Some cs0" "unsafe_calls [] cs0 = Some s0"
    by (auto simp: stores_def tl_store_unsafe_def split: bind_splits)
  have "\<exists>p'. parse_elements (parse_tl t) (length (v # vs)) p = Some (v # vs, p') \<and> reading 0 p' r"
    if "reading 0 p ((s0 @ s) @ r)" for p r
  proof -
    have q: "reading 0 p (s0 @ s @ r)" using that by simp
    obtain p1 where p1: "parse_tl t p = Some (v, p1)" "reading 0 p1 (s @ r)"
      by (rule readsE [OF v(2) q])
    then show ?thesis using rest(4) [OF p1(2)] by auto
  qed
  moreover have "length (v # vs) \<le> length (s0 @ s)" using rest(3) v(2) by (simp add: reads_def)
  ultimately show ?case
    using rest(1) cs0 unsafe_calls_append [OF cs0(2) rest(2)]
    by (intro exI [of _ "cs0 @ cs"] exI [of _ "s0 @ s"]) simp
qed auto


lemma int_reads:
  "\<exists>p'. fetch_int p = Some (x, p') \<and> reading 0 p' r" if "reading 0 p (le_bytes 4 (unat x) @ r)"
  using fetch_int_reading [OF that] by blast

lemma long_reads:
  "\<exists>p'. fetch_long p = Some (x, p') \<and> reading 0 p' r" if "reading 0 p (le_bytes 8 (unat x) @ r)"
  using fetch_long_reading [OF that] by blast

lemma double_reads:
  "\<exists>p'. fetch_double p = Some (x, p') \<and> reading 0 p' r" if "reading 0 p (le_bytes 8 (unat x) @ r)"
  using fetch_double_reading [OF that] by blast

lemma bool_word: "(of_bool b :: uint32) \<noteq> 0 \<longleftrightarrow> b"
  by simp

lemma storable_reads:
  "has_type t v \<Longrightarrow> storable v \<Longrightarrow> \<exists>s. stores v s \<and> reads t v s"
proof (induction t arbitrary: v)
  case TBool
  then obtain b where v: "v = VBool b" using has_typeD(1) by blast
  have "reads TBool v (le_bytes 4 (unat (of_bool b :: uint32)))"
    unfolding reads_def v using int_reads [of _ "of_bool b"] by fastforce
  then show ?case by (intro exI conjI) (auto simp: v stores_def tl_store_unsafe_def)
next
  case TInt32
  then obtain x where v: "v = VInt32 x" using has_typeD(2) by blast
  have "reads TInt32 v (le_bytes 4 (unat x))"
    unfolding reads_def v using int_reads [of _ x] by fastforce
  then show ?case by (auto simp: v stores_def tl_store_unsafe_def)
next
  case TInt64
  then obtain x where v: "v = VInt64 x" using has_typeD(3) by blast
  have "reads TInt64 v (le_bytes 8 (unat x))"
    unfolding reads_def v using long_reads [of _ x] by fastforce
  then show ?case by (auto simp: v stores_def tl_store_unsafe_def)
next
  case TDouble
  then obtain x where v: "v = VDouble x" using has_typeD(4) by blast
  have "reads TDouble v (le_bytes 8 (unat x))"
    unfolding reads_def v using double_reads [of _ x] by fastforce
  then show ?case by (auto simp: v stores_def tl_store_unsafe_def)
next
  case TString
  then obtain s where v: "v = VString s" using has_typeD(5) by blast
  then show ?case using string_reads TString by simp
next
  case (TVector t)
  then obtain vs where v: "v = VVector vs" "list_all (has_type t) vs" "length vs < 2 ^ 31" "list_all storable vs"
    using has_typeD(6) [of t v] by auto
  have "list_all (\<lambda>v. \<exists>s. stores v s \<and> reads t v s) vs"
    using TVector.IH v(2,4) by (auto simp: list_all_iff)
  then obtain cs s where e: "append_calls (List.map store_tl vs) = Some cs" "unsafe_calls [] cs = Some s"
    "length vs \<le> length s"
    "\<And>p r. reading 0 p (s @ r) \<Longrightarrow>
       \<exists>p'. parse_elements (parse_tl t) (length vs) p = Some (vs, p') \<and> reading 0 p' r"
    using elements_read by blast
  let ?x = "of_nat (length vs) :: uint32"
  have u: "unat ?x = length vs" using v(3) by (simp add: unat_of_nat)
  have "stores v (le_bytes 4 (length vs) @ s)"
    using v(1) e(1,2) u store_size_eq [OF v(3)] unsafe_calls_prefix [of "le_bytes 4 (length vs)" cs]
    by (simp add: stores_def tl_store_unsafe_def)
  moreover have "\<exists>p'. parse_tl (TVector t) p = Some (v, p') \<and> reading 0 p' r"
    if "reading 0 p ((le_bytes 4 (length vs) @ s) @ r)" for p r
  proof -
    have "reading 0 p (le_bytes 4 (unat ?x) @ s @ r)" using that u by simp
    then obtain p1 where p1: "fetch_int p = Some (?x, p1)" "reading 0 p1 (s @ r)"
      using int_reads by blast
    moreover have "\<not> tl_left_len p1 < length vs" using reading_left [OF p1(2)] e(3) by simp
    ultimately show ?thesis using e(4) [OF p1(2)] u v(1) by auto
  qed
  ultimately show ?case by (intro exI [of _ "le_bytes 4 (length vs) @ s"]) (auto simp: reads_def)
next
  case (TPair t u)
  then obtain a b where v: "v = VPair a b" "has_type t a" "has_type u b" "storable a" "storable b"
    using has_typeD(7) [of t u v] by auto
  obtain s1 s2 where s: "stores a s1" "reads t a s1" "stores b s2" "reads u b s2"
    using TPair.IH v by blast
  then obtain cs1 cs2 where "store_tl a = Some cs1" "unsafe_calls [] cs1 = Some s1"
    "store_tl b = Some cs2" "unsafe_calls [] cs2 = Some s2"
    by (auto simp: stores_def tl_store_unsafe_def split: bind_splits)
  then have "stores v (s1 @ s2)"
    using unsafe_calls_append v(1) by (simp add: stores_def tl_store_unsafe_def)
  moreover have "\<exists>p'. parse_tl (TPair t u) p = Some (v, p') \<and> reading 0 p' r"
    if "reading 0 p ((s1 @ s2) @ r)" for p r
  proof -
    have q: "reading 0 p (s1 @ s2 @ r)" using that by simp
    obtain p1 where p1: "parse_tl t p = Some (a, p1)" "reading 0 p1 (s2 @ r)" by (rule readsE [OF s(2) q])
    obtain p2 where "parse_tl u p1 = Some (b, p2)" "reading 0 p2 r" by (rule readsE [OF s(4) p1(2)])
    then show ?thesis using p1(1) v(1) by simp
  qed
  ultimately show ?case using s(2) by (intro exI [of _ "s1 @ s2"]) (auto simp: reads_def)
next
  case (TVariant ts)
  then obtain i a where v: "v = VVariant i a" "i < length ts" "has_type (ts ! i) a" "storable a" "i < 2 ^ 31"
    using has_typeD(8) [of ts v] by auto
  obtain s where s: "stores a s" "reads (ts ! i) a s"
    using TVariant.IH [OF nth_mem [OF v(2)] v(3,4)] by blast
  then obtain cs where cs: "store_tl a = Some cs" "unsafe_calls [] cs = Some s"
    by (auto simp: stores_def tl_store_unsafe_def split: bind_splits)
  let ?x = "of_nat i :: uint32"
  have u: "unat ?x = i" "sint ?x = int i"
    using v(5) by (simp_all add: unat_of_nat signed_of_nat signed_take_bit_int_eq_self)
  have "stores v (le_bytes 4 i @ s)"
    using v(1) cs u(1) unsafe_calls_prefix [of "le_bytes 4 i" cs] by (simp add: stores_def tl_store_unsafe_def)
  moreover have "\<exists>p'. parse_tl (TVariant ts) p = Some (v, p') \<and> reading 0 p' r"
    if "reading 0 p ((le_bytes 4 i @ s) @ r)" for p r
  proof -
    have "reading 0 p (le_bytes 4 (unat ?x) @ s @ r)" using that u by simp
    then obtain p1 where p1: "fetch_int p = Some (?x, p1)" "reading 0 p1 (s @ r)"
      using int_reads by blast
    obtain p2 where "parse_tl (ts ! i) p1 = Some (a, p2)" "reading 0 p2 r" by (rule readsE [OF s(2) p1(2)])
    then show ?thesis using p1(1) u(2) v(1,2) by simp
  qed
  ultimately show ?case by (intro exI [of _ "le_bytes 4 i @ s"]) (auto simp: reads_def)
next
  case (TFlags n)
  then obtain flags where v: "v = VFlags flags" "length flags = n" "length flags < 31"
    using has_typeD(9) [of n v] by auto
  obtain w m where w: "foldl store_flag (0, 0) flags = (w, m)" by (cases "foldl store_flag (0, 0) flags")
  note F = flags_word [OF v(3) w]
  have "stores v (le_bytes 4 (unat w))"
    using v w F(1) by (simp add: stores_def tl_store_unsafe_def store_flags_def)
  moreover have "\<exists>p'. parse_tl (TFlags n) p = Some (v, p') \<and> reading 0 p' r"
    if q: "reading 0 p (le_bytes 4 (unat w) @ r)" for p r
    using int_reads [OF q] F v by (auto simp: parse_flags_def Let_def)
  ultimately show ?case by (intro exI [of _ "le_bytes 4 (unat w)"]) (auto simp: reads_def)
qed


subsection \<open>The parser stays inside its array\<close>

text \<open>\<open>k\<close> bytes in front of the parser have been counted off and may be read, whether they lie in
  the input or, after an error, in \<^verbatim>\<open>empty_data\<close>.\<close>

definition counted :: "nat \<Rightarrow> tl_parser \<Rightarrow> bool" where
  "counted k p \<longleftrightarrow>
     (if tl_error p = []
      then tl_in_input p \<and> tl_pos p + k + tl_left_len p = length (tl_input p)
      else \<not> tl_in_input p \<and> tl_left_len p = 0 \<and> tl_data_len p = 0 \<and> tl_error_pos p \<noteq> None \<and> tl_pos p + k \<le> 32)"

text \<open>The first error is never replaced.\<close>

definition follows :: "tl_parser \<Rightarrow> tl_parser \<Rightarrow> bool" where
  "follows p p' \<longleftrightarrow>
     tl_input p' = tl_input p \<and>
     (tl_error p \<noteq> [] \<longrightarrow> tl_error p' = tl_error p \<and> tl_error_pos p' = tl_error_pos p)"

lemma follows_refl [simp]: "follows p p"
  by (simp add: follows_def)

lemma follows_trans: "follows p q \<Longrightarrow> follows q r \<Longrightarrow> follows p r"
  by (auto simp: follows_def)

lemma follows_ok: "follows p p' \<Longrightarrow> tl_error p' = [] \<Longrightarrow> tl_error p = []"
  by (auto simp: follows_def)

lemma counted_new: "counted 0 (tl_new s)"
  by (simp add: counted_def tl_new_def)

lemma length_empty_data [simp]: "length empty_data = 32"
  by (simp add: empty_data_def)

lemma set_error_counted:
  assumes "counted k p" "msg \<noteq> []" "n \<le> 32"
  obtains p' where "tl_set_error msg p = Some p'" "counted n p'" "follows p p'" "tl_error p' \<noteq> []" "tl_pos p' = 0"
proof (cases "tl_error p = []")
  case True
  let ?p = "p\<lparr>tl_error := msg, tl_error_pos := Some (tl_data_len p - tl_left_len p), tl_in_input := False,
              tl_pos := 0, tl_left_len := 0, tl_data_len := 0\<rparr>"
  show thesis
    by (rule that [of ?p]) (use True assms in \<open>auto simp: counted_def tl_set_error_def follows_def\<close>)
next
  case False
  show thesis
    by (rule that [of "p\<lparr>tl_in_input := False, tl_pos := 0\<rparr>"])
      (use False assms in \<open>auto simp: counted_def tl_set_error_def follows_def\<close>)
qed

lemma check_len_counted:
  assumes "counted k p" "n + k \<le> 32"
  obtains p' where "tl_check_len n p = Some p'" "counted (n + k) p'" "follows p p'" "tl_pos p' = tl_pos p \<or> tl_error p' \<noteq> []"
proof (cases "tl_left_len p < n")
  case True
  have "''Not enough data to read'' \<noteq> ([] :: string)" by simp
  then obtain p' where "tl_set_error ''Not enough data to read'' p = Some p'" "counted (n + k) p'" "follows p p'"
    "tl_error p' \<noteq> []"
    using set_error_counted [OF assms(1) _ assms(2)] by metis
  then show thesis using that True by (simp add: tl_check_len_def)
next
  case False
  then have "counted (n + k) (p\<lparr>tl_left_len := tl_left_len p - n\<rparr>)"
    using assms by (auto simp: counted_def)
  then show thesis using that False by (simp add: tl_check_len_def follows_def)
qed

lemma check_len_any:
  assumes "counted 0 p"
  obtains p' where "tl_check_len n p = Some p'" "follows p p'"
    "if tl_error p' = [] then counted n p' \<and> tl_pos p' = tl_pos p else counted 0 p'"
proof (cases "tl_left_len p < n")
  case True
  have "''Not enough data to read'' \<noteq> ([] :: string)" by simp
  then obtain p' where "tl_set_error ''Not enough data to read'' p = Some p'" "counted 0 p'" "follows p p'"
    "tl_error p' \<noteq> []"
    using set_error_counted [OF assms, of _ 0] by blast
  then show thesis using that True by (simp add: tl_check_len_def)
next
  case False
  then show thesis
    by (intro that [of "p\<lparr>tl_left_len := tl_left_len p - n\<rparr>"])
      (use assms in \<open>auto simp: tl_check_len_def counted_def follows_def\<close>)
qed

lemma advance_counted: "counted k p \<Longrightarrow> n \<le> k \<Longrightarrow> counted (k - n) (tl_advance n p)"
  by (auto simp: counted_def tl_advance_def)

lemma follows_advance [simp]: "follows p (tl_advance n p)" "follows p (tl_advance n q) = follows p q"
  by (simp_all add: follows_def tl_advance_def)

lemma bytes_counted:
  assumes "counted k p" "i + n \<le> k"
  shows "\<exists>s. tl_bytes i n p = Some s \<and> length s = n"
  using assms by (cases "tl_error p = []") (auto simp: tl_bytes_def tl_memory_def counted_def)

lemma byte_counted:
  assumes "counted k p" "i < k"
  shows "\<exists>b. tl_byte i p = Some b"
  using assms by (cases "tl_error p = []") (auto simp: tl_byte_def tl_memory_def counted_def)

text \<open>A reading operation returns, keeps the invariant and the first error, and delivers a value with
  the property \<open>P\<close> unless there was an error.\<close>

definition sound :: "(tl_parser \<Rightarrow> ('a \<times> tl_parser) option) \<Rightarrow> ('a \<Rightarrow> bool) \<Rightarrow> bool" where
  "sound f P \<longleftrightarrow>
     (\<forall>p. counted 0 p \<longrightarrow>
        (\<exists>x p'. f p = Some (x, p') \<and> counted 0 p' \<and> follows p p' \<and> (tl_error p' = [] \<longrightarrow> P x)))"

lemma soundI:
  assumes "\<And>p. counted 0 p \<Longrightarrow>
    \<exists>x p'. f p = Some (x, p') \<and> counted 0 p' \<and> follows p p' \<and> (tl_error p' = [] \<longrightarrow> P x)"
  shows "sound f P"
  using assms by (simp add: sound_def)

lemma soundE:
  assumes "sound f P" "counted 0 p"
  obtains x p' where "f p = Some (x, p')" "counted 0 p'" "follows p p'" "tl_error p' = [] \<longrightarrow> P x"
  using assms unfolding sound_def by blast

lemma sound_bind:
  assumes f: "sound f P" and g: "\<And>x. sound (g x) (\<lambda>y. P x \<longrightarrow> Q y)"
  shows "sound (\<lambda>p. do { (x, p) \<leftarrow> f p; g x p }) Q"
proof (rule soundI)
  fix p assume "counted 0 p"
  then obtain x p1 where 1: "f p = Some (x, p1)" "counted 0 p1" "follows p p1" "tl_error p1 = [] \<longrightarrow> P x"
    by (rule soundE [OF f])
  obtain y p2 where 2: "g x p1 = Some (y, p2)" "counted 0 p2" "follows p1 p2" "tl_error p2 = [] \<longrightarrow> P x \<longrightarrow> Q y"
    by (rule soundE [OF g 1(2)])
  show "\<exists>x p'. (do { (x, p) \<leftarrow> f p; g x p }) = Some (x, p') \<and> counted 0 p' \<and> follows p p' \<and> (tl_error p' = [] \<longrightarrow> Q x)"
    using 1 2 follows_trans [OF 1(3) 2(3)] follows_ok [OF 2(3)] by simp
qed

lemma sound_return: "P x \<Longrightarrow> sound (\<lambda>p. Some (x, p)) P"
  by (auto simp: sound_def)

lemma sound_map: "sound f P \<Longrightarrow> (\<And>x. P x \<Longrightarrow> Q (h x)) \<Longrightarrow> sound (\<lambda>p. map_option (\<lambda>(x, p). (h x, p)) (f p)) Q"
  unfolding sound_def by fastforce

lemma sound_set_error: "msg \<noteq> [] \<Longrightarrow> sound (\<lambda>p. do { p \<leftarrow> tl_set_error msg p; Some (x, p) }) P"
proof (rule soundI)
  fix p assume "msg \<noteq> []" "counted 0 p"
  then obtain p' where "tl_set_error msg p = Some p'" "counted 0 p'" "follows p p'" "tl_error p' \<noteq> []"
    using set_error_counted [of 0 p msg 0] by blast
  then show "\<exists>y p'. (do { p \<leftarrow> tl_set_error msg p; Some (x, p) }) = Some (y, p') \<and> counted 0 p' \<and> follows p p' \<and>
      (tl_error p' = [] \<longrightarrow> P y)" by simp
qed

lemma fetch_binary_sound: "n \<le> 32 \<Longrightarrow> sound (fetch_binary n) (\<lambda>s. length s = n)"
proof (rule soundI)
  fix p assume n: "n \<le> 32" and p: "counted 0 p"
  obtain p1 where p1: "tl_check_len n p = Some p1" "counted n p1" "follows p p1"
    using check_len_counted [OF p, of n] n by auto
  obtain s where "tl_bytes 0 n p1 = Some s" "length s = n" using bytes_counted [OF p1(2), of 0 n] by auto
  then show "\<exists>s p'. fetch_binary n p = Some (s, p') \<and> counted 0 p' \<and> follows p p' \<and> (tl_error p' = [] \<longrightarrow> length s = n)"
    using p1 advance_counted [OF p1(2) order_refl] by (simp add: fetch_binary_def fetch_binary_unsafe_def)
qed

lemma fetch_int_sound: "sound fetch_int (\<lambda>_. True)"
  unfolding fetch_int_def [abs_def] by (rule sound_map [OF fetch_binary_sound]) simp_all

lemma fetch_long_sound: "sound fetch_long (\<lambda>_. True)"
  unfolding fetch_long_def [abs_def] by (rule sound_map [OF fetch_binary_sound]) simp_all

lemma fetch_double_sound: "sound fetch_double (\<lambda>_. True)"
  unfolding fetch_double_def [abs_def] by (rule sound_map [OF fetch_binary_sound]) simp_all

lemma fetch_string_body_counted:
  assumes p: "counted h p" and len: "i + rl \<le> h + al"
  shows "\<exists>s p'. fetch_string_body i h rl al p = Some (s, p') \<and> counted 0 p' \<and> follows p p'"
proof -
  have c: "counted 0 (tl_advance h p)" using advance_counted [OF p order_refl] by simp
  obtain p1 where p1: "tl_check_len al (tl_advance h p) = Some p1" "follows (tl_advance h p) p1"
    "if tl_error p1 = [] then counted al p1 \<and> tl_pos p1 = tl_pos (tl_advance h p) else counted 0 p1"
    by (rule check_len_any [OF c])
  have f: "follows p p1" using p1(2) follows_trans follows_advance(1) by blast
  show ?thesis
  proof (cases "tl_error p1 = []")
    case False
    then show ?thesis using p1 f by (simp add: fetch_string_body_def)
  next
    case True
    have e: "tl_error p = []" using follows_ok [OF f True] .
    have "tl_pos p + h + al \<le> length (tl_input p)" "tl_in_input p"
      using True p1(3) f p e by (auto simp: counted_def tl_advance_def follows_def)
    then have "tl_pos p + i + rl \<le> length (tl_memory p)" using len by (simp add: tl_memory_def)
    then show ?thesis
      using True p1 f advance_counted [of al p1 al] by (simp add: fetch_string_body_def tl_bytes_def)
  qed
qed

lemma fetch_string_sound: "sound fetch_string (\<lambda>_. True)"
proof (rule soundI)
  fix p assume p: "counted 0 p"
  obtain p1 where p1: "tl_check_len 4 p = Some p1" "counted 4 p1" "follows p p1"
    using check_len_counted [OF p, of 4] by auto
  obtain b where b: "tl_byte 0 p1 = Some b" using byte_counted [OF p1(2), of 0] by auto
  have body: "\<exists>s p'. fetch_string p = Some (s, p') \<and> counted 0 p' \<and> follows p p' \<and> (tl_error p' = [] \<longrightarrow> True)"
    if "fetch_string p = fetch_string_body i h rl al q" "counted h q" "i + rl \<le> h + al" "follows p q" for i h rl al q
  proof -
    note * = that
    obtain s p' where "fetch_string_body i h rl al q = Some (s, p')" "counted 0 p'" "follows q p'"
      using fetch_string_body_counted [OF *(2,3)] by blast
    then show ?thesis using *(1) follows_trans [OF *(4)] by simp
  qed
  have up: "rl \<le> rl div 4 * 4 + 3" "rl \<le> (rl + 3) div 4 * 4" for rl :: nat by linarith+
  show "\<exists>s p'. fetch_string p = Some (s, p') \<and> counted 0 p' \<and> follows p p' \<and> (tl_error p' = [] \<longrightarrow> True)"
  proof (cases "b < 254")
    case True
    show ?thesis
    proof (rule body [OF _ p1(2) _ p1(3)])
      show "fetch_string p = fetch_string_body 1 4 b (b div 4 * 4) p1"
        using p1(1) b True by (simp add: fetch_string_def)
      show "1 + b \<le> 4 + b div 4 * 4" using up(1) [of b] by linarith
    qed
  next
    case F: False
    show ?thesis
    proof (cases "b = 254")
      case True
      obtain s where s: "tl_bytes 1 3 p1 = Some s" using bytes_counted [OF p1(2), of 1 3] by auto
      show ?thesis
      proof (rule body [OF _ p1(2) _ p1(3)])
        show "fetch_string p = fetch_string_body 4 4 (le_value s) ((le_value s + 3) div 4 * 4) p1"
          using p1(1) b s True by (simp add: fetch_string_def Let_def)
        show "4 + le_value s \<le> 4 + (le_value s + 3) div 4 * 4" using up(2) by simp
      qed
    next
      case False
      obtain p2 where p2: "tl_check_len 4 p1 = Some p2" "counted 8 p2" "follows p1 p2"
        using check_len_counted [OF p1(2), of 4] by auto
      obtain s where s: "tl_bytes 1 7 p2 = Some s" using bytes_counted [OF p2(2), of 1 7] by auto
      have f: "follows p p2" using follows_trans [OF p1(3) p2(3)] .
      show ?thesis
      proof (cases "le_value s > 2 ^ 64 - 1 - 3")
        case True
        obtain p3 where "tl_set_error ''Too big string found'' p2 = Some p3" "counted 0 p3" "follows p2 p3"
          by (rule set_error_counted [OF p2(2), of "''Too big string found''" 0]) auto
        then show ?thesis
          using p1(1) p2(1) b s F False True follows_trans [OF f] by (simp add: fetch_string_def Let_def)
      next
        case le: False
        show ?thesis
        proof (rule body [OF _ p2(2) _ f])
          show "fetch_string p = fetch_string_body 8 8 (le_value s) ((le_value s + 3) div 4 * 4) p2"
            using p1(1) p2(1) b s F False le by (simp add: fetch_string_def Let_def)
          show "8 + le_value s \<le> 8 + (le_value s + 3) div 4 * 4" using up(2) by simp
        qed
      qed
    qed
  qed
qed


lemma parse_elements_sound:
  "sound f P \<Longrightarrow> sound (parse_elements f n) (\<lambda>vs. list_all P vs)"
proof (induction n)
  case 0
  then show ?case by (simp add: sound_return)
next
  case (Suc n)
  have "sound (\<lambda>p. do { (vs, p) \<leftarrow> parse_elements f n p; Some (v # vs, p) }) (\<lambda>vs. P v \<longrightarrow> list_all P vs)" for v
    by (rule sound_bind [OF Suc.IH [OF Suc.prems]]) (auto intro: sound_return)
  from sound_bind [OF Suc.prems this] show ?case
    unfolding parse_elements.simps [abs_def] .
qed

lemma parse_flags_sound: "n < 31 \<Longrightarrow> sound (parse_flags n) (has_type (TFlags n))"
proof -
  assume n: "n < 31"
  have "sound (\<lambda>p.
      (let flags = List.map (\<lambda>i. drop_bit i w AND 1 \<noteq> 0) [0..<n] in
        if n < 31 then
          (if w AND NOT (push_bit n 1 - 1) \<noteq> 0 then
             do {
               p \<leftarrow> tl_set_error (''Invalid flags '' @ print_uint (unat w) @ '' left, current bit is '' @
                      print_uint n) p;
               Some (VFlags flags, p)
             }
           else Some (VFlags flags, p))
        else None)) (\<lambda>v. True \<longrightarrow> has_type (TFlags n) v)" for w :: uint32
  proof (cases "w AND NOT (push_bit n 1 - 1) \<noteq> 0")
    case True
    show ?thesis
      unfolding Let_def if_P [OF n] if_P [OF True] by (rule sound_set_error) simp
  next
    case False
    show ?thesis
      unfolding Let_def if_P [OF n] if_not_P [OF False] by (rule sound_return) simp
  qed
  from sound_bind [OF fetch_int_sound this] show ?thesis
    unfolding parse_flags_def [abs_def] .
qed

lemma parse_tl_sound: "type_ok t \<Longrightarrow> sound (parse_tl t) (has_type t)"
proof (induction t)
  case TBool
  show ?case unfolding parse_tl.simps by (rule sound_map [OF fetch_int_sound]) simp
next
  case TInt32
  show ?case unfolding parse_tl.simps by (rule sound_map [OF fetch_int_sound]) simp
next
  case TInt64
  show ?case unfolding parse_tl.simps by (rule sound_map [OF fetch_long_sound]) simp
next
  case TDouble
  show ?case unfolding parse_tl.simps by (rule sound_map [OF fetch_double_sound]) simp
next
  case TString
  show ?case unfolding parse_tl.simps by (rule sound_map [OF fetch_string_sound]) simp
next
  case (TVector t)
  have el: "sound (\<lambda>p. do { (vs, p) \<leftarrow> parse_elements (parse_tl t) n p; Some (VVector vs, p) }) (has_type (TVector t))" for n
    by (rule sound_bind [OF parse_elements_sound [OF TVector.IH]]) (use TVector.prems in \<open>auto intro: sound_return\<close>)
  have er: "sound (\<lambda>p. do { p \<leftarrow> tl_set_error ''Wrong vector length'' p; Some (VVector [], p) }) (has_type (TVector t))"
    by (rule sound_set_error) simp
  have "sound (\<lambda>p. if tl_left_len p < unat len
      then do { p \<leftarrow> tl_set_error ''Wrong vector length'' p; Some (VVector [], p) }
      else do { (vs, p) \<leftarrow> parse_elements (parse_tl t) (unat len) p; Some (VVector vs, p) })
     (\<lambda>v. True \<longrightarrow> has_type (TVector t) v)" for len :: uint32
    using el [of "unat len"] er unfolding sound_def by auto
  from sound_bind [OF fetch_int_sound this] show ?case unfolding parse_tl.simps .
next
  case (TPair s t)
  have ok: "sound (parse_tl s) (has_type s)" "sound (parse_tl t) (has_type t)" using TPair by simp_all
  have "sound (\<lambda>p. do { (y, p) \<leftarrow> parse_tl t p; Some (VPair x y, p) }) (\<lambda>v. has_type s x \<longrightarrow> has_type (TPair s t) v)" for x
    by (rule sound_bind [OF ok(2)]) (auto intro: sound_return)
  from sound_bind [OF ok(1) this] show ?case unfolding parse_tl.simps .
next
  case (TVariant ts)
  have alt: "sound (\<lambda>p. do { (x, p) \<leftarrow> (List.map parse_tl ts ! i) p; Some (VVariant i x, p) }) (has_type (TVariant ts))"
    if i: "i < length ts" for i
  proof -
    have "sound (List.map parse_tl ts ! i) (has_type (ts ! i))"
      using TVariant.IH [OF nth_mem [OF i]] TVariant.prems i by (simp add: list_all_length)
    then show ?thesis by (rule sound_bind) (use i in \<open>auto intro: sound_return\<close>)
  qed
  have er: "sound (\<lambda>p. do { p \<leftarrow> tl_set_error ''Invalid type'' p; Some (VEmptyVariant, p) }) (has_type (TVariant ts))"
    by (rule sound_set_error) simp
  have "sound (\<lambda>p. if sint x < 0 \<or> sint x \<ge> int (length ts)
      then do { p \<leftarrow> tl_set_error ''Invalid type'' p; Some (VEmptyVariant, p) }
      else do { (y, p) \<leftarrow> (List.map parse_tl ts ! nat (sint x)) p; Some (VVariant (nat (sint x)) y, p) })
     (\<lambda>v. True \<longrightarrow> has_type (TVariant ts) v)" for x :: uint32
  proof (cases "sint x < 0 \<or> sint x \<ge> int (length ts)")
    case True
    then show ?thesis using er by (simp only: if_True simp_thms)
  next
    case False
    then have "nat (sint x) < length ts" by auto
    then show ?thesis using alt False by (simp only: if_False simp_thms)
  qed
  from sound_bind [OF fetch_int_sound this] show ?case unfolding parse_tl.simps .
next
  case (TFlags n)
  then show ?case unfolding parse_tl.simps type_ok.simps by (rule parse_flags_sound)
qed

lemma fetch_end_counted:
  assumes "counted 0 p"
  obtains p' where "fetch_end p = Some p'" "counted 0 p'" "follows p p'"
proof (cases "tl_left_len p = 0")
  case False
  obtain p' where "tl_set_error ''Too much data to fetch'' p = Some p'" "counted 0 p'" "follows p p'"
    by (rule set_error_counted [OF assms, of "''Too much data to fetch''" 0]) auto
  then show thesis using that False by (simp add: fetch_end_def)
qed (use that assms in \<open>simp add: fetch_end_def\<close>)

lemma get_status_counted:
  "counted k p \<Longrightarrow> \<exists>st. tl_get_status p = Some st \<and> (st = None \<longleftrightarrow> tl_error p = [])"
  by (cases "tl_error_pos p") (auto simp: counted_def tl_get_status_def split: if_splits)

subsection \<open>Properties\<close>

text \<open>C10: Whatever bytes arrive, deserializing a type never fails an assertion and never reads outside
  the input or the block of zeros that replaces it after an error, also in the middle of nested
  containers; and when the status is OK the object is a value of the type.\<close>

theorem unserialize_sound:
  assumes "type_ok t"
  shows "\<exists>st v. unserialize t data = Some (st, v) \<and> (st = None \<longrightarrow> has_type t v)"
proof -
  obtain v p1 where 1: "parse_tl t (tl_new data) = Some (v, p1)" "counted 0 p1" "tl_error p1 = [] \<longrightarrow> has_type t v"
    by (rule soundE [OF parse_tl_sound [OF assms] counted_new])
  obtain p2 where 2: "fetch_end p1 = Some p2" "counted 0 p2" "follows p1 p2" by (rule fetch_end_counted [OF 1(2)])
  obtain st where "tl_get_status p2 = Some st" "st = None \<longleftrightarrow> tl_error p2 = []"
    using get_status_counted [OF 2(2)] by blast
  then show ?thesis using 1 2 follows_ok [OF 2(3)] by (simp add: unserialize_def)
qed

theorem unserialize_sound_witness:
  "\<exists>st v. unserialize (TVector (TVariant [TString, TFlags 3])) [chr 255, chr 0, chr 1, chr 0, chr 7] = Some (st, v) \<and>
     (st \<noteq> None \<or> has_type (TVector (TVariant [TString, TFlags 3])) v)"
  using unserialize_sound [of "TVector (TVariant [TString, TFlags 3])" "[chr 255, chr 0, chr 1, chr 0, chr 7]"]
  by auto

text \<open>C2: Serializing a value within the limits of the format never fails: the length computed
  beforehand is the number of bytes written, so that the buffer is filled exactly. Deserializing these
  bytes by the type of the value gives the value back, and any bytes behind them are reported at the
  position where the value ended.\<close>

theorem serialize_unserialize:
  assumes "type_ok t" "has_type t v" "storable v"
  shows "\<exists>s. serialize v = Some s \<and> tl_calc_length v = Some (length s) \<and>
    unserialize t s = Some (None, v) \<and>
    (extra = [] \<or>
     unserialize t (s @ extra) =
       Some (Some (Error_msg (''Too much data to fetch at '' @ print_uint (length s))), v))"
proof -
  obtain s where s: "stores v s" "reads t v s" using storable_reads [OF assms(2,3)] by blast
  then have ser: "serialize v = Some s" by (simp add: serialize_eq stores_def)
  then have len: "tl_calc_length v = Some (length s)" by (auto simp: serialize_def split: bind_splits if_splits)
  have read: "\<exists>p. parse_tl t (tl_new (s @ r)) = Some (v, p) \<and> reading 0 p r \<and> tl_input p = s @ r" for r
  proof -
    obtain p where p: "parse_tl t (tl_new (s @ r)) = Some (v, p)" "reading 0 p r"
      by (rule readsE [OF s(2) reading_new])
    obtain v' p' where "parse_tl t (tl_new (s @ r)) = Some (v', p')" "follows (tl_new (s @ r)) p'"
      by (rule soundE [OF parse_tl_sound [OF assms(1)] counted_new])
    then have "tl_input p = s @ r" using p(1) by (simp add: follows_def tl_new_def)
    then show ?thesis using p by blast
  qed
  obtain p0 where p0: "parse_tl t (tl_new (s @ [])) = Some (v, p0)" "reading 0 p0 []" using read by blast
  then have "unserialize t s = Some (None, v)"
    by (simp add: unserialize_def fetch_end_def tl_get_status_def reading_def)
  moreover have "unserialize t (s @ extra) =
       Some (Some (Error_msg (''Too much data to fetch at '' @ print_uint (length s))), v)" if x: "extra \<noteq> []"
  proof -
    obtain p where p: "parse_tl t (tl_new (s @ extra)) = Some (v, p)" "reading 0 p extra" "tl_input p = s @ extra"
      using read by blast
    then have "tl_left_len p = length extra" "tl_data_len p - tl_left_len p = length s" "tl_error p = []"
      by (simp_all add: reading_def)
    then show ?thesis
      using p(1) x by (simp add: unserialize_def fetch_end_def tl_get_status_def tl_set_error_def)
  qed
  ultimately show ?thesis using ser len by auto
qed


theorem serialize_unserialize_witness:
  "\<exists>s. serialize (VPair (VString ''ab'') (VVector [VVariant 1 (VFlags [True, False, True])])) = Some s \<and>
    unserialize (TPair TString (TVector (TVariant [TBool, TFlags 3]))) s =
      Some (None, VPair (VString ''ab'') (VVector [VVariant 1 (VFlags [True, False, True])])) \<and>
    unserialize (TPair TString (TVector (TVariant [TBool, TFlags 3]))) (s @ ''x'') \<noteq>
      Some (None, VPair (VString ''ab'') (VVector [VVariant 1 (VFlags [True, False, True])]))"
  using serialize_unserialize [of "TPair TString (TVector (TVariant [TBool, TFlags 3]))"
      "VPair (VString ''ab'') (VVector [VVariant 1 (VFlags [True, False, True])])" "''x''"]
  by auto

lemma check_utf8_total: "\<exists>b. check_utf8 s = Some b"
  using check_utf8_loop_total [of "s @ [chr 0]"] by (auto simp: check_utf8_def)

lemma check_utf8_Nil: "check_utf8 [] = Some True"
  unfolding check_utf8_text_iff by (rule exI [of _ "[]"]) (simp add: utf8_text_def)

text \<open>C36: A string fetched from a buffer is always valid UTF-8 without zero bytes, whatever the input:
  an invalid one is cut before its last character, and dropped when that does not help.\<close>

theorem buffer_fetch_string_valid:
  "\<exists>result p. buffer_fetch_string (tl_new data) = Some (result, p) \<and> check_utf8 result = Some True \<and>
     chr 0 \<notin> set result"
proof -
  obtain s p where s: "fetch_string (tl_new data) = Some (s, p)" by (rule soundE [OF fetch_string_sound counted_new])
  define r where "r = List.map (\<lambda>c. if c = chr 0 then CHR '' '' else c) s"
  have nul: "chr 0 \<notin> set r" by (auto simp: r_def chr_eq_char_iff)
  obtain b where b: "check_utf8 r = Some b" using check_utf8_total by blast
  have fetch: "buffer_fetch_string (tl_new data) =
      (if b then Some (r, p)
       else do {
         n \<leftarrow> last_utf8_character_position r;
         (let result = take n r in
          do { valid \<leftarrow> check_utf8 result; (if valid then Some (result, p) else Some ([], p)) })
       })"
    using s b by (simp add: buffer_fetch_string_def Let_def r_def)
  show ?thesis
  proof (cases b)
    case True
    then show ?thesis using fetch b nul by simp
  next
    case False
    then have "r \<noteq> []" using b check_utf8_Nil by auto
    then obtain n where n: "last_utf8_character_position r = Some n" by (simp add: last_utf8_character_position_def)
    obtain b' where b': "check_utf8 (take n r) = Some b'" using check_utf8_total by blast
    have "chr 0 \<notin> set (take n r)" using nul by (meson in_set_takeD)
    then show ?thesis using fetch False n b' check_utf8_Nil by (cases b') (simp_all add: Let_def)
  qed
qed

end
