(* ===== verification/PollFlags.thy ===== *)
theory PollFlags
  imports Prelude
begin

text \<open>
  Readiness flags of a descriptor (\<^verbatim>\<open>pxc/utils/port/PollFlags.h\<close>,
  \<^verbatim>\<open>PollFlags.cpp\<close> and their copies in \<^verbatim>\<open>pxc/net\<close>), and how the poll
  thread hands them to the owner of the descriptor (\<^verbatim>\<open>PollableFdInfo\<close> in
  \<^verbatim>\<open>port/detail/PollableFd.h\<close>). \<^verbatim>\<open>write_flags\<close> may run in another thread
  than everything else; every access to the atomic \<^verbatim>\<open>to_write_\<close> is one step of
  \<open>poll_step\<close>.
\<close>

subsection \<open>Flags\<close>

definition flag_Write :: uint32 where "flag_Write = 0x001"
definition flag_Read :: uint32 where "flag_Read = 0x002"
definition flag_Close :: uint32 where "flag_Close = 0x004"
definition flag_Error :: uint32 where "flag_Error = 0x008"

definition flag_ReadWrite :: uint32 where
  "flag_ReadWrite = flag_Read OR flag_Write"

lemmas flag_defs = flag_Write_def flag_Read_def flag_Close_def flag_Error_def

definition has_flags :: "uint32 \<Rightarrow> uint32 \<Rightarrow> bool" where
  "has_flags flags f \<longleftrightarrow> flags AND f = f"

definition can_read :: "uint32 \<Rightarrow> bool" where
  "can_read flags = has_flags flags flag_Read"

definition can_write :: "uint32 \<Rightarrow> bool" where
  "can_write flags = has_flags flags flag_Write"

definition can_close :: "uint32 \<Rightarrow> bool" where
  "can_close flags = has_flags flags flag_Close"

definition has_pending_error :: "uint32 \<Rightarrow> bool" where
  "has_pending_error flags = has_flags flags flag_Error"

text \<open>The new flags and whether they changed.\<close>

definition add_flags :: "uint32 \<Rightarrow> uint32 \<Rightarrow> uint32 \<times> bool" where
  "add_flags flags f = (let flags' = flags OR f in (flags', flags \<noteq> flags'))"

definition remove_flags :: "uint32 \<Rightarrow> uint32 \<Rightarrow> uint32" where
  "remove_flags flags f = flags AND NOT f"

definition print_flags :: "uint32 \<Rightarrow> string" where
  "print_flags flags =
     ''['' @ (if can_read flags then ''R'' else []) @ (if can_write flags then ''W'' else []) @
     (if can_close flags then ''C'' else []) @ (if has_pending_error flags then ''E'' else []) @ '']''"

subsection \<open>The set shared with the poll thread\<close>

record poll_flags_set =
  to_write :: uint32
  pf_flags :: uint32

definition new_flags_set :: poll_flags_set where
  "new_flags_set = \<lparr>to_write = 0, pf_flags = 0\<rparr>"

definition write_flags :: "uint32 \<Rightarrow> poll_flags_set \<Rightarrow> poll_flags_set \<times> bool" where
  "write_flags flags s =
     (if flags = 0 then (s, False)
      else (s\<lparr>to_write := to_write s OR flags\<rparr>, flags AND NOT (to_write s) \<noteq> 0))"

definition write_flags_local :: "uint32 \<Rightarrow> poll_flags_set \<Rightarrow> poll_flags_set \<times> bool" where
  "write_flags_local flags s =
     (let (flags', changed) = add_flags (pf_flags s) flags in (s\<lparr>pf_flags := flags'\<rparr>, changed))"

text \<open>The second half of \<^verbatim>\<open>flush\<close>, after the load has seen a flag: the exchange and the
  merge.\<close>

definition flush_exchange :: "poll_flags_set \<Rightarrow> poll_flags_set \<times> bool" where
  "flush_exchange s =
     (let old_flags = pf_flags s;
          flags = fst (add_flags old_flags (to_write s));
          flags = (if can_close flags then remove_flags flags flag_Write else flags)
      in (\<lparr>to_write = 0, pf_flags = flags\<rparr>, flags \<noteq> old_flags))"

definition flush :: "poll_flags_set \<Rightarrow> poll_flags_set \<times> bool" where
  "flush s = (if to_write s = 0 then (s, False) else flush_exchange s)"

definition read_flags :: "poll_flags_set \<Rightarrow> poll_flags_set \<times> uint32" where
  "read_flags s = (let s' = fst (flush s) in (s', pf_flags s'))"

definition clear_flags :: "uint32 \<Rightarrow> poll_flags_set \<Rightarrow> poll_flags_set" where
  "clear_flags flags s = s\<lparr>pf_flags := remove_flags (pf_flags s) flags\<rparr>"

definition clear_set :: "poll_flags_set \<Rightarrow> poll_flags_set" where
  "clear_set s = s\<lparr>to_write := 0, pf_flags := 0\<rparr>"

text \<open>The conditions of the loops over a descriptor.\<close>

definition can_read_local :: "poll_flags_set \<Rightarrow> bool" where
  "can_read_local s \<longleftrightarrow> can_read (pf_flags s) \<or> has_pending_error (pf_flags s)"

definition can_write_local :: "poll_flags_set \<Rightarrow> bool" where
  "can_write_local s \<longleftrightarrow> can_write (pf_flags s)"

definition can_close_local :: "poll_flags_set \<Rightarrow> bool" where
  "can_close_local s \<longleftrightarrow> can_close (pf_flags s)"

subsection \<open>The poll thread and the owner\<close>

text \<open>The poll thread is between calls of \<^verbatim>\<open>add_flags_from_poll\<close> or about to notify the
  observer; the owner is between events, in \<^verbatim>\<open>sync_with_poll\<close> before the load, or between
  the load and the exchange.\<close>

datatype poller = Poll_idle | Poll_notify

datatype owner = Own_idle | Own_sync | Own_loaded

record poll_state =
  ps_set :: poll_flags_set
  ps_notified :: bool
  ps_poller :: poller
  ps_owner :: owner

definition poll_start :: poll_state where
  "poll_start = \<lparr>ps_set = new_flags_set, ps_notified = False, ps_poller = Poll_idle, ps_owner = Own_idle\<rparr>"

inductive poll_step :: "poll_state \<Rightarrow> poll_state \<Rightarrow> bool" where
  from_poll: "ps_poller s = Poll_idle \<Longrightarrow> write_flags flags (ps_set s) = (set', new) \<Longrightarrow>
    poll_step s (s\<lparr>ps_set := set', ps_poller := (if new then Poll_notify else Poll_idle)\<rparr>)"
| notify: "ps_poller s = Poll_notify \<Longrightarrow>
    poll_step s (s\<lparr>ps_notified := True, ps_poller := Poll_idle\<rparr>)"
| wake: "ps_owner s = Own_idle \<Longrightarrow> ps_notified s \<Longrightarrow>
    poll_step s (s\<lparr>ps_notified := False, ps_owner := Own_sync\<rparr>)"
| other_event: "ps_owner s = Own_idle \<Longrightarrow>
    poll_step s (s\<lparr>ps_owner := Own_sync\<rparr>)"
| load_none: "ps_owner s = Own_sync \<Longrightarrow> to_write (ps_set s) = 0 \<Longrightarrow>
    poll_step s (s\<lparr>ps_owner := Own_idle\<rparr>)"
| load_some: "ps_owner s = Own_sync \<Longrightarrow> to_write (ps_set s) \<noteq> 0 \<Longrightarrow>
    poll_step s (s\<lparr>ps_owner := Own_loaded\<rparr>)"
| exchange: "ps_owner s = Own_loaded \<Longrightarrow>
    poll_step s (s\<lparr>ps_set := fst (flush_exchange (ps_set s)), ps_owner := Own_idle\<rparr>)"
| local_clear: "ps_owner s = Own_idle \<Longrightarrow>
    poll_step s (s\<lparr>ps_set := clear_flags flags (ps_set s)\<rparr>)"
| local_add: "ps_owner s = Own_idle \<Longrightarrow>
    poll_step s (s\<lparr>ps_set := fst (write_flags_local flags (ps_set s))\<rparr>)"

inductive_cases poll_stepE: "poll_step s s'"

definition wakeup_inv :: "poll_state \<Rightarrow> bool" where
  "wakeup_inv s \<longleftrightarrow>
     (to_write (ps_set s) \<noteq> 0 \<longrightarrow> ps_notified s \<or> ps_poller s = Poll_notify \<or> ps_owner s \<noteq> Own_idle) \<and>
     (ps_owner s = Own_loaded \<longrightarrow> to_write (ps_set s) \<noteq> 0)"

lemma wakeup_inv_start: "wakeup_inv poll_start"
  by (simp add: wakeup_inv_def poll_start_def new_flags_set_def)

lemma or_zero_iff: "a OR b = 0 \<longleftrightarrow> a = 0 \<and> b = 0" for a b :: "'a :: len word"
  by (metis or.left_neutral or_eq_0_iff)

lemma write_flags_new:
  "write_flags flags s = (s', new) \<Longrightarrow> to_write s' \<noteq> 0 \<Longrightarrow> new \<or> to_write s \<noteq> 0"
  by (auto simp: write_flags_def split: if_splits)

lemma write_flags_keeps: "write_flags flags s = (s', new) \<Longrightarrow> to_write s \<noteq> 0 \<Longrightarrow> to_write s' \<noteq> 0"
  by (auto simp: write_flags_def or_zero_iff split: if_splits)

lemma wakeup_inv_step: "poll_step s s' \<Longrightarrow> wakeup_inv s \<Longrightarrow> wakeup_inv s'"
proof (induction rule: poll_step.induct)
  case (from_poll s flags set' new)
  then show ?case
    using write_flags_new [OF from_poll.hyps(2)] write_flags_keeps [OF from_poll.hyps(2)]
    by (auto simp: wakeup_inv_def)
qed (auto simp: wakeup_inv_def flush_exchange_def clear_flags_def write_flags_local_def Let_def split: prod.splits)

lemma wakeup_inv_reachable: "poll_step\<^sup>*\<^sup>* poll_start s \<Longrightarrow> wakeup_inv s"
  by (induction rule: rtranclp_induct) (auto intro: wakeup_inv_start wakeup_inv_step)

subsection \<open>Flags as sets of bits\<close>

lemma has_flag_bit: "flag_Write = 2 ^ 0" "flag_Read = 2 ^ 1" "flag_Close = 2 ^ 2" "flag_Error = 2 ^ 3"
  by (simp_all add: flag_defs)

lemma has_pow2: "has_flags flags (2 ^ n) \<longleftrightarrow> bit flags n" if "n < 32" for flags :: uint32
proof -
  have "flags AND 2 ^ n = (if bit flags n then 2 ^ n else 0)"
    by (rule bit_word_eqI) (auto simp: bit_simps)
  with that show ?thesis
    by (auto simp: has_flags_def)
qed

lemma can_read_bit: "can_read flags \<longleftrightarrow> bit flags 1"
  unfolding can_read_def has_flag_bit by (rule has_pow2) simp

lemma can_write_bit: "can_write flags \<longleftrightarrow> bit flags 0"
  unfolding can_write_def has_flag_bit by (rule has_pow2) simp

lemma can_close_bit: "can_close flags \<longleftrightarrow> bit flags 2"
  unfolding can_close_def has_flag_bit by (rule has_pow2) simp

lemma has_pending_error_bit: "has_pending_error flags \<longleftrightarrow> bit flags 3"
  unfolding has_pending_error_def has_flag_bit by (rule has_pow2) simp

lemmas flag_bits = can_read_bit can_write_bit can_close_bit has_pending_error_bit

lemma bit_flag_Write: "bit flag_Write n \<longleftrightarrow> n = 0"
  by (auto simp: flag_Write_def bit_simps)

text \<open>What the owner sees after a flush: every flag it had and every flag the poll thread
  had written, without Write once the descriptor is closed.\<close>

lemma flush_flags:
  "bit (pf_flags (fst (flush s))) n \<longleftrightarrow>
     (if to_write s = 0 then bit (pf_flags s) n
      else (bit (pf_flags s) n \<or> bit (to_write s) n) \<and>
           \<not> (n = 0 \<and> (bit (pf_flags s) 2 \<or> bit (to_write s) 2)))"
proof (cases "n < 32")
  case True
  then show ?thesis
    by (auto simp: flush_def flush_exchange_def add_flags_def remove_flags_def flag_bits
        bit_flag_Write bit_or_iff bit_and_iff bit_not_iff Let_def)
next
  case False
  then have "\<not> bit w n" for w :: uint32
    using bit_imp_le_length [of w n] by auto
  then show ?thesis
    by simp
qed

lemma flush_to_write: "to_write (fst (flush s)) = 0"
  by (simp add: flush_def flush_exchange_def Let_def)

text \<open>A second flush changes nothing.\<close>

lemma flush_idem: "flush (fst (flush s)) = (fst (flush s), False)"
  by (simp add: flush_def [of "fst (flush s)"] flush_to_write)

text \<open>C18: No wake-up is lost. In every state that the poll thread and the owner of a
  descriptor can reach, in whatever order their atomic accesses interleave, flags that the
  poll thread has written and the owner has not merged yet imply that the owner is
  notified, is about to be, or is already synchronising.\<close>

theorem poll_no_lost_wakeup:
  assumes "poll_step\<^sup>*\<^sup>* poll_start s" and "to_write (ps_set s) \<noteq> 0"
  shows "ps_notified s \<or> ps_poller s = Poll_notify \<or> ps_owner s \<noteq> Own_idle"
  using wakeup_inv_reachable [OF assms(1)] assms(2) by (auto simp: wakeup_inv_def)

text \<open>The poll thread reports a readable descriptor while the owner is already between
  the load and the exchange of an earlier event.\<close>

definition poll_run :: poll_state where
  "poll_run = \<lparr>ps_set = \<lparr>to_write = flag_Read OR flag_Close, pf_flags = 0\<rparr>, ps_notified = False,
     ps_poller = Poll_notify, ps_owner = Own_loaded\<rparr>"

lemma poll_run_reachable: "poll_step\<^sup>*\<^sup>* poll_start poll_run"
proof -
  let ?s1 = "poll_start\<lparr>ps_set := \<lparr>to_write = flag_Read, pf_flags = 0\<rparr>, ps_poller := Poll_notify\<rparr>"
  let ?s2 = "?s1\<lparr>ps_notified := True, ps_poller := Poll_idle\<rparr>"
  let ?s3 = "?s2\<lparr>ps_notified := False, ps_owner := Own_sync\<rparr>"
  let ?s4 = "?s3\<lparr>ps_owner := Own_loaded\<rparr>"
  let ?s5 = "?s4\<lparr>ps_set := \<lparr>to_write = flag_Read OR flag_Close, pf_flags = 0\<rparr>, ps_poller := Poll_notify\<rparr>"
  note defs = poll_start_def new_flags_set_def write_flags_def flag_defs
  have "poll_step poll_start ?s1"
    using from_poll [of poll_start flag_Read "\<lparr>to_write = flag_Read, pf_flags = 0\<rparr>" True]
    by (simp add: defs)
  moreover have "poll_step ?s1 ?s2" by (rule notify) simp
  moreover have "poll_step ?s2 ?s3" by (rule wake) (simp_all add: defs)
  moreover have "poll_step ?s3 ?s4" by (rule load_some) (simp_all add: defs)
  moreover have "poll_step ?s4 ?s5"
    using from_poll [of ?s4 flag_Close "\<lparr>to_write = flag_Read OR flag_Close, pf_flags = 0\<rparr>" True]
    by (simp add: defs)
  moreover have "?s5 = poll_run"
    by (simp add: poll_start_def poll_run_def)
  ultimately show ?thesis
    by (metis (no_types, lifting) rtranclp.rtrancl_into_rtrancl rtranclp.rtrancl_refl)
qed

theorem poll_no_lost_wakeup_witness:
  "ps_notified poll_run \<or> ps_poller poll_run = Poll_notify \<or> ps_owner poll_run \<noteq> Own_idle"
  by (rule poll_no_lost_wakeup [OF poll_run_reachable]) (simp add: poll_run_def flag_defs)

end
