(* ===== verification/SocketIo.thy ===== *)
theory SocketIo
  imports PollFlags Status Misc
begin

text \<open>
  Sockets over a non-blocking descriptor: \<^verbatim>\<open>SocketFdImpl\<close> of
  \<^verbatim>\<open>port/SocketFd.cpp\<close>, \<^verbatim>\<open>ServerSocketFdImpl\<close> of
  \<^verbatim>\<open>port/ServerSocketFd.cpp\<close> and the loops of \<^verbatim>\<open>BufferedFd.h\<close>, on a POSIX
  system. The operating system is not code of the repository: what its calls return is an
  argument of the model, one list of results for each kind of call, and every theorem
  quantifies over the lists. A run that still calls the system after the end of a list is
  \<open>Starved\<close>; \<open>Fatal\<close> is \<^verbatim>\<open>LOG(FATAL)\<close> or a failed \<^verbatim>\<open>CHECK\<close>. What the system
  has accepted from the program is kept in \<open>sent\<close>.
\<close>

subsection \<open>System calls\<close>

datatype 'a run = Done 'a | Starved | Fatal

definition run_bind :: "'a run \<Rightarrow> ('a \<Rightarrow> 'b run) \<Rightarrow> 'b run" where
  "run_bind r f = (case r of Done x \<Rightarrow> f x | Starved \<Rightarrow> Starved | Fatal \<Rightarrow> Fatal)"

lemma run_bind_simps [simp]:
  "run_bind (Done x) f = f x" "run_bind Starved f = Starved" "run_bind Fatal f = Fatal"
  by (simp_all add: run_bind_def)

lemma run_bind_cong [fundef_cong]:
  "r = r' \<Longrightarrow> (\<And>x. r' = Done x \<Longrightarrow> f x = g x) \<Longrightarrow> run_bind r f = run_bind r' g"
  by (cases r') simp_all

lemma run_bind_Done [simp]: "run_bind r f = Done y \<longleftrightarrow> (\<exists>x. r = Done x \<and> f x = Done y)"
  by (cases r) simp_all

datatype 'a sys = Sys_ok 'a | Sys_errno int

definition EINTR :: int where "EINTR = 4"
definition EIO :: int where "EIO = 5"
definition ENXIO :: int where "ENXIO = 6"
definition EBADF :: int where "EBADF = 9"
definition EAGAIN :: int where "EAGAIN = 11"
definition EFAULT :: int where "EFAULT = 14"
definition EISDIR :: int where "EISDIR = 21"
definition EINVAL :: int where "EINVAL = 22"
definition ENOTSOCK :: int where "ENOTSOCK = 88"
definition EOPNOTSUPP :: int where "EOPNOTSUPP = 95"

lemmas errno_defs = EINTR_def EIO_def ENXIO_def EBADF_def EAGAIN_def EFAULT_def EISDIR_def
  EINVAL_def ENOTSOCK_def EOPNOTSUPP_def

fun skip_eintr :: "'a sys list \<Rightarrow> ('a sys \<times> 'a sys list) run" where
  "skip_eintr [] = Starved"
| "skip_eintr (r # rs) = (if r = Sys_errno EINTR then skip_eintr rs else Done (r, rs))"

definition print_native_fd :: "int \<Rightarrow> string" where
  "print_native_fd fd = ''[fd:'' @ print_int 32 fd @ '']''"

subsection \<open>A connected socket\<close>

record socket =
  sock_fd :: int
  sock_flags :: poll_flags_set
  os_reads :: "string sys list"
  os_writes :: "nat sys list"
  os_errors :: "int sys list"
  sent :: string

definition sock_clear :: "uint32 \<Rightarrow> socket \<Rightarrow> socket" where
  "sock_clear flags s = s\<lparr>sock_flags := clear_flags flags (sock_flags s)\<rparr>"

definition sock_add :: "uint32 \<Rightarrow> socket \<Rightarrow> socket" where
  "sock_add flags s = s\<lparr>sock_flags := fst (write_flags_local flags (sock_flags s))\<rparr>"

definition sync_with_poll :: "socket \<Rightarrow> socket" where
  "sync_with_poll s = s\<lparr>sock_flags := fst (read_flags (sock_flags s))\<rparr>"

definition write_failed :: "int \<Rightarrow> int \<Rightarrow> status_error" where
  "write_failed err fd = PosixError err (''Write to '' @ print_native_fd fd @ '' has failed'')"

definition write_finish :: "int \<Rightarrow> socket \<Rightarrow> (nat result \<times> socket) run" where
  "write_finish write_errno s =
     (if write_errno = EAGAIN then Done (Inr 0, sock_clear flag_Write s)
      else if write_errno \<in> {EBADF, ENXIO, EFAULT, EINVAL} then Fatal
      else Done (Inl (write_failed write_errno (sock_fd s)), sock_add flag_Close (sock_clear flag_Write s)))"

definition socket_write :: "string \<Rightarrow> socket \<Rightarrow> (nat result \<times> socket) run" where
  "socket_write data s =
     run_bind (skip_eintr (os_writes s)) (\<lambda>(res, rest).
       let s = s\<lparr>os_writes := rest\<rparr> in
       case res of
         Sys_ok n \<Rightarrow> if n \<le> length data then Done (Inr n, s\<lparr>sent := sent s @ take n data\<rparr>) else Fatal
       | Sys_errno e \<Rightarrow> write_finish e s)"

text \<open>The check of \<^verbatim>\<open>writev\<close>: the result is within the slices.\<close>

fun within_slices :: "nat \<Rightarrow> string list \<Rightarrow> bool" where
  "within_slices left [] = False"
| "within_slices left (sl # sls) = (left \<le> length sl \<or> within_slices (left - length sl) sls)"

definition socket_writev :: "string list \<Rightarrow> socket \<Rightarrow> (nat result \<times> socket) run" where
  "socket_writev slices s =
     (case narrow_cast_safe \<lparr>type_signed = True, type_width = 32\<rparr> \<lparr>type_signed = False, type_width = 64\<rparr> (int (length slices)) of
        Inl e \<Rightarrow> Done (Inl e, s)
      | Inr _ \<Rightarrow>
          run_bind (skip_eintr (os_writes s)) (\<lambda>(res, rest).
            let s = s\<lparr>os_writes := rest\<rparr> in
            case res of
              Sys_ok n \<Rightarrow>
                if within_slices n slices
                then Done (Inr n, s\<lparr>sent := sent s @ take n (concat slices)\<rparr>) else Fatal
            | Sys_errno e \<Rightarrow> write_finish e s))"

definition get_socket_pending_error :: "socket \<Rightarrow> (status \<times> socket) run" where
  "get_socket_pending_error s =
     (case os_errors s of
        [] \<Rightarrow> Starved
      | r # rest \<Rightarrow>
          let s = s\<lparr>os_errors := rest\<rparr>; fd = print_native_fd (sock_fd s) in
          Done (case r of
              Sys_ok e \<Rightarrow> if e = 0 then None else Some (PosixError e (''Error on '' @ fd))
            | Sys_errno e \<Rightarrow> Some (PosixError e (''Can't load error on socket '' @ fd)), s))"

definition get_pending_error :: "socket \<Rightarrow> (status \<times> socket) run" where
  "get_pending_error s =
     (if \<not> has_pending_error (pf_flags (sock_flags s)) then Done (None, s)
      else run_bind (get_socket_pending_error s) (\<lambda>(st, s).
        Done (case st of Some e \<Rightarrow> (Some e, s) | None \<Rightarrow> (None, sock_clear flag_Error s))))"

definition read_failed :: "int \<Rightarrow> int \<Rightarrow> status_error" where
  "read_failed err fd = PosixError err (''Read from '' @ print_native_fd fd @ '' has failed'')"

text \<open>The call of \<^verbatim>\<open>read\<close> once no error is pending; \<open>maxs\<close> is the size of the slice,
  and an OK result is the bytes stored in it.\<close>

definition read_call :: "nat \<Rightarrow> socket \<Rightarrow> (string result \<times> socket) run" where
  "read_call maxs s =
     (if maxs = 0 then Fatal
      else run_bind (skip_eintr (os_reads s)) (\<lambda>(res, rest).
        let s = s\<lparr>os_reads := rest\<rparr> in
        case res of
          Sys_ok bytes \<Rightarrow>
            let s = (if bytes = [] then sock_add flag_Close (sock_clear flag_Read s) else s)
            in if length bytes \<le> maxs then Done (Inr bytes, s) else Fatal
        | Sys_errno e \<Rightarrow>
            if e = EAGAIN then Done (Inr [], sock_clear flag_Read s)
            else if e \<in> {EISDIR, EBADF, ENXIO, EINVAL} then Fatal
            else Done (Inl (read_failed e (sock_fd s)), sock_add flag_Close (sock_clear flag_Read s))))"

definition socket_read :: "nat \<Rightarrow> socket \<Rightarrow> (string result \<times> socket) run" where
  "socket_read maxs s =
     run_bind (get_pending_error s) (\<lambda>(st, s).
       case st of Some e \<Rightarrow> Done (Inl e, s) | None \<Rightarrow> read_call maxs s)"


subsection \<open>A listening socket\<close>

text \<open>An accepted connection is the new descriptor and the status of
  \<^verbatim>\<open>init_socket_options\<close> for it.\<close>

record server_socket =
  srv_fd :: int
  srv_flags :: poll_flags_set
  os_accepts :: "(int \<times> status) sys list"

definition srv_clear :: "uint32 \<Rightarrow> server_socket \<Rightarrow> server_socket" where
  "srv_clear flags s = s\<lparr>srv_flags := clear_flags flags (srv_flags s)\<rparr>"

definition srv_add :: "uint32 \<Rightarrow> server_socket \<Rightarrow> server_socket" where
  "srv_add flags s = s\<lparr>srv_flags := fst (write_flags_local flags (srv_flags s))\<rparr>"

definition srv_sync_with_poll :: "server_socket \<Rightarrow> server_socket" where
  "srv_sync_with_poll s = s\<lparr>srv_flags := fst (read_flags (srv_flags s))\<rparr>"

definition from_native_fd :: "int \<times> status \<Rightarrow> int result" where
  "from_native_fd c = (case snd c of Some e \<Rightarrow> Inl e | None \<Rightarrow> Inr (fst c))"

definition would_block :: status_error where
  "would_block = Error_code (-1) ''Operation would block''"

definition accept_failed :: "int \<Rightarrow> int \<Rightarrow> status_error" where
  "accept_failed err fd = PosixError err (''Accept from '' @ print_native_fd fd @ '' has failed'')"

definition server_accept :: "server_socket \<Rightarrow> (int result \<times> server_socket) run" where
  "server_accept s =
     run_bind (skip_eintr (os_accepts s)) (\<lambda>(res, rest).
       let s = s\<lparr>os_accepts := rest\<rparr> in
       case res of
         Sys_ok c \<Rightarrow> Done (from_native_fd c, s)
       | Sys_errno e \<Rightarrow>
           if e = EAGAIN then Done (Inl would_block, srv_clear flag_Read s)
           else if e \<in> {EBADF, EFAULT, EINVAL, ENOTSOCK, EOPNOTSUPP} then Fatal
           else Done (Inl (accept_failed e (srv_fd s)), srv_add flag_Close (srv_clear flag_Read s)))"

subsection \<open>Flags of the sockets\<close>

lemma sock_clear_sel [simp]:
  "sock_fd (sock_clear f s) = sock_fd s" "os_reads (sock_clear f s) = os_reads s"
  "os_writes (sock_clear f s) = os_writes s" "os_errors (sock_clear f s) = os_errors s"
  "sent (sock_clear f s) = sent s" "pf_flags (sock_flags (sock_clear f s)) = pf_flags (sock_flags s) AND NOT f"
  "to_write (sock_flags (sock_clear f s)) = to_write (sock_flags s)"
  by (simp_all add: sock_clear_def clear_flags_def remove_flags_def)

lemma sock_add_sel [simp]:
  "sock_fd (sock_add f s) = sock_fd s" "os_reads (sock_add f s) = os_reads s"
  "os_writes (sock_add f s) = os_writes s" "os_errors (sock_add f s) = os_errors s"
  "sent (sock_add f s) = sent s" "pf_flags (sock_flags (sock_add f s)) = pf_flags (sock_flags s) OR f"
  "to_write (sock_flags (sock_add f s)) = to_write (sock_flags s)"
  by (simp_all add: sock_add_def write_flags_local_def add_flags_def Let_def)

lemma srv_clear_sel [simp]:
  "srv_fd (srv_clear f s) = srv_fd s" "os_accepts (srv_clear f s) = os_accepts s"
  "pf_flags (srv_flags (srv_clear f s)) = pf_flags (srv_flags s) AND NOT f"
  by (simp_all add: srv_clear_def clear_flags_def remove_flags_def)

lemma srv_add_sel [simp]:
  "srv_fd (srv_add f s) = srv_fd s" "os_accepts (srv_add f s) = os_accepts s"
  "pf_flags (srv_flags (srv_add f s)) = pf_flags (srv_flags s) OR f"
  by (simp_all add: srv_add_def write_flags_local_def add_flags_def Let_def)

lemma bit_pow2: "bit (2 ^ k :: uint32) n \<longleftrightarrow> n = k" if "k < 32"
  using that by (auto simp: bit_exp_iff possible_bit_def)

lemma flag_bit_simps [simp]:
  "bit flag_Write n \<longleftrightarrow> n = 0" "bit flag_Read n \<longleftrightarrow> n = 1"
  "bit flag_Close n \<longleftrightarrow> n = 2" "bit flag_Error n \<longleftrightarrow> n = 3"
  unfolding has_flag_bit by (rule bit_pow2, simp)+

lemma can_local_bits:
  "can_read_local s \<longleftrightarrow> bit (pf_flags s) 1 \<or> bit (pf_flags s) 3"
  "can_write_local s \<longleftrightarrow> bit (pf_flags s) 0"
  "can_close_local s \<longleftrightarrow> bit (pf_flags s) 2"
  by (simp_all add: can_read_local_def can_write_local_def can_close_local_def flag_bits)

lemmas sock_flag_simps = can_local_bits flag_bits bit_or_iff bit_and_iff bit_not_iff

lemma within_slices_iff: "within_slices n sls \<longleftrightarrow> sls \<noteq> [] \<and> n \<le> length (concat sls)"
  by (induction sls arbitrary: n) auto

subsection \<open>What one call does\<close>

lemma skip_eintr_shorter: "skip_eintr rs = Done (r, rest) \<Longrightarrow> length rest < length rs"
  by (induction rs) (auto split: if_splits)

lemma skip_eintr_not_Fatal [simp]: "skip_eintr rs \<noteq> Fatal"
  by (induction rs) auto

lemma skip_eintr_split:
  "skip_eintr rs = Done (r, rest) \<Longrightarrow>
    \<exists>k. rs = replicate k (Sys_errno EINTR) @ r # rest \<and> r \<noteq> Sys_errno EINTR"
proof (induction rs)
  case (Cons x rs)
  show ?case
  proof (cases "x = Sys_errno EINTR")
    case True
    with Cons obtain k where "rs = replicate k (Sys_errno EINTR) @ r # rest" "r \<noteq> Sys_errno EINTR" by auto
    with True show ?thesis by (intro exI [of _ "Suc k"]) simp
  next
    case False
    with Cons.prems show ?thesis by (intro exI [of _ 0]) auto
  qed
qed simp

lemma write_finish_Done:
  assumes "write_finish e s = Done (r, s')"
  shows "(r = Inr 0 \<and> s' = sock_clear flag_Write s) \<or>
    (r = Inl (write_failed e (sock_fd s)) \<and> s' = sock_add flag_Close (sock_clear flag_Write s))"
proof (cases "e = EAGAIN")
  case True
  with assms show ?thesis by (simp add: write_finish_def)
next
  case False
  with assms show ?thesis by (simp add: write_finish_def split: if_splits)
qed

lemma socket_write_Done:
  assumes "socket_write data s = Done (r, s')"
  obtains res rest where "skip_eintr (os_writes s) = Done (res, rest)"
    and "(\<exists>n \<le> length data. r = Inr n \<and> s' = s\<lparr>os_writes := rest, sent := sent s @ take n data\<rparr>) \<or>
         (r = Inr 0 \<and> s' = sock_clear flag_Write (s\<lparr>os_writes := rest\<rparr>)) \<or>
         (\<exists>e. r = Inl (write_failed e (sock_fd s)) \<and>
              s' = sock_add flag_Close (sock_clear flag_Write (s\<lparr>os_writes := rest\<rparr>)))"
proof -
  from assms obtain res rest where skip: "skip_eintr (os_writes s) = Done (res, rest)"
    by (auto simp: socket_write_def)
  have "(\<exists>n \<le> length data. r = Inr n \<and> s' = s\<lparr>os_writes := rest, sent := sent s @ take n data\<rparr>) \<or>
         (r = Inr 0 \<and> s' = sock_clear flag_Write (s\<lparr>os_writes := rest\<rparr>)) \<or>
         (\<exists>e. r = Inl (write_failed e (sock_fd s)) \<and>
              s' = sock_add flag_Close (sock_clear flag_Write (s\<lparr>os_writes := rest\<rparr>)))"
  proof (cases res)
    case (Sys_ok n)
    with assms skip show ?thesis by (auto simp: socket_write_def Let_def split: if_splits)
  next
    case (Sys_errno e)
    with assms skip have "write_finish e (s\<lparr>os_writes := rest\<rparr>) = Done (r, s')"
      by (simp add: socket_write_def)
    from write_finish_Done [OF this] show ?thesis by auto
  qed
  with skip show thesis by (rule that)
qed

lemma socket_write_sent:
  assumes "socket_write data s = Done (Inr n, s')"
  shows "n \<le> length data \<and> sent s' = sent s @ take n data \<and> os_reads s' = os_reads s \<and>
    os_errors s' = os_errors s \<and> sock_fd s' = sock_fd s \<and>
    length (os_writes s') < length (os_writes s) \<and>
    (n = 0 \<or> sock_flags s' = sock_flags s)"
  using assms by (rule socket_write_Done) (auto dest: skip_eintr_shorter)

lemma socket_write_error:
  assumes "socket_write data s = Done (Inl e, s')"
  shows "sent s' = sent s \<and> can_close_local (sock_flags s') \<and> \<not> can_write_local (sock_flags s')"
  using assms by (rule socket_write_Done) (auto simp: sock_flag_simps)

lemma read_call_Done:
  assumes "read_call maxs s = Done (r, s')"
  obtains res rest where "skip_eintr (os_reads s) = Done (res, rest)"
    and "(\<exists>bytes. length bytes \<le> maxs \<and> r = Inr bytes \<and> bytes \<noteq> [] \<and> s' = s\<lparr>os_reads := rest\<rparr>) \<or>
         (r = Inr [] \<and> s' = sock_clear flag_Read (s\<lparr>os_reads := rest\<rparr>)) \<or>
         ((r = Inr [] \<or> (\<exists>e. r = Inl (read_failed e (sock_fd s)))) \<and>
              s' = sock_add flag_Close (sock_clear flag_Read (s\<lparr>os_reads := rest\<rparr>)))"
proof -
  from assms obtain res rest where skip: "skip_eintr (os_reads s) = Done (res, rest)" and m: "maxs \<noteq> 0"
    by (auto simp: read_call_def split: if_splits)
  have "(\<exists>bytes. length bytes \<le> maxs \<and> r = Inr bytes \<and> bytes \<noteq> [] \<and> s' = s\<lparr>os_reads := rest\<rparr>) \<or>
         (r = Inr [] \<and> s' = sock_clear flag_Read (s\<lparr>os_reads := rest\<rparr>)) \<or>
         ((r = Inr [] \<or> (\<exists>e. r = Inl (read_failed e (sock_fd s)))) \<and>
              s' = sock_add flag_Close (sock_clear flag_Read (s\<lparr>os_reads := rest\<rparr>)))"
  proof (cases res)
    case (Sys_ok bytes)
    with assms skip m show ?thesis by (auto simp: read_call_def Let_def split: if_splits)
  next
    case (Sys_errno e)
    show ?thesis
    proof (cases "e = EAGAIN")
      case True
      with assms skip m Sys_errno show ?thesis by (simp add: read_call_def Let_def)
    next
      case False
      with assms skip m Sys_errno show ?thesis by (auto simp: read_call_def Let_def split: if_splits)
    qed
  qed
  with skip show thesis by (rule that)
qed

lemma read_call_frame:
  assumes "read_call maxs s = Done (r, s')"
  shows "sent s' = sent s \<and> os_writes s' = os_writes s \<and> os_errors s' = os_errors s \<and>
    sock_fd s' = sock_fd s \<and> length (os_reads s') < length (os_reads s) \<and>
    to_write (sock_flags s') = to_write (sock_flags s)"
  using assms by (rule read_call_Done) (auto dest: skip_eintr_shorter)

lemma read_call_bytes:
  assumes "read_call maxs s = Done (Inr bytes, s')"
  shows "length bytes \<le> maxs \<and>
    (if bytes = [] then \<not> can_read (pf_flags (sock_flags s'))
     else sock_flags s' = sock_flags s)"
  using assms by (rule read_call_Done) (auto simp: sock_flag_simps)

lemma read_call_error:
  assumes "read_call maxs s = Done (Inl e, s')"
  shows "can_close_local (sock_flags s') \<and> \<not> can_read (pf_flags (sock_flags s'))"
  using assms by (rule read_call_Done) (auto simp: sock_flag_simps)

lemma get_pending_error_frame:
  assumes "get_pending_error s = Done (st, s')"
  shows "sent s' = sent s \<and> os_writes s' = os_writes s \<and> os_reads s' = os_reads s \<and>
    sock_fd s' = sock_fd s \<and> to_write (sock_flags s') = to_write (sock_flags s)"
  using assms
  by (auto simp: get_pending_error_def get_socket_pending_error_def Let_def split: if_splits list.splits option.splits)

text \<open>Once the pending error of the socket is read and is zero, none is pending.\<close>

lemma get_pending_error_cleared:
  assumes "get_pending_error s = Done (None, s')"
  shows "\<not> has_pending_error (pf_flags (sock_flags s'))"
  using assms
  by (auto simp: get_pending_error_def get_socket_pending_error_def Let_def sock_flag_simps
      split: if_splits list.splits option.splits)

lemma socket_read_shorter:
  assumes "socket_read maxs s = Done (Inr bytes, s')"
  shows "length (os_reads s') < length (os_reads s)"
proof -
  from assms obtain s1 where "get_pending_error s = Done (None, s1)" "read_call maxs s1 = Done (Inr bytes, s')"
    by (auto simp: socket_read_def split: option.splits)
  then show ?thesis
    using get_pending_error_frame read_call_frame by metis
qed

text \<open>The bytes that a list of results of \<^verbatim>\<open>read\<close> delivers.\<close>

definition delivered :: "string sys list \<Rightarrow> string" where
  "delivered rs = concat (map (\<lambda>r. case r of Sys_ok bytes \<Rightarrow> bytes | Sys_errno _ \<Rightarrow> []) rs)"

lemma delivered_simps [simp]:
  "delivered [] = []" "delivered (Sys_ok bytes # rs) = bytes @ delivered rs"
  "delivered (Sys_errno e # rs) = delivered rs" "delivered (rs @ rs') = delivered rs @ delivered rs'"
  "delivered (replicate k (Sys_errno e)) = []"
  by (simp_all add: delivered_def)

lemma read_call_delivers:
  assumes "read_call maxs s = Done (r, s')"
  shows "\<exists>used. os_reads s = used @ os_reads s' \<and> delivered used = (case r of Inl _ \<Rightarrow> [] | Inr bytes \<Rightarrow> bytes)"
proof -
  from assms obtain res rest where skip: "skip_eintr (os_reads s) = Done (res, rest)" and m: "maxs \<noteq> 0"
    by (auto simp: read_call_def split: if_splits)
  from skip_eintr_split [OF skip] obtain k where used: "os_reads s = replicate k (Sys_errno EINTR) @ res # rest" by blast
  have "os_reads s' = rest \<and> delivered [res] = (case r of Inl _ \<Rightarrow> [] | Inr bytes \<Rightarrow> bytes)"
  proof (cases res)
    case (Sys_ok bytes)
    with assms skip m show ?thesis by (auto simp: read_call_def Let_def split: if_splits)
  next
    case (Sys_errno e)
    show ?thesis
    proof (cases "e = EAGAIN")
      case True
      with assms skip m Sys_errno show ?thesis by (auto simp: read_call_def Let_def)
    next
      case False
      with assms skip m Sys_errno show ?thesis by (auto simp: read_call_def Let_def split: if_splits)
    qed
  qed
  with used show ?thesis
    by (intro exI [of _ "replicate k (Sys_errno EINTR) @ [res]"]) simp
qed

lemma socket_read_delivers:
  assumes "socket_read maxs s = Done (r, s')"
  shows "(\<exists>used. os_reads s = used @ os_reads s' \<and> delivered used = (case r of Inl _ \<Rightarrow> [] | Inr bytes \<Rightarrow> bytes)) \<and>
    sent s' = sent s \<and> os_writes s' = os_writes s \<and> (\<forall>bytes. r = Inr bytes \<longrightarrow> length bytes \<le> maxs)"
proof -
  from assms obtain st s1 where err: "get_pending_error s = Done (st, s1)"
    and call: "(case st of Some e \<Rightarrow> Done (Inl e, s1) | None \<Rightarrow> read_call maxs s1) = Done (r, s')"
    by (auto simp: socket_read_def)
  note frame = get_pending_error_frame [OF err]
  show ?thesis
  proof (cases st)
    case None
    with call have rc: "read_call maxs s1 = Done (r, s')" by simp
    have "\<forall>bytes. r = Inr bytes \<longrightarrow> length bytes \<le> maxs"
      using rc read_call_bytes by blast
    with read_call_delivers [OF rc] read_call_frame [OF rc] frame show ?thesis by auto
  next
    case (Some e)
    with call frame show ?thesis by auto
  qed
qed

end
