(* ===== verification/InboundConnection.thy ===== *)
theory InboundConnection
  imports SocketIo
begin

text \<open>
  The actor that serves an accepted connection (\<^verbatim>\<open>pxcnet/pxc/net/InboundConnection.cpp\<close>):
  it answers what it reads with a fixed string and writes the answers as fast as the
  socket takes them. What \<^verbatim>\<open>read_loop\<close> prints to the console is left out. An event is
  one call of \<open>inbound_loop\<close>; the actor is destroyed after an event that has called
  \<^verbatim>\<open>stop\<close>.
\<close>

record inbound =
  ic_socket :: socket
  ic_write_buf :: string
  ic_write_pos :: nat
  ic_subscribed :: bool
  ic_stopped :: bool

definition new_inbound :: "socket \<Rightarrow> inbound" where
  "new_inbound fd = \<lparr>ic_socket = fd, ic_write_buf = [], ic_write_pos = 0,
     ic_subscribed = False, ic_stopped = False\<rparr>"

definition inbound_start_up :: "inbound \<Rightarrow> inbound" where
  "inbound_start_up c = c\<lparr>ic_subscribed := True\<rparr>"

abbreviation answer :: string where "answer \<equiv> ''123456''"

abbreviation read_buf_size :: nat where "read_buf_size \<equiv> 1024"

function read_loop :: "inbound \<Rightarrow> (status \<times> inbound) run" where
  "read_loop c =
     (if can_read_local (sock_flags (ic_socket c)) then
        run_bind (socket_read read_buf_size (ic_socket c)) (\<lambda>(read_size, fd).
          case read_size of
            Inl e \<Rightarrow> Done (Some e, c\<lparr>ic_socket := fd\<rparr>)
          | Inr _ \<Rightarrow> read_loop (c\<lparr>ic_socket := fd, ic_write_buf := ic_write_buf c @ answer\<rparr>))
      else Done (None, c))"
  by pat_completeness auto
termination
  by (relation "measure (\<lambda>c. length (os_reads (ic_socket c)))") (auto dest: socket_read_shorter)

function write_loop :: "inbound \<Rightarrow> (status \<times> inbound) run" where
  "write_loop c =
     (if can_write_local (sock_flags (ic_socket c)) \<and> ic_write_pos c < length (ic_write_buf c) then
        run_bind (socket_write (drop (ic_write_pos c) (ic_write_buf c)) (ic_socket c)) (\<lambda>(written, fd).
          case written of
            Inl e \<Rightarrow> Done (Some e, c\<lparr>ic_socket := fd\<rparr>)
          | Inr n \<Rightarrow>
              let pos = ic_write_pos c + n in
              write_loop
                (if pos = length (ic_write_buf c) then c\<lparr>ic_socket := fd, ic_write_pos := 0, ic_write_buf := []\<rparr>
                 else c\<lparr>ic_socket := fd, ic_write_pos := pos\<rparr>))
      else Done (None, c))"
  by pat_completeness auto
termination
  by (relation "measure (\<lambda>c. length (os_writes (ic_socket c)))") (auto dest: socket_write_sent)

declare read_loop.simps [simp del] write_loop.simps [simp del]

definition do_loop :: "inbound \<Rightarrow> (status \<times> inbound) run" where
  "do_loop c =
     run_bind (read_loop (c\<lparr>ic_socket := sync_with_poll (ic_socket c)\<rparr>)) (\<lambda>(st, c).
       case st of Some e \<Rightarrow> Done (Some e, c)
       | None \<Rightarrow> run_bind (write_loop c) (\<lambda>(st, c).
           case st of Some e \<Rightarrow> Done (Some e, c)
           | None \<Rightarrow> Done (if can_close_local (sock_flags (ic_socket c)) then Some (Error_msg ''CLOSE'') else None, c)))"

definition inbound_loop :: "inbound \<Rightarrow> inbound run" where
  "inbound_loop c =
     run_bind (do_loop c) (\<lambda>(status, c).
       Done (if is_error status then c\<lparr>ic_subscribed := False, ic_stopped := True\<rparr> else c))"

subsection \<open>What has been sent and what is left\<close>

definition pending :: "inbound \<Rightarrow> string" where
  "pending c = drop (ic_write_pos c) (ic_write_buf c)"

definition inbound_inv :: "inbound \<Rightarrow> bool" where
  "inbound_inv c \<longleftrightarrow> ic_write_pos c < length (ic_write_buf c) \<or> ic_write_pos c = 0 \<and> ic_write_buf c = []"

definition answers :: "nat \<Rightarrow> string" where
  "answers n = concat (replicate n answer)"

lemma answers_simps [simp]: "answers 0 = []" "answers (Suc n) = answer @ answers n"
  by (simp_all add: answers_def)

lemma length_answers [simp]: "length (answers n) = 6 * n"
  by (induction n) simp_all

text \<open>The read calls that are answered: all that did not fail, end of input and
  \<^verbatim>\<open>EAGAIN\<close> included.\<close>

definition answered :: "string sys \<Rightarrow> bool" where
  "answered r \<longleftrightarrow> (case r of Sys_ok _ \<Rightarrow> True | Sys_errno e \<Rightarrow> e = EAGAIN)"

definition answered_calls :: "string sys list \<Rightarrow> nat" where
  "answered_calls rs = length (filter answered rs)"

lemma answered_calls_simps [simp]:
  "answered_calls [] = 0"
  "answered_calls (r # rs) = (if answered r then Suc (answered_calls rs) else answered_calls rs)"
  "answered_calls (rs @ rs') = answered_calls rs + answered_calls rs'"
  by (simp_all add: answered_calls_def)


lemma skip_eintr_used:
  assumes "skip_eintr rs = Done (r, rest)"
  shows "\<exists>used. rs = used @ r # rest \<and> answered_calls used = 0 \<and> r \<noteq> Sys_errno EINTR"
proof -
  have "answered_calls (replicate k (Sys_errno EINTR)) = 0" for k
    by (simp add: answered_calls_def answered_def errno_defs)
  with skip_eintr_split [OF assms] show ?thesis by blast
qed

lemma read_call_used:
  assumes "read_call maxs s = Done (r, s')"
  shows "\<exists>used. os_reads s = used @ os_reads s' \<and> answered_calls used = (case r of Inl _ \<Rightarrow> 0 | Inr _ \<Rightarrow> 1)"
proof -
  from assms obtain res rest where skip: "skip_eintr (os_reads s) = Done (res, rest)" and m: "maxs \<noteq> 0"
    by (auto simp: read_call_def split: if_splits)
  then obtain used where used: "os_reads s = used @ res # rest" "answered_calls used = 0" "res \<noteq> Sys_errno EINTR"
    using skip_eintr_used by blast
  have "os_reads s' = rest \<and> answered_calls [res] = (case r of Inl _ \<Rightarrow> 0 | Inr _ \<Rightarrow> 1)"
  proof (cases res)
    case (Sys_ok bytes)
    with assms skip m show ?thesis
      by (auto simp: read_call_def Let_def answered_def split: if_splits)
  next
    case (Sys_errno e)
    show ?thesis
    proof (cases "e = EAGAIN")
      case True
      with assms skip m Sys_errno show ?thesis
        by (auto simp: read_call_def Let_def answered_def)
    next
      case False
      with assms skip m Sys_errno show ?thesis
        by (auto simp: read_call_def Let_def answered_def split: if_splits)
    qed
  qed
  with used show ?thesis
    by (intro exI [of _ "used @ [res]"]) simp
qed

lemma socket_read_used:
  assumes "socket_read maxs s = Done (r, s')"
  shows "\<exists>used. os_reads s = used @ os_reads s' \<and> answered_calls used = (case r of Inl _ \<Rightarrow> 0 | Inr _ \<Rightarrow> 1)
    \<and> sent s' = sent s \<and> os_writes s' = os_writes s"
proof -
  from assms obtain st s1 where err: "get_pending_error s = Done (st, s1)"
    and call: "(case st of Some e \<Rightarrow> Done (Inl e, s1) | None \<Rightarrow> read_call maxs s1) = Done (r, s')"
    by (auto simp: socket_read_def)
  note frame = get_pending_error_frame [OF err]
  show ?thesis
  proof (cases st)
    case None
    with call have "read_call maxs s1 = Done (r, s')" by simp
    from read_call_used [OF this] read_call_frame [OF this] frame show ?thesis by auto
  next
    case (Some e)
    with call frame show ?thesis by auto
  qed
qed

text \<open>The read loop appends one answer for each read call that has not failed, and when it
  ends without an error nothing is left to read.\<close>

lemma read_loop_answers:
  "read_loop c = Done (st, c') \<Longrightarrow>
    \<exists>used. os_reads (ic_socket c) = used @ os_reads (ic_socket c') \<and>
      ic_write_buf c' = ic_write_buf c @ answers (answered_calls used) \<and>
      ic_write_pos c' = ic_write_pos c \<and> sent (ic_socket c') = sent (ic_socket c) \<and>
      os_writes (ic_socket c') = os_writes (ic_socket c) \<and>
      (st = None \<longrightarrow> \<not> can_read_local (sock_flags (ic_socket c')))"
proof (induction c arbitrary: st c' rule: read_loop.induct)
  case (1 c)
  show ?case
  proof (cases "can_read_local (sock_flags (ic_socket c))")
    case False
    with 1 (2) show ?thesis by (subst (asm) read_loop.simps) auto
  next
    case True
    with 1 (2) obtain r fd where rd: "socket_read read_buf_size (ic_socket c) = Done (r, fd)"
      and rest: "(case r of Inl e \<Rightarrow> Done (Some e, c\<lparr>ic_socket := fd\<rparr>)
          | Inr _ \<Rightarrow> read_loop (c\<lparr>ic_socket := fd, ic_write_buf := ic_write_buf c @ answer\<rparr>)) = Done (st, c')"
      by (subst (asm) read_loop.simps) auto
    from socket_read_used [OF rd] obtain used where used: "os_reads (ic_socket c) = used @ os_reads fd"
      "answered_calls used = (case r of Inl _ \<Rightarrow> 0 | Inr _ \<Rightarrow> 1)"
      and frame: "sent fd = sent (ic_socket c)" "os_writes fd = os_writes (ic_socket c)"
      by blast
    show ?thesis
    proof (cases r)
      case (Inl e)
      with rest used frame show ?thesis by auto
    next
      case (Inr bytes)
      with rest have "read_loop (c\<lparr>ic_socket := fd, ic_write_buf := ic_write_buf c @ answer\<rparr>) = Done (st, c')"
        by simp
      from 1 (1) [OF True rd refl Inr this] obtain used' where
        "os_reads fd = used' @ os_reads (ic_socket c')"
        "ic_write_buf c' = (ic_write_buf c @ answer) @ answers (answered_calls used')"
        "ic_write_pos c' = ic_write_pos c" "sent (ic_socket c') = sent fd"
        "os_writes (ic_socket c') = os_writes fd"
        "st = None \<longrightarrow> \<not> can_read_local (sock_flags (ic_socket c'))"
        by auto
      with used frame Inr show ?thesis
        by (intro exI [of _ "used @ used'"]) simp
    qed
  qed
qed

lemma write_loop_sends:
  "write_loop c = Done (st, c') \<Longrightarrow> inbound_inv c \<Longrightarrow>
    inbound_inv c' \<and> sent (ic_socket c') @ pending c' = sent (ic_socket c) @ pending c \<and>
    os_reads (ic_socket c') = os_reads (ic_socket c) \<and>
    (st = None \<longrightarrow> pending c' = [] \<or> \<not> can_write_local (sock_flags (ic_socket c')))"
proof (induction c arbitrary: st c' rule: write_loop.induct)
  case (1 c)
  show ?case
  proof (cases "can_write_local (sock_flags (ic_socket c)) \<and> ic_write_pos c < length (ic_write_buf c)")
    case False
    with 1 (2,3) show ?thesis by (subst (asm) write_loop.simps) (auto simp: pending_def inbound_inv_def)
  next
    case True
    with 1 (2) obtain r fd where wr: "socket_write (pending c) (ic_socket c) = Done (r, fd)"
      and rest: "(case r of Inl e \<Rightarrow> Done (Some e, c\<lparr>ic_socket := fd\<rparr>)
          | Inr n \<Rightarrow> let pos = ic_write_pos c + n in
              write_loop
                (if pos = length (ic_write_buf c) then c\<lparr>ic_socket := fd, ic_write_pos := 0, ic_write_buf := []\<rparr>
                 else c\<lparr>ic_socket := fd, ic_write_pos := pos\<rparr>)) = Done (st, c')"
      by (subst (asm) write_loop.simps) (auto simp: pending_def)
    show ?thesis
    proof (cases r)
      case (Inl e)
      with wr have "sent fd = sent (ic_socket c)" "os_reads fd = os_reads (ic_socket c)"
        by (auto elim!: socket_write_Done)
      with Inl rest 1 (3) show ?thesis by (auto simp: pending_def inbound_inv_def)
    next
      case (Inr n)
      let ?c = "if ic_write_pos c + n = length (ic_write_buf c)
        then c\<lparr>ic_socket := fd, ic_write_pos := 0, ic_write_buf := []\<rparr>
        else c\<lparr>ic_socket := fd, ic_write_pos := ic_write_pos c + n\<rparr>"
      from wr Inr have w: "n \<le> length (pending c)" "sent fd = sent (ic_socket c) @ take n (pending c)"
        "os_reads fd = os_reads (ic_socket c)"
        using socket_write_sent by blast+
      from Inr rest have "write_loop ?c = Done (st, c')" by (simp add: Let_def)
      moreover have inv: "inbound_inv ?c"
        using w (1) True by (auto simp: inbound_inv_def pending_def)
      ultimately have "inbound_inv c' \<and> sent (ic_socket c') @ pending c' = sent (ic_socket ?c) @ pending ?c \<and>
          os_reads (ic_socket c') = os_reads (ic_socket ?c) \<and>
          (st = None \<longrightarrow> pending c' = [] \<or> \<not> can_write_local (sock_flags (ic_socket c')))"
        using 1 (1) [OF True wr [unfolded pending_def] refl Inr refl] by blast
      moreover have "sent (ic_socket ?c) @ pending ?c = sent (ic_socket c) @ pending c"
        using w by (auto simp: pending_def add.commute simp flip: drop_drop)
      moreover have "os_reads (ic_socket ?c) = os_reads (ic_socket c)"
        using w by simp
      ultimately show ?thesis by simp
    qed
  qed
qed


lemma inbound_loop_Done:
  assumes "inbound_loop c = Done c'"
  obtains st c1 where "read_loop (c\<lparr>ic_socket := sync_with_poll (ic_socket c)\<rparr>) = Done (st, c1)"
    and "(\<exists>e. st = Some e \<and> c' = c1\<lparr>ic_subscribed := False, ic_stopped := True\<rparr>) \<or>
         (\<exists>st2 c2. st = None \<and> write_loop c1 = Done (st2, c2) \<and>
            c' = (if st2 \<noteq> None \<or> can_close_local (sock_flags (ic_socket c2))
                  then c2\<lparr>ic_subscribed := False, ic_stopped := True\<rparr> else c2))"
proof -
  from assms obtain st c1 where rd: "read_loop (c\<lparr>ic_socket := sync_with_poll (ic_socket c)\<rparr>) = Done (st, c1)"
    and rest: "run_bind (case st of Some e \<Rightarrow> Done (Some e, c1)
       | None \<Rightarrow> run_bind (write_loop c1) (\<lambda>(st, c).
           case st of Some e \<Rightarrow> Done (Some e, c)
           | None \<Rightarrow> Done (if can_close_local (sock_flags (ic_socket c)) then Some (Error_msg ''CLOSE'') else None, c)))
      (\<lambda>(status, c). Done (if is_error status then c\<lparr>ic_subscribed := False, ic_stopped := True\<rparr> else c)) = Done c'"
    by (auto simp: inbound_loop_def do_loop_def)
  show thesis
  proof (rule that [OF rd], cases st)
    case None
    with rest show "(\<exists>e. st = Some e \<and> c' = c1\<lparr>ic_subscribed := False, ic_stopped := True\<rparr>) \<or>
         (\<exists>st2 c2. st = None \<and> write_loop c1 = Done (st2, c2) \<and>
            c' = (if st2 \<noteq> None \<or> can_close_local (sock_flags (ic_socket c2))
                  then c2\<lparr>ic_subscribed := False, ic_stopped := True\<rparr> else c2))"
      by (auto simp: is_error_def split: option.splits if_splits)
  next
    case (Some e)
    with rest show "(\<exists>e. st = Some e \<and> c' = c1\<lparr>ic_subscribed := False, ic_stopped := True\<rparr>) \<or>
         (\<exists>st2 c2. st = None \<and> write_loop c1 = Done (st2, c2) \<and>
            c' = (if st2 \<noteq> None \<or> can_close_local (sock_flags (ic_socket c2))
                  then c2\<lparr>ic_subscribed := False, ic_stopped := True\<rparr> else c2))"
      by (auto simp: is_error_def)
  qed
qed

lemma sync_with_poll_sel [simp]:
  "os_reads (sync_with_poll s) = os_reads s" "os_writes (sync_with_poll s) = os_writes s"
  "os_errors (sync_with_poll s) = os_errors s" "sent (sync_with_poll s) = sent s"
  "sock_fd (sync_with_poll s) = sock_fd s"
  by (simp_all add: sync_with_poll_def)

lemma inbound_stop_sel [simp]:
  "pending (c\<lparr>ic_subscribed := b, ic_stopped := b'\<rparr>) = pending c"
  "inbound_inv (c\<lparr>ic_subscribed := b, ic_stopped := b'\<rparr>) = inbound_inv c"
  by (simp_all add: pending_def inbound_inv_def)

lemma inbound_append_answers:
  assumes "inbound_inv c" "ic_write_buf c1 = ic_write_buf c @ answers n" "ic_write_pos c1 = ic_write_pos c"
  shows "inbound_inv c1 \<and> pending c1 = pending c @ answers n"
proof -
  from assms have "ic_write_pos c \<le> length (ic_write_buf c)" by (auto simp: inbound_inv_def)
  with assms show ?thesis by (cases n) (auto simp: inbound_inv_def pending_def)
qed

text \<open>C9: The stream of a connection. Whatever the system returns to its calls, an event of
  the actor that returns keeps the write position inside the buffer, and what has been sent
  followed by what is left to send grows by exactly one answer for each read call that has
  not failed: nothing is lost, repeated or reordered by partial writes, errors or the
  reuse of the buffer.\<close>

theorem inbound_stream:
  assumes "inbound_loop c = Done c'" and "inbound_inv c"
  shows "inbound_inv c' \<and> (\<exists>used. os_reads (ic_socket c) = used @ os_reads (ic_socket c') \<and>
    sent (ic_socket c') @ pending c' = sent (ic_socket c) @ pending c @ answers (answered_calls used))"
  using assms (1)
proof (rule inbound_loop_Done)
  fix st c1
  let ?c = "c\<lparr>ic_socket := sync_with_poll (ic_socket c)\<rparr>"
  assume rd: "read_loop ?c = Done (st, c1)"
    and wr: "(\<exists>e. st = Some e \<and> c' = c1\<lparr>ic_subscribed := False, ic_stopped := True\<rparr>) \<or>
         (\<exists>st2 c2. st = None \<and> write_loop c1 = Done (st2, c2) \<and>
            c' = (if st2 \<noteq> None \<or> can_close_local (sock_flags (ic_socket c2))
                  then c2\<lparr>ic_subscribed := False, ic_stopped := True\<rparr> else c2))"
  from read_loop_answers [OF rd] obtain used where used: "os_reads (ic_socket c) = used @ os_reads (ic_socket c1)"
    "ic_write_buf c1 = ic_write_buf c @ answers (answered_calls used)"
    "ic_write_pos c1 = ic_write_pos c" "sent (ic_socket c1) = sent (ic_socket c)"
    by auto
  note c1 = inbound_append_answers [OF assms (2) used (2,3)]
  have "inbound_inv c' \<and> sent (ic_socket c') @ pending c' = sent (ic_socket c1) @ pending c1 \<and>
      os_reads (ic_socket c') = os_reads (ic_socket c1)"
    using wr c1 write_loop_sends by (auto split: if_splits)
  with used c1 show ?thesis by (intro conjI exI [of _ used]) simp_all
qed

subsection \<open>Every answer is sent\<close>

text \<open>The system takes \<open>k\<close> bytes in some number of partial writes.\<close>

fun kernel_takes :: "nat \<Rightarrow> nat sys list \<Rightarrow> bool" where
  "kernel_takes 0 ws = True"
| "kernel_takes (Suc k) [] = False"
| "kernel_takes (Suc k) (Sys_ok n # ws) = (0 < n \<and> n \<le> Suc k \<and> kernel_takes (Suc k - n) ws)"
| "kernel_takes (Suc k) (Sys_errno e # ws) = (e = EINTR \<and> kernel_takes (Suc k) ws)"

lemma kernel_takes_write:
  "kernel_takes k ws \<Longrightarrow> 0 < k \<Longrightarrow>
    \<exists>n rest. skip_eintr ws = Done (Sys_ok n, rest) \<and> 0 < n \<and> n \<le> k \<and> kernel_takes (k - n) rest"
  by (induction k ws rule: kernel_takes.induct) auto

lemma write_loop_drains:
  "can_write_local (sock_flags (ic_socket c)) \<Longrightarrow> inbound_inv c \<Longrightarrow>
    kernel_takes (length (pending c)) (os_writes (ic_socket c)) \<Longrightarrow>
    \<exists>c'. write_loop c = Done (None, c') \<and> pending c' = [] \<and>
      sent (ic_socket c') = sent (ic_socket c) @ pending c \<and>
      sock_flags (ic_socket c') = sock_flags (ic_socket c) \<and>
      ic_stopped c' = ic_stopped c \<and> ic_subscribed c' = ic_subscribed c"
proof (induction c rule: write_loop.induct)
  case (1 c)
  show ?case
  proof (cases "ic_write_pos c < length (ic_write_buf c)")
    case False
    with 1 (3) show ?thesis by (subst write_loop.simps) (auto simp: pending_def)
  next
    case True
    then have "0 < length (pending c)" by (simp add: pending_def)
    from kernel_takes_write [OF 1 (4) this] obtain n rest where k: "skip_eintr (os_writes (ic_socket c)) = Done (Sys_ok n, rest)"
      "0 < n" "n \<le> length (pending c)" "kernel_takes (length (pending c) - n) rest"
      by blast
    let ?fd = "(ic_socket c)\<lparr>os_writes := rest, sent := sent (ic_socket c) @ take n (pending c)\<rparr>"
    let ?c = "if ic_write_pos c + n = length (ic_write_buf c)
        then c\<lparr>ic_socket := ?fd, ic_write_pos := 0, ic_write_buf := []\<rparr>
        else c\<lparr>ic_socket := ?fd, ic_write_pos := ic_write_pos c + n\<rparr>"
    have wr: "socket_write (pending c) (ic_socket c) = Done (Inr n, ?fd)"
      using k by (simp add: socket_write_def Let_def)
    have rest: "pending ?c = drop n (pending c)"
      by (auto simp: pending_def add.commute)
    have inv: "inbound_inv ?c"
      using k (3) True by (auto simp: inbound_inv_def pending_def)
    have writable: "can_write_local (sock_flags (ic_socket ?c))"
      using 1 (2) by simp
    have takes: "kernel_takes (length (pending ?c)) (os_writes (ic_socket ?c))"
      unfolding rest using k (4) by simp
    have "\<exists>c'. write_loop ?c = Done (None, c') \<and> pending c' = [] \<and>
      sent (ic_socket c') = sent (ic_socket ?c) @ pending ?c \<and>
      sock_flags (ic_socket c') = sock_flags (ic_socket ?c) \<and>
      ic_stopped c' = ic_stopped ?c \<and> ic_subscribed c' = ic_subscribed ?c"
      by (rule 1 (1) [OF conjI [OF 1 (2) True] wr [unfolded pending_def] refl refl refl,
          folded pending_def, OF writable inv takes])
    moreover have "write_loop c = write_loop ?c"
      using 1 (2) True wr [unfolded pending_def] by (subst write_loop.simps) (simp add: pending_def Let_def)
    moreover have "sent (ic_socket ?c) @ pending ?c = sent (ic_socket c) @ pending c"
      unfolding rest by simp
    moreover have "sock_flags (ic_socket ?c) = sock_flags (ic_socket c)"
      "ic_stopped ?c = ic_stopped c" "ic_subscribed ?c = ic_subscribed c"
      by simp_all
    ultimately show ?thesis by simp
  qed
qed


text \<open>A read that the system answers with bytes, or interrupts.\<close>

definition plain_read :: "string sys \<Rightarrow> bool" where
  "plain_read r \<longleftrightarrow>
     (case r of Sys_ok bytes \<Rightarrow> bytes \<noteq> [] \<and> length bytes \<le> read_buf_size | Sys_errno e \<Rightarrow> e = EINTR)"

lemma read_loop_drains:
  "list_all plain_read rs \<Longrightarrow> os_reads (ic_socket c) = rs @ Sys_errno EAGAIN # rest \<Longrightarrow>
    can_read (pf_flags (sock_flags (ic_socket c))) \<Longrightarrow>
    \<not> has_pending_error (pf_flags (sock_flags (ic_socket c))) \<Longrightarrow>
    \<exists>c'. read_loop c = Done (None, c') \<and>
      ic_write_buf c' = ic_write_buf c @ answers (answered_calls rs + 1) \<and>
      ic_write_pos c' = ic_write_pos c \<and> sent (ic_socket c') = sent (ic_socket c) \<and>
      os_writes (ic_socket c') = os_writes (ic_socket c) \<and>
      pf_flags (sock_flags (ic_socket c')) = pf_flags (sock_flags (ic_socket c)) AND NOT flag_Read \<and>
      ic_stopped c' = ic_stopped c \<and> ic_subscribed c' = ic_subscribed c"
proof (induction rs arbitrary: c)
  case Nil
  then show ?case
    apply (subst read_loop.simps)
    apply (simp add: socket_read_def get_pending_error_def read_call_def errno_defs Let_def sock_flag_simps)
    apply (subst read_loop.simps)
    apply (simp add: sock_flag_simps answered_def)
    done
next
  case (Cons r rs)
  show ?case
  proof (cases r)
    case (Sys_ok bytes)
    let ?c = "c\<lparr>ic_socket := (ic_socket c)\<lparr>os_reads := rs @ Sys_errno EAGAIN # rest\<rparr>,
      ic_write_buf := ic_write_buf c @ answer\<rparr>"
    have "read_loop c = read_loop ?c"
      using Cons.prems Sys_ok
      by (subst read_loop.simps)
        (simp add: socket_read_def get_pending_error_def read_call_def plain_read_def can_read_local_def Let_def)
    then show ?thesis
      using Cons.IH [of ?c] Cons.prems Sys_ok by (simp add: answered_def)
  next
    case (Sys_errno e)
    let ?c = "c\<lparr>ic_socket := (ic_socket c)\<lparr>os_reads := rs @ Sys_errno EAGAIN # rest\<rparr>\<rparr>"
    have "read_loop c = read_loop ?c"
      using Cons.prems Sys_errno
      by (subst (1 2) read_loop.simps)
        (simp add: socket_read_def get_pending_error_def read_call_def plain_read_def can_read_local_def
          cong: sum.case_cong)
    then show ?thesis
      using Cons.IH [of ?c] Cons.prems Sys_errno by (simp add: plain_read_def answered_def errno_defs)
  qed
qed

text \<open>The flags of the socket after an event has synchronised with the poll thread.\<close>

abbreviation synced_flags :: "inbound \<Rightarrow> uint32" where
  "synced_flags c \<equiv> pf_flags (sock_flags (sync_with_poll (ic_socket c)))"

text \<open>C15: Every answer is sent. When the socket of a connection is readable and writable and
  neither closed nor in error, the system delivers any number of non-empty reads, interrupted
  or not, until it has no more, and takes the bytes in any number of partial writes, the event
  returns, everything that was left and an answer for every read, one for the read
  that found nothing included, has been sent, and the actor goes on.\<close>

theorem inbound_answers_everything:
  assumes "inbound_inv c"
    and "can_read (synced_flags c)" and "can_write (synced_flags c)"
    and "\<not> can_close (synced_flags c)" and "\<not> has_pending_error (synced_flags c)"
    and "os_reads (ic_socket c) = rs @ Sys_errno EAGAIN # rest" and "list_all plain_read rs"
    and "kernel_takes (length (pending c) + 6 * (answered_calls rs + 1)) (os_writes (ic_socket c))"
  shows "\<exists>c'. inbound_loop c = Done c' \<and> pending c' = [] \<and>
    sent (ic_socket c') = sent (ic_socket c) @ pending c @ answers (answered_calls rs + 1) \<and>
    ic_stopped c' = ic_stopped c"
proof -
  let ?c = "c\<lparr>ic_socket := sync_with_poll (ic_socket c)\<rparr>"
  obtain c1 where c1: "read_loop ?c = Done (None, c1)"
      "ic_write_buf c1 = ic_write_buf c @ answers (answered_calls rs + 1)"
      "ic_write_pos c1 = ic_write_pos c" "sent (ic_socket c1) = sent (ic_socket c)"
      "os_writes (ic_socket c1) = os_writes (ic_socket c)"
      "pf_flags (sock_flags (ic_socket c1)) = synced_flags c AND NOT flag_Read"
      "ic_stopped c1 = ic_stopped c"
    using read_loop_drains [of rs ?c rest] assms by auto
  note app = inbound_append_answers [OF assms (1) c1 (2,3)]
  have takes: "kernel_takes (length (pending c1)) (os_writes (ic_socket c1))"
    using assms (8) c1 (5) conjunct2 [OF app] by (simp only: length_append length_answers)
  have writable: "can_write_local (sock_flags (ic_socket c1))"
    using assms (3) c1 (6) by (simp add: sock_flag_simps)
  from write_loop_drains [OF writable conjunct1 [OF app] takes] obtain c2 where
    c2: "write_loop c1 = Done (None, c2)" "pending c2 = []"
      "sent (ic_socket c2) = sent (ic_socket c1) @ pending c1"
      "sock_flags (ic_socket c2) = sock_flags (ic_socket c1)" "ic_stopped c2 = ic_stopped c1"
    by blast
  have "\<not> can_close_local (sock_flags (ic_socket c2))"
    using assms (4) c1 (6) c2 (4) by (simp add: sock_flag_simps)
  then have "inbound_loop c = Done c2"
    using c1 (1) c2 (1) by (simp add: inbound_loop_def do_loop_def is_error_def)
  with c1 c2 app show ?thesis by simp
qed


subsection \<open>A connection\<close>

text \<open>Two reads, one of them interrupted; the system takes ten bytes and then no more.\<close>

definition busy_socket :: "nat sys list \<Rightarrow> socket" where
  "busy_socket writes = \<lparr>sock_fd = 5, sock_flags = \<lparr>to_write = 3, pf_flags = 0\<rparr>,
     os_reads = [Sys_ok ''hi'', Sys_errno EINTR, Sys_ok ''x'', Sys_errno EAGAIN],
     os_writes = writes, os_errors = [], sent = []\<rparr>"

definition busy_conn :: inbound where
  "busy_conn = new_inbound (busy_socket [Sys_ok 10, Sys_errno EAGAIN])"

definition busy_conn_after :: inbound where
  "busy_conn_after = \<lparr>ic_socket = \<lparr>sock_fd = 5, sock_flags = \<lparr>to_write = 0, pf_flags = 0\<rparr>,
       os_reads = [], os_writes = [], os_errors = [], sent = ''1234561234''\<rparr>,
     ic_write_buf = ''123456123456123456'', ic_write_pos = 10, ic_subscribed = False, ic_stopped = False\<rparr>"

lemma busy_conn_loop: "inbound_loop busy_conn = Done busy_conn_after"
  by code_simp

theorem inbound_stream_witness:
  "inbound_inv busy_conn_after \<and> (\<exists>used. os_reads (ic_socket busy_conn) = used @ os_reads (ic_socket busy_conn_after) \<and>
    sent (ic_socket busy_conn_after) @ pending busy_conn_after =
      sent (ic_socket busy_conn) @ pending busy_conn @ answers (answered_calls used))"
  by (rule inbound_stream [OF busy_conn_loop]) (simp add: inbound_inv_def busy_conn_def new_inbound_def)

definition idle_conn :: inbound where
  "idle_conn = new_inbound (busy_socket [Sys_ok 10, Sys_errno EINTR, Sys_ok 8])"

theorem inbound_answers_everything_witness:
  "\<exists>c'. inbound_loop idle_conn = Done c' \<and> pending c' = [] \<and>
    sent (ic_socket c') = sent (ic_socket idle_conn) @ pending idle_conn @ answers (answered_calls [Sys_ok ''hi'', Sys_errno EINTR, Sys_ok ''x''] + 1) \<and>
    ic_stopped c' = ic_stopped idle_conn"
proof (rule inbound_answers_everything [where rest = "[]"])
  show "can_read (synced_flags idle_conn)" by code_simp
  show "can_write (synced_flags idle_conn)" by code_simp
  show "\<not> can_close (synced_flags idle_conn)" by code_simp
  show "\<not> has_pending_error (synced_flags idle_conn)" by code_simp
  show "kernel_takes (length (pending idle_conn) + 6 * (answered_calls [Sys_ok ''hi'', Sys_errno EINTR, Sys_ok ''x''] + 1))
      (os_writes (ic_socket idle_conn))" by code_simp
qed (simp_all add: idle_conn_def busy_socket_def new_inbound_def inbound_inv_def plain_read_def)

end
