(* ===== verification/TcpListener.thy ===== *)
theory TcpListener
  imports SocketIo
begin

text \<open>
  The actor that listens for connections (\<^verbatim>\<open>pxcnet/pxc/net/TcpListener.cpp\<close>):
  \<^verbatim>\<open>start_up\<close>, \<^verbatim>\<open>loop\<close>, \<^verbatim>\<open>hangup\<close> and \<^verbatim>\<open>tear_down\<close>. The
  descriptors handed to the callback with \<^verbatim>\<open>send_closure\<close> are listed in
  \<open>tl_accepted\<close> in the order they are sent. What \<^verbatim>\<open>ServerSocketFd::open\<close>
  makes of a valid port (address resolution, \<^verbatim>\<open>socket\<close>, \<^verbatim>\<open>bind\<close>,
  \<^verbatim>\<open>listen\<close>) is a list of results of the operating system.
\<close>

record listener =
  tl_port :: int
  tl_server :: "server_socket option"
  os_opens :: "server_socket result list"
  tl_accepted :: "int list"
  tl_timeout :: bool
  tl_subscribed :: bool
  tl_stopped :: bool

definition new_listener :: "int \<Rightarrow> server_socket result list \<Rightarrow> listener" where
  "new_listener port opens = \<lparr>tl_port = port, tl_server = None, os_opens = opens, tl_accepted = [],
     tl_timeout = False, tl_subscribed = False, tl_stopped = False\<rparr>"

definition server_open :: "int \<Rightarrow> server_socket result list \<Rightarrow> (server_socket result \<times> server_socket result list) run" where
  "server_open port opens =
     (if port \<le> 0 \<or> port \<ge> 2 ^ 16
      then Done (error_result (''Invalid server port '' @ print_int 32 port @ '' specified''), opens)
      else case opens of [] \<Rightarrow> Starved | r # rest \<Rightarrow> Done (r, rest))"

definition listener_start_up :: "listener \<Rightarrow> listener run" where
  "listener_start_up l =
     run_bind (server_open (tl_port l) (os_opens l)) (\<lambda>(r_socket, rest).
       Done (case r_socket of
           Inl _ \<Rightarrow> l\<lparr>os_opens := rest, tl_timeout := True\<rparr>
         | Inr fd \<Rightarrow> l\<lparr>os_opens := rest, tl_server := Some fd, tl_subscribed := True\<rparr>))"

definition listener_hangup :: "listener \<Rightarrow> listener" where
  "listener_hangup l = l\<lparr>tl_stopped := True\<rparr>"

definition listener_tear_down :: "listener \<Rightarrow> listener" where
  "listener_tear_down l =
     (if tl_server l \<noteq> None then l\<lparr>tl_subscribed := False, tl_server := None\<rparr> else l)"

lemma server_accept_shorter:
  assumes "server_accept s = Done (r, s')"
  shows "length (os_accepts s') < length (os_accepts s)"
proof -
  from assms obtain res rest where skip: "skip_eintr (os_accepts s) = Done (res, rest)"
    by (auto simp: server_accept_def)
  have "os_accepts s' = rest"
  proof (cases res)
    case (Sys_ok c)
    with assms skip show ?thesis by (auto simp: server_accept_def Let_def)
  next
    case (Sys_errno e)
    show ?thesis
    proof (cases "e = EAGAIN")
      case True
      with assms skip Sys_errno show ?thesis by (auto simp: server_accept_def Let_def)
    next
      case False
      with assms skip Sys_errno show ?thesis by (auto simp: server_accept_def Let_def split: if_splits)
    qed
  qed
  with skip_eintr_shorter [OF skip] show ?thesis by simp
qed

function accept_loop :: "server_socket \<Rightarrow> int list \<Rightarrow> (server_socket \<times> int list) run" where
  "accept_loop s accepted =
     (if can_read_local (srv_flags s) then
        run_bind (server_accept s) (\<lambda>(r_socket_fd, s).
          case r_socket_fd of
            Inl _ \<Rightarrow> accept_loop s accepted
          | Inr fd \<Rightarrow> accept_loop s (accepted @ [fd]))
      else Done (s, accepted))"
  by pat_completeness auto
termination
  by (relation "measure (\<lambda>(s, _). length (os_accepts s))") (auto dest: server_accept_shorter)

declare accept_loop.simps [simp del]

definition listener_loop :: "listener \<Rightarrow> listener run" where
  "listener_loop l =
     run_bind (if tl_server l = None then listener_start_up l else Done l) (\<lambda>l.
       case tl_server l of
         None \<Rightarrow> Done l
       | Some s \<Rightarrow>
           run_bind (accept_loop (srv_sync_with_poll s) (tl_accepted l)) (\<lambda>(s, accepted).
             let l = l\<lparr>tl_server := Some s, tl_accepted := accepted\<rparr> in
             Done (if can_close_local (srv_flags s) then l\<lparr>tl_stopped := True\<rparr> else l)))"

subsection \<open>Connections are handed over in order\<close>

text \<open>The connections the system reports and the socket options can be set for.\<close>

fun accepted_fds :: "(int \<times> status) sys list \<Rightarrow> int list" where
  "accepted_fds [] = []"
| "accepted_fds (Sys_ok (fd, None) # rs) = fd # accepted_fds rs"
| "accepted_fds (Sys_ok (fd, Some e) # rs) = accepted_fds rs"
| "accepted_fds (Sys_errno e # rs) = accepted_fds rs"

lemma accepted_fds_append [simp]: "accepted_fds (rs @ rs') = accepted_fds rs @ accepted_fds rs'"
  by (induction rs rule: accepted_fds.induct) auto

definition flags_error :: "server_socket \<Rightarrow> bool" where
  "flags_error s \<longleftrightarrow> has_pending_error (pf_flags (srv_flags s))"

lemma skip_eintr_accepts:
  assumes "skip_eintr rs = Done (r, rest)"
  shows "\<exists>used. rs = used @ r # rest \<and> accepted_fds used = []"
  using assms
proof (induction rs)
  case (Cons x rs)
  show ?case
  proof (cases "x = Sys_errno EINTR")
    case True
    with Cons obtain used where "rs = used @ r # rest" "accepted_fds used = []" by auto
    with True show ?thesis by (intro exI [of _ "x # used"]) simp
  next
    case False
    with Cons.prems show ?thesis by (intro exI [of _ "[]"]) auto
  qed
qed simp

lemma server_accept_used:
  assumes "server_accept s = Done (r, s')"
  shows "\<exists>used. os_accepts s = used @ os_accepts s' \<and>
    accepted_fds used = (case r of Inl _ \<Rightarrow> [] | Inr fd \<Rightarrow> [fd]) \<and> flags_error s' = flags_error s"
proof -
  from assms obtain res rest where skip: "skip_eintr (os_accepts s) = Done (res, rest)"
    by (auto simp: server_accept_def)
  then obtain used where used: "os_accepts s = used @ res # rest" "accepted_fds used = []"
    using skip_eintr_accepts by blast
  have "os_accepts s' = rest \<and> accepted_fds [res] = (case r of Inl _ \<Rightarrow> [] | Inr fd \<Rightarrow> [fd]) \<and>
      flags_error s' = flags_error s"
  proof (cases res)
    case (Sys_ok c)
    obtain fd st where "c = (fd, st)" by (cases c)
    with assms skip Sys_ok show ?thesis
      by (cases st) (auto simp: server_accept_def Let_def from_native_fd_def flags_error_def)
  next
    case (Sys_errno e)
    show ?thesis
    proof (cases "e = EAGAIN")
      case True
      with assms skip Sys_errno show ?thesis
        by (auto simp: server_accept_def Let_def flags_error_def sock_flag_simps)
    next
      case False
      with assms skip Sys_errno show ?thesis
        by (auto simp: server_accept_def Let_def flags_error_def sock_flag_simps split: if_splits)
    qed
  qed
  with used show ?thesis
    by (intro exI [of _ "used @ [res]"]) simp
qed

lemma accept_loop_unfold:
  "accept_loop s accepted =
     (if can_read_local (srv_flags s) then
        run_bind (server_accept s) (\<lambda>(r, s). accept_loop s (accepted @ (case r of Inl _ \<Rightarrow> [] | Inr fd \<Rightarrow> [fd])))
      else Done (s, accepted))"
  by (subst accept_loop.simps) (auto intro!: arg_cong [where f = "run_bind _"] ext split: sum.splits)

lemma accept_loop_induct [case_names step]:
  assumes "\<And>s accepted. (\<And>r s'. can_read_local (srv_flags s) \<Longrightarrow> server_accept s = Done (r, s') \<Longrightarrow>
      P s' (accepted @ (case r of Inl _ \<Rightarrow> [] | Inr fd \<Rightarrow> [fd]))) \<Longrightarrow> P s accepted"
  shows "P s accepted"
proof (induction "length (os_accepts s)" arbitrary: s accepted rule: less_induct)
  case less
  show ?case
    by (rule assms) (rule less, rule server_accept_shorter)
qed

lemma accept_loop_accepts:
  "accept_loop s accepted = Done (s', accepted') \<Longrightarrow>
    \<exists>used. os_accepts s = used @ os_accepts s' \<and> accepted' = accepted @ accepted_fds used \<and>
      \<not> can_read_local (srv_flags s') \<and> flags_error s' = flags_error s"
proof (induction s accepted rule: accept_loop_induct)
  case (step s accepted)
  show ?case
  proof (cases "can_read_local (srv_flags s)")
    case False
    with step.prems show ?thesis by (simp add: accept_loop_unfold [of s])
  next
    case True
    with step.prems obtain r s1 where acc: "server_accept s = Done (r, s1)"
      and rest: "accept_loop s1 (accepted @ (case r of Inl _ \<Rightarrow> [] | Inr fd \<Rightarrow> [fd])) = Done (s', accepted')"
      by (auto simp: accept_loop_unfold [of s])
    from step.IH [OF True acc rest] server_accept_used [OF acc] obtain used used' where
      "os_accepts s = used @ used' @ os_accepts s'"
      "accepted_fds used = (case r of Inl _ \<Rightarrow> [] | Inr fd \<Rightarrow> [fd])"
      "accepted' = accepted @ accepted_fds used @ accepted_fds used'"
      "\<not> can_read_local (srv_flags s')" "flags_error s' = flags_error s"
      by auto
    then show ?thesis by (intro exI [of _ "used @ used'"]) simp
  qed
qed


lemma srv_sync_with_poll_sel [simp]:
  "os_accepts (srv_sync_with_poll s) = os_accepts s" "srv_fd (srv_sync_with_poll s) = srv_fd s"
  by (simp_all add: srv_sync_with_poll_def)

lemma listener_loop_serving:
  "tl_server l = Some s \<Longrightarrow>
    listener_loop l = run_bind (accept_loop (srv_sync_with_poll s) (tl_accepted l)) (\<lambda>(s, accepted).
      Done (if can_close_local (srv_flags s)
            then l\<lparr>tl_server := Some s, tl_accepted := accepted, tl_stopped := True\<rparr>
            else l\<lparr>tl_server := Some s, tl_accepted := accepted\<rparr>))"
  by (simp add: listener_loop_def Let_def)

text \<open>C21: Connections are handed over once each and in order. Whatever the system returns,
  an event of a listener that serves a port and returns has sent to the callback exactly the
  descriptors that the consumed calls of \<^verbatim>\<open>accept\<close> reported and whose options
  could be set, in the order of the calls, has left nothing that is known to be readable, and
  stops the actor exactly when the socket is closed.\<close>

theorem listener_hands_over:
  assumes "listener_loop l = Done l'" and "tl_server l = Some s"
  shows "\<exists>used s'. tl_server l' = Some s' \<and> os_accepts s = used @ os_accepts s' \<and>
    tl_accepted l' = tl_accepted l @ accepted_fds used \<and>
    \<not> can_read_local (srv_flags s') \<and>
    tl_stopped l' = (tl_stopped l \<or> can_close_local (srv_flags s'))"
proof -
  from assms obtain s' accepted where acc: "accept_loop (srv_sync_with_poll s) (tl_accepted l) = Done (s', accepted)"
    and l': "l' = (if can_close_local (srv_flags s')
      then l\<lparr>tl_server := Some s', tl_accepted := accepted, tl_stopped := True\<rparr>
      else l\<lparr>tl_server := Some s', tl_accepted := accepted\<rparr>)"
    by (auto simp: listener_loop_serving [OF assms (2)])
  from accept_loop_accepts [OF acc] obtain used where "os_accepts s = used @ os_accepts s'"
    "accepted = tl_accepted l @ accepted_fds used" "\<not> can_read_local (srv_flags s')"
    by auto
  with l' show ?thesis by (intro exI [of _ used] exI [of _ s']) auto
qed

subsection \<open>When an event returns\<close>

definition fatal_accept_errors :: "int list" where
  "fatal_accept_errors = [EBADF, EFAULT, EINVAL, ENOTSOCK, EOPNOTSUPP]"

text \<open>A call of \<^verbatim>\<open>accept\<close> that was interrupted or returned a connection.\<close>

definition plain_accept :: "(int \<times> status) sys \<Rightarrow> bool" where
  "plain_accept r \<longleftrightarrow> (case r of Sys_ok _ \<Rightarrow> True | Sys_errno e \<Rightarrow> e = EINTR)"

lemma skip_eintr_plain:
  "list_all plain_accept conns \<Longrightarrow> e \<noteq> EINTR \<Longrightarrow>
    (\<exists>c conns'. skip_eintr (conns @ Sys_errno e # rest) = Done (Sys_ok c, conns' @ Sys_errno e # rest) \<and>
        list_all plain_accept conns' \<and> length conns' < length conns \<and>
        accepted_fds conns = accepted_fds (Sys_ok c # conns')) \<or>
    (skip_eintr (conns @ Sys_errno e # rest) = Done (Sys_errno e, rest) \<and> accepted_fds conns = [])"
proof (induction conns)
  case (Cons r conns)
  show ?case
  proof (cases r)
    case (Sys_ok c)
    with Cons.prems show ?thesis by (intro disjI1 exI [of _ c] exI [of _ conns]) simp
  next
    case (Sys_errno e')
    with Cons.prems have r: "r = Sys_errno EINTR" by (simp add: plain_accept_def)
    have "list_all plain_accept conns" using Cons.prems (1) by simp
    from Cons.IH [OF this Cons.prems (2)] show ?thesis
    proof (elim disjE exE conjE)
      fix c conns'
      assume "skip_eintr (conns @ Sys_errno e # rest) = Done (Sys_ok c, conns' @ Sys_errno e # rest)"
        "list_all plain_accept conns'" "length conns' < length conns"
        "accepted_fds conns = accepted_fds (Sys_ok c # conns')"
      with r show ?thesis by (intro disjI1 exI [of _ c] exI [of _ conns']) simp
    qed (simp add: r)
  qed
qed simp

lemma accept_loop_drains:
  "list_all plain_accept conns \<Longrightarrow> os_accepts s = conns @ Sys_errno e # rest \<Longrightarrow>
    e \<notin> set (EINTR # fatal_accept_errors) \<Longrightarrow> can_read (pf_flags (srv_flags s)) \<Longrightarrow> \<not> flags_error s \<Longrightarrow>
    \<exists>s'. accept_loop s accepted = Done (s', accepted @ accepted_fds conns) \<and> os_accepts s' = rest"
proof (induction "length conns" arbitrary: conns s accepted rule: less_induct)
  case less
  have e: "e \<noteq> EINTR" "e \<notin> {EBADF, EFAULT, EINVAL, ENOTSOCK, EOPNOTSUPP}"
    using less.prems (3) by (auto simp: fatal_accept_errors_def)
  have local: "can_read_local (srv_flags s)"
    using less.prems (4) by (simp add: can_read_local_def)
  from skip_eintr_plain [OF less.prems (1) e (1), of rest] show ?case
  proof (elim disjE exE conjE)
    fix c conns'
    assume skip: "skip_eintr (conns @ Sys_errno e # rest) = Done (Sys_ok c, conns' @ Sys_errno e # rest)"
      and conns': "list_all plain_accept conns'" "length conns' < length conns"
        "accepted_fds conns = accepted_fds (Sys_ok c # conns')"
    let ?s = "s\<lparr>os_accepts := conns' @ Sys_errno e # rest\<rparr>"
    let ?accepted = "accepted @ (case from_native_fd c of Inl _ \<Rightarrow> [] | Inr fd \<Rightarrow> [fd])"
    have "\<exists>s'. accept_loop ?s ?accepted = Done (s', ?accepted @ accepted_fds conns') \<and> os_accepts s' = rest"
      using less.hyps [OF conns' (2,1), of ?s ?accepted] less.prems (3,4,5) by (simp add: flags_error_def)
    moreover have "accept_loop s accepted = accept_loop ?s ?accepted"
      using local skip less.prems (2) by (simp add: accept_loop_unfold [of s] server_accept_def Let_def)
    moreover have "?accepted @ accepted_fds conns' = accepted @ accepted_fds conns"
      unfolding conns' (3) by (cases c; cases "snd c") (auto simp: from_native_fd_def)
    ultimately show ?thesis by simp
  next
    assume skip: "skip_eintr (conns @ Sys_errno e # rest) = Done (Sys_errno e, rest)"
      and none: "accepted_fds conns = []"
    let ?s = "s\<lparr>os_accepts := rest\<rparr>"
    obtain err s' where acc: "server_accept s = Done (Inl err, s')"
      and s': "s' = srv_clear flag_Read ?s \<or> s' = srv_add flag_Close (srv_clear flag_Read ?s)"
      using skip less.prems (2) e (2) by (cases "e = EAGAIN") (auto simp: server_accept_def Let_def)
    have "\<not> can_read_local (srv_flags s')" and rest: "os_accepts s' = rest"
      using s' less.prems (5) by (auto simp: sock_flag_simps flags_error_def)
    then have "accept_loop s' accepted = Done (s', accepted)"
      by (simp add: accept_loop_unfold [of s'])
    then have "accept_loop s accepted = Done (s', accepted)"
      using local acc by (simp add: accept_loop_unfold [of s])
    with rest none show ?thesis by simp
  qed
qed

lemma accept_loop_spins: "flags_error s \<Longrightarrow> accept_loop s accepted \<noteq> Done r"
  using accept_loop_accepts [of s accepted "fst r" "snd r"]
  by (auto simp: can_read_local_def flags_error_def)

text \<open>C22: When an event of the listener returns. The socket is readable, and the system
  reports any number of connections, interrupted or not, and then an error that is
  not fatal, such as \<^verbatim>\<open>EAGAIN\<close>. If no error is pending on the socket, the event returns
  and every connection has been handed over. If one is pending, the event never returns,
  whatever \<^verbatim>\<open>accept\<close> goes on to report: the loop is entered because of the error flag
  and no call of \<^verbatim>\<open>accept\<close> clears it.\<close>

theorem listener_returns:
  assumes "tl_server l = Some s" and "can_read (pf_flags (srv_flags (srv_sync_with_poll s)))"
    and "os_accepts s = conns @ Sys_errno e # rest" and "list_all plain_accept conns"
    and "e \<notin> set (EINTR # fatal_accept_errors)"
  shows "if flags_error (srv_sync_with_poll s) then \<forall>l'. listener_loop l \<noteq> Done l'
    else \<exists>l'. listener_loop l = Done l' \<and> tl_accepted l' = tl_accepted l @ accepted_fds conns"
proof (cases "flags_error (srv_sync_with_poll s)")
  case True
  then show ?thesis
    using accept_loop_spins by (auto simp: listener_loop_serving [OF assms (1)])
next
  case False
  have "os_accepts (srv_sync_with_poll s) = conns @ Sys_errno e # rest"
    using assms (3) by simp
  from accept_loop_drains [OF assms (4) this assms (5,2) False] obtain s' where
    "accept_loop (srv_sync_with_poll s) (tl_accepted l) = Done (s', tl_accepted l @ accepted_fds conns)"
    by blast
  with False show ?thesis by (simp add: listener_loop_serving [OF assms (1)])
qed

subsection \<open>A listener\<close>

definition busy_server :: "uint32 \<Rightarrow> server_socket" where
  "busy_server flags = \<lparr>srv_fd = 3, srv_flags = \<lparr>to_write = flags, pf_flags = 0\<rparr>,
     os_accepts = [Sys_ok (7, None), Sys_errno EINTR, Sys_ok (8, Some (PosixError 24 ''setsockopt'')),
       Sys_ok (9, None), Sys_errno EAGAIN]\<rparr>"

definition busy_listener :: "uint32 \<Rightarrow> listener" where
  "busy_listener flags = (new_listener 1080 [])\<lparr>tl_server := Some (busy_server flags)\<rparr>"

definition busy_listener_after :: listener where
  "busy_listener_after = \<lparr>tl_port = 1080,
     tl_server = Some \<lparr>srv_fd = 3, srv_flags = \<lparr>to_write = 0, pf_flags = 0\<rparr>, os_accepts = []\<rparr>,
     os_opens = [], tl_accepted = [7, 9], tl_timeout = False, tl_subscribed = False, tl_stopped = False\<rparr>"

lemma busy_listener_loop: "listener_loop (busy_listener flag_Read) = Done busy_listener_after"
  by code_simp

theorem listener_hands_over_witness:
  "\<exists>used s'. tl_server busy_listener_after = Some s' \<and>
    os_accepts (busy_server flag_Read) = used @ os_accepts s' \<and>
    tl_accepted busy_listener_after = tl_accepted (busy_listener flag_Read) @ accepted_fds used \<and>
    \<not> can_read_local (srv_flags s') \<and>
    tl_stopped busy_listener_after = (tl_stopped (busy_listener flag_Read) \<or> can_close_local (srv_flags s'))"
  by (rule listener_hands_over [OF busy_listener_loop]) (simp add: busy_listener_def)

theorem listener_returns_witness:
  "if flags_error (srv_sync_with_poll (busy_server 10)) then \<forall>l'. listener_loop (busy_listener 10) \<noteq> Done l'
    else \<exists>l'. listener_loop (busy_listener 10) = Done l' \<and> tl_accepted l' = tl_accepted (busy_listener 10) @
      accepted_fds [Sys_ok (7, None), Sys_errno EINTR, Sys_ok (8, Some (PosixError 24 ''setsockopt'')), Sys_ok (9, None)]"
proof (rule listener_returns)
  show "can_read (pf_flags (srv_flags (srv_sync_with_poll (busy_server 10))))" by code_simp
  show "os_accepts (busy_server 10) = [Sys_ok (7, None), Sys_errno EINTR,
      Sys_ok (8, Some (PosixError 24 ''setsockopt'')), Sys_ok (9, None)] @ Sys_errno EAGAIN # []"
    by (simp add: busy_server_def)
qed (simp_all add: busy_listener_def plain_accept_def fatal_accept_errors_def errno_defs)

end
