(* ===== verification/Scheduler.thy ===== *)
theory Scheduler
  imports Prelude
begin

text \<open>
  One scheduler of the actor library (\<^verbatim>\<open>pxcactor/pxc/actor/impl/Scheduler.h\<close>,
  \<^verbatim>\<open>Scheduler.cpp\<close>, \<^verbatim>\<open>ActorInfo.h\<close>): mailboxes, the lists of ready and pending
  actors, immediate and later sends, nested runs, stopping and migration. The actors are
  client code and a parameter of the model: what a callback does is a tree of calls of the
  scheduler (sends, new actors, \<^verbatim>\<open>stop\<close>, \<^verbatim>\<open>migrate\<close>) that ends with the actor's new state.
  An immediate send runs the receiver inside the sender's callback, and a new actor for
  another scheduler runs its \<^verbatim>\<open>on_start_migrate\<close> inside its creator's; the first argument of
  \<open>sched_call\<close> bounds the depth of this nesting, the call stack of the program.
  \<open>None\<close> is a failed \<^verbatim>\<open>CHECK\<close>, undefined behaviour (a use of a destroyed actor) or an
  exhausted stack. Timeouts and the poll are left out, and so are \<^verbatim>\<open>do_stop\<close>, \<^verbatim>\<open>do_migrate\<close>,
  \<^verbatim>\<open>start_migrate\<close> and \<^verbatim>\<open>finish_migrate\<close> called by an actor on another one. The log of the
  events sent and handled is not in the code; no definition reads it.
\<close>

subsection \<open>Events and callbacks\<close>

text \<open>An event and its link token.\<close>

datatype 'e event_type = Ev_start | Ev_stop | Ev_yield | Ev_timeout | Ev_hangup | Ev_raw nat | Ev_custom 'e

type_synonym 'e event = "'e event_type \<times> nat"

datatype 'e callback = Start_up | Tear_down | Wakeup | Hangup | Hangup_shared | Timeout_expired
  | Raw_event nat | Run_custom 'e | On_start_migrate int | On_finish_migrate | Destructor

fun callback_of :: "'e event \<Rightarrow> 'e callback" where
  "callback_of (Ev_start, _) = Start_up"
| "callback_of (Ev_stop, _) = Tear_down"
| "callback_of (Ev_yield, _) = Wakeup"
| "callback_of (Ev_hangup, link_token) = (if link_token \<noteq> 0 then Hangup_shared else Hangup)"
| "callback_of (Ev_timeout, _) = Timeout_expired"
| "callback_of (Ev_raw n, _) = Raw_event n"
| "callback_of (Ev_custom e, _) = Run_custom e"

datatype send_type = Immediate | Later

text \<open>The code of a callback; \<open>Create\<close> names the scheduler of the new actor (-1 is this one)
  and goes on with the identifier of the new actor.\<close>

datatype ('e, 's) code =
    Return 's
  | Send send_type nat "'e event" "('e, 's) code"
  | Create 's bool int "nat \<Rightarrow> ('e, 's) code"
  | Stop "('e, 's) code"
  | Migrate int "('e, 's) code"

text \<open>The calls of the scheduler that can run other callbacks.\<close>

datatype ('e, 's) call = Call_send send_type nat "'e event" | Call_create 's bool int

text \<open>The client code: the callbacks of the actors, and what \<^verbatim>\<open>start_migrate\<close> and
  \<^verbatim>\<open>finish_migrate\<close> do to the arguments of a custom event.\<close>

record ('e, 's) prog =
  act :: "nat \<Rightarrow> 'e callback \<Rightarrow> 's \<Rightarrow> ('e, 's) code"
  args_start_migrate :: "int \<Rightarrow> 'e \<Rightarrow> 'e"
  args_finish_migrate :: "'e \<Rightarrow> 'e"

fun start_migrate_event :: "('e, 's) prog \<Rightarrow> int \<Rightarrow> 'e event \<Rightarrow> 'e event" where
  "start_migrate_event prog dest (Ev_custom e, link_token) = (Ev_custom (args_start_migrate prog dest e), link_token)"
| "start_migrate_event prog dest ev = ev"

fun finish_migrate_event :: "('e, 's) prog \<Rightarrow> 'e event \<Rightarrow> 'e event" where
  "finish_migrate_event prog (Ev_custom e, link_token) = (Ev_custom (args_finish_migrate prog e), link_token)"
| "finish_migrate_event prog ev = ev"

subsection \<open>State\<close>

record ('e, 's) actor_info =
  mailbox :: "'e event list"
  is_running :: bool
  migrate_dest :: int
  is_migrating :: bool
  need_start_up :: bool
  ai_empty :: bool
  ac_state :: 's

text \<open>\<open>Sent_ahead\<close> is an event for an actor that is on its way here; \<open>Arrived\<close> has
  the mailbox that the actor carried.\<close>

datatype 'e log_item = Sent nat "'e event" | Handled nat "'e event" | Sent_ahead nat "'e event"
  | Created nat | Arrived nat "'e event list"

text \<open>The lists are kept in the order in which their nodes are taken out; \<open>actors_list\<close> is
  the local variable of \<open>run_mailbox\<close>.\<close>

record ('e, 's) scheduler =
  infos :: "nat \<Rightarrow> ('e, 's) actor_info option"
  next_id :: nat
  pending_actors :: "nat list"
  ready_actors :: "nat list"
  actors_list :: "nat list"
  pending_events :: "nat \<Rightarrow> 'e event list"
  outbound :: "(int \<times> nat option \<times> 'e event) list"
  actor_count :: int
  close_flag :: bool
  sched_id :: int
  sched_n :: int
  slog :: "'e log_item list"

record event_flags =
  fl_stop :: bool
  fl_migrate :: "int option"

definition no_flags :: event_flags where
  "no_flags = \<lparr>fl_stop = False, fl_migrate = None\<rparr>"

definition sched_init :: "int \<Rightarrow> int \<Rightarrow> ('e, 's) scheduler" where
  "sched_init sid n = \<lparr>infos = \<lambda>_. None, next_id = 0, pending_actors = [], ready_actors = [], actors_list = [],
     pending_events = \<lambda>_. [], outbound = [], actor_count = 0, close_flag = False, sched_id = sid,
     sched_n = n, slog = []\<rparr>"

definition upd_info :: "nat \<Rightarrow> (('e, 's) actor_info \<Rightarrow> ('e, 's) actor_info) \<Rightarrow>
    ('e, 's) scheduler \<Rightarrow> ('e, 's) scheduler" where
  "upd_info a f s = s\<lparr>infos := (infos s)(a := map_option f (infos s a))\<rparr>"

definition log_event :: "'e log_item \<Rightarrow> ('e, 's) scheduler \<Rightarrow> ('e, 's) scheduler" where
  "log_event l s = s\<lparr>slog := slog s @ [l]\<rparr>"

definition node_remove :: "nat \<Rightarrow> ('e, 's) scheduler \<Rightarrow> ('e, 's) scheduler" where
  "node_remove a s = s\<lparr>pending_actors := removeAll a (pending_actors s),
     ready_actors := removeAll a (ready_actors s), actors_list := removeAll a (actors_list s)\<rparr>"

definition put_pending :: "nat \<Rightarrow> ('e, 's) scheduler \<Rightarrow> ('e, 's) scheduler" where
  "put_pending a s = s\<lparr>pending_actors := pending_actors s @ [a]\<rparr>"

definition put_ready :: "nat \<Rightarrow> ('e, 's) scheduler \<Rightarrow> ('e, 's) scheduler" where
  "put_ready a s = s\<lparr>ready_actors := ready_actors s @ [a]\<rparr>"

subsection \<open>Sending\<close>

definition on_current_sched :: "('e, 's) scheduler \<Rightarrow> ('e, 's) actor_info \<Rightarrow> bool" where
  "on_current_sched s i \<longleftrightarrow> \<not> is_migrating i \<and> sched_id s = migrate_dest i"

definition add_to_mailbox :: "nat \<Rightarrow> 'e event \<Rightarrow> ('e, 's) scheduler \<Rightarrow> ('e, 's) scheduler" where
  "add_to_mailbox a ev s =
     (case infos s a of
        None \<Rightarrow> s
      | Some i \<Rightarrow>
          upd_info a (\<lambda>i. i\<lparr>mailbox := mailbox i @ [ev]\<rparr>)
            (if \<not> is_running i then put_ready a (node_remove a s) else s))"

definition send_to_other_scheduler :: "('e, 's) prog \<Rightarrow> int \<Rightarrow> nat option \<Rightarrow> 'e event \<Rightarrow>
    ('e, 's) scheduler \<Rightarrow> ('e, 's) scheduler" where
  "send_to_other_scheduler prog dest a ev s =
     (if dest < sched_n s then s\<lparr>outbound := outbound s @ [(dest, a, start_migrate_event prog dest ev)]\<rparr> else s)"

definition send_to_scheduler :: "('e, 's) prog \<Rightarrow> int \<Rightarrow> nat \<Rightarrow> 'e event \<Rightarrow>
    ('e, 's) scheduler \<Rightarrow> ('e, 's) scheduler" where
  "send_to_scheduler prog dest a ev s =
     (if dest = sched_id s then s\<lparr>pending_events := (pending_events s)(a := pending_events s a @ [ev])\<rparr>
      else send_to_other_scheduler prog dest (Some a) ev s)"

text \<open>\<^verbatim>\<open>send_impl\<close>; \<open>run\<close> handles an event in place.\<close>

definition send_impl :: "(nat \<Rightarrow> 'e event \<Rightarrow> ('e, 's) scheduler \<Rightarrow> ('e, 's) scheduler option) \<Rightarrow>
    ('e, 's) prog \<Rightarrow> send_type \<Rightarrow> nat \<Rightarrow> 'e event \<Rightarrow> ('e, 's) scheduler \<Rightarrow> ('e, 's) scheduler option" where
  "send_impl run prog t a ev s =
     (case infos s a of
        None \<Rightarrow> Some s
      | Some i \<Rightarrow>
          if close_flag s then Some s
          else if \<not> on_current_sched s i
               then Some (send_to_scheduler prog (migrate_dest i) a ev
                 (if migrate_dest i = sched_id s then log_event (Sent_ahead a ev) s else s))
          else if t = Immediate \<and> \<not> is_running i \<and> mailbox i = []
               then run a ev (log_event (Sent a ev) s)
               else Some (add_to_mailbox a ev (log_event (Sent a ev) s)))"

subsection \<open>Running an event\<close>

primrec exec :: "(('e, 's) call \<Rightarrow> ('e, 's) scheduler \<Rightarrow> ('e, 's) scheduler option) \<Rightarrow>
    nat \<Rightarrow> ('e, 's) code \<Rightarrow> event_flags \<Rightarrow> ('e, 's) scheduler \<Rightarrow> (event_flags \<times> ('e, 's) scheduler) option" where
  "exec call a (Return st) fl s = Some (fl, upd_info a (\<lambda>i. i\<lparr>ac_state := st\<rparr>) s)"
| "exec call a (Send t b ev k) fl s = Option.bind (call (Call_send t b ev) s) (exec call a k fl)"
| "exec call a (Create st start_up dest k) fl s =
     Option.bind (call (Call_create st start_up dest) s) (exec call a (k (next_id s)) fl)"
| "exec call a (Stop k) fl s = exec call a k (fl\<lparr>fl_stop := True\<rparr>) s"
| "exec call a (Migrate dest k) fl s =
     exec call a k (if sched_id s = dest then fl else fl\<lparr>fl_migrate := Some dest\<rparr>) s"

text \<open>A callback that is not called in an event of its actor: \<^verbatim>\<open>stop\<close> and \<^verbatim>\<open>migrate\<close>
  fail their \<^verbatim>\<open>CHECK\<close> there.\<close>

primrec exec_outside :: "(('e, 's) call \<Rightarrow> ('e, 's) scheduler \<Rightarrow> ('e, 's) scheduler option) \<Rightarrow>
    nat \<Rightarrow> ('e, 's) code \<Rightarrow> ('e, 's) scheduler \<Rightarrow> ('e, 's) scheduler option" where
  "exec_outside call a (Return st) s = Some (upd_info a (\<lambda>i. i\<lparr>ac_state := st\<rparr>) s)"
| "exec_outside call a (Send t b ev k) s = Option.bind (call (Call_send t b ev) s) (exec_outside call a k)"
| "exec_outside call a (Create st start_up dest k) s =
     Option.bind (call (Call_create st start_up dest) s) (exec_outside call a (k (next_id s)))"
| "exec_outside call a (Stop k) s = None"
| "exec_outside call a (Migrate dest k) s = None"

definition do_event where
  "do_event call prog a ev fl s =
     (case infos s a of
        None \<Rightarrow> None
      | Some i \<Rightarrow> if ai_empty i then None else exec call a (act prog a (callback_of ev) (ac_state i)) fl s)"

definition call_outside where
  "call_outside call prog a cb s =
     (case infos s a of
        None \<Rightarrow> None
      | Some i \<Rightarrow> if ai_empty i then None else exec_outside call a (act prog a cb (ac_state i)) s)"

text \<open>The constructor of \<^verbatim>\<open>EventGuard\<close>, and the first part of its destructor.\<close>

definition enter_event :: "nat \<Rightarrow> ('e, 's) scheduler \<Rightarrow> ('e, 's) scheduler option" where
  "enter_event a s =
     (case infos s a of
        None \<Rightarrow> None
      | Some i \<Rightarrow> if is_running i then None else Some (upd_info a (\<lambda>i. i\<lparr>is_running := True\<rparr>) s))"

definition leave_lists :: "nat \<Rightarrow> ('e, 's) scheduler \<Rightarrow> ('e, 's) scheduler" where
  "leave_lists a s =
     (case infos s a of
        None \<Rightarrow> s
      | Some i \<Rightarrow>
          upd_info a (\<lambda>i. i\<lparr>is_running := False\<rparr>)
            ((if mailbox i = [] then put_pending a else put_ready a) (node_remove a s)))"

definition destroy_actor :: "nat \<Rightarrow> ('e, 's) scheduler \<Rightarrow> ('e, 's) scheduler option" where
  "destroy_actor a s =
     (if actor_count s - 1 < 0 then None
      else Some ((node_remove a s)\<lparr>actor_count := actor_count s - 1, infos := (infos s)(a := None)\<rparr>))"

text \<open>\<^verbatim>\<open>ActorInfo::destroy_actor\<close>: the destructor of the actor, then the mailbox is cleared.\<close>

definition destroy_object where
  "destroy_object call prog a s =
     (case infos s a of
        None \<Rightarrow> None
      | Some i \<Rightarrow>
          map_option (upd_info a (\<lambda>i. i\<lparr>mailbox := []\<rparr>))
            (exec_outside call a (act prog a Destructor (ac_state i)) (upd_info a (\<lambda>i. i\<lparr>ai_empty := True\<rparr>) s)))"

definition do_stop_actor where
  "do_stop_actor call prog a s =
     (case infos s a of
        None \<Rightarrow> None
      | Some i \<Rightarrow>
          if \<not> on_current_sched s i then None
          else if need_start_up i then
            Option.bind (enter_event a s) (\<lambda>s.
            Option.bind (do_event call prog a (Ev_stop, 0) no_flags s) (\<lambda>(_, s).
            Option.bind (destroy_object call prog a s) (\<lambda>s.
            destroy_actor a (leave_lists a s))))
          else Option.bind (destroy_object call prog a s) (destroy_actor a))"

text \<open>The actor is told first, while it is still in its list and can be sent events; then the
  arguments of the events in its mailbox are. The message that carries the actor has no
  receiver.\<close>

definition start_migrate_actor where
  "start_migrate_actor call prog a dest s =
     (if actor_count s - 1 < 0 then None
      else Option.bind (call_outside call prog a (On_start_migrate dest) (s\<lparr>actor_count := actor_count s - 1\<rparr>)) (\<lambda>s.
        case infos s a of
          None \<Rightarrow> None
        | Some i \<Rightarrow> Some (node_remove a (upd_info a (\<lambda>i. i\<lparr>mailbox := map (start_migrate_event prog dest) (mailbox i),
            is_migrating := True, migrate_dest := dest\<rparr>) s))))"

definition do_migrate_actor where
  "do_migrate_actor call prog a dest s =
     (if sched_id s = dest then Some s
      else map_option (send_to_other_scheduler prog dest None (Ev_raw a, 0))
        (start_migrate_actor call prog a dest s))"

definition leave_event where
  "leave_event call prog a fl s =
     (let s = leave_lists a s in
      if fl_stop fl then do_stop_actor call prog a s
      else case fl_migrate fl of Some dest \<Rightarrow> do_migrate_actor call prog a dest s | None \<Rightarrow> Some s)"

definition run_event where
  "run_event call prog a ev s =
     Option.bind (enter_event a s) (\<lambda>s.
     Option.bind (do_event call prog a ev no_flags (log_event (Handled a ev) s)) (\<lambda>(fl, s).
     leave_event call prog a fl s))"

text \<open>A new actor. One for another scheduler is sent its start event and migrates at once.\<close>

definition init_actor :: "'s \<Rightarrow> bool \<Rightarrow> ('e, 's) scheduler \<Rightarrow> ('e, 's) scheduler" where
  "init_actor st start_up s = log_event (Created (next_id s))
     (s\<lparr>infos := (infos s)(next_id s := Some \<lparr>mailbox = [], is_running = False, migrate_dest = sched_id s,
        is_migrating = False, need_start_up = start_up, ai_empty = False, ac_state = st\<rparr>),
      next_id := next_id s + 1, actor_count := actor_count s + 1\<rparr>)"

definition send_start where
  "send_start prog a s = send_impl (\<lambda>_ _ _. None) prog Later a (Ev_start, 0) s"

definition register_actor where
  "register_actor call prog st start_up dest s =
     (let dest = (if dest = -1 then sched_id s else dest); a = next_id s in
      if \<not> (dest = sched_id s \<or> 0 \<le> dest \<and> dest < sched_n s) then None
      else if dest \<noteq> sched_id s
        then Option.bind (send_start prog a (init_actor st start_up s)) (do_migrate_actor call prog a dest)
      else if start_up then send_start prog a (put_pending a (init_actor st start_up s))
      else Some (put_pending a (init_actor st start_up s)))"

definition call_impl where
  "call_impl run call prog c s =
     (case c of
        Call_send t a ev \<Rightarrow> send_impl run prog t a ev s
      | Call_create st start_up dest \<Rightarrow> register_actor call prog st start_up dest s)"

primrec sched_call :: "nat \<Rightarrow> ('e, 's) prog \<Rightarrow> ('e, 's) call \<Rightarrow>
    ('e, 's) scheduler \<Rightarrow> ('e, 's) scheduler option" where
  "sched_call 0 prog = call_impl (\<lambda>_ _ _. None) (\<lambda>_ _. None) prog"
| "sched_call (Suc depth) prog = call_impl (run_event (sched_call depth prog) prog) (sched_call depth prog) prog"

subsection \<open>Running the mailboxes\<close>

primrec flush_loop where
  "flush_loop call prog a 0 i fl s = Some (i, fl, s)"
| "flush_loop call prog a (Suc n) i fl s =
     (if fl \<noteq> no_flags then Some (i, fl, s)
      else case infos s a of
        None \<Rightarrow> None
      | Some info \<Rightarrow>
          Option.bind (do_event call prog a (mailbox info ! i) fl (log_event (Handled a (mailbox info ! i)) s))
            (\<lambda>(fl, s). flush_loop call prog a n (i + 1) fl s))"

definition flush_mailbox where
  "flush_mailbox call prog a s =
     (case infos s a of
        None \<Rightarrow> None
      | Some info \<Rightarrow>
          if mailbox info = [] then None
          else Option.bind (enter_event a s) (\<lambda>s.
            Option.bind (flush_loop call prog a (length (mailbox info)) 0 no_flags s) (\<lambda>(i, fl, s).
            leave_event call prog a fl (upd_info a (\<lambda>info. info\<lparr>mailbox := drop i (mailbox info)\<rparr>) s))))"

text \<open>The loop of \<^verbatim>\<open>run_mailbox\<close>, with a bound on its iterations.\<close>

primrec run_list where
  "run_list call prog 0 s = Some s"
| "run_list call prog (Suc n) s =
     (case actors_list s of
        [] \<Rightarrow> Some s
      | a # rest \<Rightarrow> Option.bind (flush_mailbox call prog a (s\<lparr>actors_list := rest\<rparr>)) (run_list call prog n))"

definition run_mailbox where
  "run_mailbox call prog s =
     run_list call prog (length (ready_actors s)) (s\<lparr>actors_list := ready_actors s, ready_actors := []\<rparr>)"

text \<open>The events that were sent ahead of the actor come behind those it carries.\<close>

definition register_migrated_actor where
  "register_migrated_actor call prog a s =
     (case infos s a of
        None \<Rightarrow> None
      | Some i \<Rightarrow>
          if \<not> is_migrating i \<or> sched_id s \<noteq> migrate_dest i then None
          else
            let mb = map (finish_migrate_event prog) (mailbox i) @ pending_events s a in
            call_outside call prog a On_finish_migrate
              ((if mb = [] then put_pending a else put_ready a)
                (upd_info a (\<lambda>i. i\<lparr>is_migrating := False, mailbox := mb\<rparr>)
                  (s\<lparr>pending_events := (pending_events s)(a := []), actor_count := actor_count s + 1\<rparr>))))"


subsection \<open>What an actor was sent and what it has handled\<close>

text \<open>Since the actor came to this scheduler.\<close>

text \<open>With what was sent to it on its way here; an actor that arrives is to handle the events it
  carries, then those sent ahead.\<close>

definition accepted_ahead :: "nat \<Rightarrow> 'e log_item list \<Rightarrow> 'e event list \<times> 'e event list" where
  "accepted_ahead a l = foldl (\<lambda>(acc, ah) x. case x of
       Sent b ev \<Rightarrow> if b = a then (acc @ [ev], ah) else (acc, ah)
     | Handled b ev \<Rightarrow> (acc, ah)
     | Sent_ahead b ev \<Rightarrow> if b = a then (acc, ah @ [ev]) else (acc, ah)
     | Created b \<Rightarrow> if b = a then ([], ah) else (acc, ah)
     | Arrived b evs \<Rightarrow> if b = a then (evs @ ah, []) else (acc, ah)) ([], []) l"

definition accepted :: "nat \<Rightarrow> 'e log_item list \<Rightarrow> 'e event list" where
  "accepted a l = fst (accepted_ahead a l)"

definition ahead :: "nat \<Rightarrow> 'e log_item list \<Rightarrow> 'e event list" where
  "ahead a l = snd (accepted_ahead a l)"

definition handled :: "nat \<Rightarrow> 'e log_item list \<Rightarrow> 'e event list" where
  "handled a l = foldl (\<lambda>acc x. case x of
       Handled b ev \<Rightarrow> if b = a then acc @ [ev] else acc
     | Created b \<Rightarrow> if b = a then [] else acc
     | Arrived b evs \<Rightarrow> if b = a then [] else acc
     | _ \<Rightarrow> acc) [] l"

lemma accepted_snoc [simp]:
  "accepted a [] = []"
  "accepted a (l @ [Sent b ev]) = (if b = a then accepted a l @ [ev] else accepted a l)"
  "accepted a (l @ [Handled b ev]) = accepted a l"
  "accepted a (l @ [Sent_ahead b ev]) = accepted a l"
  "accepted a (l @ [Created b]) = (if b = a then [] else accepted a l)"
  "accepted a (l @ [Arrived b evs]) = (if b = a then evs @ ahead a l else accepted a l)"
  by (simp_all add: accepted_def accepted_ahead_def ahead_def split_beta)

lemma ahead_snoc [simp]:
  "ahead a [] = []"
  "ahead a (l @ [Sent b ev]) = ahead a l"
  "ahead a (l @ [Handled b ev]) = ahead a l"
  "ahead a (l @ [Sent_ahead b ev]) = (if b = a then ahead a l @ [ev] else ahead a l)"
  "ahead a (l @ [Created b]) = ahead a l"
  "ahead a (l @ [Arrived b evs]) = (if b = a then [] else ahead a l)"
  by (simp_all add: accepted_ahead_def ahead_def split_beta)

lemma handled_snoc [simp]:
  "handled a [] = []"
  "handled a (l @ [Sent b ev]) = handled a l"
  "handled a (l @ [Handled b ev]) = (if b = a then handled a l @ [ev] else handled a l)"
  "handled a (l @ [Sent_ahead b ev]) = handled a l"
  "handled a (l @ [Created b]) = (if b = a then [] else handled a l)"
  "handled a (l @ [Arrived b evs]) = (if b = a then [] else handled a l)"
  by (simp_all add: handled_def)

lemma log_snoc2 [simp]:
  "accepted a (l @ [x, Handled b ev]) = accepted a (l @ [x])"
  "handled a (l @ [x, Handled b ev]) = (if b = a then handled a (l @ [x]) @ [ev] else handled a (l @ [x]))"
  "ahead a (l @ [x, Handled b ev]) = ahead a (l @ [x])"
  by (simp_all add: accepted_def ahead_def accepted_ahead_def handled_def split_beta)

subsection \<open>Well-formed schedulers\<close>

definition all_lists :: "('e, 's) scheduler \<Rightarrow> nat list" where
  "all_lists s = pending_actors s @ ready_actors s @ actors_list s"

text \<open>An actor that waits on this scheduler: it is in the list its mailbox calls for, and has
  handled all it was sent but what is in the mailbox, in that order.\<close>

definition waiting_ok :: "('e, 's) scheduler \<Rightarrow> nat \<Rightarrow> ('e, 's) actor_info \<Rightarrow> bool" where
  "waiting_ok s a i \<longleftrightarrow>
     (a \<in> set (pending_actors s) \<longleftrightarrow> mailbox i = []) \<and>
     (a \<in> set (ready_actors s) \<union> set (actors_list s) \<longleftrightarrow> mailbox i \<noteq> []) \<and>
     accepted a (slog s) = handled a (slog s) @ mailbox i"

definition actor_ok :: "('e, 's) scheduler \<Rightarrow> nat \<Rightarrow> bool" where
  "actor_ok s a \<longleftrightarrow>
     (case infos s a of
        None \<Rightarrow> a \<notin> set (all_lists s)
      | Some i \<Rightarrow> a < next_id s \<and>
          (if \<not> on_current_sched s i then a \<notin> set (all_lists s) \<and> \<not> is_running i
           else is_running i \<or> waiting_ok s a i))"

text \<open>The events kept for the actors on their way are those that were sent to them; the
  scheduler is not closed.\<close>

definition pending_ok :: "('e, 's) scheduler \<Rightarrow> bool" where
  "pending_ok s \<longleftrightarrow> \<not> close_flag s \<and> (\<forall>a. pending_events s a = ahead a (slog s))"

definition well_formed :: "('e, 's) scheduler \<Rightarrow> bool" where
  "well_formed s \<longleftrightarrow> distinct (all_lists s) \<and> pending_ok s \<and> (\<forall>a. actor_ok s a)"

definition well_formed_but :: "nat \<Rightarrow> ('e, 's) scheduler \<Rightarrow> bool" where
  "well_formed_but a s \<longleftrightarrow> distinct (all_lists s) \<and> pending_ok s \<and> (\<forall>b. b \<noteq> a \<longrightarrow> actor_ok s b)"

text \<open>What nested runs do to the actors that are running: nothing but append to their
  mailboxes.\<close>

definition same_life :: "('e, 's) actor_info \<Rightarrow> ('e, 's) actor_info \<Rightarrow> bool" where
  "same_life i i' \<longleftrightarrow> is_running i' = is_running i \<and> migrate_dest i' = migrate_dest i \<and>
     is_migrating i' = is_migrating i \<and> need_start_up i' = need_start_up i"

definition appended :: "('e, 's) scheduler \<Rightarrow> ('e, 's) scheduler \<Rightarrow> nat \<Rightarrow> ('e, 's) actor_info \<Rightarrow> bool" where
  "appended s s' a i \<longleftrightarrow> (\<exists>i' ext. infos s' a = Some i' \<and> same_life i i' \<and> mailbox i' = mailbox i @ ext \<and>
     accepted a (slog s') = accepted a (slog s) @ ext \<and> handled a (slog s') = handled a (slog s))"

definition running :: "('e, 's) scheduler \<Rightarrow> nat \<Rightarrow> bool" where
  "running s a \<longleftrightarrow> (\<exists>i. infos s a = Some i \<and> is_running i)"

definition keeps :: "('e, 's) scheduler \<Rightarrow> ('e, 's) scheduler \<Rightarrow> bool" where
  "keeps s s' \<longleftrightarrow> sched_id s' = sched_id s \<and> next_id s \<le> next_id s' \<and>
     length (actors_list s') \<le> length (actors_list s) \<and>
     (\<forall>a i. infos s a = Some i \<longrightarrow> is_running i \<longrightarrow> appended s s' a i) \<and>
     (\<forall>a. running s' a \<longrightarrow> running s a)"

lemma keeps_refl [simp]: "keeps s s"
  by (auto simp: keeps_def appended_def same_life_def)

lemma appended_trans:
  assumes "appended s1 s2 a i" "is_running i"
    and "\<And>i'. infos s2 a = Some i' \<Longrightarrow> is_running i' \<Longrightarrow> appended s2 s3 a i'"
  shows "appended s1 s3 a i"
proof -
  from assms(1) obtain i' ext where 1: "infos s2 a = Some i'" "same_life i i'" "mailbox i' = mailbox i @ ext"
    "accepted a (slog s2) = accepted a (slog s1) @ ext" "handled a (slog s2) = handled a (slog s1)"
    by (auto simp: appended_def)
  with assms(2) have "is_running i'" by (simp add: same_life_def)
  from assms(3) [OF 1(1) this] obtain i'' ext' where 2: "infos s3 a = Some i''" "same_life i' i''"
    "mailbox i'' = mailbox i' @ ext'"
    "accepted a (slog s3) = accepted a (slog s2) @ ext'" "handled a (slog s3) = handled a (slog s2)"
    by (auto simp: appended_def)
  show ?thesis
    unfolding appended_def
    by (intro exI [of _ i''] exI [of _ "ext @ ext'"]) (use 1 2 in \<open>simp add: same_life_def\<close>)
qed

lemma keepsD:
  assumes "keeps s s'"
  shows "sched_id s' = sched_id s" "next_id s \<le> next_id s'" "length (actors_list s') \<le> length (actors_list s)"
    "\<And>a i. infos s a = Some i \<Longrightarrow> is_running i \<Longrightarrow> appended s s' a i"
    "\<And>a. running s' a \<Longrightarrow> running s a"
  using assms by (simp_all add: keeps_def)

lemma keepsI:
  "sched_id s' = sched_id s \<Longrightarrow> next_id s \<le> next_id s' \<Longrightarrow> length (actors_list s') \<le> length (actors_list s) \<Longrightarrow>
    (\<And>a i. infos s a = Some i \<Longrightarrow> is_running i \<Longrightarrow> appended s s' a i) \<Longrightarrow>
    (\<And>a. running s' a \<Longrightarrow> running s a) \<Longrightarrow> keeps s s'"
  by (simp add: keeps_def)

lemma keeps_trans:
  assumes "keeps s1 s2" "keeps s2 s3"
  shows "keeps s1 s3"
proof (rule keepsI)
  show "next_id s1 \<le> next_id s3" "length (actors_list s3) \<le> length (actors_list s1)" "sched_id s3 = sched_id s1"
    using keepsD(1-3) [OF assms(1)] keepsD(1-3) [OF assms(2)] by simp_all
  show "appended s1 s3 a i" if "infos s1 a = Some i" "is_running i" for a i
    by (rule appended_trans [OF keepsD(4) [OF assms(1) that] that(2) keepsD(4) [OF assms(2)]])
  show "running s1 a" if "running s3 a" for a
    using that keepsD(5) [OF assms(1)] keepsD(5) [OF assms(2)] by blast
qed

lemma keeps_running:
  assumes "keeps s s'"
  shows "running s' a = running s a"
proof
  assume "running s a"
  then obtain i where "infos s a = Some i" "is_running i" by (auto simp: running_def)
  from keepsD(4) [OF assms this] \<open>is_running i\<close> show "running s' a"
    by (auto simp: appended_def same_life_def running_def)
qed (rule keepsD(5) [OF assms])

lemma well_formed_but: "well_formed s \<Longrightarrow> well_formed_but a s"
  by (simp add: well_formed_def well_formed_but_def)

lemma well_formed_butI: "well_formed_but a s \<Longrightarrow> actor_ok s a \<Longrightarrow> well_formed s"
  by (auto simp: well_formed_def well_formed_but_def)

lemma running_actor_ok: "well_formed_but a s \<Longrightarrow> infos s a = Some i \<Longrightarrow> is_running i \<Longrightarrow>
    on_current_sched s i \<Longrightarrow> a < next_id s \<Longrightarrow> well_formed s"
  by (erule well_formed_butI) (simp add: actor_ok_def)

lemma well_formed_actor: "well_formed s \<Longrightarrow> actor_ok s a"
  by (simp add: well_formed_def)

lemma well_formed_fresh: "well_formed s \<Longrightarrow> next_id s \<le> a \<Longrightarrow> infos s a = None \<and> a \<notin> set (all_lists s)"
  by (drule well_formed_actor [of s a]) (auto simp: actor_ok_def split: option.splits)

lemma well_formed_running:
  "well_formed s \<Longrightarrow> infos s a = Some i \<Longrightarrow> is_running i \<Longrightarrow> on_current_sched s i"
  by (drule well_formed_actor [of s a]) (auto simp: actor_ok_def split: if_splits)

lemma well_formed_waiting:
  "well_formed s \<Longrightarrow> infos s a = Some i \<Longrightarrow> \<not> is_running i \<Longrightarrow> on_current_sched s i \<Longrightarrow> waiting_ok s a i"
  by (drule well_formed_actor [of s a]) (auto simp: actor_ok_def split: if_splits)

lemma well_formed_next: "well_formed s \<Longrightarrow> infos s a = Some i \<Longrightarrow> a < next_id s"
  by (drule well_formed_actor [of s a]) (auto simp: actor_ok_def)


subsection \<open>The operations keep a scheduler well formed\<close>

lemma upd_info_sel [simp]:
  "infos (upd_info a f s) b = (if b = a then map_option f (infos s a) else infos s b)"
  "next_id (upd_info a f s) = next_id s" "pending_actors (upd_info a f s) = pending_actors s"
  "ready_actors (upd_info a f s) = ready_actors s" "actors_list (upd_info a f s) = actors_list s"
  "sched_id (upd_info a f s) = sched_id s" "slog (upd_info a f s) = slog s"
  "close_flag (upd_info a f s) = close_flag s" "actor_count (upd_info a f s) = actor_count s"
  "pending_events (upd_info a f s) = pending_events s"
  by (simp_all add: upd_info_def)

lemma log_event_sel [simp]:
  "infos (log_event l s) = infos s" "next_id (log_event l s) = next_id s"
  "pending_actors (log_event l s) = pending_actors s" "ready_actors (log_event l s) = ready_actors s"
  "actors_list (log_event l s) = actors_list s" "sched_id (log_event l s) = sched_id s"
  "slog (log_event l s) = slog s @ [l]" "close_flag (log_event l s) = close_flag s"
  "pending_events (log_event l s) = pending_events s"
  by (simp_all add: log_event_def)

lemma node_ops_sel [simp]:
  "infos (node_remove a s) = infos s" "infos (put_pending a s) = infos s" "infos (put_ready a s) = infos s"
  "next_id (node_remove a s) = next_id s" "next_id (put_pending a s) = next_id s" "next_id (put_ready a s) = next_id s"
  "sched_id (node_remove a s) = sched_id s" "sched_id (put_pending a s) = sched_id s" "sched_id (put_ready a s) = sched_id s"
  "slog (node_remove a s) = slog s" "slog (put_pending a s) = slog s" "slog (put_ready a s) = slog s"
  "pending_actors (node_remove a s) = removeAll a (pending_actors s)"
  "ready_actors (node_remove a s) = removeAll a (ready_actors s)"
  "actors_list (node_remove a s) = removeAll a (actors_list s)"
  "pending_actors (put_pending a s) = pending_actors s @ [a]" "pending_actors (put_ready a s) = pending_actors s"
  "ready_actors (put_ready a s) = ready_actors s @ [a]" "ready_actors (put_pending a s) = ready_actors s"
  "actors_list (put_ready a s) = actors_list s" "actors_list (put_pending a s) = actors_list s"
  "actor_count (node_remove a s) = actor_count s"
  "close_flag (node_remove a s) = close_flag s" "close_flag (put_pending a s) = close_flag s"
  "close_flag (put_ready a s) = close_flag s" "pending_events (node_remove a s) = pending_events s"
  "pending_events (put_pending a s) = pending_events s" "pending_events (put_ready a s) = pending_events s"
  by (simp_all add: node_remove_def put_pending_def put_ready_def)

lemma pending_ok_upd_info [simp]: "pending_ok (upd_info a f s) = pending_ok s"
  by (simp add: pending_ok_def)

lemma pending_ok_frame:
  "pending_ok s \<Longrightarrow> pending_events s' = pending_events s \<Longrightarrow> close_flag s' = close_flag s \<Longrightarrow> (\<And>a. ahead a (slog s') = ahead a (slog s)) \<Longrightarrow>
    pending_ok s'"
  by (simp add: pending_ok_def)

lemma on_current_sched_cong:
  "sched_id s' = sched_id s \<Longrightarrow> same_life i i' \<Longrightarrow> on_current_sched s' i' = on_current_sched s i"
  by (simp add: on_current_sched_def same_life_def)

lemma on_current_sched_sched: "sched_id s' = sched_id s \<Longrightarrow> on_current_sched s' i = on_current_sched s i"
  by (simp add: on_current_sched_def)

lemma distinct_put:
  assumes "distinct (all_lists s)"
  shows "distinct (all_lists (node_remove a s))"
    "distinct (all_lists (put_pending a (node_remove a s)))"
    "distinct (all_lists (put_ready a (node_remove a s)))"
  using assms by (auto simp: all_lists_def distinct_removeAll)

lemma all_lists_upd_info [simp]: "all_lists (upd_info a f s) = all_lists s"
  by (simp add: all_lists_def)

lemma all_lists_log_event [simp]: "all_lists (log_event l s) = all_lists s"
  by (simp add: all_lists_def)

text \<open>An actor is unaffected by what happens to others.\<close>

lemma actor_ok_frame:
  assumes "actor_ok s b" "infos s' b = infos s b" "sched_id s' = sched_id s" "next_id s \<le> next_id s'"
    "b \<in> set (pending_actors s') \<longleftrightarrow> b \<in> set (pending_actors s)"
    "b \<in> set (ready_actors s') \<union> set (actors_list s') \<longleftrightarrow> b \<in> set (ready_actors s) \<union> set (actors_list s)"
    "accepted b (slog s') = accepted b (slog s)" "handled b (slog s') = handled b (slog s)"
  shows "actor_ok s' b"
proof -
  have lists: "b \<in> set (all_lists s') \<longleftrightarrow> b \<in> set (all_lists s)"
    using assms(5,6) by (auto simp: all_lists_def)
  show ?thesis
  proof (cases "infos s b")
    case None
    with assms(1,2) lists show ?thesis by (simp add: actor_ok_def)
  next
    case (Some i)
    have "waiting_ok s' b i = waiting_ok s b i"
      using assms(5-8) by (simp add: waiting_ok_def)
    with Some assms(1-4) lists show ?thesis
      by (simp add: actor_ok_def on_current_sched_sched [of s' s] split: if_splits)
  qed
qed

lemma upd_info_harmless:
  assumes "well_formed s" "\<And>i. same_life i (f i)" "\<And>i. mailbox (f i) = mailbox i"
  shows "well_formed (upd_info a f s) \<and> keeps s (upd_info a f s)"
proof
  have dist: "distinct (all_lists (upd_info a f s))"
    using assms(1) by (simp add: well_formed_def)
  have "actor_ok (upd_info a f s) b" for b
  proof (cases "b = a \<and> infos s a \<noteq> None")
    case True
    then obtain i where i: "infos s a = Some i" by auto
    have cur: "on_current_sched (upd_info a f s) (f i) = on_current_sched s i" "is_running (f i) = is_running i"
      using assms(2) [of i] by (simp_all add: on_current_sched_def same_life_def)
    have "waiting_ok (upd_info a f s) a (f i) = waiting_ok s a i"
      using assms(3) by (simp add: waiting_ok_def)
    with well_formed_actor [OF assms(1), of a] i cur True show ?thesis
      by (simp add: actor_ok_def split: if_splits)
  next
    case False
    then have "infos (upd_info a f s) b = infos s b" by auto
    with well_formed_actor [OF assms(1), of b] show ?thesis
      by (rule actor_ok_frame) simp_all
  qed
  with dist assms(1) show "well_formed (upd_info a f s)" by (simp add: well_formed_def)
  show "keeps s (upd_info a f s)"
  proof (rule keepsI)
    fix b i
    assume "infos s b = Some i" "is_running i"
    then show "appended s (upd_info a f s) b i"
      using assms(2) [of i] assms(3) [of i]
      by (intro appended_def [THEN iffD2] exI [of _ "if b = a then f i else i"] exI [of _ "[]"])
        (auto simp: same_life_def)
  next
    fix b
    assume "running (upd_info a f s) b"
    then show "running s b"
      using assms(2) by (auto simp: running_def same_life_def split: if_splits)
  qed simp_all
qed

lemma add_to_mailbox_ok:
  assumes "well_formed s" "infos s a = Some i" "on_current_sched s i"
  shows "well_formed (add_to_mailbox a ev (log_event (Sent a ev) s)) \<and>
    keeps s (add_to_mailbox a ev (log_event (Sent a ev) s))"
proof
  let ?s = "add_to_mailbox a ev (log_event (Sent a ev) s)"
  let ?i = "i\<lparr>mailbox := mailbox i @ [ev]\<rparr>"
  have s: "?s = upd_info a (\<lambda>i. i\<lparr>mailbox := mailbox i @ [ev]\<rparr>)
      (if \<not> is_running i then put_ready a (node_remove a (log_event (Sent a ev) s)) else log_event (Sent a ev) s)"
    using assms(2) by (simp add: add_to_mailbox_def)
  have info: "infos ?s a = Some ?i" "\<And>b. b \<noteq> a \<Longrightarrow> infos ?s b = infos s b"
    using assms(2) by (simp_all add: s)
  have sid: "sched_id ?s = sched_id s" "next_id ?s = next_id s" by (simp_all add: s)
  have dist: "distinct (all_lists ?s)"
    using assms(1) distinct_put(3) [of "log_event (Sent a ev) s"] by (simp add: s well_formed_def)
  have "actor_ok ?s b" for b
  proof (cases "b = a")
    case False
    show ?thesis
      by (rule actor_ok_frame [OF well_formed_actor [OF assms(1)] info(2) [OF False]])
        (use False in \<open>auto simp: s\<close>)
  next
    case True
    have "waiting_ok ?s a ?i" if "\<not> is_running i"
      using that well_formed_waiting [OF assms(1,2) that assms(3)] by (auto simp: s waiting_ok_def)
    moreover have "on_current_sched ?s ?i"
      using assms(3) by (simp add: on_current_sched_def sid)
    ultimately show ?thesis
      using well_formed_next [OF assms(1,2)] by (auto simp: True actor_ok_def info sid)
  qed
  have "pending_ok ?s"
    using assms(1) by (simp add: s well_formed_def pending_ok_def)
  with dist show "well_formed ?s"
    using \<open>\<And>b. actor_ok ?s b\<close> by (simp add: well_formed_def)
  show "keeps s ?s"
  proof (rule keepsI)
    fix b j
    assume "infos s b = Some j" "is_running j"
    then show "appended s ?s b j"
      using assms(2) info
      by (intro appended_def [THEN iffD2] exI [of _ "if b = a then ?i else j"] exI [of _ "if b = a then [ev] else []"])
        (auto simp: same_life_def s)
  next
    fix b
    assume "running ?s b"
    then show "running s b"
      using info assms(2) by (cases "b = a") (auto simp: running_def)
  next
    show "length (actors_list ?s) \<le> length (actors_list s)"
      by (simp add: s)
  qed (simp_all add: sid)
qed


lemma send_to_other_scheduler_sel [simp]:
  "infos (send_to_other_scheduler prog d a ev s) = infos s"
  "next_id (send_to_other_scheduler prog d a ev s) = next_id s"
  "pending_actors (send_to_other_scheduler prog d a ev s) = pending_actors s"
  "ready_actors (send_to_other_scheduler prog d a ev s) = ready_actors s"
  "actors_list (send_to_other_scheduler prog d a ev s) = actors_list s"
  "sched_id (send_to_other_scheduler prog d a ev s) = sched_id s"
  "slog (send_to_other_scheduler prog d a ev s) = slog s"
  "pending_events (send_to_other_scheduler prog d a ev s) = pending_events s"
  "close_flag (send_to_other_scheduler prog d a ev s) = close_flag s"
  by (simp_all add: send_to_other_scheduler_def)

lemma send_to_scheduler_sel [simp]:
  "infos (send_to_scheduler prog d a ev s) = infos s" "next_id (send_to_scheduler prog d a ev s) = next_id s"
  "pending_actors (send_to_scheduler prog d a ev s) = pending_actors s"
  "ready_actors (send_to_scheduler prog d a ev s) = ready_actors s"
  "actors_list (send_to_scheduler prog d a ev s) = actors_list s"
  "sched_id (send_to_scheduler prog d a ev s) = sched_id s" "close_flag (send_to_scheduler prog d a ev s) = close_flag s"
  "slog (send_to_scheduler prog d a ev s) = slog s"
  "pending_events (send_to_scheduler prog d a ev s) = (if d = sched_id s
     then (pending_events s)(a := pending_events s a @ [ev]) else pending_events s)"
  by (simp_all add: send_to_scheduler_def)

text \<open>Only what the invariants read.\<close>

lemma same_view_ok:
  assumes "well_formed s" "infos s' = infos s" "next_id s' = next_id s" "pending_actors s' = pending_actors s"
    "ready_actors s' = ready_actors s" "actors_list s' = actors_list s" "sched_id s' = sched_id s" "pending_ok s'"
    "\<And>a. accepted a (slog s') = accepted a (slog s)" "\<And>a. handled a (slog s') = handled a (slog s)"
  shows "well_formed s' \<and> keeps s s'"
proof
  have "actor_ok s' b" for b
    by (rule actor_ok_frame [OF well_formed_actor [OF assms(1), of b]]) (simp_all add: assms(2-))
  then show "well_formed s'"
    using assms by (simp add: well_formed_def all_lists_def)
  show "keeps s s'"
    by (rule keepsI) (simp_all add: assms(2-) appended_def same_life_def running_def)
qed

lemma send_away_ok:
  assumes "well_formed s"
  shows "well_formed (send_to_scheduler prog dest a ev (if dest = sched_id s then log_event (Sent_ahead a ev) s else s)) \<and>
    keeps s (send_to_scheduler prog dest a ev (if dest = sched_id s then log_event (Sent_ahead a ev) s else s))"
  by (rule same_view_ok [OF assms]) (use assms in \<open>auto simp: well_formed_def pending_ok_def\<close>)

lemma keepsI_new:
  assumes "infos s a = None" "\<And>b. b \<noteq> a \<Longrightarrow> infos s' b = infos s b" "\<not> running s' a" "sched_id s' = sched_id s"
    "next_id s \<le> next_id s'" "length (actors_list s') \<le> length (actors_list s)"
    "\<And>b. b \<noteq> a \<Longrightarrow> accepted b (slog s') = accepted b (slog s)"
    "\<And>b. b \<noteq> a \<Longrightarrow> handled b (slog s') = handled b (slog s)"
  shows "keeps s s'"
proof (rule keepsI)
  fix b i
  assume i: "infos s b = Some i" "is_running i"
  with assms(1) have "b \<noteq> a" by auto
  with i assms(2,7,8) show "appended s s' b i" by (simp add: appended_def same_life_def)
next
  fix b
  assume "running s' b"
  with assms(3) have "b \<noteq> a" by auto
  with \<open>running s' b\<close> assms(2) show "running s b" by (simp add: running_def)
qed (simp_all add: assms)

lemma init_actor_sel [simp]:
  "infos (init_actor st su s) = (infos s)(next_id s := Some \<lparr>mailbox = [], is_running = False, migrate_dest = sched_id s,
     is_migrating = False, need_start_up = su, ai_empty = False, ac_state = st\<rparr>)"
  "next_id (init_actor st su s) = next_id s + 1" "sched_id (init_actor st su s) = sched_id s"
  "pending_actors (init_actor st su s) = pending_actors s" "ready_actors (init_actor st su s) = ready_actors s"
  "actors_list (init_actor st su s) = actors_list s" "slog (init_actor st su s) = slog s @ [Created (next_id s)]"
  "pending_events (init_actor st su s) = pending_events s" "close_flag (init_actor st su s) = close_flag s"
  by (simp_all add: init_actor_def)

text \<open>A new actor is not in a list yet.\<close>

lemma init_actor_but:
  assumes "well_formed s"
  shows "well_formed_but (next_id s) (init_actor st su s)" "keeps s (init_actor st su s)"
proof -
  let ?s = "init_actor st su s"
  have "actor_ok ?s b" if "b \<noteq> next_id s" for b
    by (rule actor_ok_frame [OF well_formed_actor [OF assms, of b]]) (use that in simp_all)
  moreover have "pending_ok ?s"
    using assms by (simp add: well_formed_def pending_ok_def)
  ultimately show "well_formed_but (next_id s) ?s"
    using assms by (simp add: well_formed_def well_formed_but_def all_lists_def)
  show "keeps s ?s"
    using well_formed_fresh [OF assms order_refl] by (intro keepsI_new [where a = "next_id s"]) (simp_all add: running_def)
qed

lemma put_pending_new_ok:
  assumes "well_formed s"
  shows "well_formed (put_pending (next_id s) (init_actor st su s))"
    "keeps s (put_pending (next_id s) (init_actor st su s))"
proof -
  let ?a = "next_id s" and ?s = "put_pending (next_id s) (init_actor st su s)"
  from well_formed_fresh [OF assms order_refl] have fresh: "infos s ?a = None" "?a \<notin> set (all_lists s)"
    by simp_all
  note but = init_actor_but(1) [OF assms, of st su, unfolded well_formed_but_def]
  have "distinct (all_lists ?s)"
    using assms fresh(2) by (auto simp: well_formed_def all_lists_def)
  moreover have "pending_ok ?s"
    by (rule pending_ok_frame [of "init_actor st su s"]) (simp_all add: but)
  moreover have "actor_ok ?s b" for b
  proof (cases "b = ?a")
    case True
    with fresh(2) show ?thesis
      by (simp add: actor_ok_def on_current_sched_def waiting_ok_def all_lists_def)
  next
    case False
    with but have "actor_ok (init_actor st su s) b" by simp
    then show ?thesis by (rule actor_ok_frame) (use False in simp_all)
  qed
  ultimately show "well_formed ?s" by (simp add: well_formed_def)
  show "keeps s ?s"
    using fresh(1) by (intro keepsI_new [where a = "next_id s"]) (simp_all add: running_def)
qed

lemma enter_event_ok:
  assumes "well_formed_but a s" "infos s a = Some i" "\<not> is_running i" "on_current_sched s i" "a < next_id s"
  shows "enter_event a s = Some (upd_info a (\<lambda>i. i\<lparr>is_running := True\<rparr>) s)"
    "well_formed (upd_info a (\<lambda>i. i\<lparr>is_running := True\<rparr>) s)"
proof -
  let ?s = "upd_info a (\<lambda>i. i\<lparr>is_running := True\<rparr>) s"
  show "enter_event a s = Some ?s"
    using assms by (simp add: enter_event_def)
  have "actor_ok ?s b" for b
  proof (cases "b = a")
    case True
    with assms show ?thesis by (simp add: actor_ok_def on_current_sched_def)
  next
    case False
    with assms(1) have "actor_ok s b" by (simp add: well_formed_but_def)
    then show ?thesis by (rule actor_ok_frame) (use False in simp_all)
  qed
  with assms(1) show "well_formed ?s" by (simp add: well_formed_def well_formed_but_def)
qed

lemma leave_lists_ok:
  assumes "well_formed s" "infos s a = Some i" "is_running i"
    "accepted a (slog s) = handled a (slog s) @ mailbox i"
  shows "well_formed (leave_lists a s)" "infos (leave_lists a s) a = Some (i\<lparr>is_running := False\<rparr>)"
proof -
  let ?s = "leave_lists a s"
  have s: "?s = upd_info a (\<lambda>i. i\<lparr>is_running := False\<rparr>)
            ((if mailbox i = [] then put_pending a else put_ready a) (node_remove a s))"
    using assms(2) by (simp add: leave_lists_def)
  show info: "infos ?s a = Some (i\<lparr>is_running := False\<rparr>)"
    using assms(2) by (simp add: s)
  have "distinct (all_lists ?s)"
    using assms(1) distinct_put(2,3) [of s a] by (simp add: s well_formed_def)
  moreover have "actor_ok ?s b" for b
  proof (cases "b = a")
    case True
    have "on_current_sched s i"
      by (rule well_formed_running [OF assms(1-3)])
    moreover have "waiting_ok ?s a (i\<lparr>is_running := False\<rparr>)"
      using assms(4) by (simp add: s waiting_ok_def)
    moreover have "next_id ?s = next_id s" "sched_id ?s = sched_id s"
      by (simp_all add: s)
    ultimately show ?thesis
      using True info well_formed_next [OF assms(1,2)] by (simp add: actor_ok_def on_current_sched_def)
  next
    case False
    show ?thesis
      by (rule actor_ok_frame [OF well_formed_actor [OF assms(1), of b]]) (use False in \<open>auto simp: s\<close>)
  qed
  moreover have "pending_ok ?s"
    using assms(1) by (simp add: s well_formed_def pending_ok_def)
  ultimately show "well_formed ?s" by (simp add: well_formed_def)
qed

text \<open>The end of an actor.\<close>

lemma destroy_actor_ok:
  assumes "well_formed_but a s" "destroy_actor a s = Some s'"
  shows "well_formed s'"
proof -
  from assms(2) have s': "s' = (node_remove a s)\<lparr>actor_count := actor_count s - 1, infos := (infos s)(a := None)\<rparr>"
    by (auto simp: destroy_actor_def split: if_splits)
  have "distinct (all_lists s')"
    using assms(1) distinct_put(1) [of s a] by (simp add: s' well_formed_but_def all_lists_def)
  moreover have "actor_ok s' b" for b
  proof (cases "b = a")
    case True
    then show ?thesis by (simp add: actor_ok_def s' all_lists_def)
  next
    case False
    with assms(1) have "actor_ok s b" by (simp add: well_formed_but_def)
    then show ?thesis by (rule actor_ok_frame) (use False in \<open>auto simp: s'\<close>)
  qed
  moreover have "pending_ok s'"
    using assms(1) by (simp add: s' well_formed_but_def pending_ok_def)
  ultimately show ?thesis by (simp add: well_formed_def)
qed

lemma well_formed_but_frame:
  assumes "well_formed_but a s" "distinct (all_lists s')" "pending_events s' = pending_events s"
    "close_flag s' = close_flag s" "\<And>b. b \<noteq> a \<Longrightarrow> infos s' b = infos s b"
    "sched_id s' = sched_id s" "next_id s \<le> next_id s'" "slog s' = slog s"
    "\<And>b. b \<noteq> a \<Longrightarrow> b \<in> set (pending_actors s') \<longleftrightarrow> b \<in> set (pending_actors s)"
    "\<And>b. b \<noteq> a \<Longrightarrow> b \<in> set (ready_actors s') \<union> set (actors_list s') \<longleftrightarrow> b \<in> set (ready_actors s) \<union> set (actors_list s)"
  shows "well_formed_but a s'"
  unfolding well_formed_but_def
proof (intro conjI allI impI)
  fix b
  assume b: "b \<noteq> a"
  with assms(1) have "actor_ok s b" by (simp add: well_formed_but_def)
  then show "actor_ok s' b"
    by (rule actor_ok_frame) (use assms(5-) b in simp_all)
qed (use assms in \<open>simp_all add: well_formed_but_def pending_ok_def\<close>)

lemma leave_lists_but:
  assumes "well_formed_but a s"
  shows "well_formed_but a (leave_lists a s)"
proof (cases "infos s a")
  case None
  with assms show ?thesis by (simp add: leave_lists_def)
next
  case (Some i)
  have s: "leave_lists a s = upd_info a (\<lambda>i. i\<lparr>is_running := False\<rparr>)
            ((if mailbox i = [] then put_pending a else put_ready a) (node_remove a s))"
    using Some by (simp add: leave_lists_def)
  show ?thesis
    by (rule well_formed_but_frame [OF assms])
      (use assms distinct_put [of s a] in \<open>auto simp: s well_formed_but_def\<close>)
qed

lemma upd_info_but:
  assumes "well_formed_but a s"
  shows "well_formed_but a (upd_info a f s)"
  by (rule well_formed_but_frame [OF assms]) (use assms in \<open>simp_all add: well_formed_but_def\<close>)


text \<open>What an operation on one actor does to the others.\<close>

definition keeps_but :: "nat \<Rightarrow> ('e, 's) scheduler \<Rightarrow> ('e, 's) scheduler \<Rightarrow> bool" where
  "keeps_but a s s' \<longleftrightarrow> sched_id s' = sched_id s \<and> next_id s \<le> next_id s' \<and>
     length (actors_list s') \<le> length (actors_list s) \<and>
     (\<forall>b i. b \<noteq> a \<longrightarrow> infos s b = Some i \<longrightarrow> is_running i \<longrightarrow> appended s s' b i) \<and>
     (\<forall>b. b \<noteq> a \<longrightarrow> running s' b \<longrightarrow> running s b)"

lemma keeps_but: "keeps s s' \<Longrightarrow> keeps_but a s s'"
  by (simp add: keeps_def keeps_but_def)

lemma keeps_butI: "keeps_but a s s' \<Longrightarrow> \<not> running s a \<Longrightarrow> \<not> running s' a \<Longrightarrow> keeps s s'"
  unfolding keeps_def keeps_but_def by (auto simp: running_def)

lemma keeps_but_frame:
  assumes "\<And>b. b \<noteq> a \<Longrightarrow> infos s' b = infos s b" "sched_id s' = sched_id s" "next_id s \<le> next_id s'"
    "length (actors_list s') \<le> length (actors_list s)"
    "\<And>b. b \<noteq> a \<Longrightarrow> accepted b (slog s') = accepted b (slog s)"
    "\<And>b. b \<noteq> a \<Longrightarrow> handled b (slog s') = handled b (slog s)"
  shows "keeps_but a s s'"
  unfolding keeps_but_def using assms by (simp add: appended_def same_life_def running_def)

lemma keeps_but_trans:
  assumes "keeps_but a s1 s2" "keeps_but a s2 s3"
  shows "keeps_but a s1 s3"
  unfolding keeps_but_def
proof (intro conjI allI impI)
  fix b i
  assume b: "b \<noteq> a" and i: "infos s1 b = Some i" "is_running i"
  have "appended s1 s2 b i" using assms(1) b i by (simp add: keeps_but_def)
  then show "appended s1 s3 b i"
    by (rule appended_trans) (use assms(2) b i in \<open>simp_all add: keeps_but_def\<close>)
qed (use assms in \<open>auto simp: keeps_but_def\<close>)

lemma keeps_but_remove: "length (removeAll a xs) \<le> length xs"
  by (simp add: length_removeAll_less_eq)

lemma upd_info_keeps_but: "keeps_but a s (upd_info a f s)"
  by (rule keeps_but_frame) simp_all

lemma leave_lists_keeps_but: "keeps_but a s (leave_lists a s)"
  by (rule keeps_but_frame) (auto simp: leave_lists_def keeps_but_remove split: option.splits)

lemma destroy_actor_keeps_but: "destroy_actor a s = Some s' \<Longrightarrow> keeps_but a s s' \<and> \<not> running s' a"
  by (auto simp: destroy_actor_def running_def keeps_but_remove intro!: keeps_but_frame split: if_splits)

text \<open>A running actor and the events it has still to handle.\<close>

definition owes :: "('e, 's) scheduler \<Rightarrow> nat \<Rightarrow> nat \<Rightarrow> bool" where
  "owes s a k \<longleftrightarrow> (\<exists>i. infos s a = Some i \<and> is_running i \<and> k \<le> length (mailbox i) \<and>
     accepted a (slog s) = handled a (slog s) @ drop k (mailbox i))"

lemma owes_keeps: "owes s a k \<Longrightarrow> keeps s s' \<Longrightarrow> owes s' a k"
  by (fastforce simp: owes_def appended_def same_life_def dest: keepsD(4))

lemma owes_next:
  assumes "well_formed s" "owes s a k" "infos s a = Some i" "k < length (mailbox i)"
  shows "well_formed (log_event (Handled a (mailbox i ! k)) s) \<and> owes (log_event (Handled a (mailbox i ! k)) s) a (k + 1)"
proof
  let ?s = "log_event (Handled a (mailbox i ! k)) s"
  from assms have i: "is_running i" by (auto simp: owes_def)
  have "actor_ok ?s b" for b
  proof (cases "b = a")
    case True
    with well_formed_actor [OF assms(1), of a] assms(3) i show ?thesis
      by (simp add: actor_ok_def on_current_sched_def all_lists_def split: if_splits)
  next
    case False
    show ?thesis
      by (rule actor_ok_frame [OF well_formed_actor [OF assms(1), of b]]) (use False in simp_all)
  qed
  with assms(1) show "well_formed ?s" by (simp add: well_formed_def pending_ok_def)
  show "owes ?s a (k + 1)"
    using assms(2-4) by (auto simp: owes_def Cons_nth_drop_Suc)
qed

locale sound_call =
  fixes call :: "('e, 's) call \<Rightarrow> ('e, 's) scheduler \<Rightarrow> ('e, 's) scheduler option"
    and prog :: "('e, 's) prog"
  assumes call_ok: "well_formed s \<Longrightarrow> call c s = Some s' \<Longrightarrow> well_formed s' \<and> keeps s s'"
begin

lemma exec_ok: "exec call a c fl s = Some (fl', s') \<Longrightarrow> well_formed s \<Longrightarrow> well_formed s' \<and> keeps s s'"
proof (induction c arbitrary: fl s)
  case (Return st)
  then show ?case
    using upd_info_harmless [of s "\<lambda>i. i\<lparr>ac_state := st\<rparr>" a] by (simp add: same_life_def)
next
  case (Send t b ev k)
  then obtain s1 where "call (Call_send t b ev) s = Some s1" "exec call a k fl s1 = Some (fl', s')"
    by (auto simp: bind_eq_Some_conv)
  with Send call_ok [of s "Call_send t b ev" s1] show ?case
    using keeps_trans by blast
next
  case (Create st start_up dest k)
  then obtain s1 where "call (Call_create st start_up dest) s = Some s1"
    "exec call a (k (next_id s)) fl s1 = Some (fl', s')"
    by (auto simp: bind_eq_Some_conv)
  with Create call_ok [of s "Call_create st start_up dest" s1] show ?case
    using keeps_trans by blast
qed auto

lemma exec_outside_ok: "exec_outside call a c s = Some s' \<Longrightarrow> well_formed s \<Longrightarrow> well_formed s' \<and> keeps s s'"
proof (induction c arbitrary: s)
  case (Return st)
  then show ?case
    using upd_info_harmless [of s "\<lambda>i. i\<lparr>ac_state := st\<rparr>" a] by (simp add: same_life_def)
next
  case (Send t b ev k)
  then obtain s1 where "call (Call_send t b ev) s = Some s1" "exec_outside call a k s1 = Some s'"
    by (auto simp: bind_eq_Some_conv)
  with Send call_ok [of s "Call_send t b ev" s1] show ?case
    using keeps_trans by blast
next
  case (Create st start_up dest k)
  then obtain s1 where "call (Call_create st start_up dest) s = Some s1"
    "exec_outside call a (k (next_id s)) s1 = Some s'"
    by (auto simp: bind_eq_Some_conv)
  with Create call_ok [of s "Call_create st start_up dest" s1] show ?case
    using keeps_trans by blast
qed auto

lemma call_outside_ok:
  "call_outside call prog a cb s = Some s' \<Longrightarrow> well_formed s \<Longrightarrow> well_formed s' \<and> keeps s s'"
  by (auto simp: call_outside_def dest: exec_outside_ok split: option.splits if_splits)

lemma do_event_ok:
  "do_event call prog a ev fl s = Some (fl', s') \<Longrightarrow> well_formed s \<Longrightarrow> well_formed s' \<and> keeps s s'"
  by (auto simp: do_event_def dest: exec_ok split: option.splits if_splits)

lemma destroy_object_ok:
  assumes "destroy_object call prog a s = Some s'" "well_formed s"
  shows "well_formed_but a s' \<and> keeps_but a s s'"
proof -
  from assms(1) obtain i s1 where "infos s a = Some i" and
    ex: "exec_outside call a (act prog a Destructor (ac_state i)) (upd_info a (\<lambda>i. i\<lparr>ai_empty := True\<rparr>) s) = Some s1"
    and s': "s' = upd_info a (\<lambda>i. i\<lparr>mailbox := []\<rparr>) s1"
    by (auto simp: destroy_object_def split: option.splits)
  have e: "well_formed (upd_info a (\<lambda>i. i\<lparr>ai_empty := True\<rparr>) s) \<and> keeps s (upd_info a (\<lambda>i. i\<lparr>ai_empty := True\<rparr>) s)"
    by (rule upd_info_harmless [OF assms(2)]) (simp_all add: same_life_def)
  with exec_outside_ok [OF ex] have s1: "well_formed s1" "keeps s s1"
    using keeps_trans by blast+
  show ?thesis
    using upd_info_but [OF well_formed_but [OF s1(1)]] keeps_but_trans [OF keeps_but [OF s1(2)] upd_info_keeps_but]
    by (simp add: s')
qed

lemma do_stop_actor_ok:
  assumes "do_stop_actor call prog a s = Some s'" "well_formed s" "\<not> running s a"
  shows "well_formed s' \<and> keeps_but a s s' \<and> \<not> running s' a"
proof -
  from assms(1) obtain i where i: "infos s a = Some i" "on_current_sched s i"
    by (auto simp: do_stop_actor_def split: option.splits if_splits)
  with assms(3) have idle: "\<not> is_running i" by (simp add: running_def)
  show ?thesis
  proof (cases "need_start_up i")
    case False
    with assms(1) i obtain s1 where "destroy_object call prog a s = Some s1" and d: "destroy_actor a s1 = Some s'"
      by (auto simp: do_stop_actor_def bind_eq_Some_conv)
    from destroy_object_ok [OF this(1) assms(2)] have s1: "well_formed_but a s1" "keeps_but a s s1" by simp_all
    from destroy_actor_ok [OF s1(1) d] destroy_actor_keeps_but [OF d] keeps_but_trans [OF s1(2)]
    show ?thesis by blast
  next
    case True
    let ?s1 = "upd_info a (\<lambda>i. i\<lparr>is_running := True\<rparr>) s"
    note en = enter_event_ok [OF well_formed_but [OF assms(2)] i(1) idle i(2) well_formed_next [OF assms(2) i(1)]]
    from assms(1) i True en(1) obtain fl s2 s3 where ev: "do_event call prog a (Ev_stop, 0) no_flags ?s1 = Some (fl, s2)"
      and ob: "destroy_object call prog a s2 = Some s3" and d: "destroy_actor a (leave_lists a s3) = Some s'"
      by (auto simp: do_stop_actor_def bind_eq_Some_conv)
    from do_event_ok [OF ev en(2)] have s2: "well_formed s2" "keeps ?s1 s2" by simp_all
    from destroy_object_ok [OF ob s2(1)] have s3: "well_formed_but a s3" "keeps_but a s2 s3" by simp_all
    have "keeps_but a s s'"
      using keeps_but_trans [OF upd_info_keeps_but keeps_but_trans [OF keeps_but [OF s2(2)] keeps_but_trans [OF s3(2)
            keeps_but_trans [OF leave_lists_keeps_but conjunct1 [OF destroy_actor_keeps_but [OF d]]]]]] .
    with destroy_actor_ok [OF leave_lists_but [OF s3(1)] d] destroy_actor_keeps_but [OF d] show ?thesis by simp
  qed
qed

lemma do_migrate_actor_ok:
  assumes "do_migrate_actor call prog a dest s = Some s'" "well_formed s" "\<not> running s a"
  shows "well_formed s' \<and> keeps_but a s s' \<and> \<not> running s' a"
proof (cases "sched_id s = dest")
  case True
  with assms show ?thesis
    using keeps_but [OF keeps_refl] by (simp add: do_migrate_actor_def)
next
  case False
  let ?s0 = "s\<lparr>actor_count := actor_count s - 1\<rparr>"
  from assms(1) False obtain s1 i where told: "call_outside call prog a (On_start_migrate dest) ?s0 = Some s1"
    and i: "infos s1 a = Some i" and s': "s' = send_to_other_scheduler prog dest None (Ev_raw a, 0)
        (node_remove a (upd_info a (\<lambda>i. i\<lparr>mailbox := map (start_migrate_event prog dest) (mailbox i),
           is_migrating := True, migrate_dest := dest\<rparr>) s1))"
    by (auto simp: do_migrate_actor_def start_migrate_actor_def bind_eq_Some_conv split: if_splits option.splits)
  have "well_formed ?s0 \<and> keeps s ?s0"
    by (rule same_view_ok [OF assms(2)]) (use assms(2) in \<open>simp_all add: well_formed_def pending_ok_def\<close>)
  with call_outside_ok [OF told] have s1: "well_formed s1" "keeps s s1"
    using keeps_trans by blast+
  with assms(3) have idle: "\<not> is_running i"
    using keeps_running [OF s1(2), of a] i by (simp add: running_def)
  have lists: "all_lists s' = removeAll a (all_lists s1)"
    by (simp add: s' all_lists_def)
  have info: "infos s' a = Some (i\<lparr>mailbox := map (start_migrate_event prog dest) (mailbox i), is_migrating := True,
      migrate_dest := dest\<rparr>)" "next_id s' = next_id s1"
    using i by (simp_all add: s')
  have "actor_ok s' b" for b
  proof (cases "b = a")
    case True
    have "a \<notin> set (all_lists s')" by (simp add: lists)
    with True info idle well_formed_next [OF s1(1) i] show ?thesis
      by (simp add: actor_ok_def on_current_sched_def)
  next
    case False
    show ?thesis
      by (rule actor_ok_frame [OF well_formed_actor [OF s1(1), of b]]) (use False in \<open>auto simp: s'\<close>)
  qed
  moreover have "distinct (all_lists s')"
    using s1(1) by (simp add: lists well_formed_def distinct_removeAll)
  moreover have "pending_ok s'"
    by (rule pending_ok_frame [of s1]) (use s1(1) in \<open>simp_all add: s' well_formed_def\<close>)
  moreover have "keeps_but a s1 s'"
    by (rule keeps_but_frame) (auto simp: s' keeps_but_remove)
  moreover have "\<not> running s' a"
    using info idle by (simp add: running_def)
  ultimately show ?thesis
    using keeps_but_trans [OF keeps_but [OF s1(2)]] by (simp add: well_formed_def)
qed

text \<open>A new actor on this scheduler or on another one.\<close>

lemma send_start_ok:
  assumes "send_start prog a s = Some s'" "infos s a = Some i" "on_current_sched s i" "\<not> close_flag s"
  shows "s' = add_to_mailbox a (Ev_start, 0) (log_event (Sent a (Ev_start, 0)) s)"
  using assms by (simp add: send_start_def send_impl_def)

lemma send_start_new:
  assumes "send_start prog (next_id s) (init_actor st su s) = Some s'" "well_formed s"
  shows "well_formed s' \<and> keeps s s' \<and> \<not> running s' (next_id s)"
proof -
  let ?a = "next_id s" and ?s = "init_actor st su s"
  let ?put = "put_pending ?a ?s"
  have here: "infos ?s ?a = Some \<lparr>mailbox = [], is_running = False, migrate_dest = sched_id s,
     is_migrating = False, need_start_up = su, ai_empty = False, ac_state = st\<rparr>" (is "_ = Some ?i")
    by simp
  have cur: "on_current_sched ?s ?i" "on_current_sched ?put ?i" by (simp_all add: on_current_sched_def)
  have nc: "\<not> close_flag ?s" using assms(2) by (simp add: well_formed_def pending_ok_def)
  have fresh: "?a \<notin> set (all_lists s)" using well_formed_fresh [OF assms(2) order_refl] by simp
  have "s' = add_to_mailbox ?a (Ev_start, 0) (log_event (Sent ?a (Ev_start, 0)) ?s)"
    by (rule send_start_ok [OF assms(1) here cur(1) nc])
  also have "\<dots> = add_to_mailbox ?a (Ev_start, 0) (log_event (Sent ?a (Ev_start, 0)) ?put)"
    using fresh by (simp add: add_to_mailbox_def node_remove_def put_pending_def log_event_def init_actor_def all_lists_def)
  finally have s': "s' = \<dots>" .
  have "infos ?put ?a = Some ?i" by simp
  from add_to_mailbox_ok [OF put_pending_new_ok(1) [OF assms(2)] this cur(2)]
  have "well_formed s' \<and> keeps ?put s'" by (simp only: s')
  moreover have "\<not> running ?put ?a" by (simp add: running_def)
  ultimately show ?thesis
    using keeps_trans [OF put_pending_new_ok(2) [OF assms(2)]] keeps_running [of ?put s' ?a] by blast
qed

lemma register_actor_ok:
  assumes "register_actor call prog st su dest s = Some s'" "well_formed s"
  shows "well_formed s' \<and> keeps s s'"
proof -
  let ?a = "next_id s" and ?s = "init_actor st su s"
  let ?dest = "if dest = -1 then sched_id s else dest"
  have old: "\<not> running s ?a"
    using well_formed_fresh [OF assms(2) order_refl] by (simp add: running_def)
  show ?thesis
  proof (cases "?dest = sched_id s")
    case False
    with assms(1) have "Option.bind (send_start prog ?a ?s) (do_migrate_actor call prog ?a ?dest) = Some s'"
      by (simp add: register_actor_def Let_def split: if_splits)
    then obtain s1 where s1: "send_start prog ?a ?s = Some s1"
      and mig: "do_migrate_actor call prog ?a ?dest s1 = Some s'"
      unfolding bind_eq_Some_conv by blast
    from send_start_new [OF s1 assms(2)] have w: "well_formed s1" "keeps s s1" "\<not> running s1 ?a" by simp_all
    from do_migrate_actor_ok [OF mig w(1,3)] have "well_formed s'" "keeps_but ?a s1 s'" "\<not> running s' ?a"
      by simp_all
    with keeps_butI [OF _ w(3)] keeps_trans [OF w(2)] show ?thesis by blast
  next
    case here: True
    let ?put = "put_pending ?a ?s"
    note put = put_pending_new_ok [OF assms(2), of st su]
    show ?thesis
    proof (cases su)
      case False
      with assms(1) here have "s' = ?put" by (auto simp: register_actor_def Let_def split: if_splits)
      with put show ?thesis by simp
    next
      case True
      with assms(1) here have st: "send_start prog ?a ?put = Some s'"
        by (auto simp: register_actor_def Let_def split: if_splits)
      let ?i = "\<lparr>mailbox = [], is_running = False, migrate_dest = sched_id s,
        is_migrating = False, need_start_up = su, ai_empty = False, ac_state = st\<rparr>"
      have here: "infos ?put ?a = Some ?i" "on_current_sched ?put ?i"
        by (simp_all add: on_current_sched_def)
      have "\<not> close_flag ?put" using assms(2) by (simp add: well_formed_def pending_ok_def)
      from send_start_ok [OF st here this] add_to_mailbox_ok [OF put(1) here] keeps_trans [OF put(2)]
      show ?thesis by simp
    qed
  qed
qed

lemma leave_event_ok:
  assumes "leave_event call prog a fl s = Some s'" "well_formed s" "owes s a 0"
  shows "well_formed s' \<and> keeps_but a s s' \<and> \<not> running s' a"
proof -
  from assms(3) obtain i where i: "infos s a = Some i" "is_running i"
    "accepted a (slog s) = handled a (slog s) @ mailbox i"
    by (auto simp: owes_def)
  note left = leave_lists_ok [OF assms(2) i]
  have idle: "\<not> running (leave_lists a s) a"
    using left(2) by (simp add: running_def)
  have "(well_formed s' \<and> keeps_but a (leave_lists a s) s' \<and> \<not> running s' a)"
  proof (cases "fl_stop fl")
    case True
    with assms(1) have "do_stop_actor call prog a (leave_lists a s) = Some s'"
      by (simp add: leave_event_def Let_def)
    from do_stop_actor_ok [OF this left(1) idle] show ?thesis .
  next
    case False
    show ?thesis
    proof (cases "fl_migrate fl")
      case None
      with assms(1) False have "s' = leave_lists a s" by (simp add: leave_event_def Let_def)
      with left(1) idle keeps_but [OF keeps_refl] show ?thesis by simp
    next
      case (Some dest)
      with assms(1) False have "do_migrate_actor call prog a dest (leave_lists a s) = Some s'"
        by (simp add: leave_event_def Let_def)
      from do_migrate_actor_ok [OF this left(1) idle] show ?thesis .
    qed
  qed
  with keeps_but_trans [OF leave_lists_keeps_but] show ?thesis by blast
qed

lemma run_event_ok:
  assumes "run_event call prog a ev (log_event (Sent a ev) s) = Some s'" "well_formed s"
    and "infos s a = Some i" "on_current_sched s i" "\<not> is_running i" "mailbox i = []"
  shows "well_formed s' \<and> keeps s s'"
proof -
  let ?s0 = "log_event (Sent a ev) s"
  let ?s1 = "upd_info a (\<lambda>i. i\<lparr>is_running := True\<rparr>) ?s0"
  let ?s2 = "log_event (Handled a ev) ?s1"
  have but: "well_formed_but a ?s0"
    unfolding well_formed_but_def
  proof (intro conjI allI impI)
    show "distinct (all_lists ?s0)" "pending_ok ?s0" using assms(2) by (simp_all add: well_formed_def pending_ok_def)
    fix b
    assume "b \<noteq> a"
    then show "actor_ok ?s0 b"
      by (intro actor_ok_frame [OF well_formed_actor [OF assms(2), of b]]) simp_all
  qed
  have info: "infos ?s0 a = Some i" "on_current_sched ?s0 i" "a < next_id ?s0"
    using assms(3,4) well_formed_next [OF assms(2,3)] by (simp_all add: on_current_sched_def)
  note en = enter_event_ok [OF but info(1) assms(5) info(2,3)]
  from well_formed_waiting [OF assms(2,3,5,4)] assms(6)
  have "accepted a (slog s) = handled a (slog s)" by (simp add: waiting_ok_def)
  then have owes2: "owes ?s2 a 0"
    using info(1) assms(6) by (simp add: owes_def)
  have wf2: "well_formed ?s2"
    unfolding well_formed_def
  proof (intro conjI allI)
    show "distinct (all_lists ?s2)" "pending_ok ?s2" using en(2) by (simp_all add: well_formed_def pending_ok_def)
    fix b
    show "actor_ok ?s2 b"
    proof (cases "b = a")
      case True
      with well_formed_actor [OF en(2), of a] info show ?thesis
        by (simp add: actor_ok_def on_current_sched_def)
    next
      case False
      then show ?thesis
        by (intro actor_ok_frame [OF well_formed_actor [OF en(2), of b]]) simp_all
    qed
  qed
  from assms(1) en(1) obtain fl s3 where ev: "do_event call prog a ev no_flags ?s2 = Some (fl, s3)"
    and lv: "leave_event call prog a fl s3 = Some s'"
    by (auto simp: run_event_def bind_eq_Some_conv)
  from do_event_ok [OF ev wf2] have s3: "well_formed s3" "keeps ?s2 s3" by simp_all
  note last = leave_event_ok [OF lv s3(1) owes_keeps [OF owes2 s3(2)]]
  have "keeps_but a s ?s2"
    by (rule keeps_but_frame) simp_all
  from keeps_but_trans [OF this keeps_but_trans [OF keeps_but [OF s3(2)]]] last have "keeps_but a s s'"
    by blast
  moreover have "\<not> running s a" using assms(3,5) by (simp add: running_def)
  ultimately show ?thesis using keeps_butI [of a s s'] last by simp
qed

lemma send_impl_ok:
  assumes "send_impl (run_event call prog) prog t a ev s = Some s'" "well_formed s"
  shows "well_formed s' \<and> keeps s s'"
proof (cases "infos s a")
  case None
  with assms show ?thesis by (simp add: send_impl_def)
next
  case (Some i)
  show ?thesis
  proof (cases "close_flag s \<or> \<not> on_current_sched s i")
    case True
    with assms Some have "s' = s \<or> s' = send_to_scheduler prog (migrate_dest i) a ev
        (if migrate_dest i = sched_id s then log_event (Sent_ahead a ev) s else s)"
      by (auto simp: send_impl_def split: if_splits)
    with send_away_ok [OF assms(2), of prog "migrate_dest i" a ev] assms(2) show ?thesis by auto
  next
    case False
    show ?thesis
    proof (cases "t = Immediate \<and> \<not> is_running i \<and> mailbox i = []")
      case True
      with assms Some False have "run_event call prog a ev (log_event (Sent a ev) s) = Some s'"
        by (simp add: send_impl_def)
      from run_event_ok [OF this assms(2) Some] False True show ?thesis by simp
    next
      case nested: False
      with assms(1) Some False have "s' = add_to_mailbox a ev (log_event (Sent a ev) s)"
        unfolding send_impl_def by (simp only: option.case if_False simp_thms) simp
      with add_to_mailbox_ok [OF assms(2) Some] False show ?thesis by simp
    qed
  qed
qed

lemma flush_loop_ok:
  "flush_loop call prog a n i fl s = Some (i', fl', s') \<Longrightarrow> well_formed s \<Longrightarrow> owes s a i \<Longrightarrow>
    (\<And>info. infos s a = Some info \<Longrightarrow> i + n \<le> length (mailbox info)) \<Longrightarrow>
    well_formed s' \<and> keeps_but a s s' \<and> owes s' a i'"
proof (induction n arbitrary: i fl s)
  case 0
  then show ?case by (auto intro: keeps_but)
next
  case (Suc n)
  show ?case
  proof (cases "fl = no_flags")
    case False
    with Suc.prems show ?thesis by (auto intro: keeps_but)
  next
    case True
    from Suc.prems(3) obtain info where info: "infos s a = Some info" by (auto simp: owes_def)
    let ?ev = "mailbox info ! i"
    let ?s = "log_event (Handled a ?ev) s"
    from Suc.prems(1) True info obtain fl1 s1 where ev: "do_event call prog a ?ev fl ?s = Some (fl1, s1)"
      and rest: "flush_loop call prog a n (i + 1) fl1 s1 = Some (i', fl', s')"
      by (auto simp: bind_eq_Some_conv)
    have "i < length (mailbox info)"
      using Suc.prems(4) [OF info] by simp
    from owes_next [OF Suc.prems(2,3) info this] have s: "well_formed ?s" "owes ?s a (i + 1)" by simp_all
    from do_event_ok [OF ev s(1)] have s1: "well_formed s1" "keeps ?s s1" by simp_all
    have "is_running info"
      using Suc.prems(3) info by (simp add: owes_def)
    with keepsD(4) [OF s1(2), of a info] info have "appended ?s s1 a info" by simp
    then have len: "i + 1 + n \<le> length (mailbox info1)" if "infos s1 a = Some info1" for info1
      using that Suc.prems(4) [OF info] by (auto simp: appended_def)
    from Suc.IH [OF rest s1(1) owes_keeps [OF s(2) s1(2)] len]
    have "well_formed s'" "keeps_but a s1 s'" "owes s' a i'" by simp_all
    moreover have "keeps_but a s ?s"
      by (rule keeps_but_frame) simp_all
    ultimately show ?thesis
      using keeps_but_trans [OF _ keeps_but_trans [OF keeps_but [OF s1(2)]]] by blast
  qed
qed

lemma flush_mailbox_ok:
  assumes "flush_mailbox call prog a s = Some s'" "well_formed_but a s" "infos s a = Some i"
    "\<not> is_running i" "on_current_sched s i" "a < next_id s"
    "accepted a (slog s) = handled a (slog s) @ mailbox i"
  shows "well_formed s' \<and> keeps s s'"
proof -
  let ?s1 = "upd_info a (\<lambda>i. i\<lparr>is_running := True\<rparr>) s"
  note en = enter_event_ok [OF assms(2-6)]
  from assms(1,3) en(1) obtain k fl s2 where
    loop: "flush_loop call prog a (length (mailbox i)) 0 no_flags ?s1 = Some (k, fl, s2)"
    and lv: "leave_event call prog a fl (upd_info a (\<lambda>i. i\<lparr>mailbox := drop k (mailbox i)\<rparr>) s2) = Some s'"
    by (auto simp: flush_mailbox_def bind_eq_Some_conv split: if_splits)
  let ?s3 = "upd_info a (\<lambda>i. i\<lparr>mailbox := drop k (mailbox i)\<rparr>) s2"
  have "owes ?s1 a 0"
    using assms(3,7) by (simp add: owes_def)
  from flush_loop_ok [OF loop en(2) this] assms(3)
  have s2: "well_formed s2" "keeps_but a ?s1 s2" "owes s2 a k" by auto
  from s2(3) obtain i2 where i2: "infos s2 a = Some i2" "is_running i2"
    "accepted a (slog s2) = handled a (slog s2) @ drop k (mailbox i2)"
    by (auto simp: owes_def)
  have s3: "well_formed ?s3"
  proof (rule running_actor_ok [OF upd_info_but [OF well_formed_but [OF s2(1)]]])
    show "infos ?s3 a = Some (i2\<lparr>mailbox := drop k (mailbox i2)\<rparr>)" using i2(1) by simp
    show "on_current_sched ?s3 (i2\<lparr>mailbox := drop k (mailbox i2)\<rparr>)"
      using well_formed_running [OF s2(1) i2(1,2)] by (simp add: on_current_sched_def)
    show "a < next_id ?s3" using well_formed_next [OF s2(1) i2(1)] by simp
  qed (simp add: i2(2))
  have "owes ?s3 a 0" using i2 by (simp add: owes_def)
  note last = leave_event_ok [OF lv s3 this]
  have "keeps_but a s s'"
    using keeps_but_trans [OF upd_info_keeps_but keeps_but_trans [OF s2(2) keeps_but_trans [OF upd_info_keeps_but
          conjunct1 [OF conjunct2 [OF last]]]]] .
  moreover have "\<not> running s a" using assms(3,4) by (simp add: running_def)
  ultimately show ?thesis using keeps_butI [of a s s'] last by simp
qed

lemma run_list_ok:
  "run_list call prog n s = Some s' \<Longrightarrow> well_formed s \<Longrightarrow> length (actors_list s) \<le> n \<Longrightarrow> \<forall>a. \<not> running s a \<Longrightarrow>
    well_formed s' \<and> keeps s s' \<and> actors_list s' = []"
proof (induction n arbitrary: s)
  case 0
  then show ?case by simp
next
  case (Suc n)
  show ?case
  proof (cases "actors_list s")
    case Nil
    with Suc.prems show ?thesis by simp
  next
    case (Cons a rest)
    let ?s = "s\<lparr>actors_list := rest\<rparr>"
    from Suc.prems(1) Cons obtain s1 where fl: "flush_mailbox call prog a ?s = Some s1"
      and rl: "run_list call prog n s1 = Some s'"
      by (auto simp: bind_eq_Some_conv)
    from well_formed_actor [OF Suc.prems(2), of a] Cons obtain i where i: "infos s a = Some i" "on_current_sched s i"
      by (auto simp: actor_ok_def all_lists_def split: option.splits if_splits)
    with Suc.prems(4) have idle: "\<not> is_running i" by (auto simp: running_def)
    from well_formed_waiting [OF Suc.prems(2) i(1) idle i(2)]
    have fifo: "accepted a (slog s) = handled a (slog s) @ mailbox i" by (simp add: waiting_ok_def)
    have but: "well_formed_but a ?s"
      by (rule well_formed_but_frame [OF well_formed_but [OF Suc.prems(2)]])
        (use Suc.prems(2) Cons in \<open>auto simp: well_formed_def all_lists_def\<close>)
    have "well_formed s1 \<and> keeps ?s s1"
      by (rule flush_mailbox_ok [OF fl but _ idle])
        (use i fifo well_formed_next [OF Suc.prems(2) i(1)] in \<open>simp_all add: on_current_sched_def\<close>)
    then have s1: "well_formed s1" "keeps ?s s1" by simp_all
    have ks: "keeps s ?s"
      by (rule keepsI) (simp_all add: Cons appended_def same_life_def running_def)
    have "length (actors_list s1) \<le> n"
      using keepsD(3) [OF s1(2)] Suc.prems(3) Cons by simp
    moreover have "\<forall>a. \<not> running s1 a"
      using keepsD(5) [OF keeps_trans [OF ks s1(2)]] Suc.prems(4) by blast
    ultimately show ?thesis
      using Suc.IH [OF rl s1(1)] keeps_trans [OF ks keeps_trans [OF s1(2)]] by blast
  qed
qed

lemma run_mailbox_ok:
  assumes "run_mailbox call prog s = Some s'" "well_formed s" "\<forall>a. \<not> running s a" "actors_list s = []"
  shows "well_formed s' \<and> (\<forall>a. \<not> running s' a) \<and> actors_list s' = [] \<and> sched_id s' = sched_id s"
proof -
  let ?s = "s\<lparr>actors_list := ready_actors s, ready_actors := []\<rparr>"
  have "well_formed ?s"
    unfolding well_formed_def
  proof (intro conjI allI)
    show "distinct (all_lists ?s)" "pending_ok ?s"
      using assms(2,4) by (simp_all add: well_formed_def pending_ok_def all_lists_def)
    fix b
    show "actor_ok ?s b"
      by (rule actor_ok_frame [OF well_formed_actor [OF assms(2), of b]]) (simp_all add: assms(4))
  qed
  moreover have "\<forall>a. \<not> running ?s a" using assms(3) by (simp add: running_def)
  moreover have "run_list call prog (length (ready_actors s)) ?s = Some s'"
    using assms(1) by (simp add: run_mailbox_def)
  ultimately have r: "well_formed s' \<and> keeps ?s s' \<and> actors_list s' = []"
    using run_list_ok by simp
  moreover have "\<not> running s' a" for a
    using keepsD(5) [of ?s s' a] r assms(3) by (auto simp: running_def)
  ultimately show ?thesis using keepsD(1) [of ?s s'] by simp
qed

end

text \<open>The calls at every depth of the stack.\<close>

lemma send_impl_0_ok:
  assumes "send_impl (\<lambda>_ _ _. None) prog t a ev s = Some s'" "well_formed s"
  shows "well_formed s' \<and> keeps s s'"
proof (cases "infos s a")
  case None
  with assms show ?thesis by (simp add: send_impl_def)
next
  case (Some i)
  show ?thesis
  proof (cases "close_flag s \<or> \<not> on_current_sched s i")
    case True
    with assms Some have "s' = s \<or> s' = send_to_scheduler prog (migrate_dest i) a ev
        (if migrate_dest i = sched_id s then log_event (Sent_ahead a ev) s else s)"
      by (auto simp: send_impl_def split: if_splits)
    with send_away_ok [OF assms(2), of prog "migrate_dest i" a ev] assms(2) show ?thesis by auto
  next
    case False
    with assms(1) Some have "s' = add_to_mailbox a ev (log_event (Sent a ev) s)"
      by (auto simp: send_impl_def split: if_splits)
    with add_to_mailbox_ok [OF assms(2) Some] False show ?thesis by simp
  qed
qed

lemma sound_sched_call: "sound_call (sched_call depth prog)"
proof (induction depth)
  case 0
  have none: "sound_call (\<lambda>_ _. None)" by unfold_locales simp
  show ?case
    by unfold_locales
      (auto simp: call_impl_def split: call.splits dest: send_impl_0_ok sound_call.register_actor_ok [OF none])
next
  case (Suc depth)
  show ?case
    by unfold_locales
      (auto simp: call_impl_def split: call.splits dest: sound_call.send_impl_ok [OF Suc] sound_call.register_actor_ok [OF Suc])
qed

interpretation actors: sound_call "sched_call depth prog" prog for depth prog
  by (rule sound_sched_call)


subsection \<open>Runs of a scheduler\<close>

text \<open>Between two events the scheduler is sent an event, creates an actor, runs the mailboxes
  or registers an actor that has arrived, with the events that it carries; an actor that is
  not on this scheduler may change or disappear at any time.\<close>

inductive sched_step :: "nat \<Rightarrow> ('e, 's) prog \<Rightarrow> ('e, 's) scheduler \<Rightarrow> ('e, 's) scheduler \<Rightarrow> bool"
  for depth :: nat and prog :: "('e, 's) prog" where
  call_sched: "sched_call depth prog c s = Some s' \<Longrightarrow> sched_step depth prog s s'"
| mailboxes: "run_mailbox (sched_call depth prog) prog s = Some s' \<Longrightarrow> sched_step depth prog s s'"
| elsewhere: "(\<And>i. infos s a = Some i \<Longrightarrow> \<not> on_current_sched s i) \<Longrightarrow>
    (\<And>i. info = Some i \<Longrightarrow> \<not> on_current_sched s i \<and> \<not> is_running i) \<Longrightarrow>
    sched_step depth prog s (s\<lparr>infos := (infos s)(a := info), next_id := max (next_id s) (a + 1)\<rparr>)"
| arrive: "infos s a = Some i \<Longrightarrow>
    register_migrated_actor (sched_call depth prog) prog a
      (log_event (Arrived a (map (finish_migrate_event prog) (mailbox i))) s) = Some s' \<Longrightarrow>
    sched_step depth prog s s'"

definition sched_inv :: "('e, 's) scheduler \<Rightarrow> bool" where
  "sched_inv s \<longleftrightarrow> well_formed s \<and> (\<forall>a. \<not> running s a) \<and> actors_list s = []"

lemma sched_inv_init: "sched_inv (sched_init sid n)"
  by (simp add: sched_inv_def sched_init_def well_formed_def pending_ok_def all_lists_def actor_ok_def running_def)

lemma sched_inv_keeps: "well_formed s' \<and> keeps s s' \<Longrightarrow> sched_inv s \<Longrightarrow> sched_inv s'"
  using keepsD(3,5) [of s s'] by (auto simp: sched_inv_def)

lemma elsewhere_ok:
  assumes "sched_inv s" "\<And>i. infos s a = Some i \<Longrightarrow> \<not> on_current_sched s i"
    "\<And>i. info = Some i \<Longrightarrow> \<not> on_current_sched s i \<and> \<not> is_running i"
  shows "sched_inv (s\<lparr>infos := (infos s)(a := info), next_id := max (next_id s) (a + 1)\<rparr>)"
proof -
  let ?s = "s\<lparr>infos := (infos s)(a := info), next_id := max (next_id s) (a + 1)\<rparr>"
  from assms(1) have wf: "well_formed s" by (simp add: sched_inv_def)
  have "a \<notin> set (all_lists s)"
    using well_formed_actor [OF wf, of a] assms(2) by (auto simp: actor_ok_def split: option.splits)
  then have "actor_ok ?s a"
    using assms(3) by (cases info) (auto simp: actor_ok_def all_lists_def on_current_sched_def)
  moreover have "actor_ok ?s b" if "b \<noteq> a" for b
    by (rule actor_ok_frame [OF well_formed_actor [OF wf, of b]]) (use that in simp_all)
  ultimately have "\<forall>b. actor_ok ?s b" by metis
  with wf have "well_formed ?s" by (simp add: well_formed_def pending_ok_def all_lists_def)
  moreover have "\<not> running ?s b" for b
    using assms(1,3) by (auto simp: sched_inv_def running_def)
  ultimately show ?thesis
    using assms(1) by (simp add: sched_inv_def)
qed

text \<open>The actor and the events that wait for it, before it is told.\<close>

lemma arrived_ok:
  assumes "well_formed s" "infos s a = Some i" "is_migrating i" "sched_id s = migrate_dest i"
    and s': "s' = (if map f (mailbox i) @ pending_events s a = [] then put_pending a else put_ready a)
      (upd_info a (\<lambda>i. i\<lparr>is_migrating := False, mailbox := map f (mailbox i) @ pending_events s a\<rparr>)
        (log_event (Arrived a (map f (mailbox i))) s
          \<lparr>pending_events := (pending_events s)(a := []), actor_count := actor_count s + 1\<rparr>))"
  shows "well_formed s'" "infos s' a = Some (i\<lparr>is_migrating := False, mailbox := map f (mailbox i) @ pending_events s a\<rparr>)"
    "\<And>b. b \<noteq> a \<Longrightarrow> infos s' b = infos s b" "actors_list s' = actors_list s" "\<not> is_running i"
proof -
  let ?mb = "map f (mailbox i) @ pending_events s a"
  let ?i = "i\<lparr>is_migrating := False, mailbox := ?mb\<rparr>"
  from well_formed_actor [OF assms(1), of a] assms(2,3) have out: "a \<notin> set (all_lists s)" "\<not> is_running i" "a < next_id s"
    by (auto simp: actor_ok_def on_current_sched_def)
  show "\<not> is_running i" by (rule out)
  show info: "infos s' a = Some ?i" using assms(2) by (simp add: s')
  show "\<And>b. b \<noteq> a \<Longrightarrow> infos s' b = infos s b" "actors_list s' = actors_list s" by (simp_all add: s')
  have ids: "next_id s' = next_id s" "sched_id s' = sched_id s" by (simp_all add: s')
  have sent: "pending_events s a = ahead a (slog s)"
    using assms(1) by (simp add: well_formed_def pending_ok_def)
  have "waiting_ok s' a ?i"
    using out(1) by (auto simp: s' waiting_ok_def all_lists_def sent)
  then have "actor_ok s' a"
    using info ids assms(4) out(3) by (simp add: actor_ok_def on_current_sched_def)
  moreover have "actor_ok s' b" if "b \<noteq> a" for b
    by (rule actor_ok_frame [OF well_formed_actor [OF assms(1), of b]]) (use that in \<open>auto simp: s'\<close>)
  ultimately have "\<forall>b. actor_ok s' b" by metis
  moreover have "distinct (all_lists s')"
    using assms(1) out(1) by (auto simp: s' well_formed_def all_lists_def)
  moreover have "pending_ok s'"
    using assms(1) by (simp add: s' well_formed_def pending_ok_def)
  ultimately show "well_formed s'" by (simp add: well_formed_def)
qed

lemma register_migrated_actor_ok:
  assumes "register_migrated_actor (sched_call depth prog) prog a
      (log_event (Arrived a (map (finish_migrate_event prog) (mailbox i))) s) = Some s'"
    and "infos s a = Some i" "sched_inv s"
  shows "sched_inv s'"
proof -
  from assms(3) have wf: "well_formed s" by (simp add: sched_inv_def)
  let ?mb = "map (finish_migrate_event prog) (mailbox i) @ pending_events s a"
  let ?s1 = "(if ?mb = [] then put_pending a else put_ready a)
      (upd_info a (\<lambda>i. i\<lparr>is_migrating := False, mailbox := map (finish_migrate_event prog) (mailbox i) @ pending_events s a\<rparr>)
        (log_event (Arrived a (map (finish_migrate_event prog) (mailbox i))) s
          \<lparr>pending_events := (pending_events s)(a := []), actor_count := actor_count s + 1\<rparr>))"
  have same: "upd_info a (\<lambda>j. j\<lparr>is_migrating := False, mailbox := ?mb\<rparr>) t =
      upd_info a (\<lambda>j. j\<lparr>is_migrating := False, mailbox := map (finish_migrate_event prog) (mailbox j) @ pending_events s a\<rparr>) t"
    if "infos t a = Some i" for t :: "('a, 'b) scheduler"
    using that by (simp add: upd_info_def)
  from assms(1,2) have i: "is_migrating i" "sched_id s = migrate_dest i"
    by (auto simp: register_migrated_actor_def split: if_splits)
  from assms(1,2) i have told: "call_outside (sched_call depth prog) prog a On_finish_migrate ?s1 = Some s'"
    by (auto simp: register_migrated_actor_def Let_def same log_event_def)
  note s1 = arrived_ok [where f = "finish_migrate_event prog", OF wf assms(2) i refl]
  have "sched_inv ?s1"
    unfolding sched_inv_def
  proof (intro conjI allI)
    fix b
    show "\<not> running ?s1 b"
      using s1(2,3,5) assms(3) by (cases "b = a") (simp_all only: sched_inv_def running_def, auto)
  qed (use s1(1,4) assms(3) in \<open>simp_all only: sched_inv_def\<close>)
  with sched_inv_keeps [OF actors.call_outside_ok [OF told s1(1)]] show ?thesis by blast
qed

lemma sched_inv_step: "sched_step depth prog s s' \<Longrightarrow> sched_inv s \<Longrightarrow> sched_inv s'"
proof (induction rule: sched_step.induct)
  case (call_sched c s s')
  then have "well_formed s" by (simp add: sched_inv_def)
  from sched_inv_keeps [OF actors.call_ok [OF this call_sched(1)] call_sched(2)] show ?case .
next
  case (mailboxes s s')
  then show ?case
    using actors.run_mailbox_ok [of depth prog s s'] by (simp add: sched_inv_def)
next
  case (elsewhere s a info)
  from elsewhere_ok [OF elsewhere(3) elsewhere(1,2)] show ?case .
next
  case (arrive s a i s')
  from register_migrated_actor_ok [OF arrive(2,1,3)] show ?case .
qed

lemma sched_inv_reachable: "(sched_step depth prog)\<^sup>*\<^sup>* (sched_init sid n) s \<Longrightarrow> sched_inv s"
  by (induction rule: rtranclp_induct) (auto intro: sched_inv_init sched_inv_step)

text \<open>C3: Mailboxes are queues, and no actor is forgotten. Whatever the actors do in their
  callbacks with sends (also such as run the receiver at once, nested ones and sends to
  actors on other schedulers or on their way), new actors here or on another scheduler, stops
  and migrations, the callbacks of a migration included, between two events every actor on
  the scheduler has handled exactly the events it was to handle since it came, once each and
  in order, except for those in its mailbox, and it is in the list of ready actors exactly
  when there are some, and otherwise in the list of pending ones. What it is to handle: the
  events it carried when it arrived, then those that were sent to it on its way here, then
  those sent to it since.\<close>

theorem sched_fifo:
  assumes "(sched_step depth prog)\<^sup>*\<^sup>* (sched_init sid n) s"
    and "infos s a = Some i" and "on_current_sched s i"
  shows "accepted a (slog s) = handled a (slog s) @ mailbox i \<and>
    (a \<in> set (ready_actors s) \<longleftrightarrow> mailbox i \<noteq> []) \<and> (a \<in> set (pending_actors s) \<longleftrightarrow> mailbox i = [])"
proof -
  from sched_inv_reachable [OF assms(1)] have inv: "well_formed s" "\<not> running s a" "actors_list s = []"
    by (simp_all add: sched_inv_def)
  from inv(2) assms(2) have "\<not> is_running i" by (simp add: running_def)
  from well_formed_waiting [OF inv(1) assms(2) this assms(3)] inv(3) show ?thesis
    by (simp add: waiting_ok_def)
qed


subsection \<open>An actor that never runs\<close>

text \<open>Every actor but 1 sends an event to actor 1 and yields whenever it is woken up.\<close>

definition busy_prog :: "(unit, unit) prog" where
  "busy_prog = \<lparr>act = \<lambda>a cb st.
       if a \<noteq> 1 \<and> cb = Wakeup then Send Later 1 (Ev_custom (), 0) (Send Later a (Ev_yield, 0) (Return st))
       else Return st,
     args_start_migrate = \<lambda>_ e. e, args_finish_migrate = \<lambda>e. e\<rparr>"

definition busy_init :: "(unit, unit) scheduler" where
  "busy_init = put_pending 2 (init_actor () False (put_pending 1 (init_actor () False
     (put_pending 0 (init_actor () False (sched_init 0 1))))))"

text \<open>Three actors that were sent one event each.\<close>

definition busy_start :: "(unit, unit) scheduler" where
  "busy_start = add_to_mailbox 2 (Ev_yield, 0) (log_event (Sent 2 (Ev_yield, 0))
     (add_to_mailbox 1 (Ev_custom (), 0) (log_event (Sent 1 (Ev_custom (), 0))
     (add_to_mailbox 0 (Ev_yield, 0) (log_event (Sent 0 (Ev_yield, 0)) busy_init)))))"

fun rounds :: "nat \<Rightarrow> ('e, 's) prog \<Rightarrow> nat \<Rightarrow> ('e, 's) scheduler \<Rightarrow> ('e, 's) scheduler option" where
  "rounds depth prog 0 s = Some s"
| "rounds depth prog (Suc n) s = Option.bind (run_mailbox (sched_call depth prog) prog s) (rounds depth prog n)"

definition idle_here :: "('e, 's) scheduler \<Rightarrow> ('e, 's) actor_info \<Rightarrow> bool" where
  "idle_here s i \<longleftrightarrow> \<not> is_running i \<and> on_current_sched s i \<and> \<not> ai_empty i \<and> \<not> need_start_up i"

definition starving :: "nat \<Rightarrow> (unit, unit) scheduler \<Rightarrow> bool" where
  "starving k s \<longleftrightarrow> (\<exists>i0 i1 i2. infos s 0 = Some i0 \<and> infos s 1 = Some i1 \<and> infos s 2 = Some i2 \<and>
     mailbox i0 = [(Ev_yield, 0)] \<and> mailbox i2 = [(Ev_yield, 0)] \<and> length (mailbox i1) = k \<and>
     idle_here s i0 \<and> idle_here s i1 \<and> idle_here s i2) \<and>
     ready_actors s = [0, 1, 2] \<and> actors_list s = [] \<and> \<not> close_flag s \<and> handled 1 (slog s) = []"

lemma sched_send_later:
  "infos s a = Some i \<Longrightarrow> on_current_sched s i \<Longrightarrow> \<not> close_flag s \<Longrightarrow>
    sched_call depth prog (Call_send Later a ev) s = Some (add_to_mailbox a ev (log_event (Sent a ev) s))"
  by (cases depth) (simp_all add: call_impl_def send_impl_def)

lemma handled_other:
  "a \<noteq> b \<Longrightarrow> handled b (l @ [Handled a e, Sent c e', Sent d e'']) = handled b l"
  by (simp add: handled_def)

lemma busy_flush:
  fixes s :: "(unit, unit) scheduler"
  assumes "infos s a = Some i" "mailbox i = [(Ev_yield, 0)]" "idle_here s i" "a \<noteq> 1"
    and "infos s 1 = Some j" "idle_here s j" "\<not> close_flag s"
  shows "\<exists>s'. flush_mailbox (sched_call depth busy_prog) busy_prog a s = Some s' \<and>
    infos s' = (infos s)(1 := Some (j\<lparr>mailbox := mailbox j @ [(Ev_custom (), 0)]\<rparr>)) \<and>
    actors_list s' = removeAll a (removeAll 1 (actors_list s)) \<and>
    ready_actors s' = removeAll a (removeAll 1 (ready_actors s)) @ [1, a] \<and>
    sched_id s' = sched_id s \<and> close_flag s' = close_flag s \<and> handled 1 (slog s') = handled 1 (slog s)"
proof -
  have j: "\<not> is_running j" "on_current_sched s j" using assms(6) by (simp_all add: idle_here_def)
  have i: "\<not> is_running i" "on_current_sched s i" "\<not> ai_empty i" using assms(3) by (simp_all add: idle_here_def)
  let ?s1 = "log_event (Handled a (Ev_yield, 0)) (upd_info a (\<lambda>i. i\<lparr>is_running := True\<rparr>) s)"
  let ?s2 = "add_to_mailbox 1 (Ev_custom (), 0) (log_event (Sent 1 (Ev_custom (), 0)) ?s1)"
  let ?s3 = "add_to_mailbox a (Ev_yield, 0) (log_event (Sent a (Ev_yield, 0)) ?s2)"
  have 1: "sched_call depth busy_prog (Call_send Later 1 (Ev_custom (), 0)) ?s1 = Some ?s2"
    by (rule sched_send_later [where i = j]) (use assms j in \<open>simp_all add: on_current_sched_def\<close>)
  have 2: "sched_call depth busy_prog (Call_send Later a (Ev_yield, 0)) ?s2 = Some ?s3"
    by (rule sched_send_later [where i = "i\<lparr>is_running := True\<rparr>"])
      (use assms i j in \<open>simp_all add: on_current_sched_def add_to_mailbox_def\<close>)
  have ev: "do_event (sched_call depth busy_prog) busy_prog a (Ev_yield, 0) no_flags ?s1 =
      Some (no_flags, upd_info a (\<lambda>i. i\<lparr>ac_state := ac_state i\<rparr>) ?s3)"
    using assms i 1 2 by (simp add: do_event_def busy_prog_def upd_info_def)
  show ?thesis
    using assms i j ev
    by (auto simp: flush_mailbox_def enter_event_def leave_event_def leave_lists_def add_to_mailbox_def
        no_flags_def upd_info_def handled_other)
qed


lemma starving_round:
  assumes "starving k s"
  shows "\<exists>s'. run_mailbox (sched_call depth busy_prog) busy_prog s = Some s' \<and> starving (k + 2) s'"
proof -
  from assms obtain i0 i1 i2 where i: "infos s 0 = Some i0" "infos s 1 = Some i1" "infos s 2 = Some i2"
    "mailbox i0 = [(Ev_yield, 0)]" "mailbox i2 = [(Ev_yield, 0)]" "length (mailbox i1) = k"
    "idle_here s i0" "idle_here s i1" "idle_here s i2"
    and l: "ready_actors s = [0, 1, 2]" "actors_list s = []" "\<not> close_flag s" "handled 1 (slog s) = []"
    by (auto simp: starving_def)
  let ?c = "(Ev_custom (), 0) :: unit event"
  let ?sa = "s\<lparr>ready_actors := [], actors_list := [1, 2]\<rparr>"
  have here: "idle_here s' i = idle_here s i" if "sched_id s' = sched_id s"
    for s' :: "(unit, unit) scheduler" and i
    using that by (simp add: idle_here_def on_current_sched_def)
  obtain sb where sb: "flush_mailbox (sched_call depth busy_prog) busy_prog 0 ?sa = Some sb"
    "infos sb = (infos s)(1 := Some (i1\<lparr>mailbox := mailbox i1 @ [?c]\<rparr>))"
    "actors_list sb = [2]" "ready_actors sb = [1, 0]" "sched_id sb = sched_id s" "\<not> close_flag sb"
    "handled 1 (slog sb) = []"
    using busy_flush [of ?sa 0 i0 i1 depth] i l here [of ?sa] by auto
  let ?sc = "sb\<lparr>actors_list := []\<rparr>"
  let ?i1 = "i1\<lparr>mailbox := mailbox i1 @ [?c]\<rparr>"
  have idle1: "idle_here s ?i1" using i(8) by (simp add: idle_here_def on_current_sched_def)
  obtain sd where sd: "flush_mailbox (sched_call depth busy_prog) busy_prog 2 ?sc = Some sd"
    "infos sd = (infos s)(1 := Some (?i1\<lparr>mailbox := mailbox ?i1 @ [?c]\<rparr>))"
    "actors_list sd = []" "ready_actors sd = [0, 1, 2]" "sched_id sd = sched_id s" "\<not> close_flag sd"
    "handled 1 (slog sd) = []"
    using busy_flush [of ?sc 2 i2 ?i1 depth] i idle1 sb here [of ?sc] by auto
  have "run_mailbox (sched_call depth busy_prog) busy_prog s = Some sd"
    using l sb(1,3) sd(1,3) by (simp add: run_mailbox_def eval_nat_numeral)
  moreover have "starving (k + 2) sd"
    using i idle1 sd here [of sd] by (simp add: starving_def idle_here_def on_current_sched_def)
  ultimately show ?thesis by blast
qed

lemma starving_start: "starving 1 busy_start"
  by (simp add: starving_def busy_start_def busy_init_def init_actor_def add_to_mailbox_def
      put_pending_def put_ready_def node_remove_def upd_info_def log_event_def sched_init_def
      idle_here_def on_current_sched_def handled_def Let_def)

lemma starving_rounds:
  "starving k s \<Longrightarrow> \<exists>s'. rounds depth busy_prog n s = Some s' \<and> starving (k + 2 * n) s'"
proof (induction n arbitrary: k s)
  case 0
  then show ?case by simp
next
  case (Suc n)
  from starving_round [OF Suc.prems] obtain s1 where
    s1: "run_mailbox (sched_call depth busy_prog) busy_prog s = Some s1" "starving (k + 2) s1" by blast
  from Suc.IH [OF s1(2)] s1(1) show ?case by (auto simp: add.commute add.left_commute)
qed

text \<open>C23: A ready actor can wait for ever. Three actors are ready; two of them, whenever they
  run, send an event to the one that is queued between them and yield. The lists are worked
  off in order and every round runs all that it takes out, yet after any number of rounds
  the actor in the middle has handled nothing and its mailbox has grown by two events in
  each round: an event that is added to the mailbox of an actor that waits for its turn
  moves the actor to the end of the list of the next round.\<close>

theorem ready_actor_starves:
  "\<exists>s i. rounds depth busy_prog n busy_start = Some s \<and> infos s 1 = Some i \<and>
     length (mailbox i) = 2 * n + 1 \<and> handled 1 (slog s) = [] \<and> 1 \<in> set (ready_actors s)"
  using starving_rounds [OF starving_start, of depth n] by (auto simp: starving_def)

text \<open>The three actors are one of the reachable states of the scheduler.\<close>

lemma busy_init_reachable: "(sched_step depth busy_prog)\<^sup>*\<^sup>* (sched_init 0 1) busy_init"
proof -
  let ?s1 = "put_pending 0 (init_actor () False (sched_init 0 1)) :: (unit, unit) scheduler"
  let ?s2 = "put_pending 1 (init_actor () False ?s1)"
  have step: "sched_step depth busy_prog s (put_pending a (init_actor () False s))" if "a = next_id s"
    for s :: "(unit, unit) scheduler" and a
    by (rule call_sched [where c = "Call_create () False (-1)"], cases depth)
      (simp_all add: that call_impl_def register_actor_def Let_def)
  have "sched_step depth busy_prog (sched_init 0 1) ?s1" "sched_step depth busy_prog ?s1 ?s2"
    "sched_step depth busy_prog ?s2 busy_init"
    unfolding busy_init_def by (rule step, simp add: sched_init_def)+
  then show ?thesis by (meson rtranclp.rtrancl_into_rtrancl rtranclp.rtrancl_refl)
qed


lemma busy_start_reachable: "(sched_step depth busy_prog)\<^sup>*\<^sup>* (sched_init 0 1) busy_start"
proof -
  let ?later = "\<lambda>a ev s :: (unit, unit) scheduler. add_to_mailbox a ev (log_event (Sent a ev) s)"
  let ?s1 = "?later 0 (Ev_yield, 0) busy_init"
  let ?s2 = "?later 1 (Ev_custom (), 0) ?s1"
  note defs = busy_init_def init_actor_def put_pending_def sched_init_def on_current_sched_def Let_def
    add_to_mailbox_def put_ready_def node_remove_def upd_info_def log_event_def
  have step: "sched_step depth busy_prog s (?later a ev s)"
    if "infos s a = Some i" "on_current_sched s i" "\<not> close_flag s" for s a ev i
    by (rule call_sched [OF sched_send_later [OF that]])
  have "sched_step depth busy_prog busy_init ?s1"
    by (rule step, simp add: defs) (simp add: defs)+
  moreover have "sched_step depth busy_prog ?s1 ?s2"
    by (rule step, simp add: defs) (simp add: defs)+
  moreover have "sched_step depth busy_prog ?s2 (?later 2 (Ev_yield, 0) ?s2)"
    by (rule step, simp add: defs) (simp add: defs)+
  ultimately show ?thesis
    using busy_init_reachable unfolding busy_start_def by (meson rtranclp.rtrancl_into_rtrancl)
qed

theorem sched_fifo_witness:
  "\<exists>s i. run_mailbox (sched_call 0 busy_prog) busy_prog busy_start = Some s \<and> infos s 0 = Some i \<and>
    accepted 0 (slog s) = handled 0 (slog s) @ mailbox i \<and>
    (0 \<in> set (ready_actors s) \<longleftrightarrow> mailbox i \<noteq> []) \<and> (0 \<in> set (pending_actors s) \<longleftrightarrow> mailbox i = [])"
proof -
  obtain s where s: "run_mailbox (sched_call 0 busy_prog) busy_prog busy_start = Some s" "starving (1 + 2) s"
    using starving_round [OF starving_start, of 0] by blast
  then obtain i where i: "infos s 0 = Some i" "idle_here s i"
    by (auto simp: starving_def)
  then have here: "on_current_sched s i" by (simp add: idle_here_def)
  have "(sched_step 0 busy_prog)\<^sup>*\<^sup>* (sched_init 0 1) s"
    using busy_start_reachable mailboxes [OF s(1)] by (rule rtranclp.rtrancl_into_rtrancl)
  from sched_fifo [OF this i(1) here] s(1) i(1) show ?thesis by blast
qed

end
