(* ===== verification/ChainBuffer.thy ===== *)
theory ChainBuffer
  imports Prelude
begin

text \<open>
  Chains of buffers (\<^verbatim>\<open>utils/buffer.h\<close>, \<^verbatim>\<open>buffer.cpp\<close>): one writer
  appends to the last node of a linked list, readers iterate over the nodes from the
  first. The list only grows, so it is the list of its nodes and a pointer to a node is
  its index. A node written by the chain's own \<^verbatim>\<open>BufferWriter\<close> is read through a slice
  that is synchronised with the writer; a node that was appended as a \<^verbatim>\<open>BufferSlice\<close>
  is fixed, and its bytes are constant. Reference counts and the release of memory are left
  out. \<open>None\<close> is a failed \<^verbatim>\<open>CHECK\<close>.
\<close>

subsection \<open>Nodes and the writer\<close>

record chain_node =
  cn_data :: string
  cn_size :: nat
  cn_sync :: bool
  cn_writer :: bool

text \<open>\<open>cw_null\<close> is a null \<^verbatim>\<open>writer_\<close>; otherwise it writes into the last node.\<close>

record chain_writer =
  cw_nodes :: "chain_node list"
  cw_null :: bool

definition buffer_raw_size :: "nat \<Rightarrow> nat" where
  "buffer_raw_size n = (n + 7) div 8 * 8"

definition writer_node :: "nat \<Rightarrow> chain_node" where
  "writer_node n = \<lparr>cn_data = [], cn_size = buffer_raw_size (if n < 512 then 512 else n),
     cn_sync = True, cn_writer = True\<rparr>"

definition slice_node :: "string \<Rightarrow> chain_node" where
  "slice_node sl = \<lparr>cn_data = sl, cn_size = length sl, cn_sync = False, cn_writer = True\<rparr>"

definition new_chain :: chain_writer where
  "new_chain = \<lparr>cw_nodes = [writer_node 0], cw_null = False\<rparr>"

text \<open>The old tail is linked to the new one and then released.\<close>

definition link_tail :: "chain_node \<Rightarrow> chain_node list \<Rightarrow> chain_node list" where
  "link_tail new_tail ns = butlast ns @ [(last ns)\<lparr>cn_writer := False\<rparr>, new_tail]"

text \<open>The size of the slice that can be written.\<close>

definition prepare_append_inplace :: "chain_writer \<Rightarrow> nat" where
  "prepare_append_inplace w =
     (if cw_null w then 0 else cn_size (last (cw_nodes w)) - length (cn_data (last (cw_nodes w))))"

definition prepare_append_alloc :: "nat \<Rightarrow> chain_writer \<Rightarrow> nat \<times> chain_writer" where
  "prepare_append_alloc hint w =
     (let new_tail = writer_node (if hint < 2 ^ 10 then 2 ^ 12 else hint);
          w = \<lparr>cw_nodes = link_tail new_tail (cw_nodes w), cw_null = False\<rparr>
      in (prepare_append_inplace w, w))"

definition prepare_append :: "nat \<Rightarrow> chain_writer \<Rightarrow> nat \<times> chain_writer" where
  "prepare_append hint w =
     (let res = prepare_append_inplace w
      in if res = 0 then prepare_append_alloc hint w else (res, w))"

definition prepare_append_at_least :: "nat \<Rightarrow> chain_writer \<Rightarrow> nat \<times> chain_writer" where
  "prepare_append_at_least n w =
     (let res = prepare_append_inplace w
      in if res < n then prepare_append_alloc n w else (res, w))"

text \<open>The bytes are written into the prepared slice and then confirmed.\<close>

definition confirm_append :: "string \<Rightarrow> chain_writer \<Rightarrow> chain_writer option" where
  "confirm_append bytes w =
     (if cw_null w then (if bytes = [] then Some w else None)
      else
        let tail = last (cw_nodes w) in
        if length (cn_data tail) + length bytes \<le> cn_size tail
        then Some (w\<lparr>cw_nodes := butlast (cw_nodes w) @ [tail\<lparr>cn_data := cn_data tail @ bytes\<rparr>]\<rparr>)
        else None)"

lemma buffer_raw_size_ge: "n \<le> buffer_raw_size n"
  unfolding buffer_raw_size_def by linarith

lemma prepare_append_pos: "0 < fst (prepare_append hint w)"
proof -
  have "0 < cn_size (writer_node n)" for n
    using buffer_raw_size_ge [of "if n < 512 then 512 else n"] by (auto simp: writer_node_def split: if_splits)
  then show ?thesis
    by (auto simp: prepare_append_def prepare_append_alloc_def prepare_append_inplace_def link_tail_def Let_def
        writer_node_def)
qed

function append_bytes :: "string \<Rightarrow> nat \<Rightarrow> chain_writer \<Rightarrow> chain_writer option" where
  "append_bytes sl hint w =
     (if sl = [] then Some w
      else
        let (ready, w) = prepare_append (max (length sl) hint) w; shift = min ready (length sl)
        in Option.bind (confirm_append (take shift sl) w) (append_bytes (drop shift sl) hint))"
  by pat_completeness auto
termination
proof (relation "measure (\<lambda>(sl, _, _). length sl)")
  fix sl :: string and hint w x xa y xb a
  assume "sl \<noteq> []" "x = prepare_append (max (length sl) hint) w" "(xa, y) = x" "xb = min xa (length sl)"
  then have "0 < xb"
    using prepare_append_pos [of "max (length sl) hint" w] by (auto dest: sym)
  with \<open>sl \<noteq> []\<close> show "((drop xb sl, hint, a), sl, hint, w) \<in> measure (\<lambda>(sl, _, _). length sl)"
    by auto
qed simp

declare append_bytes.simps [simp del]

definition append_slice :: "string \<Rightarrow> chain_writer \<Rightarrow> chain_writer option" where
  "append_slice sl w =
     (if length sl < 2 ^ 8 \<or> prepare_append_inplace w \<ge> length sl then append_bytes sl 0 w
      else Some \<lparr>cw_nodes = link_tail (slice_node sl) (cw_nodes w), cw_null = True\<rparr>)"

text \<open>The destructor of the writer releases the tail.\<close>

definition close_writer :: "chain_writer \<Rightarrow> chain_node list" where
  "close_writer w = butlast (cw_nodes w) @ [(last (cw_nodes w))\<lparr>cn_writer := False\<rparr>]"

subsection \<open>Iterators\<close>

text \<open>\<open>it_begin\<close> and \<open>it_end\<close> bound the slice \<^verbatim>\<open>reader_\<close> in the bytes of the head.\<close>

record chain_iter =
  it_head :: "nat option"
  it_begin :: nat
  it_end :: nat
  it_sync :: bool
  it_offset :: nat

definition load_head :: "chain_node list \<Rightarrow> nat \<Rightarrow> chain_iter \<Rightarrow> chain_iter" where
  "load_head ns h it = it\<lparr>it_head := Some h, it_begin := 0,
     it_end := (if cn_sync (ns ! h) then 0 else length (cn_data (ns ! h))), it_sync := cn_sync (ns ! h)\<rparr>"

definition new_iter :: "chain_node list \<Rightarrow> chain_iter" where
  "new_iter ns = load_head ns 0 \<lparr>it_head = None, it_begin = 0, it_end = 0, it_sync = False, it_offset = 0\<rparr>"

definition iter_slice :: "chain_node list \<Rightarrow> chain_iter \<Rightarrow> string" where
  "iter_slice ns it =
     (case it_head it of None \<Rightarrow> [] | Some h \<Rightarrow> drop (it_begin it) (take (it_end it) (cn_data (ns ! h))))"

definition reader_sync :: "chain_node list \<Rightarrow> nat \<Rightarrow> chain_iter \<Rightarrow> chain_iter" where
  "reader_sync ns h it = it\<lparr>it_end := length (cn_data (ns ! h))\<rparr>"

function iter_prepare_read :: "chain_node list \<Rightarrow> chain_iter \<Rightarrow> string \<times> chain_iter" where
  "iter_prepare_read ns it =
     (case it_head it of
        None \<Rightarrow> ([], it)
      | Some h \<Rightarrow>
          let res = iter_slice ns it in
          if res \<noteq> [] then (res, it)
          else
            let has_writer = cn_writer (ns ! h);
                it = (if it_sync it then reader_sync ns h it else it);
                res = iter_slice ns it in
            if res \<noteq> [] then (res, it)
            else if has_writer then ([], it)
            else if h + 1 < length ns then iter_prepare_read ns (load_head ns (h + 1) it)
            else ([], it\<lparr>it_head := None\<rparr>))"
  by pat_completeness auto
termination
  by (relation "measure (\<lambda>(ns, it). case it_head it of None \<Rightarrow> 0 | Some h \<Rightarrow> length ns - h)")
    (auto simp: load_head_def Let_def)

declare iter_prepare_read.simps [simp del]

definition iter_confirm_read :: "nat \<Rightarrow> chain_iter \<Rightarrow> chain_iter option" where
  "iter_confirm_read n it =
     (if it_begin it + n \<le> it_end it
      then Some (it\<lparr>it_offset := it_offset it + n, it_begin := it_begin it + n\<rparr>) else None)"


partial_function (option) iter_advance_till_end :: "chain_node list \<Rightarrow> chain_iter \<Rightarrow> chain_iter option" where
  "iter_advance_till_end ns it =
     (let (ready, it) = iter_prepare_read ns it
      in if ready = [] then Some it
         else Option.bind (iter_confirm_read (length ready) it) (iter_advance_till_end ns))"

declare iter_advance_till_end.simps [code]

text \<open>\<open>dest_size\<close> is the size of the destination; the result is the number of bytes skipped,
  the bytes copied and the iterator.\<close>

partial_function (option) iter_advance ::
    "chain_node list \<Rightarrow> nat \<Rightarrow> nat \<Rightarrow> nat \<Rightarrow> string \<Rightarrow> chain_iter \<Rightarrow> (nat \<times> string \<times> chain_iter) option" where
  "iter_advance ns offset dest_size skipped dest it =
     (if offset = 0 then Some (skipped, dest, it)
      else
        let (ready, it) = iter_prepare_read ns it
        in if ready = [] then Some (skipped, dest, it)
           else
             let ready = take offset ready; copied = take dest_size ready
             in Option.bind (iter_confirm_read (length ready) it)
                  (iter_advance ns (offset - length ready) (dest_size - length copied)
                    (skipped + length ready) (dest @ copied)))"

declare iter_advance.simps [code]

definition iter_read_as_buffer_slice :: "chain_node list \<Rightarrow> nat \<Rightarrow> chain_iter \<Rightarrow> (string \<times> chain_iter) option" where
  "iter_read_as_buffer_slice ns limit it =
     (let it = snd (iter_prepare_read ns it); res = take limit (iter_slice ns it)
      in map_option (Pair res) (iter_confirm_read (length res) it))"

subsection \<open>Readers\<close>

record chain_reader =
  cr_begin :: chain_iter
  cr_end :: chain_iter
  cr_sync :: bool

definition null_iter :: chain_iter where
  "null_iter = \<lparr>it_head = None, it_begin = 0, it_end = 0, it_sync = False, it_offset = 0\<rparr>"

definition null_reader :: chain_reader where
  "null_reader = \<lparr>cr_begin = null_iter, cr_end = null_iter, cr_sync = True\<rparr>"

definition extract_reader :: "chain_node list \<Rightarrow> chain_reader option" where
  "extract_reader ns =
     map_option (\<lambda>e. \<lparr>cr_begin = new_iter ns, cr_end = e, cr_sync = True\<rparr>) (iter_advance_till_end ns (new_iter ns))"

definition reader_size :: "chain_reader \<Rightarrow> nat" where
  "reader_size r = it_offset (cr_end r) - it_offset (cr_begin r)"

definition sync_with_writer :: "chain_node list \<Rightarrow> chain_reader \<Rightarrow> chain_reader option" where
  "sync_with_writer ns r =
     (if cr_sync r then map_option (\<lambda>e. r\<lparr>cr_end := e\<rparr>) (iter_advance_till_end ns (cr_end r)) else Some r)"

definition reader_prepare_read :: "chain_node list \<Rightarrow> chain_reader \<Rightarrow> string \<times> chain_reader" where
  "reader_prepare_read ns r =
     (let (res, it) = iter_prepare_read ns (cr_begin r); r = r\<lparr>cr_begin := it\<rparr>
      in (take (reader_size r) res, r))"

definition reader_confirm_read :: "nat \<Rightarrow> chain_reader \<Rightarrow> chain_reader option" where
  "reader_confirm_read n r =
     (if n \<le> reader_size r then map_option (\<lambda>it. r\<lparr>cr_begin := it\<rparr>) (iter_confirm_read n (cr_begin r)) else None)"

definition reader_advance :: "chain_node list \<Rightarrow> nat \<Rightarrow> nat \<Rightarrow> chain_reader \<Rightarrow> (nat \<times> string \<times> chain_reader) option" where
  "reader_advance ns offset dest_size r =
     (if offset \<le> reader_size r
      then map_option (\<lambda>(skipped, dest, it). (skipped, dest, r\<lparr>cr_begin := it\<rparr>))
        (iter_advance ns offset dest_size 0 [] (cr_begin r))
      else None)"

definition reader_advance_end :: "chain_node list \<Rightarrow> nat \<Rightarrow> chain_reader \<Rightarrow> chain_reader option" where
  "reader_advance_end ns n r =
     map_option (\<lambda>(_, _, it). r\<lparr>cr_end := it\<rparr>) (iter_advance ns n 0 0 [] (cr_end r))"

text \<open>The head that is cut off and the rest.\<close>

definition cut_head_at :: "chain_iter \<Rightarrow> chain_reader \<Rightarrow> chain_reader \<times> chain_reader" where
  "cut_head_at pos r = (\<lparr>cr_begin = cr_begin r, cr_end = pos, cr_sync = False\<rparr>, r\<lparr>cr_begin := pos\<rparr>)"

definition cut_head :: "chain_node list \<Rightarrow> nat \<Rightarrow> chain_reader \<Rightarrow> (chain_reader \<times> chain_reader) option" where
  "cut_head ns offset r =
     (if offset \<le> reader_size r
      then map_option (\<lambda>(_, _, it). cut_head_at it r) (iter_advance ns offset 0 0 [] (cr_begin r))
      else None)"

definition reader_read_as_buffer_slice :: "chain_node list \<Rightarrow> nat \<Rightarrow> chain_reader \<Rightarrow> (string \<times> chain_reader) option" where
  "reader_read_as_buffer_slice ns limit r =
     map_option (\<lambda>(res, it). (res, r\<lparr>cr_begin := it\<rparr>))
       (iter_read_as_buffer_slice ns (min limit (reader_size r)) (cr_begin r))"

definition move_as_buffer_slice :: "chain_node list \<Rightarrow> chain_reader \<Rightarrow> (string \<times> chain_reader) option" where
  "move_as_buffer_slice ns r =
     (let n = reader_size r in
      if n \<le> it_end (cr_begin r) - it_begin (cr_begin r)
      then map_option (\<lambda>(res, _). (res, null_reader)) (iter_read_as_buffer_slice ns n (cr_begin r))
      else map_option (\<lambda>(_, dest, _). (dest, null_reader)) (reader_advance ns n n r))"

text \<open>Appending what another chain holds, as the slices it consists of.\<close>

partial_function (option) append_reader ::
    "chain_node list \<Rightarrow> chain_reader \<Rightarrow> chain_writer \<Rightarrow> (chain_reader \<times> chain_writer) option" where
  "append_reader ns r w =
     (if reader_size r = 0 then Some (r, w)
      else Option.bind (reader_read_as_buffer_slice ns (2 ^ 64 - 1) r) (\<lambda>(sl, r).
        Option.bind (append_slice sl w) (append_reader ns r)))"

declare append_reader.simps [code]

subsection \<open>The bytes of a chain\<close>

definition chain_bytes :: "chain_node list \<Rightarrow> string" where
  "chain_bytes ns = concat (map cn_data ns)"

text \<open>All nodes but the last are released.\<close>

definition chain_ok :: "chain_node list \<Rightarrow> bool" where
  "chain_ok ns \<longleftrightarrow> ns \<noteq> [] \<and> (\<forall>n \<in> set (butlast ns). \<not> cn_writer n)"

definition node_start :: "chain_node list \<Rightarrow> nat \<Rightarrow> nat" where
  "node_start ns h = length (chain_bytes (take h ns))"

definition iter_ok :: "chain_node list \<Rightarrow> chain_iter \<Rightarrow> bool" where
  "iter_ok ns it \<longleftrightarrow>
     (case it_head it of
        None \<Rightarrow> it_offset it = length (chain_bytes ns) \<and> it_begin it = it_end it
      | Some h \<Rightarrow> h < length ns \<and> it_begin it \<le> it_end it \<and> it_end it \<le> length (cn_data (ns ! h)) \<and>
          it_sync it = cn_sync (ns ! h) \<and> (\<not> it_sync it \<longrightarrow> it_end it = length (cn_data (ns ! h))) \<and>
          it_offset it = node_start ns h + it_begin it)"

definition iter_rest :: "chain_node list \<Rightarrow> chain_iter \<Rightarrow> string" where
  "iter_rest ns it = drop (it_offset it) (chain_bytes ns)"

lemma chain_bytes_simps [simp]:
  "chain_bytes [] = []" "chain_bytes (n # ns) = cn_data n @ chain_bytes ns"
  "chain_bytes (ns @ ns') = chain_bytes ns @ chain_bytes ns'"
  by (simp_all add: chain_bytes_def)

lemma chain_bytes_split: "h < length ns \<Longrightarrow>
    chain_bytes ns = chain_bytes (take h ns) @ cn_data (ns ! h) @ chain_bytes (drop (h + 1) ns)"
  using id_take_nth_drop [of h ns] chain_bytes_simps(2,3) by (metis Suc_eq_plus1)

lemma node_start_Suc: "h < length ns \<Longrightarrow> node_start ns (h + 1) = node_start ns h + length (cn_data (ns ! h))"
  by (simp add: node_start_def take_Suc_conv_app_nth)

lemma node_start_0 [simp]: "node_start ns 0 = 0"
  by (simp add: node_start_def)

lemma node_start_le: "h \<le> length ns \<Longrightarrow> node_start ns h \<le> length (chain_bytes ns)"
  using chain_bytes_simps(3) [of "take h ns" "drop h ns"] by (simp add: node_start_def)

lemma node_start_length: "node_start ns (length ns) = length (chain_bytes ns)"
  by (simp add: node_start_def)


subsection \<open>Iterators read the bytes in order\<close>

lemma iter_rest_at:
  assumes "iter_ok ns it" "it_head it = Some h"
  shows "iter_rest ns it = drop (it_begin it) (cn_data (ns ! h)) @ chain_bytes (drop (h + 1) ns)"
proof -
  from assms have h: "h < length ns" "it_begin it \<le> length (cn_data (ns ! h))"
    "it_offset it = length (chain_bytes (take h ns)) + it_begin it"
    by (auto simp: iter_ok_def node_start_def)
  show ?thesis
    unfolding iter_rest_def using h by (subst chain_bytes_split [OF h(1)]) simp
qed

lemma iter_slice_prefix:
  assumes "iter_ok ns it"
  shows "iter_slice ns it = take (it_end it - it_begin it) (iter_rest ns it) \<and>
    length (iter_slice ns it) = (if it_head it = None then 0 else it_end it - it_begin it)"
proof (cases "it_head it")
  case None
  with assms show ?thesis by (simp add: iter_slice_def iter_ok_def)
next
  case (Some h)
  with assms have "it_begin it \<le> it_end it" "it_end it \<le> length (cn_data (ns ! h))"
    by (auto simp: iter_ok_def)
  then show ?thesis
    using Some by (auto simp: iter_slice_def iter_rest_at [OF assms Some] drop_take)
qed

lemma iter_ok_load_head:
  assumes "h < length ns" "it_offset it = node_start ns h"
  shows "iter_ok ns (load_head ns h it)"
  using assms by (simp add: iter_ok_def load_head_def)

lemma iter_prepare_read_ok:
  "iter_ok ns it \<Longrightarrow> chain_ok ns \<Longrightarrow> iter_prepare_read ns it = (res, it') \<Longrightarrow>
    iter_ok ns it' \<and> it_offset it' = it_offset it \<and> res = iter_slice ns it' \<and>
    (res = [] \<longleftrightarrow> iter_rest ns it = []) \<and>
    (it_head it \<noteq> None \<and> cn_writer (last ns) \<longrightarrow> it_head it' \<noteq> None)"
proof (induction ns it rule: iter_prepare_read.induct)
  case (1 ns it)
  show ?case
  proof (cases "it_head it")
    case None
    with 1(4) have "res = []" "it' = it"
      by (subst (asm) iter_prepare_read.simps; simp)+
    with None 1(2) show ?thesis by (simp add: iter_slice_def iter_ok_def iter_rest_def)
  next
    case (Some h)
    show ?thesis
    proof (cases "iter_slice ns it = []")
      case False
      with 1(4) Some have "res = iter_slice ns it" "it' = it"
        by (subst (asm) iter_prepare_read.simps; simp add: Let_def)+
      with False 1(2) iter_slice_prefix [OF 1(2)] show ?thesis by auto
    next
      case True
      define it1 where "it1 = (if it_sync it then reader_sync ns h it else it)"
      have same: "it_head it1 = Some h" "it_offset it1 = it_offset it" "it_sync it1 = it_sync it"
        using Some by (simp_all add: it1_def reader_sync_def)
      have ok1: "iter_ok ns it1" and end1: "it_end it1 = length (cn_data (ns ! h))"
        using 1(2) Some by (auto simp: it1_def reader_sync_def iter_ok_def)
      have rest1: "iter_rest ns it1 = iter_rest ns it" by (simp add: iter_rest_def same)
      from Some 1(2) have h: "h < length ns" by (simp add: iter_ok_def)
      have eq: "iter_prepare_read ns it =
          (if iter_slice ns it1 \<noteq> [] then (iter_slice ns it1, it1)
           else if cn_writer (ns ! h) then ([], it1)
           else if h + 1 < length ns then iter_prepare_read ns (load_head ns (h + 1) it1)
           else ([], it1\<lparr>it_head := None\<rparr>))"
        using Some True by (subst iter_prepare_read.simps) (simp add: Let_def it1_def)
      show ?thesis
      proof (cases "iter_slice ns it1 = []")
        case False
        with 1(4) eq have "res = iter_slice ns it1" "it' = it1" by auto
        with False ok1 same iter_slice_prefix [OF ok1] rest1 show ?thesis by auto
      next
        case empty: True
        have "it_begin it1 = length (cn_data (ns ! h))"
          using iter_slice_prefix [OF ok1] empty same(1) end1 ok1 by (auto simp: iter_ok_def)
        then have off: "it_offset it1 = node_start ns (h + 1)" and begin1: "it_begin it1 = it_end it1"
          using ok1 same(1) node_start_Suc [OF h] end1 by (auto simp: iter_ok_def)
        show ?thesis
        proof (cases "h + 1 < length ns")
          case True
          then have "ns ! h \<in> set (butlast ns)"
            by (metis in_set_conv_nth length_butlast less_diff_conv nth_butlast)
          with 1(3) have nw: "\<not> cn_writer (ns ! h)" by (auto simp: chain_ok_def)
          then have rec: "iter_prepare_read ns (load_head ns (h + 1) it1) = (res, it')"
            using 1(4) eq empty True by simp
          have ok2: "iter_ok ns (load_head ns (h + 1) it1)"
            by (rule iter_ok_load_head [OF True off])
          have IH: "iter_ok ns it' \<and> it_offset it' = it_offset (load_head ns (h + 1) it1) \<and> res = iter_slice ns it' \<and>
              (res = [] \<longleftrightarrow> iter_rest ns (load_head ns (h + 1) it1) = []) \<and>
              (it_head (load_head ns (h + 1) it1) \<noteq> None \<and> cn_writer (last ns) \<longrightarrow> it_head it' \<noteq> None)"
            by (rule 1(1) [OF Some refl _ refl refl refl _ _ True _ 1(3), folded it1_def])
              (use \<open>iter_slice ns it = []\<close> empty nw ok2 rec in auto)
          have "iter_rest ns (load_head ns (h + 1) it1) = iter_rest ns it"
            "it_offset (load_head ns (h + 1) it1) = it_offset it"
            "it_head (load_head ns (h + 1) it1) \<noteq> None"
            by (simp_all add: load_head_def iter_rest_def same)
          with IH show ?thesis by auto
        next
          case False
          with h have hl: "h + 1 = length ns" by simp
          then have all: "it_offset it = length (chain_bytes ns)"
            using off same node_start_length by metis
          then have none: "iter_rest ns it = []" by (simp add: iter_rest_def)
          have "ns \<noteq> []" using h by auto
          then have last: "last ns = ns ! h"
            by (simp add: last_conv_nth flip: hl)
          show ?thesis
          proof (cases "cn_writer (ns ! h)")
            case True
            with 1(4) eq empty have "res = []" "it' = it1" by simp_all
            with ok1 same none empty show ?thesis by simp
          next
            case nw: False
            with 1(4) eq empty False have "res = []" "it' = it1\<lparr>it_head := None\<rparr>" by simp_all
            with all same none begin1 nw last show ?thesis
              by (simp add: iter_ok_def iter_slice_def)
          qed
        qed
      qed
    qed
  qed
qed

lemma iter_confirm_read_ok:
  assumes "iter_ok ns it" "n \<le> length (iter_slice ns it)"
  shows "\<exists>it'. iter_confirm_read n it = Some it' \<and> iter_ok ns it' \<and> it_offset it' = it_offset it + n \<and>
    it_head it' = it_head it"
proof -
  have "it_begin it + n \<le> it_end it"
    using assms iter_slice_prefix [OF assms(1)]
    by (cases "it_head it") (auto simp: iter_ok_def)
  moreover have "n = 0" if "it_head it = None"
    using assms(2) that by (simp add: iter_slice_def)
  ultimately show ?thesis
    using assms(1) by (auto simp: iter_confirm_read_def iter_ok_def split: option.splits)
qed

lemma iter_slice_le: "iter_ok ns it \<Longrightarrow> length (iter_slice ns it) \<le> length (iter_rest ns it)"
  by (simp add: iter_slice_prefix)

lemma iter_rest_advance: "it_offset it' = it_offset it + n \<Longrightarrow> iter_rest ns it' = drop n (iter_rest ns it)"
  by (simp add: iter_rest_def add.commute)

text \<open>An iterator that has not run past the last node while the chain grows.\<close>

definition iter_live :: "chain_node list \<Rightarrow> chain_iter \<Rightarrow> bool" where
  "iter_live ns it \<longleftrightarrow> iter_ok ns it \<and> (cn_writer (last ns) \<longrightarrow> it_head it \<noteq> None)"

lemma iter_prepare_read_live:
  assumes "iter_live ns it" "chain_ok ns" "iter_prepare_read ns it = (res, it')"
  shows "iter_live ns it' \<and> it_offset it' = it_offset it \<and> res = iter_slice ns it' \<and>
    (res = [] \<longleftrightarrow> iter_rest ns it = [])"
  using iter_prepare_read_ok [OF _ assms(2,3)] assms(1) by (auto simp: iter_live_def)

lemma iter_confirm_read_live:
  assumes "iter_live ns it" "n \<le> length (iter_slice ns it)"
  shows "\<exists>it'. iter_confirm_read n it = Some it' \<and> iter_live ns it' \<and> it_offset it' = it_offset it + n"
  using iter_confirm_read_ok [of ns it n] assms by (auto simp: iter_live_def)

lemma iter_advance_till_end_ok:
  assumes "chain_ok ns"
  shows "iter_live ns it \<Longrightarrow>
    \<exists>it'. iter_advance_till_end ns it = Some it' \<and> iter_live ns it' \<and> it_offset it' = it_offset it + length (iter_rest ns it)"
proof (induction "length (iter_rest ns it)" arbitrary: it rule: less_induct)
  case less
  obtain res it1 where pr: "iter_prepare_read ns it = (res, it1)" by fastforce
  note p = iter_prepare_read_live [OF less.prems assms pr]
  show ?case
  proof (cases "res = []")
    case True
    with pr p show ?thesis by (subst iter_advance_till_end.simps) simp
  next
    case False
    from iter_confirm_read_live [of ns it1 "length res"] p obtain it2 where
      it2: "iter_confirm_read (length res) it1 = Some it2" "iter_live ns it2" "it_offset it2 = it_offset it + length res"
      by auto
    have rest2: "iter_rest ns it2 = drop (length res) (iter_rest ns it)"
      by (rule iter_rest_advance [OF it2(3)])
    have "length res \<le> length (iter_rest ns it)"
      using p iter_slice_le [of ns it1] by (simp add: iter_live_def iter_rest_def)
    then have "length (iter_rest ns it2) < length (iter_rest ns it)"
      using False by (cases res) (simp_all add: rest2)
    with rest2 \<open>length res \<le> length (iter_rest ns it)\<close> less.hyps [OF _ it2(2)] obtain it3 where
      "iter_advance_till_end ns it2 = Some it3" "iter_live ns it3"
      "it_offset it3 = it_offset it + length (iter_rest ns it)"
      using it2(3) by auto
    with pr False it2(1) show ?thesis by (subst iter_advance_till_end.simps) simp
  qed
qed

lemma iter_advance_ok:
  assumes "chain_ok ns"
  shows "iter_live ns it \<Longrightarrow>
    \<exists>it'. iter_advance ns k d skipped dest it =
        Some (skipped + min k (length (iter_rest ns it)), dest @ take d (take k (iter_rest ns it)), it') \<and>
      iter_live ns it' \<and> it_offset it' = it_offset it + min k (length (iter_rest ns it))"
proof (induction k arbitrary: d skipped dest it rule: less_induct)
  case (less k)
  show ?case
  proof (cases "k = 0")
    case True
    with less.prems show ?thesis by (subst iter_advance.simps) simp
  next
    case k: False
    obtain res it1 where pr: "iter_prepare_read ns it = (res, it1)" by fastforce
    note p = iter_prepare_read_live [OF less.prems assms pr]
    show ?thesis
    proof (cases "res = []")
      case True
      with pr p k show ?thesis by (subst iter_advance.simps) simp
    next
      case False
      let ?ready = "take k res"
      have "res = take (it_end it1 - it_begin it1) (iter_rest ns it)"
        using p iter_slice_prefix [of ns it1] by (simp add: iter_live_def iter_rest_def)
      then have res: "res = take (length res) (iter_rest ns it)" and len: "length res \<le> length (iter_rest ns it)"
        by (metis length_take min.commute take_all_iff take_take linorder_le_cases, metis length_take min.cobounded1)
      from iter_confirm_read_live [of ns it1 "length ?ready"] p obtain it2 where
        it2: "iter_confirm_read (length ?ready) it1 = Some it2" "iter_live ns it2"
          "it_offset it2 = it_offset it + length ?ready"
        by auto
      have rest2: "iter_rest ns it2 = drop (length ?ready) (iter_rest ns it)"
        by (rule iter_rest_advance [OF it2(3)])
      have pos: "0 < length ?ready" using False k by simp
      have split: "iter_rest ns it = res @ drop (length res) (iter_rest ns it)"
        using res by (metis append_take_drop_id)
      from less.IH [OF _ it2(2), of "k - length ?ready" "d - length (take d ?ready)" "skipped + length ?ready"
          "dest @ take d ?ready"] pos k obtain it3 where
        it3: "iter_advance ns (k - length ?ready) (d - length (take d ?ready)) (skipped + length ?ready) (dest @ take d ?ready) it2 =
          Some (skipped + length ?ready + min (k - length ?ready) (length (iter_rest ns it2)),
            (dest @ take d ?ready) @ take (d - length (take d ?ready)) (take (k - length ?ready) (iter_rest ns it2)), it3)"
        "iter_live ns it3" "it_offset it3 = it_offset it2 + min (k - length ?ready) (length (iter_rest ns it2))"
        by auto
      have total: "length ?ready + min (k - length ?ready) (length (iter_rest ns it2)) = min k (length (iter_rest ns it))"
        using len by (auto simp: rest2)
      have bytes: "take d ?ready @ take (d - length (take d ?ready)) (take (k - length ?ready) (iter_rest ns it2)) =
          take d (take k (iter_rest ns it))"
      proof -
        have tk: "take k (iter_rest ns it) = ?ready @ take (k - length ?ready) (iter_rest ns it2)"
        proof (cases "k \<le> length res")
          case True
          then have "take k (iter_rest ns it) = take k res" using split by (metis take_append append.right_neutral diff_is_0_eq take_0)
          with True show ?thesis by simp
        next
          case False
          then have "?ready = res" by simp
          then show ?thesis unfolding rest2 using False by (subst split) simp
        qed
        show ?thesis
        proof (cases "d \<le> length ?ready")
          case True
          then show ?thesis unfolding tk by simp
        next
          case False
          then have all: "take d ?ready = ?ready" by (intro take_all) linarith
          have "take d (?ready @ ys) = ?ready @ take (d - length ?ready) ys" for ys
            by (simp only: take_append all)
          with all show ?thesis unfolding tk by (simp only:)
        qed
      qed
      from pr False k it2(1) have "iter_advance ns k d skipped dest it =
          iter_advance ns (k - length ?ready) (d - length (take d ?ready)) (skipped + length ?ready) (dest @ take d ?ready) it2"
        by (subst iter_advance.simps) (simp add: Let_def del: take_take length_take)
      then have "iter_advance ns k d skipped dest it =
          Some (skipped + min k (length (iter_rest ns it)), dest @ take d (take k (iter_rest ns it)), it3)"
        unfolding it3(1) total [symmetric] bytes [symmetric] by (simp only: add.assoc append.assoc)
      moreover have "it_offset it3 = it_offset it + min k (length (iter_rest ns it))"
        unfolding it3(3) it2(3) total [symmetric] by (simp only: add.assoc)
      ultimately show ?thesis using it3(2) by blast
    qed
  qed
qed


subsection \<open>The writer appends\<close>

definition writer_ok :: "chain_writer \<Rightarrow> bool" where
  "writer_ok w \<longleftrightarrow> chain_ok (cw_nodes w) \<and> cn_writer (last (cw_nodes w)) \<and>
     (\<not> cw_null w \<longrightarrow> cn_sync (last (cw_nodes w)) \<and>
       length (cn_data (last (cw_nodes w))) \<le> cn_size (last (cw_nodes w)))"

text \<open>The list of nodes grows at its end, and only a node that readers synchronise with gets
  more bytes, while it is the last.\<close>

definition grows :: "chain_node list \<Rightarrow> chain_node list \<Rightarrow> bool" where
  "grows ns ns' \<longleftrightarrow> length ns \<le> length ns' \<and>
     (\<forall>h < length ns. cn_sync (ns' ! h) = cn_sync (ns ! h) \<and>
        (\<exists>added. cn_data (ns' ! h) = cn_data (ns ! h) @ added \<and>
           (h + 1 < length ns \<or> \<not> cn_sync (ns ! h) \<longrightarrow> added = [])))"

lemma grows_refl [simp]: "grows ns ns"
  by (simp add: grows_def)

lemma grows_node:
  assumes "grows ns ns'" "h < length ns"
  obtains added where "cn_sync (ns' ! h) = cn_sync (ns ! h)" "cn_data (ns' ! h) = cn_data (ns ! h) @ added"
    "h + 1 < length ns \<or> \<not> cn_sync (ns ! h) \<Longrightarrow> added = []"
  using assms by (auto simp: grows_def)

lemma grows_trans:
  assumes "grows ns1 ns2" "grows ns2 ns3"
  shows "grows ns1 ns3"
  unfolding grows_def
proof (intro conjI allI impI)
  show "length ns1 \<le> length ns3" using assms by (simp add: grows_def)
  fix h
  assume h: "h < length ns1"
  with assms(1) have h2: "h < length ns2" by (simp add: grows_def)
  from grows_node [OF assms(1) h] obtain added where 1: "cn_sync (ns2 ! h) = cn_sync (ns1 ! h)"
    "cn_data (ns2 ! h) = cn_data (ns1 ! h) @ added" "h + 1 < length ns1 \<or> \<not> cn_sync (ns1 ! h) \<longrightarrow> added = []" by blast
  from grows_node [OF assms(2) h2] obtain added' where 2: "cn_sync (ns3 ! h) = cn_sync (ns2 ! h)"
    "cn_data (ns3 ! h) = cn_data (ns2 ! h) @ added'" "h + 1 < length ns2 \<or> \<not> cn_sync (ns2 ! h) \<longrightarrow> added' = []" by blast
  show "cn_sync (ns3 ! h) = cn_sync (ns1 ! h)" using 1 2 by simp
  show "\<exists>added. cn_data (ns3 ! h) = cn_data (ns1 ! h) @ added \<and> (h + 1 < length ns1 \<or> \<not> cn_sync (ns1 ! h) \<longrightarrow> added = [])"
    using 1 2 assms(1) by (intro exI [of _ "added @ added'"]) (auto simp: grows_def)
qed

lemma grows_chain_bytes_take:
  assumes "grows ns ns'" "h < length ns"
  shows "chain_bytes (take h ns') = chain_bytes (take h ns)"
  unfolding chain_bytes_def
proof (rule arg_cong [where f = concat], rule nth_equalityI)
  show "length (map cn_data (take h ns')) = length (map cn_data (take h ns))"
    using assms by (simp add: grows_def)
  fix i
  assume "i < length (map cn_data (take h ns'))"
  then have i: "i < h" by simp
  with assms(2) have "i < length ns" "i + 1 < length ns" by simp_all
  with grows_node [OF assms(1)] have "cn_data (ns' ! i) = cn_data (ns ! i)" by (metis append.right_neutral)
  with i assms show "map cn_data (take h ns') ! i = map cn_data (take h ns) ! i"
    by (simp add: grows_def)
qed

lemma grows_iter:
  assumes "iter_live ns it" "grows ns ns'" "cn_writer (last ns)"
  shows "iter_live ns' it"
proof -
  from assms(1,3) obtain h where h: "it_head it = Some h" and ok: "iter_ok ns it"
    by (auto simp: iter_live_def)
  then have hl: "h < length ns" by (simp add: iter_ok_def)
  from grows_node [OF assms(2) hl] obtain added where "cn_sync (ns' ! h) = cn_sync (ns ! h)"
    "cn_data (ns' ! h) = cn_data (ns ! h) @ added" "\<not> cn_sync (ns ! h) \<longrightarrow> added = []" by blast
  moreover have "node_start ns' h = node_start ns h"
    unfolding node_start_def by (simp add: grows_chain_bytes_take [OF assms(2) hl])
  ultimately have "iter_ok ns' it"
    using ok h assms(2) by (auto simp: iter_ok_def grows_def)
  with h show ?thesis by (simp add: iter_live_def)
qed

lemma butlast_last: "ns \<noteq> [] \<Longrightarrow> butlast ns @ [last ns] = ns"
  by simp

lemma grows_last:
  assumes "ns \<noteq> []" "cn_sync n = cn_sync (last ns)" "cn_data n = cn_data (last ns) @ added" "cn_sync n \<or> added = []"
  shows "grows ns (butlast ns @ n # rest)"
  unfolding grows_def
proof (intro conjI allI impI)
  show "length ns \<le> length (butlast ns @ n # rest)" by simp
  fix h
  assume h: "h < length ns"
  have "ns ! h = (if h + 1 = length ns then last ns else butlast ns ! h)"
  proof (cases "h + 1 = length ns")
    case True
    then have "length ns - 1 = h" by linarith
    with True assms(1) show ?thesis by (simp add: last_conv_nth)
  next
    case False
    with h show ?thesis by (simp add: nth_butlast)
  qed
  moreover have "(butlast ns @ n # rest) ! h = (if h + 1 = length ns then n else butlast ns ! h)"
    using h by (auto simp: nth_append)
  ultimately show "cn_sync ((butlast ns @ n # rest) ! h) = cn_sync (ns ! h)"
    and "\<exists>added. cn_data ((butlast ns @ n # rest) ! h) = cn_data (ns ! h) @ added \<and>
      (h + 1 < length ns \<or> \<not> cn_sync (ns ! h) \<longrightarrow> added = [])"
    using assms by auto
qed

lemma chain_bytes_last: "ns \<noteq> [] \<Longrightarrow> chain_bytes ns = chain_bytes (butlast ns) @ cn_data (last ns)"
  using chain_bytes_simps(3) [of "butlast ns" "[last ns]"] by simp

lemma link_tail_ok:
  assumes "chain_ok ns" "cn_writer n"
  shows "chain_ok (link_tail n ns)" "last (link_tail n ns) = n" "grows ns (link_tail n ns)"
    "chain_bytes (link_tail n ns) = chain_bytes ns @ cn_data n"
proof -
  from assms(1) have ne: "ns \<noteq> []" by (simp add: chain_ok_def)
  show "chain_ok (link_tail n ns)" using assms by (auto simp: chain_ok_def link_tail_def butlast_append)
  show "last (link_tail n ns) = n" by (simp add: link_tail_def)
  show "grows ns (link_tail n ns)"
    unfolding link_tail_def using ne by (intro grows_last [where added = "[]"]) simp_all
  show "chain_bytes (link_tail n ns) = chain_bytes ns @ cn_data n"
    using chain_bytes_last [OF ne] by (simp add: link_tail_def)
qed

text \<open>What an operation of the writer achieves.\<close>

definition appends :: "chain_writer \<Rightarrow> string \<Rightarrow> chain_writer \<Rightarrow> bool" where
  "appends w bytes w' \<longleftrightarrow> writer_ok w' \<and> chain_bytes (cw_nodes w') = chain_bytes (cw_nodes w) @ bytes \<and>
     grows (cw_nodes w) (cw_nodes w')"

lemma appends_trans: "appends w b1 w1 \<Longrightarrow> appends w1 b2 w2 \<Longrightarrow> appends w (b1 @ b2) w2"
  by (auto simp: appends_def intro: grows_trans)

lemma appends_refl: "writer_ok w \<Longrightarrow> appends w [] w"
  by (simp add: appends_def)

lemma prepare_append_alloc_ok:
  assumes "writer_ok w" "prepare_append_alloc hint w = (ready, w')"
  shows "appends w [] w' \<and> \<not> cw_null w' \<and> ready = prepare_append_inplace w'"
proof -
  let ?n = "writer_node (if hint < 2 ^ 10 then 2 ^ 12 else hint)"
  from assms(2) have w': "w' = \<lparr>cw_nodes = link_tail ?n (cw_nodes w), cw_null = False\<rparr>"
    and r: "ready = prepare_append_inplace w'"
    by (auto simp: prepare_append_alloc_def Let_def)
  from assms(1) have "chain_ok (cw_nodes w)" by (simp add: writer_ok_def)
  note l = link_tail_ok [OF this, of ?n]
  have n: "cn_writer ?n" "cn_sync ?n" "cn_data ?n = []" by (simp_all add: writer_node_def)
  have "writer_ok w'" using l n by (simp add: w' writer_ok_def)
  with l n r show ?thesis by (simp add: appends_def w')
qed

lemma prepare_append_ok:
  assumes "writer_ok w" "prepare_append hint w = (ready, w')"
  shows "appends w [] w' \<and> \<not> cw_null w' \<and> ready = prepare_append_inplace w' \<and> 0 < ready"
proof -
  have "0 < ready" using prepare_append_pos [of hint w] assms(2) by simp
  show ?thesis
  proof (cases "prepare_append_inplace w = 0")
    case True
    with assms(2) have "prepare_append_alloc hint w = (ready, w')" by (simp add: prepare_append_def)
    from prepare_append_alloc_ok [OF assms(1) this] \<open>0 < ready\<close> show ?thesis by simp
  next
    case False
    with assms have "w' = w" "ready = prepare_append_inplace w" by (auto simp: prepare_append_def)
    moreover have "\<not> cw_null w" using False by (auto simp: prepare_append_inplace_def)
    ultimately show ?thesis using appends_refl [OF assms(1)] \<open>0 < ready\<close> by simp
  qed
qed

lemma confirm_append_ok:
  assumes "writer_ok w" "\<not> cw_null w" "length bytes \<le> prepare_append_inplace w"
  shows "\<exists>w'. confirm_append bytes w = Some w' \<and> appends w bytes w' \<and> cw_null w' = cw_null w"
proof -
  let ?tail = "last (cw_nodes w)"
  let ?tail' = "?tail\<lparr>cn_data := cn_data ?tail @ bytes\<rparr>"
  let ?w = "w\<lparr>cw_nodes := butlast (cw_nodes w) @ [?tail']\<rparr>"
  from assms(1,2) have ok: "chain_ok (cw_nodes w)" "cn_writer ?tail" "cn_sync ?tail"
    "length (cn_data ?tail) \<le> cn_size ?tail"
    by (simp_all add: writer_ok_def)
  then have ne: "cw_nodes w \<noteq> []" by (simp add: chain_ok_def)
  have fits: "length (cn_data ?tail) + length bytes \<le> cn_size ?tail"
    using assms(2,3) ok(4) by (simp add: prepare_append_inplace_def)
  then have "confirm_append bytes w = Some ?w"
    using assms(2) by (simp add: confirm_append_def Let_def)
  moreover have "writer_ok ?w"
    using ok fits assms(2) by (simp add: writer_ok_def chain_ok_def butlast_append)
  moreover have "grows (cw_nodes w) (butlast (cw_nodes w) @ [?tail'])"
    using ne ok(3) by (intro grows_last [where added = bytes]) simp_all
  moreover have "chain_bytes (cw_nodes ?w) = chain_bytes (cw_nodes w) @ bytes"
    using chain_bytes_last [OF ne] by simp
  ultimately show ?thesis by (simp add: appends_def)
qed

lemma append_bytes_ok: "writer_ok w \<Longrightarrow> \<exists>w'. append_bytes sl hint w = Some w' \<and> appends w sl w'"
proof (induction sl hint w rule: append_bytes.induct)
  case (1 sl hint w)
  show ?case
  proof (cases "sl = []")
    case True
    with 1(2) show ?thesis by (subst append_bytes.simps) (simp add: appends_refl)
  next
    case False
    obtain ready w1 where pr: "prepare_append (max (length sl) hint) w = (ready, w1)" by fastforce
    from prepare_append_ok [OF 1(2) pr] have w1: "appends w [] w1" "\<not> cw_null w1"
      "ready = prepare_append_inplace w1" by simp_all
    let ?shift = "min ready (length sl)"
    have "writer_ok w1" using w1(1) by (simp add: appends_def)
    from confirm_append_ok [OF this w1(2), of "take ?shift sl"] w1(3) obtain w2 where
      w2: "confirm_append (take ?shift sl) w1 = Some w2" "appends w1 (take ?shift sl) w2" by auto
    from w2(2) have "writer_ok w2" by (simp add: appends_def)
    from 1(1) [OF False pr [symmetric] refl refl w2(1) this] obtain w3 where
      w3: "append_bytes (drop ?shift sl) hint w2 = Some w3" "appends w2 (drop ?shift sl) w3" by blast
    have "append_bytes sl hint w = Some w3"
      using False pr w2(1) w3(1) by (subst append_bytes.simps) (simp add: Let_def)
    moreover have "appends w ([] @ take ?shift sl @ drop ?shift sl) w3"
      by (intro appends_trans [OF w1(1)] appends_trans [OF w2(2)] w3(2))
    ultimately show ?thesis by simp
  qed
qed

lemma append_slice_ok:
  assumes "writer_ok w"
  shows "\<exists>w'. append_slice sl w = Some w' \<and> appends w sl w'"
proof (cases "length sl < 2 ^ 8 \<or> prepare_append_inplace w \<ge> length sl")
  case True
  with append_bytes_ok [OF assms, of sl 0] show ?thesis by (simp add: append_slice_def)
next
  case False
  let ?w = "\<lparr>cw_nodes = link_tail (slice_node sl) (cw_nodes w), cw_null = True\<rparr>"
  from assms have "chain_ok (cw_nodes w)" by (simp add: writer_ok_def)
  note l = link_tail_ok [OF this, of "slice_node sl"]
  have "cn_writer (slice_node sl)" "cn_data (slice_node sl) = sl" by (simp_all add: slice_node_def)
  with l have "appends w sl ?w" by (simp add: appends_def writer_ok_def)
  with False show ?thesis by (auto simp: append_slice_def)
qed

lemma new_chain_ok: "writer_ok new_chain \<and> chain_bytes (cw_nodes new_chain) = []"
  by (simp add: new_chain_def writer_ok_def chain_ok_def writer_node_def)


subsection \<open>Readers and the writer as a queue of bytes\<close>

lemma iter_offset_le: "iter_ok ns it \<Longrightarrow> it_offset it \<le> length (chain_bytes ns)"
proof (cases "it_head it")
  case (Some h)
  assume ok: "iter_ok ns it"
  with Some have h: "h < length ns" "it_offset it \<le> node_start ns h + length (cn_data (ns ! h))"
    by (auto simp: iter_ok_def)
  with node_start_Suc [OF h(1)] node_start_le [of "h + 1" ns] show ?thesis by simp
qed (simp add: iter_ok_def)

definition reader_ok :: "chain_node list \<Rightarrow> chain_reader \<Rightarrow> bool" where
  "reader_ok ns r \<longleftrightarrow> iter_live ns (cr_begin r) \<and> iter_live ns (cr_end r) \<and>
     it_offset (cr_begin r) \<le> it_offset (cr_end r)"

text \<open>What the reader shows, and what it has not synchronised with yet.\<close>

definition visible :: "chain_node list \<Rightarrow> chain_reader \<Rightarrow> string" where
  "visible ns r = take (reader_size r) (iter_rest ns (cr_begin r))"

definition hidden :: "chain_node list \<Rightarrow> chain_reader \<Rightarrow> string" where
  "hidden ns r = iter_rest ns (cr_end r)"

lemma reader_ok_lengths:
  assumes "reader_ok ns r"
  shows "reader_size r \<le> length (iter_rest ns (cr_begin r))" "length (visible ns r) = reader_size r"
    "iter_rest ns (cr_begin r) = visible ns r @ hidden ns r"
proof -
  from assms have e: "it_offset (cr_end r) \<le> length (chain_bytes ns)" and be: "it_offset (cr_begin r) \<le> it_offset (cr_end r)"
    using iter_offset_le by (auto simp: reader_ok_def iter_live_def)
  then show 1: "reader_size r \<le> length (iter_rest ns (cr_begin r))"
    by (simp add: reader_size_def iter_rest_def)
  then show "length (visible ns r) = reader_size r" by (simp add: visible_def)
  have "drop (reader_size r) (iter_rest ns (cr_begin r)) = hidden ns r"
    using be by (simp add: iter_rest_def hidden_def reader_size_def)
  then show "iter_rest ns (cr_begin r) = visible ns r @ hidden ns r"
    unfolding visible_def by (metis append_take_drop_id)
qed

lemma new_iter_live: "chain_ok ns \<Longrightarrow> iter_live ns (new_iter ns)"
  unfolding new_iter_def iter_live_def chain_ok_def by (auto intro!: iter_ok_load_head) (simp add: load_head_def)

lemma extract_reader_ok:
  assumes "chain_ok ns"
  shows "\<exists>r. extract_reader ns = Some r \<and> reader_ok ns r \<and> cr_sync r \<and> visible ns r = chain_bytes ns \<and> hidden ns r = []"
proof -
  from iter_advance_till_end_ok [OF assms new_iter_live [OF assms]] obtain e where
    e: "iter_advance_till_end ns (new_iter ns) = Some e" "iter_live ns e"
      "it_offset e = it_offset (new_iter ns) + length (iter_rest ns (new_iter ns))" by blast
  have "it_offset (new_iter ns) = 0" by (simp add: new_iter_def load_head_def)
  then have "iter_rest ns (new_iter ns) = chain_bytes ns" by (simp add: iter_rest_def)
  with e new_iter_live [OF assms] \<open>it_offset (new_iter ns) = 0\<close> show ?thesis
    by (auto simp: extract_reader_def reader_ok_def visible_def hidden_def reader_size_def iter_rest_def)
qed

lemma sync_with_writer_ok:
  assumes "chain_ok ns" "reader_ok ns r" "cr_sync r"
  shows "\<exists>r'. sync_with_writer ns r = Some r' \<and> reader_ok ns r' \<and> cr_sync r' \<and>
    visible ns r' = visible ns r @ hidden ns r \<and> hidden ns r' = []"
proof -
  from assms(2) have "iter_live ns (cr_end r)" by (simp add: reader_ok_def)
  from iter_advance_till_end_ok [OF assms(1) this] obtain e where
    e: "iter_advance_till_end ns (cr_end r) = Some e" "iter_live ns e"
      "it_offset e = it_offset (cr_end r) + length (iter_rest ns (cr_end r))" by blast
  let ?r = "r\<lparr>cr_end := e\<rparr>"
  have "reader_ok ns ?r" using assms(2) e by (simp add: reader_ok_def)
  moreover have none: "hidden ns ?r = []"
    by (simp add: hidden_def iter_rest_advance [OF e(3)])
  moreover have "visible ns ?r = visible ns r @ hidden ns r"
    using reader_ok_lengths(3) [OF calculation(1)] reader_ok_lengths(3) [OF assms(2)] none by simp
  ultimately show ?thesis using assms(3) e(1) by (simp add: sync_with_writer_def)
qed

lemma reader_prepare_read_ok:
  assumes "chain_ok ns" "reader_ok ns r" "reader_prepare_read ns r = (res, r')"
  shows "reader_ok ns r' \<and> cr_sync r' = cr_sync r \<and> visible ns r' = visible ns r \<and> hidden ns r' = hidden ns r \<and>
    (\<exists>rest. visible ns r = res @ rest) \<and> (res = [] \<longleftrightarrow> visible ns r = []) \<and>
    length res \<le> length (iter_slice ns (cr_begin r'))"
proof -
  obtain ready it where pr: "iter_prepare_read ns (cr_begin r) = (ready, it)" by fastforce
  let ?r = "r\<lparr>cr_begin := it\<rparr>"
  from assms(2) have live: "iter_live ns (cr_begin r)" by (simp add: reader_ok_def)
  note p = iter_prepare_read_live [OF live assms(1) pr]
  have same: "reader_size ?r = reader_size r" "visible ns ?r = visible ns r" "hidden ns ?r = hidden ns r"
    using p by (simp_all add: reader_size_def visible_def hidden_def iter_rest_def)
  from assms(3) pr have res: "res = take (reader_size r) ready" and r': "r' = ?r"
    using same by (auto simp: reader_prepare_read_def Let_def)
  have ready: "ready = take (it_end it - it_begin it) (iter_rest ns (cr_begin r))"
    using p iter_slice_prefix [of ns it] by (simp add: iter_live_def iter_rest_def)
  have "res = take (it_end it - it_begin it) (visible ns r)"
    unfolding res ready visible_def by (simp add: min.commute)
  then have "visible ns r = res @ drop (it_end it - it_begin it) (visible ns r)" by simp
  moreover have "res = [] \<longleftrightarrow> visible ns r = []"
    using p reader_ok_lengths(1) [OF assms(2)] by (auto simp: res visible_def)
  moreover have "reader_ok ns ?r" using assms(2) p by (simp add: reader_ok_def)
  moreover have "length res \<le> length (iter_slice ns (cr_begin ?r))" using p by (simp add: res)
  ultimately show ?thesis using same r' by auto
qed

lemma reader_confirm_read_ok:
  assumes "reader_ok ns r" "n \<le> length (visible ns r)" "n \<le> length (iter_slice ns (cr_begin r))"
  shows "\<exists>r'. reader_confirm_read n r = Some r' \<and> reader_ok ns r' \<and> cr_sync r' = cr_sync r \<and>
    visible ns r' = drop n (visible ns r) \<and> hidden ns r' = hidden ns r"
proof -
  from assms(1) have live: "iter_live ns (cr_begin r)" by (simp add: reader_ok_def)
  from iter_confirm_read_live [OF live assms(3)] obtain it where
    it: "iter_confirm_read n (cr_begin r) = Some it" "iter_live ns it" "it_offset it = it_offset (cr_begin r) + n" by blast
  let ?r = "r\<lparr>cr_begin := it\<rparr>"
  have n: "n \<le> reader_size r" using assms(2) reader_ok_lengths(2) [OF assms(1)] by simp
  then have "reader_ok ns ?r" using assms(1) it by (auto simp: reader_ok_def reader_size_def)
  moreover have "visible ns ?r = drop n (visible ns r)" "hidden ns ?r = hidden ns r"
    using it(3) by (simp_all add: visible_def hidden_def iter_rest_advance [OF it(3)] reader_size_def drop_take)
  ultimately show ?thesis using n it(1) by (simp add: reader_confirm_read_def)
qed

lemma reader_advance_ok:
  assumes "chain_ok ns" "reader_ok ns r" "n \<le> length (visible ns r)"
  shows "\<exists>r'. reader_advance ns n d r = Some (n, take d (take n (visible ns r)), r') \<and> reader_ok ns r' \<and>
    cr_sync r' = cr_sync r \<and> visible ns r' = drop n (visible ns r) \<and> hidden ns r' = hidden ns r"
proof -
  from assms(2) have live: "iter_live ns (cr_begin r)" by (simp add: reader_ok_def)
  have n: "n \<le> reader_size r" using assms(3) reader_ok_lengths(2) [OF assms(2)] by simp
  then have n': "n \<le> length (iter_rest ns (cr_begin r))" using reader_ok_lengths(1) [OF assms(2)] by simp
  from iter_advance_ok [OF assms(1) live, of n d 0 "[]"] n' obtain it where
    it: "iter_advance ns n d 0 [] (cr_begin r) = Some (n, take d (take n (iter_rest ns (cr_begin r))), it)"
      "iter_live ns it" "it_offset it = it_offset (cr_begin r) + n"
    by (auto simp: min_absorb1)
  let ?r = "r\<lparr>cr_begin := it\<rparr>"
  have "take n (iter_rest ns (cr_begin r)) = take n (visible ns r)"
    using n by (simp add: visible_def min_absorb1)
  moreover have "reader_ok ns ?r" using assms(2) it n by (auto simp: reader_ok_def reader_size_def)
  moreover have "visible ns ?r = drop n (visible ns r)" "hidden ns ?r = hidden ns r"
    using it(3) by (simp_all add: visible_def hidden_def iter_rest_advance [OF it(3)] reader_size_def drop_take)
  ultimately show ?thesis using n it(1) by (simp add: reader_advance_def)
qed

lemma reader_read_as_buffer_slice_ok:
  assumes "chain_ok ns" "reader_ok ns r"
  shows "\<exists>res r'. reader_read_as_buffer_slice ns limit r = Some (res, r') \<and> reader_ok ns r' \<and> cr_sync r' = cr_sync r \<and>
    visible ns r = res @ visible ns r' \<and> hidden ns r' = hidden ns r \<and> length res \<le> limit \<and>
    (res = [] \<longleftrightarrow> visible ns r = [] \<or> limit = 0)"
proof -
  let ?limit = "min limit (reader_size r)"
  obtain ready it where pr: "iter_prepare_read ns (cr_begin r) = (ready, it)" by fastforce
  from assms(2) have live: "iter_live ns (cr_begin r)" by (simp add: reader_ok_def)
  note p = iter_prepare_read_live [OF live assms(1) pr]
  let ?res = "take ?limit (iter_slice ns it)"
  from iter_confirm_read_live [of ns it "length ?res"] p obtain it' where
    it': "iter_confirm_read (length ?res) it = Some it'" "iter_live ns it'" "it_offset it' = it_offset it + length ?res"
    by auto
  let ?r = "r\<lparr>cr_begin := it'\<rparr>"
  have eq: "reader_read_as_buffer_slice ns limit r = Some (?res, ?r)"
    using pr it'(1) by (simp add: reader_read_as_buffer_slice_def iter_read_as_buffer_slice_def Let_def)
  have sl: "iter_slice ns it = take (it_end it - it_begin it) (iter_rest ns (cr_begin r))"
    using p iter_slice_prefix [of ns it] by (simp add: iter_live_def iter_rest_def)
  have le: "length ?res \<le> reader_size r" by simp
  have off: "it_offset it' = it_offset (cr_begin r) + length ?res" using it'(3) p by simp
  have "it_offset it' \<le> it_offset (cr_end r)"
    using assms(2) le unfolding off reader_ok_def reader_size_def by linarith
  with assms(2) it'(2) have ok: "reader_ok ns ?r" by (simp add: reader_ok_def)
  have vis: "visible ns ?r = drop (length ?res) (visible ns r)" "hidden ns ?r = hidden ns r"
    using off by (simp_all add: visible_def hidden_def iter_rest_advance [OF off] reader_size_def drop_take del: length_take)
  have "?res = take (min ?limit (it_end it - it_begin it)) (iter_rest ns (cr_begin r))"
    unfolding sl by simp
  also have "\<dots> = take (min ?limit (it_end it - it_begin it)) (visible ns r)"
    by (simp add: visible_def min.assoc min.commute min.left_commute)
  finally have res: "?res = take (length ?res) (visible ns r)"
    by (metis length_take min.commute take_all_iff take_take linorder_le_cases)
  have none: "?res = [] \<longleftrightarrow> visible ns r = [] \<or> limit = 0"
    using p reader_ok_lengths(1) [OF assms(2)] by (auto simp: visible_def)
  have "visible ns r = ?res @ visible ns ?r"
    unfolding vis(1) using res by (metis append_take_drop_id)
  moreover have "length ?res \<le> limit" "cr_sync ?r = cr_sync r" by simp_all
  ultimately show ?thesis
    using eq ok vis(2) none by blast
qed


text \<open>Appending another chain moves all that its reader shows, and comes to an end.\<close>

lemma append_reader_ok:
  assumes "chain_ok ns"
  shows "reader_ok ns r \<Longrightarrow> writer_ok w \<Longrightarrow> \<exists>r' w'. append_reader ns r w = Some (r', w') \<and> reader_ok ns r' \<and>
    visible ns r' = [] \<and> hidden ns r' = hidden ns r \<and> appends w (visible ns r) w'"
proof (induction "length (visible ns r)" arbitrary: r w rule: less_induct)
  case less
  show ?case
  proof (cases "reader_size r = 0")
    case True
    with less.prems show ?thesis
      using reader_ok_lengths(2) [OF less.prems(1)] by (subst append_reader.simps) (auto simp: appends_refl)
  next
    case False
    from reader_read_as_buffer_slice_ok [OF assms less.prems(1), of "2 ^ 64 - 1"] obtain sl r1 where
      rd: "reader_read_as_buffer_slice ns (2 ^ 64 - 1) r = Some (sl, r1)" "reader_ok ns r1"
        "visible ns r = sl @ visible ns r1" "hidden ns r1 = hidden ns r" "sl = [] \<longleftrightarrow> visible ns r = []"
      by auto
    with False reader_ok_lengths(2) [OF less.prems(1)] have "sl \<noteq> []" by auto
    then have lt: "length (visible ns r1) < length (visible ns r)" by (simp add: rd(3))
    from append_slice_ok [OF less.prems(2), of sl] obtain w1 where
      w1: "append_slice sl w = Some w1" "appends w sl w1" by blast
    then have "writer_ok w1" by (simp add: appends_def)
    from less.hyps [OF lt rd(2) this] obtain r' w' where
      "append_reader ns r1 w1 = Some (r', w')" "reader_ok ns r'" "visible ns r' = []" "hidden ns r' = hidden ns r1"
      "appends w1 (visible ns r1) w'" by blast
    moreover have "append_reader ns r w = append_reader ns r1 w1"
      using False rd(1) w1(1) by (subst append_reader.simps) simp
    ultimately show ?thesis
      using appends_trans [OF w1(2)] rd(3,4) by auto
  qed
qed

lemma cut_head_ok:
  assumes "chain_ok ns" "reader_ok ns r" "n \<le> length (visible ns r)"
  shows "\<exists>h t. cut_head ns n r = Some (h, t) \<and> reader_ok ns h \<and> reader_ok ns t \<and> cr_sync t = cr_sync r \<and>
    visible ns h = take n (visible ns r) \<and> visible ns t = drop n (visible ns r) \<and> hidden ns t = hidden ns r"
proof -
  from assms(2) have live: "iter_live ns (cr_begin r)" by (simp add: reader_ok_def)
  have n: "n \<le> reader_size r" using assms(3) reader_ok_lengths(2) [OF assms(2)] by simp
  then have n': "n \<le> length (iter_rest ns (cr_begin r))" using reader_ok_lengths(1) [OF assms(2)] by simp
  from iter_advance_ok [OF assms(1) live, of n 0 0 "[]"] n' obtain it where
    it: "iter_advance ns n 0 0 [] (cr_begin r) = Some (n, [], it)" "iter_live ns it"
      "it_offset it = it_offset (cr_begin r) + n"
    by (auto simp: min_absorb1)
  let ?h = "\<lparr>cr_begin = cr_begin r, cr_end = it, cr_sync = False\<rparr>"
  let ?t = "r\<lparr>cr_begin := it\<rparr>"
  have "cut_head ns n r = Some (?h, ?t)"
    using n it(1) by (simp add: cut_head_def cut_head_at_def)
  moreover have "reader_ok ns ?h" using live it by (simp add: reader_ok_def)
  moreover have "reader_ok ns ?t" using assms(2) it n by (auto simp: reader_ok_def reader_size_def)
  moreover have "visible ns ?h = take n (visible ns r)"
    using it(3) n by (simp add: visible_def reader_size_def min_absorb1)
  moreover have "visible ns ?t = drop n (visible ns r)" "hidden ns ?t = hidden ns r"
    using it(3) by (simp_all add: visible_def hidden_def iter_rest_advance [OF it(3)] reader_size_def drop_take)
  ultimately show ?thesis by auto
qed

lemma move_as_buffer_slice_ok:
  assumes "chain_ok ns" "reader_ok ns r"
  shows "\<exists>r'. move_as_buffer_slice ns r = Some (visible ns r, r')"
proof (cases "reader_size r \<le> it_end (cr_begin r) - it_begin (cr_begin r)")
  case False
  from reader_advance_ok [OF assms, of "reader_size r" "reader_size r"] reader_ok_lengths(2) [OF assms(2)] False
  show ?thesis by (auto simp: move_as_buffer_slice_def Let_def)
next
  case True
  obtain ready it where pr: "iter_prepare_read ns (cr_begin r) = (ready, it)" by fastforce
  from assms(2) have live: "iter_live ns (cr_begin r)" by (simp add: reader_ok_def)
  note p = iter_prepare_read_live [OF live assms(1) pr]
  let ?res = "take (reader_size r) (iter_slice ns it)"
  from iter_confirm_read_live [of ns it "length ?res"] p obtain it' where
    it': "iter_confirm_read (length ?res) it = Some it'" by auto
  have read: "iter_read_as_buffer_slice ns (reader_size r) (cr_begin r) = Some (?res, it')"
    using it' by (simp add: iter_read_as_buffer_slice_def pr Let_def)
  have res: "?res = visible ns r"
  proof (cases "reader_size r = 0")
    case True
    then show ?thesis by (simp add: visible_def)
  next
    case False
    have "it_head (cr_begin r) \<noteq> None"
      using True False live by (auto simp: iter_live_def iter_ok_def split: option.splits)
    then have sl: "iter_slice ns (cr_begin r) \<noteq> []"
      using True False iter_slice_prefix [of ns "cr_begin r"] live by (auto simp: iter_live_def)
    then have "it = cr_begin r"
      using pr \<open>it_head (cr_begin r) \<noteq> None\<close> by (subst (asm) iter_prepare_read.simps) auto
    then show ?thesis
      using iter_slice_prefix [of ns "cr_begin r"] live True
      by (auto simp: iter_live_def visible_def min_absorb1)
  qed
  from read [unfolded res] show ?thesis
    using True by (simp add: move_as_buffer_slice_def)
qed

datatype chain_op = Append_bytes string nat | Append_slice string | Sync | Read nat | Read_slice nat
  | Advance nat | Cut nat

text \<open>An operation with the bytes it hands out; a read confirms what it uses, and a head that is
  cut off is moved out as one slice.\<close>

fun chain_step :: "chain_op \<Rightarrow> chain_writer \<Rightarrow> chain_reader \<Rightarrow> (string \<times> chain_writer \<times> chain_reader) option" where
  "chain_step (Append_bytes sl hint) w r = map_option (\<lambda>w. ([], w, r)) (append_bytes sl hint w)"
| "chain_step (Append_slice sl) w r = map_option (\<lambda>w. ([], w, r)) (append_slice sl w)"
| "chain_step Sync w r = map_option (\<lambda>r. ([], w, r)) (sync_with_writer (cw_nodes w) r)"
| "chain_step (Read n) w r =
     (let (res, r) = reader_prepare_read (cw_nodes w) r; out = take n res
      in map_option (\<lambda>r. (out, w, r)) (reader_confirm_read (length out) r))"
| "chain_step (Read_slice n) w r = map_option (\<lambda>(out, r). (out, w, r)) (reader_read_as_buffer_slice (cw_nodes w) n r)"
| "chain_step (Advance n) w r =
     (let n = min n (reader_size r)
      in map_option (\<lambda>(_, out, r). (out, w, r)) (reader_advance (cw_nodes w) n n r))"
| "chain_step (Cut n) w r =
     Option.bind (cut_head (cw_nodes w) (min n (reader_size r)) r) (\<lambda>(h, t).
       map_option (\<lambda>(out, _). (out, w, t)) (move_as_buffer_slice (cw_nodes w) h))"

fun chain_run :: "chain_op list \<Rightarrow> chain_writer \<Rightarrow> chain_reader \<Rightarrow> (string list \<times> chain_writer \<times> chain_reader) option" where
  "chain_run [] w r = Some ([], w, r)"
| "chain_run (op # ops) w r =
     Option.bind (chain_step op w r) (\<lambda>(out, w, r).
       map_option (\<lambda>(outs, w, r). (out # outs, w, r)) (chain_run ops w r))"

text \<open>The specification: the bytes the reader can see and those it has still to synchronise with.\<close>

fun queue_step :: "string \<times> string \<Rightarrow> chain_op \<Rightarrow> string \<Rightarrow> string \<times> string \<Rightarrow> bool" where
  "queue_step (vis, hid) (Append_bytes sl _) out q = (out = [] \<and> q = (vis, hid @ sl))"
| "queue_step (vis, hid) (Append_slice sl) out q = (out = [] \<and> q = (vis, hid @ sl))"
| "queue_step (vis, hid) Sync out q = (out = [] \<and> q = (vis @ hid, []))"
| "queue_step (vis, hid) (Read n) out q =
     (length out \<le> n \<and> (out = [] \<longleftrightarrow> vis = [] \<or> n = 0) \<and> (\<exists>vis'. vis = out @ vis' \<and> q = (vis', hid)))"
| "queue_step (vis, hid) (Read_slice n) out q =
     (length out \<le> n \<and> (out = [] \<longleftrightarrow> vis = [] \<or> n = 0) \<and> (\<exists>vis'. vis = out @ vis' \<and> q = (vis', hid)))"
| "queue_step (vis, hid) (Advance n) out q = (out = take n vis \<and> q = (drop n vis, hid))"
| "queue_step (vis, hid) (Cut n) out q = (out = take n vis \<and> q = (drop n vis, hid))"

fun queue_run :: "string \<times> string \<Rightarrow> chain_op list \<Rightarrow> string list \<Rightarrow> string \<times> string \<Rightarrow> bool" where
  "queue_run q [] outs q' = (outs = [] \<and> q' = q)"
| "queue_run q (op # ops) outs q' =
     (case outs of [] \<Rightarrow> False | out # outs \<Rightarrow> \<exists>q1. queue_step q op out q1 \<and> queue_run q1 ops outs q')"

definition chain_abs :: "chain_writer \<Rightarrow> chain_reader \<Rightarrow> string \<times> string" where
  "chain_abs w r = (visible (cw_nodes w) r, hidden (cw_nodes w) r)"

definition chain_inv :: "chain_writer \<Rightarrow> chain_reader \<Rightarrow> bool" where
  "chain_inv w r \<longleftrightarrow> writer_ok w \<and> reader_ok (cw_nodes w) r \<and> cr_sync r"

lemma chain_abs_appends:
  assumes "appends w bytes w'" "chain_inv w r"
  shows "chain_inv w' r \<and> chain_abs w' r = (fst (chain_abs w r), snd (chain_abs w r) @ bytes)"
proof -
  from assms have w: "cn_writer (last (cw_nodes w))" "grows (cw_nodes w) (cw_nodes w')" "writer_ok w'"
    "chain_bytes (cw_nodes w') = chain_bytes (cw_nodes w) @ bytes"
    and r: "reader_ok (cw_nodes w) r" "cr_sync r"
    by (auto simp: appends_def chain_inv_def writer_ok_def)
  have ok: "reader_ok (cw_nodes w') r"
    using r(1) grows_iter [OF _ w(2,1)] by (simp add: reader_ok_def)
  have e: "it_offset (cr_end r) \<le> length (chain_bytes (cw_nodes w))" "it_offset (cr_begin r) \<le> it_offset (cr_end r)"
    using r(1) iter_offset_le by (auto simp: reader_ok_def iter_live_def)
  then have "visible (cw_nodes w') r = visible (cw_nodes w) r" "hidden (cw_nodes w') r = hidden (cw_nodes w) r @ bytes"
    by (simp_all add: visible_def hidden_def iter_rest_def w(4) reader_size_def)
  with ok w(3) r(2) show ?thesis by (simp add: chain_inv_def chain_abs_def)
qed

lemma chain_step_ok:
  assumes "chain_inv w r"
  shows "\<exists>out w' r'. chain_step op w r = Some (out, w', r') \<and> chain_inv w' r' \<and>
    queue_step (chain_abs w r) op out (chain_abs w' r')"
proof -
  from assms have ok: "writer_ok w" "chain_ok (cw_nodes w)" "reader_ok (cw_nodes w) r" "cr_sync r"
    by (auto simp: chain_inv_def writer_ok_def)
  note len = reader_ok_lengths(2) [OF ok(3)]
  show ?thesis
  proof (cases op)
    case (Append_bytes sl hint)
    from append_bytes_ok [OF ok(1), of sl hint] obtain w' where
      w': "append_bytes sl hint w = Some w'" "appends w sl w'" by blast
    with chain_abs_appends [OF w'(2) assms] Append_bytes show ?thesis by (simp add: chain_abs_def)
  next
    case (Append_slice sl)
    from append_slice_ok [OF ok(1), of sl] obtain w' where
      w': "append_slice sl w = Some w'" "appends w sl w'" by blast
    with chain_abs_appends [OF w'(2) assms] Append_slice show ?thesis by (simp add: chain_abs_def)
  next
    case Sync
    with sync_with_writer_ok [OF ok(2,3,4)] ok(1) show ?thesis by (auto simp: chain_inv_def chain_abs_def)
  next
    case (Read n)
    obtain res r1 where pr: "reader_prepare_read (cw_nodes w) r = (res, r1)" by fastforce
    note p = reader_prepare_read_ok [OF ok(2,3) pr]
    let ?out = "take n res"
    have "length ?out \<le> length (visible (cw_nodes w) r1)" "length ?out \<le> length (iter_slice (cw_nodes w) (cr_begin r1))"
      using p by auto
    from reader_confirm_read_ok [OF _ this] p obtain r2 where
      r2: "reader_confirm_read (length ?out) r1 = Some r2" "reader_ok (cw_nodes w) r2" "cr_sync r2 = cr_sync r1"
        "visible (cw_nodes w) r2 = drop (length ?out) (visible (cw_nodes w) r1)" "hidden (cw_nodes w) r2 = hidden (cw_nodes w) r1"
      by blast
    from p obtain rest where rest: "visible (cw_nodes w) r = res @ rest" by blast
    have "visible (cw_nodes w) r = ?out @ visible (cw_nodes w) r2"
      using p rest r2(4) by (simp add: append_eq_conv_conj)
    with Read pr p r2 ok show ?thesis
      by (auto simp: chain_inv_def chain_abs_def)
  next
    case (Read_slice n)
    with reader_read_as_buffer_slice_ok [OF ok(2,3), of n] ok show ?thesis
      by (auto simp: chain_inv_def chain_abs_def)
  next
    case (Advance n)
    let ?n = "min n (reader_size r)"
    have tk: "take ?n (visible (cw_nodes w) r) = take n (visible (cw_nodes w) r)"
      "drop ?n (visible (cw_nodes w) r) = drop n (visible (cw_nodes w) r)"
      unfolding len [symmetric] by (simp_all add: min_def)
    from reader_advance_ok [OF ok(2,3), of ?n ?n] len obtain r' where
      "reader_advance (cw_nodes w) ?n ?n r = Some (?n, take ?n (take ?n (visible (cw_nodes w) r)), r')"
      "reader_ok (cw_nodes w) r'" "cr_sync r' = cr_sync r"
      "visible (cw_nodes w) r' = drop ?n (visible (cw_nodes w) r)" "hidden (cw_nodes w) r' = hidden (cw_nodes w) r"
      by auto
    with Advance tk ok show ?thesis
      by (auto simp: chain_inv_def chain_abs_def len)
  next
    case (Cut n)
    let ?n = "min n (reader_size r)"
    have tk: "take ?n (visible (cw_nodes w) r) = take n (visible (cw_nodes w) r)"
      "drop ?n (visible (cw_nodes w) r) = drop n (visible (cw_nodes w) r)"
      unfolding len [symmetric] by (simp_all add: min_def)
    from cut_head_ok [OF ok(2,3), of ?n] len obtain h t where
      ht: "cut_head (cw_nodes w) ?n r = Some (h, t)" "reader_ok (cw_nodes w) h" "reader_ok (cw_nodes w) t"
      "cr_sync t = cr_sync r" "visible (cw_nodes w) h = take ?n (visible (cw_nodes w) r)"
      "visible (cw_nodes w) t = drop ?n (visible (cw_nodes w) r)" "hidden (cw_nodes w) t = hidden (cw_nodes w) r"
      by auto
    with move_as_buffer_slice_ok [OF ok(2) ht(2)] Cut tk ok show ?thesis
      by (auto simp: chain_inv_def chain_abs_def)
  qed
qed

fun op_bytes :: "chain_op \<Rightarrow> string" where
  "op_bytes (Append_bytes sl _) = sl"
| "op_bytes (Append_slice sl) = sl"
| "op_bytes _ = []"

lemma queue_step_bytes: "queue_step (vis, hid) op out (vis', hid') \<Longrightarrow> out @ vis' @ hid' = vis @ hid @ op_bytes op"
  by (cases op) auto

lemma queue_run_bytes:
  "queue_run (vis, hid) ops outs (vis', hid') \<Longrightarrow> concat outs @ vis' @ hid' = vis @ hid @ concat (map op_bytes ops)"
proof (induction ops arbitrary: vis hid outs)
  case (Cons op ops)
  then obtain out outs' vis1 hid1 where outs: "outs = out # outs'" "queue_step (vis, hid) op out (vis1, hid1)"
    "queue_run (vis1, hid1) ops outs' (vis', hid')"
    by (auto split: list.splits)
  from Cons.IH [OF outs(3)] queue_step_bytes [OF outs(2)] outs(1) show ?case by simp
qed simp

lemma chain_run_ok:
  "chain_inv w r \<Longrightarrow> \<exists>outs w' r'. chain_run ops w r = Some (outs, w', r') \<and> chain_inv w' r' \<and>
    queue_run (chain_abs w r) ops outs (chain_abs w' r')"
proof (induction ops arbitrary: w r)
  case (Cons op ops)
  from chain_step_ok [OF Cons.prems, of op] obtain out w1 r1 where
    1: "chain_step op w r = Some (out, w1, r1)" "chain_inv w1 r1" "queue_step (chain_abs w r) op out (chain_abs w1 r1)"
    by blast
  from Cons.IH [OF 1(2)] obtain outs w2 r2 where
    2: "chain_run ops w1 r1 = Some (outs, w2, r2)" "chain_inv w2 r2" "queue_run (chain_abs w1 r1) ops outs (chain_abs w2 r2)"
    by blast
  from 1 2 show ?case by (intro exI [of _ "out # outs"] exI [of _ w2] exI [of _ r2]) (auto simp: chain_abs_def)
qed simp

text \<open>C6: A chain of buffers is a queue of bytes. Every sequence of appended bytes and slices,
  synchronisations, reads, advances and cuts from an empty chain ends without a failed check
  and behaves as the queue of the specification does: a read hands out a
  prefix of what is visible, and something unless nothing is visible; advancing and
  cutting hand out exactly what was asked for; a synchronisation makes all visible that was
  appended. What has been handed out followed by what is left is what was appended, over the
  boundaries of all nodes.\<close>

theorem chain_run_is_queue:
  "\<exists>r0 outs w r. extract_reader (cw_nodes new_chain) = Some r0 \<and> chain_run ops new_chain r0 = Some (outs, w, r) \<and>
     queue_run ([], []) ops outs (visible (cw_nodes w) r, hidden (cw_nodes w) r) \<and>
     concat outs @ visible (cw_nodes w) r @ hidden (cw_nodes w) r = concat (map op_bytes ops)"
proof -
  have "chain_ok (cw_nodes new_chain)" using new_chain_ok by (simp add: writer_ok_def)
  from extract_reader_ok [OF this] obtain r0 where
    r0: "extract_reader (cw_nodes new_chain) = Some r0" "reader_ok (cw_nodes new_chain) r0" "cr_sync r0"
      "visible (cw_nodes new_chain) r0 = []" "hidden (cw_nodes new_chain) r0 = []"
    using new_chain_ok by auto
  then have "chain_inv new_chain r0" using new_chain_ok by (simp add: chain_inv_def)
  from chain_run_ok [OF this, of ops] obtain outs w r where
    run: "chain_run ops new_chain r0 = Some (outs, w, r)" "queue_run (chain_abs new_chain r0) ops outs (chain_abs w r)"
    by blast
  from run(2) r0(4,5) have q: "queue_run ([], []) ops outs (visible (cw_nodes w) r, hidden (cw_nodes w) r)"
    by (simp add: chain_abs_def)
  from queue_run_bytes [OF q] r0(1) run(1) q show ?thesis by auto
qed

end
