(* ===== verification/BufferedFd.thy ===== *)
theory BufferedFd
  imports ChainBuffer SocketIo
begin

text \<open>
  A socket with an input and an output chain of buffers (\<^verbatim>\<open>utils/BufferedFd.h\<close>):
  \<^verbatim>\<open>flush_read\<close> reads what the descriptor delivers into the input chain,
  \<^verbatim>\<open>flush_write\<close> writes the output chain with vectored writes of at most twenty
  slices. The pointers that \<^verbatim>\<open>init_ptr\<close> sets are the components of the record. A failed
  check of a chain is \<open>Fatal\<close>.
\<close>

record buffered_fd =
  bf_socket :: socket
  bf_input_writer :: chain_writer
  bf_input_reader :: chain_reader
  bf_output_writer :: chain_writer
  bf_output_reader :: chain_reader

definition of_check :: "'a option \<Rightarrow> 'a run" where
  "of_check x = (case x of Some y \<Rightarrow> Done y | None \<Rightarrow> Fatal)"

lemma of_check_simps [simp]: "of_check (Some y) = Done y" "of_check None = Fatal"
  by (simp_all add: of_check_def)

definition new_buffered_fd :: "socket \<Rightarrow> buffered_fd run" where
  "new_buffered_fd s =
     run_bind (of_check (extract_reader (cw_nodes new_chain))) (\<lambda>input.
       run_bind (of_check (extract_reader (cw_nodes new_chain))) (\<lambda>output.
         Done \<lparr>bf_socket = s, bf_input_writer = new_chain, bf_input_reader = input,
           bf_output_writer = new_chain, bf_output_reader = output\<rparr>))"

subsection \<open>Reading\<close>

function flush_read_base :: "nat \<Rightarrow> nat \<Rightarrow> socket \<Rightarrow> chain_writer \<Rightarrow> (nat result \<times> socket \<times> chain_writer) run" where
  "flush_read_base max_read result s w =
     (if can_read_local (sock_flags s) \<and> max_read \<noteq> 0 then
        let (ready, w) = prepare_append 0 w in
        run_bind (socket_read (min ready max_read) s) (\<lambda>(r, s).
          case r of
            Inl e \<Rightarrow> Done (Inl e, s, w)
          | Inr bytes \<Rightarrow>
              run_bind (of_check (confirm_append bytes w))
                (flush_read_base (max_read - length bytes) (result + length bytes) s))
      else Done (Inr result, s, w))"
  by pat_completeness auto
termination
  by (relation "measure (\<lambda>(_, _, s, _). length (os_reads s))") (auto dest: socket_read_shorter)

declare flush_read_base.simps [simp del]

definition flush_read :: "nat \<Rightarrow> buffered_fd \<Rightarrow> (nat result \<times> buffered_fd) run" where
  "flush_read max_read b =
     run_bind (flush_read_base max_read 0 (bf_socket b) (bf_input_writer b)) (\<lambda>(r, s, w).
       let b = b\<lparr>bf_socket := s, bf_input_writer := w\<rparr> in
       case r of
         Inl e \<Rightarrow> Done (Inl e, b)
       | Inr n \<Rightarrow>
           if n \<noteq> 0
           then run_bind (of_check (sync_with_writer (cw_nodes w) (bf_input_reader b))) (\<lambda>rd.
             Done (Inr n, b\<lparr>bf_input_reader := rd\<rparr>))
           else Done (Inr n, b))"

subsection \<open>Writing\<close>

definition BUF_SIZE :: nat where "BUF_SIZE = 20"

text \<open>The slices of the vectored write, taken from a clone of the reader.\<close>

fun gather :: "nat \<Rightarrow> chain_node list \<Rightarrow> chain_reader \<Rightarrow> string list option" where
  "gather 0 ns it = Some []"
| "gather (Suc k) ns it =
     (let (slice, it) = reader_prepare_read ns it in
      if slice = [] then Some []
      else Option.bind (reader_confirm_read (length slice) it) (\<lambda>it.
        map_option (Cons slice) (gather k ns it)))"

lemma socket_writev_Done:
  assumes "socket_writev slices s = Done (r, s')"
  shows "(\<exists>n \<le> length (concat slices). r = Inr n \<and> sent s' = sent s @ take n (concat slices) \<and>
      length (os_writes s') < length (os_writes s) \<and> os_reads s' = os_reads s) \<or>
    (\<exists>e. r = Inl e \<and> sent s' = sent s \<and> os_reads s' = os_reads s)"
proof (cases "narrow_cast_safe \<lparr>type_signed = True, type_width = 32\<rparr> \<lparr>type_signed = False, type_width = 64\<rparr>
    (int (length slices))")
  case (Inl e)
  with assms show ?thesis by (auto simp: socket_writev_def)
next
  case (Inr v)
  with assms obtain res rest where skip: "skip_eintr (os_writes s) = Done (res, rest)"
    and call: "(case res of
        Sys_ok n \<Rightarrow> if within_slices n slices
          then Done (Inr n, s\<lparr>os_writes := rest, sent := sent (s\<lparr>os_writes := rest\<rparr>) @ take n (concat slices)\<rparr>) else Fatal
      | Sys_errno e \<Rightarrow> write_finish e (s\<lparr>os_writes := rest\<rparr>)) = Done (r, s')"
    by (auto simp: socket_writev_def Let_def)
  have short: "length rest < length (os_writes s)" using skip by (rule skip_eintr_shorter)
  show ?thesis
  proof (cases res)
    case (Sys_ok n)
    with call short show ?thesis by (auto simp: within_slices_iff split: if_splits)
  next
    case (Sys_errno e)
    with call have "write_finish e (s\<lparr>os_writes := rest\<rparr>) = Done (r, s')" by simp
    from write_finish_Done [OF this] short show ?thesis by auto
  qed
qed

lemma socket_writev_shorter:
  "socket_writev slices s = Done (Inr n, s') \<Longrightarrow> length (os_writes s') < length (os_writes s)"
  by (auto dest: socket_writev_Done)

function write_slices :: "nat \<Rightarrow> socket \<Rightarrow> chain_node list \<Rightarrow> chain_reader \<Rightarrow> (nat result \<times> socket \<times> chain_reader) run" where
  "write_slices result s ns r =
     (if reader_size r \<noteq> 0 \<and> can_write_local (sock_flags s) then
        run_bind (of_check (gather BUF_SIZE ns r)) (\<lambda>buf.
          run_bind (socket_writev buf s) (\<lambda>(x, s).
            case x of
              Inl e \<Rightarrow> Done (Inl e, s, r)
            | Inr n \<Rightarrow>
                run_bind (of_check (reader_advance ns n 0 r)) (\<lambda>(_, _, r).
                  write_slices (result + n) s ns r)))
      else Done (Inr result, s, r))"
  by pat_completeness auto
termination
  by (relation "measure (\<lambda>(_, s, _, _). length (os_writes s))") (auto dest: socket_writev_shorter)

declare write_slices.simps [simp del]

definition flush_write :: "buffered_fd \<Rightarrow> (nat result \<times> buffered_fd) run" where
  "flush_write b =
     (let ns = cw_nodes (bf_output_writer b) in
      run_bind (of_check (sync_with_writer ns (bf_output_reader b))) (\<lambda>r.
        run_bind (write_slices 0 (bf_socket b) ns r) (\<lambda>(x, s, r).
          Done (x, b\<lparr>bf_socket := s, bf_output_reader := r\<rparr>))))"

definition ready_for_flush_write :: "buffered_fd \<Rightarrow> (nat \<times> buffered_fd) run" where
  "ready_for_flush_write b =
     run_bind (of_check (sync_with_writer (cw_nodes (bf_output_writer b)) (bf_output_reader b))) (\<lambda>r.
       Done (reader_size r, b\<lparr>bf_output_reader := r\<rparr>))"

definition need_flush_write :: "nat \<Rightarrow> buffered_fd \<Rightarrow> (bool \<times> buffered_fd) run" where
  "need_flush_write at_least b =
     run_bind (ready_for_flush_write b) (\<lambda>(n, b). Done (n > at_least, b))"

definition left_unread :: "buffered_fd \<Rightarrow> nat" where
  "left_unread b = reader_size (bf_input_reader b)"

definition left_unwritten :: "buffered_fd \<Rightarrow> nat" where
  "left_unwritten b = reader_size (bf_output_reader b)"

definition sync_fd_with_poll :: "buffered_fd \<Rightarrow> buffered_fd" where
  "sync_fd_with_poll b = b\<lparr>bf_socket := sync_with_poll (bf_socket b)\<rparr>"

subsection \<open>The streams of bytes\<close>

lemma flush_read_base_ok:
  "flush_read_base m res s w = Done (r, s', w') \<Longrightarrow> writer_ok w \<Longrightarrow>
    \<exists>used. os_reads s = used @ os_reads s' \<and> appends w (delivered used) w' \<and>
      sent s' = sent s \<and> os_writes s' = os_writes s \<and>
      (\<forall>n. r = Inr n \<longrightarrow> n = res + length (delivered used) \<and> length (delivered used) \<le> m \<and>
        (length (delivered used) = m \<or> \<not> can_read_local (sock_flags s')))"
proof (induction m res s w arbitrary: r s' w' rule: flush_read_base.induct)
  case (1 m res s w)
  show ?case
  proof (cases "can_read_local (sock_flags s) \<and> m \<noteq> 0")
    case False
    with 1 (2,3) show ?thesis
      by (subst (asm) flush_read_base.simps) (auto simp: appends_refl intro!: exI [of _ "[]"])
  next
    case True
    obtain ready w1 where pa: "prepare_append 0 w = (ready, w1)" by fastforce
    from 1 (2) True pa obtain x s1 where rd: "socket_read (min ready m) s = Done (x, s1)"
      and rest: "(case x of Inl e \<Rightarrow> Done (Inl e, s1, w1)
          | Inr bytes \<Rightarrow> run_bind (of_check (confirm_append bytes w1))
              (flush_read_base (m - length bytes) (res + length bytes) s1)) = Done (r, s', w')"
      by (subst (asm) flush_read_base.simps) auto
    note a = prepare_append_ok [OF 1 (3) pa]
    from socket_read_delivers [OF rd] obtain used where
      used: "os_reads s = used @ os_reads s1" "delivered used = (case x of Inl _ \<Rightarrow> [] | Inr bytes \<Rightarrow> bytes)"
      and frame: "sent s1 = sent s" "os_writes s1 = os_writes s"
      and len: "\<forall>bytes. x = Inr bytes \<longrightarrow> length bytes \<le> min ready m"
      by blast
    show ?thesis
    proof (cases x)
      case (Inl e)
      with rest used frame a show ?thesis by auto
    next
      case (Inr bytes)
      with len have lb: "length bytes \<le> ready" "length bytes \<le> m" by auto
      with a have "writer_ok w1" "\<not> cw_null w1" "length bytes \<le> prepare_append_inplace w1"
        by (auto simp: appends_def)
      from confirm_append_ok [OF this] obtain w2 where
        w2: "confirm_append bytes w1 = Some w2" "appends w1 bytes w2" by blast
      from w2(2) have ok2: "writer_ok w2" by (simp add: appends_def)
      from rest Inr w2(1) have more: "flush_read_base (m - length bytes) (res + length bytes) s1 w2 = Done (r, s', w')"
        by simp
      have ck: "of_check (confirm_append bytes w1) = Done w2" using w2(1) by simp
      from 1 (1) [OF True pa [symmetric] refl rd refl Inr ck more ok2] obtain used' where
        u: "os_reads s1 = used' @ os_reads s'" "appends w2 (delivered used') w'"
          "sent s' = sent s1" "os_writes s' = os_writes s1"
          "\<forall>n. r = Inr n \<longrightarrow> n = res + length bytes + length (delivered used') \<and>
            length (delivered used') \<le> m - length bytes \<and>
            (length (delivered used') = m - length bytes \<or> \<not> can_read_local (sock_flags s'))"
        by blast
      have "appends w (bytes @ delivered used') w'"
        using appends_trans [OF conjunct1 [OF a]] appends_trans [OF w2(2) u(2)] by fastforce
      moreover have "delivered (used @ used') = bytes @ delivered used'" using used(2) Inr by simp
      moreover have "os_reads s = (used @ used') @ os_reads s'" using used(1) u(1) by simp
      moreover have "sent s' = sent s" "os_writes s' = os_writes s" using frame u(3,4) by simp_all
      moreover have "\<forall>n. r = Inr n \<longrightarrow> n = res + length (bytes @ delivered used') \<and> length (bytes @ delivered used') \<le> m \<and>
          (length (bytes @ delivered used') = m \<or> \<not> can_read_local (sock_flags s'))"
      proof (intro allI impI)
        fix n assume "r = Inr n"
        with u(5) have "n = res + length bytes + length (delivered used')" "length (delivered used') \<le> m - length bytes"
          "length (delivered used') = m - length bytes \<or> \<not> can_read_local (sock_flags s')" by blast+
        then show "n = res + length (bytes @ delivered used') \<and> length (bytes @ delivered used') \<le> m \<and>
          (length (bytes @ delivered used') = m \<or> \<not> can_read_local (sock_flags s'))"
          unfolding length_append using lb(2) by linarith
      qed
      ultimately show ?thesis by metis
    qed
  qed
qed

lemma gather_ok:
  assumes "chain_ok ns"
  shows "reader_ok ns r \<Longrightarrow> \<exists>sls rest. gather k ns r = Some sls \<and> visible ns r = concat sls @ rest \<and>
    (k \<noteq> 0 \<and> visible ns r \<noteq> [] \<longrightarrow> concat sls \<noteq> [])"
proof (induction k arbitrary: r)
  case (Suc k)
  obtain slice r1 where pr: "reader_prepare_read ns r = (slice, r1)" by fastforce
  from reader_prepare_read_ok [OF assms Suc.prems pr] obtain rest where
    p: "reader_ok ns r1" "visible ns r1 = visible ns r" "visible ns r = slice @ rest"
      "slice = [] \<longleftrightarrow> visible ns r = []" "length slice \<le> length (iter_slice ns (cr_begin r1))" by blast
  show ?case
  proof (cases "slice = []")
    case True
    with pr p show ?thesis by auto
  next
    case False
    from reader_confirm_read_ok [OF p(1) _ p(5)] p(2,3) obtain r2 where
      r2: "reader_confirm_read (length slice) r1 = Some r2" "reader_ok ns r2" "visible ns r2 = rest" by auto
    from Suc.IH [OF r2(2)] r2(3) obtain sls rest' where g: "gather k ns r2 = Some sls" "rest = concat sls @ rest'"
      by blast
    have "gather (Suc k) ns r = Some (slice # sls)" using False g(1) r2(1) by (simp add: pr)
    moreover have "visible ns r = concat (slice # sls) @ rest'" using p(3) g(2) by simp
    moreover have "concat (slice # sls) \<noteq> []" using False by simp
    ultimately show ?thesis by blast
  qed
qed simp

lemma write_slices_ok:
  assumes "chain_ok ns"
  shows "write_slices result s ns r = Done (x, s', r') \<Longrightarrow> reader_ok ns r \<Longrightarrow>
    reader_ok ns r' \<and> cr_sync r' = cr_sync r \<and> sent s' @ visible ns r' = sent s @ visible ns r \<and>
    hidden ns r' = hidden ns r \<and> os_reads s' = os_reads s \<and>
    (\<forall>n. x = Inr n \<longrightarrow> n + length (visible ns r') = result + length (visible ns r) \<and>
      (visible ns r' = [] \<or> \<not> can_write_local (sock_flags s')))"
  using assms
proof (induction result s ns r arbitrary: x s' r' rule: write_slices.induct)
  case (1 result s ns r)
  note size = reader_ok_lengths(2) [OF 1 (3)]
  show ?case
  proof (cases "reader_size r \<noteq> 0 \<and> can_write_local (sock_flags s)")
    case False
    with 1 (2,3) size show ?thesis by (subst (asm) write_slices.simps) auto
  next
    case True
    from gather_ok [OF 1 (4,3), of BUF_SIZE] obtain buf rest where
      buf: "gather BUF_SIZE ns r = Some buf" "visible ns r = concat buf @ rest" by blast
    with 1 (2) True obtain y s1 where wr: "socket_writev buf s = Done (y, s1)"
      and more: "(case y of Inl e \<Rightarrow> Done (Inl e, s1, r)
          | Inr n \<Rightarrow> run_bind (of_check (reader_advance ns n 0 r)) (\<lambda>(_, _, r).
              write_slices (result + n) s1 ns r)) = Done (x, s', r')"
      by (subst (asm) write_slices.simps) auto
    show ?thesis
    proof (cases y)
      case (Inl e)
      with more socket_writev_Done [OF wr] 1 (3) show ?thesis by auto
    next
      case (Inr n)
      with socket_writev_Done [OF wr] have n: "n \<le> length (concat buf)" "sent s1 = sent s @ take n (concat buf)"
        "os_reads s1 = os_reads s" by auto
      with buf(2) have n': "n \<le> length (visible ns r)" "sent s1 = sent s @ take n (visible ns r)" by auto
      from reader_advance_ok [OF 1 (4,3) n'(1), of 0] obtain r1 where
        r1: "reader_advance ns n 0 r = Some (n, [], r1)" "reader_ok ns r1" "cr_sync r1 = cr_sync r"
          "visible ns r1 = drop n (visible ns r)" "hidden ns r1 = hidden ns r" by auto
      from more Inr r1(1) have w: "write_slices (result + n) s1 ns r1 = Done (x, s', r')" by simp
      have "of_check (gather BUF_SIZE ns r) = Done buf" "of_check (reader_advance ns n 0 r) = Done (n, [], r1)"
        using buf(1) r1(1) by simp_all
      from 1 (1) [OF True this(1) wr refl Inr this(2) refl refl w r1(2) 1 (4)] n' n(3) r1(3-5)
      show ?thesis by auto
    qed
  qed
qed

definition bf_inv :: "buffered_fd \<Rightarrow> bool" where
  "bf_inv b \<longleftrightarrow> chain_inv (bf_input_writer b) (bf_input_reader b) \<and> chain_inv (bf_output_writer b) (bf_output_reader b)"

text \<open>What has been read and not taken yet, and what has been written and not sent yet.\<close>

definition unread :: "buffered_fd \<Rightarrow> string" where
  "unread b = fst (chain_abs (bf_input_writer b) (bf_input_reader b)) @ snd (chain_abs (bf_input_writer b) (bf_input_reader b))"

definition unsent :: "buffered_fd \<Rightarrow> string" where
  "unsent b = fst (chain_abs (bf_output_writer b) (bf_output_reader b)) @ snd (chain_abs (bf_output_writer b) (bf_output_reader b))"

lemma new_chain_inv:
  "\<exists>r. extract_reader (cw_nodes new_chain) = Some r \<and> chain_inv new_chain r \<and> chain_abs new_chain r = ([], [])"
  using extract_reader_ok [of "cw_nodes new_chain"] new_chain_ok
  by (auto simp: writer_ok_def chain_inv_def chain_abs_def)

lemma new_buffered_fd_ok:
  "\<exists>b. new_buffered_fd s = Done b \<and> bf_inv b \<and> unread b = [] \<and> unsent b = [] \<and> bf_socket b = s"
  using new_chain_inv by (auto simp: new_buffered_fd_def bf_inv_def unread_def unsent_def)

lemma chain_inv_sync:
  assumes "chain_inv w r"
  shows "\<exists>r'. sync_with_writer (cw_nodes w) r = Some r' \<and> chain_inv w r' \<and>
    chain_abs w r' = (fst (chain_abs w r) @ snd (chain_abs w r), [])"
  using sync_with_writer_ok [of "cw_nodes w" r] assms
  by (auto simp: chain_inv_def writer_ok_def chain_abs_def)

text \<open>Reading to the input buffer: the bytes delivered by the system are appended to it, also
  those delivered before an error; after a success all of them can be taken.\<close>

lemma flush_read_streams:
  assumes "flush_read m b = Done (r, b')" "bf_inv b"
  shows "\<exists>used. os_reads (bf_socket b) = used @ os_reads (bf_socket b') \<and> bf_inv b' \<and>
    unread b' = unread b @ delivered used \<and> unsent b' = unsent b \<and>
    sent (bf_socket b') = sent (bf_socket b) \<and>
    (\<forall>n. r = Inr n \<longrightarrow> n = length (delivered used) \<and> n \<le> m \<and>
      (n = m \<or> \<not> can_read_local (sock_flags (bf_socket b'))))"
proof -
  let ?w = "bf_input_writer b" and ?rd = "bf_input_reader b"
  from assms(1) obtain x s w where base: "flush_read_base m 0 (bf_socket b) ?w = Done (x, s, w)"
    and rest: "(let b = b\<lparr>bf_socket := s, bf_input_writer := w\<rparr> in
       case x of Inl e \<Rightarrow> Done (Inl e, b)
       | Inr n \<Rightarrow> if n \<noteq> 0
           then run_bind (of_check (sync_with_writer (cw_nodes w) (bf_input_reader b))) (\<lambda>rd.
             Done (Inr n, b\<lparr>bf_input_reader := rd\<rparr>))
           else Done (Inr n, b)) = Done (r, b')"
    by (auto simp: flush_read_def Let_def)
  from assms(2) have "writer_ok ?w" by (simp add: bf_inv_def chain_inv_def)
  from flush_read_base_ok [OF base this] obtain used where
    u: "os_reads (bf_socket b) = used @ os_reads s" "appends ?w (delivered used) w" "sent s = sent (bf_socket b)"
    and n: "\<forall>n. x = Inr n \<longrightarrow> n = 0 + length (delivered used) \<and> length (delivered used) \<le> m \<and>
      (length (delivered used) = m \<or> \<not> can_read_local (sock_flags s))" by blast
  have inv: "chain_inv w ?rd" and abs: "chain_abs w ?rd = (fst (chain_abs ?w ?rd), snd (chain_abs ?w ?rd) @ delivered used)"
    using chain_abs_appends [OF u(2)] assms(2) by (simp_all add: bf_inv_def)
  from chain_inv_sync [OF inv] obtain rd where
    rd: "sync_with_writer (cw_nodes w) ?rd = Some rd" "chain_inv w rd"
      "chain_abs w rd = (fst (chain_abs w ?rd) @ snd (chain_abs w ?rd), [])" by blast
  have "r = x \<and> (b' = b\<lparr>bf_socket := s, bf_input_writer := w\<rparr> \<or>
      b' = b\<lparr>bf_socket := s, bf_input_writer := w, bf_input_reader := rd\<rparr>)"
    using rest rd(1) by (auto simp: Let_def split: sum.splits if_splits)
  then have b': "r = x" "bf_socket b' = s" "bf_input_writer b' = w" "bf_output_writer b' = bf_output_writer b"
    "bf_output_reader b' = bf_output_reader b" "bf_input_reader b' = ?rd \<or> bf_input_reader b' = rd" by auto
  then have "chain_inv w (bf_input_reader b')" using inv rd(2) by auto
  moreover have "unread b' = unread b @ delivered used"
    using b'(3,6) abs rd(3) by (auto simp: unread_def)
  ultimately show ?thesis
    using u(1,3) n b' assms(2) by (intro exI [of _ used]) (auto simp: bf_inv_def unsent_def)
qed

lemma flush_write_streams:
  assumes "flush_write b = Done (x, b')" "bf_inv b"
  shows "bf_inv b' \<and> unread b' = unread b \<and> os_reads (bf_socket b') = os_reads (bf_socket b) \<and>
    sent (bf_socket b') @ unsent b' = sent (bf_socket b) @ unsent b \<and>
    (\<forall>n. x = Inr n \<longrightarrow> n + length (unsent b') = length (unsent b) \<and>
      (unsent b' = [] \<or> \<not> can_write_local (sock_flags (bf_socket b'))))"
proof -
  let ?w = "bf_output_writer b" and ?rd = "bf_output_reader b"
  from assms(2) have inv: "chain_inv ?w ?rd" by (simp add: bf_inv_def)
  from chain_inv_sync [OF inv] obtain rd where
    rd: "sync_with_writer (cw_nodes ?w) ?rd = Some rd" "chain_inv ?w rd"
      "chain_abs ?w rd = (fst (chain_abs ?w ?rd) @ snd (chain_abs ?w ?rd), [])" by blast
  with assms(1) obtain s r where wr: "write_slices 0 (bf_socket b) (cw_nodes ?w) rd = Done (x, s, r)"
    and b': "b' = b\<lparr>bf_socket := s, bf_output_reader := r\<rparr>"
    by (auto simp: flush_write_def)
  from rd(2) have "chain_ok (cw_nodes ?w)" "reader_ok (cw_nodes ?w) rd"
    by (auto simp: chain_inv_def writer_ok_def)
  from write_slices_ok [OF this(1) wr this(2)] rd(2,3) b' assms(2) inv show ?thesis
    by (auto simp: bf_inv_def unread_def unsent_def chain_abs_def chain_inv_def)
qed

subsection \<open>Any use of the descriptor\<close>

text \<open>The poll thread reports flags, the owner reads, writes, appends to the output buffer and
  takes from the input buffer.\<close>

datatype bf_op = Poll_flags uint32 | Flush_read nat | Flush_write | Output string | Input nat

fun bf_step :: "bf_op \<Rightarrow> buffered_fd \<Rightarrow> (string \<times> buffered_fd) run" where
  "bf_step (Poll_flags flags) b =
     (let s = bf_socket b; s = s\<lparr>sock_flags := fst (write_flags flags (sock_flags s))\<rparr>
      in Done ([], sync_fd_with_poll (b\<lparr>bf_socket := s\<rparr>)))"
| "bf_step (Flush_read m) b = run_bind (flush_read m b) (\<lambda>(_, b). Done ([], b))"
| "bf_step Flush_write b = run_bind (flush_write b) (\<lambda>(_, b). Done ([], b))"
| "bf_step (Output sl) b =
     run_bind (of_check (append_bytes sl 0 (bf_output_writer b))) (\<lambda>w. Done ([], b\<lparr>bf_output_writer := w\<rparr>))"
| "bf_step (Input n) b =
     run_bind (of_check (reader_read_as_buffer_slice (cw_nodes (bf_input_writer b)) n (bf_input_reader b)))
       (\<lambda>(out, r). Done (out, b\<lparr>bf_input_reader := r\<rparr>))"

fun bf_run :: "bf_op list \<Rightarrow> buffered_fd \<Rightarrow> (string \<times> buffered_fd) run" where
  "bf_run [] b = Done ([], b)"
| "bf_run (op # ops) b =
     run_bind (bf_step op b) (\<lambda>(out, b). run_bind (bf_run ops b) (\<lambda>(outs, b). Done (out @ outs, b)))"

definition outputs :: "bf_op list \<Rightarrow> string" where
  "outputs ops = concat (map (\<lambda>op. case op of Output sl \<Rightarrow> sl | _ \<Rightarrow> []) ops)"

definition bf_streams :: "buffered_fd \<Rightarrow> string \<Rightarrow> string \<Rightarrow> buffered_fd \<Rightarrow> bool" where
  "bf_streams b added out b' \<longleftrightarrow> bf_inv b' \<and>
     (\<exists>used. os_reads (bf_socket b) = used @ os_reads (bf_socket b') \<and> out @ unread b' = unread b @ delivered used) \<and>
     sent (bf_socket b') @ unsent b' = sent (bf_socket b) @ unsent b @ added"

lemma bf_step_streams:
  assumes "bf_inv b" "bf_step op b = Done (out, b')"
  shows "bf_streams b (outputs [op]) out b'"
proof (cases op)
  case (Poll_flags flags)
  with assms show ?thesis
    by (auto simp: bf_streams_def outputs_def sync_fd_with_poll_def SocketIo.sync_with_poll_def bf_inv_def
        unread_def unsent_def Let_def)
next
  case (Flush_read m)
  with assms obtain r where "flush_read m b = Done (r, b')" "out = []" by auto
  from flush_read_streams [OF this(1) assms(1)] this(2) show ?thesis
    by (auto simp: Flush_read bf_streams_def outputs_def)
next
  case Flush_write
  with assms obtain r where "flush_write b = Done (r, b')" "out = []" by auto
  from flush_write_streams [OF this(1) assms(1)] this(2) show ?thesis
    by (auto simp: Flush_write bf_streams_def outputs_def)
next
  case (Output sl)
  let ?w = "bf_output_writer b"
  from assms(1) have inv: "chain_inv ?w (bf_output_reader b)" by (simp add: bf_inv_def)
  then have "writer_ok ?w" by (simp add: chain_inv_def)
  from append_bytes_ok [OF this, of sl 0] obtain w where
    w: "append_bytes sl 0 ?w = Some w" "appends ?w sl w" by blast
  have "b' = b\<lparr>bf_output_writer := w\<rparr>" "out = []" using assms(2) Output w(1) by auto
  with chain_abs_appends [OF w(2) inv] assms(1) show ?thesis
    by (auto simp: Output bf_streams_def outputs_def bf_inv_def unread_def unsent_def)
next
  case (Input n)
  let ?w = "bf_input_writer b" and ?r = "bf_input_reader b"
  from assms(1) have inv: "chain_ok (cw_nodes ?w)" "reader_ok (cw_nodes ?w) ?r" "chain_inv ?w ?r"
    by (auto simp: bf_inv_def chain_inv_def writer_ok_def)
  from reader_read_as_buffer_slice_ok [OF inv(1,2), of n] obtain res r where
    r: "reader_read_as_buffer_slice (cw_nodes ?w) n ?r = Some (res, r)" "reader_ok (cw_nodes ?w) r" "cr_sync r = cr_sync ?r"
      "visible (cw_nodes ?w) ?r = res @ visible (cw_nodes ?w) r" "hidden (cw_nodes ?w) r = hidden (cw_nodes ?w) ?r"
    by blast
  have "b' = b\<lparr>bf_input_reader := r\<rparr>" "out = res" using assms(2) Input r(1) by auto
  with r inv assms(1) show ?thesis
    by (auto simp: Input bf_streams_def outputs_def bf_inv_def unread_def unsent_def chain_inv_def chain_abs_def)
qed

lemma bf_run_streams:
  "bf_inv b \<Longrightarrow> bf_run ops b = Done (out, b') \<Longrightarrow> bf_streams b (outputs ops) out b'"
proof (induction ops arbitrary: b out)
  case (Cons op ops)
  from Cons.prems(2) obtain out1 b1 out2 where
    s: "bf_step op b = Done (out1, b1)" and r: "bf_run ops b1 = Done (out2, b')" and out: "out = out1 @ out2" by auto
  note 1 = bf_step_streams [OF Cons.prems(1) s]
  then have "bf_inv b1" by (simp add: bf_streams_def)
  from 1 Cons.IH [OF this r] obtain used1 used2 where
    "os_reads (bf_socket b) = used1 @ os_reads (bf_socket b1)" "out1 @ unread b1 = unread b @ delivered used1"
    "os_reads (bf_socket b1) = used2 @ os_reads (bf_socket b')" "out2 @ unread b' = unread b1 @ delivered used2"
    "sent (bf_socket b1) @ unsent b1 = sent (bf_socket b) @ unsent b @ outputs [op]"
    "sent (bf_socket b') @ unsent b' = sent (bf_socket b1) @ unsent b1 @ outputs ops" "bf_inv b'"
    unfolding bf_streams_def by blast
  moreover from this have "out @ unread b' = unread b @ delivered (used1 @ used2)"
    unfolding out by (metis append.assoc delivered_simps(4))
  moreover have "outputs (op # ops) = outputs [op] @ outputs ops" by (simp add: outputs_def)
  ultimately show ?case
    unfolding bf_streams_def by (metis append.assoc)
qed (auto simp: bf_streams_def outputs_def)

text \<open>C7: A buffered descriptor is a pair of streams. After any use of it, whatever flags the poll thread
  reports and whatever the system calls return, with partial writes, interrupted calls, end of
  input and errors in between: what was taken from the input followed by what is buffered is
  exactly what the read calls delivered, and what the system has accepted followed by what is
  buffered is exactly what was written to the output.\<close>

theorem buffered_fd_streams:
  assumes "new_buffered_fd s = Done b0" "bf_run ops b0 = Done (taken, b)"
  shows "(\<exists>used. os_reads s = used @ os_reads (bf_socket b) \<and> taken @ unread b = delivered used) \<and>
    sent (bf_socket b) @ unsent b = sent s @ outputs ops"
proof -
  from assms(1) new_buffered_fd_ok [of s] have "bf_inv b0" "unread b0 = []" "unsent b0 = []" "bf_socket b0 = s" by auto
  with bf_run_streams [OF this(1) assms(2)] show ?thesis by (simp add: bf_streams_def)
qed

definition demo_socket :: socket where
  "demo_socket = \<lparr>sock_fd = 7, sock_flags = new_flags_set, os_reads = [Sys_errno EINTR, Sys_ok ''abc'', Sys_errno EAGAIN],
     os_writes = [Sys_ok 2, Sys_errno EAGAIN], os_errors = [], sent = []\<rparr>"

definition demo_ops :: "bf_op list" where
  "demo_ops = [Output ''xyz'', Poll_flags flag_ReadWrite, Flush_write, Flush_read 100, Input 2]"

lemma demo_run:
  "case new_buffered_fd demo_socket of
     Done b0 \<Rightarrow> (case bf_run demo_ops b0 of Done (taken, b) \<Rightarrow> taken = ''ab'' \<and> sent (bf_socket b) = ''xy'' | _ \<Rightarrow> False)
   | _ \<Rightarrow> False"
  by code_simp

theorem buffered_fd_streams_witness:
  "\<exists>b0 b used. new_buffered_fd demo_socket = Done b0 \<and> bf_run demo_ops b0 = Done (''ab'', b) \<and>
     os_reads demo_socket = used @ os_reads (bf_socket b) \<and> ''ab'' @ unread b = delivered used \<and>
     ''xy'' @ unsent b = outputs demo_ops"
proof -
  from demo_run obtain b0 b where run: "new_buffered_fd demo_socket = Done b0" "bf_run demo_ops b0 = Done (''ab'', b)"
    "sent (bf_socket b) = ''xy''"
    by (auto split: run.splits)
  from buffered_fd_streams [OF run(1,2)] run show ?thesis by (auto simp: demo_socket_def)
qed

end
