(* ===== verification/TransparentProxy.thy ===== *)
theory TransparentProxy
  imports BufferedFd "HOL-Library.Code_Target_Nat"
begin

text \<open>
  The actor that connects through a proxy (\<^verbatim>\<open>pxcnet/pxc/net/TransparentProxy.cpp\<close>). The
  protocol is a virtual method \<^verbatim>\<open>loop_impl\<close> of a derived class: an argument of the model,
  with the state of the derived class in \<open>px_sub\<close>; it may use the descriptor and call
  \<^verbatim>\<open>stop\<close>. The results given to the callback are recorded, and \<open>px_callback\<close> says
  whether the pointer to it is set.
\<close>

record 's proxy =
  px_fd :: buffered_fd
  px_callback :: bool
  px_results :: "buffered_fd result list"
  px_timeout :: "nat option"
  px_subscribed :: bool
  px_stopped :: bool
  px_sub :: 's

definition new_proxy :: "buffered_fd \<Rightarrow> 's \<Rightarrow> 's proxy" where
  "new_proxy fd sub = \<lparr>px_fd = fd, px_callback = True, px_results = [], px_timeout = None,
     px_subscribed = False, px_stopped = False, px_sub = sub\<rparr>"

definition set_result :: "buffered_fd result \<Rightarrow> 's proxy \<Rightarrow> 's proxy" where
  "set_result r p = p\<lparr>px_results := px_results p @ [r], px_callback := False\<rparr>"

definition proxy_on_error :: "status_error \<Rightarrow> 's proxy \<Rightarrow> 's proxy" where
  "proxy_on_error status p =
     (let p = (if px_callback p then set_result (Inl status) p else p) in p\<lparr>px_stopped := True\<rparr>)"

definition proxy_tear_down :: "'s proxy \<Rightarrow> 's proxy" where
  "proxy_tear_down p =
     (let p = p\<lparr>px_subscribed := False\<rparr> in
      if px_callback p then
        (if left_unread (px_fd p) \<noteq> 0 then set_result (error_result ''Proxy has sent too many data'') p
         else set_result (Inr (px_fd p)) p)
      else p)"

definition proxy_hangup :: "'s proxy \<Rightarrow> 's proxy" where
  "proxy_hangup p = proxy_on_error (Error_msg ''Canceled'') p"

definition proxy_timeout_expired :: "'s proxy \<Rightarrow> 's proxy" where
  "proxy_timeout_expired p = proxy_on_error (Error_msg ''Connection timeout expired'') p"

text \<open>The lambda of \<^verbatim>\<open>loop\<close>, up to its status.\<close>

definition proxy_do_loop :: "('s proxy \<Rightarrow> (status \<times> 's proxy) run) \<Rightarrow> 's proxy \<Rightarrow> (status \<times> 's proxy) run" where
  "proxy_do_loop loop_impl p =
     run_bind (flush_read (2 ^ 64 - 1) (px_fd p)) (\<lambda>(r, fd).
       let p = p\<lparr>px_fd := fd\<rparr> in
       case r of Inl e \<Rightarrow> Done (Some e, p)
       | Inr _ \<Rightarrow> run_bind (loop_impl p) (\<lambda>(st, p).
           case st of Some e \<Rightarrow> Done (Some e, p)
           | None \<Rightarrow> run_bind (flush_write (px_fd p)) (\<lambda>(r, fd).
               let p = p\<lparr>px_fd := fd\<rparr> in
               case r of Inl e \<Rightarrow> Done (Some e, p)
               | Inr _ \<Rightarrow> Done (if can_close_local (sock_flags (bf_socket fd))
                   then Some (Error_msg ''Connection closed'') else None, p))))"

definition proxy_loop :: "('s proxy \<Rightarrow> (status \<times> 's proxy) run) \<Rightarrow> 's proxy \<Rightarrow> 's proxy run" where
  "proxy_loop loop_impl p =
     run_bind (proxy_do_loop loop_impl (p\<lparr>px_fd := sync_fd_with_poll (px_fd p)\<rparr>)) (\<lambda>(status, p).
       Done (case status of Some e \<Rightarrow> proxy_on_error e p | None \<Rightarrow> p))"

definition proxy_start_up :: "('s proxy \<Rightarrow> (status \<times> 's proxy) run) \<Rightarrow> 's proxy \<Rightarrow> 's proxy run" where
  "proxy_start_up loop_impl p =
     (let p = p\<lparr>px_subscribed := True, px_timeout := Some 10, px_fd := sync_fd_with_poll (px_fd p)\<rparr>
      in if can_write_local (sock_flags (bf_socket (px_fd p))) then proxy_loop loop_impl p else Done p)"

subsection \<open>The life of the actor\<close>

text \<open>The scheduler delivers events until the actor has called \<^verbatim>\<open>stop\<close> in one of them, and
  then tears it down. A wake-up comes after the poll thread has written flags.\<close>

datatype proxy_wake = Wake_up uint32 | Hang_up | Timeout

fun proxy_event :: "('s proxy \<Rightarrow> (status \<times> 's proxy) run) \<Rightarrow> proxy_wake \<Rightarrow> 's proxy \<Rightarrow> 's proxy run" where
  "proxy_event loop_impl (Wake_up flags) p =
     (let fd = px_fd p; s = bf_socket fd; s = s\<lparr>sock_flags := fst (write_flags flags (sock_flags s))\<rparr>
      in proxy_loop loop_impl (p\<lparr>px_fd := fd\<lparr>bf_socket := s\<rparr>\<rparr>))"
| "proxy_event loop_impl Hang_up p = Done (proxy_hangup p)"
| "proxy_event loop_impl Timeout p = Done (proxy_timeout_expired p)"

fun proxy_events :: "('s proxy \<Rightarrow> (status \<times> 's proxy) run) \<Rightarrow> proxy_wake list \<Rightarrow> 's proxy \<Rightarrow> ('s proxy \<times> bool) run" where
  "proxy_events loop_impl evs p =
     (if px_stopped p then Done (proxy_tear_down p, True)
      else case evs of
          [] \<Rightarrow> Done (p, False)
        | ev # evs \<Rightarrow> run_bind (proxy_event loop_impl ev p) (proxy_events loop_impl evs))"

declare proxy_events.simps [simp del]

definition proxy_life :: "('s proxy \<Rightarrow> (status \<times> 's proxy) run) \<Rightarrow> proxy_wake list \<Rightarrow> buffered_fd \<Rightarrow> 's \<Rightarrow> ('s proxy \<times> bool) run" where
  "proxy_life loop_impl evs fd sub =
     run_bind (proxy_start_up loop_impl (new_proxy fd sub)) (proxy_events loop_impl evs)"

subsection \<open>One result\<close>

text \<open>A derived class leaves the callback to this one.\<close>

definition keeps_callback :: "('s proxy \<Rightarrow> (status \<times> 's proxy) run) \<Rightarrow> bool" where
  "keeps_callback loop_impl \<longleftrightarrow> (\<forall>p st p'. loop_impl p = Done (st, p') \<longrightarrow>
     px_callback p' = px_callback p \<and> px_results p' = px_results p \<and> px_subscribed p' = px_subscribed p)"

text \<open>Nothing has been reported, or an error and the actor is about to end.\<close>

definition unreported :: "'s proxy \<Rightarrow> bool" where
  "unreported p \<longleftrightarrow> (if px_callback p then px_results p = []
     else px_stopped p \<and> (\<exists>e. px_results p = [Inl e]))"

lemma on_error_unreported: "unreported p \<Longrightarrow> unreported (proxy_on_error e p) \<and> px_stopped (proxy_on_error e p)"
  by (auto simp: proxy_on_error_def set_result_def unreported_def Let_def)

lemma do_loop_keeps:
  assumes "keeps_callback loop_impl" "proxy_do_loop loop_impl p = Done (st, p')"
  shows "px_callback p' = px_callback p \<and> px_results p' = px_results p"
proof -
  from assms(2) obtain r fd where "flush_read (2 ^ 64 - 1) (px_fd p) = Done (r, fd)"
    and rest: "(case r of Inl e \<Rightarrow> Done (Some e, p\<lparr>px_fd := fd\<rparr>)
       | Inr _ \<Rightarrow> run_bind (loop_impl (p\<lparr>px_fd := fd\<rparr>)) (\<lambda>(st, p).
           case st of Some e \<Rightarrow> Done (Some e, p)
           | None \<Rightarrow> run_bind (flush_write (px_fd p)) (\<lambda>(r, fd).
               let p = p\<lparr>px_fd := fd\<rparr> in
               case r of Inl e \<Rightarrow> Done (Some e, p)
               | Inr _ \<Rightarrow> Done (if can_close_local (sock_flags (bf_socket fd))
                   then Some (Error_msg ''Connection closed'') else None, p)))) = Done (st, p')"
    by (auto simp: proxy_do_loop_def Let_def)
  show ?thesis
  proof (cases r)
    case (Inl e)
    with rest show ?thesis by auto
  next
    case (Inr n)
    with rest obtain st1 p1 where li: "loop_impl (p\<lparr>px_fd := fd\<rparr>) = Done (st1, p1)"
      and more: "(case st1 of Some e \<Rightarrow> Done (Some e, p1)
           | None \<Rightarrow> run_bind (flush_write (px_fd p1)) (\<lambda>(r, fd).
               let p = p1\<lparr>px_fd := fd\<rparr> in
               case r of Inl e \<Rightarrow> Done (Some e, p)
               | Inr _ \<Rightarrow> Done (if can_close_local (sock_flags (bf_socket fd))
                   then Some (Error_msg ''Connection closed'') else None, p))) = Done (st, p')"
      by auto
    have "px_callback p1 = px_callback p \<and> px_results p1 = px_results p"
      using assms(1) li unfolding keeps_callback_def by fastforce
    moreover have "px_callback p' = px_callback p1 \<and> px_results p' = px_results p1"
    proof (cases st1)
      case None
      with more obtain r2 fd2 where fw: "flush_write (px_fd p1) = Done (r2, fd2)"
        by (cases "flush_write (px_fd p1)") auto
      with None more show ?thesis by (cases r2) (auto simp: Let_def)
    next
      case (Some e)
      with more show ?thesis by simp
    qed
    ultimately show ?thesis by simp
  qed
qed

lemma loop_unreported:
  assumes "keeps_callback loop_impl" "unreported p" "\<not> px_stopped p" "proxy_loop loop_impl p = Done p'"
  shows "unreported p'"
proof -
  from assms(4) obtain st p1 where
    d: "proxy_do_loop loop_impl (p\<lparr>px_fd := sync_fd_with_poll (px_fd p)\<rparr>) = Done (st, p1)"
      "p' = (case st of Some e \<Rightarrow> proxy_on_error e p1 | None \<Rightarrow> p1)"
    by (auto simp: proxy_loop_def)
  from do_loop_keeps [OF assms(1) d(1)] assms(2,3) have "unreported p1" by (auto simp: unreported_def)
  with d(2) on_error_unreported show ?thesis by (auto split: option.splits)
qed

lemma event_unreported:
  assumes "keeps_callback loop_impl" "unreported p" "\<not> px_stopped p" "proxy_event loop_impl ev p = Done p'"
  shows "unreported p'"
proof (cases ev)
  case (Wake_up flags)
  with assms(4) obtain fd where "proxy_loop loop_impl (p\<lparr>px_fd := fd\<rparr>) = Done p'" by (auto simp: Let_def)
  moreover have "unreported (p\<lparr>px_fd := fd\<rparr>)" "\<not> px_stopped (p\<lparr>px_fd := fd\<rparr>)"
    using assms(2,3) by (auto simp: unreported_def split: if_splits)
  ultimately show ?thesis using loop_unreported [OF assms(1)] by blast
next
  case Hang_up
  with assms(2,4) on_error_unreported show ?thesis by (auto simp: proxy_hangup_def)
next
  case Timeout
  with assms(2,4) on_error_unreported show ?thesis by (auto simp: proxy_timeout_expired_def)
qed

definition reported_once :: "'s proxy \<times> bool \<Rightarrow> bool" where
  "reported_once = (\<lambda>(p, ended).
     if ended then \<not> px_callback p \<and> \<not> px_subscribed p \<and>
       (\<exists>r. px_results p = [r] \<and> (case r of Inl _ \<Rightarrow> True | Inr fd \<Rightarrow> left_unread fd = 0))
     else px_callback p \<and> px_results p = [])"

lemma events_report_once:
  assumes "keeps_callback loop_impl"
  shows "unreported p \<Longrightarrow> proxy_events loop_impl evs p = Done q \<Longrightarrow> reported_once q"
proof (induction evs arbitrary: p)
  case Nil
  then show ?case
    by (subst (asm) proxy_events.simps)
      (auto simp: reported_once_def proxy_tear_down_def set_result_def unreported_def Let_def split: if_splits)
next
  case (Cons ev evs)
  show ?case
  proof (cases "px_stopped p")
    case True
    with Cons.prems show ?thesis
      by (subst (asm) proxy_events.simps)
        (auto simp: reported_once_def proxy_tear_down_def set_result_def unreported_def Let_def split: if_splits)
  next
    case False
    with Cons.prems(2) obtain p1 where "proxy_event loop_impl ev p = Done p1" "proxy_events loop_impl evs p1 = Done q"
      by (subst (asm) proxy_events.simps) auto
    with event_unreported [OF assms Cons.prems(1) False] Cons.IH show ?thesis by blast
  qed
qed

text \<open>C11: The proxy actor reports exactly once. For every protocol that leaves the callback alone, every
  sequence of wake-ups, cancellations and timeouts and every behaviour of the system: while the
  actor lives nothing has been reported; when it has been torn down exactly one result has
  been, and if that is the connection then no byte of the input buffer is left behind.\<close>

theorem proxy_reports_once:
  assumes "keeps_callback loop_impl" "proxy_life loop_impl evs fd sub = Done (p, ended)"
  shows "if ended then \<not> px_callback p \<and> \<not> px_subscribed p \<and>
       (\<exists>r. px_results p = [r] \<and> (case r of Inl _ \<Rightarrow> True | Inr fd \<Rightarrow> left_unread fd = 0))
     else px_callback p \<and> px_results p = []"
proof -
  let ?p = "(new_proxy fd sub)\<lparr>px_subscribed := True, px_timeout := Some 10, px_fd := sync_fd_with_poll fd\<rparr>"
  from assms(2) obtain p1 where st: "proxy_start_up loop_impl (new_proxy fd sub) = Done p1"
    and ev: "proxy_events loop_impl evs p1 = Done (p, ended)"
    by (auto simp: proxy_life_def)
  have new: "unreported ?p" "\<not> px_stopped ?p" by (simp_all add: unreported_def new_proxy_def)
  have "p1 = ?p \<or> proxy_loop loop_impl ?p = Done p1"
    using st by (auto simp: proxy_start_up_def new_proxy_def Let_def split: if_splits)
  then have "unreported p1" using new loop_unreported [OF assms(1) new] by blast
  from events_report_once [OF assms(1) this ev] show ?thesis by (simp add: reported_once_def)
qed

text \<open>A protocol that sends a greeting, waits for an answer of two bytes and stops.\<close>

definition demo_loop :: "bool proxy \<Rightarrow> (status \<times> bool proxy) run" where
  "demo_loop p =
     (let fd = px_fd p in
      if \<not> px_sub p then
        run_bind (of_check (append_bytes [chr 5, chr 1, chr 0] 0 (bf_output_writer fd))) (\<lambda>w.
          Done (None, p\<lparr>px_fd := fd\<lparr>bf_output_writer := w\<rparr>, px_sub := True\<rparr>))
      else if left_unread fd < 2 then Done (None, p)
      else run_bind (of_check (reader_read_as_buffer_slice (cw_nodes (bf_input_writer fd)) 2 (bf_input_reader fd)))
        (\<lambda>(_, r). Done (None, p\<lparr>px_fd := fd\<lparr>bf_input_reader := r\<rparr>, px_stopped := True\<rparr>)))"

lemma demo_loop_keeps: "keeps_callback demo_loop"
  by (auto simp: keeps_callback_def demo_loop_def Let_def split: if_splits)

definition demo_life :: "buffered_fd \<Rightarrow> (bool proxy \<times> bool) run" where
  "demo_life fd = proxy_life demo_loop [Wake_up flag_Write, Wake_up flag_Read] fd False"

definition proxy_socket :: socket where
  "proxy_socket = \<lparr>sock_fd = 7, sock_flags = new_flags_set, os_reads = [Sys_ok [chr 5, chr 0], Sys_errno EAGAIN],
     os_writes = [Sys_ok 3], os_errors = [], sent = []\<rparr>"

lemma demo_life_ends:
  "case run_bind (new_buffered_fd proxy_socket) demo_life of
     Done (p, ended) \<Rightarrow> ended \<and> sent (bf_socket (px_fd p)) = [chr 5, chr 1, chr 0]
   | _ \<Rightarrow> False"
  by code_simp

theorem proxy_reports_once_witness:
  "\<exists>fd p r. new_buffered_fd proxy_socket = Done fd \<and> demo_life fd = Done (p, True) \<and>
     px_results p = [r] \<and> (case r of Inl _ \<Rightarrow> True | Inr fd \<Rightarrow> left_unread fd = 0)"
proof -
  from demo_life_ends obtain fd p where run: "new_buffered_fd proxy_socket = Done fd" "demo_life fd = Done (p, True)"
    by (auto split: run.splits prod.splits)
  from proxy_reports_once [OF demo_loop_keeps run(2) [unfolded demo_life_def]] run show ?thesis by auto
qed

end
