(* ===== verification/Punycode.thy ===== *)
theory Punycode
  imports Utf8 Misc
begin

text \<open>
  Host names in ASCII: \<^verbatim>\<open>punycode\<close> and \<^verbatim>\<open>idn_to_ascii\<close> of
  \<^verbatim>\<open>utils/port/IPAddress.cpp\<close>. The counters of the source are 32-bit unsigned
  integers, here \<open>nat\<close>s reduced modulo \<open>2 ^ 32\<close>; \<^verbatim>\<open>bias\<close> and
  \<^verbatim>\<open>left\<close> are signed. The reference is the decoder of RFC 3492, section 6.2.
\<close>

subsection \<open>The encoder\<close>

definition u32 :: "nat \<Rightarrow> nat" where
  "u32 n = n mod 2 ^ 32"

definition to_int32 :: "nat \<Rightarrow> int" where
  "to_int32 n = (if n < 2 ^ 31 then int n else int n - 2 ^ 32)"

definition is_ascii_host_char :: "char \<Rightarrow> bool" where
  "is_ascii_host_char c \<longleftrightarrow> uc c \<le> 127"

definition is_ascii_host :: "string \<Rightarrow> bool" where
  "is_ascii_host host \<longleftrightarrow> list_all is_ascii_host_char host"

text \<open>The codes of a part, its ASCII characters in lower case and their number.\<close>

fun puny_codes :: "nat \<Rightarrow> string \<Rightarrow> nat list \<Rightarrow> string \<Rightarrow> nat \<Rightarrow> (nat list \<times> string \<times> nat) option" where
  "puny_codes 0 part codes result processed = None"
| "puny_codes (Suc fuel) part codes result processed =
     (if part = [] then Some (codes, result, processed)
      else case next_utf8_unsafe part of
          None \<Rightarrow> None
        | Some (code, part) \<Rightarrow>
            if code \<le> 127
            then puny_codes fuel part (codes @ [code]) (result @ [to_lower_char (chr code)]) (u32 (processed + 1))
            else puny_codes fuel part (codes @ [code]) result processed)"

definition puny_digit :: "int \<Rightarrow> char" where
  "puny_digit d = (if d < 26 then chr (nat ((d + 97) mod 256)) else chr (nat ((d - 26 + 48) mod 256)))"

function puny_digits :: "int \<Rightarrow> int \<Rightarrow> string" where
  "puny_digits left bias =
     (let bias = bias + 36; t = clamp bias 1 26 in
      if left < t then [chr (nat ((left + 97) mod 256))]
      else
        let left = left - t; digit = t + left mod (36 - t)
        in puny_digit digit # puny_digits (left div (36 - t)) bias)"
  by pat_completeness auto
termination
proof (relation "measure (\<lambda>(left, _). nat left)")
  fix left bias bias' t left' digit :: int
  assume a: "bias' = bias + 36" "t = clamp bias' 1 26" "\<not> left < t" "left' = left - t"
  then have t: "1 \<le> t" "t \<le> 26" by (auto simp: clamp_def)
  with a have "left' div (36 - t) \<le> left' div 1" by (intro zdiv_mono2) auto
  with a t show "((left' div (36 - t), bias'), left, bias) \<in> measure (\<lambda>(left, _). nat left)" by auto
qed simp

declare puny_digits.simps [simp del]

function puny_bias_loop :: "nat \<Rightarrow> int \<Rightarrow> int" where
  "puny_bias_loop delta bias =
     (if delta > 35 * 13 then puny_bias_loop (delta div 35) (bias - 36)
      else bias - to_int32 (u32 (36 * delta) div u32 (delta + 38)))"
  by pat_completeness auto
termination by (relation "measure fst") auto

declare puny_bias_loop.simps [simp del]

record puny =
  pu_result :: string
  pu_processed :: nat
  pu_delta :: nat
  pu_bias :: int
  pu_is_first :: bool

text \<open>A code is the next to encode: its delta and the new bias.\<close>

definition puny_emit :: "puny \<Rightarrow> puny" where
  "puny_emit s =
     (let result = pu_result s @ puny_digits (to_int32 (pu_delta s)) (pu_bias s);
          processed = u32 (pu_processed s + 1);
          delta = (if pu_is_first s then pu_delta s div 700 else pu_delta s div 2);
          delta = u32 (delta + delta div processed)
      in \<lparr>pu_result = result, pu_processed = processed, pu_delta = 0,
          pu_bias = puny_bias_loop delta 0, pu_is_first = False\<rparr>)"

fun puny_pass :: "nat \<Rightarrow> nat list \<Rightarrow> puny \<Rightarrow> puny" where
  "puny_pass next_n [] s = s"
| "puny_pass next_n (code # codes) s =
     (let s = (if code < next_n then s\<lparr>pu_delta := u32 (pu_delta s + 1)\<rparr> else s);
          s = (if code = next_n then puny_emit s else s)
      in puny_pass next_n codes s)"

definition puny_next :: "nat \<Rightarrow> nat list \<Rightarrow> nat" where
  "puny_next n codes = foldl (\<lambda>next_n code. if code > n \<and> code < next_n then code else next_n) 0x110000 codes"

partial_function (option) puny_loop :: "nat list \<Rightarrow> nat \<Rightarrow> puny \<Rightarrow> puny option" where
  "puny_loop codes n s =
     (if pu_processed s < length codes
      then
        let next_n = puny_next n codes;
            s = s\<lparr>pu_delta := u32 (pu_delta s + u32 (next_n - n - 1) * u32 (pu_processed s + 1))\<rparr>;
            s = puny_pass next_n codes s;
            s = s\<lparr>pu_delta := u32 (pu_delta s + 1)\<rparr>
        in puny_loop codes next_n s
      else Some s)"

declare puny_loop.simps [code]

definition punycode :: "string \<Rightarrow> string \<Rightarrow> string option" where
  "punycode result part =
     Option.bind (puny_codes (Suc (length part)) part [] result 0) (\<lambda>(codes, result, processed).
       map_option pu_result
         (puny_loop codes 127
           \<lparr>pu_result = (if processed > 0 then result @ ''-'' else result), pu_processed = processed,
            pu_delta = 0, pu_bias = - 72, pu_is_first = True\<rparr>))"

subsection \<open>The decoder of the standard\<close>

definition rfc_digit :: "char \<Rightarrow> nat option" where
  "rfc_digit c =
     (if uc CHR ''a'' \<le> uc c \<and> uc c \<le> uc CHR ''z'' then Some (uc c - uc CHR ''a'')
      else if uc CHR ''A'' \<le> uc c \<and> uc c \<le> uc CHR ''Z'' then Some (uc c - uc CHR ''A'')
      else if uc CHR ''0'' \<le> uc c \<and> uc c \<le> uc CHR ''9'' then Some (uc c - uc CHR ''0'' + 26)
      else None)"

fun rfc_delta :: "nat \<Rightarrow> nat \<Rightarrow> nat \<Rightarrow> nat \<Rightarrow> string \<Rightarrow> (nat \<times> string) option" where
  "rfc_delta k bias w i [] = None"
| "rfc_delta k bias w i (c # s) =
     (case rfc_digit c of None \<Rightarrow> None
      | Some digit \<Rightarrow>
          let i = i + digit * w;
              t = (if k \<le> bias then 1 else if k \<ge> bias + 26 then 26 else k - bias)
          in if digit < t then Some (i, s) else rfc_delta (k + 36) bias (w * (36 - t)) i s)"

fun rfc_adapt_loop :: "nat \<Rightarrow> nat \<Rightarrow> nat" where
  "rfc_adapt_loop delta k =
     (if delta > (35 * 26) div 2 then rfc_adapt_loop (delta div 35) (k + 36)
      else k + 36 * delta div (delta + 38))"

declare rfc_adapt_loop.simps [simp del]

definition rfc_adapt :: "nat \<Rightarrow> nat \<Rightarrow> bool \<Rightarrow> nat" where
  "rfc_adapt delta numpoints firsttime =
     (let delta = (if firsttime then delta div 700 else delta div 2)
      in rfc_adapt_loop (delta + delta div numpoints) 0)"

lemma rfc_delta_shorter: "rfc_delta k bias w i s = Some (i', s') \<Longrightarrow> length s' < length s"
  by (induction k bias w i s rule: rfc_delta.induct) (auto simp: Let_def split: option.splits if_splits intro: less_SucI)

function rfc_decode_loop :: "nat \<Rightarrow> nat \<Rightarrow> nat \<Rightarrow> nat list \<Rightarrow> string \<Rightarrow> nat list option" where
  "rfc_decode_loop n i bias out s =
     (if s = [] then Some out
      else case rfc_delta 36 bias 1 i s of None \<Rightarrow> None
        | Some (i', s') \<Rightarrow>
            let len = length out + 1; bias = rfc_adapt (i' - i) len (i = 0); n = n + i' div len; i = i' mod len
            in rfc_decode_loop n (i + 1) bias (take i out @ n # drop i out) s')"
  by pat_completeness auto
termination
  by (relation "measure (\<lambda>(_, _, _, _, s). length s)") (auto dest: rfc_delta_shorter)

declare rfc_decode_loop.simps [simp del]

definition rfc_decode :: "string \<Rightarrow> nat list option" where
  "rfc_decode s =
     (case rfind_char CHR ''-'' s of
        None \<Rightarrow> rfc_decode_loop 128 0 72 [] s
      | Some d \<Rightarrow>
          if d = 0 then rfc_decode_loop 128 0 72 [] s
          else rfc_decode_loop 128 0 72 (List.map uc (take d s)) (drop (d + 1) s))"

subsection \<open>One delta\<close>

lemma u32_small [simp]: "n < 2 ^ 32 \<Longrightarrow> u32 n = n"
  by (simp add: u32_def)

lemma puny_bias_loop_adapt: "puny_bias_loop delta (- int k) = - int (rfc_adapt_loop delta k)"
proof (induction delta k rule: rfc_adapt_loop.induct)
  case (1 delta k)
  show ?case
  proof (cases "delta > 455")
    case True
    then have "puny_bias_loop delta (- int k) = puny_bias_loop (delta div 35) (- int (k + 36))"
      by (subst puny_bias_loop.simps) simp
    also have "\<dots> = - int (rfc_adapt_loop (delta div 35) (k + 36))" using 1 True by simp
    also have "\<dots> = - int (rfc_adapt_loop delta k)" using True by (subst (2) rfc_adapt_loop.simps) simp
    finally show ?thesis .
  next
    case False
    have "36 * delta div (delta + 38) < 2147483648"
      using False div_le_dividend [of "36 * delta" "delta + 38"] by linarith
    then have "36 * delta div (delta + 38) < 2 ^ 31" by simp
    moreover have "u32 (36 * delta) = 36 * delta" "u32 (delta + 38) = delta + 38"
      using False by (intro u32_small, simp)+
    ultimately show ?thesis
      using False by (subst puny_bias_loop.simps, subst rfc_adapt_loop.simps) (simp add: to_int32_def)
  qed
qed

lemma rfc_digit_low: "0 \<le> d \<Longrightarrow> d < 26 \<Longrightarrow> rfc_digit (chr (nat ((d + 97) mod 256))) = Some (nat d)"
  by (simp add: rfc_digit_def nat_add_distrib)

lemma rfc_digit_puny: "0 \<le> d \<Longrightarrow> d < 36 \<Longrightarrow> rfc_digit (puny_digit d) = Some (nat d)"
proof (cases "d < 26")
  case False
  assume "0 \<le> d" "d < 36"
  with False have "nat ((d - 26 + 48) mod 256) = nat d + 22" by simp
  with False \<open>d < 36\<close> show ?thesis by (simp add: puny_digit_def rfc_digit_def le_nat_iff nat_le_iff)
next
  case True
  assume "0 \<le> d" "d < 36"
  with True rfc_digit_low [of d] show ?thesis by (simp add: puny_digit_def)
qed

lemma rfc_delta_digits:
  "0 \<le> left \<Longrightarrow> rfc_delta k bias w i (puny_digits left (int k - 36 - int bias) @ s) = Some (i + nat left * w, s)"
proof (induction "nat left" arbitrary: left k w i rule: less_induct)
  case less
  let ?t = "if k \<le> bias then 1 else if k \<ge> bias + 26 then 26 else k - bias"
  have t: "clamp (int k - int bias) 1 26 = int ?t" by (auto simp: clamp_def)
  have t1: "1 \<le> ?t" "?t \<le> 26" by auto
  define t where "t = ?t"
  show ?case
  proof (cases "left < int t")
    case True
    then have "puny_digits left (int k - 36 - int bias) = [chr (nat ((left + 97) mod 256))]"
      using t by (subst puny_digits.simps) (simp add: t_def)
    moreover have "left < 26" using True t1 by (simp add: t_def split: if_splits)
    ultimately show ?thesis
      using less.prems True rfc_digit_low [of left] by (simp add: t_def [symmetric] nat_less_iff)
  next
    case False
    let ?l = "(left - int t) div (36 - int t)" and ?d = "int t + (left - int t) mod (36 - int t)"
    from False t1 have l0: "0 \<le> left - int t" "10 \<le> 36 - int t" by (auto simp: t_def split: if_splits)
    have step: "puny_digits left (int k - 36 - int bias) =
        puny_digit ?d # puny_digits ?l (int (k + 36) - 36 - int bias)"
      using t False by (subst puny_digits.simps) (simp add: t_def Let_def)
    have d: "int t \<le> ?d" "?d < 36"
      using l0 pos_mod_bound [of "36 - int t" "left - int t"] pos_mod_sign [of "36 - int t" "left - int t"] by linarith+
    have "?l \<le> (left - int t) div 1" using l0 by (intro zdiv_mono2) auto
    then have lt: "nat ?l < nat left" and l: "0 \<le> ?l"
      using l0 t1 False by (auto simp: t_def div_int_pos_iff split: if_splits)
    have dt: "\<not> nat ?d < t" using d by linarith
    have "rfc_delta k bias w i ((puny_digit ?d # puny_digits ?l (int (k + 36) - 36 - int bias)) @ s) =
        rfc_delta (k + 36) bias (w * (36 - t)) (i + nat ?d * w) (puny_digits ?l (int (k + 36) - 36 - int bias) @ s)"
      using rfc_digit_puny [of ?d] d dt by (simp add: t_def [symmetric] Let_def)
    also have "\<dots> = Some (i + nat ?d * w + nat ?l * (w * (36 - t)), s)"
      by (rule less.hyps [OF lt l])
    also have "i + nat ?d * w + nat ?l * (w * (36 - t)) = i + nat left * w"
    proof -
      have "?d + ?l * (36 - int t) = left" using div_mult_mod_eq [of "left - int t" "36 - int t"] by linarith
      moreover have "int (36 - t) = 36 - int t" using l0 by linarith
      ultimately have "nat ?d + nat ?l * (36 - t) = nat left"
        using d l less.prems by (simp flip: nat_int_add add: nat_mult_distrib of_nat_diff)
      then have "(nat ?d + nat ?l * (36 - t)) * w = nat left * w" by (rule arg_cong)
      then have "nat ?d * w + nat ?l * (36 - t) * w = nat left * w" by (simp only: distrib_right)
      then show ?thesis by (simp only: ac_simps)
    qed
    finally show ?thesis using step by simp
  qed
qed

lemma puny_digits_ne [simp]: "puny_digits left bias \<noteq> []"
  by (subst puny_digits.simps) (simp add: Let_def)

lemma puny_digits_no_delimiter: "0 \<le> left \<Longrightarrow> CHR ''-'' \<notin> set (puny_digits left bias)"
proof (induction left bias rule: puny_digits.induct)
  case (1 left bias)
  let ?t = "clamp (bias + 36) 1 26"
  have t: "1 \<le> ?t" "?t \<le> 26" by (simp_all add: clamp_def)
  have none: "rfc_digit CHR ''-'' = None" by (simp add: rfc_digit_def)
  have low: "chr (nat ((d + 97) mod 256)) \<noteq> CHR ''-''" if "0 \<le> d" "d < 26" for d
    using rfc_digit_low [OF that] none by (metis option.distinct(1))
  have any: "puny_digit d \<noteq> CHR ''-''" if "0 \<le> d" "d < 36" for d
    using rfc_digit_puny [OF that] none by (metis option.distinct(1))
  show ?case
  proof (cases "left < ?t")
    case True
    with 1 t low [of left] show ?thesis by (subst puny_digits.simps) (simp add: Let_def)
  next
    case False
    let ?m = "36 - ?t"
    have "0 \<le> left - ?t" "10 \<le> ?m" using False t by linarith+
    then have d: "0 \<le> ?t + (left - ?t) mod ?m" "?t + (left - ?t) mod ?m < 36" and l: "0 \<le> (left - ?t) div ?m"
      using pos_mod_bound [of ?m "left - ?t"] pos_mod_sign [of ?m "left - ?t"] t
      by (linarith, linarith, simp add: div_int_pos_iff)
    from 1 (1) [OF refl refl False refl refl l] any [OF d] False show ?thesis
      by (subst puny_digits.simps) (simp add: Let_def)
  qed
qed

text \<open>One step of the decoder on one encoded delta.\<close>

lemma rfc_decode_digits:
  assumes "i + delta = d * (length out + 1) + q" "q \<le> length out"
  shows "rfc_decode_loop m i b out (puny_digits (int delta) (- int b) @ rest) =
    rfc_decode_loop (m + d) (q + 1) (rfc_adapt delta (length out + 1) (i = 0)) (take q out @ (m + d) # drop q out) rest"
proof -
  have e: "36 - 36 - int b = - int b" by simp
  have rd: "rfc_delta 36 b 1 i (puny_digits (int delta) (- int b) @ rest) = Some (i + delta, rest)"
    using rfc_delta_digits [of "int delta" 36 b 1 i rest] by (simp add: e)
  have "(i + delta) div (length out + 1) = d" "(i + delta) mod (length out + 1) = q"
    unfolding assms(1) using assms(2) by (intro div_low mod_low, simp)+
  then show ?thesis
    by (subst rfc_decode_loop.simps) (simp only: rd append_is_Nil_conv puny_digits_ne simp_thms if_False option.case prod.case Let_def add_diff_cancel_left')
qed

subsection \<open>A pass of the encoder\<close>

definition lower_code :: "nat \<Rightarrow> nat" where
  "lower_code c = (if c \<le> 127 then uc (to_lower_char (chr c)) else c)"

text \<open>The decoder has consumed what the encoder has produced, and the encoder's delta is the
  distance from the decoder's position to the one of the next code: \<open>q\<close> characters of the
  output, in front of which codes up to \<open>n\<close> are in it.\<close>

definition puny_sim :: "string \<Rightarrow> nat list \<Rightarrow> nat \<Rightarrow> nat list \<Rightarrow> nat \<Rightarrow> puny \<Rightarrow> bool" where
  "puny_sim prefix ascii n out q s \<longleftrightarrow>
     (\<exists>m i b digits. pu_result s = prefix @ digits \<and> CHR ''-'' \<notin> set digits \<and>
        (\<forall>rest. rfc_decode_loop 128 0 72 ascii (digits @ rest) = rfc_decode_loop m i b out rest) \<and>
        pu_processed s = length out \<and> m \<le> n \<and> i + pu_delta s = (n - m) * (length out + 1) + q \<and>
        pu_bias s = - int b \<and> (pu_is_first s \<longleftrightarrow> i = 0))"

abbreviation max_codes :: nat where "max_codes \<equiv> 1900"

lemma puny_delta_bound:
  assumes "i + delta = (n - m) * (l + 1) + q" "n < 0x110000" "l \<le> max_codes" "q \<le> max_codes"
  shows "delta + 1 < 2 ^ 31"
proof -
  have "(n - m) * (l + 1) \<le> 0x10ffff * (max_codes + 1)" using assms(2,3) by (intro mult_mono) auto
  with assms(1,4) have "delta \<le> 0x10ffff * (max_codes + 1) + max_codes" by linarith
  then show ?thesis by simp
qed

lemma puny_sim_skip:
  assumes "puny_sim prefix ascii n out q s" "n < 0x110000" "length out \<le> max_codes" "q \<le> max_codes"
  shows "puny_sim prefix ascii n out (q + 1) (s\<lparr>pu_delta := u32 (pu_delta s + 1)\<rparr>)"
proof -
  from assms(1) obtain m i b digits where s: "pu_result s = prefix @ digits" "CHR ''-'' \<notin> set digits"
    "\<forall>rest. rfc_decode_loop 128 0 72 ascii (digits @ rest) = rfc_decode_loop m i b out rest"
    "pu_processed s = length out" "m \<le> n" "i + pu_delta s = (n - m) * (length out + 1) + q"
    "pu_bias s = - int b" "pu_is_first s \<longleftrightarrow> i = 0"
    unfolding puny_sim_def by blast
  have "u32 (pu_delta s + 1) = pu_delta s + 1"
    using puny_delta_bound [OF s(6) assms(2-4)] by (intro u32_small) simp
  with s show ?thesis unfolding puny_sim_def
    by (intro exI [of _ m] exI [of _ i] exI [of _ b] exI [of _ digits]) simp
qed

lemma puny_adapt_bias:
  assumes "delta < 2 ^ 31" "0 < processed"
  shows "puny_bias_loop (u32 ((if first then delta div 700 else delta div 2) +
      (if first then delta div 700 else delta div 2) div processed)) 0 = - int (rfc_adapt delta processed first)"
proof -
  let ?d = "if first then delta div 700 else delta div 2"
  have "?d div processed \<le> ?d" by simp
  moreover have "?d \<le> delta div 2" by (simp add: div_le_mono2)
  moreover have "(2::nat) ^ 31 = 2147483648" "(2::nat) ^ 32 = 4294967296" by simp_all
  ultimately have "?d + ?d div processed < 2 ^ 32" using assms(1) by linarith
  then have "u32 (?d + ?d div processed) = ?d + ?d div processed" by (rule u32_small)
  then show ?thesis using puny_bias_loop_adapt [of _ 0] by (simp only: rfc_adapt_def Let_def) simp
qed

lemma puny_sim_emit:
  assumes "puny_sim prefix ascii n out q s" "n < 0x110000" "length out < max_codes" "q \<le> length out"
  shows "puny_sim prefix ascii n (take q out @ n # drop q out) (q + 1) (puny_emit s)"
proof -
  from assms(1) obtain m i b digits where s: "pu_result s = prefix @ digits" "CHR ''-'' \<notin> set digits"
    "\<forall>rest. rfc_decode_loop 128 0 72 ascii (digits @ rest) = rfc_decode_loop m i b out rest"
    "pu_processed s = length out" "m \<le> n" "i + pu_delta s = (n - m) * (length out + 1) + q"
    "pu_bias s = - int b" "pu_is_first s \<longleftrightarrow> i = 0"
    unfolding puny_sim_def by blast
  let ?digits = "digits @ puny_digits (int (pu_delta s)) (- int b)"
  let ?b = "rfc_adapt (pu_delta s) (length out + 1) (i = 0)"
  have d: "pu_delta s + 1 < 2 ^ 31" using puny_delta_bound [OF s(6) assms(2)] assms(3,4) by simp
  then have left: "to_int32 (pu_delta s) = int (pu_delta s)" by (simp add: to_int32_def)
  have pr: "u32 (pu_processed s + 1) = length out + 1" using s(4) assms(3) by (simp add: u32_def)
  have "pu_result (puny_emit s) = prefix @ ?digits" using s(1,7) left by (simp add: puny_emit_def Let_def)
  moreover have "CHR ''-'' \<notin> set ?digits" using s(2) puny_digits_no_delimiter [of "int (pu_delta s)"] by simp
  moreover have "rfc_decode_loop 128 0 72 ascii (?digits @ rest) =
      rfc_decode_loop n (q + 1) ?b (take q out @ n # drop q out) rest" for rest
    using s(3,5) rfc_decode_digits [OF s(6) assms(4), of m b rest] by simp
  moreover have "pu_bias (puny_emit s) = - int ?b"
  proof -
    have "pu_bias (puny_emit s) = - int (rfc_adapt (pu_delta s) (length out + 1) (pu_is_first s))"
      using puny_adapt_bias [of "pu_delta s" "length out + 1" "pu_is_first s"] d
      by (simp only: puny_emit_def Let_def puny.simps pr)
    then show ?thesis by (simp only: s(8))
  qed
  moreover have "pu_processed (puny_emit s) = length (take q out @ n # drop q out)"
    using pr assms(4) by (simp add: puny_emit_def Let_def)
  moreover have "pu_delta (puny_emit s) = 0" "\<not> pu_is_first (puny_emit s)" by (simp_all add: puny_emit_def Let_def)
  ultimately show ?thesis
    unfolding puny_sim_def by (intro exI [of _ n] exI [of _ "q + 1"] exI [of _ ?b] exI [of _ ?digits]) simp
qed

lemma puny_sim_pass:
  assumes "n < 0x110000" "127 < n"
  shows "puny_sim prefix ascii n (List.map lower_code (filter (\<lambda>c. c \<le> n) xs @ filter (\<lambda>c. c < n) ys))
      (length (filter (\<lambda>c. c \<le> n) xs)) s \<Longrightarrow> length xs + length ys \<le> max_codes \<Longrightarrow>
    puny_sim prefix ascii n (List.map lower_code (filter (\<lambda>c. c \<le> n) (xs @ ys)))
      (length (filter (\<lambda>c. c \<le> n) (xs @ ys))) (puny_pass n ys s)"
proof (induction ys arbitrary: xs s)
  case (Cons c ys)
  let ?out = "\<lambda>xs ys. List.map lower_code (filter (\<lambda>c. c \<le> n) xs @ filter (\<lambda>c. c < n) ys)"
  let ?q = "\<lambda>xs. length (filter (\<lambda>c. c \<le> n) xs)"
  have len: "length (?out xs zs) = ?q xs + length (filter (\<lambda>c. c < n) zs)" "?q xs + length (filter (\<lambda>c. c < n) zs) \<le> length xs + length zs" for zs
    by (simp, intro add_mono length_filter_le)
  have next_ys: "length (xs @ [c]) + length ys \<le> max_codes" using Cons.prems(2) by simp
  note sim = Cons.prems(1)
  note IH = Cons.IH [OF _ next_ys]
  consider "c < n" | "c = n" | "n < c" by linarith
  then show ?case
  proof cases
    case 1
    have "length (?out xs (c # ys)) \<le> max_codes" "?q xs \<le> max_codes"
      using len [of "c # ys"] Cons.prems(2) by linarith+
    from puny_sim_skip [OF sim assms(1) this]
    have "puny_sim prefix ascii n (?out (xs @ [c]) ys) (?q (xs @ [c])) (s\<lparr>pu_delta := u32 (pu_delta s + 1)\<rparr>)"
      using 1 by simp
    from IH [OF this] 1 show ?thesis by simp
  next
    case 2
    have "length (?out xs (c # ys)) = length (?out xs ys)" using 2 by simp
    then have "length (?out xs (c # ys)) < max_codes" "?q xs \<le> length (?out xs (c # ys))"
      using len [of ys] next_ys by (simp_all only: length_append list.size)
    from puny_sim_emit [OF sim assms(1) this]
    have "puny_sim prefix ascii n (?out (xs @ [c]) ys) (?q (xs @ [c])) (puny_emit s)"
      using 2 assms(2) by (simp add: lower_code_def)
    from IH [OF this] 2 show ?thesis by simp
  next
    case 3
    then have "puny_sim prefix ascii n (?out (xs @ [c]) ys) (?q (xs @ [c])) s" using sim by simp
    from IH [OF this] 3 show ?thesis by simp
  qed
qed simp

text \<open>The state between two passes: all codes up to \<open>n\<close> are encoded.\<close>

definition puny_head :: "string \<Rightarrow> nat list \<Rightarrow> nat list \<Rightarrow> nat \<Rightarrow> puny \<Rightarrow> bool" where
  "puny_head prefix ascii codes n s \<longleftrightarrow>
     puny_sim prefix ascii (n + 1) (List.map lower_code (filter (\<lambda>c. c \<le> n) codes)) 0 s"

lemma puny_next_fold:
  "let r = foldl (\<lambda>next_n code. if code > n \<and> code < next_n then code else next_n) k codes
   in (r = k \<or> r \<in> set codes \<and> n < r) \<and> r \<le> k \<and> (\<forall>x \<in> set codes. n < x \<longrightarrow> r \<le> x)"
  for n k :: nat
proof (induction codes arbitrary: k)
  case (Cons c codes)
  let ?k = "if c > n \<and> c < k then c else k"
  define r where "r = foldl (\<lambda>next_n code. if code > n \<and> code < next_n then code else next_n) ?k codes"
  have "(r = ?k \<or> r \<in> set codes \<and> n < r) \<and> r \<le> ?k \<and> (\<forall>x \<in> set codes. n < x \<longrightarrow> r \<le> x)"
    using Cons [of ?k] unfolding r_def Let_def .
  then have "(r = k \<or> r \<in> set (c # codes) \<and> n < r) \<and> r \<le> k \<and> (\<forall>x \<in> set (c # codes). n < x \<longrightarrow> r \<le> x)"
    by (auto simp: not_less split: if_splits intro: order.trans less_imp_le)
  then show ?case by (simp add: r_def Let_def)
qed simp

lemma puny_next_props:
  assumes "c \<in> set codes" "n < c" "list_all (\<lambda>c. c < 0x110000) codes"
  shows "puny_next n codes \<in> set codes" "n < puny_next n codes" "puny_next n codes < 0x110000"
    "x \<in> set codes \<Longrightarrow> n < x \<Longrightarrow> puny_next n codes \<le> x"
proof -
  have f: "puny_next n codes = 0x110000 \<or> puny_next n codes \<in> set codes \<and> n < puny_next n codes"
    and le: "x \<in> set codes \<Longrightarrow> n < x \<Longrightarrow> puny_next n codes \<le> x" for x
    using puny_next_fold [of n "0x110000" codes] by (auto simp: puny_next_def Let_def)
  from le [OF assms(1,2)] have "puny_next n codes < 0x110000"
    using assms(1,3) by (auto simp: list_all_iff dest!: bspec)
  with f show "puny_next n codes \<in> set codes" "n < puny_next n codes" "puny_next n codes < 0x110000" by auto
  show "x \<in> set codes \<Longrightarrow> n < x \<Longrightarrow> puny_next n codes \<le> x" by (rule le)
qed

lemma puny_head_pass:
  assumes "puny_head prefix ascii codes n s" "list_all (\<lambda>c. c < 0x110000) codes" "length codes \<le> max_codes"
    and "127 \<le> n" "pu_processed s < length codes"
  defines "nn \<equiv> puny_next n codes"
  defines "s1 \<equiv> s\<lparr>pu_delta := u32 (pu_delta s + u32 (nn - n - 1) * u32 (pu_processed s + 1))\<rparr>"
  defines "s2 \<equiv> puny_pass nn codes s1"
  shows "puny_head prefix ascii codes nn (s2\<lparr>pu_delta := u32 (pu_delta s2 + 1)\<rparr>)" "127 \<le> nn"
    "pu_processed s < pu_processed s2"
proof -
  let ?out = "List.map lower_code (filter (\<lambda>c. c \<le> n) codes)"
  from assms(1) obtain m i b digits where s: "pu_result s = prefix @ digits" "CHR ''-'' \<notin> set digits"
    "\<forall>rest. rfc_decode_loop 128 0 72 ascii (digits @ rest) = rfc_decode_loop m i b ?out rest"
    "pu_processed s = length ?out" "m \<le> n + 1" "i + pu_delta s = (n + 1 - m) * (length ?out + 1) + 0"
    "pu_bias s = - int b" "pu_is_first s \<longleftrightarrow> i = 0"
    unfolding puny_head_def puny_sim_def by blast
  have "\<exists>c \<in> set codes. n < c"
  proof (rule ccontr)
    assume "\<not> ?thesis"
    then have "filter (\<lambda>c. c \<le> n) codes = codes" by (auto simp: filter_id_conv)
    with s(4) assms(5) show False by simp
  qed
  then obtain c where "c \<in> set codes" "n < c" by blast
  note nn = puny_next_props [OF this assms(2), folded nn_def]
  show "127 \<le> nn" using nn(2) assms(4) by simp
  have out: "filter (\<lambda>c. c \<le> n) codes = filter (\<lambda>c. c < nn) codes"
    using nn(2,4) by (intro filter_cong refl) (meson leD le_less_trans not_le)
  have lout: "length ?out \<le> max_codes" using assms(3) le_trans [OF length_filter_le] by simp
  have dist: "i + (pu_delta s + (nn - n - 1) * (length ?out + 1)) = (nn - m) * (length ?out + 1) + 0"
  proof -
    have "nn - m = (n + 1 - m) + (nn - n - 1)" using s(5) nn(2) by linarith
    then show ?thesis using s(6) by (simp add: add_mult_distrib)
  qed
  have bound: "pu_delta s + (nn - n - 1) * (length ?out + 1) + 1 < 2 ^ 31"
    using puny_delta_bound [OF dist nn(3) lout] by simp
  have w1: "u32 (nn - n - 1) = nn - n - 1" using nn(3) by (intro u32_small) simp
  have w2: "u32 (length ?out + 1) = length ?out + 1" using lout by (intro u32_small) simp
  have w3: "u32 (pu_delta s + (nn - n - 1) * (length ?out + 1)) = pu_delta s + (nn - n - 1) * (length ?out + 1)"
    using bound by (intro u32_small) simp
  have d1: "pu_delta s1 = pu_delta s + (nn - n - 1) * (length ?out + 1)"
    unfolding s1_def s(4) w1 w2 w3 by simp
  have fr: "pu_result s1 = pu_result s" "pu_processed s1 = pu_processed s" "pu_bias s1 = pu_bias s"
    "pu_is_first s1 = pu_is_first s" by (simp_all add: s1_def)
  have "m \<le> nn" using s(5) nn(2) by simp
  then have "puny_sim prefix ascii nn ?out 0 s1"
    using s(1-4,7,8) dist unfolding puny_sim_def fr d1
    by (intro exI [of _ m] exI [of _ i] exI [of _ b] exI [of _ digits]) blast
  then have sim2: "puny_sim prefix ascii nn (List.map lower_code (filter (\<lambda>c. c \<le> nn) codes))
      (length (filter (\<lambda>c. c \<le> nn) codes)) s2"
    using puny_sim_pass [OF nn(3), of prefix ascii "[]" codes s1] nn(2) assms(3,4) unfolding s2_def out by simp
  then have p2: "pu_processed s2 = length (filter (\<lambda>c. c \<le> nn) codes)" by (auto simp: puny_sim_def)
  have "length (filter (\<lambda>c. c < nn) codes) < length (filter (\<lambda>c. c \<le> nn) codes)"
  proof -
    have "filter (\<lambda>c. c < nn) codes = filter (\<lambda>c. c < nn) (filter (\<lambda>c. c \<le> nn) codes)"
      by (auto intro!: filter_cong)
    moreover have "nn \<in> set (filter (\<lambda>c. c \<le> nn) codes)" using nn(1) by simp
    ultimately show ?thesis by (metis length_filter_less less_irrefl)
  qed
  then show "pu_processed s < pu_processed s2" using s(4) p2 out by simp
  let ?l = "length (filter (\<lambda>c. c \<le> nn) codes)"
  have "?l \<le> max_codes" using assms(3) length_filter_le [of "\<lambda>c. c \<le> nn" codes] by linarith
  then have "puny_sim prefix ascii nn (List.map lower_code (filter (\<lambda>c. c \<le> nn) codes)) (?l + 1)
      (s2\<lparr>pu_delta := u32 (pu_delta s2 + 1)\<rparr>)"
    using puny_sim_skip [OF sim2 nn(3)] by simp
  then show "puny_head prefix ascii codes nn (s2\<lparr>pu_delta := u32 (pu_delta s2 + 1)\<rparr>)"
    unfolding puny_head_def puny_sim_def
  proof (elim exE conjE, goal_cases)
    case (1 m i b digits)
    then have "(nn - m) * (?l + 1) + (?l + 1) = (nn + 1 - m) * (?l + 1)" by (simp add: Suc_diff_le)
    with 1 show ?case
      by (intro exI [of _ m] exI [of _ i] exI [of _ b] exI [of _ digits]) (simp del: mult_Suc mult_Suc_right)
  qed
qed

lemma puny_loop_decodes:
  assumes "list_all (\<lambda>c. c < 0x110000) codes" "length codes \<le> max_codes"
  shows "puny_head prefix ascii codes n s \<Longrightarrow> 127 \<le> n \<Longrightarrow>
    \<exists>s' digits. puny_loop codes n s = Some s' \<and> pu_result s' = prefix @ digits \<and> CHR ''-'' \<notin> set digits \<and>
      rfc_decode_loop 128 0 72 ascii digits = Some (List.map lower_code codes)"
proof (induction "length codes - pu_processed s" arbitrary: n s rule: less_induct)
  case less
  show ?case
  proof (cases "pu_processed s < length codes")
    case True
    let ?nn = "puny_next n codes"
    let ?s1 = "s\<lparr>pu_delta := u32 (pu_delta s + u32 (?nn - n - 1) * u32 (pu_processed s + 1))\<rparr>"
    let ?s2 = "puny_pass ?nn codes ?s1"
    let ?s3 = "?s2\<lparr>pu_delta := u32 (pu_delta ?s2 + 1)\<rparr>"
    note pass = puny_head_pass [OF less.prems(1) assms less.prems(2) True]
    have "length codes - pu_processed ?s3 < length codes - pu_processed s" using pass(3) True by simp
    moreover have "puny_loop codes n s = puny_loop codes ?nn ?s3"
      using True by (subst puny_loop.simps) (simp add: Let_def)
    ultimately show ?thesis using less.hyps [of ?s3 ?nn] pass(1,2) by auto
  next
    case False
    from less.prems(1) obtain m i b digits where s: "pu_result s = prefix @ digits" "CHR ''-'' \<notin> set digits"
      "\<forall>rest. rfc_decode_loop 128 0 72 ascii (digits @ rest) =
         rfc_decode_loop m i b (List.map lower_code (filter (\<lambda>c. c \<le> n) codes)) rest"
      "pu_processed s = length (List.map lower_code (filter (\<lambda>c. c \<le> n) codes))"
      unfolding puny_head_def puny_sim_def by blast
    have "filter (\<lambda>c. c \<le> n) codes = codes"
    proof (rule ccontr)
      assume "filter (\<lambda>c. c \<le> n) codes \<noteq> codes"
      then have "length (filter (\<lambda>c. c \<le> n) codes) < length codes"
        by (metis filter_id_conv length_filter_less)
      with s(4) False show False by simp
    qed
    with s(3) have "rfc_decode_loop 128 0 72 ascii (digits @ []) = Some (List.map lower_code codes)"
      by (simp only:) (subst rfc_decode_loop.simps, simp)
    with s(1,2) False show ?thesis by (subst puny_loop.simps) simp
  qed
qed

subsection \<open>A label\<close>

lemma puny_codes_text:
  "list_all valid_code cs \<Longrightarrow> length cs < fuel \<Longrightarrow> processed + length cs < 2 ^ 32 \<Longrightarrow>
    puny_codes fuel (utf8_text cs) codes result processed =
      Some (codes @ cs, result @ List.map (to_lower_char \<circ> chr) (filter (\<lambda>c. c \<le> 127) cs),
        processed + length (filter (\<lambda>c. c \<le> 127) cs))"
proof (induction cs arbitrary: fuel codes result processed)
  case Nil
  then show ?case by (cases fuel) simp_all
next
  case (Cons c cs)
  obtain g where g: "fuel = Suc g" "length cs < g" using Cons.prems by (cases fuel) auto
  have pr: "u32 (processed + 1) = processed + 1" using Cons.prems(3) by (intro u32_small) simp
  have ne: "utf8_text (c # cs) \<noteq> []" using utf8_char_ne by simp
  have nx: "next_utf8_unsafe (utf8_text (c # cs)) = Some (c, utf8_text cs)"
    using next_utf8_char [of c "utf8_text cs"] Cons.prems(1) by simp
  have v: "list_all valid_code cs" "Suc (processed + length cs) < 2 ^ 32" using Cons.prems by simp_all
  show ?case
  proof (cases "c \<le> 127")
    case True
    then have "puny_codes fuel (utf8_text (c # cs)) codes result processed =
        puny_codes g (utf8_text cs) (codes @ [c]) (result @ [to_lower_char (chr c)]) (processed + 1)"
      unfolding g(1) using ne nx by (simp only: puny_codes.simps if_False option.case prod.case pr if_True)
    also have "\<dots> = Some ((codes @ [c]) @ cs, (result @ [to_lower_char (chr c)]) @
        List.map (to_lower_char \<circ> chr) (filter (\<lambda>c. c \<le> 127) cs), (processed + 1) + length (filter (\<lambda>c. c \<le> 127) cs))"
      using v by (intro Cons.IH g(2)) simp_all
    finally show ?thesis using True by simp
  next
    case False
    then have "puny_codes fuel (utf8_text (c # cs)) codes result processed =
        puny_codes g (utf8_text cs) (codes @ [c]) result processed"
      unfolding g(1) using ne nx by (simp only: puny_codes.simps if_False option.case prod.case)
    also have "\<dots> = Some ((codes @ [c]) @ cs, result @
        List.map (to_lower_char \<circ> chr) (filter (\<lambda>c. c \<le> 127) cs), processed + length (filter (\<lambda>c. c \<le> 127) cs))"
      using v by (intro Cons.IH g(2)) simp_all
    finally show ?thesis using False by simp
  qed
qed

lemma rfind_char_last: "d \<notin> set b \<Longrightarrow> rfind_char d (a @ d # b) = Some (length a)"
proof (induction a)
  case Nil
  then have "rfind_char d b = None" by (simp add: rfind_char_None_iff)
  then show ?case by simp
qed simp

lemma lower_code_bound: "c \<le> 127 \<Longrightarrow> uc (to_lower_char (chr c)) = lower_code c"
  by (simp add: lower_code_def)

lemma punycode_decodes:
  assumes "list_all valid_code cs" "length cs \<le> max_codes"
  shows "\<exists>r. punycode result (utf8_text cs) = Some (result @ r) \<and> rfc_decode r = Some (List.map lower_code cs)"
proof -
  let ?a = "filter (\<lambda>c. c \<le> 127) cs"
  let ?low = "List.map (to_lower_char \<circ> chr) ?a"
  let ?pre = "?low @ (if 0 < length ?a then ''-'' else [])"
  let ?ascii = "List.map lower_code ?a"
  let ?s = "\<lparr>pu_result = result @ ?pre, pu_processed = length ?a, pu_delta = 0, pu_bias = - 72, pu_is_first = True\<rparr>"
  have low: "List.map uc ?low = ?ascii" by (simp add: lower_code_def)
  have codes: "puny_codes (Suc (length (utf8_text cs))) (utf8_text cs) [] result 0 =
      Some ([] @ cs, result @ ?low, 0 + length ?a)"
    using assms(2) utf8_text_length [of cs] by (intro puny_codes_text assms(1)) auto
  have p: "punycode result (utf8_text cs) = map_option pu_result (puny_loop cs 127 ?s)"
    unfolding punycode_def codes by simp
  have "list_all (\<lambda>c. c < 0x110000) cs" using assms(1) by (simp add: list_all_iff valid_code_def)
  moreover have "puny_head (result @ ?pre) ?ascii cs 127 ?s"
    unfolding puny_head_def puny_sim_def
    by (intro exI [of _ 128] exI [of _ 0] exI [of _ 72] exI [of _ "[]"]) simp
  ultimately obtain s' digits where s': "puny_loop cs 127 ?s = Some s'" "pu_result s' = (result @ ?pre) @ digits"
    "CHR ''-'' \<notin> set digits" "rfc_decode_loop 128 0 72 ?ascii digits = Some (List.map lower_code cs)"
    using puny_loop_decodes [OF _ assms(2), of "result @ ?pre" ?ascii 127 ?s] by auto
  have "rfc_decode (?pre @ digits) = Some (List.map lower_code cs)"
  proof (cases "?a = []")
    case True
    then show ?thesis using s'(3,4) rfind_char_None_iff [of "CHR ''-''" digits] by (simp add: rfc_decode_def)
  next
    case False
    then have "?pre @ digits = ?low @ CHR ''-'' # digits" by simp
    moreover have "0 < length ?low" using False by simp
    then have "rfc_decode (?low @ CHR ''-'' # digits) = rfc_decode_loop 128 0 72 (List.map uc ?low) digits"
      using rfind_char_last [OF s'(3), of ?low] by (simp add: rfc_decode_def del: map_map)
    ultimately show ?thesis using s'(4) by (simp only: low)
  qed
  with p s'(1,2) show ?thesis by auto
qed

subsection \<open>Host names\<close>

fun idn_parts :: "bool \<Rightarrow> string \<Rightarrow> string list \<Rightarrow> string option" where
  "idn_parts is_first result [] = Some result"
| "idn_parts is_first result (part # parts) =
     (let result = (if is_first then result else result @ ''.'')
      in Option.bind (if is_ascii_host part then Some (result @ part) else punycode (result @ ''xn--'') part)
           (\<lambda>result. idn_parts False result parts))"

definition MAX_DNS_NAME_LENGTH :: nat where "MAX_DNS_NAME_LENGTH = 255"

text \<open>\<open>None\<close> is a read out of bounds.\<close>

definition idn_to_ascii :: "string \<Rightarrow> string result option" where
  "idn_to_ascii host =
     (if is_ascii_host host then Some (Inr (to_lower host))
      else case check_utf8 host of
          None \<Rightarrow> None
        | Some False \<Rightarrow> Some (error_result ''Host name must be encoded in UTF-8'')
        | Some True \<Rightarrow>
            if length host \<ge> MAX_DNS_NAME_LENGTH * 4 then Some (error_result ''Host name is too long'')
            else map_option Inr (idn_parts True [] (full_split host CHR ''.'' (2 ^ 64 - 1))))"

text \<open>A label of the result: an ASCII part as it is, any other one with the prefix of
  internationalised names and a text from which the standard's decoder recovers the part, its
  ASCII letters in lower case.\<close>

definition idn_label :: "string \<Rightarrow> string \<Rightarrow> bool" where
  "idn_label label part \<longleftrightarrow>
     (if is_ascii_host part then label = part
      else \<exists>cs r. part = utf8_text cs \<and> label = ''xn--'' @ r \<and> rfc_decode r = Some (List.map lower_code cs))"

lemma utf8_char_ascii:
  assumes "valid_code c" "uc d \<le> 127" "d \<in> set (utf8_char c)"
  shows "utf8_char c = [d]"
proof -
  obtain f r where s: "utf8_char c = f # r" "list_all (\<lambda>x. \<not> utf8_is_first x) r"
    using utf8_char_shape [OF assms(1)] by auto
  have "utf8_is_first d" using assms(2) by (simp add: first_iff)
  with s assms(3) have d: "d = f" by (auto simp: list_all_iff)
  have "c \<le> 0x7f"
  proof (rule ccontr)
    assume "\<not> c \<le> 0x7f"
    moreover have "c < 0x110000" using assms(1) by (simp add: valid_code_def)
    ultimately consider "0x7f < c" "c \<le> 0x7ff" "c div 64 < 32" | "0x7ff < c" "c \<le> 0xffff" "c div 4096 < 16"
      | "0xffff < c" "c < 0x110000" "c div 262144 < 8" by linarith
    then have "192 \<le> uc f"
    proof cases
      case 1
      then have "f = chr (192 + c div 64)" using s(1) by (simp add: utf8_char_arith(2))
      with 1 show ?thesis by simp
    next
      case 2
      then have "f = chr (224 + c div 4096)" using s(1) by (simp add: utf8_char_arith(3))
      with 2 show ?thesis by simp
    next
      case 3
      then have "f = chr (240 + c div 262144)" using s(1) by (simp add: utf8_char_arith(4))
      with 3 show ?thesis by simp
    qed
    with assms(2) d show False by simp
  qed
  then show ?thesis using s(1) d by (simp add: utf8_char_arith)
qed

lemma utf8_text_split:
  assumes "uc d \<le> 127"
  shows "list_all valid_code cs \<Longrightarrow> utf8_text cs = a @ d # b \<Longrightarrow>
    \<exists>cs1 cs2. list_all valid_code cs1 \<and> list_all valid_code cs2 \<and> a = utf8_text cs1 \<and> b = utf8_text cs2"
proof (induction cs arbitrary: a)
  case (Cons c cs)
  then have e: "utf8_char c @ utf8_text cs = a @ d # b" by simp
  from Cons.prems have v: "valid_code c" "list_all valid_code cs" by simp_all
  show ?case
  proof (cases "length a < length (utf8_char c)")
    case True
    then have "d \<in> set (utf8_char c)"
      using e by (metis nth_append nth_append_length nth_mem)
    from utf8_char_ascii [OF v(1) assms this] True have "a = []" "utf8_char c = [d]" by auto
    then show ?thesis using e v(2) by (intro exI [of _ "[]"] exI [of _ cs]) simp
  next
    case False
    then obtain a' where a: "a = utf8_char c @ a'" using e by (metis append_eq_append_conv_if append_take_drop_id not_le)
    with e have "utf8_text cs = a' @ d # b" by simp
    from Cons.IH [OF v(2) this] obtain cs1 cs2 where
      "list_all valid_code cs1" "list_all valid_code cs2" "a' = utf8_text cs1" "b = utf8_text cs2" by blast
    then show ?thesis using a v(1) by (intro exI [of _ "c # cs1"] exI [of _ cs2]) simp
  qed
qed simp

lemma full_split_loop_utf8:
  assumes "uc d \<le> 127"
  shows "list_all valid_code cs \<Longrightarrow> s = utf8_text cs \<Longrightarrow>
    list_all (\<lambda>part. length part \<le> length s \<and> (\<exists>cs. list_all valid_code cs \<and> part = utf8_text cs)) (full_split_loop d m n s)"
  using assms
proof (induction d m n s arbitrary: cs rule: full_split_loop.induct)
  case (1 d m n s)
  show ?case
  proof (cases "n + 1 < m \<and> find_char d s \<noteq> None")
    case True
    then obtain i where i: "find_char d s = Some i" by auto
    have s: "utf8_text cs = take i s @ d # drop (i + 1) s" using find_char_split [OF i] 1 (3) by simp
    from utf8_text_split [OF 1 (4) 1 (2) s] obtain cs1 cs2 where
      c: "list_all valid_code cs1" "list_all valid_code cs2" "take i s = utf8_text cs1" "drop (i + 1) s = utf8_text cs2"
      by blast
    have "length (utf8_text cs1) \<le> length s" unfolding c(3) [symmetric] by simp
    with 1 (1) [OF _ i c(2,4) 1 (4)] True c(1,3) i show ?thesis
      by (subst full_split_loop.simps) (auto simp: list_all_iff)
  next
    case False
    then have "full_split_loop d m n s = [s]" by (subst full_split_loop.simps) (auto split: option.splits)
    with 1 (2,3) show ?thesis by auto
  qed
qed

lemma idn_parts_labels:
  "list_all (\<lambda>part. length part \<le> max_codes \<and> (\<exists>cs. list_all valid_code cs \<and> part = utf8_text cs)) parts \<Longrightarrow>
    \<exists>labels. idn_parts is_first result parts =
        Some (result @ (if is_first \<or> parts = [] then [] else ''.'') @ implode labels CHR ''.'') \<and> list_all2 idn_label labels parts"
proof (induction parts arbitrary: is_first result)
  case Nil
  then show ?case by (intro exI [of _ "[]"]) (simp add: implode_def)
next
  case (Cons part parts)
  let ?result = "if is_first then result else result @ ''.''"
  from Cons.prems obtain cs where cs: "list_all valid_code cs" "part = utf8_text cs" "length part \<le> max_codes" by auto
  have "\<exists>label. (if is_ascii_host part then Some (?result @ part) else punycode (?result @ ''xn--'') part) =
      Some (?result @ label) \<and> idn_label label part"
  proof (cases "is_ascii_host part")
    case False
    have "length cs \<le> max_codes" using cs(2,3) utf8_text_length [of cs] by simp
    from punycode_decodes [OF cs(1) this, of "?result @ ''xn--''"] obtain r where
      "punycode (?result @ ''xn--'') part = Some (?result @ (''xn--'' @ r))" "rfc_decode r = Some (List.map lower_code cs)"
      unfolding cs(2) by auto
    with False cs(2) show ?thesis unfolding idn_label_def by (intro exI [of _ "''xn--'' @ r"]) auto
  qed (simp add: idn_label_def)
  then obtain label where l: "(if is_ascii_host part then Some (?result @ part) else punycode (?result @ ''xn--'') part) =
      Some (?result @ label)" "idn_label label part" by blast
  from Cons.prems have "list_all (\<lambda>part. length part \<le> max_codes \<and> (\<exists>cs. list_all valid_code cs \<and> part = utf8_text cs)) parts"
    by simp
  from Cons.IH [OF this, of False "?result @ label"] obtain labels where
    ls: "idn_parts False (?result @ label) parts =
        Some ((?result @ label) @ (if parts = [] then [] else ''.'') @ implode labels CHR ''.'')" "list_all2 idn_label labels parts"
    by auto
  have "idn_parts is_first result (part # parts) = idn_parts False (?result @ label) parts"
    by (simp only: idn_parts.simps Let_def l(1) bind.bind_lunit)
  moreover have "implode (label # labels) CHR ''.'' = label @ (if parts = [] then [] else ''.'') @ implode labels CHR ''.''"
  proof (cases parts)
    case Nil
    with ls(2) show ?thesis by (simp add: implode_Cons) (simp add: implode_def)
  next
    case (Cons p ps)
    with ls(2) have "labels \<noteq> []" by auto
    with Cons show ?thesis by (simp add: implode_Cons)
  qed
  ultimately show ?case using l(2) ls by (intro exI [of _ "label # labels"]) auto
qed

text \<open>C5: Host names are converted to ASCII without reading out of bounds. A name is
  refused only if it is not UTF-8 or too long; an ASCII name is put in lower case; otherwise the
  result consists of one label for each label of the name, and the decoder of RFC 3492 recovers
  every label that is not ASCII from its \<^verbatim>\<open>xn--\<close> form.\<close>

theorem idn_to_ascii_punycode:
  "\<exists>r. idn_to_ascii host = Some r \<and>
     (case r of
        Inl _ \<Rightarrow> check_utf8 host = Some False \<or> 1020 \<le> length host
      | Inr name \<Rightarrow>
          if is_ascii_host host then name = to_lower host
          else \<exists>labels. name = implode labels CHR ''.'' \<and>
            list_all2 idn_label labels (full_split host CHR ''.'' (2 ^ 64 - 1)))"
proof (cases "is_ascii_host host")
  case True
  then show ?thesis by (simp add: idn_to_ascii_def)
next
  case False
  have "check_utf8 host \<noteq> None" unfolding check_utf8_def by (rule check_utf8_loop_total) simp_all
  then consider "check_utf8 host = Some False" | "check_utf8 host = Some True" by (metis not_None_eq)
  then show ?thesis
  proof cases
    case 1
    with False show ?thesis by (simp add: idn_to_ascii_def)
  next
    case 2
    show ?thesis
    proof (cases "length host \<ge> MAX_DNS_NAME_LENGTH * 4")
      case True
      with 2 False show ?thesis by (simp add: idn_to_ascii_def MAX_DNS_NAME_LENGTH_def)
    next
      case False
      let ?parts = "full_split host CHR ''.'' (2 ^ 64 - 1)"
      from 2 obtain cs where cs: "list_all valid_code cs" "host = utf8_text cs" by (auto simp: check_utf8_text_iff)
      have "length host \<le> max_codes" using False by (simp add: MAX_DNS_NAME_LENGTH_def)
      then have "list_all (\<lambda>part. length part \<le> max_codes \<and> (\<exists>cs. list_all valid_code cs \<and> part = utf8_text cs)) ?parts"
        using full_split_loop_utf8 [of "CHR ''.''", OF _ cs, of "2 ^ 64 - 1" 0]
        by (auto simp: full_split_def list_all_iff)
      from idn_parts_labels [OF this, of True "[]"] obtain labels where
        "idn_parts True [] ?parts = Some (implode labels CHR ''.'')" "list_all2 idn_label labels ?parts" by auto
      with 2 False \<open>\<not> is_ascii_host host\<close> show ?thesis
        unfolding idn_to_ascii_def by (simp del: power_numeral) blast
    qed
  qed
qed

end
