(* ===== verification/Socks5.thy ===== *)
theory Socks5
  imports SocketIo
begin

text \<open>
  The server side of SOCKS 5 (\<^verbatim>\<open>pxcnet/pxc/net/Socks5.cpp\<close>): the handlers that read
  a greeting and a request from a descriptor into a buffer of the caller. The results of
  \<^verbatim>\<open>recv\<close> are arguments, \<open>Sys_ok bytes\<close> being all that the peer has sent so far; the
  handlers ignore how many bytes they get. \<^verbatim>\<open>char\<close> is signed. \<open>Fatal\<close> is an access
  outside of the buffer. The client that is commented out in the source is not modelled.
\<close>

definition schar :: "char \<Rightarrow> int" where
  "schar c = (if uc c < 128 then int (uc c) else int (uc c) - 256)"

record socks =
  sk_buf :: string
  sk_recvs :: "string sys list"
  sk_sent :: "string list"
  sk_log :: "string list"

text \<open>\<^verbatim>\<open>recv(fd, buf, len, 0)\<close>; a negative length becomes a large \<^verbatim>\<open>size_t\<close>.\<close>

definition recv_buf :: "int \<Rightarrow> socks \<Rightarrow> socks run" where
  "recv_buf len s =
     (case sk_recvs s of
        [] \<Rightarrow> Starved
      | r # rest \<Rightarrow>
          (case r of
             Sys_errno _ \<Rightarrow> Done (s\<lparr>sk_recvs := rest\<rparr>)
           | Sys_ok bytes \<Rightarrow>
               let bytes = take (nat (len mod 2 ^ 64)) bytes in
               if length bytes \<le> length (sk_buf s)
               then Done (s\<lparr>sk_recvs := rest, sk_buf := bytes @ drop (length bytes) (sk_buf s)\<rparr>)
               else Fatal))"

definition read_buf :: "int \<Rightarrow> socks \<Rightarrow> int run" where
  "read_buf i s = (if 0 \<le> i \<and> i < int (length (sk_buf s)) then Done (schar (sk_buf s ! nat i)) else Fatal)"

definition sk_error :: "string \<Rightarrow> socks \<Rightarrow> socks" where
  "sk_error msg s = s\<lparr>sk_log := sk_log s @ [msg]\<rparr>"

text \<open>The first two bytes of the little-endian \<^verbatim>\<open>int replay[2] = {5, 0}\<close>.\<close>

definition replay :: string where "replay = [chr 5, chr 0]"

definition handle_auth :: "bool \<Rightarrow> socks \<Rightarrow> socks run" where
  "handle_auth known s =
     (if known then Done s
      else
        run_bind (recv_buf 257 s) (\<lambda>s.
        run_bind (read_buf 0 s) (\<lambda>version.
        run_bind (read_buf 1 s) (\<lambda>n_methods.
          if version \<noteq> 5 then Done (sk_error ''socks5 version must be version 5!'' s)
          else if n_methods \<le> 0 then Done (sk_error ''socks5 method length must bigger than 0!'' s)
          else run_bind (recv_buf (2 + n_methods) s) (\<lambda>s. Done (s\<lparr>sk_sent := sk_sent s @ [replay]\<rparr>))))))"

definition handle_request :: "socks \<Rightarrow> socks run" where
  "handle_request s =
     run_bind (read_buf 1 s) (\<lambda>a.
     run_bind (read_buf (2 + a) s) (\<lambda>b.
     run_bind (recv_buf (3 + a + b) s) (\<lambda>s.
     run_bind (read_buf 0 s) (\<lambda>version.
     run_bind (read_buf 2 s) (\<lambda>rsv.
     run_bind (read_buf 3 s) (\<lambda>_.
       let s = (if rsv \<noteq> 0 then sk_error ''RSV must be 0X00!'' s else s)
       in Done (if version mod 256 \<noteq> 5 then sk_error ''VERSION must be 0X05!'' s else s)))))))"

subsection \<open>Greetings\<close>

lemma schar_bounds: "- 128 \<le> schar c" "schar c < 128"
  using uc_bound [of c] by (simp_all only: schar_def split: if_split) arith+

lemma schar_eq_5: "schar c = 5 \<longleftrightarrow> uc c = 5"
  using uc_bound [of c] by (simp only: schar_def split: if_split) arith

lemma schar_le_0: "schar c \<le> 0 \<longleftrightarrow> uc c = 0 \<or> 128 \<le> uc c"
  using uc_bound [of c] by (simp only: schar_def split: if_split) arith

lemma recv_buf_Done:
  "recv_buf len s = Done s' \<Longrightarrow> length (sk_buf s') = length (sk_buf s) \<and> sk_sent s' = sk_sent s \<and> sk_log s' = sk_log s"
  by (auto simp: recv_buf_def Let_def split: list.splits sys.splits if_splits)

lemma recv_buf_fits:
  assumes "nat (len mod 2 ^ 64) \<le> length (sk_buf s)"
  shows "recv_buf len s \<noteq> Fatal"
  using assms by (auto simp: recv_buf_def Let_def split: list.splits sys.splits)

text \<open>C26: A new connection with a full-size buffer is answered exactly if the greeting names
  version 5 and between 1 and 127 methods; the buffer is never overrun. A greeting with 128 to
  255 methods, which the protocol allows, is refused, because the count is read as a signed
  \<^verbatim>\<open>char\<close>.\<close>

theorem socks5_auth_replies:
  assumes "length (sk_buf s) = 257" "sk_recvs s = Sys_ok (v # n # opts) # r2 # rest"
  shows "\<exists>s'. handle_auth False s = Done s' \<and> length (sk_buf s') = 257 \<and>
    sk_sent s' = sk_sent s @ (if uc v = 5 \<and> 1 \<le> uc n \<and> uc n < 128 then [replay] else [])"
proof -
  define bytes where "bytes = take 257 (v # n # opts)"
  define s1 where "s1 = s\<lparr>sk_recvs := r2 # rest, sk_buf := bytes @ drop (length bytes) (sk_buf s)\<rparr>"
  have b: "bytes = v # n # take 255 opts" by (simp add: bytes_def)
  have "nat (257 mod 2 ^ 64) = (257::nat)" by simp
  then have r1: "recv_buf 257 s = Done s1"
    using assms by (simp add: recv_buf_def Let_def s1_def bytes_def)
  have len: "length (sk_buf s1) = 257" using recv_buf_Done [OF r1] assms(1) by simp
  have rd: "read_buf 0 s1 = Done (schar v)" "read_buf 1 s1 = Done (schar n)"
    using len by (simp_all add: read_buf_def s1_def b)
  show ?thesis
  proof (cases "uc v = 5 \<and> 1 \<le> uc n \<and> uc n < 128")
    case True
    then have n: "schar n = int (uc n)" by (simp add: schar_def)
    have "nat ((2 + schar n) mod 2 ^ 64) \<le> length (sk_buf s1)" using True len n by (simp add: nat_le_iff)
    from recv_buf_fits [OF this] obtain s2 where s2: "recv_buf (2 + schar n) s1 = Done s2"
      by (cases "recv_buf (2 + schar n) s1") (auto simp: recv_buf_def s1_def Let_def split: sys.splits if_splits)
    have "sk_sent s2 = sk_sent s" "length (sk_buf s2) = 257" using recv_buf_Done [OF s2] len by (simp_all add: s1_def)
    then show ?thesis using r1 rd s2 True by (simp add: handle_auth_def schar_eq_5 schar_le_0)
  next
    case False
    then show ?thesis
      using r1 rd len by (auto simp: handle_auth_def schar_eq_5 schar_le_0 sk_error_def s1_def)
  qed
qed

theorem socks5_auth_replies_witness:
  "\<exists>s'. handle_auth False \<lparr>sk_buf = replicate 257 (chr 0), sk_recvs = [Sys_ok [chr 5, chr 200, chr 0], Sys_ok []],
      sk_sent = [], sk_log = []\<rparr> = Done s' \<and> sk_sent s' = []"
  using socks5_auth_replies [of "\<lparr>sk_buf = replicate 257 (chr 0), sk_recvs = [Sys_ok [chr 5, chr 200, chr 0], Sys_ok []],
      sk_sent = [], sk_log = []\<rparr>" "chr 5" "chr 200" "[chr 0]" "Sys_ok []" "[]"]
  by auto

subsection \<open>Requests\<close>

definition request_index :: "string \<Rightarrow> int" where
  "request_index buf = 2 + schar (buf ! 1)"

definition request_length :: "string \<Rightarrow> int" where
  "request_length buf = 3 + schar (buf ! 1) + schar (buf ! nat (request_index buf))"

text \<open>C12: Reading a request stays inside a full-size buffer, whatever the peer sends, exactly if the two
  bytes left in the buffer by earlier messages, which are taken as signed lengths, give a place
  in the buffer and a length that is not negative. Otherwise the handler reads in front of the
  buffer, or the peer can write behind it.\<close>

theorem socks5_request_safe_iff:
  assumes "length (sk_buf s) = 257"
  shows "(\<forall>recvs. handle_request (s\<lparr>sk_recvs := recvs\<rparr>) \<noteq> Fatal) \<longleftrightarrow>
    0 \<le> request_index (sk_buf s) \<and> 0 \<le> request_length (sk_buf s)"
proof -
  let ?s = "\<lambda>recvs. s\<lparr>sk_recvs := recvs\<rparr>"
  let ?a = "schar (sk_buf s ! 1)" and ?i = "request_index (sk_buf s)" and ?n = "request_length (sk_buf s)"
  have a: "read_buf 1 (?s recvs) = Done ?a" for recvs using assms by (simp add: read_buf_def)
  have i: "?i < 257" using schar_bounds(2) [of "sk_buf s ! 1"] by (simp add: request_index_def)
  show ?thesis
  proof (cases "0 \<le> ?i")
    case False
    then have "read_buf (2 + ?a) (?s []) = Fatal" by (simp add: read_buf_def request_index_def)
    then have "handle_request (?s []) = Fatal" using a by (simp add: handle_request_def)
    with False show ?thesis by blast
  next
    case True
    then have b: "read_buf (2 + ?a) (?s recvs) = Done (schar (sk_buf s ! nat ?i))" for recvs
      using i assms by (simp add: read_buf_def request_index_def)
    have len: "3 + ?a + schar (sk_buf s ! nat ?i) = ?n" by (simp add: request_length_def)
    have hr: "handle_request (?s recvs) = run_bind (recv_buf ?n (?s recvs)) (\<lambda>s.
        run_bind (read_buf 0 s) (\<lambda>version. run_bind (read_buf 2 s) (\<lambda>rsv. run_bind (read_buf 3 s) (\<lambda>_.
          let s = (if rsv \<noteq> 0 then sk_error ''RSV must be 0X00!'' s else s)
          in Done (if version mod 256 \<noteq> 5 then sk_error ''VERSION must be 0X05!'' s else s)))))" for recvs
      by (simp only: handle_request_def a b len run_bind_simps)
    have top: "?n \<le> 257"
      using schar_bounds(2) [of "sk_buf s ! 1"] schar_bounds(2) [of "sk_buf s ! nat ?i"] by (simp add: request_length_def)
    have low: "- 255 \<le> ?n"
      using schar_bounds(1) [of "sk_buf s ! nat ?i"] True by (simp add: request_length_def request_index_def)
    show ?thesis
    proof (cases "0 \<le> ?n")
      case True
      have "handle_request (?s recvs) \<noteq> Fatal" for recvs
      proof -
        have "nat (?n mod 2 ^ 64) \<le> length (sk_buf (?s recvs))" using True top assms by simp
        from recv_buf_fits [OF this] have nf: "recv_buf ?n (?s recvs) \<noteq> Fatal" .
        show ?thesis
        proof (cases "recv_buf ?n (?s recvs)")
          case (Done s2)
          then have "length (sk_buf s2) = 257" using recv_buf_Done [OF Done] assms by simp
          then have "read_buf 0 s2 \<noteq> Fatal \<and> read_buf 0 s2 \<noteq> Starved" "read_buf 2 s2 \<noteq> Fatal" "read_buf 3 s2 \<noteq> Fatal"
            by (simp_all only: read_buf_def) simp_all
          then show ?thesis unfolding hr Done
            by (cases "read_buf 0 s2"; cases "read_buf 2 s2"; cases "read_buf 3 s2") (simp_all add: Let_def)
        qed (use nf hr in simp_all)
      qed
      with True \<open>0 \<le> ?i\<close> show ?thesis by blast
    next
      case False
      let ?bytes = "replicate 258 (chr 0)"
      have "?n mod 2 ^ 64 = ?n + 2 ^ 64"
        using False low mod_pos_pos_trivial [of "?n + 2 ^ 64" "2 ^ 64"] by simp
      then have "258 \<le> nat (?n mod 2 ^ 64)" using low by simp
      then have "take (nat (?n mod 2 ^ 64)) ?bytes = ?bytes" by simp
      then have "recv_buf ?n (?s [Sys_ok ?bytes]) = Fatal" using assms by (simp add: recv_buf_def Let_def)
      then have "handle_request (?s [Sys_ok ?bytes]) = Fatal" unfolding hr by simp
      with False show ?thesis by blast
    qed
  qed
qed

definition full_buffer :: "string \<Rightarrow> socks" where
  "full_buffer front = \<lparr>sk_buf = front @ replicate (257 - length front) (chr 0), sk_recvs = [], sk_sent = [], sk_log = []\<rparr>"

text \<open>A greeting with one method whose number is 0x80 is enough.\<close>

theorem socks5_request_safe_iff_witness:
  "\<exists>recvs. handle_request ((full_buffer [chr 5, chr 1, chr 0, chr 128])\<lparr>sk_recvs := recvs\<rparr>) = Fatal"
proof -
  let ?s = "full_buffer [chr 5, chr 1, chr 0, chr 128]"
  have "length (sk_buf ?s) = 257" by (simp add: full_buffer_def)
  from socks5_request_safe_iff [OF this] show ?thesis
    by (simp add: request_index_def request_length_def full_buffer_def schar_def)
qed

end
