(* ===== verification/IpAddress.thy ===== *)
theory IpAddress
  imports Punycode SocketIo
begin

text \<open>
  Network addresses (\<^verbatim>\<open>utils/port/IPAddress.cpp\<close>) on POSIX. The bytes of addresses
  and the ports are as in memory, in network byte order, on a little-endian machine. The
  resolver and the functions that parse and print addresses are the system's, an argument
  \<open>inet\<close>. A failed \<^verbatim>\<open>CHECK\<close> is \<open>None\<close>.
\<close>

subsection \<open>Addresses\<close>

definition AF_INET :: int where "AF_INET = 2"
definition AF_INET6 :: int where "AF_INET6 = 10"

text \<open>The union of the socket addresses; the port, the flow label, the bytes and the scope of an IPv6
  address.\<close>

datatype sock_addr =
    Sockaddr_in (sin_port: "16 word") (sin_addr: string)
  | Sockaddr_in6 (sin6_port: "16 word") (sin6_flowinfo: uint32) (sin6_addr: string) (sin6_scope_id: uint32)
  | Sockaddr_other (sa_family_other: int)

record ip_address =
  ip_valid :: bool
  ip_addr :: sock_addr

definition htons :: "16 word \<Rightarrow> 16 word" where
  "htons x = push_bit 8 x OR drop_bit 8 x"

definition new_ip_address :: ip_address where
  "new_ip_address = \<lparr>ip_valid = False, ip_addr = Sockaddr_other 0\<rparr>"

definition sa_family :: "sock_addr \<Rightarrow> int" where
  "sa_family a = (case a of Sockaddr_in _ _ \<Rightarrow> AF_INET | Sockaddr_in6 _ _ _ _ \<Rightarrow> AF_INET6 | Sockaddr_other f \<Rightarrow> f)"

definition get_address_family :: "ip_address \<Rightarrow> int option" where
  "get_address_family a = (if ip_valid a then Some (sa_family (ip_addr a)) else None)"

definition get_sockaddr_len :: "ip_address \<Rightarrow> nat option" where
  "get_sockaddr_len a =
     (if ip_valid a then (case ip_addr a of Sockaddr_in _ _ \<Rightarrow> Some 16 | Sockaddr_in6 _ _ _ _ \<Rightarrow> Some 28 | _ \<Rightarrow> None)
      else None)"

definition is_ipv4 :: "ip_address \<Rightarrow> bool" where
  "is_ipv4 a \<longleftrightarrow> ip_valid a \<and> sa_family (ip_addr a) = AF_INET"

definition is_ipv6 :: "ip_address \<Rightarrow> bool" where
  "is_ipv6 a \<longleftrightarrow> ip_valid a \<and> sa_family (ip_addr a) = AF_INET6"

text \<open>The value of bytes in network byte order.\<close>

definition be_value :: "string \<Rightarrow> nat" where
  "be_value s = foldl (\<lambda>n c. n * 256 + uc c) 0 s"

definition get_ipv4 :: "ip_address \<Rightarrow> nat option" where
  "get_ipv4 a = (if ip_valid a then (case ip_addr a of Sockaddr_in _ s \<Rightarrow> Some (be_value s) | _ \<Rightarrow> None) else None)"

definition get_ipv6 :: "ip_address \<Rightarrow> string option" where
  "get_ipv6 a = (if ip_valid a then (case ip_addr a of Sockaddr_in6 _ _ s _ \<Rightarrow> Some s | _ \<Rightarrow> None) else None)"

definition init_ipv4_any :: ip_address where
  "init_ipv4_any = \<lparr>ip_valid = True, ip_addr = Sockaddr_in 0 (replicate 4 (chr 0))\<rparr>"

definition init_ipv6_any :: ip_address where
  "init_ipv6_any = \<lparr>ip_valid = True, ip_addr = Sockaddr_in6 0 0 (replicate 16 (chr 0)) 0\<rparr>"

definition get_any_addr :: "ip_address \<Rightarrow> ip_address option" where
  "get_any_addr a =
     (if ip_valid a then (case ip_addr a of
          Sockaddr_in6 _ _ _ _ \<Rightarrow> Some init_ipv6_any | Sockaddr_in _ _ \<Rightarrow> Some init_ipv4_any | _ \<Rightarrow> None)
      else None)"

definition get_port :: "ip_address \<Rightarrow> int option" where
  "get_port a =
     (if \<not> ip_valid a then Some 0
      else case ip_addr a of
          Sockaddr_in6 p _ _ _ \<Rightarrow> Some (uint (htons p)) | Sockaddr_in p _ \<Rightarrow> Some (uint (htons p)) | _ \<Rightarrow> None)"

definition set_port :: "int \<Rightarrow> ip_address \<Rightarrow> ip_address option" where
  "set_port port a =
     (if \<not> ip_valid a then None
      else case ip_addr a of
          Sockaddr_in6 _ f s i \<Rightarrow> Some (a\<lparr>ip_addr := Sockaddr_in6 (htons (word_of_int port)) f s i\<rparr>)
        | Sockaddr_in _ s \<Rightarrow> Some (a\<lparr>ip_addr := Sockaddr_in (htons (word_of_int port)) s\<rparr>)
        | _ \<Rightarrow> None)"

definition clear_ipv6_interface :: "ip_address \<Rightarrow> ip_address" where
  "clear_ipv6_interface a =
     (case ip_addr a of
        Sockaddr_in6 p f s i \<Rightarrow>
          if ip_valid a then a\<lparr>ip_addr := Sockaddr_in6 p f (take 8 s @ replicate 8 (chr 0)) i\<rparr> else a
      | _ \<Rightarrow> a)"

subsection \<open>Comparison\<close>

text \<open>\<^verbatim>\<open>memcmp\<close> of two byte strings of the same length: the first pair that differs.\<close>

fun mem_less :: "string \<Rightarrow> string \<Rightarrow> bool" where
  "mem_less (c # s) (d # t) = (if c = d then mem_less s t else uc c < uc d)"
| "mem_less _ _ = False"

definition ip_eq :: "ip_address \<Rightarrow> ip_address \<Rightarrow> bool option" where
  "ip_eq a b =
     (if \<not> ip_valid a \<or> \<not> ip_valid b then Some (\<not> ip_valid a \<and> \<not> ip_valid b)
      else if sa_family (ip_addr a) \<noteq> sa_family (ip_addr b) then Some False
      else case (ip_addr a, ip_addr b) of
          (Sockaddr_in p s, Sockaddr_in q t) \<Rightarrow> Some (p = q \<and> s = t)
        | (Sockaddr_in6 p _ s _, Sockaddr_in6 q _ t _) \<Rightarrow> Some (p = q \<and> s = t)
        | _ \<Rightarrow> None)"

definition ip_less :: "ip_address \<Rightarrow> ip_address \<Rightarrow> bool option" where
  "ip_less a b =
     (if \<not> ip_valid a \<or> \<not> ip_valid b then Some (\<not> ip_valid a \<and> ip_valid b)
      else if sa_family (ip_addr a) \<noteq> sa_family (ip_addr b) then Some (sa_family (ip_addr a) < sa_family (ip_addr b))
      else case (ip_addr a, ip_addr b) of
          (Sockaddr_in p s, Sockaddr_in q t) \<Rightarrow> Some (if p \<noteq> q then p < q else mem_less s t)
        | (Sockaddr_in6 p _ s _, Sockaddr_in6 q _ t _) \<Rightarrow> Some (if p \<noteq> q then p < q else mem_less s t)
        | _ \<Rightarrow> None)"

subsection \<open>The system's functions\<close>

text \<open>\<open>os_pton\<close> and \<open>os_ntop\<close> take a family; the former reports success, a malformed
  text or an error. \<open>os_inet_addr\<close> gives \<^verbatim>\<open>INADDR_NONE\<close> for a malformed text. The
  resolver gives a list of addresses or the text of an error.\<close>

record inet =
  os_pton :: "int \<Rightarrow> string \<Rightarrow> string option sys"
  os_ntop :: "int \<Rightarrow> string \<Rightarrow> string option"
  os_inet_addr :: "string \<Rightarrow> string"
  os_getaddrinfo :: "string \<Rightarrow> string \<Rightarrow> string + (sock_addr \<times> nat) list"

definition INADDR_NONE :: string where "INADDR_NONE = replicate 4 (chr 255)"

definition get_ip_str_of :: "inet \<Rightarrow> int \<Rightarrow> string \<Rightarrow> string" where
  "get_ip_str_of os family addr = (case os_ntop os family addr of None \<Rightarrow> [] | Some s \<Rightarrow> s)"

definition get_ip_str :: "inet \<Rightarrow> ip_address \<Rightarrow> string option" where
  "get_ip_str os a =
     (if \<not> ip_valid a then Some ''0.0.0.0''
      else case ip_addr a of
          Sockaddr_in6 _ _ s _ \<Rightarrow> Some (get_ip_str_of os AF_INET6 s)
        | Sockaddr_in _ s \<Rightarrow> Some (get_ip_str_of os AF_INET s)
        | _ \<Rightarrow> None)"

definition get_ip_host :: "inet \<Rightarrow> ip_address \<Rightarrow> string option" where
  "get_ip_host os a =
     (if \<not> ip_valid a then Some ''0.0.0.0''
      else case ip_addr a of
          Sockaddr_in6 _ _ s _ \<Rightarrow> Some (''['' @ get_ip_str_of os AF_INET6 s @ '']'')
        | Sockaddr_in _ s \<Rightarrow> Some (get_ip_str_of os AF_INET s)
        | _ \<Rightarrow> None)"

definition print_ip_address :: "inet \<Rightarrow> ip_address \<Rightarrow> string option" where
  "print_ip_address os a =
     (if \<not> ip_valid a then Some ''[invalid]''
      else Option.bind (get_ip_host os a) (\<lambda>host. Option.bind (get_port a) (\<lambda>port.
        Some (''['' @ host @ '':'' @ print_int 32 port @ '']''))))"

definition ipv4_bytes :: "nat \<Rightarrow> string" where
  "ipv4_bytes n = [chr (n div 2 ^ 24 mod 256), chr (n div 2 ^ 16 mod 256), chr (n div 2 ^ 8 mod 256), chr (n mod 256)]"

definition ipv4_to_str :: "inet \<Rightarrow> uint32 \<Rightarrow> string" where
  "ipv4_to_str os ipv4 = get_ip_str_of os AF_INET (ipv4_bytes (unat ipv4))"

definition ipv6_to_str :: "inet \<Rightarrow> string \<Rightarrow> string option" where
  "ipv6_to_str os ipv6 = (if length ipv6 = 16 then Some (get_ip_str_of os AF_INET6 ipv6) else None)"

definition init_ipv6_port :: "inet \<Rightarrow> string \<Rightarrow> int \<Rightarrow> ip_address \<Rightarrow> status \<times> ip_address" where
  "init_ipv6_port os ipv6 port a =
     (let a = a\<lparr>ip_valid := False\<rparr> in
      if port \<le> 0 \<or> port \<ge> 2 ^ 16 then (Some (Error_msg (''Invalid [IPv6 address port='' @ print_int 32 port @ '']'')), a)
      else
        let ipv6 = (if length ipv6 > 2 \<and> hd ipv6 = CHR ''['' \<and> last ipv6 = CHR '']''
                    then take (length ipv6 - 2) (drop 1 ipv6) else ipv6);
            failed = ''Failed inet_pton(AF_INET6, '' @ ipv6 @ '')'' in
        case os_pton os AF_INET6 (c_string ipv6) of
          Sys_errno e \<Rightarrow> (Some (PosixError e failed), a)
        | Sys_ok None \<Rightarrow> (Some (Error_msg failed), a)
        | Sys_ok (Some bytes) \<Rightarrow> (None, \<lparr>ip_valid = True, ip_addr = Sockaddr_in6 (htons (word_of_int port)) 0 bytes 0\<rparr>))"

definition init_ipv6_as_ipv4_port :: "inet \<Rightarrow> string \<Rightarrow> int \<Rightarrow> ip_address \<Rightarrow> status \<times> ip_address" where
  "init_ipv6_as_ipv4_port os ipv4 port a = init_ipv6_port os (''::FFFF:'' @ ipv4) port a"

definition init_ipv4_port :: "inet \<Rightarrow> string \<Rightarrow> int \<Rightarrow> ip_address \<Rightarrow> status \<times> ip_address" where
  "init_ipv4_port os ipv4 port a =
     (let a = a\<lparr>ip_valid := False\<rparr> in
      if port \<le> 0 \<or> port \<ge> 2 ^ 16 then (Some (Error_msg (''Invalid [IPv4 address port='' @ print_int 32 port @ '']'')), a)
      else
        let failed = ''Failed inet_pton(AF_INET, '' @ ipv4 @ '')'' in
        case os_pton os AF_INET (c_string ipv4) of
          Sys_errno e \<Rightarrow> (Some (PosixError e failed), a)
        | Sys_ok None \<Rightarrow> (Some (Error_msg failed), a)
        | Sys_ok (Some bytes) \<Rightarrow> (None, \<lparr>ip_valid = True, ip_addr = Sockaddr_in (htons (word_of_int port)) bytes\<rparr>))"

definition quote :: "string \<Rightarrow> string" where
  "quote s = ''\"'' @ s @ ''\"''"

definition get_ipv4_address :: "inet \<Rightarrow> string \<Rightarrow> ip_address result" where
  "get_ipv4_address os host =
     (let addr = os_inet_addr os (c_string host) in
      if addr = INADDR_NONE then error_result (quote host @ '' is not a valid IPv4 address'')
      else case init_ipv4_port os (get_ip_str_of os AF_INET addr) 1 new_ip_address of
          (Some e, _) \<Rightarrow> Inl e
        | (None, a) \<Rightarrow> Inr a)"

definition get_ipv6_address :: "inet \<Rightarrow> string \<Rightarrow> ip_address result" where
  "get_ipv6_address os host =
     (case init_ipv6_port os host 1 new_ip_address of
        (Some e, _) \<Rightarrow> error_result (quote host @ '' is not a valid IPv6 address'')
      | (None, a) \<Rightarrow> Inr a)"

definition get_ip_address :: "inet \<Rightarrow> string \<Rightarrow> ip_address result" where
  "get_ip_address os host =
     (case get_ipv4_address os host of
        Inr a \<Rightarrow> Inr a
      | Inl _ \<Rightarrow> (case get_ipv6_address os host of
            Inr a \<Rightarrow> Inr a
          | Inl _ \<Rightarrow> error_result (quote host @ '' is not a valid IP address'')))"

definition sockaddr_size :: "sock_addr \<Rightarrow> nat" where
  "sockaddr_size addr = (case addr of Sockaddr_in6 _ _ _ _ \<Rightarrow> 28 | Sockaddr_in _ _ \<Rightarrow> 16 | Sockaddr_other _ \<Rightarrow> 0)"

definition init_sockaddr_len :: "sock_addr \<Rightarrow> nat \<Rightarrow> ip_address \<Rightarrow> (status \<times> ip_address) option" where
  "init_sockaddr_len addr len a =
     (case addr of
        Sockaddr_other f \<Rightarrow> Some (Some (Error_msg (''Unknown [sa_family:'' @ print_int 32 f @ '']'')), a)
      | _ \<Rightarrow> if len = sockaddr_size addr then Some (None, \<lparr>ip_valid = True, ip_addr = addr\<rparr>) else None)"

definition init_sockaddr :: "sock_addr \<Rightarrow> ip_address \<Rightarrow> (status \<times> ip_address) option" where
  "init_sockaddr addr a = init_sockaddr_len addr (sockaddr_size addr) a"

subsection \<open>Resolving a host\<close>

text \<open>The choice among the addresses of a host.\<close>

fun best_info :: "bool \<Rightarrow> (sock_addr \<times> nat) option \<Rightarrow> (sock_addr \<times> nat) list \<Rightarrow> (sock_addr \<times> nat) option" where
  "best_info prefer_ipv6 best [] = best"
| "best_info prefer_ipv6 best (a # as) =
     (let take4 = (sa_family (fst a) = AF_INET \<and> (\<not> prefer_ipv6 \<or> best = None));
          best = (if take4 then Some a else best)
      in if take4 \<and> \<not> prefer_ipv6 then best
         else if sa_family (fst a) = AF_INET6 \<and> (prefer_ipv6 \<or> best = None)
         then (if prefer_ipv6 then Some a else best_info prefer_ipv6 (Some a) as)
         else best_info prefer_ipv6 best as)"

definition init_host_port :: "inet \<Rightarrow> string \<Rightarrow> string \<Rightarrow> bool \<Rightarrow> ip_address \<Rightarrow> (status \<times> ip_address) option" where
  "init_host_port os host port prefer_ipv6 a =
     (let a = a\<lparr>ip_valid := False\<rparr> in
      if host = [] then Some (Some (Error_msg ''Host is empty''), a)
      else case idn_to_ascii host of
          None \<Rightarrow> None
        | Some (Inl e) \<Rightarrow> Some (Some e, a)
        | Some (Inr host) \<Rightarrow>
            if hd host = CHR ''['' \<and> last host = CHR '']''
            then (let port_int = to_integer_signed 32 port
                  in Some (init_ipv6_port os host (if port_int = 0 then 1 else port_int) a))
            else
              let addr = os_inet_addr os (c_string host);
                  host = (if addr \<noteq> INADDR_NONE then get_ip_str_of os AF_INET addr else host)
              in (case os_getaddrinfo os (c_string host) (c_string port) of
                    Inl err \<Rightarrow> Some (Some (Error_msg (''Failed to resolve host: '' @ err)), a)
                  | Inr infos \<Rightarrow>
                      (case best_info prefer_ipv6 None infos of
                         None \<Rightarrow> Some (Some (Error_msg ''Failed to find IPv4/IPv6 address''), a)
                       | Some (addr, len) \<Rightarrow> init_sockaddr_len addr len a)))"

definition init_host_port_int :: "inet \<Rightarrow> string \<Rightarrow> int \<Rightarrow> bool \<Rightarrow> ip_address \<Rightarrow> (status \<times> ip_address) option" where
  "init_host_port_int os host port prefer_ipv6 a =
     (if length host > 2 \<and> hd host = CHR ''['' \<and> last host = CHR '']''
      then Some (init_ipv6_port os host (if port = 0 then 1 else port) a)
      else init_host_port os host (print_int 32 port) prefer_ipv6 a)"

definition init_host_port_text :: "inet \<Rightarrow> string \<Rightarrow> ip_address \<Rightarrow> (status \<times> ip_address) option" where
  "init_host_port_text os host_port a =
     (case rfind_char CHR '':'' host_port of
        None \<Rightarrow> Some (Some (Error_msg ''Can't split string into host and port''), a)
      | Some pos \<Rightarrow> init_host_port os (take pos host_port) (drop (pos + 1) host_port) False a)"

subsection \<open>Reserved addresses\<close>

definition reserved_blocks :: "(string \<times> nat) list" where
  "reserved_blocks =
     [(''0.0.0.0'', 8), (''10.0.0.0'', 8), (''100.64.0.0'', 10), (''127.0.0.0'', 8), (''169.254.0.0'', 16),
      (''172.16.0.0'', 12), (''192.0.0.0'', 24), (''192.0.2.0'', 24), (''192.88.99.0'', 24), (''192.168.0.0'', 16),
      (''198.18.0.0'', 15), (''198.51.100.0'', 24), (''203.0.113.0'', 24), (''224.0.0.0'', 3)]"

definition block_mask :: "nat \<Rightarrow> uint32" where
  "block_mask bits = push_bit (32 - bits) (drop_bit (32 - bits) (- 1))"

fun in_blocks :: "inet \<Rightarrow> uint32 \<Rightarrow> (string \<times> nat) list \<Rightarrow> bool option" where
  "in_blocks os ip [] = Some False"
| "in_blocks os ip ((text, bits) # blocks) =
     (case init_ipv4_port os text 80 new_ip_address of
        (Some _, _) \<Rightarrow> None
      | (None, block) \<Rightarrow>
          (case get_ipv4 block of
             None \<Rightarrow> None
           | Some net \<Rightarrow>
               if ip AND block_mask bits = of_nat net AND block_mask bits then Some True
               else in_blocks os ip blocks))"

definition is_reserved :: "inet \<Rightarrow> ip_address \<Rightarrow> bool option" where
  "is_reserved os a =
     (if \<not> ip_valid a then None
      else if is_ipv6 a then Some True
      else Option.bind (get_ipv4 a) (\<lambda>ip. in_blocks os (of_nat ip) reserved_blocks))"

subsection \<open>The order of addresses\<close>

definition ip_ok :: "ip_address \<Rightarrow> bool" where
  "ip_ok a \<longleftrightarrow> ip_valid a \<longrightarrow>
     (case ip_addr a of Sockaddr_in _ s \<Rightarrow> length s = 4 | Sockaddr_in6 _ _ s _ \<Rightarrow> length s = 16 | _ \<Rightarrow> False)"

text \<open>A number for every address; the flow label and the scope do not count.\<close>

definition ip_key :: "ip_address \<Rightarrow> nat" where
  "ip_key a =
     (if \<not> ip_valid a then 0
      else case ip_addr a of
          Sockaddr_in p s \<Rightarrow> 1 + unat p * 256 ^ 4 + be_value s
        | Sockaddr_in6 p _ s _ \<Rightarrow> 1 + 2 ^ 16 * 256 ^ 4 + unat p * 256 ^ 16 + be_value s
        | Sockaddr_other _ \<Rightarrow> 0)"

lemma be_value_simps [simp]: "be_value [] = 0" "be_value (s @ [c]) = be_value s * 256 + uc c"
  by (simp_all add: be_value_def)

lemma be_value_Cons: "be_value (c # s) = uc c * 256 ^ length s + be_value s"
proof (induction s rule: rev_induct)
  case (snoc d s)
  have "be_value (c # s @ [d]) = be_value ((c # s) @ [d])" by simp
  also have "\<dots> = be_value (c # s) * 256 + uc d" by (rule be_value_simps(2))
  finally show ?case using snoc by (simp add: algebra_simps)
qed (simp add: be_value_def)

lemma be_value_less: "be_value s < 256 ^ length s"
proof (induction s)
  case (Cons c s)
  have "uc c * 256 ^ length s + be_value s < uc c * 256 ^ length s + 256 ^ length s" using Cons by simp
  also have "\<dots> = (uc c + 1) * 256 ^ length s" by simp
  also have "\<dots> \<le> 256 * 256 ^ length s" using uc_bound [of c] by (intro mult_right_mono) (simp_all del: uc_bound)
  finally show ?case by (simp add: be_value_Cons)
qed simp

lemma digit_order:
  assumes "r < m" "r' < (m :: nat)"
  shows "q * m + r < q' * m + r' \<longleftrightarrow> (if q = q' then r < r' else q < q')"
    and "q * m + r = q' * m + r' \<longleftrightarrow> q = q' \<and> r = r'"
proof -
  have step: "q * m + r < q' * m + r'" if "q < q'" "r < m" for q q' r r' :: nat
  proof -
    have "q * m + r < q * m + m" using that(2) by simp
    also have "\<dots> = (q + 1) * m" by simp
    also have "\<dots> \<le> q' * m" using that(1) by (intro mult_right_mono) auto
    finally show ?thesis by simp
  qed
  have "q < q' \<or> q = q' \<or> q' < q" by arith
  then show "q * m + r < q' * m + r' \<longleftrightarrow> (if q = q' then r < r' else q < q')"
    using step [of q q' r r'] step [of q' q r' r] assms by auto
  show "q * m + r = q' * m + r' \<longleftrightarrow> q = q' \<and> r = r'"
    using step [of q q' r r'] step [of q' q r' r] assms \<open>q < q' \<or> q = q' \<or> q' < q\<close> by auto
qed

lemma mem_less_be_value: "length s = length t \<Longrightarrow> mem_less s t \<longleftrightarrow> be_value s < be_value t"
proof (induction s t rule: list_induct2)
  case (Cons c s d t)
  show ?case
    using digit_order(1) [of "be_value s" "256 ^ length s" "be_value t" "uc c" "uc d"] Cons be_value_less [of s]
      be_value_less [of t]
    by (auto simp: be_value_Cons uc_eq_iff)
qed simp

lemma be_value_inject: "length s = length t \<Longrightarrow> be_value s = be_value t \<longleftrightarrow> s = t"
proof (induction s t rule: list_induct2)
  case (Cons c s d t)
  show ?case
    using digit_order(2) [of "be_value s" "256 ^ length s" "be_value t" "uc c" "uc d"] Cons be_value_less [of s]
      be_value_less [of t]
    by (auto simp: be_value_Cons uc_eq_iff)
qed simp

text \<open>C28: On addresses as the operations make them, the comparison operators never fail and are those of the natural numbers
  under the key: an invalid address is below every valid one, IPv4 is below IPv6, then the ports
  count and then the bytes. So they are a linear order, and addresses that differ only in the
  flow label or the scope are equal.\<close>

theorem ip_order_by_key:
  assumes "ip_ok a" "ip_ok b"
  shows "ip_less a b = Some (ip_key a < ip_key b) \<and> ip_eq a b = Some (ip_key a = ip_key b)"
proof (cases "ip_valid a \<and> ip_valid b")
  case False
  then show ?thesis
    using assms by (auto simp: ip_less_def ip_eq_def ip_key_def ip_ok_def split: sock_addr.splits)
next
  case True
  have port: "unat p < 2 ^ 16" for p :: "16 word"
    using unsigned_less [of p] by simp
  have v4: "unat p * 256 ^ 4 + be_value s < 2 ^ 16 * 256 ^ 4" if "length s = 4" for p :: "16 word" and s
    using digit_order(1) [of "be_value s" "256 ^ 4" 0 "unat p" "2 ^ 16"] be_value_less [of s] that
      port [of p] by simp
  have ne: "AF_INET \<noteq> AF_INET6" "AF_INET < AF_INET6" by (simp_all add: AF_INET_def AF_INET6_def)
  show ?thesis
  proof (cases "ip_addr a")
    case a: (Sockaddr_in p s)
    show ?thesis
    proof (cases "ip_addr b")
      case (Sockaddr_in q t)
      with a assms True have l: "length s = 4" "length t = 4" by (simp_all add: ip_ok_def)
      show ?thesis
        using True a Sockaddr_in l digit_order [of "be_value s" "256 ^ 4" "be_value t" "unat p" "unat q"]
          be_value_less [of s] be_value_less [of t] mem_less_be_value [of s t] be_value_inject [of s t]
        by (auto simp: ip_less_def ip_eq_def ip_key_def sa_family_def word_less_nat_alt unsigned_word_eqI)
    next
      case (Sockaddr_in6 q f t i)
      with a assms True have l: "length s = 4" by (simp add: ip_ok_def)
      show ?thesis
        using True a Sockaddr_in6 ne v4 [OF l, of p]
        by (simp add: ip_less_def ip_eq_def ip_key_def sa_family_def)
    qed (use assms True in \<open>simp add: ip_ok_def\<close>)
  next
    case a: (Sockaddr_in6 p f s i)
    show ?thesis
    proof (cases "ip_addr b")
      case (Sockaddr_in q t)
      with a assms True have l: "length t = 4" by (simp add: ip_ok_def)
      show ?thesis
        using True a Sockaddr_in ne v4 [OF l, of q]
        by (simp add: ip_less_def ip_eq_def ip_key_def sa_family_def)
    next
      case (Sockaddr_in6 q g t j)
      with a assms True have l: "length s = 16" "length t = 16" by (simp_all add: ip_ok_def)
      show ?thesis
        using True a Sockaddr_in6 l digit_order [of "be_value s" "256 ^ 16" "be_value t" "unat p" "unat q"]
          be_value_less [of s] be_value_less [of t] mem_less_be_value [of s t] be_value_inject [of s t]
        by (auto simp: ip_less_def ip_eq_def ip_key_def sa_family_def word_less_nat_alt unsigned_word_eqI)
    qed (use assms True in \<open>simp add: ip_ok_def\<close>)
  qed (use assms True in \<open>simp add: ip_ok_def\<close>)
qed

text \<open>The resolver's first address of the preferred family is taken, or else the first of the
  other one.\<close>

lemma best_info_some:
  "best_info prefer (Some b) infos =
     (case find (\<lambda>a. sa_family (fst a) = (if prefer then AF_INET6 else AF_INET)) infos of Some a \<Rightarrow> Some a | None \<Rightarrow> Some b)"
  by (induction infos) (auto simp: Let_def AF_INET_def AF_INET6_def)

lemma best_info_finds:
  "best_info prefer None infos =
     (case find (\<lambda>a. sa_family (fst a) = (if prefer then AF_INET6 else AF_INET)) infos of
        Some a \<Rightarrow> Some a
      | None \<Rightarrow> find (\<lambda>a. sa_family (fst a) = (if prefer then AF_INET else AF_INET6)) infos)"
  by (induction infos) (auto simp: Let_def best_info_some AF_INET_def AF_INET6_def split: option.splits)

subsection \<open>What is reserved\<close>

definition reserved_quads :: "(string \<times> nat list) list" where
  "reserved_quads =
     [(''0.0.0.0'', [0, 0, 0, 0]), (''10.0.0.0'', [10, 0, 0, 0]), (''100.64.0.0'', [100, 64, 0, 0]),
      (''127.0.0.0'', [127, 0, 0, 0]), (''169.254.0.0'', [169, 254, 0, 0]), (''172.16.0.0'', [172, 16, 0, 0]),
      (''192.0.0.0'', [192, 0, 0, 0]), (''192.0.2.0'', [192, 0, 2, 0]), (''192.88.99.0'', [192, 88, 99, 0]),
      (''192.168.0.0'', [192, 168, 0, 0]), (''198.18.0.0'', [198, 18, 0, 0]), (''198.51.100.0'', [198, 51, 100, 0]),
      (''203.0.113.0'', [203, 0, 113, 0]), (''224.0.0.0'', [224, 0, 0, 0])]"

text \<open>\<^verbatim>\<open>inet_pton\<close> parses the constants of the table.\<close>

definition parses_blocks :: "inet \<Rightarrow> bool" where
  "parses_blocks os \<longleftrightarrow>
     list_all (\<lambda>(text, quad). os_pton os AF_INET text = Sys_ok (Some (List.map chr quad))) reserved_quads"

lemma block_mask_prefix:
  fixes w v :: uint32
  assumes "bits \<le> 32"
  shows "w AND block_mask bits = v AND block_mask bits \<longleftrightarrow> unat w div 2 ^ (32 - bits) = unat v div 2 ^ (32 - bits)"
proof -
  let ?k = "32 - bits"
  have bit_mask: "bit (block_mask bits) i \<longleftrightarrow> ?k \<le> i \<and> i < 32" for i
    using assms by (auto simp: block_mask_def bit_push_bit_iff bit_drop_bit_eq bit_minus_1_iff possible_bit_def bit_mask_iff)
  have "w AND block_mask bits = v AND block_mask bits \<longleftrightarrow> (\<forall>i. ?k \<le> i \<and> i < 32 \<longrightarrow> bit w i = bit v i)"
    by (auto simp: bit_eq_iff bit_and_iff bit_mask possible_bit_def)
  also have "\<dots> \<longleftrightarrow> drop_bit ?k w = drop_bit ?k v"
  proof
    assume l: "\<forall>i. ?k \<le> i \<and> i < 32 \<longrightarrow> bit w i = bit v i"
    show "drop_bit ?k w = drop_bit ?k v"
    proof (rule bit_eqI)
      fix i
      show "bit (drop_bit ?k w) i = bit (drop_bit ?k v) i"
        using l bit_imp_le_length [of w "?k + i"] bit_imp_le_length [of v "?k + i"]
        by (cases "?k + i < 32") (auto simp: bit_drop_bit_eq)
    qed
  next
    assume "drop_bit ?k w = drop_bit ?k v"
    then have "bit (drop_bit ?k w) (i - ?k) = bit (drop_bit ?k v) (i - ?k)" for i by simp
    then have "bit w (?k + (i - ?k)) = bit v (?k + (i - ?k))" for i by (simp add: bit_drop_bit_eq)
    then show "\<forall>i. ?k \<le> i \<and> i < 32 \<longrightarrow> bit w i = bit v i" by (metis le_add_diff_inverse)
  qed
  also have "\<dots> \<longleftrightarrow> unat w div 2 ^ ?k = unat v div 2 ^ ?k"
  proof -
    have "unat (drop_bit ?k x) = unat x div 2 ^ ?k" for x :: uint32
    proof -
      have "unat x < 2 ^ 32" using unsigned_less [of x] by simp
      then show ?thesis
        by (simp add: unsigned_drop_bit_eq) (simp add: drop_bit_eq_div [where ?'a = nat] take_bit_nat_eq_self)
    qed
    then show ?thesis by (simp add: word_unat_eq_iff)
  qed
  finally show ?thesis .
qed

lemma in_blocks_step:
  assumes "os_pton os AF_INET text = Sys_ok (Some bytes)" "list_all (\<lambda>c. uc c \<noteq> 0) text" "bits \<le> 32" "length bytes = 4" "v < 2 ^ 32"
  shows "in_blocks os (of_nat v) ((text, bits) # blocks) =
    (if v div 2 ^ (32 - bits) = be_value bytes div 2 ^ (32 - bits) then Some True else in_blocks os (of_nat v) blocks)"
proof -
  have "c_string text = text" using assms(2) by (auto simp: c_string_def takeWhile_eq_all_conv list_all_iff)
  moreover have "be_value bytes < 2 ^ 32" using be_value_less [of bytes] assms(4) by simp
  ultimately show ?thesis
    using assms block_mask_prefix [of bits "of_nat v" "of_nat (be_value bytes)"]
    by (simp add: init_ipv4_port_def get_ipv4_def Let_def unat_of_nat_32)
qed

lemma in_blocks_list_ex:
  assumes "v < 2 ^ 32"
  shows "list_all (\<lambda>((text, quad), bits). os_pton os AF_INET text = Sys_ok (Some (List.map chr quad)) \<and>
      list_all (\<lambda>c. uc c \<noteq> 0) text \<and> bits \<le> 32 \<and> length quad = 4) bs \<Longrightarrow>
    in_blocks os (of_nat v) (List.map (\<lambda>((text, quad), bits). (text, bits)) bs) =
      Some (list_ex (\<lambda>((text, quad), bits). v div 2 ^ (32 - bits) = be_value (List.map chr quad) div 2 ^ (32 - bits)) bs)"
proof (induction bs)
  case (Cons b bs)
  obtain name quad bits where b: "b = ((name, quad), bits)" by (metis surj_pair)
  from Cons.prems have "os_pton os AF_INET name = Sys_ok (Some (List.map chr quad))" "list_all (\<lambda>c. uc c \<noteq> 0) name"
    "bits \<le> 32" "length (List.map chr quad) = 4" by (simp_all add: b)
  from in_blocks_step [OF this assms] Cons show ?case by (simp add: b)
qed simp

lemma reserved_blocks_zip:
  "reserved_blocks = List.map (\<lambda>((text, quad), bits). (text, bits)) (zip reserved_quads (List.map snd reserved_blocks))"
  by (simp add: reserved_blocks_def reserved_quads_def)

text \<open>C29: An IPv4 address is reserved exactly if its value lies in one of the blocks that are set apart: 0/8,
  10/8, 100.64/10, 127/8, 169.254/16, 172.16/12, 192.0.0/24, 192.0.2/24, 192.88.99/24,
  192.168/16, 198.18/15, 198.51.100/24, 203.0.113/24 and everything from 224.0.0.0 on.\<close>

theorem is_reserved_iff:
  assumes "parses_blocks os" "get_ipv4 a = Some v" "v < 2 ^ 32"
  shows "is_reserved os a = Some
    (v div 2 ^ 24 = 0 \<or> v div 2 ^ 24 = 10 \<or> v div 2 ^ 22 = 100 * 4 + 1 \<or> v div 2 ^ 24 = 127 \<or>
     v div 2 ^ 16 = 169 * 256 + 254 \<or> v div 2 ^ 20 = 172 * 16 + 1 \<or>
     v div 2 ^ 8 = 192 * 65536 \<or> v div 2 ^ 8 = 192 * 65536 + 2 \<or> v div 2 ^ 8 = 192 * 65536 + 88 * 256 + 99 \<or>
     v div 2 ^ 16 = 192 * 256 + 168 \<or> v div 2 ^ 17 = 198 * 128 + 9 \<or>
     v div 2 ^ 8 = 198 * 65536 + 51 * 256 + 100 \<or> v div 2 ^ 8 = 203 * 65536 + 113 \<or> 224 * 2 ^ 24 \<le> v)"
proof -
  from assms(2) have a: "ip_valid a" "\<not> is_ipv6 a"
    by (auto simp: get_ipv4_def is_ipv6_def sa_family_def AF_INET_def AF_INET6_def split: if_splits sock_addr.splits)
  then have r: "is_reserved os a = in_blocks os (of_nat v) reserved_blocks" using assms(2) by (simp add: is_reserved_def)
  have top: "v div 536870912 = 7 \<longleftrightarrow> 3758096384 \<le> v" using assms(3) by auto
  have all: "list_all (\<lambda>((text, quad), bits). os_pton os AF_INET text = Sys_ok (Some (List.map chr quad)) \<and>
      list_all (\<lambda>c. uc c \<noteq> 0) text \<and> bits \<le> 32 \<and> length quad = 4) (zip reserved_quads (List.map snd reserved_blocks))"
    using assms(1) by (simp add: parses_blocks_def reserved_quads_def reserved_blocks_def)
  have "is_reserved os a = Some (list_ex (\<lambda>((text, quad), bits).
      v div 2 ^ (32 - bits) = be_value (List.map chr quad) div 2 ^ (32 - bits)) (zip reserved_quads (List.map snd reserved_blocks)))"
    unfolding r by (subst reserved_blocks_zip) (rule in_blocks_list_ex [OF assms(3) all])
  then show ?thesis by (simp add: reserved_quads_def reserved_blocks_def be_value_Cons top)
qed

definition demo_inet :: inet where
  "demo_inet = \<lparr>os_pton = \<lambda>family text. Sys_ok (map_option (List.map chr) (map_of reserved_quads text)),
     os_ntop = \<lambda>_ _. None, os_inet_addr = \<lambda>_. INADDR_NONE, os_getaddrinfo = \<lambda>_ _. Inr []\<rparr>"

theorem is_reserved_iff_witness:
  "is_reserved demo_inet \<lparr>ip_valid = True, ip_addr = Sockaddr_in 0 [chr 172, chr 31, chr 0, chr 1]\<rparr> = Some True \<and>
   is_reserved demo_inet \<lparr>ip_valid = True, ip_addr = Sockaddr_in 0 [chr 172, chr 32, chr 0, chr 1]\<rparr> = Some False"
proof -
  have p: "parses_blocks demo_inet" by (simp add: parses_blocks_def demo_inet_def reserved_quads_def)
  have g: "get_ipv4 \<lparr>ip_valid = True, ip_addr = Sockaddr_in 0 [chr 172, chr c, chr 0, chr 1]\<rparr> = Some (2885681153 + (c - 0) * 65536)"
    if "c < 256" for c
    using that by (simp add: get_ipv4_def be_value_Cons)
  show ?thesis
    using is_reserved_iff [OF p g [of 31]] is_reserved_iff [OF p g [of 32]] by simp
qed

theorem ip_order_by_key_witness:
  "ip_less (init_ipv4_any) (init_ipv6_any) = Some (ip_key init_ipv4_any < ip_key init_ipv6_any) \<and>
   ip_eq init_ipv4_any init_ipv6_any = Some (ip_key init_ipv4_any = ip_key init_ipv6_any)"
  by (rule ip_order_by_key) (simp_all add: ip_ok_def init_ipv4_any_def init_ipv6_any_def)

subsection \<open>Ports\<close>

lemma htons_htons: "htons (htons x) = x"
  by (rule bit_word_eqI) (auto simp: htons_def bit_or_iff bit_push_bit_iff bit_drop_bit_eq possible_bit_def)

text \<open>A port that is set is read back modulo \<open>2 ^ 16\<close>; nothing else changes.\<close>

lemma get_set_port:
  assumes "ip_ok a" "ip_valid a"
  shows "\<exists>b. set_port port a = Some b \<and> get_port b = Some (port mod 2 ^ 16) \<and> get_ipv4 b = get_ipv4 a \<and> get_ipv6 b = get_ipv6 a"
  using assms
  by (cases "ip_addr a") (simp_all add: ip_ok_def set_port_def get_port_def get_ipv4_def get_ipv6_def htons_htons uint_word_of_int)

end
