(* ===== verification/UdpSocket.thy ===== *)
theory UdpSocket
  imports BufferedFd IpAddress
begin

text \<open>
  Datagram sockets (\<^verbatim>\<open>UdpSocketFdImpl\<close> of \<^verbatim>\<open>utils/port/UdpSocketFd.cpp\<close>, on Linux)
  and the buffers of \<^verbatim>\<open>utils/BufferedUdp.h\<close>. As for connected sockets, what the
  calls of the system return is an argument: a list of results for \<^verbatim>\<open>recvmsg\<close> and
  \<^verbatim>\<open>recvmmsg\<close>, one for the same calls on the queue of errors, and one for
  \<^verbatim>\<open>sendmsg\<close> and \<^verbatim>\<open>sendmmsg\<close>. The memory of the buffers is explicit, because
  the reader hands out parts of buffers into which later calls write: a slice is a buffer, a
  position and a length.
\<close>

lemma of_check_Done: "of_check x = Done y \<longleftrightarrow> x = Some y"
  by (cases x) simp_all

subsection \<open>Memory\<close>

record mem_slice =
  sl_buffer :: nat
  sl_begin :: nat
  sl_size :: nat

type_synonym memory = "string list"

definition slice_bytes :: "memory \<Rightarrow> mem_slice \<Rightarrow> string" where
  "slice_bytes m sl = take (sl_size sl) (drop (sl_begin sl) (m ! sl_buffer sl))"

definition store_bytes :: "mem_slice \<Rightarrow> string \<Rightarrow> memory \<Rightarrow> memory" where
  "store_bytes sl bytes m =
     m[sl_buffer sl := take (sl_begin sl) (m ! sl_buffer sl) @ bytes @
       drop (sl_begin sl + length bytes) (m ! sl_buffer sl)]"

definition truncate_slice :: "nat \<Rightarrow> mem_slice \<Rightarrow> mem_slice" where
  "truncate_slice n sl = sl\<lparr>sl_size := min n (sl_size sl)\<rparr>"

subsection \<open>The socket\<close>

text \<open>A datagram as the system describes it: the errors among its control messages, in order,
  each with the address that it came from; the address of the sender; the flag
  \<^verbatim>\<open>MSG_TRUNC\<close> and the bytes that were stored.\<close>

record datagram =
  dg_errors :: "(int \<times> sock_addr) list"
  dg_name :: sock_addr
  dg_namelen :: nat
  dg_trunc :: bool
  dg_bytes :: string

record udp_socket =
  udp_fd :: int
  udp_flags :: poll_flags_set
  os_recvs :: "datagram list sys list"
  os_errqueue :: "datagram list sys list"
  os_sends :: "nat sys list"
  os_pending :: "int sys list"
  udp_sent :: "(sock_addr \<times> string) list"

definition udp_clear :: "uint32 \<Rightarrow> udp_socket \<Rightarrow> udp_socket" where
  "udp_clear flags s = s\<lparr>udp_flags := clear_flags flags (udp_flags s)\<rparr>"

definition udp_add :: "uint32 \<Rightarrow> udp_socket \<Rightarrow> udp_socket" where
  "udp_add flags s = s\<lparr>udp_flags := fst (write_flags_local flags (udp_flags s))\<rparr>"

definition udp_sync_with_poll :: "udp_socket \<Rightarrow> udp_socket" where
  "udp_sync_with_poll s = s\<lparr>udp_flags := fst (read_flags (udp_flags s))\<rparr>"

definition udp_get_pending_error :: "udp_socket \<Rightarrow> (status \<times> udp_socket) run" where
  "udp_get_pending_error s =
     (if \<not> has_pending_error (pf_flags (udp_flags s)) then Done (None, s)
      else case os_pending s of
          [] \<Rightarrow> Starved
        | r # rest \<Rightarrow>
            let s = s\<lparr>os_pending := rest\<rparr>; fd = print_native_fd (udp_fd s) in
            Done (case r of
                Sys_ok e \<Rightarrow>
                  if e = 0 then (None, udp_clear flag_Error s)
                  else (Some (PosixError e (''Error on '' @ fd)), s)
              | Sys_errno e \<Rightarrow> (Some (PosixError e (''Can't load error on socket '' @ fd)), s)))"

subsection \<open>Receiving\<close>

record inbound_message =
  im_from :: ip_address
  im_data :: mem_slice
  im_error :: status

definition message_too_long :: status_error where
  "message_too_long = Error_code 501 ''Message too long''"

text \<open>\<^verbatim>\<open>from_native\<close>: the last error of the control messages, if there is one, the
  address otherwise. The address of the sender stays what it was where \<^verbatim>\<open>init_sockaddr\<close>
  fails.\<close>

definition from_native :: "datagram \<Rightarrow> nat \<Rightarrow> inbound_message \<Rightarrow> inbound_message option" where
  "from_native d msize im =
     (if dg_errors d \<noteq> [] then
        let (e, addr) = last (dg_errors d) in
        map_option (\<lambda>(_, a). im\<lparr>im_from := a, im_error := Some (PosixError e ''''),
          im_data := truncate_slice 0 (im_data im)\<rparr>) (init_sockaddr addr new_ip_address)
      else
        Option.bind (init_sockaddr_len (dg_name d) (dg_namelen d) (im_from im)) (\<lambda>(_, a).
          let im = im\<lparr>im_from := a, im_error := None\<rparr> in
          if dg_trunc d then Some (im\<lparr>im_error := Some message_too_long, im_data := truncate_slice 0 (im_data im)\<rparr>)
          else if msize \<le> sl_size (im_data im) then Some (im\<lparr>im_data := truncate_slice msize (im_data im)\<rparr>)
          else None))"

definition ECONNRESET :: int where "ECONNRESET = 104"
definition ENOTCONN :: int where "ENOTCONN = 107"
definition ETIMEDOUT :: int where "ETIMEDOUT = 110"

definition recv_failed :: "int \<Rightarrow> int \<Rightarrow> status_error" where
  "recv_failed err fd = PosixError err (''Receive from '' @ print_native_fd fd @ '' has failed'')"

definition process_recvmsg_error :: "int \<Rightarrow> udp_socket \<Rightarrow> (status \<times> udp_socket) run" where
  "process_recvmsg_error recvmsg_errno s =
     (if recvmsg_errno = EAGAIN then
        Done (None, if has_pending_error (pf_flags (udp_flags s)) then udp_clear flag_Error s else udp_clear flag_Read s)
      else if recvmsg_errno \<in> {EBADF, EFAULT, EINVAL, ENOTCONN, ECONNRESET, ETIMEDOUT} then Fatal
      else Done (Some (recv_failed recvmsg_errno (udp_fd s)), udp_add flag_Error s))"

text \<open>A call that receives, with the flag \<^verbatim>\<open>MSG_ERRQUEUE\<close> when an error is pending.\<close>

definition recv_call :: "udp_socket \<Rightarrow> (datagram list sys \<times> udp_socket) run" where
  "recv_call s =
     (if has_pending_error (pf_flags (udp_flags s))
      then run_bind (skip_eintr (os_errqueue s)) (\<lambda>(r, rest). Done (r, s\<lparr>os_errqueue := rest\<rparr>))
      else run_bind (skip_eintr (os_recvs s)) (\<lambda>(r, rest). Done (r, s\<lparr>os_recvs := rest\<rparr>)))"

text \<open>The system stores the bytes of each datagram in the slice of its message, and
  \<^verbatim>\<open>from_native\<close> completes the message.\<close>

definition store_datagram :: "datagram \<Rightarrow> memory \<Rightarrow> inbound_message \<Rightarrow> (inbound_message \<times> memory) option" where
  "store_datagram d m im =
     (if length (dg_bytes d) \<le> sl_size (im_data im)
      then map_option (\<lambda>im'. (im', store_bytes (im_data im) (dg_bytes d) m)) (from_native d (length (dg_bytes d)) im)
      else None)"

fun store_datagrams :: "datagram list \<Rightarrow> memory \<Rightarrow> inbound_message list \<Rightarrow> (inbound_message list \<times> memory) option" where
  "store_datagrams [] m ims = Some (ims, m)"
| "store_datagrams (d # ds) m [] = None"
| "store_datagrams (d # ds) m (im # ims) =
     Option.bind (store_datagram d m im) (\<lambda>(im, m).
       map_option (\<lambda>(ims, m). (im # ims, m)) (store_datagrams ds m ims))"

definition receive_message :: "memory \<Rightarrow> inbound_message \<Rightarrow> udp_socket
    \<Rightarrow> (status \<times> bool \<times> inbound_message \<times> memory \<times> udp_socket) run" where
  "receive_message m im s =
     run_bind (recv_call s) (\<lambda>(r, s).
       case r of
         Sys_ok [d] \<Rightarrow> run_bind (of_check (store_datagram d m im)) (\<lambda>(im, m). Done (None, True, im, m, s))
       | Sys_ok _ \<Rightarrow> Fatal
       | Sys_errno e \<Rightarrow> run_bind (process_recvmsg_error e s) (\<lambda>(st, s). Done (st, False, im, m, s)))"

definition batch_size :: nat where "batch_size = 16"

definition receive_messages_fast :: "memory \<Rightarrow> inbound_message list \<Rightarrow> udp_socket
    \<Rightarrow> (status \<times> nat \<times> inbound_message list \<times> memory \<times> udp_socket) run" where
  "receive_messages_fast m ims s =
     (let to_receive = min (length ims) batch_size in
      run_bind (recv_call s) (\<lambda>(r, s).
        case r of
          Sys_ok ds \<Rightarrow>
            if length ds \<le> to_receive
            then run_bind (of_check (store_datagrams ds m ims)) (\<lambda>(ims, m). Done (None, length ds, ims, m, s))
            else Fatal
        | Sys_errno e \<Rightarrow> run_bind (process_recvmsg_error e s) (\<lambda>(st, s). Done (st, 0, ims, m, s))))"

lemma recv_call_shorter:
  "recv_call s = Done (r, s') \<Longrightarrow> length (os_recvs s') + length (os_errqueue s') < length (os_recvs s) + length (os_errqueue s)"
  by (auto simp: recv_call_def dest: skip_eintr_shorter split: if_splits)

lemma udp_flags_sel [simp]:
  "os_recvs (udp_clear f s) = os_recvs s" "os_errqueue (udp_clear f s) = os_errqueue s"
  "os_sends (udp_clear f s) = os_sends s" "udp_sent (udp_clear f s) = udp_sent s" "udp_fd (udp_clear f s) = udp_fd s"
  "os_recvs (udp_add f s) = os_recvs s" "os_errqueue (udp_add f s) = os_errqueue s"
  "os_sends (udp_add f s) = os_sends s" "udp_sent (udp_add f s) = udp_sent s" "udp_fd (udp_add f s) = udp_fd s"
  by (simp_all add: udp_clear_def udp_add_def)

lemma process_recvmsg_error_same:
  "process_recvmsg_error e s = Done (st, s') \<Longrightarrow>
    os_recvs s' = os_recvs s \<and> os_errqueue s' = os_errqueue s \<and> os_sends s' = os_sends s \<and> udp_sent s' = udp_sent s"
  by (auto simp: process_recvmsg_error_def split: if_splits)

lemma receive_message_cases:
  assumes "receive_message m im s = Done (st, b, im', m', s')"
  obtains (received) d s1 where "recv_call s = Done (Sys_ok [d], s')" "store_datagram d m im = Some (im', m')"
      "st = None" "b"
  | (failed) e s1 where "recv_call s = Done (Sys_errno e, s1)" "process_recvmsg_error e s1 = Done (st, s')"
      "im' = im" "m' = m" "\<not> b"
proof -
  from assms obtain r s1 where call: "recv_call s = Done (r, s1)"
    and rest: "(case r of
         Sys_ok [d] \<Rightarrow> run_bind (of_check (store_datagram d m im)) (\<lambda>(im, m). Done (None, True, im, m, s1))
       | Sys_ok _ \<Rightarrow> Fatal
       | Sys_errno e \<Rightarrow> run_bind (process_recvmsg_error e s1) (\<lambda>(st, s). Done (st, False, im, m, s))) = Done (st, b, im', m', s')"
    by (auto simp: receive_message_def)
  show thesis
  proof (cases r)
    case (Sys_ok ds)
    with rest obtain d where "ds = [d]" by (auto split: list.splits)
    with rest call Sys_ok show ?thesis by (auto simp: of_check_Done intro: received)
  next
    case (Sys_errno e)
    with rest call show ?thesis by (auto intro: failed)
  qed
qed

lemma receive_message_shorter:
  "receive_message m im s = Done (st, b, im', m', s') \<Longrightarrow>
    length (os_recvs s') + length (os_errqueue s') < length (os_recvs s) + length (os_errqueue s)"
  by (erule receive_message_cases) (auto dest: recv_call_shorter dest!: process_recvmsg_error_same)

text \<open>The variant without \<^verbatim>\<open>recvmmsg\<close>; a message that was not received is tried
  again while the flags say that there is something to read.\<close>

function receive_messages_slow :: "memory \<Rightarrow> inbound_message list \<Rightarrow> udp_socket
    \<Rightarrow> (status \<times> nat \<times> inbound_message list \<times> memory \<times> udp_socket) run" where
  "receive_messages_slow m [] s = Done (None, 0, [], m, s)"
| "receive_messages_slow m (im # ims) s =
     (if \<not> can_read (pf_flags (udp_flags s)) then Done (None, 0, im # ims, m, s)
      else if sl_size (im_data im) = 0 then Fatal
      else run_bind (receive_message m im s) (\<lambda>(st, is_received, im, m, s).
        case st of
          Some e \<Rightarrow> Done (Some e, of_bool is_received, im # ims, m, s)
        | None \<Rightarrow>
            if is_received
            then run_bind (receive_messages_slow m ims s) (\<lambda>(st, n, ims, m, s). Done (st, n + 1, im # ims, m, s))
            else receive_messages_slow m (im # ims) s))"
  by pat_completeness auto
termination
  by (relation "measure (\<lambda>(_, _, s). length (os_recvs s) + length (os_errqueue s))")
    (auto dest: receive_message_shorter)

declare receive_messages_slow.simps [simp del]

subsection \<open>Sending\<close>

definition EPERM :: int where "EPERM = 1"
definition EACCES :: int where "EACCES = 13"
definition ENOTDIR :: int where "ENOTDIR = 20"
definition EPIPE :: int where "EPIPE = 32"
definition EDESTADDRREQ :: int where "EDESTADDRREQ = 89"
definition EMSGSIZE :: int where "EMSGSIZE = 90"
definition EAFNOSUPPORT :: int where "EAFNOSUPPORT = 97"
definition EISCONN :: int where "EISCONN = 106"

definition send_failed :: "int \<Rightarrow> int \<Rightarrow> status_error" where
  "send_failed err fd = PosixError err (''Send from '' @ print_native_fd fd @ '' has failed'')"

definition process_sendmsg_error :: "int \<Rightarrow> udp_socket \<Rightarrow> (status \<times> bool \<times> udp_socket) run" where
  "process_sendmsg_error sendmsg_errno s =
     (let err = send_failed sendmsg_errno (udp_fd s) in
      if sendmsg_errno = EAGAIN then Done (None, False, udp_clear flag_Write s)
      else if sendmsg_errno \<in> {EACCES, EMSGSIZE, EPERM} then Done (Some err, True, s)
      else if sendmsg_errno \<in> {EBADF, ENOTSOCK, EPIPE, ECONNRESET, EDESTADDRREQ, ENOTCONN, EINTR, EISCONN,
          EOPNOTSUPP, ENOTDIR, EFAULT, EINVAL, EAFNOSUPPORT} then Fatal
      else Done (Some err, False, udp_add flag_Error s))"

record outbound_message =
  om_to :: "ip_address option"
  om_data :: string

definition send_to_native :: "outbound_message \<Rightarrow> (sock_addr \<times> string) option" where
  "send_to_native om =
     (case om_to om of
        None \<Rightarrow> None
      | Some a \<Rightarrow>
          if ip_valid a then map_option (\<lambda>_. (ip_addr a, om_data om)) (get_sockaddr_len a) else None)"

definition send_call :: "(sock_addr \<times> string) list \<Rightarrow> udp_socket \<Rightarrow> (nat sys \<times> udp_socket) run" where
  "send_call headers s = run_bind (skip_eintr (os_sends s)) (\<lambda>(r, rest). Done (r, s\<lparr>os_sends := rest\<rparr>))"

text \<open>The result of \<^verbatim>\<open>sendmsg\<close> is a number of bytes, that of \<^verbatim>\<open>sendmmsg\<close> a
  number of messages.\<close>

definition send_message :: "outbound_message \<Rightarrow> udp_socket \<Rightarrow> (status \<times> bool \<times> udp_socket) run" where
  "send_message om s =
     run_bind (of_check (send_to_native om)) (\<lambda>h.
       run_bind (send_call [h] s) (\<lambda>(r, s).
         case r of
           Sys_ok _ \<Rightarrow> Done (None, True, s\<lparr>udp_sent := udp_sent s @ [h]\<rparr>)
         | Sys_errno e \<Rightarrow> process_sendmsg_error e s))"

fun send_messages_slow :: "outbound_message list \<Rightarrow> udp_socket \<Rightarrow> (status \<times> nat \<times> udp_socket) run" where
  "send_messages_slow [] s = Done (None, 0, s)"
| "send_messages_slow (om # oms) s =
     (if om_data om = [] then Fatal
      else run_bind (send_message om s) (\<lambda>(st, is_sent, s).
        case st of
          Some e \<Rightarrow> Done (Some e, of_bool is_sent, s)
        | None \<Rightarrow> run_bind (send_messages_slow oms s) (\<lambda>(st, n, s). Done (st, of_bool is_sent + n, s))))"

fun map_check :: "('a \<Rightarrow> 'b option) \<Rightarrow> 'a list \<Rightarrow> 'b list option" where
  "map_check f [] = Some []"
| "map_check f (x # xs) = Option.bind (f x) (\<lambda>y. map_option (Cons y) (map_check f xs))"

definition send_messages_fast :: "outbound_message list \<Rightarrow> udp_socket \<Rightarrow> (status \<times> nat \<times> udp_socket) run" where
  "send_messages_fast oms s =
     (let to_send = min (length oms) batch_size in
      run_bind (of_check (map_check send_to_native (take to_send oms))) (\<lambda>headers.
        run_bind (send_call headers s) (\<lambda>(r, s).
          case r of
            Sys_ok n \<Rightarrow>
              if n \<le> to_send then Done (None, n, s\<lparr>udp_sent := udp_sent s @ take n headers\<rparr>) else Fatal
          | Sys_errno e \<Rightarrow> run_bind (process_sendmsg_error e s) (\<lambda>(st, is_sent, s). Done (st, of_bool is_sent, s)))))"

text \<open>Without \<^verbatim>\<open>sendmmsg\<close>, a message that would block is skipped: the next one is sent and
  counted, and the caller, which drops as many messages from the front of its queue as were
  counted, drops the message that was not sent and keeps the one that was.\<close>

lemma send_messages_slow_skips:
  "(let a = Some \<lparr>ip_valid = True, ip_addr = Sockaddr_in 53 ''abcd''\<rparr>;
        s = \<lparr>udp_fd = 3, udp_flags = \<lparr>to_write = 0, pf_flags = flag_Write\<rparr>, os_recvs = [], os_errqueue = [],
          os_sends = [Sys_errno EAGAIN, Sys_ok 1], os_pending = [], udp_sent = []\<rparr>
    in case send_messages_slow [\<lparr>om_to = a, om_data = ''first''\<rparr>, \<lparr>om_to = a, om_data = ''b''\<rparr>] s of
        Done (st, cnt, s') \<Rightarrow> st = None \<and> cnt = 1 \<and> map snd (udp_sent s') = [''b'']
      | _ \<Rightarrow> False)"
  by code_simp

subsection \<open>The size of the buffers of the system\<close>

text \<open>The loop of \<^verbatim>\<open>maximize_buffer\<close>; \<open>accepts\<close> tells which sizes
  \<^verbatim>\<open>setsockopt\<close> accepts. Nothing bounds the loop, so not returning is \<open>None\<close>.\<close>

partial_function (option) maximize_loop :: "(uint32 \<Rightarrow> bool) \<Rightarrow> uint32 \<Rightarrow> uint32 \<Rightarrow> uint32 \<Rightarrow> uint32 option" where
  "maximize_loop accepts last_good min_size max_size =
     (if min_size \<le> max_size then
        let avg_size = min_size + (max_size - min_size) div 2 in
        if accepts avg_size then maximize_loop accepts avg_size (avg_size + 1) max_size
        else maximize_loop accepts last_good min_size (avg_size - 1)
      else Some last_good)"

declare maximize_loop.simps [code]

definition getsockopt_failed :: "int \<Rightarrow> status_error" where
  "getsockopt_failed err = PosixError err ''getsockopt() failed''"

text \<open>Linux reports twice the size that was set; \<open>linux\<close> is \<^verbatim>\<open>TD_LINUX\<close>.\<close>

definition maximize_buffer :: "bool \<Rightarrow> (uint32 \<Rightarrow> bool) \<Rightarrow> uint32 sys \<Rightarrow> uint32 \<Rightarrow> uint32 result option" where
  "maximize_buffer linux accepts current max_size =
     (if accepts max_size then Some (Inr max_size)
      else case current of
          Sys_errno e \<Rightarrow> Some (Inl (getsockopt_failed e))
        | Sys_ok cur_size \<Rightarrow>
            let old_size = (if linux then cur_size div 2 else cur_size) in
            map_option Inr (maximize_loop accepts old_size old_size max_size))"

definition DEFAULT_UDP_MAX_BUFFER_SIZE :: uint32 where "DEFAULT_UDP_MAX_BUFFER_SIZE = push_bit 24 1"

definition maximize_socket_buffer :: "bool \<Rightarrow> (uint32 \<Rightarrow> bool) \<Rightarrow> uint32 sys \<Rightarrow> uint32 \<Rightarrow> uint32 result option" where
  "maximize_socket_buffer linux accepts current max_size =
     maximize_buffer linux accepts current (if max_size = 0 then DEFAULT_UDP_MAX_BUFFER_SIZE else max_size)"

lemma uint_middle:
  fixes a b :: uint32
  assumes "a \<le> b"
  shows "uint (a + (b - a) div 2) = uint a + (uint b - uint a) div 2"
proof -
  have "uint (b - a) = uint b - uint a" using assms by (simp add: uint_minus_simple_alt)
  hence half: "uint ((b - a) div 2) = (uint b - uint a) div 2" by (simp add: uint_div)
  have "uint a \<le> uint b" using assms by (simp add: word_le_def)
  hence "uint a + (uint b - uint a) div 2 < 2 ^ 32" using uint_lt2p [of b] by simp
  thus ?thesis using half assms by (simp add: uint_word_ariths mod_pos_pos_trivial word_le_def)
qed

lemma uint_succ32: "uint (x :: uint32) < 2 ^ 32 - 1 \<Longrightarrow> uint (x + 1) = uint x + 1"
  by (simp add: uint_word_ariths)

lemma uint_pred32: "0 < uint (x :: uint32) \<Longrightarrow> uint (x - 1) = uint x - 1"
  using uint_lt2p [of x] by (simp add: uint_word_ariths)

lemma maximize_loop_above:
  assumes "\<And>x. a \<le> x \<Longrightarrow> \<not> accepts x" and "0 < uint a"
  shows "maximize_loop accepts good a b = Some good"
proof (induction "nat (uint b + 1 - uint a)" arbitrary: b rule: less_induct)
  case less
  show ?case
  proof (cases "a \<le> b")
    case True
    let ?m = "a + (b - a) div 2"
    have m: "uint ?m = uint a + (uint b - uint a) div 2" using True by (rule uint_middle)
    have ab: "uint a \<le> uint b" using True by (simp add: word_le_def)
    have pos: "0 < uint ?m" using m assms(2) ab by linarith
    have no: "\<not> accepts ?m" using assms(1) m ab by (simp add: word_le_def)
    have "nat (uint (?m - 1) + 1 - uint a) < nat (uint b + 1 - uint a)"
      using uint_pred32 [OF pos] m ab by simp
    from less.hyps [OF this]
    show ?thesis using True no by (subst maximize_loop.simps) (simp add: Let_def)
  qed (subst maximize_loop.simps, simp)
qed

lemma maximize_loop_limit:
  assumes "\<And>x. lo \<le> x \<Longrightarrow> accepts x \<longleftrightarrow> x \<le> L" and "uint L < 2 ^ 32 - 1"
  shows "lo \<le> a \<Longrightarrow> a \<le> L \<Longrightarrow> L \<le> b \<Longrightarrow> maximize_loop accepts good a b = Some L"
proof (induction "nat (uint b - uint a)" arbitrary: a b good rule: less_induct)
  case less
  let ?m = "a + (b - a) div 2"
  have ab: "a \<le> b" using less.prems by simp
  have le: "uint a \<le> uint L" "uint L \<le> uint b" "uint lo \<le> uint a" using less.prems by (simp_all add: word_le_def)
  have m: "uint ?m = uint a + (uint b - uint a) div 2" using ab by (rule uint_middle)
  have acc: "accepts ?m \<longleftrightarrow> ?m \<le> L" using assms(1) m le by (simp add: word_le_def)
  show ?case
  proof (cases "?m \<le> L")
    case True
    hence mL: "uint ?m \<le> uint L" by (simp add: word_le_def)
    have s: "uint (?m + 1) = uint ?m + 1" using mL assms(2) by (intro uint_succ32) simp
    have "maximize_loop accepts ?m (?m + 1) b = Some L"
    proof (cases "?m = L")
      case True
      have "\<not> accepts x" if "L + 1 \<le> x" for x
        using that s True le assms(1) [of x] by (simp add: word_le_def)
      moreover have "0 < uint (L + 1)" using s True uint_ge_0 [of L] by simp
      ultimately show ?thesis using maximize_loop_above [of "L + 1" accepts L b] True by simp
    next
      case False
      hence "uint ?m < uint L" using mL by (metis order_le_imp_less_or_eq word_uint_eq_iff)
      hence "?m + 1 \<le> L" "lo \<le> ?m + 1" "nat (uint b - uint (?m + 1)) < nat (uint b - uint a)"
        using s m le by (simp_all add: word_le_def) linarith
      thus ?thesis using less.hyps less.prems by blast
    qed
    thus ?thesis using ab True acc by (subst maximize_loop.simps) (simp add: Let_def)
  next
    case False
    hence mL: "uint L < uint ?m" by (simp add: word_le_def)
    have p: "uint (?m - 1) = uint ?m - 1" using mL uint_ge_0 [of L] by (intro uint_pred32) linarith
    have "L \<le> ?m - 1" "nat (uint (?m - 1) - uint a) < nat (uint b - uint a)"
      using p mL m le by (simp_all add: word_le_def) linarith
    hence "maximize_loop accepts good a (?m - 1) = Some L" using less.hyps less.prems by blast
    thus ?thesis using ab False acc by (subst maximize_loop.simps) (simp add: Let_def)
  qed
qed

text \<open>Sizes accepted below every accepted one have a limit.\<close>

lemma accepted_limit:
  fixes accepts :: "uint32 \<Rightarrow> bool"
  assumes "accepts lo" "\<And>x y. accepts y \<Longrightarrow> 0 < x \<Longrightarrow> x \<le> y \<Longrightarrow> accepts x"
  shows "\<exists>L. accepts L \<and> lo \<le> L \<and> (\<forall>x. lo \<le> x \<longrightarrow> (accepts x \<longleftrightarrow> x \<le> L))"
proof (intro exI conjI allI impI)
  let ?L = "Max {x. accepts x}"
  have fin: "finite {x. accepts x}" by simp
  have ne: "{x. accepts x} \<noteq> {}" using assms(1) by blast
  show acc: "accepts ?L" using Max_in [OF fin ne] by simp
  have top: "x \<le> ?L" if "accepts x" for x using Max_ge [OF fin] that by simp
  show "lo \<le> ?L" by (rule top) (rule assms(1))
  show "accepts x \<longleftrightarrow> x \<le> ?L" if "lo \<le> x" for x
  proof
    assume "x \<le> ?L"
    show "accepts x"
    proof (cases "0 < x")
      case True
      show ?thesis by (rule assms(2) [OF acc True \<open>x \<le> ?L\<close>])
    next
      case False
      with that have "x = lo" by (simp add: word_neq_0_conv [symmetric])
      with assms(1) show ?thesis by simp
    qed
  qed (rule top)
qed

text \<open>C30: \<^verbatim>\<open>maximize_snd_buffer\<close> and \<^verbatim>\<open>maximize_rcv_buffer\<close> return with the
  largest size up to the wanted one (16 MB where none is given) that the system accepts,
  where the system accepts the size that is set (half of what Linux reports) and, with a
  size, all smaller positive ones.\<close>

theorem maximize_buffer_limit:
  assumes "accepts (if linux then cur_size div 2 else cur_size)"
    and "\<And>x y. accepts y \<Longrightarrow> 0 < x \<Longrightarrow> x \<le> y \<Longrightarrow> accepts x"
  shows "\<exists>r. maximize_socket_buffer linux accepts (Sys_ok cur_size) max_size = Some (Inr r) \<and> accepts r \<and>
    r \<le> (if max_size = 0 then 16777216 else max_size) \<and>
    (\<forall>x. accepts x \<and> x \<le> (if max_size = 0 then 16777216 else max_size) \<longrightarrow> x \<le> r)"
proof -
  let ?old = "if linux then cur_size div 2 else cur_size"
  let ?max = "if max_size = 0 then 16777216 else max_size"
  have wanted: "maximize_socket_buffer linux accepts (Sys_ok cur_size) max_size =
      maximize_buffer linux accepts (Sys_ok cur_size) ?max"
    by (simp add: maximize_socket_buffer_def DEFAULT_UDP_MAX_BUFFER_SIZE_def)
  have pos: "0 < ?max" by (simp add: word_neq_0_conv [symmetric])
  show ?thesis
  proof (cases "accepts ?max")
    case True
    then show ?thesis unfolding wanted by (intro exI [of _ ?max]) (simp add: maximize_buffer_def)
  next
    case False
    have "\<exists>L. accepts L \<and> ?old \<le> L \<and> (\<forall>x. ?old \<le> x \<longrightarrow> (accepts x \<longleftrightarrow> x \<le> L))"
      by (rule accepted_limit [of accepts ?old]) (use assms in blast)+
    then obtain L where L: "accepts L" "?old \<le> L" "\<And>x. ?old \<le> x \<Longrightarrow> accepts x \<longleftrightarrow> x \<le> L"
      by blast
    have below: "x < ?max" if "accepts x" for x
    proof (rule ccontr)
      assume "\<not> x < ?max"
      then have "?max \<le> x" by (simp only: not_less)
      from assms(2) [OF that pos this] False show False by blast
    qed
    have lt: "L < ?max" by (rule below [OF L(1)])
    hence "uint L < 2 ^ 32 - 1" using uint_lt2p [of ?max] by (simp only: word_less_def) simp
    from maximize_loop_limit [OF L(3) this order_refl L(2), of ?max ?old] lt
    have "maximize_buffer linux accepts (Sys_ok cur_size) ?max = Some (Inr L)"
      using False by (simp add: maximize_buffer_def Let_def)
    moreover have "x \<le> L" if "accepts x" for x
      using L(2,3) that by (cases "?old \<le> x") auto
    ultimately show ?thesis
      unfolding wanted using L(1) lt by (intro exI [of _ L]) simp
  qed
qed

theorem maximize_buffer_limit_witness:
  "maximize_socket_buffer False (\<lambda>x. 0 < x \<and> x \<le> 2097152) (Sys_ok 9216) 0 = Some (Inr 2097152)"
proof -
  let ?accepts = "\<lambda>x :: uint32. 0 < x \<and> x \<le> 2097152"
  have below: "?accepts x" if "?accepts y" "0 < x" "x \<le> y" for x y
    using that by auto
  have "\<exists>r. maximize_socket_buffer False ?accepts (Sys_ok 9216) 0 = Some (Inr r) \<and> ?accepts r \<and>
      r \<le> (if (0 :: uint32) = 0 then 16777216 else 0) \<and>
      (\<forall>x. ?accepts x \<and> x \<le> (if (0 :: uint32) = 0 then 16777216 else 0) \<longrightarrow> x \<le> r)"
    by (rule maximize_buffer_limit [where accepts = ?accepts]) (simp, rule below)
  then obtain r where r: "maximize_socket_buffer False ?accepts (Sys_ok 9216) 0 = Some (Inr r)" "?accepts r"
    "\<forall>x. ?accepts x \<and> x \<le> 16777216 \<longrightarrow> x \<le> r" by auto
  from r(3) have "2097152 \<le> r" by simp
  with r(2) have "r = 2097152" by simp
  with r(1) show ?thesis by simp
qed

text \<open>Where the system refuses every size, even zero, and the current size is zero,
  \<^verbatim>\<open>avg_size - 1\<close> wraps around and the loop does not end.\<close>

lemma maximize_loop_zero:
  assumes "maximize_loop (\<lambda>_. False) good 0 b = Some y"
  shows False
proof -
  have "maximize_loop f good a b = Some y \<Longrightarrow> f = (\<lambda>_. False) \<longrightarrow> a \<noteq> 0" for f good a b y
    by (rule maximize_loop.raw_induct [where P = "\<lambda>f good a b y. f = (\<lambda>_. False) \<longrightarrow> a \<noteq> 0"])
      (auto simp: Let_def split: if_splits)
  with assms show False by blast
qed

theorem maximize_buffer_diverges: "maximize_buffer linux (\<lambda>_. False) (Sys_ok 0) max_size = None"
  using maximize_loop_zero by (simp add: maximize_buffer_def) (metis not_None_eq)

end
