(* ===== verification/BufferedUdp.thy ===== *)
theory BufferedUdp
  imports UdpSocket VectorQueue
begin

text \<open>
  Queues of datagrams over a datagram socket (\<^verbatim>\<open>utils/BufferedUdp.h\<close>). A reader, one for
  all sockets of a thread, has sixteen messages; each lies at the start of what is left of a
  buffer, and a datagram that was received is handed out as a slice of that buffer. The
  memory is part of the reader's state and only grows.
\<close>

subsection \<open>Messages and the writer\<close>

record udp_message =
  um_address :: ip_address
  um_data :: "mem_slice option"
  um_error :: status

definition um_bytes :: "memory \<Rightarrow> udp_message \<Rightarrow> string" where
  "um_bytes m u = (case um_data u of None \<Rightarrow> [] | Some sl \<Rightarrow> slice_bytes m sl)"

definition write_once :: "memory \<Rightarrow> udp_socket \<Rightarrow> udp_message vqueue \<Rightarrow> (status \<times> udp_socket \<times> udp_message vqueue) run" where
  "write_once m s q =
     (let messages = map (\<lambda>u. \<lparr>om_to = Some (um_address u), om_data = um_bytes m u\<rparr>) (take batch_size (vq_as_span q)) in
      run_bind (send_messages_fast messages s) (\<lambda>(st, cnt, s). Done (st, s, vq_pop_n cnt q)))"

subsection \<open>The reader\<close>

definition MAX_PACKET_SIZE :: nat where "MAX_PACKET_SIZE = 2048"
definition RESERVED_SIZE :: nat where "RESERVED_SIZE = MAX_PACKET_SIZE * 8"

record read_slot =
  rs_message :: inbound_message
  rs_buffer :: "mem_slice option"

text \<open>The contents of a new buffer are not specified; nothing reads them before a datagram is
  stored.\<close>

definition new_buffer :: "memory \<Rightarrow> memory \<times> mem_slice" where
  "new_buffer m = (m @ [replicate RESERVED_SIZE (chr 0)],
     \<lparr>sl_buffer = length m, sl_begin = 0, sl_size = RESERVED_SIZE\<rparr>)"

definition helper_buffer :: "memory \<Rightarrow> read_slot \<Rightarrow> memory \<times> mem_slice" where
  "helper_buffer m slot =
     (case rs_buffer slot of
        None \<Rightarrow> new_buffer m
      | Some b \<Rightarrow> if sl_size b < MAX_PACKET_SIZE then new_buffer m else (m, b))"

definition init_inbound_message :: "memory \<Rightarrow> read_slot \<Rightarrow> (read_slot \<times> memory) option" where
  "init_inbound_message m slot =
     (let (m, b) = helper_buffer m slot in
      if sl_size b \<ge> MAX_PACKET_SIZE
      then Some (slot\<lparr>rs_buffer := Some b,
        rs_message := (rs_message slot)\<lparr>im_data := b\<lparr>sl_size := MAX_PACKET_SIZE\<rparr>\<rparr>\<rparr>, m)
      else None)"

text \<open>The slice of the message is inside the buffer, so \<^verbatim>\<open>from_slice\<close> returns it; the
  buffer moves on by its size, rounded up to eight bytes.\<close>

definition from_slice :: "memory \<Rightarrow> mem_slice \<Rightarrow> mem_slice \<Rightarrow> mem_slice option" where
  "from_slice m b sl =
     (if sl_buffer sl = sl_buffer b \<and> sl_begin sl + sl_size sl \<le> length (m ! sl_buffer b) then Some sl else None)"

definition slice_confirm_read :: "nat \<Rightarrow> mem_slice \<Rightarrow> mem_slice option" where
  "slice_confirm_read n b =
     (if n \<le> sl_size b then Some (b\<lparr>sl_begin := sl_begin b + n, sl_size := sl_size b - n\<rparr>) else None)"

definition extract_udp_message :: "memory \<Rightarrow> read_slot \<Rightarrow> (udp_message \<times> read_slot) option" where
  "extract_udp_message m slot =
     Option.bind (rs_buffer slot) (\<lambda>b.
       Option.bind (from_slice m b (im_data (rs_message slot))) (\<lambda>data.
         let n = (sl_size data + 7) div 8 * 8 in
         if n \<le> MAX_PACKET_SIZE then
           map_option (\<lambda>b.
             (\<lparr>um_address = im_from (rs_message slot), um_data = Some data, um_error = im_error (rs_message slot)\<rparr>,
              slot\<lparr>rs_buffer := Some b, rs_message := (rs_message slot)\<lparr>im_error := None\<rparr>\<rparr>))
             (slice_confirm_read n b)
         else None))"

record udp_reader =
  rd_mem :: memory
  rd_slots :: "read_slot list"

definition null_slot :: read_slot where
  "null_slot = \<lparr>rs_message = \<lparr>im_from = new_ip_address, im_data = \<lparr>sl_buffer = 0, sl_begin = 0, sl_size = 0\<rparr>, im_error = None\<rparr>,
     rs_buffer = None\<rparr>"

fun init_slots :: "memory \<Rightarrow> read_slot list \<Rightarrow> (read_slot list \<times> memory) option" where
  "init_slots m [] = Some ([], m)"
| "init_slots m (slot # slots) =
     Option.bind (init_inbound_message m slot) (\<lambda>(slot, m).
       map_option (\<lambda>(slots, m). (slot # slots, m)) (init_slots m slots))"

definition new_udp_reader :: "memory \<Rightarrow> udp_reader option" where
  "new_udp_reader m =
     map_option (\<lambda>(slots, m). \<lparr>rd_mem = m, rd_slots = slots\<rparr>) (init_slots m (replicate batch_size null_slot))"

definition full_slot :: "read_slot \<Rightarrow> bool" where
  "full_slot slot \<longleftrightarrow> sl_size (im_data (rs_message slot)) = 2048"

text \<open>The loops of \<^verbatim>\<open>read_once\<close> after the call: the received messages are taken and
  their places prepared again, the others must be untouched.\<close>

fun extract_slots :: "nat \<Rightarrow> memory \<Rightarrow> read_slot list \<Rightarrow> udp_message vqueue
    \<Rightarrow> (udp_message vqueue \<times> read_slot list \<times> memory) option" where
  "extract_slots 0 m slots q = (if list_all full_slot slots then Some (q, slots, m) else None)"
| "extract_slots (Suc n) m [] q = None"
| "extract_slots (Suc n) m (slot # slots) q =
     Option.bind (extract_udp_message m slot) (\<lambda>(u, slot).
       Option.bind (init_inbound_message m slot) (\<lambda>(slot, m).
         map_option (\<lambda>(q, slots, m). (q, slot # slots, m)) (extract_slots n m slots (vq_push q u))))"

definition ENOMEM :: int where "ENOMEM = 12"
definition ENOBUFS :: int where "ENOBUFS = 105"

definition is_critical_read_error :: "status \<Rightarrow> bool" where
  "is_critical_read_error st \<longleftrightarrow> status_code st = ENOMEM \<or> status_code st = ENOBUFS"

definition set_messages :: "read_slot list \<Rightarrow> inbound_message list \<Rightarrow> read_slot list" where
  "set_messages slots ims = map (\<lambda>(slot, im). slot\<lparr>rs_message := im\<rparr>) (zip slots ims)"

definition read_once :: "udp_reader \<Rightarrow> udp_socket \<Rightarrow> udp_message vqueue
    \<Rightarrow> (status \<times> udp_reader \<times> udp_socket \<times> udp_message vqueue) run" where
  "read_once rd s q =
     (if \<not> list_all full_slot (rd_slots rd) then Fatal
      else run_bind (receive_messages_fast (rd_mem rd) (map rs_message (rd_slots rd)) s) (\<lambda>(st, cnt, ims, m, s).
        run_bind (of_check (extract_slots cnt m (set_messages (rd_slots rd) ims) q)) (\<lambda>(q, slots, m).
          let rd = \<lparr>rd_mem = m, rd_slots = slots\<rparr> in
          if st \<noteq> None \<and> \<not> is_critical_read_error st
          then Done (None, rd, s, vq_push q \<lparr>um_address = new_ip_address, um_data = None, um_error = st\<rparr>)
          else Done (st, rd, s, q))))"

subsection \<open>The buffered socket\<close>

record udp =
  bu_socket :: udp_socket
  bu_input :: "udp_message vqueue"
  bu_output :: "udp_message vqueue"

definition new_udp :: "udp_socket \<Rightarrow> udp" where
  "new_udp s = \<lparr>bu_socket = s, bu_input = vq_new, bu_output = vq_new\<rparr>"

definition udp_sync :: "udp \<Rightarrow> udp" where
  "udp_sync b = b\<lparr>bu_socket := udp_sync_with_poll (bu_socket b)\<rparr>"

definition flush_read_once :: "udp_reader \<Rightarrow> udp \<Rightarrow> (status \<times> udp_reader \<times> udp) run" where
  "flush_read_once rd b =
     run_bind (read_once rd (bu_socket b) (bu_input b)) (\<lambda>(st, rd, s, q).
       Done (st, rd, b\<lparr>bu_socket := s, bu_input := q\<rparr>))"

definition pop_input :: "udp \<Rightarrow> (udp_message option \<times> udp) run" where
  "pop_input b =
     (if vq_empty (bu_input b) then Done (None, b)
      else run_bind (of_check (vq_pop (bu_input b))) (\<lambda>(u, q). Done (Some u, b\<lparr>bu_input := q\<rparr>)))"

definition udp_receive :: "udp_reader \<Rightarrow> udp \<Rightarrow> (udp_message option result \<times> udp_reader \<times> udp) run" where
  "udp_receive rd b =
     run_bind (if vq_empty (bu_input b) \<and> can_read_local (udp_flags (bu_socket b))
               then flush_read_once rd b else Done (None, rd, b)) (\<lambda>(st, rd, b).
       case st of
         Some e \<Rightarrow> Done (Inl e, rd, b)
       | None \<Rightarrow> run_bind (pop_input b) (\<lambda>(u, b). Done (Inr u, rd, b)))"

definition udp_send :: "udp_message \<Rightarrow> udp \<Rightarrow> udp" where
  "udp_send u b = b\<lparr>bu_output := vq_push (bu_output b) u\<rparr>"

definition flush_send_once :: "memory \<Rightarrow> udp \<Rightarrow> (status \<times> udp) run" where
  "flush_send_once m b =
     run_bind (write_once m (bu_socket b) (bu_output b)) (\<lambda>(st, s, q).
       Done (st, b\<lparr>bu_socket := s, bu_output := q\<rparr>))"

lemma send_call_shorter: "send_call hs s = Done (r, s') \<Longrightarrow> length (os_sends s') < length (os_sends s)"
  by (auto simp: send_call_def dest: skip_eintr_shorter)

lemma process_sendmsg_error_same:
  "process_sendmsg_error e s = Done (st, b, s') \<Longrightarrow>
    os_recvs s' = os_recvs s \<and> os_errqueue s' = os_errqueue s \<and> os_sends s' = os_sends s \<and> udp_sent s' = udp_sent s"
  by (auto simp: process_sendmsg_error_def Let_def split: if_splits)

lemma send_messages_fast_cases:
  assumes "send_messages_fast oms s = Done (st, cnt, s')"
  obtains (sent) hs s1 where "map_check send_to_native (take batch_size oms) = Some hs"
      "send_call hs s = Done (Sys_ok cnt, s1)" "cnt \<le> min (length oms) batch_size" "st = None"
      "s' = s1\<lparr>udp_sent := udp_sent s1 @ take cnt hs\<rparr>"
  | (failed) hs e b s1 where "map_check send_to_native (take batch_size oms) = Some hs"
      "send_call hs s = Done (Sys_errno e, s1)"
      "process_sendmsg_error e s1 = Done (st, b, s')" "cnt = of_bool b"
proof -
  have "take (min (length oms) batch_size) oms = take batch_size oms" by (simp add: min_def)
  with assms obtain hs r s1 where hs: "map_check send_to_native (take batch_size oms) = Some hs"
    and call: "send_call hs s = Done (r, s1)"
    and rest: "(case r of
        Sys_ok n \<Rightarrow> if n \<le> min (length oms) batch_size
          then Done (None, n, s1\<lparr>udp_sent := udp_sent s1 @ take n hs\<rparr>) else Fatal
      | Sys_errno e \<Rightarrow> run_bind (process_sendmsg_error e s1) (\<lambda>(st, is_sent, s). Done (st, of_bool is_sent, s)))
      = Done (st, cnt, s')"
    by (auto simp: send_messages_fast_def of_check_Done Let_def)
  show thesis
  proof (cases r)
    case (Sys_ok n)
    with rest hs call show ?thesis by (auto intro: sent split: if_splits)
  next
    case (Sys_errno e)
    with rest hs call show ?thesis by (auto intro: failed)
  qed
qed

lemma send_messages_fast_shorter:
  "send_messages_fast oms s = Done (st, cnt, s') \<Longrightarrow> length (os_sends s') < length (os_sends s)"
  by (erule send_messages_fast_cases) (auto dest: send_call_shorter dest!: process_sendmsg_error_same)

lemma flush_send_once_shorter:
  "flush_send_once m b = Done (st, b') \<Longrightarrow> length (os_sends (bu_socket b')) < length (os_sends (bu_socket b))"
  by (auto simp: flush_send_once_def write_once_def Let_def dest: send_messages_fast_shorter)

function flush_send :: "memory \<Rightarrow> udp \<Rightarrow> (status \<times> udp) run" where
  "flush_send m b =
     (if can_write_local (udp_flags (bu_socket b)) \<and> \<not> vq_empty (bu_output b) then
        run_bind (flush_send_once m b) (\<lambda>(st, b).
          case st of Some e \<Rightarrow> Done (Some e, b) | None \<Rightarrow> flush_send m b)
      else Done (None, b))"
  by pat_completeness auto
termination
  by (relation "measure (\<lambda>(_, b). length (os_sends (bu_socket b)))") (auto dest: flush_send_once_shorter)

declare flush_send.simps [simp del]

subsection \<open>Sending in order\<close>

definition um_header :: "memory \<Rightarrow> udp_message \<Rightarrow> sock_addr \<times> string" where
  "um_header m u = (ip_addr (um_address u), um_bytes m u)"

lemma send_headers:
  "map_check send_to_native (map (\<lambda>u. \<lparr>om_to = Some (um_address u), om_data = um_bytes m u\<rparr>) us) = Some hs \<Longrightarrow>
    hs = map (um_header m) us"
  by (induction us arbitrary: hs)
    (auto simp: send_to_native_def um_header_def bind_eq_Some_conv split: if_splits)

lemma send_call_same:
  "send_call hs s = Done (r, s') \<Longrightarrow> os_recvs s' = os_recvs s \<and> os_errqueue s' = os_errqueue s \<and>
    udp_sent s' = udp_sent s \<and> udp_fd s' = udp_fd s"
  by (auto simp: send_call_def)

lemma process_sendmsg_error_drop:
  "process_sendmsg_error e s = Done (st, b, s') \<Longrightarrow> udp_fd s' = udp_fd s \<and>
    (if b then e \<in> {EACCES, EMSGSIZE, EPERM} \<and> st = Some (send_failed e (udp_fd s))
     else st = None \<longrightarrow> e = EAGAIN)"
  by (auto simp: process_sendmsg_error_def Let_def split: if_splits)

text \<open>What one step or a flush has done with the queue: \<open>n\<close> messages were handed to the system
  and \<open>d\<close>, at most one, was dropped, with the error of a message that cannot be sent.\<close>

definition flushed :: "memory \<Rightarrow> nat \<Rightarrow> nat \<Rightarrow> status \<Rightarrow> udp \<Rightarrow> udp \<Rightarrow> bool" where
  "flushed m n d st b b' \<longleftrightarrow>
     (let us = vq_as_span (bu_output b) in
      n + d \<le> length us \<and> vq_as_span (bu_output b') = drop (n + d) us \<and> vq_inv (bu_output b') \<and>
      udp_sent (bu_socket b') = udp_sent (bu_socket b) @ map (um_header m) (take n us) \<and>
      udp_fd (bu_socket b') = udp_fd (bu_socket b) \<and> bu_input b' = bu_input b \<and>
      (d = 0 \<or> d = 1 \<and> (\<exists>e \<in> {EACCES, EMSGSIZE, EPERM}. st = Some (send_failed e (udp_fd (bu_socket b))))))"

lemma flushed_trans:
  assumes "flushed m n 0 None b b1" "flushed m n' d st b1 b2"
  shows "flushed m (n + n') d st b b2"
proof -
  have "drop k (drop n xs) = drop (n + k) xs" for k and xs :: "udp_message list" by (simp add: add.commute)
  with assms show ?thesis by (auto simp: flushed_def Let_def take_add add.assoc simp del: drop_drop)
qed

lemma flush_send_once_flushed:
  assumes "flush_send_once m b = Done (st, b')" "vq_inv (bu_output b)" "\<not> vq_empty (bu_output b)"
  shows "\<exists>n d. flushed m n d st b b' \<and> (st = None \<longrightarrow> d = 0)"
proof -
  let ?q = "bu_output b" and ?us = "take batch_size (vq_as_span (bu_output b))"
  let ?oms = "map (\<lambda>u. \<lparr>om_to = Some (um_address u), om_data = um_bytes m u\<rparr>) ?us"
  from assms(1) obtain cnt s' where send: "send_messages_fast ?oms (bu_socket b) = Done (st, cnt, s')"
    and b': "b' = b\<lparr>bu_socket := s', bu_output := vq_pop_n cnt ?q\<rparr>"
    by (auto simp: flush_send_once_def write_once_def Let_def)
  have pop: "vq_inv (vq_pop_n k ?q)" "vq_as_span (vq_pop_n k ?q) = drop k (vq_as_span ?q)"
    if "k \<le> length (vq_as_span ?q)" for k
    using vq_pop_n_drop [OF assms(2), of k] that by (simp_all add: length_vq_as_span)
  have one: "1 \<le> length (vq_as_span ?q)" using assms(3) by (simp add: vq_empty_def length_vq_as_span)
  have t: "take batch_size ?oms = ?oms" by (simp add: take_map)
  from send show ?thesis
  proof (cases rule: send_messages_fast_cases)
    case (sent hs s1)
    have hs: "hs = map (um_header m) ?us" using sent(1) t by (metis send_headers)
    have n: "cnt \<le> length (vq_as_span ?q)" "cnt \<le> batch_size" using sent(3) by simp_all
    hence "flushed m cnt 0 st b b'"
      using sent(2,4,5) hs b' pop [OF n(1)] send_call_same [OF sent(2)]
      by (simp add: flushed_def Let_def take_map min_def)
    thus ?thesis by blast
  next
    case (failed hs e dr s1)
    note same = send_call_same [OF failed(2)] process_sendmsg_error_same [OF failed(3)]
    have "flushed m 0 (of_bool dr) st b b'"
      using process_sendmsg_error_drop [OF failed(3)] same one pop [of "of_bool dr"] failed(4) b'
      by (auto simp: flushed_def Let_def)
    moreover have "st = None \<longrightarrow> of_bool dr = (0::nat)" using process_sendmsg_error_drop [OF failed(3)] by auto
    ultimately show ?thesis by blast
  qed
qed

text \<open>C24: a flush sends the queued messages in order: those handed to the system are a prefix
  of the queue and what is left is the rest, but for at most one message, which is dropped
  together with an error that says that it cannot be sent. Without an error, the queue is
  empty or the socket cannot be written to.\<close>

theorem flush_send_in_order:
  assumes "flush_send m b = Done (st, b')" "vq_inv (bu_output b)"
  shows "\<exists>n d. flushed m n d st b b' \<and>
    (st = None \<longrightarrow> d = 0 \<and> (vq_as_span (bu_output b') = [] \<or> \<not> can_write_local (udp_flags (bu_socket b'))))"
  using assms
proof (induction m b rule: flush_send.induct)
  case (1 m b)
  show ?case
  proof (cases "can_write_local (udp_flags (bu_socket b)) \<and> \<not> vq_empty (bu_output b)")
    case True
    with "1.prems"(1) obtain st1 b1 where once: "flush_send_once m b = Done (st1, b1)"
      and rest: "(case st1 of Some e \<Rightarrow> Done (Some e, b1) | None \<Rightarrow> flush_send m b1) = Done (st, b')"
      by (subst (asm) flush_send.simps) auto
    from flush_send_once_flushed [OF once "1.prems"(2)] True
    obtain n d where f: "flushed m n d st1 b b1" "st1 = None \<longrightarrow> d = 0" by blast
    show ?thesis
    proof (cases st1)
      case None
      hence "flush_send m b1 = Done (st, b')" "vq_inv (bu_output b1)" using rest f by (auto simp: flushed_def Let_def)
      then obtain n' d' where f': "flushed m n' d' st b1 b'"
        and fin: "st = None \<longrightarrow> d' = 0 \<and> (vq_as_span (bu_output b') = [] \<or> \<not> can_write_local (udp_flags (bu_socket b')))"
        using "1.IH" [OF True once refl None] by blast
      have "flushed m n 0 None b b1" using f None by simp
      from flushed_trans [OF this f'] fin show ?thesis by blast
    next
      case (Some e)
      with rest f show ?thesis by auto
    qed
  next
    case False
    with "1.prems"(1) have e: "st = None" "b' = b" by (auto simp: flush_send.simps split: if_splits)
    hence "flushed m 0 0 st b b'" using "1.prems"(2) by (simp add: flushed_def Let_def)
    moreover have "vq_as_span (bu_output b') = [] \<or> \<not> can_write_local (udp_flags (bu_socket b'))"
      using False e by (auto simp: vq_empty_def simp flip: length_vq_as_span)
    ultimately show ?thesis by blast
  qed
qed


subsection \<open>Storing datagrams\<close>

definition slice_in :: "memory \<Rightarrow> mem_slice \<Rightarrow> bool" where
  "slice_in m sl \<longleftrightarrow> sl_buffer sl < length m \<and> sl_begin sl + sl_size sl \<le> length (m ! sl_buffer sl)"

text \<open>The buffers keep their sizes, those outside \<open>bs\<close> their contents, and a buffer \<open>b\<close> in
  \<open>bs\<close> what is before its position.\<close>

definition kept :: "mem_slice list \<Rightarrow> memory \<Rightarrow> memory \<Rightarrow> bool" where
  "kept bs m m' \<longleftrightarrow> length m \<le> length m' \<and> (\<forall>i < length m. length (m' ! i) = length (m ! i) \<and>
     (\<forall>k < length (m ! i). (\<forall>b \<in> set bs. sl_buffer b = i \<longrightarrow> k < sl_begin b) \<longrightarrow> m' ! i ! k = m ! i ! k))"

lemma kept_refl [simp]: "kept bs m m"
  by (simp add: kept_def)

lemma kept_trans: "kept bs m m1 \<Longrightarrow> kept bs m1 m2 \<Longrightarrow> kept bs m m2"
  by (simp add: kept_def)

lemma kept_mono: "kept bs m m' \<Longrightarrow> set bs \<subseteq> set cs \<Longrightarrow> kept cs m m'"
  unfolding kept_def by blast

text \<open>A slice that ends before the position of every buffer of \<open>bs\<close> that it shares.\<close>

definition before :: "mem_slice list \<Rightarrow> mem_slice \<Rightarrow> bool" where
  "before bs t \<longleftrightarrow> (\<forall>b \<in> set bs. sl_buffer b = sl_buffer t \<longrightarrow> sl_begin t + sl_size t \<le> sl_begin b)"

lemma kept_slice:
  assumes "kept bs m m'" "slice_in m t" "before bs t"
  shows "slice_in m' t" "slice_bytes m' t = slice_bytes m t"
proof -
  show in': "slice_in m' t" using assms(1,2) by (auto simp: kept_def slice_in_def)
  show "slice_bytes m' t = slice_bytes m t"
  proof (rule nth_equalityI)
    show "length (slice_bytes m' t) = length (slice_bytes m t)"
      using assms(1,2) by (simp add: kept_def slice_in_def slice_bytes_def)
  next
    fix k assume k: "k < length (slice_bytes m' t)"
    have "\<forall>b \<in> set bs. sl_buffer b = sl_buffer t \<longrightarrow> sl_begin t + k < sl_begin b"
      using assms(3) k by (auto simp: before_def slice_bytes_def)
    thus "slice_bytes m' t ! k = slice_bytes m t ! k"
      using assms(1,2) in' k by (auto simp: kept_def slice_in_def slice_bytes_def)
  qed
qed

lemma store_bytes_kept:
  assumes "slice_in m sl" "length bytes \<le> sl_size sl"
  shows "kept [sl] m (store_bytes sl bytes m)"
  using assms by (auto simp: kept_def store_bytes_def slice_in_def nth_list_update nth_append)

lemma store_bytes_read:
  assumes "slice_in m sl" "n \<le> length bytes" "length bytes \<le> sl_size sl"
  shows "slice_bytes (store_bytes sl bytes m) (truncate_slice n sl) = take n bytes"
  using assms by (auto simp: slice_bytes_def store_bytes_def slice_in_def truncate_slice_def min_def)

text \<open>What a datagram gives: its bytes and error, and the address where it has one.\<close>

definition dg_view :: "datagram \<Rightarrow> string \<times> status" where
  "dg_view d =
     (if dg_errors d \<noteq> [] then ([], Some (PosixError (fst (last (dg_errors d))) ''''))
      else if dg_trunc d then ([], Some message_too_long) else (dg_bytes d, None))"

definition dg_from :: "datagram \<Rightarrow> sock_addr" where
  "dg_from d = (if dg_errors d \<noteq> [] then snd (last (dg_errors d)) else dg_name d)"

definition has_address :: "ip_address \<Rightarrow> datagram \<Rightarrow> bool" where
  "has_address a d \<longleftrightarrow> (case dg_from d of Sockaddr_other _ \<Rightarrow> True | addr \<Rightarrow> a = \<lparr>ip_valid = True, ip_addr = addr\<rparr>)"

definition im_holds :: "memory \<Rightarrow> datagram \<Rightarrow> inbound_message \<Rightarrow> bool" where
  "im_holds m d im \<longleftrightarrow> (slice_bytes m (im_data im), im_error im) = dg_view d \<and> has_address (im_from im) d"

lemma init_sockaddr_len_from:
  "init_sockaddr_len (dg_from d) len a0 = Some (st, a) \<Longrightarrow> has_address a d"
  by (auto simp: init_sockaddr_len_def has_address_def split: sock_addr.splits if_splits)

lemma from_native_holds:
  assumes "from_native d n im = Some im'"
  shows "\<exists>k. im_data im' = truncate_slice k (im_data im) \<and> has_address (im_from im') d \<and>
    (if dg_errors d = [] \<and> \<not> dg_trunc d then k = n \<and> n \<le> sl_size (im_data im) else k = 0) \<and> im_error im' = snd (dg_view d)"
proof (cases "dg_errors d = []")
  case True
  with assms obtain st a where i: "init_sockaddr_len (dg_from d) (dg_namelen d) (im_from im) = Some (st, a)"
    by (auto simp: from_native_def dg_from_def bind_eq_Some_conv)
  have h: "has_address a d" using i by (rule init_sockaddr_len_from)
  have i': "init_sockaddr_len (dg_name d) (dg_namelen d) (im_from im) = Some (st, a)" using i True by (simp add: dg_from_def)
  show ?thesis
  proof (cases "dg_trunc d")
    case trunc: True
    thus ?thesis using assms True i' h by (auto simp: from_native_def dg_view_def Let_def)
  next
    case False
    thus ?thesis using assms True i' h by (auto simp: from_native_def dg_view_def Let_def split: if_splits)
  qed
next
  case False
  obtain e addr where l: "last (dg_errors d) = (e, addr)" by fastforce
  with assms False obtain st a where i: "init_sockaddr_len (dg_from d) (sockaddr_size addr) new_ip_address = Some (st, a)"
    and im': "im' = im\<lparr>im_from := a, im_error := Some (PosixError e ''''), im_data := truncate_slice 0 (im_data im)\<rparr>"
    by (auto simp: from_native_def dg_from_def init_sockaddr_def)
  show ?thesis using init_sockaddr_len_from [OF i] im' False l
    by (auto simp: dg_view_def intro!: exI [of _ 0])
qed

lemma truncate_slice_sel [simp]:
  "sl_buffer (truncate_slice n sl) = sl_buffer sl" "sl_begin (truncate_slice n sl) = sl_begin sl"
  "sl_size (truncate_slice n sl) = min n (sl_size sl)"
  by (simp_all add: truncate_slice_def)

lemma truncate_slice_id: "truncate_slice (sl_size sl) sl = sl"
  by (simp add: truncate_slice_def)

lemma slice_bytes_0: "sl_size sl = 0 \<Longrightarrow> slice_bytes m sl = []"
  by (simp add: slice_bytes_def)

lemma store_datagram_holds:
  assumes "store_datagram d m im = Some (im', m')" "slice_in m (im_data im)"
  shows "kept [im_data im] m m' \<and> im_holds m' d im' \<and> (\<exists>k. im_data im' = truncate_slice k (im_data im))"
proof -
  from assms(1) have len: "length (dg_bytes d) \<le> sl_size (im_data im)"
    and nat: "from_native d (length (dg_bytes d)) im = Some im'"
    and m': "m' = store_bytes (im_data im) (dg_bytes d) m"
    by (auto simp: store_datagram_def split: if_splits)
  from from_native_holds [OF nat] obtain k where k: "im_data im' = truncate_slice k (im_data im)"
    "has_address (im_from im') d" "im_error im' = snd (dg_view d)"
    "if dg_errors d = [] \<and> \<not> dg_trunc d then k = length (dg_bytes d) else k = 0" by (auto split: if_splits)
  have "slice_bytes m' (im_data im') = fst (dg_view d)"
  proof (cases "dg_errors d = [] \<and> \<not> dg_trunc d")
    case True
    with k have "k = length (dg_bytes d)" by simp
    thus ?thesis using store_bytes_read [OF assms(2) order_refl len] True k(1) m' by (simp add: dg_view_def)
  next
    case False
    thus ?thesis using k by (auto simp: dg_view_def slice_bytes_0)
  qed
  moreover have "kept [im_data im] m m'" using store_bytes_kept [OF assms(2) len] m' by simp
  ultimately show ?thesis using k by (auto simp: im_holds_def prod_eq_iff)
qed

text \<open>All of them, in messages of different buffers.\<close>

definition shortened :: "inbound_message \<Rightarrow> inbound_message \<Rightarrow> bool" where
  "shortened im im' \<longleftrightarrow> (\<exists>k. im_data im' = truncate_slice k (im_data im))"

lemma shortened_refl [simp]: "shortened im im"
  unfolding shortened_def by (metis truncate_slice_id)

lemma store_datagrams_holds:
  assumes "store_datagrams ds m ims = Some (ims', m')"
    and "\<forall>im \<in> set ims. slice_in m (im_data im)" "distinct (map (sl_buffer \<circ> im_data) ims)"
  shows "length ds \<le> length ims \<and> kept (map im_data ims) m m' \<and>
    drop (length ds) ims' = drop (length ds) ims \<and> list_all2 (im_holds m') ds (take (length ds) ims') \<and>
    list_all2 shortened ims ims'"
  using assms
proof (induction ds m ims arbitrary: ims' m' rule: store_datagrams.induct)
  case (1 m ims)
  thus ?case by (simp add: list.rel_refl)
next
  case (2 d ds m)
  thus ?case by simp
next
  case (3 d ds m im ims)
  from "3.prems"(1) obtain im1 m1 ims1 where one: "store_datagram d m im = Some (im1, m1)"
    and more: "store_datagrams ds m1 ims = Some (ims1, m')" and r: "ims' = im1 # ims1"
    by (auto simp: bind_eq_Some_conv)
  have s: "kept [im_data im] m m1" "im_holds m1 d im1" "shortened im im1"
    using store_datagram_holds [OF one] "3.prems"(2) by (simp_all add: shortened_def)
  have "\<forall>im \<in> set ims. slice_in m1 (im_data im)"
    using s(1) "3.prems"(2) by (auto simp: kept_def slice_in_def)
  note ih = "3.IH" [OF one refl more this]
  have k': "kept (map im_data ims) m1 m'" using ih "3.prems"(3) by simp
  have "slice_in m1 (im_data im1)"
    using s(1,3) "3.prems"(2) by (auto simp: kept_def slice_in_def shortened_def min_def)
  moreover have "before (map im_data ims) (im_data im1)"
    using s(3) "3.prems"(3) by (auto simp: before_def shortened_def image_iff)
  ultimately have "im_holds m' d im1" using s(2) kept_slice(2) [OF k'] by (simp add: im_holds_def)
  moreover have "kept (map im_data (im # ims)) m m'"
    by (rule kept_trans [OF kept_mono [OF s(1)] kept_mono [OF k']]) auto
  ultimately show ?case using ih "3.prems"(3) s(3) r by simp
qed


subsection \<open>The places of the reader\<close>

definition slot_buf :: "read_slot \<Rightarrow> mem_slice" where
  "slot_buf slot = the (rs_buffer slot)"

definition slot_ok :: "memory \<Rightarrow> read_slot \<Rightarrow> bool" where
  "slot_ok m slot \<longleftrightarrow> (\<exists>b k. rs_buffer slot = Some b \<and> slice_in m b \<and> MAX_PACKET_SIZE \<le> sl_size b \<and>
     im_data (rs_message slot) = truncate_slice k (b\<lparr>sl_size := MAX_PACKET_SIZE\<rparr>))"

definition slots_ok :: "memory \<Rightarrow> read_slot list \<Rightarrow> bool" where
  "slots_ok m slots \<longleftrightarrow> (\<forall>slot \<in> set slots. slot_ok m slot) \<and> distinct (map (sl_buffer \<circ> slot_buf) slots)"

definition grown :: "memory \<Rightarrow> memory \<Rightarrow> bool" where
  "grown m m' \<longleftrightarrow> (\<exists>x. m' = m @ x)"

lemma grown_kept: "grown m m' \<Longrightarrow> kept bs m m'"
  by (auto simp: grown_def kept_def nth_append)

lemma grown_in: "grown m m' \<Longrightarrow> slice_in m t \<Longrightarrow> slice_in m' t"
  by (auto simp: grown_def slice_in_def nth_append)

lemma grown_trans: "grown m m1 \<Longrightarrow> grown m1 m2 \<Longrightarrow> grown m m2"
  by (auto simp: grown_def)

lemma slot_ok_grown: "slot_ok m slot \<Longrightarrow> grown m m' \<Longrightarrow> slot_ok m' slot"
  unfolding slot_ok_def using grown_in by blast

text \<open>A buffer that replaces or advances one of \<open>bs\<close>, or is new.\<close>

definition follows :: "memory \<Rightarrow> mem_slice list \<Rightarrow> mem_slice \<Rightarrow> bool" where
  "follows m bs b' \<longleftrightarrow> length m \<le> sl_buffer b' \<or> (\<exists>b \<in> set bs. sl_buffer b' = sl_buffer b \<and> sl_begin b \<le> sl_begin b')"

lemma before_follows:
  "before bs t \<Longrightarrow> slice_in m t \<Longrightarrow> \<forall>b \<in> set bs'. follows m bs b \<Longrightarrow> before bs' t"
  by (fastforce simp: before_def follows_def slice_in_def)

lemma new_buffer_ok:
  "new_buffer m = (m', b) \<Longrightarrow> grown m m' \<and> slice_in m' b \<and> sl_size b = RESERVED_SIZE \<and> sl_buffer b = length m"
  by (auto simp: new_buffer_def grown_def slice_in_def)

lemma init_inbound_message_ok:
  assumes "case rs_buffer slot of None \<Rightarrow> True | Some b \<Rightarrow> slice_in m b"
  shows "\<exists>slot' m'. init_inbound_message m slot = Some (slot', m') \<and> grown m m' \<and> slot_ok m' slot' \<and> full_slot slot' \<and>
    (sl_buffer (slot_buf slot') = length m \<and> length m' = length m + 1 \<or> rs_buffer slot' = rs_buffer slot \<and> rs_buffer slot \<noteq> None)"
proof -
  obtain m' b where h: "helper_buffer m slot = (m', b)" by fastforce
  have new: "new_buffer m = (m', b) \<or> (rs_buffer slot = Some b \<and> m' = m \<and> MAX_PACKET_SIZE \<le> sl_size b)"
    using h by (auto simp: helper_buffer_def split: option.splits if_splits)
  have b: "grown m m'" "slice_in m' b" "MAX_PACKET_SIZE \<le> sl_size b"
    "sl_buffer b = length m \<and> length m' = length m + 1 \<or> rs_buffer slot = Some b"
    using new assms new_buffer_ok [of m m' b]
    by (auto simp: RESERVED_SIZE_def grown_def new_buffer_def)
  let ?slot = "slot\<lparr>rs_buffer := Some b, rs_message := (rs_message slot)\<lparr>im_data := b\<lparr>sl_size := MAX_PACKET_SIZE\<rparr>\<rparr>\<rparr>"
  have "truncate_slice MAX_PACKET_SIZE (b\<lparr>sl_size := MAX_PACKET_SIZE\<rparr>) = b\<lparr>sl_size := MAX_PACKET_SIZE\<rparr>"
    by (simp add: truncate_slice_def)
  hence "slot_ok m' ?slot" using b(2,3) unfolding slot_ok_def
    by (intro exI [of _ b] exI [of _ MAX_PACKET_SIZE]) simp
  moreover have "full_slot ?slot" by (simp add: full_slot_def MAX_PACKET_SIZE_def)
  ultimately show ?thesis using h b by (auto simp: init_inbound_message_def slot_buf_def)
qed

definition um_of :: "inbound_message \<Rightarrow> udp_message \<Rightarrow> bool" where
  "um_of im u \<longleftrightarrow> um_address u = im_from im \<and> um_data u = Some (im_data im) \<and> um_error u = im_error im"

lemma extract_udp_message_ok:
  assumes "slot_ok m slot"
  shows "\<exists>u slot' b'. extract_udp_message m slot = Some (u, slot') \<and> um_of (rs_message slot) u \<and>
    slice_in m (im_data (rs_message slot)) \<and> sl_buffer (im_data (rs_message slot)) = sl_buffer (slot_buf slot) \<and>
    rs_buffer slot' = Some b' \<and> slice_in m b' \<and> sl_buffer b' = sl_buffer (slot_buf slot) \<and>
    sl_begin (slot_buf slot) \<le> sl_begin b' \<and>
    sl_begin (im_data (rs_message slot)) + sl_size (im_data (rs_message slot)) \<le> sl_begin b'"
proof -
  from assms obtain b k where b: "rs_buffer slot = Some b" "slice_in m b" "MAX_PACKET_SIZE \<le> sl_size b"
    "im_data (rs_message slot) = truncate_slice k (b\<lparr>sl_size := MAX_PACKET_SIZE\<rparr>)" by (auto simp: slot_ok_def)
  let ?d = "im_data (rs_message slot)" and ?n = "(min k MAX_PACKET_SIZE + 7) div 8 * 8"
  have d: "sl_buffer ?d = sl_buffer b" "sl_begin ?d = sl_begin b" "sl_size ?d = min k MAX_PACKET_SIZE" using b(4) by simp_all
  have n: "?n \<le> MAX_PACKET_SIZE" "min k MAX_PACKET_SIZE \<le> ?n"
    by (simp_all add: MAX_PACKET_SIZE_def min_def) linarith+
  have "slice_in m ?d" using b(2,3) d by (simp add: slice_in_def) linarith
  thus ?thesis using b n d
    by (auto simp: extract_udp_message_def from_slice_def slice_confirm_read_def slot_buf_def um_of_def slice_in_def Let_def)
qed


lemma slot_ok_data:
  assumes "slot_ok m slot"
  shows "slice_in m (im_data (rs_message slot))" "sl_buffer (im_data (rs_message slot)) = sl_buffer (slot_buf slot)"
    "slice_in m (slot_buf slot)" "sl_buffer (slot_buf slot) < length m"
  using extract_udp_message_ok [OF assms] assms by (auto simp: slot_ok_def slot_buf_def slice_in_def)

text \<open>Taking the first \<open>n\<close> messages. The messages are those that the system completed, and what
  they hold is before the new positions.\<close>

definition extracted :: "nat \<Rightarrow> memory \<Rightarrow> read_slot list \<Rightarrow> udp_message vqueue
    \<Rightarrow> udp_message vqueue \<Rightarrow> read_slot list \<Rightarrow> memory \<Rightarrow> udp_message list \<Rightarrow> bool" where
  "extracted n m slots q q' slots' m' us \<longleftrightarrow> grown m m' \<and>
     vq_inv q' \<and> vq_as_span q' = vq_as_span q @ us \<and> list_all2 um_of (map rs_message (take n slots)) us \<and>
     slots_ok m' slots' \<and> list_all full_slot slots' \<and> length slots' = length slots \<and>
     (\<forall>b \<in> set (map slot_buf slots'). follows m (map slot_buf slots) b) \<and>
     (\<forall>slot \<in> set (take n slots). before (map slot_buf slots') (im_data (rs_message slot)))"

lemma extracted_step:
  assumes ok: "slots_ok m (slot # slots)" and u: "um_of (rs_message slot) u"
    and q: "vq_as_span (vq_push q u) = vq_as_span q @ [u]"
    and b1: "sl_buffer b1 = sl_buffer (slot_buf slot)" "sl_begin (slot_buf slot) \<le> sl_begin b1"
      "sl_begin (im_data (rs_message slot)) + sl_size (im_data (rs_message slot)) \<le> sl_begin b1"
    and s2: "grown m m2" "slot_ok m2 slot2" "full_slot slot2"
      "sl_buffer (slot_buf slot2) = length m \<and> length m2 = length m + 1 \<or> slot_buf slot2 = b1"
    and ih: "extracted n m2 slots (vq_push q u) q' slots' m' us"
  shows "extracted (Suc n) m (slot # slots) q q' (slot2 # slots') m' (u # us)"
proof -
  have le: "length m \<le> length m2" using s2(1) by (auto simp: grown_def)
  have ids: "\<forall>s \<in> set slots. sl_buffer (slot_buf s) < length m \<and> sl_buffer (slot_buf s) \<noteq> sl_buffer (slot_buf slot)"
    using ok slot_ok_data(4) by (auto simp: slots_ok_def image_iff)
  have id: "sl_buffer (slot_buf slot) < length m" using ok slot_ok_data(4) [of m slot] by (simp add: slots_ok_def)
  have fol: "follows m2 (map slot_buf slots) b" if "b \<in> set (map slot_buf slots')" for b
    using ih that by (auto simp: extracted_def)
  have apart: "sl_buffer b \<noteq> sl_buffer (slot_buf slot2) \<and> sl_buffer b \<noteq> sl_buffer (slot_buf slot)"
    if "b \<in> set (map slot_buf slots')" for b
    using fol [OF that] s2(4) ids id le b1(1) by (fastforce simp: follows_def)
  have d: "sl_buffer (im_data (rs_message slot)) = sl_buffer (slot_buf slot)"
    using ok slot_ok_data(2) [of m slot] by (simp add: slots_ok_def)
  have ds: "\<forall>s \<in> set slots. sl_buffer (im_data (rs_message s)) = sl_buffer (slot_buf s)"
    using ok slot_ok_data(2) [of m] by (simp add: slots_ok_def)
  have gr: "grown m2 m'" using ih by (simp add: extracted_def)
  have sok: "slots_ok m' (slot2 # slots')"
    using ih slot_ok_grown [OF s2(2) gr] apart by (fastforce simp: extracted_def slots_ok_def)
  have "\<forall>b \<in> set (map slot_buf (slot2 # slots')). follows m (map slot_buf (slot # slots)) b"
    using fol s2(4) le b1(1,2) by (fastforce simp: follows_def)
  moreover have "before (map slot_buf (slot2 # slots')) (im_data (rs_message slot))"
    using apart s2(4) b1(3) d id by (auto simp: before_def)
  moreover have "before (map slot_buf (slot2 # slots')) (im_data (rs_message s))" if "s \<in> set (take n slots)" for s
  proof -
    have "s \<in> set slots" using that by (rule in_set_takeD)
    hence "sl_buffer (slot_buf slot2) \<noteq> sl_buffer (im_data (rs_message s))" using ids id ds s2(4) b1(1) by auto
    thus ?thesis using ih that by (auto simp: extracted_def before_def)
  qed
  ultimately show ?thesis using ih sok grown_trans [OF s2(1) gr] u q s2(3)
    by (auto simp: extracted_def)
qed

lemma extract_slots_ok:
  assumes "slots_ok m slots" "n \<le> length slots" "list_all full_slot (drop n slots)" "vq_inv q"
  shows "\<exists>q' slots' m' us. extract_slots n m slots q = Some (q', slots', m') \<and> extracted n m slots q q' slots' m' us"
  using assms
proof (induction n arbitrary: m slots q)
  case 0
  thus ?case by (auto simp: extracted_def follows_def grown_def)
next
  case (Suc n)
  from Suc.prems(2) obtain slot slots1 where s: "slots = slot # slots1" by (cases slots) auto
  have ok: "slot_ok m slot" using Suc.prems(1) s by (simp add: slots_ok_def)
  from extract_udp_message_ok [OF ok] obtain u slot1 b1 where ex: "extract_udp_message m slot = Some (u, slot1)"
    and u: "um_of (rs_message slot) u"
    and b1: "rs_buffer slot1 = Some b1" "slice_in m b1" "sl_buffer b1 = sl_buffer (slot_buf slot)"
      "sl_begin (slot_buf slot) \<le> sl_begin b1"
      "sl_begin (im_data (rs_message slot)) + sl_size (im_data (rs_message slot)) \<le> sl_begin b1" by blast
  have pre: "case rs_buffer slot1 of None \<Rightarrow> True | Some b \<Rightarrow> slice_in m b" using b1 by simp
  from init_inbound_message_ok [OF pre] obtain slot2 m2 where it: "init_inbound_message m slot1 = Some (slot2, m2)"
    and s2: "grown m m2" "slot_ok m2 slot2" "full_slot slot2"
      "sl_buffer (slot_buf slot2) = length m \<and> length m2 = length m + 1 \<or> slot_buf slot2 = b1"
    using b1(1) by (auto simp: slot_buf_def)
  have "slots_ok m2 slots1" using Suc.prems(1) s slot_ok_grown [OF _ s2(1)] by (simp add: slots_ok_def)
  moreover have "n \<le> length slots1" "list_all full_slot (drop n slots1)" using Suc.prems(2,3) s by simp_all
  moreover have q: "vq_inv (vq_push q u)" "vq_as_span (vq_push q u) = vq_as_span q @ [u]"
    using Suc.prems(4) by (simp_all add: vq_push_simps)
  ultimately obtain q' slots' m' us where ih: "extract_slots n m2 slots1 (vq_push q u) = Some (q', slots', m')"
    "extracted n m2 slots1 (vq_push q u) q' slots' m' us" using Suc.IH by blast
  have "extracted (Suc n) m (slot # slots1) q q' (slot2 # slots') m' (u # us)"
    using Suc.prems(1) s by (intro extracted_step [OF _ u q(2) b1(3,4,5) s2 ih(2)]) simp
  thus ?case using ex it ih(1) s by auto
qed


subsection \<open>The reader\<close>

text \<open>The reader protects a set of slices: they lie before all places into which it lets the system
  write.\<close>

definition udp_reader_ok :: "udp_reader \<Rightarrow> mem_slice set \<Rightarrow> bool" where
  "udp_reader_ok rd taken \<longleftrightarrow> slots_ok (rd_mem rd) (rd_slots rd) \<and> list_all full_slot (rd_slots rd) \<and>
     length (rd_slots rd) = batch_size \<and>
     (\<forall>t \<in> taken. slice_in (rd_mem rd) t \<and> before (map slot_buf (rd_slots rd)) t)"

lemma init_slots_ok:
  "\<forall>slot \<in> set slots. rs_buffer slot = None \<Longrightarrow>
    \<exists>slots' m'. init_slots m slots = Some (slots', m') \<and> grown m m' \<and> slots_ok m' slots' \<and> list_all full_slot slots' \<and>
      length slots' = length slots \<and> (\<forall>slot \<in> set slots'. length m \<le> sl_buffer (slot_buf slot))"
proof (induction slots arbitrary: m)
  case Nil
  thus ?case by (simp add: slots_ok_def grown_def)
next
  case (Cons slot slots)
  have pre: "case rs_buffer slot of None \<Rightarrow> True | Some b \<Rightarrow> slice_in m b" using Cons.prems by simp
  from init_inbound_message_ok [OF pre] Cons.prems obtain slot2 m2 where it: "init_inbound_message m slot = Some (slot2, m2)"
    and s2: "grown m m2" "slot_ok m2 slot2" "full_slot slot2" "sl_buffer (slot_buf slot2) = length m" "length m2 = length m + 1"
    by auto
  from Cons obtain slots' m' where ih: "init_slots m2 slots = Some (slots', m')" "grown m2 m'" "slots_ok m' slots'"
    "list_all full_slot slots'" "length slots' = length slots" "\<forall>slot \<in> set slots'. length m2 \<le> sl_buffer (slot_buf slot)"
    by (metis list.set_intros(2))
  have "slots_ok m' (slot2 # slots')" using ih(3,6) s2(4,5) slot_ok_grown [OF s2(2) ih(2)] by (fastforce simp: slots_ok_def)
  thus ?case using it ih s2 grown_trans [OF s2(1) ih(2)] by (fastforce simp: bind_eq_Some_conv)
qed

lemma new_udp_reader_ok: "\<exists>rd. new_udp_reader m = Some rd \<and> udp_reader_ok rd {t. slice_in m t} \<and> grown m (rd_mem rd)"
proof -
  have "\<forall>slot \<in> set (replicate batch_size null_slot). rs_buffer slot = None" by (simp add: null_slot_def)
  from init_slots_ok [OF this, of m] obtain slots' m' where
    i: "init_slots m (replicate batch_size null_slot) = Some (slots', m')" "grown m m'" "slots_ok m' slots'"
    "list_all full_slot slots'" "length slots' = batch_size" "\<forall>slot \<in> set slots'. length m \<le> sl_buffer (slot_buf slot)"
    by auto
  have "before (map slot_buf slots') t" if "slice_in m t" for t
    using i(6) that by (auto simp: before_def slice_in_def)
  thus ?thesis using i grown_in [OF i(2)] by (auto simp: new_udp_reader_def udp_reader_ok_def)
qed

text \<open>What the system delivers: datagrams, and errors that the reader turns into messages.\<close>

definition arrive :: "int \<Rightarrow> datagram list sys \<Rightarrow> (datagram + status_error) list" where
  "arrive fd r = (case r of
       Sys_ok ds \<Rightarrow> map Inl ds
     | Sys_errno e \<Rightarrow> if e \<in> {EINTR, EAGAIN, ENOMEM, ENOBUFS} then [] else [Inr (recv_failed e fd)])"

definition arrivals :: "int \<Rightarrow> (bool \<times> datagram list sys) list \<Rightarrow> (datagram + status_error) list" where
  "arrivals fd tr = concat (map (arrive fd \<circ> snd) tr)"

text \<open>The results that were used, each with whether it came from the queue of errors.\<close>

definition recv_used :: "udp_socket \<Rightarrow> (bool \<times> datagram list sys) list \<Rightarrow> udp_socket \<Rightarrow> bool" where
  "recv_used s tr s' \<longleftrightarrow> udp_fd s' = udp_fd s \<and>
     os_recvs s = map snd (filter (\<lambda>p. \<not> fst p) tr) @ os_recvs s' \<and> os_errqueue s = map snd (filter fst tr) @ os_errqueue s'"

lemma recv_used_refl [simp]: "recv_used s [] s"
  by (simp add: recv_used_def)

lemma recv_used_trans: "recv_used s tr s1 \<Longrightarrow> recv_used s1 tr' s2 \<Longrightarrow> recv_used s (tr @ tr') s2"
  by (simp add: recv_used_def)

definition um_holds :: "memory \<Rightarrow> datagram + status_error \<Rightarrow> udp_message \<Rightarrow> bool" where
  "um_holds m x u \<longleftrightarrow> (case x of
       Inl d \<Rightarrow> (um_bytes m u, um_error u) = dg_view d \<and> has_address (um_address u) d
     | Inr e \<Rightarrow> um_bytes m u = [] \<and> um_error u = Some e \<and> um_address u = new_ip_address)"

lemma skip_eintr_prefix:
  "skip_eintr rs = Done (r, rest) \<Longrightarrow> \<exists>n. rs = replicate n (Sys_errno EINTR) @ r # rest"
proof (induction rs)
  case (Cons x rs)
  show ?case
  proof (cases "x = Sys_errno EINTR")
    case True
    with Cons obtain n where "rs = replicate n (Sys_errno EINTR) @ r # rest" by auto
    thus ?thesis using True by (intro exI [of _ "Suc n"]) simp
  next
    case False
    thus ?thesis using Cons.prems by (intro exI [of _ 0]) simp
  qed
qed simp

lemma recv_call_used:
  assumes "recv_call s = Done (r, s')"
  shows "\<exists>tr. recv_used s tr s' \<and> (\<forall>fd. arrivals fd tr = arrive fd r)"
proof -
  let ?b = "has_pending_error (pf_flags (udp_flags s))"
  from assms obtain rest where r: "skip_eintr (if ?b then os_errqueue s else os_recvs s) = Done (r, rest)"
    and s': "s' = (if ?b then s\<lparr>os_errqueue := rest\<rparr> else s\<lparr>os_recvs := rest\<rparr>)"
    by (auto simp: recv_call_def split: if_splits)
  from skip_eintr_prefix [OF r] obtain n where
    n: "(if ?b then os_errqueue s else os_recvs s) = replicate n (Sys_errno EINTR) @ r # rest" by blast
  have a: "arrive fd (Sys_errno EINTR) = []" for fd by (simp add: arrive_def)
  show ?thesis
    by (intro exI [of _ "replicate n (?b, Sys_errno EINTR) @ [(?b, r)]"])
      (use n s' a in \<open>auto simp: recv_used_def arrivals_def filter_replicate map_replicate_const split: if_splits\<close>)
qed

lemma receive_messages_fast_cases:
  assumes "receive_messages_fast m ims s = Done (st, cnt, ims', m', s')"
  obtains (received) ds where "recv_call s = Done (Sys_ok ds, s')" "store_datagrams ds m ims = Some (ims', m')"
      "st = None" "cnt = length ds"
  | (failed) e s1 where "recv_call s = Done (Sys_errno e, s1)" "process_recvmsg_error e s1 = Done (st, s')"
      "cnt = 0" "ims' = ims" "m' = m"
proof -
  from assms obtain r s1 where call: "recv_call s = Done (r, s1)"
    and rest: "(case r of
        Sys_ok ds \<Rightarrow> if length ds \<le> min (length ims) batch_size
          then run_bind (of_check (store_datagrams ds m ims)) (\<lambda>(ims, m). Done (None, length ds, ims, m, s1)) else Fatal
      | Sys_errno e \<Rightarrow> run_bind (process_recvmsg_error e s1) (\<lambda>(st, s). Done (st, 0, ims, m, s)))
      = Done (st, cnt, ims', m', s')"
    by (auto simp: receive_messages_fast_def Let_def)
  show thesis
  proof (cases r)
    case (Sys_ok ds)
    with rest call show ?thesis by (auto simp: of_check_Done intro: received split: if_splits)
  next
    case (Sys_errno e)
    with rest call show ?thesis by (auto intro: failed)
  qed
qed

lemma set_messages_sel:
  assumes "length ims = length slots"
  shows "map slot_buf (set_messages slots ims) = map slot_buf slots" "map rs_message (set_messages slots ims) = ims"
    "length (set_messages slots ims) = length slots"
  using assms by (induction ims slots rule: list_induct2) (simp_all add: set_messages_def slot_buf_def)

lemma truncate_truncate: "truncate_slice k (truncate_slice k' sl) = truncate_slice (min k k') sl"
  by (simp add: truncate_slice_def min.assoc)

lemma set_messages_slots_ok:
  assumes "slots_ok m slots" "kept bs m m'" "list_all2 shortened (map rs_message slots) ims"
  shows "slots_ok m' (set_messages slots ims)"
proof -
  have len: "length ims = length slots" using assms(3) by (auto dest: list_all2_lengthD)
  have "slot_ok m' (slot\<lparr>rs_message := im\<rparr>)" if "slot_ok m slot" "shortened (rs_message slot) im" for slot im
  proof -
    from that obtain b k k' where b: "rs_buffer slot = Some b" "slice_in m b" "MAX_PACKET_SIZE \<le> sl_size b"
      "im_data (rs_message slot) = truncate_slice k (b\<lparr>sl_size := MAX_PACKET_SIZE\<rparr>)"
      "im_data im = truncate_slice k' (im_data (rs_message slot))" by (auto simp: slot_ok_def shortened_def)
    have "slice_in m' b" using assms(2) b(2) by (auto simp: kept_def slice_in_def)
    thus ?thesis using b by (auto simp: slot_ok_def truncate_truncate)
  qed
  hence "\<forall>slot \<in> set (set_messages slots ims). slot_ok m' slot"
    using assms(1,3) by (auto simp: set_messages_def slots_ok_def list_all2_conv_all_nth set_zip)
  moreover have "distinct (map (sl_buffer \<circ> slot_buf) (set_messages slots ims))"
    using assms(1) arg_cong [OF set_messages_sel(1) [OF len], of "map sl_buffer"] by (simp add: slots_ok_def)
  ultimately show ?thesis by (simp add: slots_ok_def)
qed


text \<open>One step of a reader for a socket: the slices it protects keep their bytes, and the messages
  it adds are what the system delivered.\<close>

definition protects :: "udp_reader \<Rightarrow> mem_slice set \<Rightarrow> udp_reader \<Rightarrow> mem_slice set \<Rightarrow> bool" where
  "protects rd taken rd' taken' \<longleftrightarrow> udp_reader_ok rd' taken' \<and> taken \<subseteq> taken' \<and>
     (\<forall>t \<in> taken. slice_bytes (rd_mem rd') t = slice_bytes (rd_mem rd) t)"

definition um_slices :: "udp_message list \<Rightarrow> mem_slice set" where
  "um_slices us = {t. \<exists>u \<in> set us. um_data u = Some t}"

lemma protects_refl: "udp_reader_ok rd taken \<Longrightarrow> protects rd taken rd taken"
  by (simp add: protects_def)

lemma protects_trans: "protects rd t rd1 t1 \<Longrightarrow> protects rd1 t1 rd2 t2 \<Longrightarrow> protects rd t rd2 t2"
  by (auto simp: protects_def)

lemma um_holds_protected:
  "um_holds (rd_mem rd) x u \<Longrightarrow> um_slices [u] \<subseteq> taken \<Longrightarrow> protects rd taken rd' taken' \<Longrightarrow> um_holds (rd_mem rd') x u"
  by (auto simp: um_holds_def um_bytes_def protects_def um_slices_def split: sum.splits option.splits)

lemma um_holds_all_protected:
  "list_all2 (um_holds (rd_mem rd)) xs us \<Longrightarrow> um_slices us \<subseteq> taken \<Longrightarrow> protects rd taken rd' taken' \<Longrightarrow>
    list_all2 (um_holds (rd_mem rd')) xs us"
  by (induction rule: list_all2_induct) (auto intro!: um_holds_protected [of rd _ _ taken rd' taken'] simp: um_slices_def)

lemma read_datagrams:
  assumes rd: "udp_reader_ok rd taken" and q: "vq_inv q"
    and st: "store_datagrams ds (rd_mem rd) (map rs_message (rd_slots rd)) = Some (ims, m1)"
  shows "\<exists>q' slots' m' us. extract_slots (length ds) m1 (set_messages (rd_slots rd) ims) q = Some (q', slots', m') \<and>
    vq_inv q' \<and> vq_as_span q' = vq_as_span q @ us \<and> list_all2 (um_holds m') (map Inl ds) us \<and>
    protects rd taken \<lparr>rd_mem = m', rd_slots = slots'\<rparr> (taken \<union> um_slices us)"
proof -
  let ?slots = "rd_slots rd" and ?bs = "map slot_buf (rd_slots rd)" and ?n = "length ds"
  have ok: "slots_ok (rd_mem rd) ?slots" "list_all full_slot ?slots" "length ?slots = batch_size"
    "\<forall>t \<in> taken. slice_in (rd_mem rd) t \<and> before ?bs t" using rd by (simp_all add: udp_reader_ok_def)
  have sok: "slot_ok (rd_mem rd) s" if "s \<in> set ?slots" for s using ok(1) that by (simp add: slots_ok_def)
  have dist: "distinct (map (sl_buffer \<circ> im_data) (map rs_message ?slots))"
    using ok(1) slot_ok_data(2) [OF sok] by (simp add: slots_ok_def comp_def cong: map_cong)
  have ins: "\<forall>im \<in> set (map rs_message ?slots). slice_in (rd_mem rd) (im_data im)"
    using slot_ok_data(1) [OF sok] by auto
  note h = store_datagrams_holds [OF st ins dist]
  have len: "length ims = length ?slots" "?n \<le> length ?slots" using h by (auto dest: list_all2_lengthD)
  note sel = set_messages_sel [OF len(1)]
  have begins: "sl_begin (im_data (rs_message s)) = sl_begin (slot_buf s)" if "s \<in> set ?slots" for s
    using sok [OF that] by (auto simp: slot_ok_def slot_buf_def)
  have kept1: "kept ?bs (rd_mem rd) m1"
    using h begins slot_ok_data(2) [OF sok] by (fastforce simp: kept_def)
  have ok1: "slots_ok m1 (set_messages ?slots ims)"
    using set_messages_slots_ok [OF ok(1) kept1] h by blast
  have full1: "list_all full_slot (drop ?n (set_messages ?slots ims))"
  proof -
    have "map rs_message (drop ?n (set_messages ?slots ims)) = map rs_message (drop ?n ?slots)"
      using h sel(2) by (simp flip: drop_map)
    moreover have "list_all full_slot (drop ?n ?slots)" using ok(2) by (auto simp: list_all_iff dest: in_set_dropD)
    moreover have "list_all full_slot xs = list_all (\<lambda>im. sl_size (im_data im) = 2048) (map rs_message xs)" for xs
      by (simp add: list_all_iff full_slot_def)
    ultimately show ?thesis by metis
  qed
  from extract_slots_ok [OF ok1 _ full1 q] len(2) sel(3) obtain q' slots' m' us
    where ex: "extract_slots ?n m1 (set_messages ?slots ims) q = Some (q', slots', m')"
    and e: "extracted ?n m1 (set_messages ?slots ims) q q' slots' m' us" by auto
  have gr: "grown m1 m'" and um: "list_all2 um_of (take ?n ims) us"
    and bef: "\<forall>slot \<in> set (take ?n (set_messages ?slots ims)). before (map slot_buf slots') (im_data (rs_message slot))"
    and fol: "\<forall>b \<in> set (map slot_buf slots'). follows m1 ?bs b"
    using e sel by (auto simp: extracted_def simp flip: take_map)
  have new: "slice_in m1 (im_data im) \<and> before (map slot_buf slots') (im_data im)" if "im \<in> set (take ?n ims)" for im
  proof -
    have "im \<in> rs_message ` set (take ?n (set_messages ?slots ims))"
      using that sel(2) by (metis list.set_map take_map)
    then obtain slot where "slot \<in> set (take ?n (set_messages ?slots ims))" "im = rs_message slot" by blast
    thus ?thesis using bef ok1 slot_ok_data(1) in_set_takeD by (fastforce simp: slots_ok_def)
  qed
  have same: "slice_in m' t \<and> slice_bytes m' t = slice_bytes m1 t" if "slice_in m1 t" for t
    using kept_slice [OF grown_kept [OF gr, of "[]"] that] by (simp add: before_def)
  have holds: "um_holds m' (Inl d) u" if "im_holds m1 d im" "um_of im u" "im \<in> set (take ?n ims)" for d im u
    using that same new by (auto simp: um_holds_def im_holds_def um_of_def um_bytes_def)
  have hl: "list_all2 (im_holds m1) ds (take ?n ims)" using h by simp
  have "list_all2 (um_holds m') (map Inl ds) us"
  proof (rule list_all2_all_nthI)
    show "length (map Inl ds) = length us" using hl um by (auto dest!: list_all2_lengthD)
  next
    fix i assume i: "i < length (map Inl ds :: (datagram + status_error) list)"
    hence "im_holds m1 (ds ! i) (take ?n ims ! i)" using list_all2_nthD [OF hl] by simp
    moreover have l: "i < length (take ?n ims)" using i len by simp
    moreover have "um_of (take ?n ims ! i) (us ! i)" using l by (rule list_all2_nthD [OF um])
    ultimately have "um_holds m' (Inl (ds ! i)) (us ! i)" using nth_mem [OF l] holds by blast
    thus "um_holds m' (map Inl ds ! i) (us ! i)" using i by simp
  qed
  moreover have "protects rd taken \<lparr>rd_mem = m', rd_slots = slots'\<rparr> (taken \<union> um_slices us)"
  proof -
    have "slice_in m' t \<and> before (map slot_buf slots') t \<and> slice_bytes m' t = slice_bytes (rd_mem rd) t" if "t \<in> taken" for t
      using kept_slice [OF kept1, of t] ok(4) that same before_follows [of ?bs t m1] fol by auto
    moreover have "slice_in m' t \<and> before (map slot_buf slots') t" if "t \<in> um_slices us" for t
    proof -
      from that obtain u where "u \<in> set us" "um_data u = Some t" by (auto simp: um_slices_def)
      then obtain im where "im \<in> set (take ?n ims)" "t = im_data im"
        using um by (metis list_all2_conv_all_nth in_set_conv_nth um_of_def option.inject)
      thus ?thesis using new same by blast
    qed
    ultimately show ?thesis using e len sel ok(3) by (auto simp: protects_def udp_reader_ok_def extracted_def)
  qed
  ultimately show ?thesis using ex e by (auto simp: extracted_def)
qed


lemma list_all2_Inr_single: "um_holds m x u \<Longrightarrow> list_all2 (um_holds m) [x] [u]"
  by simp

lemma process_recvmsg_error_fd:
  "process_recvmsg_error e s = Done (st, s') \<Longrightarrow> udp_fd s' = udp_fd s \<and>
    (st = None \<longleftrightarrow> e = EAGAIN) \<and> (st \<noteq> None \<longrightarrow> st = Some (recv_failed e (udp_fd s)))"
  by (auto simp: process_recvmsg_error_def split: if_splits)

lemma critical_iff: "is_critical_read_error (Some (recv_failed e fd)) \<longleftrightarrow> e \<in> {ENOMEM, ENOBUFS}"
  by (auto simp: is_critical_read_error_def status_code_def recv_failed_def PosixError_def make_error_def to_info_def
      ENOMEM_def ENOBUFS_def)

lemma skip_eintr_not: "skip_eintr rs = Done (r, rest) \<Longrightarrow> r \<noteq> Sys_errno EINTR"
  by (induction rs) (auto split: if_splits)

lemma recv_call_not_eintr: "recv_call s = Done (r, s') \<Longrightarrow> r \<noteq> Sys_errno EINTR \<and> udp_fd s' = udp_fd s"
  by (auto simp: recv_call_def dest: skip_eintr_not split: if_splits)

lemma read_once_ok:
  assumes rd: "udp_reader_ok rd taken" and q: "vq_inv q" and r: "read_once rd s q = Done (st, rd', s', q')"
  shows "\<exists>tr us. recv_used s tr s' \<and> vq_inv q' \<and> vq_as_span q' = vq_as_span q @ us \<and>
    list_all2 (um_holds (rd_mem rd')) (arrivals (udp_fd s) tr) us \<and> protects rd taken rd' (taken \<union> um_slices us)"
proof -
  let ?ims = "map rs_message (rd_slots rd)"
  have ok: "slots_ok (rd_mem rd) (rd_slots rd)" "list_all full_slot (rd_slots rd)" using rd by (simp_all add: udp_reader_ok_def)
  from r ok(2) obtain st1 cnt ims m s1 q1 slots m1 where rcv: "receive_messages_fast (rd_mem rd) ?ims s = Done (st1, cnt, ims, m, s1)"
    and ex: "extract_slots cnt m (set_messages (rd_slots rd) ims) q = Some (q1, slots, m1)"
    and fin: "(if st1 \<noteq> None \<and> \<not> is_critical_read_error st1
      then Done (None, \<lparr>rd_mem = m1, rd_slots = slots\<rparr>, s1, vq_push q1 \<lparr>um_address = new_ip_address, um_data = None, um_error = st1\<rparr>)
      else Done (st1, \<lparr>rd_mem = m1, rd_slots = slots\<rparr>, s1, q1)) = Done (st, rd', s', q')"
    by (auto simp: read_once_def of_check_Done Let_def)
  from rcv show ?thesis
  proof (cases rule: receive_messages_fast_cases)
    case (received ds)
    from recv_call_used [OF received(1)] obtain tr where tr: "recv_used s tr s1" "\<forall>fd. arrivals fd tr = map Inl ds"
      by (auto simp: arrive_def)
    from read_datagrams [OF rd q received(2)] ex received(4) obtain us where
      us: "vq_inv q1" "vq_as_span q1 = vq_as_span q @ us" "list_all2 (um_holds m1) (map Inl ds) us"
      "protects rd taken \<lparr>rd_mem = m1, rd_slots = slots\<rparr> (taken \<union> um_slices us)" by auto
    thus ?thesis using tr fin received(3) by auto
  next
    case (failed e s2)
    have "ims = map rs_message (rd_slots rd)" using failed by simp
    hence "set_messages (rd_slots rd) ims = rd_slots rd"
      by (simp add: set_messages_def zip_map2 zip_same_conv_map comp_def)
    hence e: "slots = rd_slots rd" "m1 = rd_mem rd" "q1 = q" using ex failed ok(2) by simp_all
    from recv_call_used [OF failed(1)] obtain tr where tr: "recv_used s tr s2" "\<forall>fd. arrivals fd tr = arrive fd (Sys_errno e)"
      by blast
    have used: "recv_used s tr s1"
      using tr(1) process_recvmsg_error_same [OF failed(2)] process_recvmsg_error_fd [OF failed(2)]
      by (simp add: recv_used_def)
    have fd: "udp_fd s2 = udp_fd s" and ne: "e \<noteq> EINTR" using recv_call_not_eintr [OF failed(1)] by auto
    note pe = process_recvmsg_error_fd [OF failed(2)]
    have "rd' = \<lparr>rd_mem = rd_mem rd, rd_slots = rd_slots rd\<rparr>" using fin e by (auto split: if_splits)
    hence "rd' = rd" by (cases rd) simp
    hence pr: "protects rd taken rd' taken" using protects_refl [OF rd] by simp
    show ?thesis
    proof (cases "st1 \<noteq> None \<and> \<not> is_critical_read_error st1")
      case True
      with pe fd have st1: "st1 = Some (recv_failed e (udp_fd s))" by simp
      let ?u = "\<lparr>um_address = new_ip_address, um_data = None, um_error = st1\<rparr>"
      have "arrivals (udp_fd s) tr = [Inr (recv_failed e (udp_fd s))]"
        using tr(2) True pe ne critical_iff [of e "udp_fd s"] st1 by (auto simp: arrive_def)
      moreover have "um_holds m1 (Inr (recv_failed e (udp_fd s))) ?u" by (simp add: um_holds_def um_bytes_def st1)
      moreover have "um_slices [?u] = {}" by (simp add: um_slices_def)
      ultimately show ?thesis using used True fin e q pr
        by (intro exI [of _ tr] exI [of _ "[?u]"]) (auto simp: vq_push_simps)
    next
      case False
      hence "arrivals (udp_fd s) tr = []"
        using tr(2) pe critical_iff [of e "udp_fd s2"] by (auto simp: arrive_def)
      thus ?thesis using used False fin e q pr
        by (intro exI [of _ tr] exI [of _ "[]"]) (auto simp: um_slices_def)
    qed
  qed
qed

lemma udp_receive_ok:
  assumes rd: "udp_reader_ok rd taken" and q: "vq_inv (bu_input b)" and r: "udp_receive rd b = Done (r, rd', b')"
  shows "\<exists>tr us. recv_used (bu_socket b) tr (bu_socket b') \<and> vq_inv (bu_input b') \<and>
    (case r of Inr (Some u) \<Rightarrow> [u] | _ \<Rightarrow> []) @ vq_as_span (bu_input b') = vq_as_span (bu_input b) @ us \<and>
    list_all2 (um_holds (rd_mem rd')) (arrivals (udp_fd (bu_socket b)) tr) us \<and> protects rd taken rd' (taken \<union> um_slices us)"
proof -
  from r obtain st rd1 b1 where
    fl: "(if vq_empty (bu_input b) \<and> can_read_local (udp_flags (bu_socket b))
      then flush_read_once rd b else Done (None, rd, b)) = Done (st, rd1, b1)"
    and rest: "(case st of Some e \<Rightarrow> Done (Inl e, rd1, b1)
      | None \<Rightarrow> run_bind (pop_input b1) (\<lambda>(u, b). Done (Inr u, rd1, b))) = Done (r, rd', b')"
    by (auto simp: udp_receive_def)
  have "\<exists>tr us. recv_used (bu_socket b) tr (bu_socket b1) \<and> vq_inv (bu_input b1) \<and>
    vq_as_span (bu_input b1) = vq_as_span (bu_input b) @ us \<and>
    list_all2 (um_holds (rd_mem rd1)) (arrivals (udp_fd (bu_socket b)) tr) us \<and> protects rd taken rd1 (taken \<union> um_slices us)"
  proof (cases "vq_empty (bu_input b) \<and> can_read_local (udp_flags (bu_socket b))")
    case True
    with fl obtain s1 q1 where "read_once rd (bu_socket b) (bu_input b) = Done (st, rd1, s1, q1)"
      and b1: "b1 = b\<lparr>bu_socket := s1, bu_input := q1\<rparr>"
      by (auto simp: flush_read_once_def)
    from read_once_ok [OF rd q this(1)] b1 show ?thesis by simp
  next
    case False
    have "arrivals fd [] = []" for fd by (simp add: arrivals_def)
    thus ?thesis using fl False q protects_refl [OF rd]
      by (intro exI [of _ "[]"]) (auto simp: um_slices_def split: if_splits)
  qed
  then obtain tr us where t: "recv_used (bu_socket b) tr (bu_socket b1)" "vq_inv (bu_input b1)"
    "vq_as_span (bu_input b1) = vq_as_span (bu_input b) @ us"
    "list_all2 (um_holds (rd_mem rd1)) (arrivals (udp_fd (bu_socket b)) tr) us" "protects rd taken rd1 (taken \<union> um_slices us)"
    by blast
  have "(case r of Inr (Some u) \<Rightarrow> [u] | _ \<Rightarrow> []) @ vq_as_span (bu_input b') = vq_as_span (bu_input b1) \<and>
    vq_inv (bu_input b') \<and> rd' = rd1 \<and> bu_socket b' = bu_socket b1"
  proof (cases st)
    case (Some e)
    thus ?thesis using rest t(2) by auto
  next
    case None
    show ?thesis
    proof (cases "vq_as_span (bu_input b1)")
      case Nil
      thus ?thesis using rest None t(2)
        by (auto simp: pop_input_def vq_empty_def simp flip: length_vq_as_span)
    next
      case (Cons u xs)
      thus ?thesis using rest None t(2) vq_pop_Cons [OF Cons]
        by (auto simp: pop_input_def vq_empty_def simp flip: length_vq_as_span)
    qed
  qed
  thus ?thesis using t by auto
qed

text \<open>Several sockets of a thread share its reader. A run receives from the sockets in any order.\<close>

fun receive_run :: "nat list \<Rightarrow> udp_reader \<Rightarrow> udp list \<Rightarrow> ((nat \<times> udp_message) list \<times> udp_reader \<times> udp list) run" where
  "receive_run [] rd bs = Done ([], rd, bs)"
| "receive_run (i # is) rd bs =
     run_bind (udp_receive rd (bs ! i)) (\<lambda>(r, rd, b).
       run_bind (receive_run is rd (bs[i := b])) (\<lambda>(us, rd, bs).
         Done ((case r of Inr (Some u) \<Rightarrow> [(i, u)] | _ \<Rightarrow> []) @ us, rd, bs)))"

definition received_by :: "nat \<Rightarrow> (nat \<times> udp_message) list \<Rightarrow> udp_message list" where
  "received_by i us = map snd (filter (\<lambda>p. fst p = i) us)"

text \<open>What a run keeps for each of its sockets.\<close>

definition run_keeps :: "nat \<Rightarrow> memory \<Rightarrow> mem_slice set \<Rightarrow> udp \<Rightarrow> udp_message list \<Rightarrow> udp \<Rightarrow> bool" where
  "run_keeps i m taken b out b' \<longleftrightarrow> (\<exists>tr us. recv_used (bu_socket b) tr (bu_socket b') \<and>
     out @ vq_as_span (bu_input b') = vq_as_span (bu_input b) @ us \<and>
     list_all2 (um_holds m) (arrivals (udp_fd (bu_socket b)) tr) us \<and> um_slices us \<subseteq> taken)"

lemma arrivals_append: "arrivals fd (tr @ tr') = arrivals fd tr @ arrivals fd tr'"
  by (simp add: arrivals_def)

lemma receive_run_ok:
  assumes "udp_reader_ok rd taken" "\<forall>b \<in> set bs. vq_inv (bu_input b)" "\<forall>i \<in> set is. i < length bs"
    and "receive_run is rd bs = Done (us, rd', bs')"
  shows "length bs' = length bs \<and> (\<exists>taken'. protects rd taken rd' taken' \<and>
    (\<forall>i < length bs. run_keeps i (rd_mem rd') taken' (bs ! i) (received_by i us) (bs' ! i)))"
  using assms
proof (induction "is" arbitrary: rd taken bs us)
  case Nil
  have "run_keeps i (rd_mem rd) taken b [] b" for i b
    unfolding run_keeps_def by (intro exI [of _ "[]"]) (simp add: arrivals_def um_slices_def)
  thus ?case using Nil.prems protects_refl [OF Nil.prems(1)] by (auto simp: received_by_def intro!: exI [of _ taken])
next
  case (Cons j js)
  from Cons.prems(4) obtain r rd1 b1 us1 where r: "udp_receive rd (bs ! j) = Done (r, rd1, b1)"
    and more: "receive_run js rd1 (bs[j := b1]) = Done (us1, rd', bs')"
    and us: "us = (case r of Inr (Some u) \<Rightarrow> [(j, u)] | _ \<Rightarrow> []) @ us1"
    by auto
  have j: "j < length bs" using Cons.prems(3) by simp
  have qj: "vq_inv (bu_input (bs ! j))" using Cons.prems(2) j by simp
  from udp_receive_ok [OF Cons.prems(1) qj r] obtain tr vs where
    one: "recv_used (bu_socket (bs ! j)) tr (bu_socket b1)" "vq_inv (bu_input b1)"
    "(case r of Inr (Some u) \<Rightarrow> [u] | _ \<Rightarrow> []) @ vq_as_span (bu_input b1) = vq_as_span (bu_input (bs ! j)) @ vs"
    "list_all2 (um_holds (rd_mem rd1)) (arrivals (udp_fd (bu_socket (bs ! j))) tr) vs"
    "protects rd taken rd1 (taken \<union> um_slices vs)" by blast
  have inv: "\<forall>b \<in> set (bs[j := b1]). vq_inv (bu_input b)"
    using Cons.prems(2) one(2) set_update_subset_insert [of bs j b1] by blast
  have ok1: "udp_reader_ok rd1 (taken \<union> um_slices vs)" using one(5) by (simp add: protects_def)
  from Cons.IH [OF ok1 inv _ more] Cons.prems(3) obtain taken' where
    ih: "length bs' = length bs" "protects rd1 (taken \<union> um_slices vs) rd' taken'"
    "\<forall>i < length bs. run_keeps i (rd_mem rd') taken' (bs[j := b1] ! i) (received_by i us1) (bs' ! i)" by auto
  have "run_keeps i (rd_mem rd') taken' (bs ! i) (received_by i us) (bs' ! i)" if i: "i < length bs" for i
  proof (cases "i = j")
    case False
    hence "received_by i us = received_by i us1" by (simp add: us received_by_def split: sum.splits option.splits)
    thus ?thesis using ih(3) i False by (metis nth_list_update_neq)
  next
    case True
    have "received_by j us = (case r of Inr (Some u) \<Rightarrow> [u] | _ \<Rightarrow> []) @ received_by j us1"
      by (simp add: us received_by_def split: sum.splits option.splits)
    moreover from ih(3) i True j obtain tr' ws where w: "recv_used (bu_socket b1) tr' (bu_socket (bs' ! j))"
      "received_by j us1 @ vq_as_span (bu_input (bs' ! j)) = vq_as_span (bu_input b1) @ ws"
      "list_all2 (um_holds (rd_mem rd')) (arrivals (udp_fd (bu_socket b1)) tr') ws" "um_slices ws \<subseteq> taken'"
      by (auto simp: run_keeps_def)
    moreover have "udp_fd (bu_socket b1) = udp_fd (bu_socket (bs ! j))" using one(1) by (simp add: recv_used_def)
    moreover have "list_all2 (um_holds (rd_mem rd')) (arrivals (udp_fd (bu_socket (bs ! j))) tr) vs"
      by (rule um_holds_all_protected [OF one(4) _ ih(2)]) simp
    moreover have "um_slices vs \<subseteq> taken'" using ih(2) by (simp add: protects_def)
    moreover have "um_slices (vs @ ws) = um_slices vs \<union> um_slices ws" by (auto simp: um_slices_def)
    ultimately have "recv_used (bu_socket (bs ! j)) (tr @ tr') (bu_socket (bs' ! j))"
      "received_by j us @ vq_as_span (bu_input (bs' ! j)) = vq_as_span (bu_input (bs ! j)) @ vs @ ws"
      "list_all2 (um_holds (rd_mem rd')) (arrivals (udp_fd (bu_socket (bs ! j))) (tr @ tr')) (vs @ ws)"
      "um_slices (vs @ ws) \<subseteq> taken'"
      using recv_used_trans [OF one(1)] one(3) by (auto simp: arrivals_append intro: list_all2_appendI)
    thus ?thesis unfolding run_keeps_def True by blast
  qed
  thus ?case using ih(1) protects_trans [OF one(5) ih(2)] by blast
qed

text \<open>C4: sockets that share a reader receive every datagram once and in order, with its bytes, error
  and address: in any run, what a socket has returned and what is still in its queue are the
  deliveries of the system to it, and all of them still hold the bytes that arrived after the
  last call, although the reader goes on to let the system write into the same buffers.\<close>

theorem received_datagrams_intact:
  assumes "new_udp_reader m = Some rd" "receive_run is rd (map new_udp ss) = Done (us, rd', bs')"
    and "\<forall>i \<in> set is. i < length ss" "i < length ss"
  shows "\<exists>tr. recv_used (ss ! i) tr (bu_socket (bs' ! i)) \<and>
    list_all2 (um_holds (rd_mem rd')) (arrivals (udp_fd (ss ! i)) tr) (received_by i us @ vq_as_span (bu_input (bs' ! i)))"
proof -
  have ok: "udp_reader_ok rd {t. slice_in m t}" using new_udp_reader_ok [of m] assms(1) by auto
  have "vq_as_span vq_new = ([] :: udp_message list)" "vq_inv (vq_new :: udp_message vqueue)"
    by (simp_all add: vq_as_span_def vq_new_def vq_inv_def)
  with receive_run_ok [OF ok _ _ assms(2)] assms(3,4) show ?thesis
    by (fastforce simp: new_udp_def run_keeps_def)
qed


text \<open>The reader fails no check: where the system keeps its contract, a read returns.\<close>

definition dg_fits :: "datagram \<Rightarrow> bool" where
  "dg_fits d \<longleftrightarrow> length (dg_bytes d) \<le> MAX_PACKET_SIZE \<and> dg_namelen d = sockaddr_size (dg_name d)"

lemma init_sockaddr_total: "\<exists>st a'. init_sockaddr addr a = Some (st, a')"
  by (auto simp: init_sockaddr_def init_sockaddr_len_def split: sock_addr.splits)

lemma store_datagram_total:
  assumes "dg_fits d" "sl_size (im_data im) = MAX_PACKET_SIZE"
  shows "\<exists>im' m'. store_datagram d m im = Some (im', m')"
proof (cases "dg_errors d = []")
  case True
  obtain st a where "init_sockaddr_len (dg_name d) (dg_namelen d) (im_from im) = Some (st, a)"
    using assms(1) init_sockaddr_total [of "dg_name d" "im_from im"] by (auto simp: dg_fits_def init_sockaddr_def)
  thus ?thesis using assms True by (auto simp: store_datagram_def from_native_def dg_fits_def Let_def)
next
  case False
  obtain e addr where "last (dg_errors d) = (e, addr)" by fastforce
  moreover obtain st a where "init_sockaddr addr new_ip_address = Some (st, a)" using init_sockaddr_total by blast
  ultimately show ?thesis using assms False by (auto simp: store_datagram_def from_native_def dg_fits_def)
qed

lemma store_datagrams_total:
  "\<forall>d \<in> set ds. dg_fits d \<Longrightarrow> \<forall>im \<in> set ims. sl_size (im_data im) = MAX_PACKET_SIZE \<Longrightarrow> length ds \<le> length ims \<Longrightarrow>
    \<exists>ims' m'. store_datagrams ds m ims = Some (ims', m')"
proof (induction ds m ims rule: store_datagrams.induct)
  case (3 d ds m im ims)
  then obtain im1 m1 where "store_datagram d m im = Some (im1, m1)" using store_datagram_total by fastforce
  with 3 show ?case by fastforce
qed simp_all

lemma read_once_total:
  assumes "udp_reader_ok rd taken" "vq_inv q" "recv_call s = Done (Sys_ok ds, s1)"
    and "\<forall>d \<in> set ds. dg_fits d" "length ds \<le> batch_size"
  shows "\<exists>rd' q'. read_once rd s q = Done (None, rd', s1, q')"
proof -
  have full: "list_all full_slot (rd_slots rd)" "length (rd_slots rd) = batch_size"
    using assms(1) by (simp_all add: udp_reader_ok_def)
  hence "\<forall>im \<in> set (map rs_message (rd_slots rd)). sl_size (im_data im) = MAX_PACKET_SIZE"
    by (auto simp: list_all_iff full_slot_def MAX_PACKET_SIZE_def)
  from store_datagrams_total [OF assms(4) this, of "rd_mem rd"] assms(5) full(2)
  obtain ims m1 where st: "store_datagrams ds (rd_mem rd) (map rs_message (rd_slots rd)) = Some (ims, m1)" by auto
  from read_datagrams [OF assms(1,2) st] obtain q' slots' m'
    where "extract_slots (length ds) m1 (set_messages (rd_slots rd) ims) q = Some (q', slots', m')" by blast
  thus ?thesis using st full assms(3,5) by (simp add: read_once_def receive_messages_fast_def Let_def)
qed

lemma pop_input_total: "\<exists>u b'. pop_input b = Done (u, b')"
proof (cases "vq_as_span (bu_input b)")
  case Nil
  thus ?thesis by (simp add: pop_input_def vq_empty_def flip: length_vq_as_span)
next
  case (Cons u xs)
  from vq_pop_Cons [OF Cons] show ?thesis
    by (cases "vq_empty (bu_input b)") (auto simp: pop_input_def)
qed

definition sample_datagram :: datagram where
  "sample_datagram = \<lparr>dg_errors = [], dg_name = Sockaddr_in 53 ''abcd'', dg_namelen = 16, dg_trunc = False, dg_bytes = ''hello''\<rparr>"

definition sample_udp_socket :: "datagram list sys list \<Rightarrow> nat sys list \<Rightarrow> udp_socket" where
  "sample_udp_socket recvs sends = \<lparr>udp_fd = 3, udp_flags = \<lparr>to_write = 0, pf_flags = flag_Write OR flag_Read\<rparr>,
     os_recvs = recvs, os_errqueue = [], os_sends = sends, os_pending = [], udp_sent = []\<rparr>"

theorem received_datagrams_intact_witness:
  "\<exists>rd us rd' bs' tr. new_udp_reader [] = Some rd \<and>
    receive_run [0] rd (map new_udp [sample_udp_socket [Sys_ok [sample_datagram]] []]) = Done (us, rd', bs') \<and>
    list_all2 (um_holds (rd_mem rd')) (arrivals 3 tr) (received_by 0 us @ vq_as_span (bu_input (bs' ! 0))) \<and>
    recv_used (sample_udp_socket [Sys_ok [sample_datagram]] []) tr (bu_socket (bs' ! 0))"
proof -
  let ?s = "sample_udp_socket [Sys_ok [sample_datagram]] []"
  obtain rd where rd: "new_udp_reader [] = Some rd" "udp_reader_ok rd {t. slice_in [] t}" using new_udp_reader_ok by blast
  have fl: "\<not> has_pending_error (pf_flags (udp_flags ?s))" "can_read_local (udp_flags ?s)" by code_simp+
  have call: "recv_call ?s = Done (Sys_ok [sample_datagram], ?s\<lparr>os_recvs := []\<rparr>)"
    using fl(1) by (simp add: recv_call_def) (simp add: sample_udp_socket_def)
  have q: "vq_inv (vq_new :: udp_message vqueue)" "vq_empty (vq_new :: udp_message vqueue)"
    by (simp_all add: vq_new_def vq_inv_def vq_empty_def vq_size_def)
  have "\<forall>d \<in> set [sample_datagram]. dg_fits d"
    by (simp add: dg_fits_def sample_datagram_def MAX_PACKET_SIZE_def sockaddr_size_def)
  from read_once_total [OF rd(2) q(1) call this]
  obtain rd' q' where r: "read_once rd ?s vq_new = Done (None, rd', ?s\<lparr>os_recvs := []\<rparr>, q')"
    by (auto simp: batch_size_def)
  obtain u b' where p: "pop_input \<lparr>bu_socket = ?s\<lparr>os_recvs := []\<rparr>, bu_input = q', bu_output = vq_new\<rparr> = Done (u, b')"
    using pop_input_total by blast
  have "udp_receive rd (new_udp ?s) = Done (Inr u, rd', b')"
    using r q(2) fl(2) p by (simp add: udp_receive_def flush_read_once_def new_udp_def)
  hence "\<exists>us bs'. receive_run [0] rd (map new_udp [?s]) = Done (us, rd', bs')" by simp
  then obtain us bs' where run: "receive_run [0] rd (map new_udp [?s]) = Done (us, rd', bs')" by blast
  from received_datagrams_intact [OF rd(1) run, of 0] rd(1) run show ?thesis
    by (fastforce simp: sample_udp_socket_def)
qed

definition sample_udp :: udp where
  "sample_udp =
     (let u = \<lparr>um_address = \<lparr>ip_valid = True, ip_addr = Sockaddr_in 53 ''abcd''\<rparr>,
            um_data = Some \<lparr>sl_buffer = 0, sl_begin = 1, sl_size = 2\<rparr>, um_error = None\<rparr>
      in udp_send u (udp_send u (udp_send u
        (new_udp (sample_udp_socket [] [Sys_ok 1, Sys_errno EINTR, Sys_errno EMSGSIZE])))))"

theorem flush_send_in_order_witness:
  "\<exists>n d st b'. flush_send [''hello''] sample_udp = Done (st, b') \<and> flushed [''hello''] n d st sample_udp b' \<and> st \<noteq> None"
proof -
  have q: "vq_inv (bu_output sample_udp)" by code_simp
  have "(case flush_send [''hello''] sample_udp of Done (Some e, b') \<Rightarrow> True | _ \<Rightarrow> False)" by code_simp
  then obtain e b' where "flush_send [''hello''] sample_udp = Done (Some e, b')"
    by (auto split: run.splits option.splits)
  from flush_send_in_order [OF this q] this show ?thesis by blast
qed

end
