(* ===== verification/SlotContainer.thy ===== *)
theory SlotContainer
  imports Prelude
begin

unbundle bit_operations_syntax

text \<open>
  The table of slots with generations of \<^verbatim>\<open>utils/Container.h\<close>. An identifier is 64 bits: the
  number of a slot and its generation, whose low byte is a type that the caller chooses. A
  slot gets a new generation whenever its object is released, so that identifiers of
  released objects are recognised; a slot whose generation overflows is not used again.
  The value that \<^verbatim>\<open>DataT()\<close> makes is an argument.
\<close>

subsection \<open>The table\<close>

record 'a slot =
  generation :: uint32
  slot_data :: 'a

record 'a container =
  slots :: "'a slot list"
  empty_slots :: "nat list"

definition new_container :: "'a container" where
  "new_container = \<lparr>slots = [], empty_slots = []\<rparr>"

definition GENERATION_STEP :: uint32 where "GENERATION_STEP = push_bit 8 1"
definition TYPE_MASK :: uint32 where "TYPE_MASK = push_bit 8 1 - 1"

definition encode_id :: "'a container \<Rightarrow> nat \<Rightarrow> uint64" where
  "encode_id c i = push_bit 32 (of_nat i) OR ucast (generation (slots c ! i))"

text \<open>\<open>None\<close> is \<open>- 1\<close>; the size of the vector is cast to an \<^verbatim>\<open>int32\<close>.\<close>

definition decode_id :: "'a container \<Rightarrow> uint64 \<Rightarrow> nat option" where
  "decode_id c key =
     (let slot_id = sint (ucast (drop_bit 32 key) :: uint32); gen = ucast key :: uint32 in
      if slot_id < 0 \<or> slot_id \<ge> sint (of_nat (length (slots c)) :: uint32) then None
      else if gen \<noteq> generation (slots c ! nat slot_id) then None
      else Some (nat slot_id))"

definition container_get :: "'a container \<Rightarrow> uint64 \<Rightarrow> 'a option" where
  "container_get c key = map_option (\<lambda>i. slot_data (slots c ! i)) (decode_id c key)"

definition container_store :: "'a \<Rightarrow> 8 word \<Rightarrow> 'a container \<Rightarrow> (nat \<times> 'a container) option" where
  "container_store d type c =
     (if empty_slots c \<noteq> [] then
        let pos = last (empty_slots c); g = generation (slots c ! pos) in
        Some (pos, c\<lparr>empty_slots := butlast (empty_slots c),
          slots := (slots c)[pos := \<lparr>generation = g XOR ((g AND TYPE_MASK) XOR ucast type), slot_data = d\<rparr>]\<rparr>)
      else if length (slots c) \<le> 2 ^ 31 - 1
      then Some (length (slots c), c\<lparr>slots := slots c @ [\<lparr>generation = GENERATION_STEP + ucast type, slot_data = d\<rparr>]\<rparr>)
      else None)"

definition inc_generation :: "nat \<Rightarrow> 'a container \<Rightarrow> 'a container" where
  "inc_generation i c = c\<lparr>slots := (slots c)[i := (slots c ! i)\<lparr>generation := generation (slots c ! i) + GENERATION_STEP\<rparr>]\<rparr>"

definition release :: "'a \<Rightarrow> nat \<Rightarrow> 'a container \<Rightarrow> 'a container" where
  "release d0 i c =
     (let c = inc_generation i c;
          c = c\<lparr>slots := (slots c)[i := (slots c ! i)\<lparr>slot_data := d0\<rparr>]\<rparr>
      in if generation (slots c ! i) AND NOT TYPE_MASK \<noteq> 0 then c\<lparr>empty_slots := empty_slots c @ [i]\<rparr> else c)"

definition container_erase :: "'a \<Rightarrow> uint64 \<Rightarrow> 'a container \<Rightarrow> 'a container" where
  "container_erase d0 key c = (case decode_id c key of None \<Rightarrow> c | Some i \<Rightarrow> release d0 i c)"

definition container_extract :: "'a \<Rightarrow> uint64 \<Rightarrow> 'a container \<Rightarrow> ('a \<times> 'a container) option" where
  "container_extract d0 key c = map_option (\<lambda>i. (slot_data (slots c ! i), release d0 i c)) (decode_id c key)"

definition container_create :: "'a \<Rightarrow> 8 word \<Rightarrow> 'a container \<Rightarrow> (uint64 \<times> 'a container) option" where
  "container_create d type c = map_option (\<lambda>(i, c). (encode_id c i, c)) (container_store d type c)"

definition reset_id :: "uint64 \<Rightarrow> 'a container \<Rightarrow> (uint64 \<times> 'a container) option" where
  "reset_id key c = map_option (\<lambda>i. let c = inc_generation i c in (encode_id c i, c)) (decode_id c key)"

definition type_from_id :: "uint64 \<Rightarrow> 8 word" where
  "type_from_id key = ucast key"

definition container_ids :: "'a container \<Rightarrow> uint64 list" where
  "container_ids c = map (encode_id c) (filter (\<lambda>i. i \<notin> set (empty_slots c)) [0..<length (slots c)])"

definition container_size :: "'a container \<Rightarrow> nat option" where
  "container_size c =
     (if length (empty_slots c) \<le> length (slots c) then Some (length (slots c) - length (empty_slots c)) else None)"

definition container_for_each :: "'a container \<Rightarrow> (uint64 \<times> 'a) list option" where
  "container_for_each c =
     those (map (\<lambda>key. map_option (Pair key) (container_get c key)) (container_ids c))"

subsection \<open>Identifiers and generations\<close>

definition id_of :: "nat \<Rightarrow> uint32 \<Rightarrow> uint64" where
  "id_of i g = push_bit 32 (of_nat i) OR ucast g"

lemma id_of_parts:
  "i < 2 ^ 31 \<Longrightarrow> (ucast (drop_bit 32 (id_of i g)) :: uint32) = of_nat i"
  "(ucast (id_of i g) :: uint32) = g"
proof -
  assume i: "i < 2 ^ 31"
  show "(ucast (drop_bit 32 (id_of i g)) :: uint32) = of_nat i"
    by (rule bit_word_eqI) (auto simp: id_of_def bit_simps dest: bit_imp_le_length)
next
  show "(ucast (id_of i g) :: uint32) = g"
    by (rule bit_word_eqI) (auto simp: id_of_def bit_simps)
qed

lemma sint_of_nat: "i < 2 ^ 31 \<Longrightarrow> sint (of_nat i :: uint32) = int i"
  by (simp add: signed_of_nat signed_take_bit_int_eq_self)

lemma decode_id_of:
  assumes "i < 2 ^ 31" "length (slots c) < 2 ^ 31"
  shows "decode_id c (id_of i g) = (if i < length (slots c) \<and> g = generation (slots c ! i) then Some i else None)"
  using assms by (auto simp: decode_id_def id_of_parts sint_of_nat Let_def)

lemma id_of_inj: "id_of i g = id_of j h \<Longrightarrow> i < 2 ^ 31 \<Longrightarrow> j < 2 ^ 31 \<Longrightarrow> i = j \<and> g = h"
proof -
  assume e: "id_of i g = id_of j h" "i < 2 ^ 31" "j < 2 ^ 31"
  have "of_nat i = (of_nat j :: uint32)" using e id_of_parts(1) by metis
  hence "sint (of_nat i :: uint32) = sint (of_nat j :: uint32)" by simp
  hence "i = j" using e(2,3) by (simp add: signed_of_nat signed_take_bit_int_eq_self)
  moreover have "g = h" using e(1) id_of_parts(2) by metis
  ultimately show ?thesis by simp
qed

text \<open>The part of a generation that counts.\<close>

definition epoch :: "uint32 \<Rightarrow> nat" where
  "epoch g = unat g div 256"

lemma epoch_step: "epoch (g + GENERATION_STEP) = (epoch g + 1) mod 2 ^ 24"
proof -
  have "unat (g + GENERATION_STEP) = (unat g + 256) mod 2 ^ 32" by (simp add: GENERATION_STEP_def unat_word_ariths)
  moreover have "(x + 256) mod 2 ^ 32 div 256 = (x div 256 + 1) mod 2 ^ 24" for x :: nat
  proof -
    have "(x + 256) mod (256 * 2 ^ 24) div 256 = (x + 256) div 256 mod 2 ^ 24" unfolding mod_mult2_eq by simp
    thus ?thesis by (simp add: div_add_self2)
  qed
  ultimately show ?thesis by (simp add: epoch_def)
qed

lemma epoch_drop: "epoch g = unat (drop_bit 8 g)"
  by (simp add: epoch_def unat_drop_bit_eq drop_bit_eq_div unat_div)

lemma TYPE_MASK_mask: "TYPE_MASK = mask 8"
  by (simp add: TYPE_MASK_def mask_eq_exp_minus_1)

lemma epoch_type: "epoch (g XOR ((g AND TYPE_MASK) XOR ucast (ty :: 8 word))) = epoch g"
proof -
  have "drop_bit 8 (g XOR ((g AND TYPE_MASK) XOR ucast ty)) = drop_bit 8 g"
    by (rule bit_word_eqI) (auto simp: bit_simps TYPE_MASK_mask dest: bit_imp_le_length)
  thus ?thesis by (simp add: epoch_drop)
qed

lemma epoch_new: "epoch (GENERATION_STEP + ucast (ty :: 8 word)) = 1"
proof -
  have "unat ty < 256" using unsigned_less [of ty, where 'a = nat] by simp
  hence "unat (ucast ty :: uint32) < 256" by (simp add: unsigned_ucast_eq take_bit_nat_eq_self)
  thus ?thesis by (simp add: epoch_def GENERATION_STEP_def unat_word_ariths)
qed

lemma epoch_mask: "(g AND NOT TYPE_MASK \<noteq> 0) = (epoch g \<noteq> 0)"
proof -
  have "g AND NOT TYPE_MASK = push_bit 8 (drop_bit 8 g)"
    by (rule bit_word_eqI) (auto simp: bit_simps TYPE_MASK_mask dest: bit_imp_le_length)
  moreover have "push_bit 8 (drop_bit 8 g) = 0 \<longleftrightarrow> drop_bit 8 g = 0"
  proof
    assume z: "push_bit 8 (drop_bit 8 g) = 0"
    show "drop_bit 8 g = 0"
    proof (rule bit_word_eqI)
      fix n
      have "\<not> bit (push_bit 8 (drop_bit 8 g)) (8 + n)" using z by simp
      thus "bit (drop_bit 8 g) n \<longleftrightarrow> bit (0 :: uint32) n" by (auto simp: bit_simps dest: bit_imp_le_length)
    qed
  qed simp
  ultimately show ?thesis by (simp add: epoch_drop unat_eq_0)
qed


lemma type_new: "type_from_id (id_of i (g XOR ((g AND TYPE_MASK) XOR ucast ty))) = ty"
  "type_from_id (id_of i (GENERATION_STEP + ucast ty)) = ty"
proof -
  show "type_from_id (id_of i (g XOR ((g AND TYPE_MASK) XOR ucast ty))) = ty"
    by (rule bit_word_eqI) (auto simp: type_from_id_def id_of_def TYPE_MASK_mask bit_simps)
next
  have t: "unat ty < 256" using unsigned_less [of ty, where 'a = nat] by simp
  hence u: "unat (ucast ty :: uint32) = unat ty" by (simp add: unsigned_ucast_eq take_bit_nat_eq_self)
  have s: "unat (GENERATION_STEP + ucast ty) = 256 + unat ty" using t u by (simp add: GENERATION_STEP_def unat_word_ariths)
  have "type_from_id (id_of i g) = ucast g" for g
    by (rule bit_word_eqI) (auto simp: type_from_id_def id_of_def bit_simps)
  moreover have "unat (ucast (GENERATION_STEP + ucast ty) :: 8 word) = unat ty"
    using s t by (simp add: unsigned_ucast_eq take_bit_eq_mod mod_add_self1)
  ultimately show "type_from_id (id_of i (GENERATION_STEP + ucast ty)) = ty" by (simp add: word_unat_eq_iff)
qed

subsection \<open>Handles\<close>

text \<open>What the table promises for the identifiers it has issued, in the order in which they were
  issued: each belongs to its object until that is released, and to none afterwards.\<close>

definition entry_ok :: "'a container \<Rightarrow> uint64 \<Rightarrow> 'a option \<Rightarrow> bool" where
  "entry_ok c key x \<longleftrightarrow> (\<exists>i g. key = id_of i g \<and> i < length (slots c) \<and> epoch g \<noteq> 0 \<and>
     (case x of
        Some d \<Rightarrow> slots c ! i = \<lparr>generation = g, slot_data = d\<rparr> \<and> i \<notin> set (empty_slots c)
      | None \<Rightarrow> epoch g < epoch (generation (slots c ! i)) \<or> epoch (generation (slots c ! i)) = 0))"

definition container_inv :: "'a container \<Rightarrow> uint64 list \<Rightarrow> 'a option list \<Rightarrow> bool" where
  "container_inv c keys xs \<longleftrightarrow> list_all2 (entry_ok c) keys xs \<and> distinct keys \<and> distinct (empty_slots c) \<and>
     length (slots c) \<le> length keys \<and>
     (\<forall>e \<in> set (empty_slots c). e < length (slots c) \<and> epoch (generation (slots c ! e)) \<noteq> 0)"

lemma container_inv_new: "container_inv new_container [] []"
  by (simp add: container_inv_def new_container_def)

lemma entry_ok_get:
  assumes "entry_ok c key x" "length (slots c) < 2 ^ 31"
  shows "container_get c key = x"
    and "x = Some d \<Longrightarrow> \<exists>i. decode_id c key = Some i \<and> key = id_of i (generation (slots c ! i)) \<and> slot_data (slots c ! i) = d"
    and "x = None \<Longrightarrow> decode_id c key = None"
  using assms by (cases x; auto simp: entry_ok_def container_get_def decode_id_of)+

text \<open>A step that gives the slot \<open>i\<close> a generation of at least the same epoch, or retires it, keeps an
  entry that is not the live one of that slot.\<close>

lemma entry_ok_step:
  assumes "entry_ok c key x" and "x \<noteq> None \<Longrightarrow> key \<noteq> id_of i (generation (slots c ! i))"
    and "slots c' = (slots c)[i := s]" "set (empty_slots c') \<subseteq> insert i (set (empty_slots c))"
    and "epoch (generation (slots c ! i)) \<noteq> 0"
    and "epoch (generation (slots c ! i)) \<le> epoch (generation s) \<or> epoch (generation s) = 0"
  shows "entry_ok c' key x"
proof -
  from assms(1) obtain j g where k: "key = id_of j g" "j < length (slots c)" "epoch g \<noteq> 0"
    and x: "case x of
        Some d \<Rightarrow> slots c ! j = \<lparr>generation = g, slot_data = d\<rparr> \<and> j \<notin> set (empty_slots c)
      | None \<Rightarrow> epoch g < epoch (generation (slots c ! j)) \<or> epoch (generation (slots c ! j)) = 0"
    by (auto simp: entry_ok_def)
  have "j \<noteq> i" if "x \<noteq> None" using that assms(2) k(1) x by auto
  thus ?thesis unfolding entry_ok_def
    using k x assms(3-6) by (intro exI [of _ j] exI [of _ g]) (cases x; cases "j = i"; auto)
qed

lemma slot_update [simp]: "s\<lparr>generation := g, slot_data := d\<rparr> = \<lparr>generation = g, slot_data = d\<rparr>" for s :: "'a slot"
  by (cases s) simp

lemma release_inv:
  assumes inv: "container_inv c keys xs" and n: "n < length keys" "xs ! n = Some d"
    and d: "decode_id c (keys ! n) = Some i" "keys ! n = id_of i (generation (slots c ! i))" "length (slots c) < 2 ^ 31"
  shows "container_inv (release d0 i c) keys (xs[n := None])"
proof -
  let ?g = "generation (slots c ! i)" and ?s = "\<lparr>generation = generation (slots c ! i) + GENERATION_STEP, slot_data = d0\<rparr>"
  have len: "length xs = length keys" using inv by (auto simp: container_inv_def dest: list_all2_lengthD)
  have ok: "entry_ok c (keys ! m) (xs ! m)" if "m < length keys" for m
    using inv that by (auto simp: container_inv_def intro: list_all2_nthD)
  from ok [OF n(1)] n(2) obtain j g where j: "keys ! n = id_of j g" "j < length (slots c)" "epoch g \<noteq> 0"
    "generation (slots c ! j) = g" "j \<notin> set (empty_slots c)" by (auto simp: entry_ok_def)
  have i: "i < length (slots c)" "i = j"
  proof -
    have "decode_id c (keys ! n) = Some j" using j d(3) by (simp add: decode_id_of)
    thus "i = j" using d(1) by simp
    thus "i < length (slots c)" using j by simp
  qed
  have g: "epoch ?g \<noteq> 0" "i \<notin> set (empty_slots c)" using i j by simp_all
  have r: "slots (release d0 i c) = (slots c)[i := ?s]"
    "empty_slots (release d0 i c) = (if epoch (generation ?s) \<noteq> 0 then empty_slots c @ [i] else empty_slots c)"
    using i(1) by (simp_all add: release_def inc_generation_def Let_def epoch_mask)
  have up: "epoch ?g < epoch (generation ?s) \<or> epoch (generation ?s) = 0"
  proof -
    have "epoch ?g < 2 ^ 24" using unsigned_less [of ?g, where 'a = nat] by (simp add: epoch_def less_mult_imp_div_less)
    thus ?thesis by (cases "epoch ?g + 1 = 2 ^ 24") (simp_all add: epoch_step)
  qed
  have "entry_ok (release d0 i c) (keys ! m) (xs[n := None] ! m)" if m: "m < length keys" for m
  proof (cases "m = n")
    case True
    thus ?thesis unfolding entry_ok_def using r i g up d(2) len m
      by (intro exI [of _ i] exI [of _ ?g]) auto
  next
    case False
    hence "keys ! m \<noteq> keys ! n" using inv m n(1) by (simp add: container_inv_def nth_eq_iff_index_eq)
    hence "entry_ok (release d0 i c) (keys ! m) (xs ! m)"
      using up g d(2) by (intro entry_ok_step [OF ok [OF m] _ r(1)]) (auto simp: r(2))
    thus ?thesis using False by simp
  qed
  hence "list_all2 (entry_ok (release d0 i c)) keys (xs[n := None])" using len by (intro list_all2_all_nthI) simp_all
  moreover have "\<forall>e \<in> set (empty_slots (release d0 i c)). e < length (slots (release d0 i c)) \<and>
    epoch (generation (slots (release d0 i c) ! e)) \<noteq> 0"
    using inv i(1) g by (auto simp: r container_inv_def nth_list_update)
  ultimately show ?thesis using inv g by (auto simp: container_inv_def r)
qed


lemma store_reuse_inv:
  assumes inv: "container_inv c keys xs" and e: "empty_slots c \<noteq> []" and small: "length (slots c) < 2 ^ 31"
    and s: "container_store d ty c = Some (pos, c')"
  shows "container_inv c' (keys @ [encode_id c' pos]) (xs @ [Some d]) \<and> type_from_id (encode_id c' pos) = ty \<and>
    length (slots c') = length (slots c)"
proof -
  let ?g = "generation (slots c ! pos)"
  let ?s = "\<lparr>generation = ?g XOR ((?g AND TYPE_MASK) XOR ucast ty), slot_data = d\<rparr>"
  have pos: "pos = last (empty_slots c)" and c': "slots c' = (slots c)[pos := ?s]" "empty_slots c' = butlast (empty_slots c)"
    using s e by (auto simp: container_store_def Let_def)
  have mem: "pos \<in> set (empty_slots c)" using e pos by simp
  have p: "pos < length (slots c)" "epoch ?g \<noteq> 0" using inv mem by (auto simp: container_inv_def)
  have bl: "empty_slots c = butlast (empty_slots c) @ [pos]" using e pos by simp
  have d': "distinct (butlast (empty_slots c) @ [pos])" using inv bl by (metis container_inv_def)
  have out: "pos \<notin> set (empty_slots c')" "set (empty_slots c') \<subseteq> set (empty_slots c)" using d' c'(2) by (auto dest: in_set_butlastD)
  have len: "length xs = length keys" using inv by (auto simp: container_inv_def dest: list_all2_lengthD)
  have new: "encode_id c' pos = id_of pos (generation ?s)" using p c' by (simp add: encode_id_def id_of_def)
  have eg: "epoch (generation ?s) = epoch ?g" by (simp add: epoch_type)
  have ok: "entry_ok c key x" if "(key, x) \<in> set (zip keys xs)" for key x
    using inv that by (auto simp: container_inv_def list_all2_iff)
  have old: "entry_ok c' key x \<and> key \<noteq> encode_id c' pos" if "(key, x) \<in> set (zip keys xs)" for key x
  proof -
    from ok [OF that] obtain i g where i: "key = id_of i g" "i < length (slots c)"
      "case x of Some d \<Rightarrow> slots c ! i = \<lparr>generation = g, slot_data = d\<rparr> \<and> i \<notin> set (empty_slots c)
        | None \<Rightarrow> epoch g < epoch (generation (slots c ! i)) \<or> epoch (generation (slots c ! i)) = 0"
      by (auto simp: entry_ok_def)
    have live: "i \<noteq> pos" if "x \<noteq> None" using that i(3) mem by auto
    have ne: "key \<noteq> id_of pos h" if "epoch h = epoch ?g" for h
    proof
      assume "key = id_of pos h"
      with i(1,2) p(1) small have "i = pos" "g = h" using id_of_inj [of i g pos h] by auto
      with live have "x = None" by blast
      with i(3) \<open>i = pos\<close> \<open>g = h\<close> that p(2) show False by simp
    qed
    have "entry_ok c' key x"
      using ne [OF refl] p(2) eg out(2) by (intro entry_ok_step [OF ok [OF that] _ c'(1)]) auto
    thus ?thesis using ne [OF eg] new by simp
  qed
  have "entry_ok c' (encode_id c' pos) (Some d)"
    unfolding entry_ok_def new using p c' eg out by (intro exI [of _ pos] exI [of _ "generation ?s"]) simp
  moreover have "list_all2 (entry_ok c') keys xs" using old len by (auto simp: list_all2_iff)
  moreover have "encode_id c' pos \<notin> set keys"
  proof
    assume "encode_id c' pos \<in> set keys"
    then obtain m where "m < length keys" "keys ! m = encode_id c' pos" by (auto simp: in_set_conv_nth)
    hence "(encode_id c' pos, xs ! m) \<in> set (zip keys xs)" using nth_mem [of m "zip keys xs"] len by simp
    from old [OF this] show False by simp
  qed
  moreover have "distinct (empty_slots c')" using d' c'(2) by simp
  moreover have "\<forall>e \<in> set (empty_slots c'). e < length (slots c') \<and> epoch (generation (slots c' ! e)) \<noteq> 0"
  proof
    fix e assume "e \<in> set (empty_slots c')"
    with out have "e \<in> set (empty_slots c)" "e \<noteq> pos" by auto
    thus "e < length (slots c') \<and> epoch (generation (slots c' ! e)) \<noteq> 0" using inv c'(1) by (simp add: container_inv_def)
  qed
  ultimately have "container_inv c' (keys @ [encode_id c' pos]) (xs @ [Some d])"
    using inv len c' by (auto simp: container_inv_def intro!: list_all2_appendI)
  thus ?thesis using new type_new(1) c' by simp
qed

lemma store_fresh_inv:
  assumes inv: "container_inv c keys xs" and e: "empty_slots c = []" and small: "length (slots c) < 2 ^ 31"
    and s: "container_store d ty c = Some (pos, c')"
  shows "container_inv c' (keys @ [encode_id c' pos]) (xs @ [Some d]) \<and> type_from_id (encode_id c' pos) = ty \<and>
    length (slots c') = length (slots c) + 1"
proof -
  let ?s = "\<lparr>generation = GENERATION_STEP + ucast ty, slot_data = d\<rparr>"
  have pos: "pos = length (slots c)" and c': "slots c' = slots c @ [?s]" "empty_slots c' = []"
    using s e small by (auto simp: container_store_def)
  have len: "length xs = length keys" using inv by (auto simp: container_inv_def dest: list_all2_lengthD)
  have new: "encode_id c' pos = id_of pos (generation ?s)" using pos c' by (simp add: encode_id_def id_of_def)
  have old: "entry_ok c' key x \<and> key \<noteq> encode_id c' pos" if kx: "(key, x) \<in> set (zip keys xs)" for key x
  proof -
    have "entry_ok c key x" using inv kx by (auto simp: container_inv_def list_all2_iff)
    then obtain i g where i: "key = id_of i g" "i < length (slots c)" "epoch g \<noteq> 0"
      "case x of Some d \<Rightarrow> slots c ! i = \<lparr>generation = g, slot_data = d\<rparr> \<and> i \<notin> set (empty_slots c)
        | None \<Rightarrow> epoch g < epoch (generation (slots c ! i)) \<or> epoch (generation (slots c ! i)) = 0"
      by (auto simp: entry_ok_def)
    have "entry_ok c' key x" unfolding entry_ok_def
      using i c' by (intro exI [of _ i] exI [of _ g]) (auto simp: nth_append split: option.splits)
    moreover have "key \<noteq> encode_id c' pos" using id_of_inj [of i g pos] i(1,2) small pos new by auto
    ultimately show ?thesis by simp
  qed
  have "entry_ok c' (encode_id c' pos) (Some d)"
    unfolding entry_ok_def new using pos c' by (intro exI [of _ pos] exI [of _ "generation ?s"]) (simp add: epoch_new)
  moreover have "list_all2 (entry_ok c') keys xs" using old len by (auto simp: list_all2_iff)
  moreover have "encode_id c' pos \<notin> set keys"
  proof
    assume "encode_id c' pos \<in> set keys"
    then obtain m where "m < length keys" "keys ! m = encode_id c' pos" by (auto simp: in_set_conv_nth)
    hence "(encode_id c' pos, xs ! m) \<in> set (zip keys xs)" using nth_mem [of m "zip keys xs"] len by simp
    from old [OF this] show False by simp
  qed
  ultimately have "container_inv c' (keys @ [encode_id c' pos]) (xs @ [Some d])"
    using inv len c' by (auto simp: container_inv_def intro!: list_all2_appendI)
  thus ?thesis using new type_new(2) c' by simp
qed

subsection \<open>Runs\<close>

text \<open>A run may use every identifier that it was given before, by its number, also after its object
  was released. The specification is the list of the objects, by the number of their
  identifier.\<close>

datatype 'a c_op = C_create 'a "8 word" | C_get nat | C_erase nat | C_extract nat

fun c_run :: "'a \<Rightarrow> 'a c_op list \<Rightarrow> uint64 list \<Rightarrow> 'a container \<Rightarrow> ('a option list \<times> uint64 list \<times> 'a container) option" where
  "c_run d0 [] keys c = Some ([], keys, c)"
| "c_run d0 (C_create d ty # ops) keys c =
     Option.bind (container_create d ty c) (\<lambda>(key, c). c_run d0 ops (keys @ [key]) c)"
| "c_run d0 (C_get n # ops) keys c =
     map_option (\<lambda>(out, r). (container_get c (keys ! n) # out, r)) (c_run d0 ops keys c)"
| "c_run d0 (C_erase n # ops) keys c = c_run d0 ops keys (container_erase d0 (keys ! n) c)"
| "c_run d0 (C_extract n # ops) keys c =
     Option.bind (container_extract d0 (keys ! n) c) (\<lambda>(d, c).
       map_option (\<lambda>(out, r). (Some d # out, r)) (c_run d0 ops keys c))"

fun s_run :: "'a c_op list \<Rightarrow> 'a option list \<Rightarrow> ('a option list \<times> 'a option list) option" where
  "s_run [] xs = Some ([], xs)"
| "s_run (C_create d ty # ops) xs = s_run ops (xs @ [Some d])"
| "s_run (C_get n # ops) xs =
     (if n < length xs then map_option (\<lambda>(out, r). (xs ! n # out, r)) (s_run ops xs) else None)"
| "s_run (C_erase n # ops) xs = (if n < length xs then s_run ops (xs[n := None]) else None)"
| "s_run (C_extract n # ops) xs =
     (if n < length xs \<and> xs ! n \<noteq> None
      then map_option (\<lambda>(out, r). (xs ! n # out, r)) (s_run ops (xs[n := None])) else None)"

fun created_types :: "'a c_op list \<Rightarrow> 8 word list" where
  "created_types [] = []"
| "created_types (C_create d ty # ops) = ty # created_types ops"
| "created_types (_ # ops) = created_types ops"

lemma length_release [simp]: "length (slots (release d0 i c)) = length (slots c)"
  by (simp add: release_def inc_generation_def Let_def)

lemma c_run_s_run:
  assumes "container_inv c keys xs" "length keys + length ops < 2 ^ 31" "s_run ops xs = Some (out, xs')"
  shows "\<exists>keys' c'. c_run d0 ops keys c = Some (out, keys @ keys', c') \<and> container_inv c' (keys @ keys') xs' \<and>
    map type_from_id keys' = created_types ops"
  using assms
proof (induction ops arbitrary: c keys xs out)
  case Nil
  thus ?case by auto
next
  case (Cons op ops)
  note inv = Cons.prems(1)
  have len: "length xs = length keys" using inv by (auto simp: container_inv_def dest: list_all2_lengthD)
  have small: "length (slots c) < 2 ^ 31" using inv Cons.prems(2) by (simp add: container_inv_def)
  have ok: "entry_ok c (keys ! m) (xs ! m)" if "m < length keys" for m
    using inv that by (auto simp: container_inv_def intro: list_all2_nthD)
  show ?case
  proof (cases op)
    case (C_create d ty)
    have "container_store d ty c \<noteq> None" using small by (simp add: container_store_def Let_def)
    then obtain pos c1 where s: "container_store d ty c = Some (pos, c1)" by auto
    let ?key = "encode_id c1 pos"
    have i1: "container_inv c1 (keys @ [?key]) (xs @ [Some d])" "type_from_id ?key = ty"
      using store_reuse_inv [OF inv _ small s] store_fresh_inv [OF inv _ small s] by blast+
    from Cons.IH [OF i1(1)] Cons.prems C_create obtain keys' c' where
      "c_run d0 ops (keys @ [?key]) c1 = Some (out, (keys @ [?key]) @ keys', c')"
      "container_inv c' ((keys @ [?key]) @ keys') xs'" "map type_from_id keys' = created_types ops" by auto
    thus ?thesis using s i1(2) C_create
      by (intro exI [of _ "?key # keys'"] exI [of _ c']) (simp add: container_create_def)
  next
    case (C_get n)
    hence n: "n < length keys" using Cons.prems(3) len by (auto split: if_splits)
    from Cons.prems(3) C_get n len obtain out' where o: "s_run ops xs = Some (out', xs')" "out = xs ! n # out'" by auto
    from Cons.IH [OF inv _ o(1)] Cons.prems(2) show ?thesis
      using C_get o entry_ok_get(1) [OF ok [OF n] small] by fastforce
  next
    case (C_erase n)
    hence n: "n < length keys" using Cons.prems(3) len by (auto split: if_splits)
    have o: "s_run ops (xs[n := None]) = Some (out, xs')" using Cons.prems(3) C_erase n len by simp
    have "container_inv (container_erase d0 (keys ! n) c) keys (xs[n := None])"
    proof (cases "xs ! n")
      case None
      hence "xs[n := None] = xs" by (metis list_update_id)
      thus ?thesis using entry_ok_get(3) [OF ok [OF n] small None] inv by (simp add: container_erase_def)
    next
      case (Some d)
      with entry_ok_get(2) [OF ok [OF n] small Some] obtain i where
        i: "decode_id c (keys ! n) = Some i" "keys ! n = id_of i (generation (slots c ! i))" by blast
      from release_inv [OF inv n Some i small] i(1) show ?thesis by (simp add: container_erase_def)
    qed
    from Cons.IH [OF this _ o] Cons.prems(2) C_erase show ?thesis by auto
  next
    case (C_extract n)
    hence n: "n < length keys" "xs ! n \<noteq> None" using Cons.prems(3) len by (auto split: if_splits)
    then obtain d where d: "xs ! n = Some d" by blast
    with entry_ok_get(2) [OF ok [OF n(1)] small d] obtain i where
      i: "decode_id c (keys ! n) = Some i" "keys ! n = id_of i (generation (slots c ! i))" "slot_data (slots c ! i) = d" by blast
    from Cons.prems(3) C_extract n len obtain out' where
      o: "s_run ops (xs[n := None]) = Some (out', xs')" "out = xs ! n # out'" by auto
    from Cons.IH [OF release_inv [OF inv n(1) d i(1,2) small] _ o(1)] Cons.prems(2) show ?thesis
      using C_extract i d o(2) by (fastforce simp: container_extract_def)
  qed
qed

text \<open>C25: an identifier of the table belongs to its object until that is released and to none
  afterwards, although slots are used again and generations overflow: every run of fewer
  than \<open>2 ^ 31\<close> operations that uses any identifiers it was given returns what the list of
  objects returns. No identifier is issued twice, and each carries its type.\<close>

theorem container_run_refines_handles:
  assumes "s_run ops [] = Some (out, xs)" "length ops < 2 ^ 31"
  shows "\<exists>keys c. c_run d0 ops [] new_container = Some (out, keys, c) \<and> distinct keys \<and>
    map type_from_id keys = created_types ops"
proof -
  from c_run_s_run [OF container_inv_new _ assms(1), of d0] assms(2) obtain keys c where
    "c_run d0 ops [] new_container = Some (out, keys, c)" "container_inv c keys xs"
    "map type_from_id keys = created_types ops" by auto
  thus ?thesis by (auto simp: container_inv_def)
qed

theorem container_run_refines_handles_witness:
  "\<exists>keys c. c_run 0 [C_create (10::nat) 1, C_create 20 2, C_erase 0, C_create 30 3, C_get 0, C_extract 2, C_get 1] [] new_container =
      Some ([None, Some 30, Some 20], keys, c) \<and> distinct keys \<and> map type_from_id keys = [1, 2, 3]"
  using container_run_refines_handles
    [of "[C_create (10::nat) 1, C_create 20 2, C_erase 0, C_create 30 3, C_get 0, C_extract 2, C_get 1]"
      "[None, Some 30, Some 20]" "[None, Some 20, None]" 0] by simp

text \<open>A slot that is not used again still counts as an object.\<close>

lemma retired_slot_counts:
  "container_size (release 0 0 \<lparr>slots = [\<lparr>generation = 0xFFFFFF00, slot_data = (5::nat)\<rparr>], empty_slots = []\<rparr>) = Some 1"
  by code_simp

end
