(* ===== verification/DecTree.thy ===== *)
theory DecTree
  imports Prelude
begin

text \<open>
  The randomised search tree of \<^verbatim>\<open>utils/DecTree.h\<close>: a tree ordered by key, and a heap by the
  random number of each node, in which every node knows the size of its subtree. The compare
  object of the template is the order of the type of keys; \<^verbatim>\<open>Random::fast_uint32\<close> is an
  argument of the operations that call it. Sizes are below \<open>2 ^ 64\<close>, since every node is an
  object in memory.
\<close>

subsection \<open>The tree\<close>

datatype ('k, 'v) dec_tree =
    Leaf
  | Node (dt_left: "('k, 'v) dec_tree") (dt_right: "('k, 'v) dec_tree") (dt_count: nat) (dt_key: 'k) (dt_value: 'v)
      (dt_y: uint32)

definition dt_size :: "('k, 'v) dec_tree \<Rightarrow> nat" where
  "dt_size t = (case t of Leaf \<Rightarrow> 0 | Node _ _ n _ _ _ \<Rightarrow> n)"

definition relax :: "('k, 'v) dec_tree \<Rightarrow> ('k, 'v) dec_tree" where
  "relax t = (case t of Leaf \<Rightarrow> Leaf | Node l r _ k v y \<Rightarrow> Node l r (1 + dt_size l + dt_size r) k v y)"

definition create_node :: "'k \<Rightarrow> 'v \<Rightarrow> uint32 \<Rightarrow> ('k, 'v) dec_tree" where
  "create_node k v y = Node Leaf Leaf 1 k v y"

fun split_node :: "('k::linorder, 'v) dec_tree \<Rightarrow> 'k \<Rightarrow> ('k, 'v) dec_tree \<times> ('k, 'v) dec_tree" where
  "split_node Leaf key = (Leaf, Leaf)"
| "split_node (Node l r n k v y) key =
     (if key < k then let (a, b) = split_node l key in (a, relax (Node b r n k v y))
      else let (a, b) = split_node r key in (relax (Node l a n k v y), b))"

function merge_node :: "('k, 'v) dec_tree \<Rightarrow> ('k, 'v) dec_tree \<Rightarrow> ('k, 'v) dec_tree" where
  "merge_node Leaf right = right"
| "merge_node (Node l r n k v y) Leaf = Node l r n k v y"
| "merge_node (Node l r n k v y) (Node l' r' n' k' v' y') =
     (if y < y' then relax (Node (merge_node (Node l r n k v y) l') r' n' k' v' y')
      else relax (Node l (merge_node r (Node l' r' n' k' v' y')) n k v y))"
  by pat_completeness auto
termination by (relation "measure (\<lambda>(a, b). size a + size b)") simp_all

fun insert_node :: "('k::linorder, 'v) dec_tree \<Rightarrow> 'k \<Rightarrow> 'v \<Rightarrow> uint32 \<Rightarrow> ('k, 'v) dec_tree" where
  "insert_node Leaf key val y = create_node key val y"
| "insert_node (Node l r n k v y') key val y =
     (if y' < y then let (a, b) = split_node (Node l r n k v y') key in relax (Node a b 1 key val y)
      else relax
        (if key < k then Node (insert_node l key val y) r n k v y'
         else if k < key then Node l (insert_node r key val y) n k v y'
         else Node l r n k v y'))"

fun remove_node :: "('k::linorder, 'v) dec_tree \<Rightarrow> 'k \<Rightarrow> ('k, 'v) dec_tree" where
  "remove_node Leaf key = Leaf"
| "remove_node (Node l r n k v y) key =
     relax
       (if key < k then Node (remove_node l key) r n k v y
        else if k < key then Node l (remove_node r key) n k v y
        else merge_node l r)"

fun get_node :: "('k::linorder, 'v) dec_tree \<Rightarrow> 'k \<Rightarrow> 'v option" where
  "get_node Leaf key = None"
| "get_node (Node l r n k v y) key =
     (if key < k then get_node l key else if k < key then get_node r key else Some v)"

fun get_node_by_idx :: "('k, 'v) dec_tree \<Rightarrow> nat \<Rightarrow> 'v option" where
  "get_node_by_idx Leaf idx = None"
| "get_node_by_idx (Node l r n k v y) idx =
     (let s = dt_size l in
      if idx < s then get_node_by_idx l idx
      else if idx = s then Some v else get_node_by_idx r (idx - s - 1))"

definition dt_insert :: "uint32 \<Rightarrow> 'k::linorder \<Rightarrow> 'v \<Rightarrow> ('k, 'v) dec_tree \<Rightarrow> ('k, 'v) dec_tree" where
  "dt_insert random key val t = insert_node t key val random"

definition dt_remove :: "'k::linorder \<Rightarrow> ('k, 'v) dec_tree \<Rightarrow> ('k, 'v) dec_tree" where
  "dt_remove key t = remove_node t key"

definition dt_get :: "('k::linorder, 'v) dec_tree \<Rightarrow> 'k \<Rightarrow> 'v option" where
  "dt_get t key = get_node t key"

definition dt_exists :: "('k::linorder, 'v) dec_tree \<Rightarrow> 'k \<Rightarrow> bool" where
  "dt_exists t key \<longleftrightarrow> get_node t key \<noteq> None"

text \<open>The outer option is a failed check, the inner one the null pointer.\<close>

definition dt_get_random :: "uint32 \<Rightarrow> ('k, 'v) dec_tree \<Rightarrow> 'v option option" where
  "dt_get_random random t =
     (if dt_size t = 0 then Some None else map_option Some (get_node_by_idx t (unat random mod dt_size t)))"

subsection \<open>The invariant\<close>

text \<open>The entries in order of their keys.\<close>

fun dt_entries :: "('k, 'v) dec_tree \<Rightarrow> ('k \<times> 'v) list" where
  "dt_entries Leaf = []"
| "dt_entries (Node l r n k v y) = dt_entries l @ (k, v) # dt_entries r"

fun sizes_ok :: "('k, 'v) dec_tree \<Rightarrow> bool" where
  "sizes_ok Leaf \<longleftrightarrow> True"
| "sizes_ok (Node l r n k v y) \<longleftrightarrow> sizes_ok l \<and> sizes_ok r \<and> n = 1 + dt_size l + dt_size r"

definition y_below :: "('k, 'v) dec_tree \<Rightarrow> uint32 \<Rightarrow> bool" where
  "y_below t y \<longleftrightarrow> (case t of Leaf \<Rightarrow> True | Node _ _ _ _ _ y' \<Rightarrow> y' \<le> y)"

fun heap_ok :: "('k, 'v) dec_tree \<Rightarrow> bool" where
  "heap_ok Leaf \<longleftrightarrow> True"
| "heap_ok (Node l r n k v y) \<longleftrightarrow> heap_ok l \<and> heap_ok r \<and> y_below l y \<and> y_below r y"

definition dt_ok :: "('k::linorder, 'v) dec_tree \<Rightarrow> bool" where
  "dt_ok t \<longleftrightarrow> sizes_ok t \<and> heap_ok t \<and> sorted_wrt (<) (map fst (dt_entries t))"

lemma y_below_simps [simp]:
  "y_below Leaf y" "y_below (Node l r n k v y') y \<longleftrightarrow> y' \<le> y"
  by (simp_all add: y_below_def)

lemma y_below_trans: "y_below t y \<Longrightarrow> y \<le> y' \<Longrightarrow> y_below t y'"
  by (cases t) auto

lemma relax_simps [simp]:
  "dt_entries (relax t) = dt_entries t" "heap_ok (relax t) = heap_ok t" "y_below (relax t) y = y_below t y"
  "sizes_ok (relax (Node l r n k v y')) \<longleftrightarrow> sizes_ok l \<and> sizes_ok r"
  by (cases t; simp add: relax_def)+

lemma sizes_ok_relax: "sizes_ok t \<Longrightarrow> sizes_ok (relax t)"
  by (cases t) (simp_all add: relax_def)

lemma dt_size_entries: "sizes_ok t \<Longrightarrow> dt_size t = length (dt_entries t)"
  by (induction t) (simp_all add: dt_size_def)

lemma split_node_shape:
  "split_node t key = (a, b) \<Longrightarrow>
    dt_entries t = dt_entries a @ dt_entries b \<and> (sizes_ok t \<longrightarrow> sizes_ok a \<and> sizes_ok b)"
proof (induction t key arbitrary: a b rule: split_node.induct)
  case (2 l r n k v y key)
  thus ?case by (cases "key < k") (fastforce split: prod.splits)+
qed simp

lemma split_node_heap:
  "split_node t key = (a, b) \<Longrightarrow> heap_ok t \<Longrightarrow>
    heap_ok a \<and> heap_ok b \<and> (\<forall>y. y_below t y \<longrightarrow> y_below a y \<and> y_below b y)"
proof (induction t key arbitrary: a b rule: split_node.induct)
  case (2 l r n k v y key)
  show ?case
  proof (cases "key < k")
    case True
    obtain c d where s: "split_node l key = (c, d)" by fastforce
    have r: "a = c" "b = relax (Node d r n k v y)" using "2.prems" True s by auto
    from "2.IH"(1) [OF True s] "2.prems"(2) have "heap_ok c" "heap_ok d" "y_below c y" "y_below d y" by auto
    with r "2.prems"(2) show ?thesis by (auto intro: y_below_trans)
  next
    case False
    obtain c d where s: "split_node r key = (c, d)" by fastforce
    have q: "a = relax (Node l c n k v y)" "b = d" using "2.prems" False s by auto
    from "2.IH"(2) [OF False s] "2.prems"(2) have "heap_ok c" "heap_ok d" "y_below c y" "y_below d y" by auto
    with q "2.prems"(2) show ?thesis by (auto intro: y_below_trans)
  qed
qed simp

abbreviation keys_sorted :: "('k::linorder, 'v) dec_tree \<Rightarrow> bool" where
  "keys_sorted t \<equiv> sorted_wrt (<) (map fst (dt_entries t))"

lemma split_node_keys:
  "split_node t key = (a, b) \<Longrightarrow> keys_sorted t \<Longrightarrow>
    (\<forall>x \<in> set (dt_entries a). fst x \<le> key) \<and> (\<forall>x \<in> set (dt_entries b). key < fst x)"
proof (induction t key arbitrary: a b rule: split_node.induct)
  case (2 l r n k v y key)
  show ?case
  proof (cases "key < k")
    case True
    obtain c d where s: "split_node l key = (c, d)" by fastforce
    have r: "a = c" "b = relax (Node d r n k v y)" using "2.prems" True s by auto
    have "keys_sorted l" "\<forall>x \<in> set (dt_entries r). k < fst x" using "2.prems"(2) by (auto simp: sorted_wrt_append)
    with "2.IH"(1) [OF True s] r True show ?thesis by auto
  next
    case False
    obtain c d where s: "split_node r key = (c, d)" by fastforce
    have q: "a = relax (Node l c n k v y)" "b = d" using "2.prems" False s by auto
    have "keys_sorted r" "\<forall>x \<in> set (dt_entries l). fst x < k" using "2.prems"(2) by (auto simp: sorted_wrt_append)
    moreover have "\<forall>x \<in> set (dt_entries l). fst x \<le> key" using calculation False by fastforce
    ultimately show ?thesis using "2.IH"(2) [OF False s] q False by auto
  qed
qed simp

lemma merge_node_shape:
  "dt_entries (merge_node a b) = dt_entries a @ dt_entries b \<and>
    (sizes_ok a \<and> sizes_ok b \<longrightarrow> sizes_ok (merge_node a b))"
  by (induction a b rule: merge_node.induct) simp_all

lemma merge_node_heap:
  "heap_ok a \<Longrightarrow> heap_ok b \<Longrightarrow> heap_ok (merge_node a b) \<and> (\<forall>y. y_below a y \<and> y_below b y \<longrightarrow> y_below (merge_node a b) y)"
  by (induction a b rule: merge_node.induct) (auto simp: not_less)


lemma distinct_keys: "keys_sorted t \<Longrightarrow> distinct (map fst (dt_entries t))"
  by (simp add: strict_sorted_iff)

lemma dt_ok_Node:
  "dt_ok (Node l r n k v y) \<longleftrightarrow> dt_ok l \<and> dt_ok r \<and> n = 1 + dt_size l + dt_size r \<and> y_below l y \<and> y_below r y \<and>
     (\<forall>x \<in> set (dt_entries l). fst x < k) \<and> (\<forall>x \<in> set (dt_entries r). k < fst x)"
  by (fastforce simp: dt_ok_def sorted_wrt_append)

lemma dt_ok_relax_Node:
  "dt_ok (relax (Node l r n k v y)) \<longleftrightarrow> dt_ok l \<and> dt_ok r \<and> y_below l y \<and> y_below r y \<and>
     (\<forall>x \<in> set (dt_entries l). fst x < k) \<and> (\<forall>x \<in> set (dt_entries r). k < fst x)"
  by (simp add: relax_def dt_ok_Node)

subsection \<open>The operations\<close>

lemma insert_node_ok:
  assumes "dt_ok t" "key \<notin> fst ` set (dt_entries t)"
  shows "dt_ok (insert_node t key val y) \<and> set (dt_entries (insert_node t key val y)) = insert (key, val) (set (dt_entries t)) \<and>
    (\<forall>y'. y_below t y' \<and> y \<le> y' \<longrightarrow> y_below (insert_node t key val y) y')"
  using assms
proof (induction t)
  case Leaf
  thus ?case by (simp add: dt_ok_def create_node_def dt_size_def)
next
  case (Node l r n k v y')
  have t: "sizes_ok l" "sizes_ok r" "heap_ok l" "heap_ok r" "y_below l y'" "y_below r y'" "keys_sorted l" "keys_sorted r"
    "\<forall>x \<in> set (dt_entries l). fst x < k" "\<forall>x \<in> set (dt_entries r). k < fst x"
    using Node.prems(1) by (auto simp: dt_ok_def sorted_wrt_append)
  show ?case
  proof (cases "y' < y")
    case True
    let ?t = "Node l r n k v y'"
    obtain a b where s: "split_node ?t key = (a, b)" by fastforce
    have ok: "sizes_ok ?t" "heap_ok ?t" "keys_sorted ?t" using Node.prems(1) by (simp_all add: dt_ok_def)
    note sh = split_node_shape [OF s] split_node_heap [OF s ok(2)] split_node_keys [OF s ok(3)]
    have e: "dt_entries ?t = dt_entries a @ dt_entries b" using sh(1) by blast
    have "\<forall>x \<in> set (dt_entries a). fst x \<noteq> key" using Node.prems(2) unfolding e by auto
    hence less: "\<forall>x \<in> set (dt_entries a). fst x < key" using sh(3) by (auto simp: order.strict_iff_order)
    have ks: "keys_sorted a" "keys_sorted b" using ok(3) unfolding e by (simp_all add: sorted_wrt_append)
    have "\<forall>x \<in> set (dt_entries a). \<forall>z \<in> set (dt_entries b). fst x < fst z" using less sh(3) by fastforce
    moreover have "y_below ?t y" using True by simp
    moreover have i: "insert_node ?t key val y = relax (Node a b 1 key val y)" using True s by simp
    ultimately have "dt_ok (insert_node ?t key val y)" using sh ok ks less unfolding i
      by (auto simp: dt_ok_def sorted_wrt_append)
    moreover have "set (dt_entries (insert_node ?t key val y)) = insert (key, val) (set (dt_entries ?t))"
      unfolding i e by auto
    ultimately show ?thesis unfolding i by simp
  next
    case False
    hence le: "y \<le> y'" by simp
    consider (left) "key < k" | (right) "k < key" using Node.prems(2) by fastforce
    thus ?thesis
    proof cases
      case left
      have "dt_ok l" "key \<notin> fst ` set (dt_entries l)" using t Node.prems(2) by (auto simp: dt_ok_def)
      with Node.IH(1) have ih: "dt_ok (insert_node l key val y)"
        "set (dt_entries (insert_node l key val y)) = insert (key, val) (set (dt_entries l))"
        "y_below (insert_node l key val y) y'" using t le by auto
      with t left False Node.prems(1) show ?thesis by (auto simp: dt_ok_relax_Node dt_ok_Node)
    next
      case right
      have "dt_ok r" "key \<notin> fst ` set (dt_entries r)" using t Node.prems(2) by (auto simp: dt_ok_def)
      with Node.IH(2) have ih: "dt_ok (insert_node r key val y)"
        "set (dt_entries (insert_node r key val y)) = insert (key, val) (set (dt_entries r))"
        "y_below (insert_node r key val y) y'" using t le by auto
      with t right False Node.prems(1) show ?thesis by (auto simp: dt_ok_relax_Node dt_ok_Node)
    qed
  qed
qed

lemma remove_node_ok:
  assumes "dt_ok t"
  shows "dt_ok (remove_node t key) \<and> set (dt_entries (remove_node t key)) = {x \<in> set (dt_entries t). fst x \<noteq> key} \<and>
    (\<forall>y. y_below t y \<longrightarrow> y_below (remove_node t key) y)"
  using assms
proof (induction t)
  case Leaf
  thus ?case by (simp add: dt_ok_def)
next
  case (Node l r n k v y)
  have t: "sizes_ok l" "sizes_ok r" "heap_ok l" "heap_ok r" "y_below l y" "y_below r y" "keys_sorted l" "keys_sorted r"
    "\<forall>x \<in> set (dt_entries l). fst x < k" "\<forall>x \<in> set (dt_entries r). k < fst x"
    using Node.prems by (auto simp: dt_ok_def sorted_wrt_append)
  have sub: "dt_ok l" "dt_ok r" using t by (simp_all add: dt_ok_def)
  show ?case
  proof (cases key k rule: linorder_cases)
    case less
    with Node.IH(1) [OF sub(1)] t sub show ?thesis by (auto simp: dt_ok_relax_Node)
  next
    case greater
    with Node.IH(2) [OF sub(2)] t sub show ?thesis by (auto simp: dt_ok_relax_Node)
  next
    case equal
    have "\<forall>x \<in> set (dt_entries l). \<forall>z \<in> set (dt_entries r). fst x < fst z" using t by fastforce
    hence "dt_ok (merge_node l r)" using merge_node_shape [of l r] merge_node_heap [of l r] t
      by (auto simp: dt_ok_def sorted_wrt_append)
    hence "dt_ok (relax (merge_node l r))" using sizes_ok_relax by (auto simp: dt_ok_def)
    moreover have "set (dt_entries (merge_node l r)) = {x \<in> set (dt_entries (Node l r n k v y)). fst x \<noteq> key}"
      using merge_node_shape [of l r] t equal by auto
    moreover have "y_below (merge_node l r) y'" if "y_below (Node l r n k v y) y'" for y'
      using merge_node_heap [of l r] t that y_below_trans [of _ y y'] by auto
    ultimately show ?thesis using equal by simp
  qed
qed

lemma map_of_set_eq:
  assumes "distinct (map fst xs)"
  shows "map_of xs k = Some v \<longleftrightarrow> (k, v) \<in> set xs"
  using assms by (rule map_of_eq_Some_iff)

lemma get_node_map_of: "keys_sorted t \<Longrightarrow> get_node t key = map_of (dt_entries t) key"
proof (induction t)
  case (Node l r n k v y)
  have t: "keys_sorted l" "keys_sorted r" "\<forall>x \<in> set (dt_entries l). fst x < k" "\<forall>x \<in> set (dt_entries r). k < fst x"
    using Node.prems by (auto simp: sorted_wrt_append)
  have l: "map_of (dt_entries l) key = None" if "\<not> key < k" using t(3) that by (auto simp: map_of_eq_None_iff)
  have r: "map_of (dt_entries r) key = None" if "\<not> k < key" using t(4) that by (auto simp: map_of_eq_None_iff)
  show ?case
    using Node.IH t l r by (auto simp: map_add_def split: option.splits)
qed simp

lemma get_node_by_idx_nth:
  "sizes_ok t \<Longrightarrow> i < length (dt_entries t) \<Longrightarrow> get_node_by_idx t i = Some (snd (dt_entries t ! i))"
  by (induction t arbitrary: i) (auto simp: dt_size_entries nth_append nth_Cons')

lemma get_node_by_idx_None: "sizes_ok t \<Longrightarrow> length (dt_entries t) \<le> i \<Longrightarrow> get_node_by_idx t i = None"
  by (induction t arbitrary: i) (auto simp: dt_size_entries)


subsection \<open>Runs refine a map\<close>

datatype ('k, 'v) dt_op = Dt_insert uint32 'k 'v | Dt_remove 'k | Dt_get 'k | Dt_exists 'k | Dt_size | Dt_random uint32

datatype 'v dt_out = Out_value "'v option" | Out_bool bool | Out_size nat

fun dt_run :: "('k::linorder, 'v) dt_op list \<Rightarrow> ('k, 'v) dec_tree \<Rightarrow> 'v dt_out list option" where
  "dt_run [] t = Some []"
| "dt_run (Dt_insert y k v # ops) t = dt_run ops (dt_insert y k v t)"
| "dt_run (Dt_remove k # ops) t = dt_run ops (dt_remove k t)"
| "dt_run (Dt_get k # ops) t = map_option (Cons (Out_value (dt_get t k))) (dt_run ops t)"
| "dt_run (Dt_exists k # ops) t = map_option (Cons (Out_bool (dt_exists t k))) (dt_run ops t)"
| "dt_run (Dt_size # ops) t = map_option (Cons (Out_size (dt_size t))) (dt_run ops t)"
| "dt_run (Dt_random y # ops) t =
     Option.bind (dt_get_random y t) (\<lambda>v. map_option (Cons (Out_value v)) (dt_run ops t))"

text \<open>The specification over a partial map; a key may be inserted only when it is absent, as
  \<^verbatim>\<open>insert\<close> expects. A random value is that of the key whose position, in the order of
  the keys, is the random number modulo the size.\<close>

fun map_run :: "('k::linorder, 'v) dt_op list \<Rightarrow> ('k \<rightharpoonup> 'v) \<Rightarrow> 'v dt_out list option" where
  "map_run [] m = Some []"
| "map_run (Dt_insert y k v # ops) m = (if m k = None then map_run ops (m(k \<mapsto> v)) else None)"
| "map_run (Dt_remove k # ops) m = map_run ops (m(k := None))"
| "map_run (Dt_get k # ops) m = map_option (Cons (Out_value (m k))) (map_run ops m)"
| "map_run (Dt_exists k # ops) m = map_option (Cons (Out_bool (m k \<noteq> None))) (map_run ops m)"
| "map_run (Dt_size # ops) m = map_option (Cons (Out_size (card (dom m)))) (map_run ops m)"
| "map_run (Dt_random y # ops) m =
     (let ks = sorted_list_of_set (dom m) in
      map_option (Cons (Out_value (if ks = [] then None else m (ks ! (unat y mod length ks))))) (map_run ops m))"

definition dt_map :: "('k::linorder, 'v) dec_tree \<Rightarrow> ('k \<rightharpoonup> 'v)" where
  "dt_map t = map_of (dt_entries t)"

lemma dt_ok_keys: "dt_ok t \<Longrightarrow> keys_sorted t"
  by (simp add: dt_ok_def)

lemma dt_map_eq:
  assumes "dt_ok t"
  shows "dt_map t k = Some v \<longleftrightarrow> (k, v) \<in> set (dt_entries t)"
  using map_of_set_eq [OF distinct_keys [OF dt_ok_keys [OF assms]]] by (simp add: dt_map_def)

lemma dt_map_eqI:
  assumes "dt_ok t" "\<And>k v. (k, v) \<in> set (dt_entries t) \<longleftrightarrow> m k = Some v"
  shows "dt_map t = m"
proof
  fix k
  show "dt_map t k = m k" using dt_map_eq [OF assms(1), of k] assms(2) [of k] by (metis not_None_eq)
qed

lemma dt_map_None: "dt_map t k = None \<longleftrightarrow> k \<notin> fst ` set (dt_entries t)"
  by (auto simp: dt_map_def map_of_eq_None_iff)

lemma dt_insert_map:
  assumes "dt_ok t" "dt_map t k = None"
  shows "dt_ok (dt_insert y k v t)" "dt_map (dt_insert y k v t) = (dt_map t)(k \<mapsto> v)"
proof -
  have abs: "k \<notin> fst ` set (dt_entries t)" using assms(2) by (simp add: dt_map_None)
  note i = insert_node_ok [OF assms(1) abs, of v y]
  show ok: "dt_ok (dt_insert y k v t)" using i by (simp add: dt_insert_def)
  show "dt_map (dt_insert y k v t) = (dt_map t)(k \<mapsto> v)"
    using i dt_map_eq [OF assms(1)] abs by (intro dt_map_eqI [OF ok]) (force simp: dt_insert_def)
qed

lemma dt_remove_map:
  assumes "dt_ok t"
  shows "dt_ok (dt_remove k t)" "dt_map (dt_remove k t) = (dt_map t)(k := None)"
proof -
  note r = remove_node_ok [OF assms, of k]
  show ok: "dt_ok (dt_remove k t)" using r by (simp add: dt_remove_def)
  show "dt_map (dt_remove k t) = (dt_map t)(k := None)"
    using r dt_map_eq [OF assms] by (intro dt_map_eqI [OF ok]) (auto simp: dt_remove_def)
qed

lemma dt_keys: "dt_ok t \<Longrightarrow> sorted_list_of_set (dom (dt_map t)) = map fst (dt_entries t)"
proof -
  assume "dt_ok t"
  hence "sorted (map fst (dt_entries t))" "distinct (map fst (dt_entries t))"
    by (simp_all add: dt_ok_def strict_sorted_iff)
  moreover have "dom (dt_map t) = set (map fst (dt_entries t))" by (simp add: dt_map_def dom_map_of_conv_image_fst)
  ultimately show ?thesis by (simp add: sorted_list_of_set.idem_if_sorted_distinct del: set_map)
qed

lemma dt_size_card: "dt_ok t \<Longrightarrow> dt_size t = card (dom (dt_map t))"
proof -
  assume ok: "dt_ok t"
  have "card (dom (dt_map t)) = length (sorted_list_of_set (dom (dt_map t)))" by simp
  also have "\<dots> = dt_size t" using dt_keys [OF ok] ok by (simp add: dt_ok_def dt_size_entries)
  finally show ?thesis by simp
qed

lemma dt_get_random_map:
  assumes "dt_ok t"
  shows "dt_get_random y t = Some (let ks = sorted_list_of_set (dom (dt_map t)) in
    if ks = [] then None else dt_map t (ks ! (unat y mod length ks)))"
proof (cases "dt_entries t = []")
  case True
  thus ?thesis using assms by (simp add: dt_keys dt_get_random_def dt_size_entries dt_ok_def)
next
  case False
  let ?i = "unat y mod length (dt_entries t)"
  have i: "?i < length (dt_entries t)" using False by simp
  have sz: "sizes_ok t" using assms by (simp add: dt_ok_def)
  have "(fst (dt_entries t ! ?i), snd (dt_entries t ! ?i)) \<in> set (dt_entries t)" using i by simp
  hence "dt_map t (fst (dt_entries t ! ?i)) = Some (snd (dt_entries t ! ?i))" using dt_map_eq [OF assms] by blast
  thus ?thesis using get_node_by_idx_nth [OF sz i] False i assms sz
    by (simp add: dt_get_random_def dt_keys dt_size_entries Let_def)
qed

lemma dt_run_map: "dt_ok t \<Longrightarrow> map_run ops (dt_map t) = Some out \<Longrightarrow> dt_run ops t = Some out"
proof (induction ops arbitrary: t out)
  case (Cons op ops)
  have get: "dt_get t k = dt_map t k" for k
    using Cons.prems(1) by (simp add: dt_get_def dt_map_def get_node_map_of dt_ok_def)
  show ?case
  proof (cases op)
    case (Dt_insert y k v)
    hence k: "dt_map t k = None" using Cons.prems(2) by (simp split: if_splits)
    have "map_run ops (dt_map (dt_insert y k v t)) = Some out"
      using Cons.prems(2) Dt_insert k by (simp add: dt_insert_map(2) [OF Cons.prems(1) k])
    from Cons.IH [OF dt_insert_map(1) [OF Cons.prems(1) k] this] show ?thesis by (simp add: Dt_insert)
  next
    case (Dt_remove k)
    hence "map_run ops (dt_map (dt_remove k t)) = Some out"
      using Cons.prems(2) by (simp add: dt_remove_map(2) [OF Cons.prems(1)])
    from Cons.IH [OF dt_remove_map(1) [OF Cons.prems(1)] this] show ?thesis by (simp add: Dt_remove)
  next
    case (Dt_get k)
    with Cons get show ?thesis by auto
  next
    case (Dt_exists k)
    with Cons get [of k] show ?thesis by (auto simp: dt_exists_def dt_get_def)
  next
    case Dt_size
    with Cons dt_size_card [OF Cons.prems(1)] show ?thesis by auto
  next
    case (Dt_random y)
    with Cons dt_get_random_map [OF Cons.prems(1), of y] show ?thesis by (auto simp: Let_def)
  qed
qed simp

text \<open>C37: in every sequence of operations that inserts only absent keys, a tree behaves as a map, and
  \<^verbatim>\<open>get_random\<close> returns the value of the key at the position drawn; whatever the random
  numbers of the nodes are.\<close>

theorem dt_run_refines_map:
  assumes "map_run ops Map.empty = Some out"
  shows "dt_run ops Leaf = Some out"
proof (rule dt_run_map)
  show "dt_ok Leaf" by (simp add: dt_ok_def)
  show "map_run ops (dt_map Leaf) = Some out" using assms by (simp add: dt_map_def)
qed

theorem dt_run_refines_map_witness:
  "dt_run [Dt_insert 5 (2::nat) ''b'', Dt_insert 9 1 ''a'', Dt_insert 7 3 ''c'', Dt_get 3, Dt_remove 2, Dt_exists 2] Leaf =
    Some [Out_value (Some ''c''), Out_bool False]"
  by (rule dt_run_refines_map) simp

text \<open>A key that is present is ignored where the node above it has the larger number, but
  inserted again where it has not; then it is counted twice, and survives a removal.\<close>

lemma dt_insert_twice:
  "dt_size (dt_insert 5 1 ''new'' (dt_insert 7 (1::nat) ''old'' Leaf)) = 1"
  "dt_size (dt_insert 7 1 ''new'' (dt_insert 5 (1::nat) ''old'' Leaf)) = 2"
  "dt_exists (dt_remove 1 (dt_insert 7 1 ''new'' (dt_insert 5 (1::nat) ''old'' Leaf))) 1"
  by code_simp+

end
