(* ===== verification/Checksums.thy ===== *)
theory Checksums
  imports Prelude
begin

unbundle bit_operations_syntax

text \<open>
  The checksums of \<^verbatim>\<open>utils/crypto.cpp\<close>: CRC-64 and CRC-16 by table, and the combination of two
  CRC-32C sums into that of the joined data, by powers of a matrix over bits. The CRC-32C of
  data is a function of a library and a parameter. The tables are transcribed; that they hold
  the remainders of the bytes is proved by evaluation. Each sum is compared with the
  register that divides bit by bit.
\<close>

subsection \<open>The tables\<close>

definition crc64_table :: "uint64 list" where
  "crc64_table =
   [0x0000000000000000, 0xb32e4cbe03a75f6f, 0xf4843657a840a05b, 0x47aa7ae9abe7ff34,
   0x7bd0c384ff8f5e33, 0xc8fe8f3afc28015c, 0x8f54f5d357cffe68, 0x3c7ab96d5468a107,
   0xf7a18709ff1ebc66, 0x448fcbb7fcb9e309, 0x0325b15e575e1c3d, 0xb00bfde054f94352,
   0x8c71448d0091e255, 0x3f5f08330336bd3a, 0x78f572daa8d1420e, 0xcbdb3e64ab761d61,
   0x7d9ba13851336649, 0xceb5ed8652943926, 0x891f976ff973c612, 0x3a31dbd1fad4997d,
   0x064b62bcaebc387a, 0xb5652e02ad1b6715, 0xf2cf54eb06fc9821, 0x41e11855055bc74e,
   0x8a3a2631ae2dda2f, 0x39146a8fad8a8540, 0x7ebe1066066d7a74, 0xcd905cd805ca251b,
   0xf1eae5b551a2841c, 0x42c4a90b5205db73, 0x056ed3e2f9e22447, 0xb6409f5cfa457b28,
   0xfb374270a266cc92, 0x48190ecea1c193fd, 0x0fb374270a266cc9, 0xbc9d3899098133a6,
   0x80e781f45de992a1, 0x33c9cd4a5e4ecdce, 0x7463b7a3f5a932fa, 0xc74dfb1df60e6d95,
   0x0c96c5795d7870f4, 0xbfb889c75edf2f9b, 0xf812f32ef538d0af, 0x4b3cbf90f69f8fc0,
   0x774606fda2f72ec7, 0xc4684a43a15071a8, 0x83c230aa0ab78e9c, 0x30ec7c140910d1f3,
   0x86ace348f355aadb, 0x3582aff6f0f2f5b4, 0x7228d51f5b150a80, 0xc10699a158b255ef,
   0xfd7c20cc0cdaf4e8, 0x4e526c720f7dab87, 0x09f8169ba49a54b3, 0xbad65a25a73d0bdc,
   0x710d64410c4b16bd, 0xc22328ff0fec49d2, 0x85895216a40bb6e6, 0x36a71ea8a7ace989,
   0x0adda7c5f3c4488e, 0xb9f3eb7bf06317e1, 0xfe5991925b84e8d5, 0x4d77dd2c5823b7ba,
   0x64b62bcaebc387a1, 0xd7986774e864d8ce, 0x90321d9d438327fa, 0x231c512340247895,
   0x1f66e84e144cd992, 0xac48a4f017eb86fd, 0xebe2de19bc0c79c9, 0x58cc92a7bfab26a6,
   0x9317acc314dd3bc7, 0x2039e07d177a64a8, 0x67939a94bc9d9b9c, 0xd4bdd62abf3ac4f3,
   0xe8c76f47eb5265f4, 0x5be923f9e8f53a9b, 0x1c4359104312c5af, 0xaf6d15ae40b59ac0,
   0x192d8af2baf0e1e8, 0xaa03c64cb957be87, 0xeda9bca512b041b3, 0x5e87f01b11171edc,
   0x62fd4976457fbfdb, 0xd1d305c846d8e0b4, 0x96797f21ed3f1f80, 0x2557339fee9840ef,
   0xee8c0dfb45ee5d8e, 0x5da24145464902e1, 0x1a083bacedaefdd5, 0xa9267712ee09a2ba,
   0x955cce7fba6103bd, 0x267282c1b9c65cd2, 0x61d8f8281221a3e6, 0xd2f6b4961186fc89,
   0x9f8169ba49a54b33, 0x2caf25044a02145c, 0x6b055fede1e5eb68, 0xd82b1353e242b407,
   0xe451aa3eb62a1500, 0x577fe680b58d4a6f, 0x10d59c691e6ab55b, 0xa3fbd0d71dcdea34,
   0x6820eeb3b6bbf755, 0xdb0ea20db51ca83a, 0x9ca4d8e41efb570e, 0x2f8a945a1d5c0861,
   0x13f02d374934a966, 0xa0de61894a93f609, 0xe7741b60e174093d, 0x545a57dee2d35652,
   0xe21ac88218962d7a, 0x5134843c1b317215, 0x169efed5b0d68d21, 0xa5b0b26bb371d24e,
   0x99ca0b06e7197349, 0x2ae447b8e4be2c26, 0x6d4e3d514f59d312, 0xde6071ef4cfe8c7d,
   0x15bb4f8be788911c, 0xa6950335e42fce73, 0xe13f79dc4fc83147, 0x521135624c6f6e28,
   0x6e6b8c0f1807cf2f, 0xdd45c0b11ba09040, 0x9aefba58b0476f74, 0x29c1f6e6b3e0301b,
   0xc96c5795d7870f42, 0x7a421b2bd420502d, 0x3de861c27fc7af19, 0x8ec62d7c7c60f076,
   0xb2bc941128085171, 0x0192d8af2baf0e1e, 0x4638a2468048f12a, 0xf516eef883efae45,
   0x3ecdd09c2899b324, 0x8de39c222b3eec4b, 0xca49e6cb80d9137f, 0x7967aa75837e4c10,
   0x451d1318d716ed17, 0xf6335fa6d4b1b278, 0xb199254f7f564d4c, 0x02b769f17cf11223,
   0xb4f7f6ad86b4690b, 0x07d9ba1385133664, 0x4073c0fa2ef4c950, 0xf35d8c442d53963f,
   0xcf273529793b3738, 0x7c0979977a9c6857, 0x3ba3037ed17b9763, 0x888d4fc0d2dcc80c,
   0x435671a479aad56d, 0xf0783d1a7a0d8a02, 0xb7d247f3d1ea7536, 0x04fc0b4dd24d2a59,
   0x3886b22086258b5e, 0x8ba8fe9e8582d431, 0xcc0284772e652b05, 0x7f2cc8c92dc2746a,
   0x325b15e575e1c3d0, 0x8175595b76469cbf, 0xc6df23b2dda1638b, 0x75f16f0cde063ce4,
   0x498bd6618a6e9de3, 0xfaa59adf89c9c28c, 0xbd0fe036222e3db8, 0x0e21ac88218962d7,
   0xc5fa92ec8aff7fb6, 0x76d4de52895820d9, 0x317ea4bb22bfdfed, 0x8250e80521188082,
   0xbe2a516875702185, 0x0d041dd676d77eea, 0x4aae673fdd3081de, 0xf9802b81de97deb1,
   0x4fc0b4dd24d2a599, 0xfceef8632775faf6, 0xbb44828a8c9205c2, 0x086ace348f355aad,
   0x34107759db5dfbaa, 0x873e3be7d8faa4c5, 0xc094410e731d5bf1, 0x73ba0db070ba049e,
   0xb86133d4dbcc19ff, 0x0b4f7f6ad86b4690, 0x4ce50583738cb9a4, 0xffcb493d702be6cb,
   0xc3b1f050244347cc, 0x709fbcee27e418a3, 0x3735c6078c03e797, 0x841b8ab98fa4b8f8,
   0xadda7c5f3c4488e3, 0x1ef430e13fe3d78c, 0x595e4a08940428b8, 0xea7006b697a377d7,
   0xd60abfdbc3cbd6d0, 0x6524f365c06c89bf, 0x228e898c6b8b768b, 0x91a0c532682c29e4,
   0x5a7bfb56c35a3485, 0xe955b7e8c0fd6bea, 0xaeffcd016b1a94de, 0x1dd181bf68bdcbb1,
   0x21ab38d23cd56ab6, 0x9285746c3f7235d9, 0xd52f0e859495caed, 0x6601423b97329582,
   0xd041dd676d77eeaa, 0x636f91d96ed0b1c5, 0x24c5eb30c5374ef1, 0x97eba78ec690119e,
   0xab911ee392f8b099, 0x18bf525d915feff6, 0x5f1528b43ab810c2, 0xec3b640a391f4fad,
   0x27e05a6e926952cc, 0x94ce16d091ce0da3, 0xd3646c393a29f297, 0x604a2087398eadf8,
   0x5c3099ea6de60cff, 0xef1ed5546e415390, 0xa8b4afbdc5a6aca4, 0x1b9ae303c601f3cb,
   0x56ed3e2f9e224471, 0xe5c372919d851b1e, 0xa26908783662e42a, 0x114744c635c5bb45,
   0x2d3dfdab61ad1a42, 0x9e13b115620a452d, 0xd9b9cbfcc9edba19, 0x6a978742ca4ae576,
   0xa14cb926613cf817, 0x1262f598629ba778, 0x55c88f71c97c584c, 0xe6e6c3cfcadb0723,
   0xda9c7aa29eb3a624, 0x69b2361c9d14f94b, 0x2e184cf536f3067f, 0x9d36004b35545910,
   0x2b769f17cf112238, 0x9858d3a9ccb67d57, 0xdff2a94067518263, 0x6cdce5fe64f6dd0c,
   0x50a65c93309e7c0b, 0xe388102d33392364, 0xa4226ac498dedc50, 0x170c267a9b79833f,
   0xdcd7181e300f9e5e, 0x6ff954a033a8c131, 0x28532e49984f3e05, 0x9b7d62f79be8616a,
   0xa707db9acf80c06d, 0x14299724cc279f02, 0x5383edcd67c06036, 0xe0ada17364673f59]"

definition crc16_table :: "16 word list" where
  "crc16_table =
   [0x0000, 0x1021, 0x2042, 0x3063, 0x4084, 0x50a5, 0x60c6, 0x70e7, 0x8108, 0x9129, 0xa14a, 0xb16b,
   0xc18c, 0xd1ad, 0xe1ce, 0xf1ef, 0x1231, 0x0210, 0x3273, 0x2252, 0x52b5, 0x4294, 0x72f7, 0x62d6,
   0x9339, 0x8318, 0xb37b, 0xa35a, 0xd3bd, 0xc39c, 0xf3ff, 0xe3de, 0x2462, 0x3443, 0x0420, 0x1401,
   0x64e6, 0x74c7, 0x44a4, 0x5485, 0xa56a, 0xb54b, 0x8528, 0x9509, 0xe5ee, 0xf5cf, 0xc5ac, 0xd58d,
   0x3653, 0x2672, 0x1611, 0x0630, 0x76d7, 0x66f6, 0x5695, 0x46b4, 0xb75b, 0xa77a, 0x9719, 0x8738,
   0xf7df, 0xe7fe, 0xd79d, 0xc7bc, 0x48c4, 0x58e5, 0x6886, 0x78a7, 0x0840, 0x1861, 0x2802, 0x3823,
   0xc9cc, 0xd9ed, 0xe98e, 0xf9af, 0x8948, 0x9969, 0xa90a, 0xb92b, 0x5af5, 0x4ad4, 0x7ab7, 0x6a96,
   0x1a71, 0x0a50, 0x3a33, 0x2a12, 0xdbfd, 0xcbdc, 0xfbbf, 0xeb9e, 0x9b79, 0x8b58, 0xbb3b, 0xab1a,
   0x6ca6, 0x7c87, 0x4ce4, 0x5cc5, 0x2c22, 0x3c03, 0x0c60, 0x1c41, 0xedae, 0xfd8f, 0xcdec, 0xddcd,
   0xad2a, 0xbd0b, 0x8d68, 0x9d49, 0x7e97, 0x6eb6, 0x5ed5, 0x4ef4, 0x3e13, 0x2e32, 0x1e51, 0x0e70,
   0xff9f, 0xefbe, 0xdfdd, 0xcffc, 0xbf1b, 0xaf3a, 0x9f59, 0x8f78, 0x9188, 0x81a9, 0xb1ca, 0xa1eb,
   0xd10c, 0xc12d, 0xf14e, 0xe16f, 0x1080, 0x00a1, 0x30c2, 0x20e3, 0x5004, 0x4025, 0x7046, 0x6067,
   0x83b9, 0x9398, 0xa3fb, 0xb3da, 0xc33d, 0xd31c, 0xe37f, 0xf35e, 0x02b1, 0x1290, 0x22f3, 0x32d2,
   0x4235, 0x5214, 0x6277, 0x7256, 0xb5ea, 0xa5cb, 0x95a8, 0x8589, 0xf56e, 0xe54f, 0xd52c, 0xc50d,
   0x34e2, 0x24c3, 0x14a0, 0x0481, 0x7466, 0x6447, 0x5424, 0x4405, 0xa7db, 0xb7fa, 0x8799, 0x97b8,
   0xe75f, 0xf77e, 0xc71d, 0xd73c, 0x26d3, 0x36f2, 0x0691, 0x16b0, 0x6657, 0x7676, 0x4615, 0x5634,
   0xd94c, 0xc96d, 0xf90e, 0xe92f, 0x99c8, 0x89e9, 0xb98a, 0xa9ab, 0x5844, 0x4865, 0x7806, 0x6827,
   0x18c0, 0x08e1, 0x3882, 0x28a3, 0xcb7d, 0xdb5c, 0xeb3f, 0xfb1e, 0x8bf9, 0x9bd8, 0xabbb, 0xbb9a,
   0x4a75, 0x5a54, 0x6a37, 0x7a16, 0x0af1, 0x1ad0, 0x2ab3, 0x3a92, 0xfd2e, 0xed0f, 0xdd6c, 0xcd4d,
   0xbdaa, 0xad8b, 0x9de8, 0x8dc9, 0x7c26, 0x6c07, 0x5c64, 0x4c45, 0x3ca2, 0x2c83, 0x1ce0, 0x0cc1,
   0xef1f, 0xff3e, 0xcf5d, 0xdf7c, 0xaf9b, 0xbfba, 0x8fd9, 0x9ff8, 0x6e17, 0x7e36, 0x4e55, 0x5e74,
   0x2e93, 0x3eb2, 0x0ed1, 0x1ef0]"

subsection \<open>CRC-64\<close>

definition byte_word :: "char \<Rightarrow> 'w::len word" where
  "byte_word c = of_nat (of_char c)"

text \<open>The sign of the \<^verbatim>\<open>char\<close> has no effect, since only the low byte is used.\<close>

fun crc64_partial :: "string \<Rightarrow> uint64 \<Rightarrow> uint64" where
  "crc64_partial [] crc = crc"
| "crc64_partial (c # data) crc =
     crc64_partial data (crc64_table ! unat ((crc XOR byte_word c) AND 0xff) XOR drop_bit 8 crc)"

definition crc64 :: "string \<Rightarrow> uint64" where
  "crc64 data = crc64_partial data (- 1) XOR (- 1)"

subsection \<open>CRC-16\<close>

text \<open>The register has 32 bits, of which the upper half is junk.\<close>

fun crc16_loop :: "string \<Rightarrow> uint32 \<Rightarrow> uint32" where
  "crc16_loop [] crc = crc"
| "crc16_loop (c # data) crc =
     (let t = (byte_word c XOR drop_bit 8 crc) AND 0xff
      in crc16_loop data (ucast (crc16_table ! unat t) XOR push_bit 8 crc))"

definition crc16 :: "string \<Rightarrow> 16 word" where
  "crc16 data = ucast (crc16_loop data 0)"

subsection \<open>Combining CRC-32C\<close>

fun gf32_times_loop :: "uint32 list \<Rightarrow> uint32 \<Rightarrow> uint32 \<Rightarrow> uint32 option" where
  "gf32_times_loop [] vec acc = (if vec = 0 then Some acc else None)"
| "gf32_times_loop (r # rs) vec acc =
     (if vec = 0 then Some acc
      else gf32_times_loop rs (drop_bit 1 vec) (if vec AND 1 \<noteq> 0 then acc XOR r else acc))"

definition gf32_matrix_times :: "uint32 list \<Rightarrow> uint32 \<Rightarrow> uint32 option" where
  "gf32_matrix_times matrix vec = gf32_times_loop matrix vec 0"

definition gf32_matrix_square :: "uint32 list \<Rightarrow> uint32 list option" where
  "gf32_matrix_square matrix = those (map (\<lambda>n. gf32_matrix_times matrix (matrix ! n)) [0..<32])"

definition crc32c_poly :: uint32 where "crc32c_poly = 0x82F63B78"

text \<open>The matrices that the initialisation of \<^verbatim>\<open>power_buf\<close> puts one after the other.\<close>

fun power_matrix :: "nat \<Rightarrow> uint32 list option" where
  "power_matrix 0 = Some (crc32c_poly # map (\<lambda>n. push_bit n 1) [0..<31])"
| "power_matrix (Suc n) = Option.bind (power_matrix n) gf32_matrix_square"

definition power_buf :: "uint32 list option" where
  "power_buf = map_option concat (those (map power_matrix [0..<32]))"

function extend_loop :: "uint32 list \<Rightarrow> nat \<Rightarrow> uint32 \<Rightarrow> uint32 option" where
  "extend_loop p data_size old_crc =
     (let p = drop 32 p in
      Option.bind (if data_size mod 2 = 1 then gf32_matrix_times p old_crc else Some old_crc) (\<lambda>old_crc.
        if data_size div 2 = 0 then Some old_crc else extend_loop p (data_size div 2) old_crc))"
  by pat_completeness auto
termination by (relation "measure (\<lambda>(_, n, _). n)") auto

declare extend_loop.simps [simp del]

definition crc32c_extend :: "uint32 \<Rightarrow> uint32 \<Rightarrow> nat \<Rightarrow> uint32 option" where
  "crc32c_extend old_crc data_crc data_size =
     Option.bind power_buf (\<lambda>buf.
       if data_size = 0 then Some old_crc
       else map_option (\<lambda>old_crc. old_crc XOR data_crc) (extend_loop (drop 64 buf) data_size old_crc))"

subsection \<open>The register of a reflected CRC\<close>

definition crc_step :: "'w::len word \<Rightarrow> 'w word \<Rightarrow> 'w word" where
  "crc_step poly x = drop_bit 1 x XOR (if bit x 0 then poly else 0)"

definition crc_bits :: "'w::len word \<Rightarrow> nat \<Rightarrow> 'w word \<Rightarrow> 'w word" where
  "crc_bits poly n x = (crc_step poly ^^ n) x"

fun crc_register :: "'w::len word \<Rightarrow> string \<Rightarrow> 'w word \<Rightarrow> 'w word" where
  "crc_register poly [] crc = crc"
| "crc_register poly (c # data) crc = crc_register poly data (crc_bits poly 8 (crc XOR byte_word c))"

lemma crc_step_xor: "crc_step poly (x XOR y) = crc_step poly x XOR crc_step poly y"
  by (rule bit_word_eqI) (auto simp: crc_step_def bit_simps)

lemma crc_bits_xor: "crc_bits poly n (x XOR y) = crc_bits poly n x XOR crc_bits poly n y"
  by (induction n) (simp_all add: crc_bits_def crc_step_xor)

lemma crc_bits_0 [simp]: "crc_bits poly 0 x = x"
  by (simp add: crc_bits_def)

lemma crc_bits_add: "crc_bits poly (m + n) x = crc_bits poly m (crc_bits poly n x)"
  by (simp add: crc_bits_def funpow_add)

lemma crc_step_even: "\<not> bit x 0 \<Longrightarrow> crc_step poly x = drop_bit 1 x"
  by (simp add: crc_step_def)

text \<open>Bits above the lowest \<open>n\<close> only move down in \<open>n\<close> steps.\<close>

lemma crc_step_push:
  assumes "0 < k"
  shows "crc_step poly (push_bit k (drop_bit k x)) = push_bit (k - 1) (drop_bit (k - 1) (drop_bit 1 x))"
proof -
  have "drop_bit 1 (push_bit k (drop_bit k x)) = push_bit (k - 1) (drop_bit (k - 1) (drop_bit 1 x))"
  proof (rule bit_word_eqI)
    fix n
    have "bit x (Suc n) \<Longrightarrow> Suc n < LENGTH('a)" by (rule bit_imp_le_length)
    moreover have "k \<le> Suc n \<longleftrightarrow> k - 1 \<le> n" using assms by arith
    ultimately show "bit (drop_bit 1 (push_bit k (drop_bit k x))) n = bit (push_bit (k - 1) (drop_bit (k - 1) (drop_bit 1 x))) n"
      by (auto simp: bit_simps)
  qed
  moreover have "\<not> bit (push_bit k (drop_bit k x)) 0" using assms by (simp add: bit_simps)
  ultimately show ?thesis by (simp add: crc_step_even)
qed

lemma crc_bits_push: "crc_bits poly n (push_bit n (drop_bit n x)) = drop_bit n x"
proof (induction n arbitrary: x)
  case (Suc n)
  have "crc_bits poly (Suc n) (push_bit (Suc n) (drop_bit (Suc n) x)) =
    crc_bits poly n (crc_step poly (push_bit (Suc n) (drop_bit (Suc n) x)))"
    using crc_bits_add [of poly n 1] by (simp add: crc_bits_def)
  also have "\<dots> = crc_bits poly n (push_bit n (drop_bit n (drop_bit 1 x)))"
    using crc_step_push [of "Suc n" poly x] by (simp del: push_bit_Suc drop_bit_Suc)
  also have "\<dots> = drop_bit n (drop_bit 1 x)" by (rule Suc)
  finally show ?case by (simp add: drop_bit_drop_bit del: push_bit_Suc)
qed simp

lemma crc_bits_split: "crc_bits poly n x = crc_bits poly n (take_bit n x) XOR drop_bit n x"
proof -
  have "x = take_bit n x XOR push_bit n (drop_bit n x)"
    by (rule bit_word_eqI) (auto simp: bit_simps)
  thus ?thesis using crc_bits_xor [of poly n "take_bit n x" "push_bit n (drop_bit n x)"] crc_bits_push by metis
qed


subsection \<open>Bytes\<close>

lemma byte_word_less: "unat (byte_word c :: 'w::len word) < 256"
proof -
  have "unat (byte_word c :: 'w word) \<le> (of_char c :: nat)"
    by (simp add: byte_word_def unsigned_of_nat take_bit_eq_mod)
  thus ?thesis using nat_of_char_less_256 [of c] by (rule le_less_trans)
qed

lemma drop_byte_word: "8 \<le> n \<Longrightarrow> drop_bit n (byte_word c :: 'w::len word) = 0"
proof -
  assume n: "8 \<le> n"
  have "unat (drop_bit n (byte_word c :: 'w word)) = drop_bit n (unat (byte_word c :: 'w word))"
    by (simp add: unat_drop_bit_eq)
  also have "\<dots> = 0"
    using byte_word_less [of c, where 'w = 'w] power_increasing [OF n, of "2 :: nat"] by (simp add: drop_bit_eq_div)
  finally show ?thesis by (simp add: unat_eq_0)
qed

lemma low_byte: "x AND 0xff = take_bit 8 (x :: 'w::len word)"
  by (simp add: take_bit_eq_mask mask_eq_exp_minus_1)

lemma unat_low_byte: "unat (take_bit 8 (x :: 'w::len word)) < 256"
  using take_bit_nat_less_exp [of 8 "unat x"] by (simp add: unsigned_take_bit_eq)

text \<open>A table of remainders is closed under \<open>XOR\<close>, so eight entries give it.\<close>

fun double_table :: "'w::len word list \<Rightarrow> 'w word list \<Rightarrow> 'w word list" where
  "double_table xs [] = xs"
| "double_table xs (p # ps) = double_table (xs @ map (\<lambda>x. p XOR x) xs) ps"

lemma of_nat_xor_exp:
  assumes "i < 2 ^ k"
  shows "(of_nat (2 ^ k + i) :: 'w::len word) = of_nat (2 ^ k) XOR of_nat i"
proof -
  have "\<not> bit i k" using assms by (simp add: bit_iff_odd)
  hence "2 ^ k OR i = 2 ^ k XOR i" by (intro bit_eqI) (auto simp: bit_simps)
  hence "2 ^ k + i = 2 ^ k XOR i" using nat_or_disjoint [OF assms, of 1] by simp
  thus ?thesis by (simp only: of_nat_xor_eq)
qed

lemma double_table_remainders:
  fixes f :: "nat \<Rightarrow> 'w::len word"
  assumes "\<And>k i. i < 2 ^ k \<Longrightarrow> f (2 ^ k + i) = f (2 ^ k) XOR f i"
  shows "double_table (map f [0..<2 ^ k]) (map (\<lambda>j. f (2 ^ j)) [k..<n]) = map f [0..<2 ^ ord_class.max k n]"
proof (induction "n - k" arbitrary: k)
  case 0
  thus ?case by (simp add: max_def)
next
  case (Suc d)
  have "[k..<n] = k # [Suc k..<n]" using Suc.hyps(2) by (simp add: upt_conv_Cons)
  moreover have "map f [0..<2 ^ k] @ map (\<lambda>x. f (2 ^ k) XOR x) (map f [0..<2 ^ k]) = map f [0..<2 ^ Suc k]"
  proof -
    have "map f [2 ^ k..<2 ^ k + 2 ^ k] = map (\<lambda>i. f (2 ^ k + i)) [0..<2 ^ k]"
      by (simp add: map_add_upt [symmetric] add.commute)
    also have "\<dots> = map (\<lambda>i. f (2 ^ k) XOR f i) [0..<2 ^ k]" using assms by simp
    finally show ?thesis using upt_add_eq_append [of 0 "2 ^ k" "2 ^ k"] by (simp add: mult_2 comp_def)
  qed
  ultimately show ?case using Suc.hyps(1) [of "Suc k"] Suc.hyps(2) by (simp add: max_def)
qed

subsection \<open>The table of CRC-64 is the register\<close>

definition crc64_poly :: uint64 where "crc64_poly = 0xc96c5795d7870f42"

lemma crc_bits_8: "crc_bits poly 8 x = crc_step poly (crc_step poly (crc_step poly (crc_step poly
    (crc_step poly (crc_step poly (crc_step poly (crc_step poly x)))))))"
  by (simp add: crc_bits_def eval_nat_numeral)

lemma crc64_entries: "map (\<lambda>j. crc_bits crc64_poly 8 (of_nat (2 ^ j))) [0..<8] =
    [0xb32e4cbe03a75f6f,
     0xf4843657a840a05b,
     0x7bd0c384ff8f5e33,
     0xf7a18709ff1ebc66,
     0x7d9ba13851336649,
     0xfb374270a266cc92,
     0x64b62bcaebc387a1,
     0xc96c5795d7870f42]"
  by (simp add: upt_rec crc_bits_8 crc_step_def crc64_poly_def)

lemma crc64_table_doubled: "double_table [0]
    [0xb32e4cbe03a75f6f,
     0xf4843657a840a05b,
     0x7bd0c384ff8f5e33,
     0xf7a18709ff1ebc66,
     0x7d9ba13851336649,
     0xfb374270a266cc92,
     0x64b62bcaebc387a1,
     0xc96c5795d7870f42] = crc64_table"
  by (simp add: crc64_table_def)

lemma crc64_table_remainders: "crc64_table = map (\<lambda>i. crc_bits crc64_poly 8 (of_nat i)) [0..<256]"
proof -
  let ?f = "\<lambda>i. crc_bits crc64_poly 8 (of_nat i)"
  have "crc_bits crc64_poly 8 0 = 0" using crc_bits_xor [of crc64_poly 8 0 0] by simp
  hence z: "[0] = map ?f [0..<2 ^ 0]" by simp
  have "crc64_table = double_table (map ?f [0..<2 ^ 0]) (map (\<lambda>j. ?f (2 ^ j)) [0..<8])"
    unfolding z [symmetric] crc64_entries crc64_table_doubled ..
  also have "\<dots> = map ?f [0..<2 ^ ord_class.max 0 8]"
    by (rule double_table_remainders) (simp only: of_nat_xor_exp crc_bits_xor)
  finally show ?thesis by simp
qed


lemma crc64_byte:
  "crc64_table ! unat ((crc XOR byte_word c) AND 0xff) XOR drop_bit 8 crc = crc_bits crc64_poly 8 (crc XOR byte_word c)"
proof -
  let ?x = "crc XOR byte_word c :: uint64"
  have "crc64_table ! unat (take_bit 8 ?x) = crc_bits crc64_poly 8 (of_nat (unat (take_bit 8 ?x)))"
    using unat_low_byte [of ?x] by (simp add: crc64_table_remainders del: of_nat_unat unsigned_take_bit_eq)
  moreover have "drop_bit 8 ?x = drop_bit 8 crc" by (simp add: drop_bit_xor drop_byte_word)
  ultimately show ?thesis using crc_bits_split [of crc64_poly 8 ?x] by (simp add: low_byte)
qed

lemma crc64_partial_register: "crc64_partial data crc = crc_register crc64_poly data crc"
  by (induction data arbitrary: crc) (simp_all add: crc64_byte)

text \<open>\<^verbatim>\<open>crc64\<close> is the remainder of the CRC-64 of ECMA-182, reflected: the table and the
  loop over bytes compute the shift register that divides the data bit by bit, with the
  register set before and inverted after.\<close>

theorem crc64_is_register: "crc64 data = NOT (crc_register crc64_poly data (- 1))"
  by (simp add: crc64_def crc64_partial_register flip: not_eq_complement)

subsection \<open>CRC-16\<close>

definition crc16_step :: "16 word \<Rightarrow> 16 word" where
  "crc16_step x = push_bit 1 x XOR (if bit x 15 then 0x1021 else 0)"

definition crc16_bits :: "nat \<Rightarrow> 16 word \<Rightarrow> 16 word" where
  "crc16_bits n x = (crc16_step ^^ n) x"

fun crc16_register :: "string \<Rightarrow> 16 word \<Rightarrow> 16 word" where
  "crc16_register [] crc = crc"
| "crc16_register (c # data) crc = crc16_register data (crc16_bits 8 (crc XOR push_bit 8 (byte_word c)))"

lemma crc16_step_xor: "crc16_step (x XOR y) = crc16_step x XOR crc16_step y"
  by (rule bit_word_eqI) (auto simp: crc16_step_def bit_simps)

lemma crc16_bits_xor: "crc16_bits n (x XOR y) = crc16_bits n x XOR crc16_bits n y"
  by (induction n) (simp_all add: crc16_bits_def crc16_step_xor)

lemma crc16_bits_8: "crc16_bits 8 x = crc16_step (crc16_step (crc16_step (crc16_step
    (crc16_step (crc16_step (crc16_step (crc16_step x)))))))"
  by (simp add: crc16_bits_def eval_nat_numeral)

lemma crc16_entries: "map (\<lambda>j. crc16_bits 8 (push_bit 8 (of_nat (2 ^ j)))) [0..<8] =
    [0x1021, 0x2042, 0x4084, 0x8108, 0x1231, 0x2462, 0x48c4, 0x9188]"
  by (simp add: upt_rec crc16_bits_8 crc16_step_def)

lemma crc16_table_doubled: "double_table [0]
    [0x1021, 0x2042, 0x4084, 0x8108, 0x1231, 0x2462, 0x48c4, 0x9188] = crc16_table"
  by (simp add: crc16_table_def)

lemma crc16_table_remainders: "crc16_table = map (\<lambda>i. crc16_bits 8 (push_bit 8 (of_nat i))) [0..<256]"
proof -
  let ?f = "\<lambda>i. crc16_bits 8 (push_bit 8 (of_nat i))"
  have "crc16_bits 8 0 = 0" using crc16_bits_xor [of 8 0 0] by simp
  hence z: "[0] = map ?f [0..<2 ^ 0]" by simp
  have "crc16_table = double_table (map ?f [0..<2 ^ 0]) (map (\<lambda>j. ?f (2 ^ j)) [0..<8])"
    unfolding z [symmetric] crc16_entries crc16_table_doubled ..
  also have "\<dots> = map ?f [0..<2 ^ ord_class.max 0 8]"
    by (rule double_table_remainders) (simp only: of_nat_xor_exp push_bit_xor crc16_bits_xor)
  finally show ?thesis by simp
qed

lemma crc16_step_top: "\<not> bit x 15 \<Longrightarrow> crc16_step x = push_bit 1 x"
  by (simp add: crc16_step_def)

text \<open>The low byte moves up.\<close>

lemma crc16_bits_low: "n \<le> 8 \<Longrightarrow> crc16_bits n (take_bit 8 x) = push_bit n (take_bit 8 x)"
proof (induction n)
  case (Suc n)
  have "\<not> bit (push_bit n (take_bit 8 x)) 15" using Suc.prems by (auto simp: bit_simps)
  thus ?case using Suc by (simp add: crc16_bits_def crc16_step_top push_bit_push_bit del: push_bit_Suc)
qed (simp add: crc16_bits_def)

lemma crc16_bits_split: "crc16_bits 8 x = crc16_bits 8 (push_bit 8 (drop_bit 8 x)) XOR push_bit 8 (take_bit 8 x)"
proof -
  have "x = push_bit 8 (drop_bit 8 x) XOR take_bit 8 x" by (rule bit_word_eqI) (auto simp: bit_simps)
  thus ?thesis using crc16_bits_xor [of 8 "push_bit 8 (drop_bit 8 x)" "take_bit 8 x"] crc16_bits_low [of 8 x] by simp
qed

lemma crc16_byte:
  "(ucast (let t = (byte_word c XOR drop_bit 8 crc) AND 0xff
      in ucast (crc16_table ! unat t) XOR push_bit 8 crc) :: 16 word) = crc16_bits 8 (ucast (crc :: uint32) XOR push_bit 8 (byte_word c))"
proof -
  let ?t = "take_bit 8 (byte_word c XOR drop_bit 8 crc)" and ?x = "ucast crc XOR push_bit 8 (byte_word c) :: 16 word"
  have "crc16_table ! unat ?t = crc16_bits 8 (push_bit 8 (of_nat (unat ?t)))"
    using unat_low_byte [of "byte_word c XOR drop_bit 8 crc"]
    by (simp add: crc16_table_remainders del: of_nat_unat unsigned_take_bit_eq)
  moreover have "push_bit 8 (of_nat (unat ?t)) = push_bit 8 (drop_bit 8 ?x)"
  proof -
    have "(of_nat (unat ?t) :: 16 word) = ucast ?t" by simp
    moreover have "push_bit 8 (ucast ?t :: 16 word) = push_bit 8 (drop_bit 8 ?x)"
      by (rule bit_word_eqI) (auto simp: byte_word_def bit_simps)
    ultimately show ?thesis by simp
  qed
  moreover have "ucast (push_bit 8 crc) = (push_bit 8 (take_bit 8 ?x) :: 16 word)"
    by (rule bit_word_eqI) (auto simp: bit_simps)
  moreover have "(ucast (ucast a XOR p :: uint32) :: 16 word) = a XOR ucast p" for a :: "16 word" and p
    by (rule bit_word_eqI) (auto simp: bit_simps)
  ultimately show ?thesis unfolding Let_def low_byte by (simp only: crc16_bits_split [of ?x])
qed

lemma crc16_loop_register: "ucast (crc16_loop data crc) = crc16_register data (ucast crc)"
proof (induction data arbitrary: crc)
  case (Cons c data)
  show ?case unfolding crc16_loop.simps crc16_register.simps Let_def Cons.IH
    using crc16_byte [of c crc] by (simp only: Let_def)
qed simp

theorem crc16_is_register: "crc16 data = crc16_register data 0"
  by (simp add: crc16_def crc16_loop_register)

subsection \<open>Errors that CRC-64 detects\<close>

lemma xor_right_inj: "a XOR c = b XOR c \<Longrightarrow> a = (b :: 'w::len word)"
  by (metis xor.assoc xor.right_neutral xor_self_eq)

lemma crc64_step_inj: "crc_step crc64_poly x = crc_step crc64_poly y \<Longrightarrow> x = y"
proof -
  assume e: "crc_step crc64_poly x = crc_step crc64_poly y"
  have top: "bit (crc_step crc64_poly z) 63 = bit z 0" for z
  proof -
    have "bit crc64_poly 63" by (simp add: crc64_poly_def)
    moreover have "\<not> bit z 64" using bit_imp_le_length [of z 64] by auto
    ultimately show ?thesis by (auto simp: crc_step_def bit_simps)
  qed
  have z: "bit x 0 = bit y 0" using top [of x] top [of y] e by simp
  have "drop_bit 1 x XOR (if bit y 0 then crc64_poly else 0) = drop_bit 1 y XOR (if bit y 0 then crc64_poly else 0)"
    using e z by (simp add: crc_step_def)
  hence "drop_bit 1 x = drop_bit 1 y" by (rule xor_right_inj)
  hence s: "bit (drop_bit 1 x) n = bit (drop_bit 1 y) n" for n by simp
  show "x = y"
  proof (rule bit_word_eqI)
    fix n
    show "bit x n = bit y n" using z s [of "n - 1"] by (cases n) (simp_all add: bit_simps)
  qed
qed

lemma crc64_bits_inj: "crc_bits crc64_poly n x = crc_bits crc64_poly n y \<Longrightarrow> x = y"
  by (induction n) (auto simp: crc_bits_def dest: crc64_step_inj)

lemma crc_register_append: "crc_register poly (a @ b) crc = crc_register poly b (crc_register poly a crc)"
  by (induction a arbitrary: crc) simp_all

lemma crc64_register_inj: "crc_register crc64_poly data x = crc_register crc64_poly data y \<Longrightarrow> x = y"
proof (induction data arbitrary: x y)
  case (Cons c data)
  hence "crc_bits crc64_poly 8 (x XOR byte_word c) = crc_bits crc64_poly 8 (y XOR byte_word c)" by simp
  thus ?case by (rule xor_right_inj [OF crc64_bits_inj])
qed simp

text \<open>Up to eight bytes enter the register as one number.\<close>

fun bytes_word :: "string \<Rightarrow> uint64" where
  "bytes_word [] = 0"
| "bytes_word (c # cs) = byte_word c XOR push_bit 8 (bytes_word cs)"

lemma byte_word_high: "8 \<le> n \<Longrightarrow> \<not> bit (byte_word c :: 'w::len word) n"
proof -
  assume "8 \<le> n"
  hence "(256 :: nat) \<le> 2 ^ n" using power_increasing [of 8 n "2 :: nat"] by simp
  hence "uc c < 2 ^ n" by (rule order_less_le_trans [OF uc_bound])
  hence "\<not> bit (uc c) n" by (simp add: bit_iff_odd)
  thus ?thesis by (simp add: byte_word_def bit_simps)
qed

lemma bytes_word_high: "8 * length cs \<le> n \<Longrightarrow> \<not> bit (bytes_word cs) n"
proof (induction cs arbitrary: n)
  case (Cons c cs)
  have "8 \<le> n" "8 * length cs \<le> n - 8" using Cons.prems by simp_all
  thus ?case using Cons.IH [of "n - 8"] by (auto simp: bit_simps byte_word_high)
qed simp

lemma drop_bytes_word:
  assumes "length cs < 8"
  shows "drop_bit 8 (bytes_word (c # cs)) = bytes_word cs"
proof -
  have "drop_bit 8 (push_bit 8 (bytes_word cs)) = bytes_word cs"
  proof (rule bit_word_eqI)
    fix n
    have "bit (bytes_word cs) n \<Longrightarrow> n < 56" using bytes_word_high [of cs n] assms by (cases "n < 56") auto
    thus "bit (drop_bit 8 (push_bit 8 (bytes_word cs))) n = bit (bytes_word cs) n" by (auto simp: bit_simps)
  qed
  thus ?thesis by (simp add: drop_bit_xor drop_byte_word)
qed

lemma crc_register_bytes:
  "length cs \<le> 8 \<Longrightarrow> crc_register poly cs x = crc_bits poly (8 * length cs) (x XOR bytes_word cs)"
proof (induction cs arbitrary: x)
  case (Cons c cs)
  let ?W = "bytes_word cs"
  have d: "drop_bit 8 (push_bit 8 ?W) = ?W"
    using drop_bytes_word [of cs c] Cons.prems by (simp add: drop_bit_xor drop_byte_word)
  have "crc_bits poly 8 (push_bit 8 ?W) = ?W" using crc_bits_push [of poly 8 "push_bit 8 ?W"] d by simp
  hence "crc_bits poly 8 (x XOR byte_word c) XOR ?W = crc_bits poly 8 (x XOR bytes_word (c # cs))"
    using crc_bits_xor [of poly 8 "x XOR byte_word c" "push_bit 8 ?W"] by (simp add: xor.assoc)
  hence "crc_register poly (c # cs) x = crc_bits poly (8 * length cs) (crc_bits poly 8 (x XOR bytes_word (c # cs)))"
    using Cons by simp
  thus ?case using crc_bits_add [of poly "8 * length cs" 8] by (simp add: add.commute)
qed simp

lemma byte_word_inj: "byte_word c = (byte_word d :: uint64) \<Longrightarrow> c = d"
proof -
  assume "byte_word c = (byte_word d :: uint64)"
  hence "unat (of_nat (uc c) :: uint64) = unat (of_nat (uc d) :: uint64)" by (simp add: byte_word_def)
  moreover have "uc x < 2 ^ 64" for x using uc_bound [of x] by (rule order_less_trans) simp
  ultimately show "c = d" by (simp add: unsigned_of_nat take_bit_nat_eq_self uc_eq_iff)
qed

lemma bytes_word_inj: "length a = length b \<Longrightarrow> length b \<le> 8 \<Longrightarrow> bytes_word a = bytes_word b \<Longrightarrow> a = b"
proof (induction a b rule: list_induct2)
  case (Cons c cs d ds)
  have "bytes_word cs = bytes_word ds" using Cons.prems Cons.hyps
      drop_bytes_word [of cs c] drop_bytes_word [of ds d] by simp
  moreover have "byte_word c = (byte_word d :: uint64)" using Cons.prems(2) calculation xor_right_inj by simp
  ultimately show ?case using Cons byte_word_inj by auto
qed simp

text \<open>CRC-64 detects every error that is confined to eight consecutive bytes, wherever they are in
  the data and whatever they are replaced by.\<close>

theorem crc64_detects_bursts:
  assumes "length b = length c" "length c \<le> 8" "b \<noteq> c"
  shows "crc64 (a @ b @ d) \<noteq> crc64 (a @ c @ d)"
proof
  let ?R = "crc_register crc64_poly"
  assume "crc64 (a @ b @ d) = crc64 (a @ c @ d)"
  hence "?R d (?R b (?R a (- 1))) = ?R d (?R c (?R a (- 1)))"
    by (simp add: crc64_def crc64_partial_register crc_register_append)
  hence "?R b (?R a (- 1)) = ?R c (?R a (- 1))" by (rule crc64_register_inj)
  hence "?R a (- 1) XOR bytes_word b = ?R a (- 1) XOR bytes_word c"
    using assms by (simp add: crc_register_bytes) (metis crc64_bits_inj)
  hence "bytes_word b = bytes_word c" by (metis xor.commute xor_right_inj)
  thus False using bytes_word_inj assms by blast
qed

theorem crc64_detects_bursts_witness: "crc64 (''ab'' @ ''cde'' @ ''f'') \<noteq> crc64 (''ab'' @ ''xyz'' @ ''f'')"
  by (rule crc64_detects_bursts) simp_all


subsection \<open>Matrices\<close>

lemma gf32_times_loop_linear:
  assumes "\<And>x y. f (x XOR y) = f x XOR f y" and "\<And>k. k < m \<Longrightarrow> rows ! k = f (push_bit k 1)" "m \<le> length rows"
    and "\<And>k. m \<le> k \<Longrightarrow> \<not> bit vec k"
  shows "gf32_times_loop rows vec acc = Some (acc XOR f vec)"
  using assms
proof (induction rows arbitrary: m vec acc f)
  case Nil
  hence "vec = 0" by (intro bit_word_eqI) simp
  moreover have "f 0 = 0" using Nil.prems(1) [of 0 0] by simp
  ultimately show ?case by simp
next
  case (Cons r rows)
  have f0: "f 0 = 0" using Cons.prems(1) [of 0 0] by simp
  show ?case
  proof (cases "vec = 0")
    case True
    thus ?thesis using f0 by simp
  next
    case False
    have m: "0 < m" using Cons.prems(4) False by (cases m) (auto intro: bit_word_eqI)
    let ?g = "\<lambda>x. f (push_bit 1 x)"
    have "gf32_times_loop rows (drop_bit 1 vec) acc' = Some (acc' XOR ?g (drop_bit 1 vec))" for acc'
    proof (rule Cons.IH [of ?g "m - 1"])
      show "?g (x XOR y) = ?g x XOR ?g y" for x y using Cons.prems(1) by (simp only: push_bit_xor)
      show "rows ! k = ?g (push_bit k 1)" if "k < m - 1" for k
      proof -
        have e: "push_bit 1 (push_bit k 1) = push_bit (Suc k) (1 :: uint32)" by (simp only: push_bit_push_bit plus_1_eq_Suc)
        show ?thesis unfolding e using Cons.prems(2) [of "Suc k"] that by simp
      qed
      show "m - 1 \<le> length rows" using Cons.prems(3) by simp
      show "\<not> bit (drop_bit 1 vec) k" if "m - 1 \<le> k" for k
        using Cons.prems(4) [of "Suc k"] that by (simp add: bit_simps)
    qed
    moreover have "(vec AND 1 \<noteq> 0) = bit vec 0" by (simp add: and_one_eq bit_0 mod_2_eq_odd)
    moreover have "f vec = (if bit vec 0 then f 1 else 0) XOR ?g (drop_bit 1 vec)"
    proof -
      have spl: "vec = take_bit k vec XOR push_bit k (drop_bit k vec)" for k
        by (rule bit_word_eqI) (auto simp: bit_simps)
      have t: "take_bit 1 vec = (if bit vec 0 then 1 else 0)" by (rule bit_word_eqI) (auto simp: bit_simps bit_0)
      have "f vec = f (take_bit 1 vec XOR push_bit 1 (drop_bit 1 vec))" by (rule arg_cong [OF spl])
      also have "\<dots> = f (take_bit 1 vec) XOR ?g (drop_bit 1 vec)" by (rule Cons.prems(1))
      finally show ?thesis unfolding t by (simp only: if_distrib [of f] f0)
    qed
    moreover have "r = f 1" using Cons.prems(2) [of 0] m by simp
    ultimately show ?thesis using False by (simp add: xor.assoc)
  qed
qed

definition matrix_rows :: "(uint32 \<Rightarrow> uint32) \<Rightarrow> uint32 list" where
  "matrix_rows f = map (\<lambda>k. f (push_bit k 1)) [0..<32]"

lemma gf32_matrix_times_linear:
  assumes "\<And>x y. f (x XOR y) = f x XOR f y" "take 32 rows = matrix_rows f"
  shows "gf32_matrix_times rows vec = Some (f vec)"
proof -
  have len: "32 \<le> length rows" using arg_cong [OF assms(2), of length] by (simp add: matrix_rows_def min_def split: if_splits)
  have "rows ! k = f (push_bit k 1)" if "k < 32" for k
    using nth_take [OF that, of rows] that by (simp add: assms(2) matrix_rows_def)
  moreover have "\<not> bit vec k" if "32 \<le> k" for k using that bit_imp_le_length [of vec k] by auto
  ultimately show ?thesis
    using gf32_times_loop_linear [of f 32 rows vec 0] assms(1) len by (simp add: gf32_matrix_times_def)
qed

lemma those_map_Some: "(\<And>x. x \<in> set xs \<Longrightarrow> f x = Some (g x)) \<Longrightarrow> those (map f xs) = Some (map g xs)"
  by (induction xs) simp_all

definition power_op :: "nat \<Rightarrow> uint32 \<Rightarrow> uint32" where
  "power_op n = crc_bits crc32c_poly (2 ^ n)"

lemma power_op_xor: "power_op n (x XOR y) = power_op n x XOR power_op n y"
  by (simp add: power_op_def crc_bits_xor)

lemma crc_step_push1: "0 < k \<Longrightarrow> k < 32 \<Longrightarrow> crc_step p (push_bit k 1) = (push_bit (k - 1) 1 :: uint32)"
proof -
  assume k: "0 < k" "k < 32"
  have "drop_bit 1 (push_bit k 1) = (push_bit (k - 1) 1 :: uint32)"
    using k by (intro bit_word_eqI) (auto simp: bit_simps)
  thus ?thesis using k by (simp add: crc_step_def bit_simps)
qed

lemma power_matrix_rows: "power_matrix n = Some (matrix_rows (power_op n))"
proof (induction n)
  case 0
  have "power_op 0 (push_bit (Suc k) 1) = push_bit k 1" if "k < 31" for k
    using crc_step_push1 [of "Suc k" crc32c_poly] that by (simp add: power_op_def crc_bits_def del: push_bit_Suc)
  moreover have "power_op 0 1 = crc32c_poly" by (simp add: power_op_def crc_bits_def crc_step_def)
  moreover have "[0..<32] = 0 # map Suc [0..<31]" by (simp add: map_Suc_upt upt_conv_Cons)
  ultimately show ?case by (simp add: matrix_rows_def del: push_bit_Suc upt_rec_numeral)
next
  case (Suc n)
  let ?M = "matrix_rows (power_op n)"
  have "gf32_matrix_times ?M (?M ! k) = Some (power_op (Suc n) (push_bit k 1))" if "k < 32" for k
  proof -
    have "gf32_matrix_times ?M v = Some (power_op n v)" for v
      by (rule gf32_matrix_times_linear [OF power_op_xor]) (simp add: matrix_rows_def)
    thus ?thesis using that crc_bits_add [of crc32c_poly "2 ^ n" "2 ^ n"]
      by (simp add: matrix_rows_def power_op_def mult_2)
  qed
  hence "gf32_matrix_square ?M = Some (matrix_rows (power_op (Suc n)))"
    unfolding gf32_matrix_square_def matrix_rows_def [of "power_op (Suc n)"] by (intro those_map_Some) simp
  thus ?case using Suc by simp
qed

lemma drop_concat_map:
  "(\<And>x. x \<in> set xs \<Longrightarrow> length (f x) = m) \<Longrightarrow> j < length xs \<Longrightarrow> take m (drop (m * j) (concat (map f xs))) = f (xs ! j)"
proof (induction xs arbitrary: j)
  case (Cons x xs)
  thus ?case by (cases j) (simp_all add: drop_append)
qed simp

definition power_rows :: "uint32 list" where
  "power_rows = concat (map (\<lambda>n. matrix_rows (power_op n)) [0..<32])"

lemma power_buf_rows: "power_buf = Some power_rows"
proof -
  have "those (map power_matrix [0..<32]) = Some (map (\<lambda>n. matrix_rows (power_op n)) [0..<32])"
    by (rule those_map_Some) (rule power_matrix_rows)
  thus ?thesis by (simp add: power_buf_def power_rows_def)
qed

lemma power_rows_times: "j < 32 \<Longrightarrow> gf32_matrix_times (drop (32 * j) power_rows) v = Some (power_op j v)"
  by (intro gf32_matrix_times_linear [OF power_op_xor])
    (simp add: power_rows_def drop_concat_map matrix_rows_def)

lemma extend_loop_power:
  "cnt < 2 ^ (29 - j) \<Longrightarrow> extend_loop (drop (32 * (2 + j)) power_rows) cnt old = Some (crc_bits crc32c_poly (8 * 2 ^ j * cnt) old)"
proof (induction cnt arbitrary: j old rule: less_induct)
  case (less cnt)
  let ?p = "drop (32 * (3 + j)) power_rows"
  have p: "drop 32 (drop (32 * (2 + j)) power_rows) = ?p" by (simp add: algebra_simps)
  have odd: "(if cnt mod 2 = 1 then gf32_matrix_times ?p old else Some old) = Some (crc_bits crc32c_poly (8 * 2 ^ j * (cnt mod 2)) old)"
  proof (cases "cnt mod 2 = 1")
    case True
    hence "1 \<le> cnt" by (cases cnt) auto
    hence "(1 :: nat) < 2 ^ (29 - j)" using less.prems by linarith
    hence "j < 29" by (cases "j < 29") auto
    thus ?thesis using True power_rows_times [of "3 + j" old] by (simp add: power_op_def power_add)
  next
    case False
    hence "cnt mod 2 = 0" by simp
    thus ?thesis by simp
  qed
  have split: "8 * 2 ^ j * cnt = 8 * 2 ^ Suc j * (cnt div 2) + 8 * 2 ^ j * (cnt mod 2)"
  proof -
    have "8 * 2 ^ j * cnt = 8 * 2 ^ j * (2 * (cnt div 2) + cnt mod 2)" by simp
    also have "\<dots> = 8 * 2 ^ Suc j * (cnt div 2) + 8 * 2 ^ j * (cnt mod 2)" by (simp only: distrib_left power_Suc mult.assoc)
    finally show ?thesis .
  qed
  show ?case
  proof (cases "cnt div 2 = 0")
    case True
    hence e: "8 * 2 ^ j * cnt = 8 * 2 ^ j * (cnt mod 2)" using split by (simp only: mult_0_right add_0)
    show ?thesis unfolding e using odd True by (subst extend_loop.simps) (simp add: p Let_def algebra_simps split: if_splits)
  next
    case False
    have "cnt div 2 < 2 ^ (29 - Suc j)"
    proof -
      have "2 \<le> cnt" using False by simp
      hence "(2 :: nat) < 2 ^ (29 - j)" using less.prems by linarith
      hence "29 - j = Suc (29 - Suc j)" by (cases "j < 29") auto
      thus ?thesis using less.prems by simp
    qed
    with less.IH [of "cnt div 2" "Suc j"] False
    have "extend_loop ?p (cnt div 2) v = Some (crc_bits crc32c_poly (8 * 2 ^ Suc j * (cnt div 2)) v)" for v
      by (simp add: add.commute)
    moreover have "extend_loop (drop (32 * (2 + j)) power_rows) cnt old =
        extend_loop ?p (cnt div 2) (crc_bits crc32c_poly (8 * 2 ^ j * (cnt mod 2)) old)"
      using odd False by (subst extend_loop.simps) (simp add: p Let_def algebra_simps split: if_splits)
    ultimately show ?thesis unfolding split by (simp only: crc_bits_add)
  qed
qed

subsection \<open>The sum of joined data\<close>

text \<open>The documented CRC-32C: the register is set before and inverted after.\<close>

definition crc32c_spec :: "string \<Rightarrow> uint32" where
  "crc32c_spec data = NOT (crc_register crc32c_poly data (- 1))"

lemma crc_register_linear:
  "crc_register poly data (x XOR y) = crc_register poly data x XOR crc_bits poly (8 * length data) y"
proof (induction data arbitrary: x y)
  case (Cons c data)
  have "crc_bits poly 8 (x XOR y XOR byte_word c) = crc_bits poly 8 (x XOR byte_word c) XOR crc_bits poly 8 y"
    by (simp add: xor.assoc xor.commute [of y] flip: crc_bits_xor)
  thus ?case using Cons crc_bits_add [of poly "8 * length data" 8 y] by (simp add: add.commute xor.assoc)
qed simp

text \<open>C0: with the sum of two pieces of data and the length of the second, \<^verbatim>\<open>crc32c_extend\<close>
  computes the sum of both together, for every length below \<open>2 ^ 29\<close>, without reading past
  its table of matrices.\<close>

theorem crc32c_extend_joins:
  assumes "\<And>s. crc32c s = crc32c_spec s" "length b < 2 ^ 29"
  shows "crc32c_extend (crc32c a) (crc32c b) (length b) = Some (crc32c (a @ b))"
proof (cases "b = []")
  case True
  thus ?thesis by (simp add: crc32c_extend_def power_buf_rows)
next
  case False
  let ?R = "crc_register crc32c_poly" and ?n = "8 * length b"
  have "extend_loop (drop 64 power_rows) (length b) (crc32c a) = Some (crc_bits crc32c_poly ?n (crc32c a))"
    using extend_loop_power [of "length b" 0 "crc32c a"] assms(2) by simp
  hence e: "crc32c_extend (crc32c a) (crc32c b) (length b) = Some (crc_bits crc32c_poly ?n (crc32c a) XOR crc32c b)"
    using False by (simp add: crc32c_extend_def power_buf_rows)
  have inv: "x XOR NOT (y XOR x) = NOT y" for x y :: uint32 by (rule bit_word_eqI) (auto simp: bit_simps)
  have "?R b (- 1) = ?R b (?R a (- 1)) XOR crc_bits crc32c_poly ?n (crc32c a)"
  proof -
    have "?R a (- 1) XOR crc32c a = - 1" by (simp add: assms(1) crc32c_spec_def)
    thus ?thesis using crc_register_linear [of crc32c_poly b "?R a (- 1)" "crc32c a"] by simp
  qed
  hence "crc_bits crc32c_poly ?n (crc32c a) XOR crc32c b = crc32c (a @ b)"
    using inv by (simp add: assms(1) [of b] assms(1) [of "a @ b"] crc32c_spec_def crc_register_append)
  thus ?thesis using e by simp
qed

theorem crc32c_extend_joins_witness:
  "crc32c_extend (crc32c_spec ''ab'') (crc32c_spec ''cde'') (length ''cde'') = Some (crc32c_spec ''abcde'')"
  using crc32c_extend_joins [of crc32c_spec "''cde''" "''ab''"] by simp

text \<open>For longer data the pointer runs past the table.\<close>

lemma extend_loop_past: "v \<noteq> 0 \<Longrightarrow> j \<le> 29 \<Longrightarrow> extend_loop (drop (32 * (2 + j)) power_rows) (2 ^ (29 - j)) v = None"
proof (induction "29 - j" arbitrary: j)
  case 0
  hence j: "j = 29" by simp
  have "length power_rows = 1024" by (simp add: power_rows_def matrix_rows_def length_concat comp_def sum_list_triv)
  hence "drop 32 (drop (32 * (2 + j)) power_rows) = []" by (simp add: j)
  thus ?case using 0 j by (subst extend_loop.simps) (simp add: gf32_matrix_times_def)
next
  case (Suc d)
  hence e: "29 - j = Suc (29 - Suc j)" by simp
  have p: "drop 32 (drop (32 * (2 + j)) power_rows) = drop (32 * (2 + Suc j)) power_rows" by (simp add: algebra_simps)
  have "j \<le> 28" using Suc.hyps(2) by simp
  thus ?case using Suc.hyps(1) [of "Suc j"] Suc.hyps(2) Suc.prems
    by (subst extend_loop.simps) (simp only: e p Let_def, simp)
qed

lemma crc32c_extend_past: "old \<noteq> 0 \<Longrightarrow> crc32c_extend old new (2 ^ 29) = None"
  using extend_loop_past [of old 0] by (simp add: crc32c_extend_def power_buf_rows)

end
