(* ===== verification/Spec2Isabelle.thy ===== *)
theory Spec2Isabelle
  imports Prelude VectorQueue OrderedEvents KHeap MultiTimeout StringBuilder Status Base64 Utf8 Misc Codecs Parser Json JsonMemory HttpUrl FlatHashTable TlSerialization PollFlags SocketIo InboundConnection TcpListener Scheduler ChainBuffer BufferedFd TransparentProxy Punycode Socks5 IpAddress UdpSocket BufferedUdp SlotContainer DecTree Checksums
begin

text \<open>
  Verification library of PXC-Core, the core of a proxy server in C++: a utility library
  (\<^verbatim>\<open>pxcutils\<close>), an actor library (\<^verbatim>\<open>pxcactor\<close>) and the actors of
  the network (\<^verbatim>\<open>pxcnet\<close>). All paths below are under \<^verbatim>\<open>src/\<close>;
  \<^verbatim>\<open>utils/\<close> stands for \<^verbatim>\<open>pxcutils/pxc/utils/\<close>.

  How the parts interact. The program is a set of actors. A scheduler
  (\<^verbatim>\<open>pxcactor/pxc/actor/impl/Scheduler\<close>) delivers events to them: messages of other
  actors, timeouts (kept in a \<^verbatim>\<open>KHeap\<close>) and the wake-ups of the poll thread, which
  writes the readiness of descriptors into a \<^verbatim>\<open>PollFlagsSet\<close>. The actor
  \<^verbatim>\<open>TcpListener\<close> accepts connections and hands each to an \<^verbatim>\<open>InboundConnection\<close>,
  which reads and writes its socket until the flags say that there is nothing to do. Everything
  is built on the utilities: results and errors, text builders, parsers, encodings and
  containers.

  Conventions. A byte string is a \<open>string\<close>. \<open>size_t\<close> is \<open>nat\<close>, with the
  wrap-around written out where the code can reach it; other machine integers are words or
  are reduced with \<open>mod\<close>. A failed \<^verbatim>\<open>CHECK\<close>, undefined behaviour (a read or
  write out of bounds) and a call that does not return are \<open>None\<close> (in the
  network theories \<open>Fatal\<close> and \<open>Starved\<close>), so that a theorem that a function returns
  \<open>Some\<close> states that none of these happens. A \<^verbatim>\<open>Status\<close> is an optional error, a
  \<^verbatim>\<open>Result<T>\<close> the sum of an error and a value. Callbacks that the caller supplies are
  recorded as the list of their calls; what the operating system returns, client code
  such as comparison, hash and random functions, and Unicode tables are arguments.

  Theories.

  \<^item> \<open>Prelude\<close>: byte and list lemmas, the tables of \<^verbatim>\<open>misc.h\<close>, collections of rewrite rules.
  \<^item> \<open>VectorQueue\<close> (\<^verbatim>\<open>utils/VectorQueue.h\<close>): the vector with a read position; the locale
    of queues and its interpretation; every run refines a list, and \<^verbatim>\<open>pop_rand\<close> can
    return an element that was popped before.
  \<^item> \<open>OrderedEvents\<close> (\<^verbatim>\<open>utils/OrderedEventsProcessor.h\<close>, \<^verbatim>\<open>ChangesProcessor.h\<close>):
    events are handed over in the order of their numbers, changes in the order of their start.
  \<^item> \<open>KHeap\<close>, \<open>MultiTimeout\<close> (\<^verbatim>\<open>utils/Heap.h\<close>,
    \<^verbatim>\<open>pxcactor/pxc/actor/MultiTimeout\<close>): the 4-ary heap with back pointers refines a
    priority map; the timeouts of many keys over one timeout of an actor use it through
    the locale of priority queues.
  \<^item> \<open>StringBuilder\<close>, \<open>Status\<close> (\<^verbatim>\<open>utils/StringBuilder\<close>, \<^verbatim>\<open>Status\<close>): text
    builders with fixed and growing buffers, decimal printing, errors and results.
  \<^item> \<open>Base64\<close>, \<open>Codecs\<close>, \<open>Misc\<close> (\<^verbatim>\<open>utils/base64.cpp\<close>,
    \<^verbatim>\<open>misc.h\<close>, \<^verbatim>\<open>misc.cpp\<close>): base64, base64url, base32, hexadecimal, URL and
    run-length codecs; splitting, joining, parsing of integers and narrowing casts. Decoding is
    shown to accept exactly the encodings.
  \<^item> \<open>Utf8\<close> (\<^verbatim>\<open>utils/utf8\<close>): recogniser, length, substrings and truncation, in
    characters and in UTF-16 units.
  \<^item> \<open>Parser\<close>, \<open>Json\<close>, \<open>JsonMemory\<close>, \<open>HttpUrl\<close> (\<^verbatim>\<open>utils/Parser.h\<close>,
    \<^verbatim>\<open>JsonBuilder\<close>, \<^verbatim>\<open>HttpUrl.cpp\<close>): the cursor, the JSON printer and the decoder with
    the limit of its depth, the unescaping of strings in the memory that they are read from,
    and the parser and printer of URLs with its checks and its reads by index.
  \<^item> \<open>Checksums\<close> (\<^verbatim>\<open>utils/crypto.cpp\<close>): CRC-64 and CRC-16 by table, against the register
    that divides bit by bit, and the combination of CRC-32C sums by powers of a matrix.
  \<^item> \<open>FlatHashTable\<close> (\<^verbatim>\<open>utils/FlatHashTable.h\<close>): open addressing with linear probing,
    growing, shrinking and erasing without tombstones; the locale \<open>map_store\<close> and its
    interpretation; every run refines a partial map, for any hash function.
  \<^item> \<open>SlotContainer\<close>, \<open>DecTree\<close> (\<^verbatim>\<open>utils/Container.h\<close>, \<^verbatim>\<open>DecTree.h\<close>): slots with
    generations, whose identifiers are never confused although slots are used again; and the
    randomised search tree, which refines a map.
  \<^item> \<open>TlSerialization\<close> (\<^verbatim>\<open>utils/tl_storers.h\<close>, \<^verbatim>\<open>tl_parsers.h\<close>,
    \<^verbatim>\<open>tl_helpers.h\<close>): serialization, the computation of its length and parsing of
    untrusted input.
  \<^item> \<open>PollFlags\<close> (\<^verbatim>\<open>utils/port/PollFlags\<close>, \<^verbatim>\<open>port/detail/PollableFd.h\<close>): the
    flags, and a step relation of the poll thread and the owner of a descriptor in which
    no wake-up is lost.
  \<^item> \<open>SocketIo\<close>, \<open>InboundConnection\<close>, \<open>TcpListener\<close>
    (\<^verbatim>\<open>utils/port/SocketFd.cpp\<close>, \<^verbatim>\<open>ServerSocketFd.cpp\<close>,
    \<^verbatim>\<open>pxcnet/pxc/net/\<close>): reads, writes and accepts over any results of the system calls;
    the connection and the listener, with what is sent, what is handed over and when an
    event returns.
  \<^item> \<open>ChainBuffer\<close>, \<open>BufferedFd\<close> (\<^verbatim>\<open>utils/buffer.h\<close>, \<^verbatim>\<open>BufferedFd.h\<close>):
    chains of shared slices with any number of readers, refined by one growing byte
    string and a position for each reader; the buffered descriptor over two chains, which
    neither loses nor reorders a byte.
  \<^item> \<open>UdpSocket\<close>, \<open>BufferedUdp\<close> (\<^verbatim>\<open>utils/port/UdpSocketFd.cpp\<close>, \<^verbatim>\<open>BufferedUdp.h\<close>):
    datagrams, sent in order and received into buffers that the datagrams handed out before
    share, with an explicit memory; the search for the largest buffer of the system.
  \<^item> \<open>TransparentProxy\<close>, \<open>Socks5\<close> (\<^verbatim>\<open>pxcnet/pxc/net/\<close>): the actor
    that talks to a proxy and reports its outcome once, and the handlers of SOCKS5 requests.
  \<^item> \<open>Punycode\<close>, \<open>IpAddress\<close> (\<^verbatim>\<open>utils/port/IPAddress\<close>): the encoding of
    international host names, against the decoder of RFC 3492, and addresses: order, text,
    reserved blocks and the choice among the results of a lookup.
  \<^item> \<open>Scheduler\<close> (\<^verbatim>\<open>pxcactor/pxc/actor/impl/\<close>): mailboxes, nested immediate sends,
    actors created here or for another scheduler, stopping, and migration with the callbacks that
    run outside an event, for arbitrary code of the actors; every mailbox is a queue, also for
    the events that overtake an actor on its way, and a ready actor can starve.

  Bounds and fuel. Recursion on the input is structural or has a proved measure. The loops of
  the hash table run with the number of buckets as fuel, which the invariant (at least one
  empty bucket) makes enough; the JSON decoder takes the depth limit of the code. The network
  loops end with the list of system-call results, and the liveness theorems state lists that
  are long enough. The loop of
  \<open>maximize_buffer\<close> is a \<open>partial_function\<close>, and its termination is a theorem. The nesting of immediate sends and of creations is bounded by an argument of \<open>sched_call\<close>,
  the depth of the call stack; the theorems hold for every bound. The bound of
  \<open>run_list\<close> is the length of the list, which only shrinks.

  Not modelled. Ciphers, digests and compression call OpenSSL and zlib; Unicode tables are
  generated; files, paths, threads, clocks and pollers are input and output; lock-free
  containers rest on a memory model that the library does not have; the Windows branches are
  another program. Of the utilities, byte flows, the option parser and some small
  containers have no model. Every source file is listed in the manifest with the reason.
\<close>

end
